(* ===== verification/Prelude.thy ===== *)
theory Prelude
  imports Main "HOL-Library.Word" "HOL-Library.AList"
begin

text \<open>
  Prelude of the OneBase development: the names of the code's basic types
  (\<open>src/include/onebase/common\<close>), errors as values, the arithmetic of
  \<open>size_t\<close>, byte buffers with little-endian integers (what the code does with
  \<open>reinterpret_cast\<close> and \<open>memcpy\<close> on a page), and the generic lemmas the
  components share. Two collections of rewrite rules are filled by the components:
  \<open>byte_simps\<close> for reads after writes on buffers and \<open>alist_simps\<close> for the
  association lists that stand for iterated hash tables.
\<close>

named_theorems byte_simps \<open>reads and writes on byte buffers\<close>
named_theorems alist_simps \<open>association lists\<close>

section \<open>Basic types\<close>

text \<open>
  \<open>page_id_t\<close> and \<open>frame_id_t\<close> are 32-bit signed integers of which the code uses
  \<open>-1\<close> and the non-negative ones; they are \<open>int\<close>, and the bounds that matter are
  stated where they matter. A \<open>char\<close> buffer is a list of 8-bit words.
\<close>

type_synonym page_id = int
type_synonym frame_id = int
type_synonym txn_id = int
type_synonym byte = "8 word"

definition INVALID_PAGE_ID :: page_id where
  "INVALID_PAGE_ID = -1"

definition PAGE_SIZE :: nat where
  "PAGE_SIZE = 4096"

datatype RID = RID (GetPageId: page_id) (GetSlotNum: nat)

text \<open>
  The exceptions the code throws, by their standard class and message, and
  \<open>UndefinedBehaviour\<close> for what the C++ standard leaves undefined (the
  front of an empty list, signed overflow, an access outside an object).
\<close>

datatype error =
    InvalidArgument string
  | RuntimeError string
  | LogicError string
  | OutOfRange string
  | UndefinedBehaviour

text \<open>
  An operation on a state \<open>'s\<close> that may throw returns the outcome and the state it
  leaves behind, also when it throws.
\<close>

type_synonym ('a, 's) outcome = "(error + 'a) \<times> 's"

text \<open>Sequencing: an exception skips the rest and leaves the state where it was thrown.\<close>

definition bind_out :: "('a, 's) outcome \<Rightarrow> ('a \<Rightarrow> 's \<Rightarrow> ('b, 's) outcome) \<Rightarrow> ('b, 's) outcome" where
  "bind_out m f = (case m of (Inl e, s) \<Rightarrow> (Inl e, s) | (Inr x, s) \<Rightarrow> f x s)"

lemma bind_out_simps [simp]:
  "bind_out (Inl e, s) f = (Inl e, s)"
  "bind_out (Inr x, s) f = f x s"
  by (simp_all add: bind_out_def)

text \<open>The same for code that may also run forever (\<open>None\<close>).\<close>

definition and_then ::
  "('a, 's) outcome option \<Rightarrow> ('a \<Rightarrow> 's \<Rightarrow> ('b, 's) outcome option) \<Rightarrow> ('b, 's) outcome option" where
  "and_then m f = (case m of None \<Rightarrow> None | Some (Inl e, s) \<Rightarrow> Some (Inl e, s) | Some (Inr x, s) \<Rightarrow> f x s)"

lemma and_then_simps [simp]:
  "and_then None f = None" "and_then (Some (Inl e, s)) f = Some (Inl e, s)" "and_then (Some (Inr x, s)) f = f x s"
  by (simp_all add: and_then_def)

lemma and_then_bind:
  "and_then m f = Option.bind m (\<lambda>r. case r of (Inl e, s) \<Rightarrow> Some (Inl e, s) | (Inr x, s) \<Rightarrow> f x s)"
  by (auto simp: and_then_def split: option.splits sum.splits)

lemma and_then_mono [partial_function_mono]:
  assumes m: "mono_option m" and f: "\<And>x s. mono_option (\<lambda>g. f g x s)"
  shows "mono_option (\<lambda>g. and_then (m g) (f g))"
  unfolding and_then_bind
proof (rule bind_mono [OF m])
  fix r
  show "mono_option (\<lambda>g. case r of (Inl e, s) \<Rightarrow> Some (Inl e, s) | (Inr x, s) \<Rightarrow> f g x s)"
    using f by (cases r; cases "fst r") (auto intro: option.const_mono)
qed

text \<open>The same for code that throws but keeps no state.\<close>

definition bind_err :: "error + 'a \<Rightarrow> ('a \<Rightarrow> error + 'b) \<Rightarrow> error + 'b" where
  "bind_err m f = (case m of Inl e \<Rightarrow> Inl e | Inr x \<Rightarrow> f x)"

lemma bind_err_simps [simp]:
  "bind_err (Inl e) f = Inl e"
  "bind_err (Inr x) f = f x"
  by (simp_all add: bind_err_def)

lemma bind_err_Inr: "bind_err m f = Inr y \<longleftrightarrow> (\<exists>x. m = Inr x \<and> f x = Inr y)"
  by (cases m) simp_all

fun map_err :: "('a \<Rightarrow> error + 'b) \<Rightarrow> 'a list \<Rightarrow> error + 'b list" where
  "map_err f [] = Inr []"
| "map_err f (x # xs) = bind_err (f x) (\<lambda>y. bind_err (map_err f xs) (\<lambda>ys. Inr (y # ys)))"

lemma map_err_Inr: "map_err f xs = Inr ys \<longleftrightarrow> list_all2 (\<lambda>x y. f x = Inr y) xs ys"
  by (induction xs arbitrary: ys) (auto simp: bind_err_Inr list_all2_Cons1)

section \<open>Unsigned 64-bit counters\<close>

definition size_max :: nat where
  "size_max = 2 ^ 64 - 1"

definition size_inc :: "nat \<Rightarrow> nat" where
  "size_inc n = (n + 1) mod 2 ^ 64"

definition size_sub :: "nat \<Rightarrow> nat \<Rightarrow> nat" where
  "size_sub a b = (a + 2 ^ 64 - b) mod 2 ^ 64"

lemma size_inc_small [simp]: "n < size_max \<Longrightarrow> size_inc n = Suc n"
  by (simp add: size_inc_def size_max_def)

lemma size_sub_small [simp]: "b \<le> a \<Longrightarrow> a \<le> size_max \<Longrightarrow> size_sub a b = a - b"
  by (simp add: size_sub_def size_max_def Nat.add_diff_assoc2 mod_if)

section \<open>Byte buffers\<close>

definition get_bytes :: "nat \<Rightarrow> nat \<Rightarrow> byte list \<Rightarrow> byte list" where
  "get_bytes off n d = take n (drop off d)"

definition put_bytes :: "nat \<Rightarrow> byte list \<Rightarrow> byte list \<Rightarrow> byte list" where
  "put_bytes off bs d = take off d @ bs @ drop (off + length bs) d"

fun le_bytes :: "nat \<Rightarrow> nat \<Rightarrow> byte list" where
  "le_bytes 0 x = []"
| "le_bytes (Suc n) x = word_of_nat (x mod 256) # le_bytes n (x div 256)"

fun le_nat :: "byte list \<Rightarrow> nat" where
  "le_nat [] = 0"
| "le_nat (b # bs) = unat b + 256 * le_nat bs"

lemma length_le_bytes [simp, byte_simps]: "length (le_bytes n x) = n"
  by (induction n arbitrary: x) auto

lemma le_nat_le_bytes [byte_simps]: "le_nat (le_bytes n x) = x mod 256 ^ n"
proof (induction n arbitrary: x)
  case 0
  then show ?case by simp
next
  case (Suc n)
  have "unat (word_of_nat (x mod 256) :: byte) = x mod 256"
    by (simp add: unat_of_nat)
  then show ?case
    by (simp add: Suc.IH mod_mult2_eq)
qed

lemma le_nat_less: "le_nat bs < 256 ^ length bs"
proof (induction bs)
  case Nil
  then show ?case by simp
next
  case (Cons b bs)
  have "unat b < 256"
    using unsigned_less [of b] by simp
  with Cons show ?case by simp
qed

lemma length_put_bytes [simp, byte_simps]:
  "off + length bs \<le> length d \<Longrightarrow> length (put_bytes off bs d) = length d"
  by (simp add: put_bytes_def)

lemma length_get_bytes [simp, byte_simps]:
  "off + n \<le> length d \<Longrightarrow> length (get_bytes off n d) = n"
  by (simp add: get_bytes_def)

lemma nth_put_bytes:
  "off + length bs \<le> length d \<Longrightarrow> i < length d \<Longrightarrow>
   put_bytes off bs d ! i = (if off \<le> i \<and> i < off + length bs then bs ! (i - off) else d ! i)"
  by (auto simp: put_bytes_def nth_append min_def)

lemma get_put_same [byte_simps]:
  "off + length bs \<le> length d \<Longrightarrow> n = length bs \<Longrightarrow> get_bytes off n (put_bytes off bs d) = bs"
  by (simp add: get_bytes_def put_bytes_def)

lemma get_put_disjoint [byte_simps]:
  assumes "off + length bs \<le> length d" and "off' + n \<le> length d"
    and "off' + n \<le> off \<or> off + length bs \<le> off'"
  shows "get_bytes off' n (put_bytes off bs d) = get_bytes off' n d"
proof (rule nth_equalityI)
  show "length (get_bytes off' n (put_bytes off bs d)) = length (get_bytes off' n d)"
    using assms by simp
next
  fix i assume "i < length (get_bytes off' n (put_bytes off bs d))"
  then have "i < n" using assms by simp
  then show "get_bytes off' n (put_bytes off bs d) ! i = get_bytes off' n d ! i"
    using assms by (auto simp: get_bytes_def nth_put_bytes)
qed

section \<open>Association lists\<close>

text \<open>
  A hash table the code iterates over is an association list in iteration order:
  \<open>AList.update\<close> is \<open>operator[]\<close>, \<open>AList.delete\<close> is \<open>erase\<close>. The standard
  leaves the order open, so no property may depend on it.
\<close>

declare map_of_eq_Some_iff [simp del]

lemma al_mem [alist_simps]:
  "distinct (map fst xs) \<Longrightarrow> (k, v) \<in> set xs \<longleftrightarrow> map_of xs k = Some v"
  by (auto dest: map_of_SomeD)

lemma al_ball [alist_simps]:
  assumes "distinct (map fst xs)"
  shows "(\<forall>(k, v) \<in> set xs. P k v) \<longleftrightarrow> (\<forall>k v. map_of xs k = Some v \<longrightarrow> P k v)"
proof -
  have "(\<forall>(k, v) \<in> set xs. P k v) \<longleftrightarrow> (\<forall>k v. (k, v) \<in> set xs \<longrightarrow> P k v)" by auto
  then show ?thesis by (simp only: al_mem [OF assms])
qed

lemma al_update [alist_simps]:
  "map_of (AList.update k v xs) = (map_of xs)(k \<mapsto> v)"
  by (simp add: AList.update_conv')

lemma al_delete [alist_simps]:
  "map_of (AList.delete k xs) = (map_of xs)(k := None)"
  by (simp add: AList.delete_conv')

lemma al_distinct_update [alist_simps]:
  "distinct (map fst xs) \<Longrightarrow> distinct (map fst (AList.update k v xs))"
  by (rule AList.distinct_update)

lemma al_distinct_delete [alist_simps]:
  "distinct (map fst xs) \<Longrightarrow> distinct (map fst (AList.delete k xs))"
  by (rule AList.distinct_delete)

end
