(* ===== verification/Lru_K.thy ===== *)
theory Lru_K
  imports Prelude
begin

text \<open>
  The LRU-K replacer (\<open>src/buffer/lru_k_replacer.cpp\<close>): the entries with their
  access histories, the four operations under the class's latch (so each is one atomic
  step), the choice of the victim against a specification by backward k-distance, the
  invariant, and the contract the buffer pool relies on as the locale \<open>replacer\<close>.
\<close>

section \<open>State and operations\<close>

record FrameEntry =
  history :: "nat list"
  is_evictable :: bool

record LRUKReplacer =
  max_frames :: nat
  lru_k :: nat
  curr_size :: nat
  current_timestamp :: nat
  entries :: "(frame_id \<times> FrameEntry) list"

definition LRUKReplacer_init :: "nat \<Rightarrow> nat \<Rightarrow> LRUKReplacer" where
  "LRUKReplacer_init num_frames k =
     \<lparr>max_frames = num_frames, lru_k = k, curr_size = 0, current_timestamp = 0, entries = []\<rparr>"

text \<open>
  The loop of \<open>Evict\<close> over the table, with its four locals: the victim so far, the
  least first access among the frames of infinite k-distance, the greatest finite
  k-distance, and whether a frame of infinite distance was seen. The front of an empty
  history is undefined behaviour.
\<close>

type_synonym evict_locals = "frame_id \<times> nat \<times> nat \<times> bool"

fun evict_loop :: "nat \<Rightarrow> nat \<Rightarrow> (frame_id \<times> FrameEntry) list \<Rightarrow> evict_locals
    \<Rightarrow> error + evict_locals" where
  "evict_loop k now [] acc = Inr acc"
| "evict_loop k now ((fid, entry) # es) (victim, min_timestamp, max_k_distance, found_inf) =
     (if \<not> is_evictable entry then
        evict_loop k now es (victim, min_timestamp, max_k_distance, found_inf)
      else if length (history entry) < k then
        (case history entry of
           [] \<Rightarrow> Inl UndefinedBehaviour
         | t # _ \<Rightarrow>
             if t < min_timestamp then evict_loop k now es (fid, t, max_k_distance, True)
             else evict_loop k now es (victim, min_timestamp, max_k_distance, True))
      else if \<not> found_inf then
        (case history entry of
           [] \<Rightarrow> Inl UndefinedBehaviour
         | t # _ \<Rightarrow>
             let k_distance = size_sub now t in
             if k_distance > max_k_distance
             then evict_loop k now es (fid, min_timestamp, k_distance, found_inf)
             else evict_loop k now es (victim, min_timestamp, max_k_distance, found_inf))
      else evict_loop k now es (victim, min_timestamp, max_k_distance, found_inf))"

definition Evict :: "LRUKReplacer \<Rightarrow> (frame_id option, LRUKReplacer) outcome" where
  "Evict r =
     (case evict_loop (lru_k r) (current_timestamp r) (entries r) (-1, size_max, 0, False) of
        Inl e \<Rightarrow> (Inl e, r)
      | Inr (victim, _) \<Rightarrow>
          if victim = -1 then (Inr None, r)
          else (Inr (Some victim),
                r\<lparr>entries := AList.delete victim (entries r),
                  curr_size := size_sub (curr_size r) 1\<rparr>))"

definition RecordAccess :: "frame_id \<Rightarrow> LRUKReplacer \<Rightarrow> (unit, LRUKReplacer) outcome" where
  "RecordAccess frame_id r =
     (if frame_id mod 2 ^ 64 \<ge> int (max_frames r) then (Inl (InvalidArgument ''Invalid frame_id''), r)
      else
        let entry = (case map_of (entries r) frame_id of
                       None \<Rightarrow> \<lparr>history = [], is_evictable = False\<rparr> | Some e \<Rightarrow> e);
            h = history entry @ [current_timestamp r];
            h' = (if length h > lru_k r then tl h else h)
        in (Inr (),
            r\<lparr>entries := AList.update frame_id (entry\<lparr>history := h'\<rparr>) (entries r),
              current_timestamp := size_inc (current_timestamp r)\<rparr>))"

definition SetEvictable :: "frame_id \<Rightarrow> bool \<Rightarrow> LRUKReplacer \<Rightarrow> LRUKReplacer" where
  "SetEvictable frame_id set_evictable r =
     (case map_of (entries r) frame_id of
        None \<Rightarrow> r
      | Some entry \<Rightarrow>
          r\<lparr>curr_size :=
              (if set_evictable \<and> \<not> is_evictable entry then size_inc (curr_size r)
               else if \<not> set_evictable \<and> is_evictable entry then size_sub (curr_size r) 1
               else curr_size r),
            entries := AList.update frame_id (entry\<lparr>is_evictable := set_evictable\<rparr>) (entries r)\<rparr>)"

definition Remove :: "frame_id \<Rightarrow> LRUKReplacer \<Rightarrow> (unit, LRUKReplacer) outcome" where
  "Remove frame_id r =
     (case map_of (entries r) frame_id of
        None \<Rightarrow> (Inr (), r)
      | Some entry \<Rightarrow>
          if \<not> is_evictable entry then
            (Inl (RuntimeError ''Cannot remove a non-evictable frame''), r)
          else (Inr (), r\<lparr>entries := AList.delete frame_id (entries r),
                          curr_size := size_sub (curr_size r) 1\<rparr>))"

definition Size :: "LRUKReplacer \<Rightarrow> nat" where
  "Size r = curr_size r"

section \<open>The specification of the victim\<close>

text \<open>
  \<open>evictables r\<close> are the frames that may be chosen, \<open>first_access r f\<close> the oldest
  access the history of \<open>f\<close> keeps, \<open>inf_distance r f\<close> says that \<open>f\<close> has fewer than
  \<open>k\<close> accesses, that is, an infinite backward k-distance.
\<close>

definition tracked :: "LRUKReplacer \<Rightarrow> frame_id set" where
  "tracked r = dom (map_of (entries r))"

definition evictables :: "LRUKReplacer \<Rightarrow> frame_id set" where
  "evictables r = {f. \<exists>e. map_of (entries r) f = Some e \<and> is_evictable e}"

definition history_of :: "LRUKReplacer \<Rightarrow> frame_id \<Rightarrow> nat list" where
  "history_of r f = (case map_of (entries r) f of None \<Rightarrow> [] | Some e \<Rightarrow> history e)"

definition inf_distance :: "LRUKReplacer \<Rightarrow> frame_id \<Rightarrow> bool" where
  "inf_distance r f \<longleftrightarrow> length (history_of r f) < lru_k r"

definition first_access :: "LRUKReplacer \<Rightarrow> frame_id \<Rightarrow> nat" where
  "first_access r f = hd (history_of r f)"

text \<open>
  \<open>before r f g\<close>: \<open>f\<close> is to be evicted before \<open>g\<close>. A frame of infinite
  distance goes before every frame of finite distance; among frames of the same class the
  one whose oldest kept access is older goes first (for finite distances that is the one
  of greater k-distance).
\<close>

definition before :: "LRUKReplacer \<Rightarrow> frame_id \<Rightarrow> frame_id \<Rightarrow> bool" where
  "before r f g \<longleftrightarrow>
     (inf_distance r f \<and> \<not> inf_distance r g) \<or>
     (inf_distance r f = inf_distance r g \<and> first_access r f < first_access r g)"

definition is_victim :: "LRUKReplacer \<Rightarrow> frame_id \<Rightarrow> bool" where
  "is_victim r f \<longleftrightarrow> f \<in> evictables r \<and> (\<forall>g \<in> evictables r. g \<noteq> f \<longrightarrow> before r f g)"

section \<open>The invariant\<close>

text \<open>
  Histories are non-empty, at most \<open>k\<close> long, strictly increasing and in the past;
  different frames were never accessed at the same time; \<open>curr_size\<close> counts the
  evictable entries.
\<close>

definition lru_inv :: "LRUKReplacer \<Rightarrow> bool" where
  "lru_inv r \<longleftrightarrow>
     1 \<le> lru_k r \<and> max_frames r \<le> 2 ^ 31 \<and> current_timestamp r \<le> size_max \<and>
     distinct (map fst (entries r)) \<and>
     (\<forall>(f, e) \<in> set (entries r). 0 \<le> f \<and> f < int (max_frames r)) \<and>
     (\<forall>(f, e) \<in> set (entries r). history e \<noteq> [] \<and> length (history e) \<le> lru_k r \<and>
        sorted_wrt (<) (history e) \<and> (\<forall>t \<in> set (history e). t < current_timestamp r)) \<and>
     (\<forall>(f, e) \<in> set (entries r). \<forall>(g, e') \<in> set (entries r).
        f \<noteq> g \<longrightarrow> set (history e) \<inter> set (history e') = {}) \<and>
     curr_size r = length (filter (\<lambda>(f, e). is_evictable e) (entries r))"

definition clock_ok :: "LRUKReplacer \<Rightarrow> bool" where
  "clock_ok r \<longleftrightarrow> current_timestamp r < size_max"

section \<open>The loop of Evict\<close>

text \<open>The evictable frames of infinite, and of finite, distance with their oldest access.\<close>

definition inf_cands :: "nat \<Rightarrow> (frame_id \<times> FrameEntry) list \<Rightarrow> (frame_id \<times> nat) set" where
  "inf_cands k es = {(f, t). \<exists>e. (f, e) \<in> set es \<and> is_evictable e \<and>
     length (history e) < k \<and> history e \<noteq> [] \<and> hd (history e) = t}"

definition fin_cands :: "nat \<Rightarrow> (frame_id \<times> FrameEntry) list \<Rightarrow> (frame_id \<times> nat) set" where
  "fin_cands k es = {(f, t). \<exists>e. (f, e) \<in> set es \<and> is_evictable e \<and>
     \<not> length (history e) < k \<and> history e \<noteq> [] \<and> hd (history e) = t}"

definition has_histories :: "(frame_id \<times> FrameEntry) list \<Rightarrow> bool" where
  "has_histories es \<longleftrightarrow> (\<forall>(f, e) \<in> set es. history e \<noteq> [])"

lemma cands_Nil [simp]: "inf_cands k [] = {}" "fin_cands k [] = {}"
  by (auto simp: inf_cands_def fin_cands_def)

lemma inf_cands_Cons [simp]:
  "inf_cands k ((f, e) # es) =
     (if is_evictable e \<and> length (history e) < k \<and> history e \<noteq> []
      then {(f, hd (history e))} else {}) \<union> inf_cands k es"
  by (auto simp: inf_cands_def)

lemma fin_cands_Cons [simp]:
  "fin_cands k ((f, e) # es) =
     (if is_evictable e \<and> \<not> length (history e) < k \<and> history e \<noteq> []
      then {(f, hd (history e))} else {}) \<union> fin_cands k es"
  by (auto simp: fin_cands_def)

lemma has_histories_simps [simp]:
  "has_histories []"
  "has_histories ((f, e) # es) \<longleftrightarrow> history e \<noteq> [] \<and> has_histories es"
  by (auto simp: has_histories_def)

lemma evict_loop_inf:
  "has_histories es \<Longrightarrow> \<exists>v' mn' mx'.
     evict_loop k now es (v, mn, mx, True) = Inr (v', mn', mx', True) \<and>
     ((v', mn') = (v, mn) \<or> (v', mn') \<in> inf_cands k es \<and> mn' < mn) \<and>
     (\<forall>(f, t) \<in> inf_cands k es. mn' \<le> t)"
proof (induction es arbitrary: v mn mx)
  case Nil
  then show ?case by simp
next
  case (Cons p es)
  obtain f e where p: "p = (f, e)" by force
  from Cons.prems p have h: "history e \<noteq> []" "has_histories es" by auto
  then obtain t ts where t: "history e = t # ts" by (cases "history e") auto
  note IH = Cons.IH [OF h(2)]
  show ?case
  proof (cases "is_evictable e \<and> length (history e) < k \<and> t < mn")
    case True
    with IH [of f t mx] p t show ?thesis by fastforce
  next
    case False
    with IH [of v mn mx] p t show ?thesis by fastforce
  qed
qed

lemma evict_loop_fin:
  "has_histories es \<Longrightarrow> inf_cands k es = {} \<Longrightarrow> \<exists>v' mx'.
     evict_loop k now es (v, mn, mx, False) = Inr (v', mn, mx', False) \<and>
     mx \<le> mx' \<and>
     ((v', mx') = (v, mx) \<or> (\<exists>t. (v', t) \<in> fin_cands k es \<and> mx' = size_sub now t \<and> mx < mx')) \<and>
     (\<forall>(f, t) \<in> fin_cands k es. size_sub now t \<le> mx')"
proof (induction es arbitrary: v mx)
  case Nil
  then show ?case by simp
next
  case (Cons p es)
  obtain f e where p: "p = (f, e)" by force
  from Cons.prems p have h: "history e \<noteq> []" "has_histories es" "inf_cands k es = {}"
    and ni: "\<not> (is_evictable e \<and> length (history e) < k)" by auto
  then obtain t ts where t: "history e = t # ts" by (cases "history e") auto
  note IH = Cons.IH [OF h(2,3)]
  show ?case
  proof (cases "is_evictable e \<and> mx < size_sub now t")
    case True
    with IH [of f "size_sub now t"] p t ni show ?thesis
      by (fastforce simp: Let_def)
  next
    case False
    with IH [of v mx] p t ni show ?thesis by (fastforce simp: Let_def)
  qed
qed

lemma evict_loop_mixed:
  "has_histories es \<Longrightarrow> inf_cands k es \<noteq> {} \<Longrightarrow> \<forall>(f, t) \<in> inf_cands k es. t < mn \<Longrightarrow>
   \<exists>v' mn' mx'. evict_loop k now es (v, mn, mx, False) = Inr (v', mn', mx', True) \<and>
     (v', mn') \<in> inf_cands k es \<and> (\<forall>(f, t) \<in> inf_cands k es. mn' \<le> t)"
proof (induction es arbitrary: v mx)
  case Nil
  then show ?case by simp
next
  case (Cons p es)
  obtain f e where p: "p = (f, e)" by force
  from Cons.prems p have h: "history e \<noteq> []" "has_histories es" by auto
  then obtain t ts where t: "history e = t # ts" by (cases "history e") auto
  show ?case
  proof (cases "is_evictable e \<and> length (history e) < k")
    case True
    with Cons.prems p t have "t < mn" by auto
    with evict_loop_inf [OF h(2), of k now f t mx] True p t show ?thesis by fastforce
  next
    case False
    with Cons.prems p h have "inf_cands k es \<noteq> {}" "\<forall>(f, t) \<in> inf_cands k es. t < mn"
      by auto
    note IH = Cons.IH [OF h(2) this]
    show ?thesis
    proof (cases "is_evictable e \<and> mx < size_sub now t")
      case True
      with IH [of f "size_sub now t"] False p t show ?thesis by (auto simp: Let_def)
    next
      case nt: False
      with IH [of v mx] False p t show ?thesis by (auto simp: Let_def)
    qed
  qed
qed

section \<open>The invariant in terms of the table\<close>

definition entry_ok :: "LRUKReplacer \<Rightarrow> frame_id \<Rightarrow> FrameEntry \<Rightarrow> bool" where
  "entry_ok r f e \<longleftrightarrow> 0 \<le> f \<and> f < int (max_frames r) \<and> history e \<noteq> [] \<and>
     length (history e) \<le> lru_k r \<and> sorted_wrt (<) (history e) \<and>
     (\<forall>t \<in> set (history e). t < current_timestamp r)"

lemma length_filter_card:
  assumes "distinct (map fst es)"
  shows "length (filter (\<lambda>(f, e). is_evictable e) es) =
         card {f. \<exists>e. map_of es f = Some e \<and> is_evictable e}"
proof -
  let ?xs = "filter (\<lambda>(f, e). is_evictable e) es"
  have "distinct (map fst ?xs)"
    using assms by (rule distinct_map_filter)
  then have "length ?xs = card (set (map fst ?xs))"
    by (metis distinct_card length_map)
  also have "set (map fst ?xs) = {f. \<exists>e. map_of es f = Some e \<and> is_evictable e}"
    using assms by (force simp: image_iff al_mem [symmetric])
  finally show ?thesis .
qed

lemma lru_inv_iff:
  "lru_inv r \<longleftrightarrow>
     1 \<le> lru_k r \<and> max_frames r \<le> 2 ^ 31 \<and> current_timestamp r \<le> size_max \<and>
     distinct (map fst (entries r)) \<and>
     (\<forall>f e. map_of (entries r) f = Some e \<longrightarrow> entry_ok r f e) \<and>
     (\<forall>f e g e'. map_of (entries r) f = Some e \<longrightarrow> map_of (entries r) g = Some e' \<longrightarrow> f \<noteq> g \<longrightarrow>
        set (history e) \<inter> set (history e') = {}) \<and>
     curr_size r = card (evictables r)"
proof (cases "distinct (map fst (entries r))")
  case True
  then show ?thesis
    unfolding lru_inv_def entry_ok_def evictables_def length_filter_card [OF True] al_ball [OF True]
    by (simp only: imp_conjR all_conj_distrib) (simp add: conj_ac)
next
  case False
  then show ?thesis by (simp add: lru_inv_def)
qed

lemma lru_inv_distinct: "lru_inv r \<Longrightarrow> distinct (map fst (entries r))"
  by (simp add: lru_inv_def)

lemma lru_inv_entry: "lru_inv r \<Longrightarrow> map_of (entries r) f = Some e \<Longrightarrow> entry_ok r f e"
  by (simp add: lru_inv_iff)

lemma finite_evictables [simp]: "finite (evictables r)"
proof -
  have "evictables r \<subseteq> dom (map_of (entries r))" by (auto simp: evictables_def)
  then show ?thesis using finite_dom_map_of finite_subset by blast
qed

lemma evictables_tracked: "evictables r \<subseteq> tracked r"
  by (auto simp: evictables_def tracked_def)

lemma tracked_bound: "lru_inv r \<Longrightarrow> f \<in> tracked r \<Longrightarrow> 0 \<le> f \<and> f < int (max_frames r)"
  by (auto simp: lru_inv_iff tracked_def entry_ok_def)

lemma lru_inv_histories: "lru_inv r \<Longrightarrow> has_histories (entries r)"
  by (simp add: lru_inv_iff has_histories_def al_ball entry_ok_def)

lemma cands_iff:
  assumes "lru_inv r"
  shows "(f, t) \<in> inf_cands (lru_k r) (entries r) \<longleftrightarrow>
           f \<in> evictables r \<and> inf_distance r f \<and> first_access r f = t"
    and "(f, t) \<in> fin_cands (lru_k r) (entries r) \<longleftrightarrow>
           f \<in> evictables r \<and> \<not> inf_distance r f \<and> first_access r f = t"
proof -
  note mem = al_mem [OF lru_inv_distinct [OF assms]]
  have ne: "\<And>f e. map_of (entries r) f = Some e \<Longrightarrow> history e \<noteq> []"
    using lru_inv_entry [OF assms] by (simp add: entry_ok_def)
  show "(f, t) \<in> inf_cands (lru_k r) (entries r) \<longleftrightarrow>
          f \<in> evictables r \<and> inf_distance r f \<and> first_access r f = t"
    unfolding inf_cands_def evictables_def inf_distance_def first_access_def history_of_def mem
    using ne by (cases "map_of (entries r) f") auto
  show "(f, t) \<in> fin_cands (lru_k r) (entries r) \<longleftrightarrow>
          f \<in> evictables r \<and> \<not> inf_distance r f \<and> first_access r f = t"
    unfolding fin_cands_def evictables_def inf_distance_def first_access_def history_of_def mem
    using ne by (cases "map_of (entries r) f") auto
qed

lemma first_access_past:
  assumes "lru_inv r" and "f \<in> evictables r"
  shows "first_access r f < current_timestamp r"
  using assms
  by (auto simp: evictables_def first_access_def history_of_def lru_inv_iff entry_ok_def)

lemma first_access_distinct:
  assumes "lru_inv r" and "f \<in> evictables r" and "g \<in> evictables r" and "f \<noteq> g"
  shows "first_access r f \<noteq> first_access r g"
proof -
  from assms obtain e e' where e: "map_of (entries r) f = Some e" "map_of (entries r) g = Some e'"
    by (auto simp: evictables_def)
  with assms have "set (history e) \<inter> set (history e') = {}" "history e \<noteq> []" "history e' \<noteq> []"
    by (auto simp: lru_inv_iff entry_ok_def)
  with e show ?thesis
    by (force simp: first_access_def history_of_def neq_Nil_conv)
qed

lemma is_victim_unique: "is_victim r f \<Longrightarrow> is_victim r g \<Longrightarrow> f = g"
  by (force simp: is_victim_def before_def)

section \<open>Evict chooses the specified victim\<close>

lemma evict_loop_victim:
  assumes "lru_inv r" and "evictables r \<noteq> {}"
  shows "\<exists>f rest. is_victim r f \<and>
    evict_loop (lru_k r) (current_timestamp r) (entries r) (-1, size_max, 0, False) = Inr (f, rest)"
proof (cases "inf_cands (lru_k r) (entries r) = {}")
  case True
  have past: "first_access r f < current_timestamp r \<and> current_timestamp r \<le> size_max"
    if "f \<in> evictables r" for f
    using that assms first_access_past by (auto simp: lru_inv_iff)
  from evict_loop_fin [OF lru_inv_histories [OF assms(1)] True,
      where now = "current_timestamp r" and v = "-1" and mn = size_max and mx = 0]
  obtain v mx where run: "evict_loop (lru_k r) (current_timestamp r) (entries r) (-1, size_max, 0, False)
      = Inr (v, size_max, mx, False)"
    and v: "(v, mx) = (-1, 0) \<or> (\<exists>t. (v, t) \<in> fin_cands (lru_k r) (entries r) \<and>
      mx = size_sub (current_timestamp r) t)"
    and greatest: "\<forall>(f, t) \<in> fin_cands (lru_k r) (entries r). size_sub (current_timestamp r) t \<le> mx"
    by auto
  from True have fin: "\<not> inf_distance r f" if "f \<in> evictables r" for f
    using that cands_iff(1) [OF assms(1), of f "first_access r f"] by auto
  have dist: "current_timestamp r - first_access r f \<le> mx" if "f \<in> evictables r" for f
    using greatest that fin past cands_iff(2) [OF assms(1), of f "first_access r f"] by fastforce
  from assms(2) obtain f0 where "f0 \<in> evictables r" by auto
  with dist past have "mx \<noteq> 0" by fastforce
  with v cands_iff(2) [OF assms(1)] have vev: "v \<in> evictables r"
    and mx: "mx = size_sub (current_timestamp r) (first_access r v)" by auto
  have "before r v g" if "g \<in> evictables r" "g \<noteq> v" for g
    using dist [OF that(1)] past [OF that(1)] past [OF vev] mx fin that vev
      first_access_distinct [OF assms(1) vev that(1)]
    by (auto simp: before_def)
  with vev have "is_victim r v" by (simp add: is_victim_def)
  with run show ?thesis by blast
next
  case False
  have small: "\<forall>(f, t) \<in> inf_cands (lru_k r) (entries r). t < size_max"
  proof clarify
    fix f t assume "(f, t) \<in> inf_cands (lru_k r) (entries r)"
    then have "f \<in> evictables r" "first_access r f = t"
      using cands_iff(1) [OF assms(1)] by auto
    with first_access_past [OF assms(1)] assms(1) show "t < size_max"
      by (fastforce simp: lru_inv_iff)
  qed
  from evict_loop_mixed [OF lru_inv_histories [OF assms(1)] False small]
  obtain v mn mx where run: "evict_loop (lru_k r) (current_timestamp r) (entries r) (-1, size_max, 0, False)
      = Inr (v, mn, mx, True)"
    and v: "(v, mn) \<in> inf_cands (lru_k r) (entries r)"
    and least: "\<forall>(f, t) \<in> inf_cands (lru_k r) (entries r). mn \<le> t" by blast
  from v have vev: "v \<in> evictables r" "inf_distance r v" "first_access r v = mn"
    using cands_iff(1) [OF assms(1)] by auto
  have "before r v g" if "g \<in> evictables r" "g \<noteq> v" for g
  proof (cases "inf_distance r g")
    case True
    with that least have "mn \<le> first_access r g"
      using cands_iff(1) [OF assms(1), of g "first_access r g"] by auto
    with first_access_distinct [OF assms(1) vev(1) that(1)] that True vev show ?thesis
      by (auto simp: before_def)
  next
    case False
    with vev show ?thesis by (simp add: before_def)
  qed
  with vev have "is_victim r v" by (simp add: is_victim_def)
  with run show ?thesis by blast
qed

lemma evict_loop_none:
  assumes "lru_inv r" and "evictables r = {}"
  shows "\<exists>rest. evict_loop (lru_k r) (current_timestamp r) (entries r) (-1, size_max, 0, False)
    = Inr (-1, rest)"
proof -
  have none: "inf_cands (lru_k r) (entries r) = {}" "fin_cands (lru_k r) (entries r) = {}"
    using cands_iff [OF assms(1)] assms(2) by auto
  then show ?thesis
    using evict_loop_fin [OF lru_inv_histories [OF assms(1)] none(1),
        where now = "current_timestamp r" and v = "-1" and mn = size_max and mx = 0]
    by auto
qed

section \<open>Every operation keeps the invariant\<close>

lemma lru_inv_init: "1 \<le> k \<Longrightarrow> n \<le> 2 ^ 31 \<Longrightarrow> lru_inv (LRUKReplacer_init n k)"
  by (simp add: lru_inv_def LRUKReplacer_init_def)

text \<open>What erasing an evictable entry does, in \<open>Evict\<close> and in \<open>Remove\<close>.\<close>

lemma erase_evictable:
  assumes "lru_inv r" and "f \<in> evictables r"
  defines "r' \<equiv> r\<lparr>entries := AList.delete f (entries r), curr_size := size_sub (curr_size r) 1\<rparr>"
  shows "lru_inv r'" and "evictables r' = evictables r - {f}" and "tracked r' = tracked r - {f}"
    and "curr_size r' = curr_size r - 1"
proof -
  have m: "map_of (entries r') = (map_of (entries r))(f := None)"
    by (simp add: r'_def al_delete)
  show ev: "evictables r' = evictables r - {f}" by (auto simp: evictables_def m split: if_splits)
  show "tracked r' = tracked r - {f}" by (auto simp: tracked_def m)
  have cs: "curr_size r = card (evictables r)" using assms(1) by (simp add: lru_inv_iff)
  have "evictables r \<subseteq> {0..<int (max_frames r)}"
    using tracked_bound [OF assms(1)] evictables_tracked [of r] by force
  from card_mono [OF _ this] have "card (evictables r) \<le> max_frames r" by simp
  moreover have "max_frames r \<le> 2 ^ 31" using assms(1) by (simp add: lru_inv_iff)
  ultimately have "curr_size r \<le> size_max" using cs by (simp add: size_max_def)
  moreover have "1 \<le> curr_size r"
    using assms(2) cs card_gt_0_iff [of "evictables r"] by auto
  ultimately show c: "curr_size r' = curr_size r - 1" by (simp add: r'_def)
  have "curr_size r' = card (evictables r')"
    using c cs ev assms(2) by simp
  moreover have "entry_ok r' g e = entry_ok r g e" for g e
    by (simp add: entry_ok_def r'_def)
  ultimately show "lru_inv r'"
    using assms(1) al_distinct_delete [of "entries r" f]
    by (auto simp: lru_inv_iff r'_def al_delete split: if_splits)
qed

lemma Evict_some:
  assumes "lru_inv r" and "evictables r \<noteq> {}"
  shows "\<exists>f. is_victim r f \<and> f \<noteq> -1 \<and>
    Evict r = (Inr (Some f), r\<lparr>entries := AList.delete f (entries r),
                              curr_size := size_sub (curr_size r) 1\<rparr>)"
proof -
  obtain f rest where f: "is_victim r f" and run:
    "evict_loop (lru_k r) (current_timestamp r) (entries r) (-1, size_max, 0, False) = Inr (f, rest)"
    using evict_loop_victim [OF assms] by blast
  have "0 \<le> f"
    using f tracked_bound [OF assms(1)] evictables_tracked [of r] by (auto simp: is_victim_def)
  with f run show ?thesis by (auto simp: Evict_def)
qed

lemma Evict_none: "lru_inv r \<Longrightarrow> evictables r = {} \<Longrightarrow> Evict r = (Inr None, r)"
  using evict_loop_none [of r] by (auto simp: Evict_def)

lemma sorted_wrt_snoc: "sorted_wrt (<) xs \<Longrightarrow> \<forall>x \<in> set xs. x < (y::nat) \<Longrightarrow> sorted_wrt (<) (xs @ [y])"
  by (simp add: sorted_wrt_append)

lemma RecordAccess_ok:
  assumes "lru_inv r" and "clock_ok r" and "0 \<le> f" and "f < int (max_frames r)"
  shows "\<exists>r'. RecordAccess f r = (Inr (), r') \<and> lru_inv r' \<and> max_frames r' = max_frames r \<and>
    tracked r' = insert f (tracked r) \<and> evictables r' = evictables r \<and>
    current_timestamp r' = Suc (current_timestamp r)"
proof -
  define e where "e = (case map_of (entries r) f of
    None \<Rightarrow> \<lparr>history = [], is_evictable = False\<rparr> | Some e \<Rightarrow> e)"
  define h where "h = history e @ [current_timestamp r]"
  define h' where "h' = (if length h > lru_k r then tl h else h)"
  define r' where "r' = r\<lparr>entries := AList.update f (e\<lparr>history := h'\<rparr>) (entries r),
    current_timestamp := size_inc (current_timestamp r)\<rparr>"
  from assms(1) have mf: "max_frames r \<le> 2 ^ 31" and k: "1 \<le> lru_k r"
    and d: "distinct (map fst (entries r))"
    and dis: "\<And>a x b y. map_of (entries r) a = Some x \<Longrightarrow> map_of (entries r) b = Some y \<Longrightarrow>
      a \<noteq> b \<Longrightarrow> set (history x) \<inter> set (history y) = {}"
    and cs: "curr_size r = card (evictables r)"
    by (simp_all add: lru_inv_iff)
  have run: "RecordAccess f r = (Inr (), r')"
    using assms(3,4) mf
    by (simp add: RecordAccess_def e_def h_def h'_def r'_def Let_def zmod_trivial_iff)
  have t: "current_timestamp r' = Suc (current_timestamp r)"
    using assms(2) by (simp add: r'_def clock_ok_def)
  have m: "map_of (entries r') = (map_of (entries r))(f \<mapsto> e\<lparr>history := h'\<rparr>)"
    by (simp add: r'_def al_update)
  have ev: "evictables r' = evictables r"
    by (auto simp: evictables_def m e_def split: option.splits)
  have tr: "tracked r' = insert f (tracked r)" by (simp add: tracked_def m)
  have old: "entry_ok r g x" if "map_of (entries r) g = Some x" for g x
    by (rule lru_inv_entry [OF assms(1) that])
  have hist: "sorted_wrt (<) (history e) \<and> (\<forall>t \<in> set (history e). t < current_timestamp r) \<and>
      length (history e) \<le> lru_k r"
    using old by (auto simp: e_def entry_ok_def split: option.splits)
  have h: "sorted_wrt (<) h" "\<forall>t \<in> set h. t < Suc (current_timestamp r)"
    using hist by (auto simp: h_def sorted_wrt_append less_Suc_eq)
  have h': "h' \<noteq> []" "length h' \<le> lru_k r" "sorted_wrt (<) h'"
    "\<forall>t \<in> set h'. t < Suc (current_timestamp r)" "set h' \<subseteq> insert (current_timestamp r) (set (history e))"
    using h hist k by (cases "history e"; auto simp: h'_def h_def)+
  have new_ok: "entry_ok r' g x" if "map_of (entries r') g = Some x" for g x
  proof (cases "g = f")
    case True
    with that m h' t assms show ?thesis by (auto simp: entry_ok_def r'_def)
  next
    case False
    with that m old have "entry_ok r g x" by simp
    with t show ?thesis by (auto simp: entry_ok_def r'_def)
  qed
  have fresh: "set h' \<inter> set (history y) = {}" if "map_of (entries r) b = Some y" "b \<noteq> f" for b y
  proof -
    have "set (history e) \<inter> set (history y) = {}"
      using dis that by (auto simp: e_def split: option.splits)
    moreover have "current_timestamp r \<notin> set (history y)"
      using old [OF that(1)] by (auto simp: entry_ok_def)
    ultimately show ?thesis using h'(5) by blast
  qed
  have dis': "set (history x) \<inter> set (history y) = {}"
    if "map_of (entries r') a = Some x" "map_of (entries r') b = Some y" "a \<noteq> b" for a x b y
    using that fresh [of a x] fresh [of b y] dis by (auto simp: m split: if_splits)
  have "lru_inv r'"
    unfolding lru_inv_iff
    using new_ok dis' mf k t d cs ev al_distinct_update [OF d] assms(2)
    by (auto simp: r'_def clock_ok_def)
  moreover have "max_frames r' = max_frames r" by (simp add: r'_def)
  ultimately show ?thesis using run t ev tr by blast
qed

lemma curr_size_bound: "lru_inv r \<Longrightarrow> curr_size r \<le> max_frames r \<and> max_frames r < size_max"
proof -
  assume inv: "lru_inv r"
  have "evictables r \<subseteq> {0..<int (max_frames r)}"
    using tracked_bound [OF inv] evictables_tracked [of r] by force
  from card_mono [OF _ this] inv show ?thesis by (simp add: lru_inv_iff size_max_def)
qed

lemma SetEvictable_ok:
  assumes "lru_inv r"
  shows "lru_inv (SetEvictable f b r)" and "tracked (SetEvictable f b r) = tracked r"
    and "max_frames (SetEvictable f b r) = max_frames r"
    and "current_timestamp (SetEvictable f b r) = current_timestamp r"
    and "evictables (SetEvictable f b r) =
      (if f \<in> tracked r then if b then insert f (evictables r) else evictables r - {f} else evictables r)"
proof -
  let ?r = "SetEvictable f b r"
  show "tracked ?r = tracked r" "max_frames ?r = max_frames r"
    "current_timestamp ?r = current_timestamp r"
    by (auto simp: SetEvictable_def tracked_def al_update split: option.splits)
  show ev: "evictables ?r =
      (if f \<in> tracked r then if b then insert f (evictables r) else evictables r - {f} else evictables r)"
    by (auto simp: SetEvictable_def evictables_def tracked_def al_update split: option.splits if_splits)
  show "lru_inv ?r"
  proof (cases "map_of (entries r) f")
    case None
    then show ?thesis using assms by (simp add: SetEvictable_def)
  next
    case (Some e)
    have m: "map_of (entries ?r) = (map_of (entries r))(f \<mapsto> e\<lparr>is_evictable := b\<rparr>)"
      using Some by (simp add: SetEvictable_def al_update)
    have cs: "curr_size r = card (evictables r)" using assms by (simp add: lru_inv_iff)
    have mem: "f \<in> evictables r \<longleftrightarrow> is_evictable e" "f \<in> tracked r"
      using Some by (auto simp: evictables_def tracked_def)
    have pos: "is_evictable e \<Longrightarrow> 1 \<le> curr_size r"
      using cs mem card_gt_0_iff [of "evictables r"] by auto
    have "curr_size ?r = card (evictables ?r)"
      using cs ev mem Some pos curr_size_bound [OF assms]
      by (auto simp: SetEvictable_def insert_absorb)
    moreover have "entry_ok ?r g x" if "map_of (entries ?r) g = Some x" for g x
    proof -
      have "entry_ok r g y" if "map_of (entries r) g = Some y" for y
        by (rule lru_inv_entry [OF assms that])
      with that Some m show ?thesis
        by (auto simp: entry_ok_def SetEvictable_def split: if_splits)
    qed
    moreover have "distinct (map fst (entries ?r))"
      using Some al_distinct_update [OF lru_inv_distinct [OF assms]] by (simp add: SetEvictable_def)
    moreover have "set (history x) \<inter> set (history y) = {}"
      if "map_of (entries ?r) a = Some x" "map_of (entries ?r) c = Some y" "a \<noteq> c" for a x c y
    proof -
      have old: "set (history p) \<inter> set (history q) = {}"
        if "map_of (entries r) i = Some p" "map_of (entries r) j = Some q" "i \<noteq> j" for i p j q
        using assms that by (simp add: lru_inv_iff)
      from that m Some old [of f e c y] old [of a x f e] old [of a x c y] show ?thesis
        by (auto split: if_splits)
    qed
    moreover have "1 \<le> lru_k ?r" "max_frames ?r \<le> 2 ^ 31" "current_timestamp ?r \<le> size_max"
      using Some assms by (simp_all add: SetEvictable_def lru_inv_def)
    ultimately show ?thesis unfolding lru_inv_iff by blast
  qed
qed

lemma Remove_ok:
  assumes "lru_inv r" and "f \<in> evictables r"
  shows "Remove f r = (Inr (), r\<lparr>entries := AList.delete f (entries r),
                                curr_size := size_sub (curr_size r) 1\<rparr>)"
  using assms(2) by (auto simp: Remove_def evictables_def)

section \<open>The contract the buffer pool relies on\<close>

text \<open>
  A replacer tracks a set of frames, of which some may be evicted. \<open>ready\<close> says that
  one more access can be recorded. The client lemma \<open>access_and_pin\<close> is the pair of
  calls with which the buffer pool pins a frame.
\<close>

locale replacer =
  fixes inv :: "'r \<Rightarrow> bool" and ready :: "'r \<Rightarrow> bool" and cap :: "'r \<Rightarrow> nat"
    and trk :: "'r \<Rightarrow> frame_id set" and evs :: "'r \<Rightarrow> frame_id set"
    and evict :: "'r \<Rightarrow> (frame_id option, 'r) outcome"
    and access :: "frame_id \<Rightarrow> 'r \<Rightarrow> (unit, 'r) outcome"
    and set_ev :: "frame_id \<Rightarrow> bool \<Rightarrow> 'r \<Rightarrow> 'r"
    and rem :: "frame_id \<Rightarrow> 'r \<Rightarrow> (unit, 'r) outcome"
  assumes evs_trk: "evs r \<subseteq> trk r"
    and trk_bound: "inv r \<Longrightarrow> f \<in> trk r \<Longrightarrow> 0 \<le> f \<and> f < int (cap r)"
    and evict_none: "inv r \<Longrightarrow> evs r = {} \<Longrightarrow> evict r = (Inr None, r)"
    and evict_some: "inv r \<Longrightarrow> evs r \<noteq> {} \<Longrightarrow>
      \<exists>f r'. evict r = (Inr (Some f), r') \<and> f \<in> evs r \<and> inv r' \<and> cap r' = cap r \<and>
        trk r' = trk r - {f} \<and> evs r' = evs r - {f} \<and> ready r' = ready r"
    and access_ok: "inv r \<Longrightarrow> ready r \<Longrightarrow> 0 \<le> f \<Longrightarrow> f < int (cap r) \<Longrightarrow>
      \<exists>r'. access f r = (Inr (), r') \<and> inv r' \<and> cap r' = cap r \<and>
        trk r' = insert f (trk r) \<and> evs r' = evs r"
    and set_ev_inv: "inv r \<Longrightarrow> inv (set_ev f b r)"
    and set_ev_cap: "inv r \<Longrightarrow> cap (set_ev f b r) = cap r"
    and set_ev_ready: "inv r \<Longrightarrow> ready (set_ev f b r) = ready r"
    and set_ev_trk: "inv r \<Longrightarrow> trk (set_ev f b r) = trk r"
    and set_ev_evs: "inv r \<Longrightarrow> f \<in> trk r \<Longrightarrow>
      evs (set_ev f b r) = (if b then insert f (evs r) else evs r - {f})"
    and rem_ok: "inv r \<Longrightarrow> f \<in> evs r \<Longrightarrow>
      \<exists>r'. rem f r = (Inr (), r') \<and> inv r' \<and> cap r' = cap r \<and>
        trk r' = trk r - {f} \<and> evs r' = evs r - {f} \<and> ready r' = ready r"
begin

lemma access_and_pin:
  assumes "inv r" and "ready r" and "0 \<le> f" and "f < int (cap r)"
  shows "\<exists>r'. access f r = (Inr (), r') \<and> inv (set_ev f False r') \<and>
    cap (set_ev f False r') = cap r \<and> trk (set_ev f False r') = insert f (trk r) \<and>
    evs (set_ev f False r') = evs r - {f}"
proof -
  from access_ok [OF assms] obtain r' where r': "access f r = (Inr (), r')" "inv r'"
    "cap r' = cap r" "trk r' = insert f (trk r)" "evs r' = evs r" by blast
  then show ?thesis using set_ev_inv set_ev_cap set_ev_trk set_ev_evs by simp
qed

lemma evict_none_iff:
  "inv r \<Longrightarrow> fst (evict r) = Inr None \<longleftrightarrow> evs r = {}"
  using evict_none evict_some by (metis fst_conv option.distinct(1) sum.inject(2))

end

interpretation lru: replacer lru_inv clock_ok max_frames tracked evictables
  Evict RecordAccess SetEvictable Remove
proof (unfold_locales, goal_cases)
  case 1
  show ?case by (rule evictables_tracked)
next
  case 2
  then show ?case by (rule tracked_bound)
next
  case 3
  then show ?case by (rule Evict_none)
next
  case (4 r)
  from Evict_some [OF this] obtain f where "is_victim r f" and
    run: "Evict r = (Inr (Some f), r\<lparr>entries := AList.delete f (entries r),
                                     curr_size := size_sub (curr_size r) 1\<rparr>)" by blast
  then have "f \<in> evictables r" by (simp add: is_victim_def)
  with erase_evictable [OF 4(1) this] run show ?case by (auto simp: clock_ok_def)
next
  case 5
  from RecordAccess_ok [OF this] show ?case by blast
next
  case 6
  then show ?case by (rule SetEvictable_ok)
next
  case 7
  then show ?case by (rule SetEvictable_ok)
next
  case 8
  then show ?case by (simp add: clock_ok_def SetEvictable_ok)
next
  case 9
  then show ?case by (rule SetEvictable_ok)
next
  case 10
  then show ?case by (simp add: SetEvictable_ok)
next
  case (11 r f)
  with erase_evictable [OF this] Remove_ok [OF this] show ?case by (auto simp: clock_ok_def)
qed

lemma Evict_victim: "lru_inv r \<Longrightarrow> is_victim r f \<Longrightarrow> fst (Evict r) = Inr (Some f)"
  using Evict_some [of r] is_victim_unique [of r f] by (fastforce simp: is_victim_def)

lemma Evict_victim_ex: "lru_inv r \<Longrightarrow> evictables r \<noteq> {} \<Longrightarrow> \<exists>f. is_victim r f"
  using Evict_some [of r] by blast

section \<open>Properties\<close>

text \<open>
  C2. Under the replacer's invariant, \<open>Evict\<close> returns a frame exactly when some frame is
  evictable. The frame it returns is the one LRU-K prescribes: fewer than \<open>k\<close> accesses
  beats any finite distance, and within a class the oldest first access wins. That frame and
  no other leaves the table, and the size drops by one.
\<close>

theorem Evict_correct:
  assumes "lru_inv r"
  shows "if evictables r = {} then Evict r = (Inr None, r)
         else \<exists>f r'. Evict r = (Inr (Some f), r') \<and> is_victim r f \<and> lru_inv r' \<and>
           evictables r' = evictables r - {f} \<and> Size r' = Size r - 1 \<and>
           (\<forall>g. g \<noteq> f \<longrightarrow> history_of r' g = history_of r g)"
proof (cases "evictables r = {}")
  case True
  then show ?thesis using Evict_none [OF assms] by simp
next
  case False
  from Evict_some [OF assms this] obtain f where f: "is_victim r f" and
    run: "Evict r = (Inr (Some f), r\<lparr>entries := AList.delete f (entries r),
                                     curr_size := size_sub (curr_size r) 1\<rparr>)" by blast
  from f have "f \<in> evictables r" by (simp add: is_victim_def)
  from erase_evictable [OF assms this] f run False show ?thesis
    by (auto simp: Size_def history_of_def al_delete)
qed

text \<open>
  The victim does not depend on the order in which the hash table is traversed: any
  two tables with the same entries, in whatever order, make \<open>Evict\<close> return the same frame.
\<close>

theorem Evict_order_independent:
  assumes "lru_inv r" and "distinct (map fst es)" and "map_of es = map_of (entries r)"
  shows "fst (Evict (r\<lparr>entries := es\<rparr>)) = fst (Evict r)"
proof -
  let ?r = "r\<lparr>entries := es\<rparr>"
  have same: "evictables ?r = evictables r" "is_victim ?r = is_victim r"
    using assms(3)
    by (auto simp: evictables_def is_victim_def before_def inf_distance_def first_access_def
        history_of_def fun_eq_iff)
  have "lru_inv ?r"
    using assms same unfolding lru_inv_iff by (simp add: entry_ok_def)
  then show ?thesis
    using same Evict_none [of r] Evict_none [of ?r] Evict_victim [of r] Evict_victim [of ?r] assms(1)
      Evict_victim_ex [OF assms(1)]
    by (cases "evictables r = {}") auto
qed

text \<open>A replacer with two evictable frames, one of them accessed only once.\<close>

definition demo_replacer :: LRUKReplacer where
  "demo_replacer = \<lparr>max_frames = 3, lru_k = 2, curr_size = 2, current_timestamp = 4,
     entries = [(0, \<lparr>history = [0, 3], is_evictable = True\<rparr>), (1, \<lparr>history = [1], is_evictable = True\<rparr>),
                (2, \<lparr>history = [2], is_evictable = False\<rparr>)]\<rparr>"

lemma demo_replacer_inv: "lru_inv demo_replacer"
  by (simp add: lru_inv_def demo_replacer_def size_max_def)

lemma demo_replacer_evict: "fst (Evict demo_replacer) = Inr (Some 1)"
  by (simp add: Evict_def demo_replacer_def size_max_def)

theorem Evict_correct_witness:
  "lru_inv demo_replacer \<and> (\<exists>f. fst (Evict demo_replacer) = Inr (Some f) \<and> is_victim demo_replacer f)"
proof -
  have "0 \<in> evictables demo_replacer"
    by (simp add: evictables_def demo_replacer_def)
  then show ?thesis
    using demo_replacer_inv Evict_correct [OF demo_replacer_inv] by (auto split: if_splits)
qed

theorem Evict_order_independent_witness:
  "fst (Evict (demo_replacer\<lparr>entries := rev (entries demo_replacer)\<rparr>)) = Inr (Some 1)"
proof -
  have d: "distinct (map fst (rev (entries demo_replacer)))"
    by (simp add: demo_replacer_def)
  have "map_of (rev (entries demo_replacer)) = map_of (entries demo_replacer)"
    by (simp add: demo_replacer_def fun_eq_iff)
  from Evict_order_independent [OF demo_replacer_inv d this] demo_replacer_evict show ?thesis
    by simp
qed

end
