(* ===== verification/Disk.thy ===== *)
theory Disk
  imports Prelude
begin

text \<open>
  The disk manager (\<open>src/storage/disk/disk_manager.cpp\<close>) over the \<open>std::fstream\<close> it
  drives. The stream is modelled as the standard describes it: a file of bytes, a position and
  the state bits, which a failing read or seek sets and which nothing in this class clears
  (\<open>seekg\<close> clears \<open>eofbit\<close> only). Files are never closed during a run. The locale
  \<open>block_device\<close> is the contract the buffer pool relies on.
\<close>

section \<open>The file stream\<close>

record DiskManager =
  fbytes :: "byte list"
  pos :: nat
  failbit :: bool
  eofbit :: bool
  badbit :: bool
  next_page_id :: page_id
  num_pages :: nat

definition stream_fail :: "DiskManager \<Rightarrow> bool" where
  "stream_fail d \<longleftrightarrow> failbit d \<or> badbit d"

definition stream_good :: "DiskManager \<Rightarrow> bool" where
  "stream_good d \<longleftrightarrow> \<not> failbit d \<and> \<not> eofbit d \<and> \<not> badbit d"

definition seekg :: "int \<Rightarrow> DiskManager \<Rightarrow> DiskManager" where
  "seekg off d0 =
     (let d = d0\<lparr>eofbit := False\<rparr> in
      if stream_fail d \<or> off < 0 then d\<lparr>failbit := True\<rparr> else d\<lparr>pos := nat off\<rparr>)"

definition seekp :: "int \<Rightarrow> DiskManager \<Rightarrow> DiskManager" where
  "seekp off d =
     (if stream_fail d then d
      else if off < 0 then d\<lparr>failbit := True\<rparr> else d\<lparr>pos := nat off\<rparr>)"

definition stream_read :: "nat \<Rightarrow> DiskManager \<Rightarrow> byte list \<times> DiskManager" where
  "stream_read n d =
     (if stream_good d then
        let bs = take n (drop (pos d) (fbytes d)) in
        (bs, if length bs < n
             then d\<lparr>pos := pos d + length bs, failbit := True, eofbit := True\<rparr>
             else d\<lparr>pos := pos d + length bs\<rparr>)
      else ([], d\<lparr>failbit := True\<rparr>))"

definition write_at :: "nat \<Rightarrow> byte list \<Rightarrow> byte list \<Rightarrow> byte list" where
  "write_at off bs f = take off f @ replicate (off - length f) 0 @ bs @ drop (off + length bs) f"

definition stream_write :: "byte list \<Rightarrow> DiskManager \<Rightarrow> DiskManager" where
  "stream_write bs d =
     (if stream_good d then d\<lparr>fbytes := write_at (pos d) bs (fbytes d), pos := pos d + length bs\<rparr>
      else d\<lparr>failbit := True\<rparr>)"

section \<open>The disk manager\<close>

definition DiskManager_open :: "byte list \<Rightarrow> DiskManager" where
  "DiskManager_open contents =
     \<lparr>fbytes = contents, pos = length contents, failbit = False, eofbit = False, badbit = False,
      next_page_id = int (length contents div PAGE_SIZE),
      num_pages = length contents div PAGE_SIZE\<rparr>"

definition ReadPage :: "page_id \<Rightarrow> DiskManager \<Rightarrow> (byte list, DiskManager) outcome" where
  "ReadPage page_id d =
     (let d1 = seekg (page_id * int PAGE_SIZE) d in
      if badbit d1 then (Inl (RuntimeError ''I/O error while seeking to read page''), d1)
      else
        let (bs, d2) = stream_read PAGE_SIZE d1 in
        (Inr (bs @ replicate (PAGE_SIZE - length bs) 0), d2))"

definition WritePage :: "page_id \<Rightarrow> byte list \<Rightarrow> DiskManager \<Rightarrow> (unit, DiskManager) outcome" where
  "WritePage page_id page_data d =
     (let d1 = stream_write page_data (seekp (page_id * int PAGE_SIZE) d) in
      if badbit d1 then (Inl (RuntimeError ''I/O error while writing page''), d1)
      else (Inr (), if page_id mod 2 ^ 64 \<ge> int (num_pages d1)
                    then d1\<lparr>num_pages := nat ((page_id + 1) mod 2 ^ 64)\<rparr> else d1))"

text \<open>Incrementing the largest \<open>int32_t\<close> is undefined.\<close>

definition AllocatePage :: "DiskManager \<Rightarrow> (page_id, DiskManager) outcome" where
  "AllocatePage d =
     (if next_page_id d \<ge> 2 ^ 31 - 1 then (Inl UndefinedBehaviour, d)
      else (Inr (next_page_id d), d\<lparr>next_page_id := next_page_id d + 1\<rparr>))"

definition DeallocatePage :: "page_id \<Rightarrow> DiskManager \<Rightarrow> DiskManager" where
  "DeallocatePage page_id d = d"

section \<open>Pages of the file\<close>

definition disk_page :: "DiskManager \<Rightarrow> page_id \<Rightarrow> byte list" where
  "disk_page d p = take PAGE_SIZE (drop (nat p * PAGE_SIZE) (fbytes d))"

definition in_file :: "DiskManager \<Rightarrow> page_id \<Rightarrow> bool" where
  "in_file d p \<longleftrightarrow> 0 \<le> p \<and> (nat p + 1) * PAGE_SIZE \<le> length (fbytes d)"

definition can_allocate :: "DiskManager \<Rightarrow> bool" where
  "can_allocate d \<longleftrightarrow> 0 \<le> next_page_id d \<and> next_page_id d < 2 ^ 31 - 1"

lemma page_offset: "0 \<le> p \<Longrightarrow> nat (p * int PAGE_SIZE) = nat p * PAGE_SIZE"
  by (simp add: nat_mult_distrib)

lemma length_disk_page: "in_file d p \<Longrightarrow> length (disk_page d p) = PAGE_SIZE"
  by (auto simp: disk_page_def in_file_def min_def)

lemma length_write_at: "length (write_at off bs f) = max (length f) (off + length bs)"
  by (auto simp: write_at_def)

lemma drop_write_at: "take (length bs) (drop off (write_at off bs f)) = bs"
  by (simp add: write_at_def)

lemma nth_write_at:
  "i < length f \<Longrightarrow> write_at off bs f ! i = (if off \<le> i \<and> i < off + length bs then bs ! (i - off) else f ! i)"
  by (auto simp: write_at_def nth_append min_def)

lemma write_at_elsewhere:
  assumes "q + n \<le> length f" and "q + n \<le> off \<or> off + length bs \<le> q"
  shows "take n (drop q (write_at off bs f)) = take n (drop q f)"
proof (rule nth_equalityI)
  show "length (take n (drop q (write_at off bs f))) = length (take n (drop q f))"
    using assms by (simp add: length_write_at)
next
  fix i assume "i < length (take n (drop q (write_at off bs f)))"
  then have "i < n" by simp
  with assms show "take n (drop q (write_at off bs f)) ! i = take n (drop q f) ! i"
    by (auto simp: nth_write_at length_write_at)
qed

lemma page_ranges: "a \<noteq> b \<Longrightarrow> a * PAGE_SIZE + PAGE_SIZE \<le> b * PAGE_SIZE \<or> b * PAGE_SIZE + PAGE_SIZE \<le> a * PAGE_SIZE"
  by (auto simp: PAGE_SIZE_def)

lemma ReadPage_ok:
  assumes "stream_good d" and "in_file d p"
  shows "\<exists>d'. ReadPage p d = (Inr (disk_page d p), d') \<and> stream_good d' \<and> fbytes d' = fbytes d \<and>
    next_page_id d' = next_page_id d"
proof -
  have off: "\<not> p * int PAGE_SIZE < 0" "nat (p * int PAGE_SIZE) = nat p * PAGE_SIZE"
    using assms(2) page_offset by (auto simp: in_file_def PAGE_SIZE_def)
  have len: "length (take PAGE_SIZE (drop (nat p * PAGE_SIZE) (fbytes d))) = PAGE_SIZE"
    using length_disk_page [OF assms(2)] by (simp add: disk_page_def)
  show ?thesis
    using assms(1) off len
    by (simp add: ReadPage_def seekg_def stream_read_def stream_good_def stream_fail_def
        disk_page_def Let_def)
qed

lemma WritePage_ok:
  assumes "stream_good d" and "0 \<le> p" and "length bs = PAGE_SIZE"
  shows "\<exists>d'. WritePage p bs d = (Inr (), d') \<and> stream_good d' \<and>
    fbytes d' = write_at (nat p * PAGE_SIZE) bs (fbytes d) \<and> next_page_id d' = next_page_id d"
proof -
  have off: "\<not> p * int PAGE_SIZE < 0" "nat (p * int PAGE_SIZE) = nat p * PAGE_SIZE"
    using assms(2) page_offset by (auto simp: PAGE_SIZE_def)
  show ?thesis
    using assms off
    by (simp add: WritePage_def seekp_def stream_write_def stream_good_def stream_fail_def Let_def)
qed

lemma write_page_effect:
  assumes "fbytes d' = write_at (nat p * PAGE_SIZE) bs (fbytes d)" and "0 \<le> p" and "length bs = PAGE_SIZE"
  shows "disk_page d' p = bs" and "in_file d' p"
    and "in_file d q \<Longrightarrow> in_file d' q"
    and "in_file d q \<Longrightarrow> q \<noteq> p \<Longrightarrow> disk_page d' q = disk_page d q"
proof -
  show "disk_page d' p = bs"
    using drop_write_at [of bs "nat p * PAGE_SIZE" "fbytes d"] assms by (simp add: disk_page_def)
  show "in_file d' p" using assms by (simp add: in_file_def length_write_at)
  show "in_file d q \<Longrightarrow> in_file d' q" using assms by (auto simp: in_file_def length_write_at)
  assume q: "in_file d q" "q \<noteq> p"
  then have "nat q \<noteq> nat p" using assms(2) by (auto simp: in_file_def)
  from page_ranges [OF this] q assms show "disk_page d' q = disk_page d q"
    by (simp add: disk_page_def in_file_def write_at_elsewhere)
qed

section \<open>The contract the buffer pool relies on\<close>

text \<open>
  A device with pages addressed by identifiers: \<open>stored d p\<close> says that the page can be read
  back, \<open>page_of d p\<close> is what a read returns. Allocation hands out fresh identifiers.
\<close>

locale block_device =
  fixes ok :: "'d \<Rightarrow> bool" and stored :: "'d \<Rightarrow> page_id \<Rightarrow> bool" and page_of :: "'d \<Rightarrow> page_id \<Rightarrow> byte list"
    and next_id :: "'d \<Rightarrow> page_id"
    and rd :: "page_id \<Rightarrow> 'd \<Rightarrow> (byte list, 'd) outcome"
    and wr :: "page_id \<Rightarrow> byte list \<Rightarrow> 'd \<Rightarrow> (unit, 'd) outcome"
  assumes page_len: "stored d p \<Longrightarrow> length (page_of d p) = PAGE_SIZE"
    and stored_nonneg: "stored d p \<Longrightarrow> 0 \<le> p"
    and rd_ok: "ok d \<Longrightarrow> stored d p \<Longrightarrow>
      \<exists>d'. rd p d = (Inr (page_of d p), d') \<and> ok d' \<and> stored d' = stored d \<and>
        page_of d' = page_of d \<and> next_id d' = next_id d"
    and wr_ok: "ok d \<Longrightarrow> 0 \<le> p \<Longrightarrow> length bs = PAGE_SIZE \<Longrightarrow>
      \<exists>d'. wr p bs d = (Inr (), d') \<and> ok d' \<and> stored d' p \<and> page_of d' p = bs \<and>
        (\<forall>q. stored d q \<longrightarrow> stored d' q) \<and>
        (\<forall>q. stored d q \<longrightarrow> q \<noteq> p \<longrightarrow> page_of d' q = page_of d q) \<and> next_id d' = next_id d"
begin

lemma write_then_read:
  assumes "ok d" and "0 \<le> p" and "length bs = PAGE_SIZE"
  shows "\<exists>d'. wr p bs d = (Inr (), d') \<and> fst (rd p d') = Inr bs"
proof -
  from wr_ok [OF assms] obtain d' where d': "wr p bs d = (Inr (), d')" "ok d'" "stored d' p"
    "page_of d' p = bs" by blast
  with rd_ok [OF d'(2,3)] show ?thesis by auto
qed

end

interpretation dm: block_device stream_good in_file disk_page next_page_id ReadPage WritePage
proof (unfold_locales, goal_cases)
  case 1
  then show ?case by (rule length_disk_page)
next
  case 2
  then show ?case by (simp add: in_file_def)
next
  case (3 d p)
  from ReadPage_ok [OF this] obtain d' where d': "ReadPage p d = (Inr (disk_page d p), d')"
    "stream_good d'" "fbytes d' = fbytes d" "next_page_id d' = next_page_id d" by blast
  then have "in_file d' = in_file d" "disk_page d' = disk_page d"
    by (simp_all add: in_file_def disk_page_def fun_eq_iff)
  with d' show ?case by blast
next
  case (4 d p bs)
  from WritePage_ok [OF this] obtain d' where d': "WritePage p bs d = (Inr (), d')"
    "stream_good d'" "fbytes d' = write_at (nat p * PAGE_SIZE) bs (fbytes d)"
    "next_page_id d' = next_page_id d" by blast
  from write_page_effect [OF d'(3) 4(2,3)] d' show ?case by blast
qed

section \<open>Properties\<close>

text \<open>
  A page written through a good stream is read back byte for byte, every other complete
  page of the file keeps its contents, and the stream stays good.
\<close>

theorem WritePage_ReadPage_roundtrip:
  assumes "stream_good d" and "0 \<le> p" and "length bs = PAGE_SIZE"
  shows "\<exists>d'. WritePage p bs d = (Inr (), d') \<and> stream_good d' \<and> fst (ReadPage p d') = Inr bs \<and>
    (\<forall>q. in_file d q \<longrightarrow> q \<noteq> p \<longrightarrow> fst (ReadPage q d') = fst (ReadPage q d))"
proof -
  from dm.wr_ok [OF assms] obtain d' where d': "WritePage p bs d = (Inr (), d')" "stream_good d'"
    "in_file d' p" "disk_page d' p = bs" "\<forall>q. in_file d q \<longrightarrow> in_file d' q"
    "\<forall>q. in_file d q \<longrightarrow> q \<noteq> p \<longrightarrow> disk_page d' q = disk_page d q" by blast
  have "fst (ReadPage q d') = fst (ReadPage q d)" if "in_file d q" "q \<noteq> p" for q
    using dm.rd_ok [OF assms(1) that(1)] dm.rd_ok [OF d'(2)] d'(5,6) that by fastforce
  moreover have "fst (ReadPage p d') = Inr bs"
    using dm.rd_ok [OF d'(2,3)] d'(4) by auto
  ultimately show ?thesis using d' by blast
qed

text \<open>
  C9. Reading a page the file does not hold completely leaves the stream failed for good:
  \<open>ReadPage\<close> zero-fills and returns normally, but from then on every \<open>WritePage\<close> returns
  normally without changing the file, and every \<open>ReadPage\<close> returns zeros.
\<close>

theorem short_read_disables_disk:
  assumes "stream_good d" and "0 \<le> p" and "\<not> in_file d p"
  shows "\<exists>d'. ReadPage p d = (Inr (take PAGE_SIZE (drop (nat p * PAGE_SIZE) (fbytes d)) @
            replicate (PAGE_SIZE - (length (fbytes d) - nat p * PAGE_SIZE)) 0), d') \<and>
    (\<forall>q bs. fst (WritePage q bs d') = Inr () \<and> fbytes (snd (WritePage q bs d')) = fbytes d) \<and>
    (\<forall>q. fst (ReadPage q d') = Inr (replicate PAGE_SIZE 0))"
proof -
  have off: "\<not> p * int PAGE_SIZE < 0" "nat (p * int PAGE_SIZE) = nat p * PAGE_SIZE"
    using assms(2) page_offset by (auto simp: PAGE_SIZE_def)
  have short: "length (fbytes d) - nat p * PAGE_SIZE < PAGE_SIZE"
    using assms(2,3) by (simp add: in_file_def PAGE_SIZE_def)
  then have len: "length (take PAGE_SIZE (drop (nat p * PAGE_SIZE) (fbytes d))) = length (fbytes d) - nat p * PAGE_SIZE"
    by simp
  define d' where "d' = snd (ReadPage p d)"
  have run: "ReadPage p d = (Inr (take PAGE_SIZE (drop (nat p * PAGE_SIZE) (fbytes d)) @
            replicate (PAGE_SIZE - (length (fbytes d) - nat p * PAGE_SIZE)) 0), d')"
    and d': "failbit d'" "\<not> badbit d'" "fbytes d' = fbytes d"
    using assms(1) off len short
    by (simp_all add: d'_def ReadPage_def seekg_def stream_read_def stream_good_def stream_fail_def Let_def)
  have "fst (WritePage q bs d') = Inr () \<and> fbytes (snd (WritePage q bs d')) = fbytes d" for q bs
    using d' by (simp add: WritePage_def seekp_def stream_write_def stream_good_def stream_fail_def Let_def)
  moreover have "fst (ReadPage q d') = Inr (replicate PAGE_SIZE 0)" for q
    using d' by (simp add: ReadPage_def seekg_def stream_read_def stream_good_def stream_fail_def Let_def)
  ultimately show ?thesis using run by blast
qed

text \<open>A new, empty database file.\<close>

definition empty_disk :: DiskManager where
  "empty_disk = DiskManager_open []"

lemma empty_disk_good: "stream_good empty_disk"
  by (simp add: empty_disk_def DiskManager_open_def stream_good_def)

theorem WritePage_ReadPage_roundtrip_witness:
  "\<exists>d'. WritePage 0 (replicate PAGE_SIZE 7) empty_disk = (Inr (), d') \<and>
     fst (ReadPage 0 d') = Inr (replicate PAGE_SIZE 7)"
  using WritePage_ReadPage_roundtrip [OF empty_disk_good, of 0 "replicate PAGE_SIZE 7"] by auto

theorem short_read_disables_disk_witness:
  "\<exists>d'. fst (ReadPage 0 empty_disk) = Inr (replicate PAGE_SIZE 0) \<and> snd (ReadPage 0 empty_disk) = d' \<and>
     fbytes (snd (WritePage 0 (replicate PAGE_SIZE 7) d')) = []"
proof -
  have "\<not> in_file empty_disk 0" "fbytes empty_disk = []"
    by (simp_all add: in_file_def empty_disk_def DiskManager_open_def PAGE_SIZE_def)
  with short_read_disables_disk [OF empty_disk_good, of 0] show ?thesis by auto
qed

end
