(* ===== verification/Buffer_Pool.thy ===== *)
theory Buffer_Pool
  imports Lru_K Disk
begin

text \<open>
  The buffer pool manager (\<open>src/buffer/buffer_pool_manager.cpp\<close>) over the replacer and
  the disk manager. Every method holds \<open>latch_\<close> from its first statement to its last, so
  each is one atomic step. A \<open>Page *\<close> is the index of its frame. The proofs use the
  replacer and the disk through their contracts only (facts \<open>lru.\<close> and \<open>dm.\<close>).
\<close>

section \<open>State and operations\<close>

record Page =
  pg_data :: "byte list"
  pg_id :: page_id
  pin_count :: int
  is_dirty :: bool

record BufferPoolManager =
  pool_size :: nat
  disk_manager :: DiskManager
  repl :: LRUKReplacer
  pages :: "Page list"
  page_table :: "page_id \<rightharpoonup> frame_id"
  free_list :: "frame_id list"

definition zero_page :: "byte list" where
  "zero_page = replicate PAGE_SIZE 0"

definition Page_init :: Page where
  "Page_init = \<lparr>pg_data = zero_page, pg_id = INVALID_PAGE_ID, pin_count = 0, is_dirty = False\<rparr>"

definition BufferPoolManager_init :: "nat \<Rightarrow> DiskManager \<Rightarrow> nat \<Rightarrow> BufferPoolManager" where
  "BufferPoolManager_init n d k =
     \<lparr>pool_size = n, disk_manager = d, repl = LRUKReplacer_init n k,
      pages = replicate n Page_init, page_table = Map.empty, free_list = map int [0..<n]\<rparr>"

abbreviation frame :: "BufferPoolManager \<Rightarrow> frame_id \<Rightarrow> Page" where
  "frame b f \<equiv> pages b ! nat f"

abbreviation set_frame :: "frame_id \<Rightarrow> Page \<Rightarrow> BufferPoolManager \<Rightarrow> BufferPoolManager" where
  "set_frame f pg b \<equiv> b\<lparr>pages := (pages b)[nat f := pg]\<rparr>"

text \<open>The steps \<open>NewPage\<close> and \<open>FetchPage\<close> share: a frame from the free list or by
  eviction, writing back the page it held, and registering the page it now holds.\<close>

definition take_frame :: "BufferPoolManager \<Rightarrow> (frame_id option, BufferPoolManager) outcome" where
  "take_frame b =
     (case free_list b of
        f # fs \<Rightarrow> (Inr (Some f), b\<lparr>free_list := fs\<rparr>)
      | [] \<Rightarrow> (case Evict (repl b) of (res, r) \<Rightarrow> (res, b\<lparr>repl := r\<rparr>)))"

definition write_back :: "frame_id \<Rightarrow> BufferPoolManager \<Rightarrow> (unit, BufferPoolManager) outcome" where
  "write_back f b =
     (let page = frame b f in
      if pg_id page \<noteq> INVALID_PAGE_ID then
        bind_out
          (if is_dirty page then
             (case WritePage (pg_id page) (pg_data page) (disk_manager b) of
                (res, d) \<Rightarrow> (res, b\<lparr>disk_manager := d\<rparr>))
           else (Inr (), b))
          (\<lambda>_ b. (Inr (), b\<lparr>page_table := (page_table b)(pg_id page := None)\<rparr>))
      else (Inr (), b))"

definition install :: "frame_id \<Rightarrow> page_id \<Rightarrow> byte list \<Rightarrow> BufferPoolManager
    \<Rightarrow> (unit, BufferPoolManager) outcome" where
  "install f p bs b =
     (let b1 = set_frame f \<lparr>pg_data = bs, pg_id = p, pin_count = 1, is_dirty = False\<rparr> b;
          b2 = b1\<lparr>page_table := (page_table b1)(p \<mapsto> f)\<rparr>
      in case RecordAccess f (repl b2) of
           (Inl e, r) \<Rightarrow> (Inl e, b2\<lparr>repl := r\<rparr>)
         | (Inr _, r) \<Rightarrow> (Inr (), b2\<lparr>repl := SetEvictable f False r\<rparr>))"

definition NewPage :: "BufferPoolManager \<Rightarrow> ((page_id \<times> frame_id) option, BufferPoolManager) outcome" where
  "NewPage b0 =
     bind_out (take_frame b0) (\<lambda>res b. case res of
       None \<Rightarrow> (Inr None, b)
     | Some f \<Rightarrow>
         bind_out (write_back f b) (\<lambda>_ b.
         bind_out (case AllocatePage (disk_manager b) of (res, d) \<Rightarrow> (res, b\<lparr>disk_manager := d\<rparr>)) (\<lambda>p b.
         bind_out (install f p zero_page b) (\<lambda>_ b. (Inr (Some (p, f)), b)))))"

definition FetchPage :: "page_id \<Rightarrow> BufferPoolManager \<Rightarrow> (frame_id option, BufferPoolManager) outcome" where
  "FetchPage p b0 =
     (case page_table b0 p of
        Some f \<Rightarrow>
          let page = frame b0 f;
              b1 = set_frame f (page\<lparr>pin_count := pin_count page + 1\<rparr>) b0
          in (case RecordAccess f (repl b1) of
                (Inl e, r) \<Rightarrow> (Inl e, b1\<lparr>repl := r\<rparr>)
              | (Inr _, r) \<Rightarrow> (Inr (Some f), b1\<lparr>repl := SetEvictable f False r\<rparr>))
      | None \<Rightarrow>
          bind_out (take_frame b0) (\<lambda>res b. case res of
            None \<Rightarrow> (Inr None, b)
          | Some f \<Rightarrow>
              bind_out (write_back f b) (\<lambda>_ b.
              bind_out (case ReadPage p (disk_manager b) of (res, d) \<Rightarrow> (res, b\<lparr>disk_manager := d\<rparr>)) (\<lambda>bs b.
              bind_out (install f p bs b) (\<lambda>_ b. (Inr (Some f), b))))))"

definition UnpinPage :: "page_id \<Rightarrow> bool \<Rightarrow> BufferPoolManager \<Rightarrow> bool \<times> BufferPoolManager" where
  "UnpinPage p dirty b =
     (case page_table b p of
        None \<Rightarrow> (False, b)
      | Some f \<Rightarrow>
          let page = frame b f in
          if pin_count page \<le> 0 then (False, b)
          else
            let page1 = (if dirty then page\<lparr>is_dirty := True\<rparr> else page);
                page2 = page1\<lparr>pin_count := pin_count page1 - 1\<rparr>;
                b1 = set_frame f page2 b
            in (True, if pin_count page2 = 0 then b1\<lparr>repl := SetEvictable f True (repl b1)\<rparr> else b1))"

definition FlushPage :: "page_id \<Rightarrow> BufferPoolManager \<Rightarrow> (bool, BufferPoolManager) outcome" where
  "FlushPage p b =
     (if p = INVALID_PAGE_ID then (Inr False, b)
      else case page_table b p of
        None \<Rightarrow> (Inr False, b)
      | Some f \<Rightarrow>
          (case WritePage p (pg_data (frame b f)) (disk_manager b) of
             (Inl e, d) \<Rightarrow> (Inl e, b\<lparr>disk_manager := d\<rparr>)
           | (Inr _, d) \<Rightarrow> (Inr True, (set_frame f ((frame b f)\<lparr>is_dirty := False\<rparr>) b)\<lparr>disk_manager := d\<rparr>)))"

fun flush_frames :: "nat list \<Rightarrow> BufferPoolManager \<Rightarrow> (unit, BufferPoolManager) outcome" where
  "flush_frames [] b = (Inr (), b)"
| "flush_frames (i # is) b =
     (let page = pages b ! i in
      if pg_id page \<noteq> INVALID_PAGE_ID then
        (case WritePage (pg_id page) (pg_data page) (disk_manager b) of
           (Inl e, d) \<Rightarrow> (Inl e, b\<lparr>disk_manager := d\<rparr>)
         | (Inr _, d) \<Rightarrow>
             flush_frames is (b\<lparr>disk_manager := d, pages := (pages b)[i := page\<lparr>is_dirty := False\<rparr>]\<rparr>))
      else flush_frames is b)"

definition FlushAllPages :: "BufferPoolManager \<Rightarrow> (unit, BufferPoolManager) outcome" where
  "FlushAllPages b = flush_frames [0..<pool_size b] b"

definition DeletePage :: "page_id \<Rightarrow> BufferPoolManager \<Rightarrow> (bool, BufferPoolManager) outcome" where
  "DeletePage p b =
     (case page_table b p of
        None \<Rightarrow> (Inr True, b)
      | Some f \<Rightarrow>
          if pin_count (frame b f) > 0 then (Inr False, b)
          else
            let b1 = b\<lparr>page_table := (page_table b)(p := None)\<rparr> in
            (case Remove f (repl b1) of
               (Inl e, r) \<Rightarrow> (Inl e, b1\<lparr>repl := r\<rparr>)
             | (Inr _, r) \<Rightarrow>
                 let b2 = b1\<lparr>repl := r, free_list := free_list b1 @ [f]\<rparr>;
                     b3 = set_frame f \<lparr>pg_data = zero_page, pg_id = INVALID_PAGE_ID,
                                       pin_count = 0, is_dirty = False\<rparr> b2
                 in (Inr True, b3\<lparr>disk_manager := DeallocatePage p (disk_manager b3)\<rparr>)))"

text \<open>A client that holds a page writes its bytes through the pointer it got.\<close>

definition write_data :: "frame_id \<Rightarrow> byte list \<Rightarrow> BufferPoolManager \<Rightarrow> BufferPoolManager" where
  "write_data f bs b = set_frame f ((frame b f)\<lparr>pg_data := bs\<rparr>) b"

section \<open>The invariant\<close>

text \<open>
  The frames are split into the free ones, those in transit (\<open>H\<close>, non-empty only in the
  middle of an operation) and the resident ones. The page table is exactly the inverse of the
  identifiers the resident frames hold; the replacer tracks the resident frames and may evict
  those that nobody pins.
\<close>

definition frames :: "BufferPoolManager \<Rightarrow> frame_id set" where
  "frames b = {0..<int (pool_size b)}"

definition resident :: "frame_id set \<Rightarrow> BufferPoolManager \<Rightarrow> frame_id set" where
  "resident H b = frames b - set (free_list b) - H"

definition pool_ok :: "frame_id set \<Rightarrow> BufferPoolManager \<Rightarrow> bool" where
  "pool_ok H b \<longleftrightarrow>
     length (pages b) = pool_size b \<and> max_frames (repl b) = pool_size b \<and> lru_inv (repl b) \<and>
     stream_good (disk_manager b) \<and> 0 \<le> next_page_id (disk_manager b) \<and>
     H \<subseteq> frames b - set (free_list b) \<and> set (free_list b) \<subseteq> frames b \<and> distinct (free_list b) \<and>
     (\<forall>f \<in> frames b. length (pg_data (frame b f)) = PAGE_SIZE) \<and>
     (\<forall>f \<in> set (free_list b). pg_id (frame b f) = INVALID_PAGE_ID) \<and>
     (\<forall>p f. page_table b p = Some f \<longleftrightarrow> f \<in> resident H b \<and> pg_id (frame b f) = p) \<and>
     (\<forall>f \<in> resident H b. 0 \<le> pg_id (frame b f) \<and> pg_id (frame b f) < next_page_id (disk_manager b) \<and>
        0 \<le> pin_count (frame b f)) \<and>
     tracked (repl b) = resident H b \<and>
     evictables (repl b) = {f \<in> resident H b. pin_count (frame b f) = 0}"

abbreviation bpm_inv :: "BufferPoolManager \<Rightarrow> bool" where
  "bpm_inv \<equiv> pool_ok {}"

definition all_pinned :: "BufferPoolManager \<Rightarrow> bool" where
  "all_pinned b \<longleftrightarrow> free_list b = [] \<and> (\<forall>f \<in> frames b. 0 < pin_count (frame b f))"

definition pins :: "BufferPoolManager \<Rightarrow> page_id \<Rightarrow> int" where
  "pins b p = (case page_table b p of None \<Rightarrow> 0 | Some f \<Rightarrow> pin_count (frame b f))"

text \<open>
  \<open>holds b p bs\<close>: the pool will answer a fetch of \<open>p\<close> with the bytes \<open>bs\<close>, whatever
  is evicted in between. A page somebody pins is not evicted; a page nobody pins must be dirty
  or be on disk as it is.
\<close>

definition on_disk :: "BufferPoolManager \<Rightarrow> page_id \<Rightarrow> byte list \<Rightarrow> bool" where
  "on_disk b p bs \<longleftrightarrow> in_file (disk_manager b) p \<and> disk_page (disk_manager b) p = bs"

definition flagged :: "BufferPoolManager \<Rightarrow> page_id \<Rightarrow> bool" where
  "flagged b p \<longleftrightarrow> (case page_table b p of
      None \<Rightarrow> True
    | Some f \<Rightarrow> is_dirty (frame b f) \<or> on_disk b p (pg_data (frame b f)))"

definition holds :: "BufferPoolManager \<Rightarrow> page_id \<Rightarrow> byte list \<Rightarrow> bool" where
  "holds b p bs \<longleftrightarrow> (case page_table b p of
      None \<Rightarrow> on_disk b p bs
    | Some f \<Rightarrow> pg_data (frame b f) = bs \<and> (0 < pin_count (frame b f) \<or> flagged b p))"

lemma frames_nat: "f \<in> frames b \<Longrightarrow> length (pages b) = pool_size b \<Longrightarrow> nat f < length (pages b)"
  by (auto simp: frames_def)

lemma set_frame_other:
  "f \<in> frames b \<Longrightarrow> g \<in> frames b \<Longrightarrow> length (pages b) = pool_size b \<Longrightarrow>
   (pages b)[nat f := pg] ! nat g = (if f = g then pg else frame b g)"
  by (auto simp: frames_def nth_list_update)

lemma pool_ok_lookup:
  "pool_ok H b \<Longrightarrow> page_table b p = Some f \<longleftrightarrow> f \<in> resident H b \<and> pg_id (frame b f) = p"
  by (simp add: pool_ok_def)

lemma pool_ok_lookup_none:
  "pool_ok H b \<Longrightarrow> page_table b p = None \<longleftrightarrow> (\<forall>f \<in> resident H b. pg_id (frame b f) \<noteq> p)"
  by (metis (no_types, lifting) not_Some_eq pool_ok_lookup)

lemma pool_ok_resident:
  assumes "pool_ok H b" and "f \<in> resident H b"
  shows "f \<in> frames b" and "nat f < length (pages b)" and "0 \<le> pg_id (frame b f)"
    and "pg_id (frame b f) < next_page_id (disk_manager b)" and "0 \<le> pin_count (frame b f)"
    and "length (pg_data (frame b f)) = PAGE_SIZE" and "page_table b (pg_id (frame b f)) = Some f"
  using assms by (auto simp: pool_ok_def resident_def frames_def)

lemma pool_ok_frame_inj:
  "pool_ok H b \<Longrightarrow> f \<in> resident H b \<Longrightarrow> g \<in> resident H b \<Longrightarrow>
   pg_id (frame b f) = pg_id (frame b g) \<Longrightarrow> f = g"
  by (metis option.inject pool_ok_resident(7))

lemma bpm_inv_init:
  assumes "1 \<le> k" and "n \<le> 2 ^ 31" and "stream_good d" and "0 \<le> next_page_id d"
  shows "bpm_inv (BufferPoolManager_init n d k)"
proof -
  let ?b = "BufferPoolManager_init n d k"
  have fr: "set (free_list ?b) = frames ?b"
    by (simp add: BufferPoolManager_init_def frames_def image_int_atLeastLessThan)
  have res: "resident {} ?b = {}" by (simp add: resident_def fr)
  have "distinct (free_list ?b)"
    by (simp add: BufferPoolManager_init_def distinct_map inj_on_def)
  moreover have "length (pg_data (frame ?b f)) = PAGE_SIZE \<and> pg_id (frame ?b f) = INVALID_PAGE_ID"
    if "f \<in> frames ?b" for f
    using that by (auto simp: BufferPoolManager_init_def frames_def Page_init_def zero_page_def)
  moreover have "tracked (repl ?b) = {}" "evictables (repl ?b) = {}"
    by (simp_all add: BufferPoolManager_init_def LRUKReplacer_init_def tracked_def evictables_def)
  ultimately show ?thesis
    using assms lru_inv_init [OF assms(1,2)] unfolding pool_ok_def res fr
    by (auto simp: BufferPoolManager_init_def LRUKReplacer_init_def)
qed

lemma pool_view_cong [simp]:
  "on_disk (b\<lparr>free_list := fs\<rparr>) = on_disk b" "on_disk (b\<lparr>repl := r\<rparr>) = on_disk b"
  "flagged (b\<lparr>free_list := fs\<rparr>) = flagged b" "flagged (b\<lparr>repl := r\<rparr>) = flagged b"
  "holds (b\<lparr>free_list := fs\<rparr>) = holds b" "holds (b\<lparr>repl := r\<rparr>) = holds b"
  "pins (b\<lparr>free_list := fs\<rparr>) = pins b" "pins (b\<lparr>repl := r\<rparr>) = pins b"
  by (auto simp: fun_eq_iff holds_def flagged_def on_disk_def pins_def split: option.splits)

section \<open>Taking a frame, writing back, installing\<close>

text \<open>What holds of the pool between taking the frame \<open>f\<close> and using it.\<close>

definition cleared :: "BufferPoolManager \<Rightarrow> frame_id \<Rightarrow> BufferPoolManager \<Rightarrow> bool" where
  "cleared b f b' \<longleftrightarrow>
     pool_ok {f} b' \<and> pool_size b' = pool_size b \<and> pages b' = pages b \<and>
     next_page_id (disk_manager b') = next_page_id (disk_manager b) \<and>
     clock_ok (repl b') = clock_ok (repl b) \<and>
     (\<forall>p. page_table b' p = (if page_table b p = Some f then None else page_table b p)) \<and>
     (f \<in> resident {} b \<longrightarrow> pin_count (frame b f) = 0) \<and>
     (\<forall>p bs. holds b p bs \<longrightarrow> holds b' p bs) \<and>
     (\<forall>p. page_table b p \<noteq> Some f \<longrightarrow> flagged b p \<longrightarrow> flagged b' p)"

lemma clear_free_frame:
  assumes "bpm_inv b" and "free_list b = f # fs"
  shows "take_frame b = (Inr (Some f), b\<lparr>free_list := fs\<rparr>)"
    and "write_back f (b\<lparr>free_list := fs\<rparr>) = (Inr (), b\<lparr>free_list := fs\<rparr>)"
    and "cleared b f (b\<lparr>free_list := fs\<rparr>)"
proof -
  let ?b = "b\<lparr>free_list := fs\<rparr>"
  have res: "resident {f} ?b = resident {} b" and fr: "frames ?b = frames b"
    using assms(2) by (auto simp: resident_def frames_def)
  have nf: "f \<notin> resident {} b" "f \<in> frames b" "f \<notin> set fs"
    using assms by (auto simp: resident_def pool_ok_def)
  show "take_frame b = (Inr (Some f), ?b)" using assms(2) by (simp add: take_frame_def)
  show "write_back f ?b = (Inr (), ?b)"
    using assms by (simp add: write_back_def pool_ok_def)
  have "pool_ok {f} ?b"
    using assms nf unfolding pool_ok_def res fr by auto
  moreover have "page_table b p \<noteq> Some f" for p
    using nf pool_ok_lookup [OF assms(1)] by simp
  ultimately show "cleared b f ?b"
    using nf by (simp add: cleared_def)
qed

lemma clear_evicted_frame:
  assumes "bpm_inv b" and "free_list b = []" and "evictables (repl b) \<noteq> {}"
  shows "\<exists>f b1 b2. take_frame b = (Inr (Some f), b1) \<and> write_back f b1 = (Inr (), b2) \<and>
    f \<in> frames b \<and> cleared b f b2"
proof -
  have inv: "lru_inv (repl b)" and trk: "tracked (repl b) = resident {} b"
    and evs: "evictables (repl b) = {f \<in> resident {} b. pin_count (frame b f) = 0}"
    using assms(1) by (auto simp: pool_ok_def)
  from lru.evict_some [OF inv assms(3)] obtain f r where ev: "Evict (repl b) = (Inr (Some f), r)"
    "f \<in> evictables (repl b)" "lru_inv r" "max_frames r = max_frames (repl b)"
    "tracked r = tracked (repl b) - {f}" "evictables r = evictables (repl b) - {f}"
    "clock_ok r = clock_ok (repl b)" by blast
  have f: "f \<in> resident {} b" "pin_count (frame b f) = 0" using ev(2) evs by auto
  note fr = pool_ok_resident [OF assms(1) f(1)]
  define p where "p = pg_id (frame b f)"
  define d where "d = (if is_dirty (frame b f)
    then snd (WritePage p (pg_data (frame b f)) (disk_manager b)) else disk_manager b)"
  define b2 where "b2 = b\<lparr>repl := r, disk_manager := d, page_table := (page_table b)(p := None)\<rparr>"
  have good: "stream_good (disk_manager b)" using assms(1) by (simp add: pool_ok_def)
  from dm.wr_ok [OF good fr(3) fr(6)] have wr:
    "fst (WritePage p (pg_data (frame b f)) (disk_manager b)) = Inr ()"
    "stream_good d" "next_page_id d = next_page_id (disk_manager b)"
    "\<And>q. in_file (disk_manager b) q \<Longrightarrow> in_file d q"
    "\<And>q. in_file (disk_manager b) q \<Longrightarrow> q \<noteq> p \<Longrightarrow> disk_page d q = disk_page (disk_manager b) q"
    "is_dirty (frame b f) \<Longrightarrow> in_file d p \<and> disk_page d p = pg_data (frame b f)"
    "\<not> is_dirty (frame b f) \<Longrightarrow> d = disk_manager b"
    using good by (auto simp: d_def p_def)
  have take: "take_frame b = (Inr (Some f), b\<lparr>repl := r\<rparr>)"
    using assms(2) ev(1) by (simp add: take_frame_def)
  have "p \<noteq> INVALID_PAGE_ID" using fr(3) by (simp add: p_def INVALID_PAGE_ID_def)
  then have wb: "write_back f (b\<lparr>repl := r\<rparr>) = (Inr (), b2)"
    using wr(1) by (auto simp: write_back_def b2_def d_def p_def Let_def split: prod.splits)
  have pt: "page_table b q = Some f \<longleftrightarrow> q = p" for q
    using pool_ok_lookup [OF assms(1)] f(1) by (auto simp: p_def)
  have res: "resident {f} b2 = resident {} b - {f}" and frs: "frames b2 = frames b"
    by (auto simp: resident_def frames_def b2_def)
  have "page_table b2 q = Some g \<longleftrightarrow> g \<in> resident {} b - {f} \<and> pg_id (frame b g) = q" for q g
    using pool_ok_lookup [OF assms(1), of q g] pt [of q]
      pool_ok_frame_inj [OF assms(1), of g f] f(1) by (auto simp: b2_def p_def)
  then have "pool_ok {f} b2"
    unfolding pool_ok_def res frs
    using assms(1,2) ev wr(2,3) fr(1) trk evs by (auto simp: b2_def pool_ok_def)
  moreover have "holds b2 q bs" if "holds b q bs" for q bs
  proof (cases "q = p")
    case True
    then have q: "page_table b q = Some f" using pt by simp
    with that f have "pg_data (frame b f) = bs" "is_dirty (frame b f) \<or> on_disk b q bs"
      by (auto simp: holds_def flagged_def)
    with True wr show ?thesis
      by (cases "is_dirty (frame b f)") (auto simp: holds_def on_disk_def b2_def)
  next
    case False
    with that wr(4,5) show ?thesis
      by (auto simp: holds_def flagged_def on_disk_def b2_def split: option.splits)
  qed
  moreover have "flagged b2 q" if "page_table b q \<noteq> Some f" "flagged b q" for q
    using that pt wr(4,5) by (auto simp: flagged_def on_disk_def b2_def split: option.splits)
  ultimately have "cleared b f b2"
    unfolding cleared_def using ev(7) f wr(3) pt by (auto simp: b2_def)
  with take wb fr(1) show ?thesis by blast
qed

lemma obtain_frame:
  assumes "bpm_inv b" and "\<not> all_pinned b"
  shows "\<exists>f b1 b2. take_frame b = (Inr (Some f), b1) \<and> write_back f b1 = (Inr (), b2) \<and>
    f \<in> frames b \<and> cleared b f b2"
proof (cases "free_list b")
  case (Cons f fs)
  have "f \<in> frames b" using assms(1) Cons by (simp add: pool_ok_def)
  with clear_free_frame [OF assms(1) Cons] show ?thesis by blast
next
  case Nil
  then obtain f where f: "f \<in> frames b" "\<not> 0 < pin_count (frame b f)"
    using assms(2) by (auto simp: all_pinned_def)
  then have "f \<in> evictables (repl b)"
    using assms(1) Nil by (auto simp: pool_ok_def resident_def intro: order_antisym)
  with clear_evicted_frame [OF assms(1) Nil] show ?thesis by blast
qed

lemma obtain_frame_none: "bpm_inv b \<Longrightarrow> all_pinned b \<Longrightarrow> take_frame b = (Inr None, b)"
proof -
  assume inv: "bpm_inv b" and full: "all_pinned b"
  then have "evictables (repl b) = {}"
    by (auto simp: pool_ok_def all_pinned_def resident_def)
  with inv full lru.evict_none [of "repl b"] show ?thesis
    by (simp add: take_frame_def all_pinned_def pool_ok_def)
qed

lemma install_ok:
  assumes "pool_ok {f} b" and "clock_ok (repl b)" and "page_table b p = None" and "0 \<le> p"
    and "p < next_page_id (disk_manager b)" and "length bs = PAGE_SIZE"
  defines "pg \<equiv> \<lparr>pg_data = bs, pg_id = p, pin_count = 1, is_dirty = False\<rparr>"
  shows "\<exists>b'. install f p bs b = (Inr (), b') \<and> bpm_inv b' \<and> pool_size b' = pool_size b \<and>
    pages b' = (pages b)[nat f := pg] \<and> page_table b' = (page_table b)(p \<mapsto> f) \<and>
    disk_manager b' = disk_manager b \<and> free_list b' = free_list b"
proof -
  have f: "f \<in> frames b" "f \<notin> set (free_list b)" and len: "length (pages b) = pool_size b"
    and inv: "lru_inv (repl b)" and cap: "max_frames (repl b) = pool_size b"
    using assms(1) by (auto simp: pool_ok_def)
  from f(1) have "0 \<le> f" "f < int (max_frames (repl b))" by (auto simp: frames_def cap)
  from lru.access_and_pin [OF inv assms(2) this] obtain r where
    acc: "RecordAccess f (repl b) = (Inr (), r)" and r: "lru_inv (SetEvictable f False r)"
    "max_frames (SetEvictable f False r) = max_frames (repl b)"
    "tracked (SetEvictable f False r) = insert f (tracked (repl b))"
    "evictables (SetEvictable f False r) = evictables (repl b) - {f}" by blast
  define b' where "b' = b\<lparr>pages := (pages b)[nat f := pg], page_table := (page_table b)(p \<mapsto> f),
    repl := SetEvictable f False r\<rparr>"
  have run: "install f p bs b = (Inr (), b')"
    using acc by (simp add: install_def b'_def pg_def Let_def)
  have flds: "page_table b' = (page_table b)(p \<mapsto> f)" "disk_manager b' = disk_manager b"
    "repl b' = SetEvictable f False r" "free_list b' = free_list b" "pool_size b' = pool_size b"
    "length (pages b') = pool_size b"
    using len by (simp_all add: b'_def)
  have res: "resident {} b' = insert f (resident {f} b)" and frs: "frames b' = frames b"
    using f by (auto simp: resident_def frames_def b'_def)
  have fl: "f \<notin> resident {f} b" by (simp add: resident_def)
  have frm: "frame b' g = (if g = f then pg else frame b g)" if "g \<in> frames b" for g
    using set_frame_other [OF f(1) that len] by (simp add: b'_def)
  have sub: "resident {f} b \<subseteq> frames b" "set (free_list b) \<subseteq> frames b"
    using assms(1) by (auto simp: resident_def pool_ok_def)
  have none: "pg_id (frame b g) \<noteq> p" if "g \<in> resident {f} b" for g
    using pool_ok_lookup_none [OF assms(1)] assms(3) that by blast
  have "page_table b' q = Some g \<longleftrightarrow> g \<in> resident {} b' \<and> pg_id (frame b' g) = q" for q g
  proof (cases "g = f")
    case True
    have "page_table b q \<noteq> Some f" using fl pool_ok_lookup [OF assms(1)] by simp
    with True f(1) frm [of f] show ?thesis unfolding res by (auto simp: flds(1) pg_def)
  next
    case False
    then have "page_table b' q = Some g \<longleftrightarrow> page_table b q = Some g"
      using assms(3) by (simp add: flds(1))
    also have "\<dots> \<longleftrightarrow> g \<in> resident {f} b \<and> pg_id (frame b g) = q"
      by (rule pool_ok_lookup [OF assms(1)])
    finally show ?thesis using False sub frm [of g] unfolding res by auto
  qed
  moreover have "0 \<le> pg_id (frame b' g) \<and> pg_id (frame b' g) < next_page_id (disk_manager b') \<and>
      0 \<le> pin_count (frame b' g)" if "g \<in> resident {} b'" for g
    using that pool_ok_resident [OF assms(1), of g] sub frm [of g] f(1) assms(4,5)
    unfolding res by (auto simp: flds pg_def)
  moreover have "evictables (repl b') = {g \<in> resident {} b'. pin_count (frame b' g) = 0}"
  proof -
    have "evictables (repl b) = {g \<in> resident {f} b. pin_count (frame b g) = 0}"
      using assms(1) by (simp add: pool_ok_def)
    moreover have "frame b' g = frame b g" if "g \<in> resident {f} b" for g
      using that sub fl frm [of g] by auto
    ultimately show ?thesis
      using r(4) frm [OF f(1)] fl unfolding res by (auto simp: flds pg_def)
  qed
  moreover have "length (pg_data (frame b' g)) = PAGE_SIZE" if "g \<in> frames b" for g
    using that frm [OF that] assms(1,6) by (auto simp: pg_def pool_ok_def)
  moreover have "pg_id (frame b' g) = INVALID_PAGE_ID" if "g \<in> set (free_list b)" for g
    using that sub frm [of g] f assms(1) by (auto simp: pool_ok_def)
  moreover have "tracked (repl b') = resident {} b'"
    using r(3) assms(1) unfolding res by (simp add: flds pool_ok_def)
  ultimately have "bpm_inv b'"
    using assms(1) r(1,2) unfolding pool_ok_def frs by (simp add: flds)
  with run show ?thesis by (simp add: b'_def)
qed

end
