(* ===== verification/Buffer_Pool_Ops.thy ===== *)
theory Buffer_Pool_Ops
  imports Buffer_Pool
begin

text \<open>
  What each public method of the buffer pool does to the invariant, to the pin counts and to
  the logical contents of the pages (\<open>holds\<close>, \<open>flagged\<close> of \<open>Buffer_Pool\<close>).
\<close>

section \<open>Updating one resident frame\<close>

lemma update_resident:
  assumes "bpm_inv b" and f: "f \<in> resident {} b"
    and pg: "pg_id pg = pg_id (frame b f)" "length (pg_data pg) = PAGE_SIZE" "0 \<le> pin_count pg"
    and r: "lru_inv r" "max_frames r = pool_size b" "tracked r = tracked (repl b)"
      "evictables r = (if pin_count pg = 0 then insert f (evictables (repl b)) else evictables (repl b) - {f})"
    and d: "stream_good d" "next_page_id d = next_page_id (disk_manager b)"
  defines "b' \<equiv> b\<lparr>pages := (pages b)[nat f := pg], repl := r, disk_manager := d\<rparr>"
  shows "bpm_inv b'" and "page_table b' = page_table b"
    and "\<And>g. g \<in> resident {} b \<Longrightarrow> frame b' g = (if g = f then pg else frame b g)"
proof -
  note fr = pool_ok_resident [OF assms(1) f]
  have len: "length (pages b) = pool_size b" using assms(1) by (simp add: pool_ok_def)
  have frm: "frame b' g = (if g = f then pg else frame b g)" if "g \<in> frames b" for g
    using set_frame_other [OF fr(1) that len] by (simp add: b'_def)
  have sub: "resident {} b \<subseteq> frames b" "set (free_list b) \<subseteq> frames b" "f \<notin> set (free_list b)"
    using assms(1) f by (auto simp: resident_def pool_ok_def)
  show fr': "\<And>g. g \<in> resident {} b \<Longrightarrow> frame b' g = (if g = f then pg else frame b g)"
    using frm sub(1) by blast
  show pt: "page_table b' = page_table b" by (simp add: b'_def)
  have flds: "free_list b' = free_list b" "pool_size b' = pool_size b" "repl b' = r"
    "disk_manager b' = d" "length (pages b') = pool_size b" and res: "resident {} b' = resident {} b"
    and frs: "frames b' = frames b"
    using len by (simp_all add: b'_def resident_def frames_def)
  have ids: "pg_id (frame b' g) = pg_id (frame b g)" if "g \<in> resident {} b" for g
    using fr' [OF that] pg(1) by simp
  have "page_table b' p = Some g \<longleftrightarrow> g \<in> resident {} b \<and> pg_id (frame b' g) = p" for p g
    using pool_ok_lookup [OF assms(1), of p g] ids [of g] unfolding pt by auto
  moreover have "0 \<le> pg_id (frame b' g) \<and> pg_id (frame b' g) < next_page_id d \<and> 0 \<le> pin_count (frame b' g)"
    if "g \<in> resident {} b" for g
    using pool_ok_resident [OF assms(1) that] ids [OF that] fr' [OF that] pg(3) d(2) by auto
  moreover have "evictables r = {g \<in> resident {} b. pin_count (frame b' g) = 0}"
  proof -
    have "evictables (repl b) = {g \<in> resident {} b. pin_count (frame b g) = 0}"
      using assms(1) by (simp add: pool_ok_def)
    with r(4) fr' f show ?thesis by (auto split: if_splits)
  qed
  moreover have "length (pg_data (frame b' g)) = PAGE_SIZE" if "g \<in> frames b" for g
    using frm [OF that] that pg(2) assms(1) by (simp add: pool_ok_def)
  moreover have "pg_id (frame b' g) = INVALID_PAGE_ID" if "g \<in> set (free_list b)" for g
    using frm [of g] that sub assms(1) by (auto simp: pool_ok_def)
  moreover have "tracked r = resident {} b" using assms(1) r(3) by (simp add: pool_ok_def)
  ultimately show "bpm_inv b'"
    using assms(1) r(1,2) d unfolding pool_ok_def res frs flds by simp
qed

text \<open>Pages other than the one in the updated frame look as before.\<close>

lemma view_other:
  assumes "bpm_inv b" and "f \<in> resident {} b" and "page_table b' = page_table b"
    and "\<And>g. g \<in> resident {} b \<Longrightarrow> g \<noteq> f \<Longrightarrow> frame b' g = frame b g"
    and "\<And>bs. on_disk b q bs \<Longrightarrow> on_disk b' q bs" and "page_table b q \<noteq> Some f"
  shows "holds b q bs \<Longrightarrow> holds b' q bs" and "flagged b q \<Longrightarrow> flagged b' q" and "pins b' q = pins b q"
proof -
  have same: "frame b' g = frame b g" if "page_table b q = Some g" for g
    using that assms(1,4,6) pool_ok_lookup by blast
  show fl: "flagged b q \<Longrightarrow> flagged b' q"
    using same assms(3,5) by (auto simp: flagged_def split: option.splits)
  show "holds b q bs \<Longrightarrow> holds b' q bs"
    using same fl assms(3,5) by (auto simp: holds_def split: option.splits)
  show "pins b' q = pins b q"
    using same assms(3) by (auto simp: pins_def split: option.splits)
qed

lemma pool_facts:
  assumes "bpm_inv b"
  shows "lru_inv (repl b)" and "max_frames (repl b) = pool_size b" and "stream_good (disk_manager b)"
    and "tracked (repl b) = resident {} b" and "length (pages b) = pool_size b"
    and "evictables (repl b) = {f \<in> resident {} b. pin_count (frame b f) = 0}"
    and "page_table b p = Some f \<Longrightarrow> f \<in> resident {} b"
    and "page_table b p = Some f \<Longrightarrow> pg_id (frame b f) = p"
  using assms pool_ok_lookup [OF assms] by (auto simp: pool_ok_def)

section \<open>Fetching\<close>

lemma FetchPage_hit:
  assumes "bpm_inv b" and "clock_ok (repl b)" and "page_table b p = Some f"
  shows "\<exists>b'. FetchPage p b = (Inr (Some f), b') \<and> bpm_inv b' \<and> pool_size b' = pool_size b \<and>
    disk_manager b' = disk_manager b \<and> page_table b' p = Some f \<and>
    pg_data (frame b' f) = pg_data (frame b f) \<and> pins b' = (pins b)(p := pins b p + 1) \<and>
    (\<forall>q bs. holds b q bs \<longrightarrow> holds b' q bs) \<and> (\<forall>q. flagged b q \<longrightarrow> flagged b' q)"
proof -
  have f: "f \<in> resident {} b" using assms(1,3) pool_facts(7) by blast
  note fr = pool_ok_resident [OF assms(1) f] and pf = pool_facts [OF assms(1)]
  have "0 \<le> f" "f < int (max_frames (repl b))" using fr(1) pf(2) by (auto simp: frames_def)
  from lru.access_and_pin [OF pf(1) assms(2) this] obtain r where
    acc: "RecordAccess f (repl b) = (Inr (), r)" and r: "lru_inv (SetEvictable f False r)"
    "max_frames (SetEvictable f False r) = max_frames (repl b)"
    "tracked (SetEvictable f False r) = insert f (tracked (repl b))"
    "evictables (SetEvictable f False r) = evictables (repl b) - {f}" by blast
  define pg where "pg = (frame b f)\<lparr>pin_count := pin_count (frame b f) + 1\<rparr>"
  define b' where "b' = b\<lparr>pages := (pages b)[nat f := pg], repl := SetEvictable f False r,
    disk_manager := disk_manager b\<rparr>"
  have run: "FetchPage p b = (Inr (Some f), b')"
    using assms(3) acc by (simp add: FetchPage_def b'_def pg_def Let_def)
  have trk: "tracked (SetEvictable f False r) = tracked (repl b)" using r(3) pf(4) f by auto
  have pg: "pg_id pg = pg_id (frame b f)" "length (pg_data pg) = PAGE_SIZE" "0 \<le> pin_count pg"
    using fr(5,6) by (simp_all add: pg_def)
  have cap: "max_frames (SetEvictable f False r) = pool_size b" using r(2) pf(2) by simp
  have evs: "evictables (SetEvictable f False r) =
      (if pin_count pg = 0 then insert f (evictables (repl b)) else evictables (repl b) - {f})"
    using r(4) fr(5) by (simp add: pg_def)
  note upd = update_resident [OF assms(1) f pg r(1) cap trk evs pf(3) refl, folded b'_def]
  note inv = upd(1) and pt = upd(2) and frm = upd(3)
  have od: "on_disk b' = on_disk b" by (simp add: on_disk_def b'_def fun_eq_iff)
  have here: "holds b p bs \<Longrightarrow> holds b' p bs" "flagged b p \<Longrightarrow> flagged b' p" "pins b' p = pins b p + 1" for bs
    using frm [OF f] fr(5) assms(3) pt od by (auto simp: holds_def flagged_def pins_def pg_def)
  have "page_table b q \<noteq> Some f" if "q \<noteq> p" for q
    using that assms(1,3) pool_facts(8) by blast
  note other = view_other [OF assms(1) f pt _ _ this]
  have "(holds b q bs \<longrightarrow> holds b' q bs) \<and> (flagged b q \<longrightarrow> flagged b' q) \<and>
      pins b' q = ((pins b)(p := pins b p + 1)) q" for q bs
    using here other [of q] frm od by (cases "q = p") auto
  moreover have "pg_data (frame b' f) = pg_data (frame b f)" using frm [OF f] by (simp add: pg_def)
  ultimately show ?thesis
    using run inv pt assms(3) by (intro exI [of _ b']) (auto simp: b'_def)
qed

lemma view_installed:
  assumes "bpm_inv b" and "f \<in> frames b" and "cleared b f b2" and "page_table b p = None"
    and b': "pages b' = (pages b2)[nat f := pg]" "page_table b' = (page_table b2)(p \<mapsto> f)"
    and od: "\<And>q bs. on_disk b2 q bs \<Longrightarrow> on_disk b' q bs" and "q \<noteq> p"
  shows "holds b q bs \<Longrightarrow> holds b' q bs" and "flagged b q \<Longrightarrow> flagged b' q" and "pins b' q = pins b q"
proof -
  have c: "pool_ok {f} b2" "pages b2 = pages b"
    "page_table b2 q = (if page_table b q = Some f then None else page_table b q)"
    "holds b q bs \<Longrightarrow> holds b2 q bs" "page_table b q \<noteq> Some f \<Longrightarrow> flagged b q \<Longrightarrow> flagged b2 q"
    "f \<in> resident {} b \<Longrightarrow> pin_count (frame b f) = 0"
    using assms(3) by (auto simp: cleared_def)
  have same: "frame b' g = frame b g" if "page_table b2 q = Some g" for g
  proof -
    have "g \<noteq> f" "g \<in> frames b" using that c(3) pool_ok_lookup [OF assms(1), of q g]
      by (auto simp: resident_def split: if_splits)
    moreover have "length (pages b2) = pool_size b" using c(2) pool_facts(5) [OF assms(1)] by simp
    ultimately show ?thesis
      using assms(2) b'(1) c(2) by (auto simp: frames_def nth_list_update)
  qed
  have pt: "page_table b' q = page_table b2 q" using b'(2) assms(8) by simp
  have fl2: "flagged b q \<Longrightarrow> flagged b2 q"
    using c(3,5) by (cases "page_table b q = Some f") (auto simp: flagged_def)
  have lift: "flagged b2 q \<Longrightarrow> flagged b' q"
    using same pt od c(2) by (auto simp: flagged_def split: option.splits)
  from lift fl2 show "flagged b q \<Longrightarrow> flagged b' q" by blast
  have "holds b2 q bs \<Longrightarrow> holds b' q bs"
    using same pt od lift c(2) by (auto simp: holds_def split: option.splits)
  with c(4) show "holds b q bs \<Longrightarrow> holds b' q bs" by blast
  show "pins b' q = pins b q"
    using same pt c(2,3,6) pool_facts(7) [OF assms(1), of q f]
    by (auto simp: pins_def split: option.splits if_splits)
qed

lemma FetchPage_miss:
  assumes "bpm_inv b" and "clock_ok (repl b)" and "page_table b p = None" and "\<not> all_pinned b"
    and "on_disk b p bs" and "p < next_page_id (disk_manager b)"
  shows "\<exists>f b'. FetchPage p b = (Inr (Some f), b') \<and> bpm_inv b' \<and> pool_size b' = pool_size b \<and>
    next_page_id (disk_manager b') = next_page_id (disk_manager b) \<and> page_table b' p = Some f \<and>
    pg_data (frame b' f) = bs \<and> pins b' = (pins b)(p := pins b p + 1) \<and>
    (\<forall>q cs. holds b q cs \<longrightarrow> holds b' q cs) \<and> (\<forall>q. flagged b q \<longrightarrow> flagged b' q)"
proof -
  from obtain_frame [OF assms(1,4)] obtain f b1 b2 where tf: "take_frame b = (Inr (Some f), b1)"
    and wb: "write_back f b1 = (Inr (), b2)" and f: "f \<in> frames b" and cl: "cleared b f b2" by blast
  have c: "pool_ok {f} b2" "pool_size b2 = pool_size b" "pages b2 = pages b"
    "next_page_id (disk_manager b2) = next_page_id (disk_manager b)" "clock_ok (repl b2)"
    "page_table b2 p = None"
    using cl assms(2,3) by (auto simp: cleared_def)
  have "holds b p bs" using assms(3,5) by (simp add: holds_def)
  then have "holds b2 p bs" using cl by (simp add: cleared_def)
  with c(6) have od2: "in_file (disk_manager b2) p" "disk_page (disk_manager b2) p = bs"
    by (auto simp: holds_def on_disk_def)
  from dm.rd_ok [OF _ od2(1)] c(1) od2(2) obtain d where
    rd: "ReadPage p (disk_manager b2) = (Inr bs, d)" "stream_good d" "in_file d = in_file (disk_manager b2)"
    "disk_page d = disk_page (disk_manager b2)" "next_page_id d = next_page_id (disk_manager b2)"
    by (auto simp: pool_ok_def)
  define b3 where "b3 = b2\<lparr>disk_manager := d\<rparr>"
  have b3: "pool_ok {f} b3"
    using c(1) rd by (simp add: pool_ok_def b3_def resident_def frames_def)
  have len: "length bs = PAGE_SIZE" and nn: "0 \<le> p"
    using dm.page_len [OF od2(1)] od2(2) dm.stored_nonneg [OF od2(1)] by auto
  from install_ok [OF b3 _ _ nn _ len] obtain b' where ins: "install f p bs b3 = (Inr (), b')" "bpm_inv b'"
    "pool_size b' = pool_size b3"
    "pages b' = (pages b3)[nat f := \<lparr>pg_data = bs, pg_id = p, pin_count = 1, is_dirty = False\<rparr>]"
    "page_table b' = (page_table b3)(p \<mapsto> f)" "disk_manager b' = disk_manager b3"
    using c rd(5) assms(6) by (auto simp: b3_def)
  have run: "FetchPage p b = (Inr (Some f), b')"
    using assms(3) tf wb rd(1) ins(1) by (simp add: FetchPage_def b3_def)
  have od: "on_disk b2 q cs \<Longrightarrow> on_disk b' q cs" for q cs
    using rd(3,4) ins(6) by (simp add: on_disk_def b3_def)
  have frm: "frame b' f = \<lparr>pg_data = bs, pg_id = p, pin_count = 1, is_dirty = False\<rparr>"
    using ins(4) f c(3) pool_facts(5) [OF assms(1)] by (auto simp: b3_def frames_def)
  have p': "page_table b' p = Some f" using ins(5) by simp
  have here: "on_disk b' p bs" using od od2 by (simp add: on_disk_def)
  have other: "holds b q cs \<Longrightarrow> holds b' q cs" "flagged b q \<Longrightarrow> flagged b' q" "pins b' q = pins b q"
    if "q \<noteq> p" for q cs
    using view_installed [OF assms(1) f cl assms(3) _ _ od that] ins(4,5) by (auto simp: b3_def)
  have "(holds b q cs \<longrightarrow> holds b' q cs) \<and> (flagged b q \<longrightarrow> flagged b' q) \<and>
      pins b' q = ((pins b)(p := pins b p + 1)) q" for q cs
  proof (cases "q = p")
    case True
    have "holds b p cs \<Longrightarrow> cs = bs" using assms(3,5) by (simp add: holds_def on_disk_def)
    with True p' frm here assms(3) show ?thesis by (auto simp: holds_def flagged_def pins_def)
  next
    case False
    with other show ?thesis by simp
  qed
  then have "pins b' = (pins b)(p := pins b p + 1)" "\<forall>q cs. holds b q cs \<longrightarrow> holds b' q cs"
    "\<forall>q. flagged b q \<longrightarrow> flagged b' q" by (auto simp: fun_eq_iff)
  with run ins(2,3,6) p' frm c(2,4) rd(5) show ?thesis by (auto simp: b3_def)
qed

lemma FetchPage_none:
  assumes "bpm_inv b" and "all_pinned b" and "page_table b p = None"
  shows "FetchPage p b = (Inr None, b)"
  using obtain_frame_none [OF assms(1,2)] assms(3) by (simp add: FetchPage_def)

section \<open>New pages\<close>

lemma NewPage_none: "bpm_inv b \<Longrightarrow> all_pinned b \<Longrightarrow> NewPage b = (Inr None, b)"
  using obtain_frame_none by (simp add: NewPage_def)

lemma NewPage_ok:
  assumes "bpm_inv b" and "clock_ok (repl b)" and "\<not> all_pinned b" and "can_allocate (disk_manager b)"
  defines "p \<equiv> next_page_id (disk_manager b)"
  shows "\<exists>f b'. NewPage b = (Inr (Some (p, f)), b') \<and> bpm_inv b' \<and> pool_size b' = pool_size b \<and>
    next_page_id (disk_manager b') = p + 1 \<and> page_table b p = None \<and> page_table b' p = Some f \<and>
    pg_data (frame b' f) = zero_page \<and> pins b' = (pins b)(p := 1) \<and> holds b' p zero_page \<and>
    (\<forall>q cs. q \<noteq> p \<longrightarrow> holds b q cs \<longrightarrow> holds b' q cs) \<and> (\<forall>q. q \<noteq> p \<longrightarrow> flagged b q \<longrightarrow> flagged b' q)"
proof -
  from obtain_frame [OF assms(1,3)] obtain f b1 b2 where tf: "take_frame b = (Inr (Some f), b1)"
    and wb: "write_back f b1 = (Inr (), b2)" and f: "f \<in> frames b" and cl: "cleared b f b2" by blast
  have fresh: "page_table b p = None"
    using pool_ok_lookup_none [OF assms(1)] pool_ok_resident(4) [OF assms(1)] by (fastforce simp: p_def)
  have c: "pool_ok {f} b2" "pool_size b2 = pool_size b" "pages b2 = pages b"
    "next_page_id (disk_manager b2) = p" "clock_ok (repl b2)" "page_table b2 p = None"
    using cl assms(2) fresh by (auto simp: cleared_def p_def)
  have nn: "0 \<le> p" "p < 2 ^ 31 - 1" using assms(4) by (auto simp: can_allocate_def p_def)
  define b3 where "b3 = b2\<lparr>disk_manager := (disk_manager b2)\<lparr>next_page_id := p + 1\<rparr>\<rparr>"
  have al: "AllocatePage (disk_manager b2) = (Inr p, (disk_manager b2)\<lparr>next_page_id := p + 1\<rparr>)"
    using nn c(4) by (simp add: AllocatePage_def)
  have "pg_id (frame b2 g) < p + 1" if "g \<in> resident {f} b2" for g
    using pool_ok_resident(4) [OF c(1) that] c(4) by simp
  then have b3: "pool_ok {f} b3"
    using c(1) nn unfolding pool_ok_def
    by (simp add: b3_def resident_def frames_def stream_good_def)
  have zl: "length zero_page = PAGE_SIZE" by (simp add: zero_page_def)
  from install_ok [OF b3 _ _ nn(1) _ zl] obtain b' where ins: "install f p zero_page b3 = (Inr (), b')" "bpm_inv b'"
    "pool_size b' = pool_size b3"
    "pages b' = (pages b3)[nat f := \<lparr>pg_data = zero_page, pg_id = p, pin_count = 1, is_dirty = False\<rparr>]"
    "page_table b' = (page_table b3)(p \<mapsto> f)" "disk_manager b' = disk_manager b3"
    using c by (auto simp: b3_def)
  have run: "NewPage b = (Inr (Some (p, f)), b')"
    using tf wb al ins(1) by (simp add: NewPage_def b3_def)
  have od: "on_disk b2 q cs \<Longrightarrow> on_disk b' q cs" for q cs
    using ins(6) by (simp add: on_disk_def b3_def in_file_def disk_page_def)
  have frm: "frame b' f = \<lparr>pg_data = zero_page, pg_id = p, pin_count = 1, is_dirty = False\<rparr>"
    using ins(4) f c(3) pool_facts(5) [OF assms(1)] by (auto simp: b3_def frames_def)
  have p': "page_table b' p = Some f" using ins(5) by simp
  have other: "holds b q cs \<Longrightarrow> holds b' q cs" "flagged b q \<Longrightarrow> flagged b' q" "pins b' q = pins b q"
    if "q \<noteq> p" for q cs
    using view_installed [OF assms(1) f cl fresh _ _ od that] ins(4,5) by (auto simp: b3_def)
  have "pins b' = (pins b)(p := 1)"
  proof
    fix q show "pins b' q = ((pins b)(p := 1)) q"
      using other(3) p' frm by (cases "q = p") (simp_all add: pins_def)
  qed
  moreover have "holds b' p zero_page" using p' frm by (simp add: holds_def)
  ultimately show ?thesis
    using run ins(2,3,6) p' frm c(2,4) fresh other(1,2) by (auto simp: b3_def)
qed

section \<open>Unpinning and writing through a pointer\<close>

lemma UnpinPage_false: "bpm_inv b \<Longrightarrow> pins b p \<le> 0 \<Longrightarrow> UnpinPage p dirty b = (False, b)"
  by (auto simp: UnpinPage_def pins_def Let_def split: option.splits)

lemma UnpinPage_ok:
  assumes "bpm_inv b" and "0 < pins b p"
  shows "\<exists>b'. UnpinPage p dirty b = (True, b') \<and> bpm_inv b' \<and> pool_size b' = pool_size b \<and>
    disk_manager b' = disk_manager b \<and> page_table b' = page_table b \<and>
    current_timestamp (repl b') = current_timestamp (repl b) \<and>
    pins b' = (pins b)(p := pins b p - 1) \<and> (flagged b' p \<longleftrightarrow> dirty \<or> flagged b p) \<and>
    (\<forall>bs. holds b p bs \<longrightarrow> dirty \<or> flagged b p \<or> 1 < pins b p \<longrightarrow> holds b' p bs) \<and>
    (\<forall>q bs. q \<noteq> p \<longrightarrow> holds b q bs \<longrightarrow> holds b' q bs) \<and>
    (\<forall>q. q \<noteq> p \<longrightarrow> flagged b q \<longrightarrow> flagged b' q)"
proof -
  from assms(2) obtain f where pt0: "page_table b p = Some f" and pc: "0 < pin_count (frame b f)"
    by (auto simp: pins_def split: option.splits)
  have f: "f \<in> resident {} b" using assms(1) pt0 pool_facts(7) by blast
  note fr = pool_ok_resident [OF assms(1) f] and pf = pool_facts [OF assms(1)]
  define pg where "pg = (frame b f)\<lparr>is_dirty := dirty \<or> is_dirty (frame b f),
    pin_count := pin_count (frame b f) - 1\<rparr>"
  define r where "r = (if pin_count pg = 0 then SetEvictable f True (repl b) else repl b)"
  define b' where "b' = b\<lparr>pages := (pages b)[nat f := pg], repl := r, disk_manager := disk_manager b\<rparr>"
  have run: "UnpinPage p dirty b = (True, b')"
    using pt0 pc by (auto simp: UnpinPage_def b'_def pg_def r_def Let_def)
  have pg: "pg_id pg = pg_id (frame b f)" "length (pg_data pg) = PAGE_SIZE" "0 \<le> pin_count pg"
    using fr(6) pc by (simp_all add: pg_def)
  have r: "lru_inv r" "max_frames r = pool_size b" "tracked r = tracked (repl b)"
      "evictables r = (if pin_count pg = 0 then insert f (evictables (repl b)) else evictables (repl b) - {f})"
    using pf lru.set_ev_inv lru.set_ev_cap lru.set_ev_trk lru.set_ev_evs f pc
    by (auto simp: r_def)
  note upd = update_resident [OF assms(1) f pg r pf(3) refl, folded b'_def]
  note inv = upd(1) and pt = upd(2) and frm = upd(3)
  have od: "on_disk b' = on_disk b" by (simp add: on_disk_def b'_def fun_eq_iff)
  have fl: "flagged b' p \<longleftrightarrow> dirty \<or> flagged b p"
    using frm [OF f] pt0 pt od by (auto simp: flagged_def pg_def)
  have hd: "holds b p bs \<Longrightarrow> dirty \<or> flagged b p \<or> 1 < pins b p \<Longrightarrow> holds b' p bs" for bs
    using frm [OF f] pt0 pt fl by (auto simp: holds_def pins_def pg_def)
  have "page_table b q \<noteq> Some f" if "q \<noteq> p" for q
    using that assms(1) pt0 pool_facts(8) by blast
  note other = view_other [OF assms(1) f pt _ _ this]
  have oth: "(holds b q bs \<longrightarrow> holds b' q bs) \<and> (flagged b q \<longrightarrow> flagged b' q) \<and> pins b' q = pins b q"
    if "q \<noteq> p" for q bs
    using other [of q] frm od that by auto
  have "pins b' = (pins b)(p := pins b p - 1)"
  proof
    fix q show "pins b' q = ((pins b)(p := pins b p - 1)) q"
      using oth frm [OF f] pt0 pt by (cases "q = p") (simp_all add: pins_def pg_def)
  qed
  moreover have "current_timestamp (repl b') = current_timestamp (repl b)"
    using SetEvictable_ok(4) [OF pf(1)] by (simp add: b'_def r_def)
  ultimately show ?thesis using run inv pt fl hd oth by (auto simp: b'_def)
qed

lemma write_data_ok:
  assumes "bpm_inv b" and "page_table b p = Some f" and "0 < pins b p" and "length bs = PAGE_SIZE"
  defines "b' \<equiv> write_data f bs b"
  shows "bpm_inv b'" and "pins b' = pins b" and "holds b' p bs" and "page_table b' = page_table b"
    and "pool_size b' = pool_size b" and "disk_manager b' = disk_manager b" and "repl b' = repl b"
    and "\<And>q cs. q \<noteq> p \<Longrightarrow> holds b q cs \<Longrightarrow> holds b' q cs"
    and "\<And>q. q \<noteq> p \<Longrightarrow> flagged b q \<Longrightarrow> flagged b' q"
proof -
  have f: "f \<in> resident {} b" using assms(1,2) pool_facts(7) by blast
  note fr = pool_ok_resident [OF assms(1) f] and pf = pool_facts [OF assms(1)]
  define pg where "pg = (frame b f)\<lparr>pg_data := bs\<rparr>"
  have pc: "0 < pin_count (frame b f)" using assms(2,3) by (simp add: pins_def)
  have b': "b' = b\<lparr>pages := (pages b)[nat f := pg], repl := repl b, disk_manager := disk_manager b\<rparr>"
    by (simp add: b'_def write_data_def pg_def)
  have pg: "pg_id pg = pg_id (frame b f)" "length (pg_data pg) = PAGE_SIZE" "0 \<le> pin_count pg"
    using assms(4) pc by (simp_all add: pg_def)
  have evs: "evictables (repl b) =
      (if pin_count pg = 0 then insert f (evictables (repl b)) else evictables (repl b) - {f})"
    using pf(6) pc by (auto simp: pg_def)
  note upd = update_resident [OF assms(1) f pg pf(1,2) refl evs pf(3) refl, folded b']
  note frm = upd(3)
  show "bpm_inv b'" and pt: "page_table b' = page_table b" by (rule upd)+
  have od: "on_disk b' = on_disk b" by (simp add: on_disk_def b' fun_eq_iff)
  have "page_table b q \<noteq> Some f" if "q \<noteq> p" for q
    using that assms(1,2) pool_facts(8) by blast
  note other = view_other [OF assms(1) f pt _ _ this]
  have oth: "(holds b q cs \<longrightarrow> holds b' q cs) \<and> (flagged b q \<longrightarrow> flagged b' q) \<and> pins b' q = pins b q"
    if "q \<noteq> p" for q cs
    using other [of q] frm od that by auto
  then show "\<And>q cs. q \<noteq> p \<Longrightarrow> holds b q cs \<Longrightarrow> holds b' q cs"
    and "\<And>q. q \<noteq> p \<Longrightarrow> flagged b q \<Longrightarrow> flagged b' q" by blast+
  show "pins b' = pins b"
  proof
    fix q show "pins b' q = pins b q"
      using oth frm [OF f] assms(2) pt by (cases "q = p") (simp_all add: pins_def pg_def)
  qed
  show "holds b' p bs" using frm [OF f] assms(2) pt pc by (simp add: holds_def pg_def)
  show "pool_size b' = pool_size b" "disk_manager b' = disk_manager b" "repl b' = repl b"
    by (simp_all add: b')
qed

section \<open>Flushing\<close>

lemma clean_frame:
  assumes "bpm_inv b" and "f \<in> resident {} b"
    and wr: "WritePage (pg_id (frame b f)) (pg_data (frame b f)) (disk_manager b) = (Inr (), d)"
  defines "b' \<equiv> b\<lparr>disk_manager := d, pages := (pages b)[nat f := (frame b f)\<lparr>is_dirty := False\<rparr>]\<rparr>"
  shows "bpm_inv b'" and "page_table b' = page_table b" and "pins b' = pins b"
    and "on_disk b' (pg_id (frame b f)) (pg_data (frame b f))"
    and "\<And>q bs. holds b q bs \<Longrightarrow> holds b' q bs" and "\<And>q. flagged b q \<Longrightarrow> flagged b' q"
    and "pool_size b' = pool_size b" and "next_page_id d = next_page_id (disk_manager b)"
    and "repl b' = repl b" and "flagged b' (pg_id (frame b f))"
    and "\<And>q bs. q \<noteq> pg_id (frame b f) \<Longrightarrow> on_disk b q bs \<Longrightarrow> on_disk b' q bs"
    and "\<And>g. g \<in> resident {} b \<Longrightarrow> pg_id (frame b' g) = pg_id (frame b g)"
    and "\<And>g. g \<in> resident {} b \<Longrightarrow> pg_data (frame b' g) = pg_data (frame b g)"
    and "free_list b' = free_list b" and "stream_good d"
proof -
  note fr = pool_ok_resident [OF assms(1,2)] and pf = pool_facts [OF assms(1)]
  define p where "p = pg_id (frame b f)"
  define pg where "pg = (frame b f)\<lparr>is_dirty := False\<rparr>"
  from dm.wr_ok [OF pf(3) fr(3) fr(6)] wr have d: "stream_good d" "in_file d p"
    "disk_page d p = pg_data (frame b f)" "next_page_id d = next_page_id (disk_manager b)"
    "\<And>q. in_file (disk_manager b) q \<Longrightarrow> in_file d q"
    "\<And>q. in_file (disk_manager b) q \<Longrightarrow> q \<noteq> p \<Longrightarrow> disk_page d q = disk_page (disk_manager b) q"
    by (auto simp: p_def)
  have b': "b' = b\<lparr>pages := (pages b)[nat f := pg], repl := repl b, disk_manager := d\<rparr>"
    by (simp add: b'_def pg_def)
  have pg: "pg_id pg = pg_id (frame b f)" "length (pg_data pg) = PAGE_SIZE" "0 \<le> pin_count pg"
    using fr by (simp_all add: pg_def)
  have evs: "evictables (repl b) =
      (if pin_count pg = 0 then insert f (evictables (repl b)) else evictables (repl b) - {f})"
    using pf(6) assms(2) by (auto simp: pg_def)
  note upd = update_resident [OF assms(1,2) pg pf(1,2) refl evs d(1,4), folded b']
  note pt = upd(2) and frm = upd(3)
  show "bpm_inv b'" "page_table b' = page_table b" by (rule upd)+
  show "next_page_id d = next_page_id (disk_manager b)" "stream_good d" by (rule d)+
  show "pool_size b' = pool_size b" "repl b' = repl b" "free_list b' = free_list b" by (simp_all add: b')
  show "\<And>g. g \<in> resident {} b \<Longrightarrow> pg_id (frame b' g) = pg_id (frame b g)"
    "\<And>g. g \<in> resident {} b \<Longrightarrow> pg_data (frame b' g) = pg_data (frame b g)"
    using frm by (simp_all add: pg_def)
  show od: "on_disk b' (pg_id (frame b f)) (pg_data (frame b f))"
    using d by (simp add: on_disk_def b' p_def)
  show odo: "on_disk b' q bs" if "q \<noteq> pg_id (frame b f)" "on_disk b q bs" for q bs
    using that d by (auto simp: on_disk_def b' p_def)
  have ptp: "page_table b p = Some f" using fr(7) by (simp add: p_def)
  show fl: "flagged b' (pg_id (frame b f))"
    using ptp pt frm [OF assms(2)] od by (simp add: flagged_def p_def pg_def)
  have "page_table b q \<noteq> Some f" if "q \<noteq> p" for q
    using that assms(1) pool_facts(8) p_def by blast
  note other = view_other [OF assms(1,2) pt _ _ this]
  have oth: "(holds b q bs \<longrightarrow> holds b' q bs) \<and> (flagged b q \<longrightarrow> flagged b' q) \<and> pins b' q = pins b q"
    if "q \<noteq> p" for q bs
    using other [of q] frm odo that by (auto simp: p_def)
  have "holds b p bs \<Longrightarrow> holds b' p bs" for bs
    using ptp pt frm [OF assms(2)] fl by (auto simp: holds_def pg_def p_def)
  with oth show "\<And>q bs. holds b q bs \<Longrightarrow> holds b' q bs" by metis
  from oth fl show "\<And>q. flagged b q \<Longrightarrow> flagged b' q" by (metis p_def)
  show "pins b' = pins b"
  proof
    fix q show "pins b' q = pins b q"
      using oth frm [OF assms(2)] ptp pt by (cases "q = p") (simp_all add: pins_def pg_def)
  qed
qed

lemma write_resident:
  assumes "bpm_inv b" and "f \<in> resident {} b"
  obtains d where "WritePage (pg_id (frame b f)) (pg_data (frame b f)) (disk_manager b) = (Inr (), d)"
proof -
  note fr = pool_ok_resident [OF assms]
  from dm.wr_ok [OF pool_facts(3) [OF assms(1)] fr(3) fr(6)] that show thesis by blast
qed

lemma FlushPage_none: "page_table b p = None \<Longrightarrow> FlushPage p b = (Inr False, b)"
  by (simp add: FlushPage_def)

lemma FlushPage_ok:
  assumes "bpm_inv b" and pt: "page_table b p = Some f"
  shows "\<exists>b'. FlushPage p b = (Inr True, b') \<and> bpm_inv b' \<and> pool_size b' = pool_size b \<and>
    repl b' = repl b \<and> next_page_id (disk_manager b') = next_page_id (disk_manager b) \<and>
    page_table b' = page_table b \<and> pins b' = pins b \<and> on_disk b' p (pg_data (frame b f)) \<and> flagged b' p \<and>
    (\<forall>q bs. holds b q bs \<longrightarrow> holds b' q bs) \<and> (\<forall>q. flagged b q \<longrightarrow> flagged b' q)"
proof -
  have f: "f \<in> resident {} b" and p: "pg_id (frame b f) = p" using assms pool_facts(7,8) by blast+
  from write_resident [OF assms(1) f] obtain d
    where wr: "WritePage (pg_id (frame b f)) (pg_data (frame b f)) (disk_manager b) = (Inr (), d)" .
  note cf = clean_frame [OF assms(1) f wr]
  have "p \<noteq> INVALID_PAGE_ID" using pool_ok_resident(3) [OF assms(1) f] p by (simp add: INVALID_PAGE_ID_def)
  then have "FlushPage p b = (Inr True, b\<lparr>disk_manager := d, pages := (pages b)[nat f := (frame b f)\<lparr>is_dirty := False\<rparr>]\<rparr>)"
    using pt wr p by (simp add: FlushPage_def)
  with cf p show ?thesis by (simp add: exI)
qed

text \<open>\<open>FlushAllPages\<close> leaves every resident page on disk as it is in memory.\<close>

lemma flush_frames_ok:
  assumes "bpm_inv b" and "set is \<subseteq> {0..<pool_size b}"
    and "\<And>f. f \<in> resident {} b \<Longrightarrow> f \<notin> int ` set is \<Longrightarrow> on_disk b (pg_id (frame b f)) (pg_data (frame b f))"
    and "\<And>f. f \<in> set (free_list b) \<Longrightarrow> pg_id (frame b f) = INVALID_PAGE_ID"
  shows "\<exists>b'. flush_frames is b = (Inr (), b') \<and> bpm_inv b' \<and> pool_size b' = pool_size b \<and>
    repl b' = repl b \<and> next_page_id (disk_manager b') = next_page_id (disk_manager b) \<and>
    page_table b' = page_table b \<and> pins b' = pins b \<and>
    (\<forall>q bs. holds b q bs \<longrightarrow> holds b' q bs) \<and>
    (\<forall>f \<in> resident {} b'. on_disk b' (pg_id (frame b' f)) (pg_data (frame b' f)))"
  using assms
proof (induction "is" arbitrary: b)
  case Nil
  then show ?case by simp
next
  case (Cons i is')
  let ?f = "int i"
  show ?case
  proof (cases "?f \<in> set (free_list b)")
    case True
    then have "pg_id (pages b ! i) = INVALID_PAGE_ID" using Cons.prems(4) by fastforce
    then have "flush_frames (i # is') b = flush_frames is' b" by simp
    moreover have "\<And>f. f \<in> resident {} b \<Longrightarrow> f \<notin> int ` set is' \<Longrightarrow>
        on_disk b (pg_id (frame b f)) (pg_data (frame b f))"
      using Cons.prems(3) True by (fastforce simp: resident_def)
    ultimately show ?thesis using Cons.IH [of b] Cons.prems by auto
  next
    case False
    then have f: "?f \<in> resident {} b" using Cons.prems(2) by (auto simp: resident_def frames_def)
    from write_resident [OF Cons.prems(1) f] obtain d
      where wr: "WritePage (pg_id (frame b ?f)) (pg_data (frame b ?f)) (disk_manager b) = (Inr (), d)" .
    define b1 where "b1 = b\<lparr>disk_manager := d, pages := (pages b)[nat ?f := (frame b ?f)\<lparr>is_dirty := False\<rparr>]\<rparr>"
    note cf = clean_frame [OF Cons.prems(1) f wr, folded b1_def]
    have "pg_id (pages b ! i) \<noteq> INVALID_PAGE_ID"
      using pool_ok_resident(3) [OF Cons.prems(1) f] by (simp add: INVALID_PAGE_ID_def)
    then have run: "flush_frames (i # is') b = flush_frames is' b1"
      using wr by (simp add: b1_def Let_def)
    have res: "resident {} b1 = resident {} b" using cf(7,14) by (simp add: resident_def frames_def)
    have "on_disk b1 (pg_id (frame b1 g)) (pg_data (frame b1 g))"
      if "g \<in> resident {} b1" "g \<notin> int ` set is'" for g
    proof (cases "g = ?f")
      case True
      with cf(4) cf(12) [OF f] cf(13) [OF f] show ?thesis by metis
    next
      case g: False
      have "pg_id (frame b g) \<noteq> pg_id (frame b ?f)"
        using pool_ok_frame_inj [OF Cons.prems(1), of g ?f] that(1) f g res by auto
      moreover have "on_disk b (pg_id (frame b g)) (pg_data (frame b g))"
        using Cons.prems(3) [of g] that g res by auto
      ultimately show ?thesis using cf(11,12,13) [of "g"] cf(11) that(1) res by simp
    qed
    moreover have "\<And>g. g \<in> set (free_list b1) \<Longrightarrow> pg_id (frame b1 g) = INVALID_PAGE_ID"
      using cf(1) by (simp add: pool_ok_def)
    ultimately have "\<exists>b'. flush_frames is' b1 = (Inr (), b') \<and> bpm_inv b' \<and> pool_size b' = pool_size b1 \<and>
      repl b' = repl b1 \<and> next_page_id (disk_manager b') = next_page_id (disk_manager b1) \<and>
      page_table b' = page_table b1 \<and> pins b' = pins b1 \<and> (\<forall>q bs. holds b1 q bs \<longrightarrow> holds b' q bs) \<and>
      (\<forall>f \<in> resident {} b'. on_disk b' (pg_id (frame b' f)) (pg_data (frame b' f)))"
      using Cons.IH [of b1] Cons.prems(2) cf(1,7) by simp
    moreover have "next_page_id (disk_manager b1) = next_page_id (disk_manager b)"
      using cf(8) by (simp add: b1_def)
    ultimately show ?thesis using run cf(2,3,5,7,9) by auto
  qed
qed

lemma FlushAllPages_ok:
  assumes "bpm_inv b"
  shows "\<exists>b'. FlushAllPages b = (Inr (), b') \<and> bpm_inv b' \<and> pool_size b' = pool_size b \<and>
    repl b' = repl b \<and> next_page_id (disk_manager b') = next_page_id (disk_manager b) \<and>
    page_table b' = page_table b \<and> pins b' = pins b \<and> (\<forall>q. flagged b' q) \<and>
    (\<forall>q bs. holds b q bs \<longrightarrow> holds b' q bs \<and> on_disk b' q bs)"
proof -
  have all: "f \<in> int ` set [0..<pool_size b]" if "f \<in> resident {} b" for f
    using that by (auto simp: resident_def frames_def image_iff intro!: bexI [of _ "nat f"])
  have "pg_id (frame b f) = INVALID_PAGE_ID" if "f \<in> set (free_list b)" for f
    using that assms by (simp add: pool_ok_def)
  with flush_frames_ok [OF assms, of "[0..<pool_size b]"] all obtain b' where
    run: "FlushAllPages b = (Inr (), b')" "bpm_inv b'" "pool_size b' = pool_size b"
    "repl b' = repl b" "next_page_id (disk_manager b') = next_page_id (disk_manager b)"
    "page_table b' = page_table b" "pins b' = pins b" "\<And>q bs. holds b q bs \<Longrightarrow> holds b' q bs"
    and od: "\<And>f. f \<in> resident {} b' \<Longrightarrow> on_disk b' (pg_id (frame b' f)) (pg_data (frame b' f))"
    unfolding FlushAllPages_def by auto
  have here: "on_disk b' q (pg_data (frame b' f))" if "page_table b' q = Some f" for q f
    using od [of f] pool_facts(7,8) [OF run(2) that] by simp
  have "flagged b' q" for q
    using here by (auto simp: flagged_def split: option.splits)
  moreover have "on_disk b' q bs" if "holds b q bs" for q bs
    using run(8) [OF that] here by (auto simp: holds_def split: option.splits)
  ultimately show ?thesis using run by blast
qed

section \<open>Deleting\<close>

lemma DeletePage_pinned: "0 < pins b p \<Longrightarrow> DeletePage p b = (Inr False, b)"
  by (auto simp: DeletePage_def pins_def split: option.splits)

lemma DeletePage_absent: "page_table b p = None \<Longrightarrow> DeletePage p b = (Inr True, b)"
  by (simp add: DeletePage_def)

lemma DeletePage_ok:
  assumes "bpm_inv b" and pt: "page_table b p = Some f" and unp: "pins b p \<le> 0"
  shows "\<exists>b'. DeletePage p b = (Inr True, b') \<and> bpm_inv b' \<and> pool_size b' = pool_size b \<and>
    clock_ok (repl b') = clock_ok (repl b) \<and> disk_manager b' = disk_manager b \<and>
    page_table b' = (page_table b)(p := None) \<and> free_list b' = free_list b @ [f] \<and> pins b' = pins b \<and>
    (\<forall>q bs. q \<noteq> p \<longrightarrow> holds b q bs \<longrightarrow> holds b' q bs) \<and> (\<forall>q. flagged b q \<longrightarrow> flagged b' q)"
proof -
  have f: "f \<in> resident {} b" and p: "pg_id (frame b f) = p" using assms(1) pt pool_facts(7,8) by blast+
  note fr = pool_ok_resident [OF assms(1) f] and pf = pool_facts [OF assms(1)]
  have z: "pin_count (frame b f) = 0" using unp pt fr(5) by (simp add: pins_def)
  then have "f \<in> evictables (repl b)" using pf(6) f by simp
  from lru.rem_ok [OF pf(1) this] obtain r where r: "Remove f (repl b) = (Inr (), r)" "lru_inv r"
    "max_frames r = max_frames (repl b)" "tracked r = tracked (repl b) - {f}"
    "evictables r = evictables (repl b) - {f}" "clock_ok r = clock_ok (repl b)" by blast
  define pg where "pg = \<lparr>pg_data = zero_page, pg_id = INVALID_PAGE_ID, pin_count = 0, is_dirty = False\<rparr>"
  define b' where "b' = b\<lparr>page_table := (page_table b)(p := None), repl := r,
    free_list := free_list b @ [f], pages := (pages b)[nat f := pg]\<rparr>"
  have run: "DeletePage p b = (Inr True, b')"
    using pt z r(1) by (simp add: DeletePage_def b'_def pg_def Let_def DeallocatePage_def)
  have nf: "f \<notin> set (free_list b)" and sub: "resident {} b \<subseteq> frames b" "set (free_list b) \<subseteq> frames b"
    using f assms(1) by (auto simp: resident_def pool_ok_def)
  have res: "resident {} b' = resident {} b - {f}" and frs: "frames b' = frames b"
    by (auto simp: b'_def resident_def frames_def)
  have frm: "frame b' g = (if g = f then pg else frame b g)" if "g \<in> frames b" for g
    using set_frame_other [OF fr(1) that pf(5)] by (auto simp: b'_def)
  have same: "frame b' g = frame b g" if "g \<in> resident {} b - {f}" for g
    using that sub frm by auto
  have pt': "page_table b' = (page_table b)(p := None)" by (simp add: b'_def)
  have "page_table b' q = Some g \<longleftrightarrow> g \<in> resident {} b - {f} \<and> pg_id (frame b' g) = q" for q g
    using pool_ok_lookup [OF assms(1), of q g] same [of g] p pt pool_ok_frame_inj [OF assms(1) _ f, of g]
    unfolding pt' by (cases "g = f") auto
  moreover have "0 \<le> pg_id (frame b' g) \<and> pg_id (frame b' g) < next_page_id (disk_manager b) \<and>
      0 \<le> pin_count (frame b' g)" if "g \<in> resident {} b - {f}" for g
    using pool_ok_resident(3-5) [OF assms(1), of g] that unfolding same [OF that] by simp
  moreover have "evictables r = {g \<in> resident {} b - {f}. pin_count (frame b' g) = 0}"
    unfolding r(5) pf(6) using same by auto
  moreover have "length (pg_data (frame b' g)) = PAGE_SIZE" if "g \<in> frames b" for g
    using frm [OF that] that assms(1) by (simp add: pool_ok_def pg_def zero_page_def)
  moreover have "pg_id (frame b' g) = INVALID_PAGE_ID" if "g \<in> set (free_list b @ [f])" for g
    using frm [of g] that sub fr(1) assms(1) by (auto simp: pool_ok_def pg_def)
  ultimately have "bpm_inv b'"
    using assms(1) r(2-4) nf pf(4) fr(1) unfolding pool_ok_def res frs
    by (simp add: b'_def)
  moreover have old: "q \<noteq> p \<Longrightarrow> page_table b q = Some g \<Longrightarrow> frame b' g = frame b g" for q g
    using pool_ok_lookup [OF assms(1), of q g] same [of g] p by auto
  have od: "on_disk b' = on_disk b"
    by (simp_all add: b'_def on_disk_def fun_eq_iff)
  have fl: "flagged b q \<Longrightarrow> flagged b' q" for q
    using old [of q] pt' od by (cases "q = p") (auto simp: flagged_def split: option.splits)
  have hd: "q \<noteq> p \<Longrightarrow> holds b q bs \<Longrightarrow> holds b' q bs" for q bs
    using old [of q] pt' od fl [of q] by (auto simp: holds_def split: option.splits)
  have "pins b' q = pins b q" for q
    using old [of q] pt' pt z by (cases "q = p") (auto simp: pins_def split: option.splits)
  then have "pins b' = pins b" by auto
  ultimately show ?thesis using run fl hd pt' r(6) by (auto simp: b'_def)
qed

end
