(* ===== verification/Page_Store.thy ===== *)
theory Page_Store
  imports Prelude "HOL-Library.Multiset"
begin

text \<open>
  What the buffer pool promises its clients, with frames, eviction and the disk left out: a
  store of pages with values of a type \<open>'d\<close>, of which at most \<open>capacity\<close> distinct ones
  are pinned at a time. A page that is unpinned for the last time while its contents are neither
  reported dirty nor saved is gone (\<open>content\<close> becomes \<open>None\<close>), so a client proof over this
  store has to show that the client reports what it changes. An \<open>Inl\<close> result marks a call
  outside the contract. \<open>Buffer_Pool_Refinement\<close> shows that the buffer pool implements it.
\<close>

record 'd page_store =
  capacity :: nat
  content :: "page_id \<rightharpoonup> 'd"
  pinned :: "page_id list"
  saved :: "page_id set"
  next_new :: page_id

definition ps_full :: "('d, 'x) page_store_scheme \<Rightarrow> bool" where
  "ps_full s \<longleftrightarrow> capacity s \<le> card (set (pinned s))"

definition ps_init :: "nat \<Rightarrow> page_id \<Rightarrow> 'd page_store" where
  "ps_init n p = \<lparr>capacity = n, content = Map.empty, pinned = [], saved = {}, next_new = p\<rparr>"

definition ps_new :: "'d \<Rightarrow> 'd page_store \<Rightarrow> (page_id option, 'd page_store) outcome" where
  "ps_new z s =
     (if ps_full s then (Inr None, s)
      else if 2 ^ 31 - 1 \<le> next_new s then (Inl UndefinedBehaviour, s)
      else (Inr (Some (next_new s)),
            s\<lparr>content := (content s)(next_new s \<mapsto> z), pinned := next_new s # pinned s,
              saved := saved s - {next_new s}, next_new := next_new s + 1\<rparr>))"

definition ps_fetch :: "page_id \<Rightarrow> 'd page_store \<Rightarrow> ('d option, 'd page_store) outcome" where
  "ps_fetch p s =
     (case content s p of
        None \<Rightarrow> (Inl UndefinedBehaviour, s)
      | Some d \<Rightarrow> if p \<in> set (pinned s) \<or> \<not> ps_full s then (Inr (Some d), s\<lparr>pinned := p # pinned s\<rparr>)
                  else (Inr None, s))"

definition ps_write :: "page_id \<Rightarrow> 'd \<Rightarrow> 'd page_store \<Rightarrow> (unit, 'd page_store) outcome" where
  "ps_write p d s =
     (if p \<in> set (pinned s) then (Inr (), s\<lparr>content := (content s)(p \<mapsto> d), saved := saved s - {p}\<rparr>)
      else (Inl UndefinedBehaviour, s))"

definition ps_unpin :: "page_id \<Rightarrow> bool \<Rightarrow> 'd page_store \<Rightarrow> bool \<times> 'd page_store" where
  "ps_unpin p dirty s =
     (if p \<notin> set (pinned s) then (False, s)
      else
        let pinned' = remove1 p (pinned s);
            saved' = (if dirty then insert p (saved s) else saved s);
            content' = (if p \<notin> set pinned' \<and> p \<notin> saved' then (content s)(p := None) else content s)
        in (True, s\<lparr>pinned := pinned', saved := saved', content := content'\<rparr>))"

definition ps_flush :: "page_id \<Rightarrow> 'd page_store \<Rightarrow> (bool, 'd page_store) outcome" where
  "ps_flush p s =
     (if p \<in> set (pinned s) then (Inr True, s\<lparr>saved := insert p (saved s)\<rparr>) else (Inl UndefinedBehaviour, s))"

definition ps_flush_all :: "'d page_store \<Rightarrow> 'd page_store" where
  "ps_flush_all s = s\<lparr>saved := saved s \<union> dom (content s)\<rparr>"

definition ps_delete :: "page_id \<Rightarrow> 'd page_store \<Rightarrow> bool \<times> 'd page_store" where
  "ps_delete p s =
     (if p \<in> set (pinned s) then (False, s) else (True, s\<lparr>content := (content s)(p := None)\<rparr>))"

section \<open>Well-formed stores\<close>

definition ps_ok :: "('d, 'x) page_store_scheme \<Rightarrow> bool" where
  "ps_ok s \<longleftrightarrow> set (pinned s) \<subseteq> dom (content s) \<and> dom (content s) \<subseteq> {0..<next_new s} \<and>
     dom (content s) - set (pinned s) \<subseteq> saved s \<and> 0 \<le> next_new s"

lemma ps_ok_init [simp]: "0 \<le> p \<Longrightarrow> ps_ok (ps_init n p)"
  by (simp add: ps_ok_def ps_init_def)

lemma ps_ok_fresh: "ps_ok s \<Longrightarrow> content s (next_new s) = None \<and> next_new s \<notin> set (pinned s)"
  by (force simp: ps_ok_def)

lemma ps_ok_new: "ps_ok s \<Longrightarrow> ps_ok (snd (ps_new z s))"
  unfolding ps_new_def by (auto simp: ps_ok_def subset_iff)

lemma ps_ok_fetch: "ps_ok s \<Longrightarrow> ps_ok (snd (ps_fetch p s))"
  by (auto simp: ps_ok_def ps_fetch_def split: option.splits)

lemma ps_ok_write: "ps_ok s \<Longrightarrow> ps_ok (snd (ps_write p d s))"
  by (auto simp: ps_ok_def ps_write_def subset_iff)

lemma notin_remove1: "t \<notin> set (remove1 p xs) \<Longrightarrow> t = p \<or> t \<notin> set xs"
  by (cases "t = p") auto

lemma ps_ok_unpin: "ps_ok s \<Longrightarrow> ps_ok (snd (ps_unpin p dirty s))"
  using set_remove1_subset [of p "pinned s"]
  by (auto simp: ps_ok_def ps_unpin_def Let_def subset_iff) (metis domI notin_remove1)+

lemma ps_ok_flush: "ps_ok s \<Longrightarrow> ps_ok (snd (ps_flush p s))"
  by (auto simp: ps_ok_def ps_flush_def)

lemma ps_ok_flush_all: "ps_ok s \<Longrightarrow> ps_ok (ps_flush_all s)"
  by (auto simp: ps_ok_def ps_flush_all_def)

lemma ps_ok_delete: "ps_ok s \<Longrightarrow> ps_ok (snd (ps_delete p s))"
  by (auto simp: ps_ok_def ps_delete_def)

lemmas ps_ok_steps = ps_ok_new ps_ok_fetch ps_ok_write ps_ok_unpin ps_ok_flush ps_ok_flush_all ps_ok_delete

end
