(* ===== verification/Buffer_Pool_Refinement.thy ===== *)
theory Buffer_Pool_Refinement
  imports Buffer_Pool_Ops Page_Store
begin

text \<open>
  The buffer pool implements the page store: whatever sequence of calls a client makes inside
  the contract, the pool answers each call as the store does, with the same page identifiers and
  the same bytes, whichever frames the replacer evicts in between.
\<close>

section \<open>Calls and answers\<close>

datatype pool_op =
    NewOp
  | FetchOp page_id
  | WriteOp page_id "byte list"
  | UnpinOp page_id bool
  | FlushOp page_id
  | FlushAllOp
  | DeleteOp page_id

datatype answer = Null | NewId page_id | Data "byte list" | Flag bool | Done

text \<open>One call on the pool. \<open>WriteOp\<close> is a client storing through the page pointer it holds.\<close>

fun bpm_step :: "pool_op \<Rightarrow> BufferPoolManager \<Rightarrow> (answer, BufferPoolManager) outcome" where
  "bpm_step NewOp b = bind_out (NewPage b) (\<lambda>r b. case r of
     None \<Rightarrow> (Inr Null, b) | Some (p, f) \<Rightarrow> (Inr (NewId p), b))"
| "bpm_step (FetchOp p) b = bind_out (FetchPage p b) (\<lambda>r b. case r of
     None \<Rightarrow> (Inr Null, b) | Some f \<Rightarrow> (Inr (Data (pg_data (frame b f))), b))"
| "bpm_step (WriteOp p bs) b = (case page_table b p of
     None \<Rightarrow> (Inl UndefinedBehaviour, b) | Some f \<Rightarrow> (Inr Done, write_data f bs b))"
| "bpm_step (UnpinOp p dirty) b = (case UnpinPage p dirty b of (r, b) \<Rightarrow> (Inr (Flag r), b))"
| "bpm_step (FlushOp p) b = bind_out (FlushPage p b) (\<lambda>r b. (Inr (Flag r), b))"
| "bpm_step FlushAllOp b = bind_out (FlushAllPages b) (\<lambda>_ b. (Inr Done, b))"
| "bpm_step (DeleteOp p) b = bind_out (DeletePage p b) (\<lambda>r b. (Inr (Flag r), b))"

fun ps_step :: "pool_op \<Rightarrow> byte list page_store \<Rightarrow> (answer, byte list page_store) outcome" where
  "ps_step NewOp s = bind_out (ps_new zero_page s) (\<lambda>r s. case r of
     None \<Rightarrow> (Inr Null, s) | Some p \<Rightarrow> (Inr (NewId p), s))"
| "ps_step (FetchOp p) s = bind_out (ps_fetch p s) (\<lambda>r s. case r of
     None \<Rightarrow> (Inr Null, s) | Some bs \<Rightarrow> (Inr (Data bs), s))"
| "ps_step (WriteOp p bs) s =
     (if length bs = PAGE_SIZE then bind_out (ps_write p bs s) (\<lambda>_ s. (Inr Done, s))
      else (Inl UndefinedBehaviour, s))"
| "ps_step (UnpinOp p dirty) s = (case ps_unpin p dirty s of (r, s) \<Rightarrow> (Inr (Flag r), s))"
| "ps_step (FlushOp p) s = bind_out (ps_flush p s) (\<lambda>r s. (Inr (Flag r), s))"
| "ps_step FlushAllOp s = (Inr Done, ps_flush_all s)"
| "ps_step (DeleteOp p) s = (case ps_delete p s of (r, s) \<Rightarrow> (Inr (Flag r), s))"

fun run_steps :: "('o \<Rightarrow> 's \<Rightarrow> ('a, 's) outcome) \<Rightarrow> 'o list \<Rightarrow> 's \<Rightarrow> ('a list, 's) outcome" where
  "run_steps step [] s = (Inr [], s)"
| "run_steps step (c # cs) s =
     bind_out (step c s) (\<lambda>a s. bind_out (run_steps step cs s) (\<lambda>as s. (Inr (a # as), s)))"

section \<open>The simulation relation\<close>

definition pool_rel :: "BufferPoolManager \<Rightarrow> byte list page_store \<Rightarrow> bool" where
  "pool_rel b s \<longleftrightarrow> bpm_inv b \<and> ps_ok s \<and> capacity s = pool_size b \<and>
     next_new s = next_page_id (disk_manager b) \<and> (\<forall>p. pins b p = int (count_list (pinned s) p)) \<and>
     (\<forall>p bs. content s p = Some bs \<longrightarrow> holds b p bs) \<and> (\<forall>p \<in> saved s. flagged b p)"

lemma pool_relI:
  assumes "bpm_inv b" and "ps_ok s" and "capacity s = pool_size b"
    and "next_new s = next_page_id (disk_manager b)" and "\<And>p. pins b p = int (count_list (pinned s) p)"
    and "\<And>p bs. content s p = Some bs \<Longrightarrow> holds b p bs" and "\<And>p. p \<in> saved s \<Longrightarrow> flagged b p"
  shows "pool_rel b s"
  using assms by (simp add: pool_rel_def)

lemma pool_relD:
  assumes "pool_rel b s"
  shows "bpm_inv b" and "ps_ok s" and "capacity s = pool_size b"
    and "next_new s = next_page_id (disk_manager b)" and "\<And>p. pins b p = int (count_list (pinned s) p)"
    and "\<And>p bs. content s p = Some bs \<Longrightarrow> holds b p bs" and "\<And>p. p \<in> saved s \<Longrightarrow> flagged b p"
  using assms by (simp_all add: pool_rel_def)

lemma pinned_iff: "pool_rel b s \<Longrightarrow> p \<in> set (pinned s) \<longleftrightarrow> 0 < pins b p"
  using count_list_0_iff [of "pinned s" p] by (auto simp: pool_relD(5))

lemma pinned_resident:
  assumes "pool_rel b s" and "p \<in> set (pinned s)"
  obtains f where "page_table b p = Some f" and "0 < pins b p"
  using assms pinned_iff [of b s p] that by (auto simp: pins_def split: option.splits)

lemma card_pinned:
  assumes "pool_rel b s"
  shows "card (set (pinned s)) = card {f \<in> resident {} b. 0 < pin_count (frame b f)}"
proof -
  let ?G = "{f \<in> resident {} b. 0 < pin_count (frame b f)}"
  note inv = pool_relD(1) [OF assms]
  have "set (pinned s) = (\<lambda>f. pg_id (frame b f)) ` ?G"
  proof (intro set_eqI iffI)
    fix p assume "p \<in> set (pinned s)"
    from pinned_resident [OF assms this] obtain f where f: "page_table b p = Some f" "0 < pins b p" .
    then show "p \<in> (\<lambda>f. pg_id (frame b f)) ` ?G"
      using pool_facts(7,8) [OF inv f(1)] by (auto simp: pins_def)
  next
    fix p assume "p \<in> (\<lambda>f. pg_id (frame b f)) ` ?G"
    then show "p \<in> set (pinned s)"
      using pinned_iff [OF assms] pool_ok_resident(7) [OF inv] by (auto simp: pins_def)
  qed
  moreover have "inj_on (\<lambda>f. pg_id (frame b f)) ?G"
    using pool_ok_frame_inj [OF inv] by (auto simp: inj_on_def)
  ultimately show ?thesis by (simp add: card_image)
qed

lemma full_iff:
  assumes "pool_rel b s"
  shows "ps_full s \<longleftrightarrow> all_pinned b"
proof -
  let ?G = "{f \<in> resident {} b. 0 < pin_count (frame b f)}"
  note inv = pool_relD(1) [OF assms]
  have sub: "?G \<subseteq> frames b" and fin: "finite (frames b)" and card: "card (frames b) = pool_size b"
    by (auto simp: resident_def frames_def)
  have "ps_full s \<longleftrightarrow> card (frames b) \<le> card ?G"
    unfolding ps_full_def card_pinned [OF assms] pool_relD(3) [OF assms] card ..
  also have "\<dots> \<longleftrightarrow> ?G = frames b"
    using card_seteq [OF fin sub] by auto
  also have "\<dots> \<longleftrightarrow> all_pinned b"
  proof
    assume G: "?G = frames b"
    moreover have "set (free_list b) \<subseteq> frames b" using inv by (simp add: pool_ok_def)
    moreover have "?G \<inter> set (free_list b) = {}" by (auto simp: resident_def)
    ultimately have "set (free_list b) = {}" by (simp add: Int_absorb1)
    with G show "all_pinned b" by (auto simp: all_pinned_def)
  qed (auto simp: all_pinned_def resident_def)
  finally show ?thesis .
qed

section \<open>Every call is simulated\<close>

lemma sim_new:
  assumes rel: "pool_rel b s" and clk: "clock_ok (repl b)" and step: "ps_step NewOp s = (Inr a, s')"
  shows "\<exists>b'. bpm_step NewOp b = (Inr a, b') \<and> pool_rel b' s'"
proof (cases "ps_full s")
  case True
  then show ?thesis
    using step rel NewPage_none [OF pool_relD(1) [OF rel]] full_iff [OF rel] by (simp add: ps_new_def)
next
  case False
  let ?p = "next_new s"
  note r = pool_relD [OF rel]
  have lim: "?p < 2 ^ 31 - 1" using step False by (cases "2 ^ 31 - 1 \<le> ?p") (simp_all add: ps_new_def)
  then have al: "can_allocate (disk_manager b)" using r(2,4) by (simp add: can_allocate_def ps_ok_def)
  have nf: "\<not> all_pinned b" using False full_iff [OF rel] by simp
  from NewPage_ok [OF r(1) clk nf al] r(4) obtain f b' where run: "NewPage b = (Inr (Some (?p, f)), b')"
    "bpm_inv b'" "pool_size b' = pool_size b" "next_page_id (disk_manager b') = ?p + 1"
    "pins b' = (pins b)(?p := 1)" "holds b' ?p zero_page"
    "\<And>q cs. q \<noteq> ?p \<Longrightarrow> holds b q cs \<Longrightarrow> holds b' q cs" "\<And>q. q \<noteq> ?p \<Longrightarrow> flagged b q \<Longrightarrow> flagged b' q"
    by auto
  have s': "s' = snd (ps_new zero_page s)" "a = NewId ?p"
    using step False lim by (auto simp: ps_new_def)
  have "pool_rel b' s'"
  proof (rule pool_relI)
    show "ps_ok s'" using ps_ok_new [OF r(2)] s' by simp
    show "pins b' q = int (count_list (pinned s') q)" for q
      using run(5) r(5) s'(1) False lim ps_ok_fresh [OF r(2)] by (simp add: ps_new_def)
  qed (use run r s' False lim in \<open>auto simp: ps_new_def split: if_splits\<close>)
  with run(1) s'(2) show ?thesis by auto
qed

lemma sim_fetch:
  assumes rel: "pool_rel b s" and clk: "clock_ok (repl b)" and step: "ps_step (FetchOp p) s = (Inr a, s')"
  shows "\<exists>b'. bpm_step (FetchOp p) b = (Inr a, b') \<and> pool_rel b' s'"
proof -
  note r = pool_relD [OF rel]
  obtain bs where bs: "content s p = Some bs" using step by (auto simp: ps_fetch_def split: option.splits)
  note hd = r(6) [OF bs]
  have keep: "pool_rel b' (s\<lparr>pinned := p # pinned s\<rparr>)"
    if "bpm_inv b'" "pool_size b' = pool_size b" "next_page_id (disk_manager b') = next_page_id (disk_manager b)"
      "pins b' = (pins b)(p := pins b p + 1)" "\<And>q bs. holds b q bs \<Longrightarrow> holds b' q bs"
      "\<And>q. flagged b q \<Longrightarrow> flagged b' q" for b'
    by (rule pool_relI) (use that r bs in \<open>auto simp: ps_ok_def\<close>)
  show ?thesis
  proof (cases "page_table b p")
    case (Some f)
    from FetchPage_hit [OF r(1) clk Some] obtain b' where run: "FetchPage p b = (Inr (Some f), b')"
      "bpm_inv b'" "pool_size b' = pool_size b" "disk_manager b' = disk_manager b"
      "pg_data (frame b' f) = pg_data (frame b f)" "pins b' = (pins b)(p := pins b p + 1)"
      "\<And>q bs. holds b q bs \<Longrightarrow> holds b' q bs" "\<And>q. flagged b q \<Longrightarrow> flagged b' q" by blast
    have "p \<in> set (pinned s) \<or> \<not> ps_full s"
    proof (cases "all_pinned b")
      case True
      then have "0 < pins b p"
        using Some pool_ok_resident(1) [OF r(1) pool_facts(7) [OF r(1) Some]]
        by (simp add: all_pinned_def pins_def)
      with pinned_iff [OF rel] show ?thesis by simp
    qed (use full_iff [OF rel] in simp)
    then have "s' = s\<lparr>pinned := p # pinned s\<rparr>" "a = Data bs"
      using step bs by (simp_all add: ps_fetch_def)
    moreover have "pg_data (frame b' f) = bs" using run(5) hd Some by (simp add: holds_def)
    ultimately show ?thesis using run(1) keep [OF run(2,3) _ run(6-8)] run(4) by simp
  next
    case None
    then have np: "p \<notin> set (pinned s)" using pinned_iff [OF rel] by (simp add: pins_def)
    show ?thesis
    proof (cases "all_pinned b")
      case True
      then have "s' = s" "a = Null" using step bs np full_iff [OF rel] by (simp_all add: ps_fetch_def)
      with FetchPage_none [OF r(1) True None] rel show ?thesis by simp
    next
      case False
      have od: "on_disk b p bs" using hd None by (simp add: holds_def)
      have "p < next_page_id (disk_manager b)" using r(2,4) bs by (force simp: ps_ok_def)
      from FetchPage_miss [OF r(1) clk None False od this] obtain f b' where
        run: "FetchPage p b = (Inr (Some f), b')" "bpm_inv b'" "pool_size b' = pool_size b"
        "next_page_id (disk_manager b') = next_page_id (disk_manager b)"
        "pg_data (frame b' f) = bs" "pins b' = (pins b)(p := pins b p + 1)"
        "\<And>q bs. holds b q bs \<Longrightarrow> holds b' q bs" "\<And>q. flagged b q \<Longrightarrow> flagged b' q" by blast
      have "s' = s\<lparr>pinned := p # pinned s\<rparr>" "a = Data bs"
        using step bs False full_iff [OF rel] by (simp_all add: ps_fetch_def)
      then show ?thesis using run(1,5) keep [OF run(2-4,6-8)] by simp
    qed
  qed
qed

lemma sim_write:
  assumes rel: "pool_rel b s" and step: "ps_step (WriteOp p bs) s = (Inr a, s')"
  shows "\<exists>b'. bpm_step (WriteOp p bs) b = (Inr a, b') \<and> pool_rel b' s'"
proof -
  note r = pool_relD [OF rel]
  have p: "p \<in> set (pinned s)" and len: "length bs = PAGE_SIZE"
    and s': "s' = s\<lparr>content := (content s)(p \<mapsto> bs), saved := saved s - {p}\<rparr>" "a = Done"
    using step by (auto simp: ps_write_def split: if_splits)
  from pinned_resident [OF rel p] obtain f where f: "page_table b p = Some f" "0 < pins b p" .
  note wr = write_data_ok [OF r(1) f len]
  have "ps_ok s'" using ps_ok_write [OF r(2), of p bs] p s' by (simp add: ps_write_def)
  then have "pool_rel (write_data f bs b) s'"
    by (intro pool_relI) (use wr r s' in \<open>auto split: if_splits\<close>)
  with f(1) s'(2) show ?thesis by simp
qed

lemma count_remove1: "count_list (remove1 p xs) q = count_list xs q - (if q = p then 1 else 0)"
  by (induction xs) (auto simp: count_list_0_iff)

lemma sim_unpin:
  assumes rel: "pool_rel b s" and step: "ps_step (UnpinOp p dirty) s = (Inr a, s')"
  shows "\<exists>b'. bpm_step (UnpinOp p dirty) b = (Inr a, b') \<and> pool_rel b' s'"
proof (cases "p \<in> set (pinned s)")
  case False
  then have "pins b p \<le> 0" using pinned_iff [OF rel] by simp
  from UnpinPage_false [OF pool_relD(1) [OF rel] this, of dirty] False step rel show ?thesis
    by (auto simp: ps_unpin_def)
next
  case True
  note r = pool_relD [OF rel]
  have pos: "0 < pins b p" using True pinned_iff [OF rel] by simp
  from UnpinPage_ok [OF r(1) pos, of dirty] obtain b' where run: "UnpinPage p dirty b = (True, b')"
    "bpm_inv b'" "pool_size b' = pool_size b" "disk_manager b' = disk_manager b"
    "pins b' = (pins b)(p := pins b p - 1)" "flagged b' p \<longleftrightarrow> dirty \<or> flagged b p"
    "\<And>bs. holds b p bs \<Longrightarrow> dirty \<or> flagged b p \<or> 1 < pins b p \<Longrightarrow> holds b' p bs"
    "\<And>q bs. q \<noteq> p \<Longrightarrow> holds b q bs \<Longrightarrow> holds b' q bs" "\<And>q. q \<noteq> p \<Longrightarrow> flagged b q \<Longrightarrow> flagged b' q" by blast
  have s': "s' = snd (ps_unpin p dirty s)" "a = Flag True"
    using step True by (auto simp: ps_unpin_def Let_def)
  have last: "p \<notin> set (remove1 p (pinned s)) \<longleftrightarrow> \<not> 1 < pins b p"
    using r(5) [of p] count_remove1 [of p "pinned s" p] count_list_0_iff [of "remove1 p (pinned s)" p] by auto
  have sv: "saved s' = (if dirty then insert p (saved s) else saved s)" "pinned s' = remove1 p (pinned s)"
    "capacity s' = capacity s" "next_new s' = next_new s"
    using s'(1) True by (simp_all add: ps_unpin_def Let_def)
  have "pool_rel b' s'"
  proof (rule pool_relI)
    show "ps_ok s'" using ps_ok_unpin [OF r(2)] s' by simp
    show "pins b' q = int (count_list (pinned s') q)" for q
      using run(5) r(5) [of q] r(5) [of p] pos by (auto simp: sv count_remove1)
    show "flagged b' q" if "q \<in> saved s'" for q
      using that run(6,9) r(7) by (cases "q = p") (auto simp: sv split: if_splits)
    show "holds b' q bs" if c: "content s' q = Some bs" for q bs
    proof (cases "q = p")
      case True
      have "content s p = Some bs" and "dirty \<or> p \<in> saved s \<or> 1 < pins b p"
        using c s'(1) \<open>p \<in> set (pinned s)\<close> last True by (auto simp: ps_unpin_def Let_def split: if_splits)
      with True run(7) r(6,7) show ?thesis by blast
    next
      case False
      then have "content s q = Some bs"
        using c s'(1) \<open>p \<in> set (pinned s)\<close> by (auto simp: ps_unpin_def Let_def split: if_splits)
      with False run(8) r(6) show ?thesis by blast
    qed
  qed (use run(2-4) r(3,4) sv in simp_all)
  with run(1) s'(2) show ?thesis by simp
qed

lemma sim_flush:
  assumes rel: "pool_rel b s" and step: "ps_step (FlushOp p) s = (Inr a, s')"
  shows "\<exists>b'. bpm_step (FlushOp p) b = (Inr a, b') \<and> pool_rel b' s'"
proof -
  note r = pool_relD [OF rel]
  have p: "p \<in> set (pinned s)" and s': "s' = s\<lparr>saved := insert p (saved s)\<rparr>" "a = Flag True"
    using step by (auto simp: ps_flush_def split: if_splits)
  from pinned_resident [OF rel p] obtain f where f: "page_table b p = Some f" "0 < pins b p" .
  from FlushPage_ok [OF r(1) f(1)] obtain b' where run: "FlushPage p b = (Inr True, b')" "bpm_inv b'"
    "pool_size b' = pool_size b" "next_page_id (disk_manager b') = next_page_id (disk_manager b)"
    "pins b' = pins b" "flagged b' p" "\<And>q bs. holds b q bs \<Longrightarrow> holds b' q bs"
    "\<And>q. flagged b q \<Longrightarrow> flagged b' q" by blast
  have "pool_rel b' s'"
    by (rule pool_relI) (use run r s' ps_ok_flush [OF r(2), of p] p in \<open>auto simp: ps_flush_def\<close>)
  with run(1) s'(2) show ?thesis by simp
qed

lemma sim_flush_all:
  assumes rel: "pool_rel b s" and step: "ps_step FlushAllOp s = (Inr a, s')"
  shows "\<exists>b'. bpm_step FlushAllOp b = (Inr a, b') \<and> pool_rel b' s'"
proof -
  note r = pool_relD [OF rel]
  from FlushAllPages_ok [OF r(1)] obtain b' where run: "FlushAllPages b = (Inr (), b')" "bpm_inv b'"
    "pool_size b' = pool_size b" "next_page_id (disk_manager b') = next_page_id (disk_manager b)"
    "pins b' = pins b" "\<And>q. flagged b' q" "\<And>q bs. holds b q bs \<Longrightarrow> holds b' q bs" by blast
  have s': "s' = ps_flush_all s" "a = Done" using step by auto
  have "pool_rel b' s'"
    by (rule pool_relI) (use run r s' ps_ok_flush_all [OF r(2)] in \<open>auto simp: ps_flush_all_def\<close>)
  with run(1) s'(2) show ?thesis by simp
qed

lemma sim_delete:
  assumes rel: "pool_rel b s" and step: "ps_step (DeleteOp p) s = (Inr a, s')"
  shows "\<exists>b'. bpm_step (DeleteOp p) b = (Inr a, b') \<and> pool_rel b' s'"
proof (cases "p \<in> set (pinned s)")
  case True
  with DeletePage_pinned [of b p] pinned_iff [OF rel] step rel show ?thesis
    by (auto simp: ps_delete_def)
next
  case False
  note r = pool_relD [OF rel]
  have unp: "pins b p \<le> 0" using False pinned_iff [OF rel] by simp
  have s': "s' = s\<lparr>content := (content s)(p := None)\<rparr>" "a = Flag True"
    using step False by (auto simp: ps_delete_def)
  have ok: "ps_ok s'" using ps_ok_delete [OF r(2), of p] s'(1) False by (simp add: ps_delete_def)
  show ?thesis
  proof (cases "page_table b p")
    case None
    have "pool_rel b s'" by (rule pool_relI) (use r s' ok in \<open>auto split: if_splits\<close>)
    with DeletePage_absent [OF None] s'(2) show ?thesis by simp
  next
    case (Some f)
    from DeletePage_ok [OF r(1) Some unp] obtain b' where run: "DeletePage p b = (Inr True, b')" "bpm_inv b'"
      "pool_size b' = pool_size b" "disk_manager b' = disk_manager b" "pins b' = pins b"
      "\<And>q bs. q \<noteq> p \<Longrightarrow> holds b q bs \<Longrightarrow> holds b' q bs" "\<And>q. flagged b q \<Longrightarrow> flagged b' q" by blast
    have "pool_rel b' s'"
      by (rule pool_relI) (use run r s' ok in \<open>auto split: if_splits\<close>)
    with run(1) s'(2) show ?thesis by simp
  qed
qed

lemma sim_step:
  assumes "pool_rel b s" and "clock_ok (repl b)" and "ps_step c s = (Inr a, s')"
  shows "\<exists>b'. bpm_step c b = (Inr a, b') \<and> pool_rel b' s'"
proof (cases c)
  case NewOp
  with sim_new [OF assms(1,2)] assms(3) show ?thesis by simp
next
  case (FetchOp p)
  with sim_fetch [OF assms(1,2)] assms(3) show ?thesis by simp
next
  case (WriteOp p bs)
  with sim_write [OF assms(1)] assms(3) show ?thesis by blast
next
  case (UnpinOp p d)
  with sim_unpin [OF assms(1)] assms(3) show ?thesis by blast
next
  case (FlushOp p)
  with sim_flush [OF assms(1)] assms(3) show ?thesis by blast
next
  case FlushAllOp
  with sim_flush_all [OF assms(1)] assms(3) show ?thesis by blast
next
  case (DeleteOp p)
  with sim_delete [OF assms(1)] assms(3) show ?thesis by blast
qed

section \<open>The clock\<close>

text \<open>One call advances the replacer's clock by at most one tick.\<close>

abbreviation ticks :: "BufferPoolManager \<Rightarrow> nat" where
  "ticks b \<equiv> current_timestamp (repl b)"

lemma size_inc_le: "size_inc n \<le> Suc n"
  by (simp add: size_inc_def mod_less_eq_dividend [of "n + 1", simplified])

lemma replacer_ticks:
  "current_timestamp (snd (Evict r)) = current_timestamp r"
  "current_timestamp (SetEvictable f e r) = current_timestamp r"
  "current_timestamp (snd (Remove f r)) = current_timestamp r"
  "current_timestamp (snd (RecordAccess f r)) \<le> Suc (current_timestamp r)"
  by (auto simp: Evict_def SetEvictable_def Remove_def RecordAccess_def Let_def size_inc_le
      split: sum.splits option.splits)

lemma bind_ticks:
  assumes "ticks (snd m) \<le> k" and "\<And>x b. m = (Inr x, b) \<Longrightarrow> ticks (snd (g x b)) \<le> k"
  shows "ticks (snd (bind_out m g)) \<le> k"
  using assms by (cases m; cases "fst m") (auto simp: bind_out_def)

lemma take_frame_ticks: "ticks (snd (take_frame b)) = ticks b"
  using replacer_ticks(1) [of "repl b"] by (auto simp: take_frame_def split: list.splits prod.splits)

lemma write_back_ticks: "ticks (snd (write_back f b)) = ticks b"
  by (auto simp: write_back_def Let_def bind_out_def split: prod.splits sum.splits)

lemma install_ticks: "ticks (snd (install f p bs b)) \<le> Suc (ticks b)"
  using replacer_ticks(4) [of f "repl b"]
  by (auto simp: install_def Let_def replacer_ticks(2) split: prod.splits sum.splits)

lemma load_ticks:
  assumes A: "\<And>b. ticks (snd (A b)) = ticks b"
  shows "ticks (snd (bind_out (write_back f b) (\<lambda>_ b. bind_out (A b)
    (\<lambda>x b. bind_out (install f (P x) (B x) b) (\<lambda>_ b. (Inr (R x), b)))))) \<le> Suc (ticks b)"
proof (intro bind_ticks, goal_cases)
  case 1
  then show ?case by (simp add: write_back_ticks)
next
  case (2 u b1)
  then show ?case using A [of b1] write_back_ticks [of f b] by simp
next
  case (3 u b1 x b2)
  then show ?case
    using A [of b1] write_back_ticks [of f b] install_ticks [of f "P x" "B x" b2] by simp
next
  case (4 u b1 x b2 v b3)
  then show ?case
    using A [of b1] write_back_ticks [of f b] install_ticks [of f "P x" "B x" b2] by simp
qed

lemma with_disk_ticks: "ticks (snd (case m of (res, d) \<Rightarrow> (res, b\<lparr>disk_manager := d\<rparr>))) = ticks b"
  by (simp split: prod.splits)

lemma take_then_ticks:
  assumes "\<And>f b1. ticks (snd (g f b1)) \<le> Suc (ticks b1)"
  shows "ticks (snd (bind_out (take_frame b) (\<lambda>res b. case res of None \<Rightarrow> (Inr None, b) | Some f \<Rightarrow> g f b)))
    \<le> Suc (ticks b)"
proof (rule bind_ticks)
  show "ticks (snd (take_frame b)) \<le> Suc (ticks b)" by (simp add: take_frame_ticks)
next
  fix res b1 assume "take_frame b = (Inr res, b1)"
  then have "ticks b1 = ticks b" using take_frame_ticks [of b] by simp
  then show "ticks (snd (case res of None \<Rightarrow> (Inr None, b1) | Some f \<Rightarrow> g f b1)) \<le> Suc (ticks b)"
    using assms [of _ b1] by (auto split: option.splits)
qed

lemma NewPage_ticks: "ticks (snd (NewPage b)) \<le> Suc (ticks b)"
  unfolding NewPage_def by (rule take_then_ticks, rule load_ticks, rule with_disk_ticks)

lemma FetchPage_ticks: "ticks (snd (FetchPage p b)) \<le> Suc (ticks b)"
proof (cases "page_table b p")
  case None
  show ?thesis
    unfolding FetchPage_def None option.case
    by (rule take_then_ticks, rule load_ticks [where P = "\<lambda>_. p"], rule with_disk_ticks)
next
  case (Some f)
  then show ?thesis using replacer_ticks(4) [of f "repl b"]
    by (auto simp: FetchPage_def Let_def replacer_ticks(2) split: prod.splits sum.splits)
qed

lemma flush_frames_ticks: "ticks (snd (flush_frames is b)) = ticks b"
  by (induction "is" b rule: flush_frames.induct) (auto simp: Let_def split: prod.splits sum.splits)

lemma bpm_step_ticks: "ticks (snd (bpm_step c b)) \<le> Suc (ticks b)"
proof (cases c)
  case NewOp
  then show ?thesis using NewPage_ticks [of b] by (auto simp: bind_out_def split: prod.splits sum.splits option.splits)
next
  case (FetchOp p)
  then show ?thesis using FetchPage_ticks [of p b]
    by (auto simp: bind_out_def split: prod.splits sum.splits option.splits)
next
  case (WriteOp p bs)
  then show ?thesis by (simp add: write_data_def split: option.splits)
next
  case (UnpinOp p d)
  then show ?thesis by (auto simp: UnpinPage_def Let_def replacer_ticks split: option.splits prod.splits if_splits)
next
  case (FlushOp p)
  then show ?thesis by (auto simp: FlushPage_def bind_out_def split: option.splits prod.splits sum.splits if_splits)
next
  case FlushAllOp
  then show ?thesis using flush_frames_ticks [of "[0..<pool_size b]" b]
    by (auto simp: FlushAllPages_def bind_out_def split: prod.splits sum.splits)
next
  case (DeleteOp p)
  then show ?thesis
    using replacer_ticks(3)
    by (auto simp: DeletePage_def bind_out_def Let_def split: option.splits prod.splits sum.splits if_splits)
      (metis le_SucI order_refl snd_conv)+
qed

section \<open>Runs\<close>

lemma sim_run:
  assumes "pool_rel b s" and "ticks b + length cs \<le> size_max" and "run_steps ps_step cs s = (Inr as, s')"
  shows "\<exists>b'. run_steps bpm_step cs b = (Inr as, b') \<and> pool_rel b' s'"
  using assms
proof (induction cs arbitrary: b s as)
  case Nil
  then show ?case by simp
next
  case (Cons c cs)
  from Cons.prems(3) obtain a s1 as1 where st: "ps_step c s = (Inr a, s1)"
    "run_steps ps_step cs s1 = (Inr as1, s')" "as = a # as1"
    by (auto simp: bind_out_def split: prod.splits sum.splits)
  have "clock_ok (repl b)" using Cons.prems(2) by (simp add: clock_ok_def)
  from sim_step [OF Cons.prems(1) this st(1)] obtain b1 where b1: "bpm_step c b = (Inr a, b1)" "pool_rel b1 s1" by blast
  have "ticks b1 + length cs \<le> size_max"
    using Cons.prems(2) bpm_step_ticks [of c b] b1(1) by simp
  from Cons.IH [OF b1(2) this st(2)] b1(1) st(3) show ?case by auto
qed

lemma pool_rel_init:
  assumes "1 \<le> k" and "n \<le> 2 ^ 31" and "stream_good d" and "0 \<le> next_page_id d"
  shows "pool_rel (BufferPoolManager_init n d k) (ps_init n (next_page_id d))"
  using bpm_inv_init [OF assms] assms(4)
  by (auto simp: pool_rel_def ps_init_def BufferPoolManager_init_def pins_def ps_ok_def)

section \<open>Properties\<close>

text \<open>
  C10. Refinement. Start a pool of \<open>n\<close> frames on a disk and let a client make any sequence
  of calls the page store accepts: the buffer pool accepts them too, gives the same answers
  (the same new page identifiers, the same bytes on every fetch, null exactly when the store is
  full), and ends in a state that satisfies its invariant. So no eviction, write-back or reload
  is visible to a client, and nothing a client reported dirty is lost.
\<close>

theorem buffer_pool_refines_page_store:
  assumes "1 \<le> k" and "n \<le> 2 ^ 31" and "stream_good d" and "0 \<le> next_page_id d"
    and "length cs \<le> size_max"
    and "run_steps ps_step cs (ps_init n (next_page_id d)) = (Inr as, s)"
  shows "\<exists>b. run_steps bpm_step cs (BufferPoolManager_init n d k) = (Inr as, b) \<and> bpm_inv b \<and>
    (\<forall>p. pins b p = int (count_list (pinned s) p))"
proof -
  have "ticks (BufferPoolManager_init n d k) = 0"
    by (simp add: BufferPoolManager_init_def LRUKReplacer_init_def)
  with assms(5) have "ticks (BufferPoolManager_init n d k) + length cs \<le> size_max" by simp
  from sim_run [OF pool_rel_init [OF assms(1-4)] this assms(6)] pool_relD(1,5) show ?thesis by blast
qed

text \<open>
  \<open>NewPage\<close> and \<open>FetchPage\<close> of a page that is not resident return null exactly when
  no frame is free and every frame is pinned, and then they change nothing.
\<close>

theorem null_iff_all_pinned:
  assumes "bpm_inv b" and "clock_ok (repl b)" and "can_allocate (disk_manager b)"
    and "page_table b p = None" and "on_disk b p bs" and "p < next_page_id (disk_manager b)"
  shows "(fst (NewPage b) = Inr None \<longleftrightarrow> all_pinned b) \<and>
    (fst (FetchPage p b) = Inr None \<longleftrightarrow> all_pinned b) \<and>
    (all_pinned b \<longrightarrow> snd (NewPage b) = b \<and> snd (FetchPage p b) = b)"
proof (cases "all_pinned b")
  case True
  with NewPage_none FetchPage_none assms(1,4) show ?thesis by simp
next
  case False
  from NewPage_ok [OF assms(1,2) False assms(3)] FetchPage_miss [OF assms(1,2,4) False assms(5,6)] False
  show ?thesis by auto
qed

lemma reopened:
  assumes "in_file d p"
  shows "in_file (DiskManager_open (fbytes d)) p" and "disk_page (DiskManager_open (fbytes d)) p = disk_page d p"
    and "p < next_page_id (DiskManager_open (fbytes d))"
proof -
  show "in_file (DiskManager_open (fbytes d)) p" "disk_page (DiskManager_open (fbytes d)) p = disk_page d p"
    using assms by (simp_all add: in_file_def disk_page_def DiskManager_open_def)
  have "Suc (nat p) \<le> length (fbytes d) div PAGE_SIZE"
    using assms div_le_mono [of "Suc (nat p) * PAGE_SIZE" "length (fbytes d)" PAGE_SIZE]
    by (simp add: in_file_def PAGE_SIZE_def)
  then show "p < next_page_id (DiskManager_open (fbytes d))"
    by (simp add: DiskManager_open_def)
qed

text \<open>
  C11. Durability. After \<open>FlushAllPages\<close>, a new disk manager opened on the file's bytes and a
  new, empty pool over it return, for every page the old pool held, the bytes it held.
\<close>

theorem FlushAllPages_durable:
  assumes "bpm_inv b" and "holds b p bs" and "1 \<le> n" and "n \<le> 2 ^ 31" and "1 \<le> k"
  shows "\<exists>b1 f b2. FlushAllPages b = (Inr (), b1) \<and>
    FetchPage p (BufferPoolManager_init n (DiskManager_open (fbytes (disk_manager b1))) k) = (Inr (Some f), b2) \<and>
    pg_data (frame b2 f) = bs"
proof -
  from FlushAllPages_ok [OF assms(1)] assms(2) obtain b1 where b1: "FlushAllPages b = (Inr (), b1)"
    "on_disk b1 p bs" by blast
  let ?d = "DiskManager_open (fbytes (disk_manager b1))"
  let ?b = "BufferPoolManager_init n ?d k"
  have p: "in_file (disk_manager b1) p" "disk_page (disk_manager b1) p = bs" using b1(2) by (auto simp: on_disk_def)
  have "stream_good ?d" "0 \<le> next_page_id ?d" by (simp_all add: DiskManager_open_def stream_good_def)
  then have inv: "bpm_inv ?b" using bpm_inv_init [OF assms(5,4)] by blast
  have clk: "clock_ok (repl ?b)"
    by (simp add: BufferPoolManager_init_def LRUKReplacer_init_def clock_ok_def size_max_def)
  have none: "page_table ?b p = None" by (simp add: BufferPoolManager_init_def)
  have nap: "\<not> all_pinned ?b" using assms(3) by (simp add: all_pinned_def BufferPoolManager_init_def)
  have od: "on_disk ?b p bs" "p < next_page_id (disk_manager ?b)"
    using reopened [OF p(1)] p(2) by (simp_all add: on_disk_def BufferPoolManager_init_def)
  from FetchPage_miss [OF inv clk none nap od] b1(1) show ?thesis by blast
qed

section \<open>Witnesses\<close>

text \<open>One frame, two pages: creating page 1 evicts page 0, fetching page 0 brings it back.\<close>

definition demo_calls :: "pool_op list" where
  "demo_calls = [NewOp, WriteOp 0 (replicate PAGE_SIZE 7), NewOp, UnpinOp 0 True, NewOp, UnpinOp 1 False,
     FetchOp 0]"

theorem buffer_pool_refines_page_store_witness:
  "\<exists>b. run_steps bpm_step demo_calls (BufferPoolManager_init 1 empty_disk 2) =
     (Inr [NewId 0, Done, Null, Flag True, NewId 1, Flag True, Data (replicate PAGE_SIZE 7)], b) \<and> bpm_inv b"
proof -
  have e: "next_page_id empty_disk = 0" by (simp add: empty_disk_def DiskManager_open_def)
  have "fst (run_steps ps_step demo_calls (ps_init 1 (next_page_id empty_disk))) =
      Inr [NewId 0, Done, Null, Flag True, NewId 1, Flag True, Data (replicate PAGE_SIZE 7)]"
    by (simp add: demo_calls_def e ps_init_def ps_new_def ps_write_def ps_unpin_def ps_fetch_def ps_full_def)
  then obtain s where "run_steps ps_step demo_calls (ps_init 1 (next_page_id empty_disk)) =
      (Inr [NewId 0, Done, Null, Flag True, NewId 1, Flag True, Data (replicate PAGE_SIZE 7)], s)"
    by (metis prod.collapse)
  from buffer_pool_refines_page_store [OF _ _ empty_disk_good _ _ this, of 2] e show ?thesis
    by (auto simp: demo_calls_def size_max_def)
qed

definition one_page_pool :: BufferPoolManager where
  "one_page_pool = BufferPoolManager_init 1 (DiskManager_open (replicate PAGE_SIZE 7)) 2"

lemma one_page_pool_facts:
  "bpm_inv one_page_pool" "clock_ok (repl one_page_pool)" "can_allocate (disk_manager one_page_pool)"
  "page_table one_page_pool 0 = None" "on_disk one_page_pool 0 (replicate PAGE_SIZE 7)"
  "0 < next_page_id (disk_manager one_page_pool)" "\<not> all_pinned one_page_pool"
proof -
  show "bpm_inv one_page_pool"
    unfolding one_page_pool_def by (rule bpm_inv_init) (simp_all add: DiskManager_open_def stream_good_def)
qed (simp_all add: one_page_pool_def BufferPoolManager_init_def LRUKReplacer_init_def clock_ok_def size_max_def
    can_allocate_def DiskManager_open_def on_disk_def in_file_def disk_page_def PAGE_SIZE_def all_pinned_def)

theorem null_iff_all_pinned_witness: "fst (FetchPage 0 one_page_pool) \<noteq> Inr None"
  using null_iff_all_pinned [OF one_page_pool_facts(1-6)] one_page_pool_facts(7) by blast

theorem FlushAllPages_durable_witness:
  "\<exists>b1 f b2. FlushAllPages one_page_pool = (Inr (), b1) \<and>
     FetchPage 0 (BufferPoolManager_init 1 (DiskManager_open (fbytes (disk_manager b1))) 2) = (Inr (Some f), b2) \<and>
     pg_data (frame b2 f) = replicate PAGE_SIZE 7"
proof -
  have "holds one_page_pool 0 (replicate PAGE_SIZE 7)"
    using one_page_pool_facts(4,5) by (simp add: holds_def)
  from FlushAllPages_durable [OF one_page_pool_facts(1) this, of 1 2] show ?thesis by simp
qed

end
