(* ===== verification/Page_Guard.thy ===== *)
theory Page_Guard
  imports Buffer_Pool_Refinement
begin

text \<open>
  The page guards (\<open>src/buffer/page_guard.cpp\<close>): RAII handles that release a page's latch
  and its pin exactly once. A guard holds \<open>bpm_\<close> (only whether it is null matters, there is
  one pool) and \<open>page_\<close>; the pool and the latches of the frames are the shared state. A
  latch acquisition that would block has no result (\<open>None\<close>).
\<close>

section \<open>Latches\<close>

record latch =
  readers :: nat
  writer :: bool

record GuardState =
  pool :: BufferPoolManager
  latches :: "frame_id \<Rightarrow> latch"

definition RLatch :: "frame_id \<Rightarrow> GuardState \<Rightarrow> GuardState option" where
  "RLatch f st =
     (let l = latches st f in
      if writer l then None
      else Some (st\<lparr>latches := (latches st)(f := l\<lparr>readers := readers l + 1\<rparr>)\<rparr>))"

definition RUnlatch :: "frame_id \<Rightarrow> GuardState \<Rightarrow> (unit, GuardState) outcome" where
  "RUnlatch f st =
     (let l = latches st f in
      if readers l = 0 then (Inl UndefinedBehaviour, st)
      else (Inr (), st\<lparr>latches := (latches st)(f := l\<lparr>readers := readers l - 1\<rparr>)\<rparr>))"

definition WLatch :: "frame_id \<Rightarrow> GuardState \<Rightarrow> GuardState option" where
  "WLatch f st =
     (let l = latches st f in
      if writer l \<or> 0 < readers l then None
      else Some (st\<lparr>latches := (latches st)(f := l\<lparr>writer := True\<rparr>)\<rparr>))"

definition WUnlatch :: "frame_id \<Rightarrow> GuardState \<Rightarrow> (unit, GuardState) outcome" where
  "WUnlatch f st =
     (let l = latches st f in
      if \<not> writer l then (Inl UndefinedBehaviour, st)
      else (Inr (), st\<lparr>latches := (latches st)(f := l\<lparr>writer := False\<rparr>)\<rparr>))"

section \<open>Guards\<close>

record PageGuard =
  has_bpm :: bool
  page :: "frame_id option"

record BasicPageGuard = PageGuard +
  guard_dirty :: bool

definition unpin_frame :: "frame_id \<Rightarrow> bool \<Rightarrow> GuardState \<Rightarrow> GuardState" where
  "unpin_frame f dirty st = st\<lparr>pool := snd (UnpinPage (pg_id (frame (pool st) f)) dirty (pool st))\<rparr>"

definition guard_GetPageId :: "('x) PageGuard_scheme \<Rightarrow> GuardState \<Rightarrow> page_id" where
  "guard_GetPageId g st = (case page g of None \<Rightarrow> INVALID_PAGE_ID | Some f \<Rightarrow> pg_id (frame (pool st) f))"

definition guard_GetData :: "('x) PageGuard_scheme \<Rightarrow> GuardState \<Rightarrow> byte list option" where
  "guard_GetData g st = (case page g of None \<Rightarrow> None | Some f \<Rightarrow> Some (pg_data (frame (pool st) f)))"

definition Basic_init :: "bool \<Rightarrow> frame_id option \<Rightarrow> BasicPageGuard" where
  "Basic_init bpm f = \<lparr>has_bpm = bpm, page = f, guard_dirty = False\<rparr>"

text \<open>The move constructor empties its source, but leaves its \<open>is_dirty_\<close> behind.\<close>

definition Basic_move :: "BasicPageGuard \<Rightarrow> BasicPageGuard \<times> BasicPageGuard" where
  "Basic_move that =
     (\<lparr>has_bpm = has_bpm that, page = page that, guard_dirty = guard_dirty that\<rparr>,
      that\<lparr>has_bpm := False, page := None\<rparr>)"

definition Basic_Drop :: "BasicPageGuard \<Rightarrow> GuardState \<Rightarrow> BasicPageGuard \<times> GuardState" where
  "Basic_Drop g st =
     (\<lparr>has_bpm = False, page = None, guard_dirty = False\<rparr>,
      case page g of
        Some f \<Rightarrow> if has_bpm g then unpin_frame f (guard_dirty g) st else st
      | None \<Rightarrow> st)"

text \<open>Assignment from a guard other than itself: the new guard, the emptied source, the state.\<close>

definition Basic_assign :: "BasicPageGuard \<Rightarrow> BasicPageGuard \<Rightarrow> GuardState
    \<Rightarrow> BasicPageGuard \<times> BasicPageGuard \<times> GuardState" where
  "Basic_assign this that st =
     (let (_, st1) = Basic_Drop this st; (this1, that1) = Basic_move that in (this1, that1, st1))"

definition Basic_GetDataMut :: "BasicPageGuard \<Rightarrow> BasicPageGuard \<times> frame_id option" where
  "Basic_GetDataMut g = (g\<lparr>guard_dirty := True\<rparr>, page g)"

definition Read_init :: "bool \<Rightarrow> frame_id option \<Rightarrow> GuardState \<Rightarrow> (PageGuard \<times> GuardState) option" where
  "Read_init bpm f st =
     (let g = \<lparr>has_bpm = bpm, page = f\<rparr> in
      case f of None \<Rightarrow> Some (g, st) | Some i \<Rightarrow> map_option (Pair g) (RLatch i st))"

definition Write_init :: "bool \<Rightarrow> frame_id option \<Rightarrow> GuardState \<Rightarrow> (PageGuard \<times> GuardState) option" where
  "Write_init bpm f st =
     (let g = \<lparr>has_bpm = bpm, page = f\<rparr> in
      case f of None \<Rightarrow> Some (g, st) | Some i \<Rightarrow> map_option (Pair g) (WLatch i st))"

text \<open>The pointer through which the holder of a write guard changes the page: \<open>Write_Drop\<close> reports it dirty in any case.\<close>

definition Write_GetDataMut :: "PageGuard \<Rightarrow> frame_id option" where
  "Write_GetDataMut g = page g"

text \<open>The move constructors of the read and the write guard are the same code.\<close>

definition Guard_move :: "PageGuard \<Rightarrow> PageGuard \<times> PageGuard" where
  "Guard_move that = (\<lparr>has_bpm = has_bpm that, page = page that\<rparr>, \<lparr>has_bpm = False, page = None\<rparr>)"

definition Read_Drop :: "PageGuard \<Rightarrow> GuardState \<Rightarrow> (PageGuard, GuardState) outcome" where
  "Read_Drop g st =
     bind_out
       (case page g of
          Some f \<Rightarrow> if has_bpm g then bind_out (RUnlatch f st) (\<lambda>_ st. (Inr (), unpin_frame f False st))
                    else (Inr (), st)
        | None \<Rightarrow> (Inr (), st))
       (\<lambda>_ st. (Inr \<lparr>has_bpm = False, page = None\<rparr>, st))"

definition Write_Drop :: "PageGuard \<Rightarrow> GuardState \<Rightarrow> (PageGuard, GuardState) outcome" where
  "Write_Drop g st =
     bind_out
       (case page g of
          Some f \<Rightarrow> if has_bpm g then bind_out (WUnlatch f st) (\<lambda>_ st. (Inr (), unpin_frame f True st))
                    else (Inr (), st)
        | None \<Rightarrow> (Inr (), st))
       (\<lambda>_ st. (Inr \<lparr>has_bpm = False, page = None\<rparr>, st))"

definition Read_assign :: "PageGuard \<Rightarrow> PageGuard \<Rightarrow> GuardState \<Rightarrow> (PageGuard \<times> PageGuard, GuardState) outcome" where
  "Read_assign this that st = bind_out (Read_Drop this st) (\<lambda>_ st. (Inr (Guard_move that), st))"

definition Write_assign :: "PageGuard \<Rightarrow> PageGuard \<Rightarrow> GuardState \<Rightarrow> (PageGuard \<times> PageGuard, GuardState) outcome" where
  "Write_assign this that st = bind_out (Write_Drop this st) (\<lambda>_ st. (Inr (Guard_move that), st))"

section \<open>Releasing exactly once\<close>

lemma unpin_frame_ok:
  assumes "bpm_inv (pool st)" and "page_table (pool st) p = Some f" and "0 < pins (pool st) p"
  shows "unpin_frame f dirty st = st\<lparr>pool := snd (UnpinPage p dirty (pool st))\<rparr>"
    and "bpm_inv (pool (unpin_frame f dirty st))"
    and "pins (pool (unpin_frame f dirty st)) = (pins (pool st))(p := pins (pool st) p - 1)"
    and "latches (unpin_frame f dirty st) = latches st"
    and "holds (pool st) p bs \<Longrightarrow> dirty \<Longrightarrow> holds (pool (unpin_frame f dirty st)) p bs"
    and "q \<noteq> p \<Longrightarrow> holds (pool st) q bs \<Longrightarrow> holds (pool (unpin_frame f dirty st)) q bs"
proof -
  have "pg_id (frame (pool st) f) = p" using pool_facts(8) [OF assms(1,2)] .
  then show eq: "unpin_frame f dirty st = st\<lparr>pool := snd (UnpinPage p dirty (pool st))\<rparr>"
    by (simp add: unpin_frame_def)
  from UnpinPage_ok [OF assms(1,3), of dirty] obtain b' where run: "UnpinPage p dirty (pool st) = (True, b')"
    "bpm_inv b'" "pins b' = (pins (pool st))(p := pins (pool st) p - 1)"
    "\<And>bs. holds (pool st) p bs \<Longrightarrow> dirty \<or> flagged (pool st) p \<or> 1 < pins (pool st) p \<Longrightarrow> holds b' p bs"
    "\<And>q bs. q \<noteq> p \<Longrightarrow> holds (pool st) q bs \<Longrightarrow> holds b' q bs" by blast
  show "bpm_inv (pool (unpin_frame f dirty st))"
    "pins (pool (unpin_frame f dirty st)) = (pins (pool st))(p := pins (pool st) p - 1)"
    "latches (unpin_frame f dirty st) = latches st"
    "holds (pool st) p bs \<Longrightarrow> dirty \<Longrightarrow> holds (pool (unpin_frame f dirty st)) p bs"
    "q \<noteq> p \<Longrightarrow> holds (pool st) q bs \<Longrightarrow> holds (pool (unpin_frame f dirty st)) q bs"
    unfolding eq using run by simp_all
qed

lemma drop_empty:
  "page g = None \<or> \<not> has_bpm g \<Longrightarrow> snd (Basic_Drop g st) = st"
  "page h = None \<or> \<not> has_bpm h \<Longrightarrow> Read_Drop h st = (Inr \<lparr>has_bpm = False, page = None\<rparr>, st)"
  "page h = None \<or> \<not> has_bpm h \<Longrightarrow> Write_Drop h st = (Inr \<lparr>has_bpm = False, page = None\<rparr>, st)"
  by (auto simp: Basic_Drop_def Read_Drop_def Write_Drop_def split: option.splits)

section \<open>Properties\<close>

text \<open>
  Ownership moves with the guard. After a move, destroying the source and the destination,
  in either order and the destination any number of further times, has exactly the effect of one
  \<open>Drop\<close> of the original guard, for the basic, the read and the write guard.
\<close>

theorem guard_moves_release_once:
  "snd (Basic_Drop (fst (Basic_move g)) (snd (Basic_Drop (snd (Basic_move g)) st))) = snd (Basic_Drop g st) \<and>
   snd (Basic_Drop (snd (Basic_move g)) (snd (Basic_Drop (fst (Basic_move g)) st))) = snd (Basic_Drop g st) \<and>
   (case Basic_Drop g st of (g1, st1) \<Rightarrow> Basic_Drop g1 st1 = (g1, st1)) \<and>
   bind_out (Read_Drop (snd (Guard_move h)) st) (\<lambda>_. Read_Drop (fst (Guard_move h))) = Read_Drop h st \<and>
   bind_out (Read_Drop (fst (Guard_move h)) st) (\<lambda>_. Read_Drop (snd (Guard_move h))) = Read_Drop h st \<and>
   bind_out (Read_Drop h st) Read_Drop = Read_Drop h st \<and>
   bind_out (Write_Drop (snd (Guard_move h)) st) (\<lambda>_. Write_Drop (fst (Guard_move h))) = Write_Drop h st \<and>
   bind_out (Write_Drop (fst (Guard_move h)) st) (\<lambda>_. Write_Drop (snd (Guard_move h))) = Write_Drop h st \<and>
   bind_out (Write_Drop h st) Write_Drop = Write_Drop h st"
proof -
  have h: "\<lparr>has_bpm = has_bpm h, page = page h\<rparr> = h" by simp
  show ?thesis
    unfolding Basic_move_def Guard_move_def fst_conv snd_conv h
    by (auto simp: Basic_Drop_def Read_Drop_def Write_Drop_def bind_out_def split: option.splits prod.splits sum.splits)
qed

text \<open>
  C22. A write guard is a transaction on one page: on a pinned page whose latch is free, taking
  the guard, storing new bytes through it and dropping it gives back the latch and one pin and
  leaves the page with the new bytes reported dirty, so that they survive every later eviction;
  no other page changes. While the guard lives, neither a read nor a second write guard on the
  same page gets past its constructor.
\<close>

theorem write_guard_stores:
  assumes "bpm_inv (pool st)" and "page_table (pool st) p = Some f" and "0 < pins (pool st) p"
    and "latches st f = \<lparr>readers = 0, writer = False\<rparr>" and "length bs = PAGE_SIZE"
  shows "\<exists>g st1 st2. Write_init True (Some f) st = Some (g, st1) \<and>
    Write_init True (Some f) st1 = None \<and> Read_init True (Some f) st1 = None \<and>
    Write_Drop g (st1\<lparr>pool := write_data f bs (pool st1)\<rparr>) = (Inr \<lparr>has_bpm = False, page = None\<rparr>, st2) \<and>
    bpm_inv (pool st2) \<and> latches st2 = latches st \<and>
    pins (pool st2) = (pins (pool st))(p := pins (pool st) p - 1) \<and> holds (pool st2) p bs \<and>
    (\<forall>q cs. q \<noteq> p \<longrightarrow> holds (pool st) q cs \<longrightarrow> holds (pool st2) q cs)"
proof -
  define st1 where "st1 = st\<lparr>latches := (latches st)(f := \<lparr>readers = 0, writer = True\<rparr>)\<rparr>"
  define g where "g = \<lparr>has_bpm = True, page = Some f\<rparr>"
  define st1' where "st1' = st\<lparr>pool := write_data f bs (pool st)\<rparr>"
  have ini: "Write_init True (Some f) st = Some (g, st1)"
    using assms(4) by (simp add: Write_init_def WLatch_def g_def st1_def Let_def)
  have blocked: "Write_init True (Some f) st1 = None" "Read_init True (Some f) st1 = None"
    by (simp_all add: Write_init_def Read_init_def WLatch_def RLatch_def st1_def Let_def)
  note wr = write_data_ok [OF assms(1,2,3,5)]
  have "(latches st)(f := \<lparr>readers = 0, writer = False\<rparr>) = latches st" using assms(4) by auto
  then have drop: "Write_Drop g (st1\<lparr>pool := write_data f bs (pool st1)\<rparr>) =
      (Inr \<lparr>has_bpm = False, page = None\<rparr>, unpin_frame f True st1')"
    by (simp add: Write_Drop_def g_def WUnlatch_def st1_def st1'_def Let_def)
  have st1': "bpm_inv (pool st1')" "page_table (pool st1') p = Some f" "0 < pins (pool st1') p"
    using wr(1,2,4) assms(2,3) by (simp_all add: st1'_def)
  note un = unpin_frame_ok [OF st1', where dirty = True]
  have "holds (pool st1') p bs" using wr(3) by (simp add: st1'_def)
  moreover have "holds (pool st1') q cs" if "q \<noteq> p" "holds (pool st) q cs" for q cs
    using wr(8) that by (simp add: st1'_def)
  moreover have "pins (pool st1') = pins (pool st)" "latches st1' = latches st"
    using wr(2) by (simp_all add: st1'_def)
  ultimately show ?thesis using ini blocked drop un by auto
qed

text \<open>
  Assigning to a guard releases the page it held and takes over the other guard's page:
  the pin count of the old page drops by one, that of the page taken over is unchanged, and the
  source is left empty.
\<close>

theorem basic_assign_releases:
  assumes "bpm_inv (pool st)" and "page_table (pool st) p = Some f" and "0 < pins (pool st) p"
    and "this = \<lparr>has_bpm = True, page = Some f, guard_dirty = d\<rparr>"
    and "that = \<lparr>has_bpm = True, page = Some f', guard_dirty = d'\<rparr>"
  shows "\<exists>that' st'. Basic_assign this that st = (that, that', st') \<and> bpm_inv (pool st') \<and>
    page that' = None \<and> \<not> has_bpm that' \<and> pins (pool st') = (pins (pool st))(p := pins (pool st) p - 1)"
  using unpin_frame_ok [OF assms(1-3), where dirty = d] assms(4,5)
  by (simp add: Basic_assign_def Basic_move_def Basic_Drop_def)

section \<open>Witnesses\<close>

text \<open>A pool of one frame holding page 0, pinned twice, with its latch free.\<close>

definition demo_state :: GuardState where
  "demo_state =
     \<lparr>pool = snd (run_steps bpm_step [NewOp, FetchOp 0] (BufferPoolManager_init 1 empty_disk 2)),
      latches = (\<lambda>_. \<lparr>readers = 0, writer = False\<rparr>)\<rparr>"

lemma demo_state_ok:
  "bpm_inv (pool demo_state)" "page_table (pool demo_state) 0 = Some 0" "0 < pins (pool demo_state) 0"
proof -
  have rel: "pool_rel (BufferPoolManager_init 1 empty_disk 2) (ps_init 1 0)"
    using pool_rel_init [OF _ _ empty_disk_good, of 2 1] by (simp add: empty_disk_def DiskManager_open_def)
  have st: "\<exists>s. run_steps ps_step [NewOp, FetchOp 0] (ps_init 1 0) = (Inr [NewId 0, Data zero_page], s) \<and>
      count_list (pinned s) 0 = 2 \<and> capacity s = 1"
    by (simp add: ps_init_def ps_new_def ps_fetch_def ps_full_def)
  have tk: "ticks (BufferPoolManager_init 1 empty_disk 2) + length [NewOp, FetchOp 0] \<le> size_max"
    by (simp add: BufferPoolManager_init_def LRUKReplacer_init_def size_max_def)
  from st sim_run [OF rel tk] obtain b s where b: "pool demo_state = b" "pool_rel b s" "count_list (pinned s) 0 = 2"
    "capacity s = 1"
    by (fastforce simp: demo_state_def simp del: run_steps.simps)
  from pool_relD [OF b(2)] b show "bpm_inv (pool demo_state)" and p: "0 < pins (pool demo_state) 0" by simp_all
  then obtain f where f: "page_table b 0 = Some f" using b(1) by (auto simp: pins_def split: option.splits)
  have "pool_size b = 1" using pool_relD(3) [OF b(2)] b(4) by simp
  with f pool_facts(7) [OF pool_relD(1) [OF b(2)] f] have "f = 0" by (auto simp: resident_def frames_def)
  with f b(1) show "page_table (pool demo_state) 0 = Some 0" by simp
qed

theorem write_guard_stores_witness:
  "\<exists>g st1 st2. Write_init True (Some 0) demo_state = Some (g, st1) \<and>
     Write_Drop g (st1\<lparr>pool := write_data 0 (replicate PAGE_SIZE 7) (pool st1)\<rparr>) =
       (Inr \<lparr>has_bpm = False, page = None\<rparr>, st2) \<and> holds (pool st2) 0 (replicate PAGE_SIZE 7)"
proof -
  have "latches demo_state 0 = \<lparr>readers = 0, writer = False\<rparr>" "length (replicate PAGE_SIZE (7 :: byte)) = PAGE_SIZE"
    by (simp_all add: demo_state_def)
  from write_guard_stores [OF demo_state_ok this] show ?thesis by blast
qed

theorem basic_assign_releases_witness:
  "\<exists>that' st'. Basic_assign (Basic_init True (Some 0)) (Basic_init True (Some 0)) demo_state =
     (Basic_init True (Some 0), that', st') \<and> page that' = None"
  using basic_assign_releases [OF demo_state_ok, of "Basic_init True (Some 0)" False "Basic_init True (Some 0)" 0 False]
  by (auto simp: Basic_init_def)

end
