(* ===== verification/Lock_Manager.thy ===== *)
theory Lock_Manager
  imports Prelude
begin

text \<open>
  The lock manager (\<open>src/concurrency/lock_manager.cpp\<close>) as a state machine. Every call
  runs under \<open>latch_\<close>, which \<open>cv_.wait\<close> gives up while it waits: a call is an entry step,
  up to the wait, and a resumption, the code behind the wait. \<open>waiting\<close> lists the calls
  that sit in a wait, with the list node (\<open>req_it\<close>) each has taken; a call resumes when its
  predicate holds (a notification or a spurious wake-up). A transaction is one thread: it makes
  no call while one of its calls waits. \<open>SetState(ABORTED)\<close> may come from any thread.
\<close>

section \<open>State\<close>

datatype LockMode = SHARED | EXCLUSIVE

datatype TransactionState = GROWING | SHRINKING | COMMITTED | ABORTED

datatype IsolationLevel = READ_UNCOMMITTED | READ_COMMITTED | REPEATABLE_READ

record Transaction =
  isolation_level :: IsolationLevel
  txn_state :: TransactionState
  shared_lock_set :: "RID set"
  exclusive_lock_set :: "RID set"

record LockRequest =
  req_node :: nat
  req_txn :: txn_id
  lock_mode :: LockMode
  granted :: bool

record LockRequestQueue =
  request_queue :: "LockRequest list"
  upgrading :: bool

datatype call = CShared | CExclusive | CUpgrade

record LockManager =
  lock_table :: "RID \<rightharpoonup> LockRequestQueue"
  txn :: "txn_id \<Rightarrow> Transaction"
  waiting :: "(txn_id \<times> call \<times> RID \<times> nat) list"
  next_node :: nat

definition Transaction_init :: "IsolationLevel \<Rightarrow> Transaction" where
  "Transaction_init level = \<lparr>isolation_level = level, txn_state = GROWING, shared_lock_set = {}, exclusive_lock_set = {}\<rparr>"

definition LockManager_init :: LockManager where
  "LockManager_init = \<lparr>lock_table = Map.empty, txn = (\<lambda>_. Transaction_init REPEATABLE_READ), waiting = [], next_node = 0\<rparr>"

text \<open>\<open>lock_table_[rid]\<close> makes an empty queue when there is none.\<close>

definition queue :: "LockManager \<Rightarrow> RID \<Rightarrow> LockRequestQueue" where
  "queue s rid = (case lock_table s rid of None \<Rightarrow> \<lparr>request_queue = [], upgrading = False\<rparr> | Some q \<Rightarrow> q)"

definition set_queue :: "RID \<Rightarrow> LockRequestQueue \<Rightarrow> LockManager \<Rightarrow> LockManager" where
  "set_queue rid q s = s\<lparr>lock_table := (lock_table s)(rid \<mapsto> q)\<rparr>"

definition set_txn :: "txn_id \<Rightarrow> Transaction \<Rightarrow> LockManager \<Rightarrow> LockManager" where
  "set_txn t x s = s\<lparr>txn := (txn s)(t := x)\<rparr>"

definition SetState :: "txn_id \<Rightarrow> TransactionState \<Rightarrow> LockManager \<Rightarrow> LockManager" where
  "SetState t st s = set_txn t ((txn s t)\<lparr>txn_state := st\<rparr>) s"

section \<open>The calls\<close>

text \<open>The wait predicates of the three lock calls.\<close>

definition may_proceed :: "call \<Rightarrow> txn_id \<Rightarrow> RID \<Rightarrow> LockManager \<Rightarrow> bool" where
  "may_proceed c t rid s \<longleftrightarrow>
     txn_state (txn s t) = ABORTED \<or>
     (\<forall>req \<in> set (request_queue (queue s rid)).
        \<not> (req_txn req \<noteq> t \<and> granted req \<and> (c = CShared \<longrightarrow> lock_mode req = EXCLUSIVE)))"

definition erase_node :: "nat \<Rightarrow> LockRequest list \<Rightarrow> LockRequest list" where
  "erase_node i reqs = filter (\<lambda>r. req_node r \<noteq> i) reqs"

definition update_node :: "nat \<Rightarrow> (LockRequest \<Rightarrow> LockRequest) \<Rightarrow> LockRequest list \<Rightarrow> LockRequest list" where
  "update_node i g reqs = map (\<lambda>r. if req_node r = i then g r else r) reqs"

text \<open>The code behind the wait. Using a node that is no longer in the list is undefined.\<close>

definition resume :: "txn_id \<Rightarrow> call \<Rightarrow> RID \<Rightarrow> nat \<Rightarrow> LockManager \<Rightarrow> (bool, LockManager) outcome" where
  "resume t c rid i s0 =
     (let s = s0\<lparr>waiting := filter (\<lambda>w. w \<noteq> (t, c, rid, i)) (waiting s0)\<rparr>;
          q0 = queue s rid;
          q = (if c = CUpgrade then q0\<lparr>upgrading := False\<rparr> else q0);
          x = txn s t
      in if i \<notin> req_node ` set (request_queue q) then (Inl UndefinedBehaviour, s)
         else if txn_state x = ABORTED then
           (Inr False,
            set_txn t (if c = CUpgrade then x\<lparr>shared_lock_set := shared_lock_set x - {rid}\<rparr> else x)
              (set_queue rid (q\<lparr>request_queue := erase_node i (request_queue q)\<rparr>) s))
         else
           (Inr True,
            set_txn t
              (case c of
                 CShared \<Rightarrow> x\<lparr>shared_lock_set := insert rid (shared_lock_set x)\<rparr>
               | CExclusive \<Rightarrow> x\<lparr>exclusive_lock_set := insert rid (exclusive_lock_set x)\<rparr>
               | CUpgrade \<Rightarrow> x\<lparr>shared_lock_set := shared_lock_set x - {rid},
                                exclusive_lock_set := insert rid (exclusive_lock_set x)\<rparr>)
              (set_queue rid (q\<lparr>request_queue := update_node i (\<lambda>r. r\<lparr>granted := True\<rparr>) (request_queue q)\<rparr>) s)))"

text \<open>
  \<open>wait\<close> evaluates the predicate before it blocks. A call returns its answer (\<open>Some\<close>), or
  blocks (\<open>None\<close>) and stays in \<open>waiting\<close>.
\<close>

definition cv_wait :: "txn_id \<Rightarrow> call \<Rightarrow> RID \<Rightarrow> nat \<Rightarrow> LockManager \<Rightarrow> (bool option, LockManager) outcome" where
  "cv_wait t c rid i s =
     (let s1 = s\<lparr>waiting := (t, c, rid, i) # waiting s\<rparr> in
      if may_proceed c t rid s1 then bind_out (resume t c rid i s1) (\<lambda>b s. (Inr (Some b), s))
      else (Inr None, s1))"

definition enqueue :: "txn_id \<Rightarrow> LockMode \<Rightarrow> RID \<Rightarrow> LockManager \<Rightarrow> LockManager" where
  "enqueue t mode rid s =
     (let q = queue s rid;
          r = \<lparr>req_node = next_node s, req_txn = t, lock_mode = mode, granted = False\<rparr>
      in (set_queue rid (q\<lparr>request_queue := request_queue q @ [r]\<rparr>) s)\<lparr>next_node := next_node s + 1\<rparr>)"

definition LockShared :: "txn_id \<Rightarrow> RID \<Rightarrow> LockManager \<Rightarrow> (bool option, LockManager) outcome" where
  "LockShared t rid s =
     (let x = txn s t in
      if txn_state x = SHRINKING then (Inr (Some False), SetState t ABORTED s)
      else if txn_state x = ABORTED then (Inr (Some False), s)
      else if rid \<in> shared_lock_set x \<or> rid \<in> exclusive_lock_set x then (Inr (Some True), s)
      else cv_wait t CShared rid (next_node s) (enqueue t SHARED rid s))"

definition LockExclusive :: "txn_id \<Rightarrow> RID \<Rightarrow> LockManager \<Rightarrow> (bool option, LockManager) outcome" where
  "LockExclusive t rid s =
     (let x = txn s t in
      if txn_state x = SHRINKING then (Inr (Some False), SetState t ABORTED s)
      else if txn_state x = ABORTED then (Inr (Some False), s)
      else if rid \<in> exclusive_lock_set x then (Inr (Some True), s)
      else cv_wait t CExclusive rid (next_node s) (enqueue t EXCLUSIVE rid s))"

definition LockUpgrade :: "txn_id \<Rightarrow> RID \<Rightarrow> LockManager \<Rightarrow> (bool option, LockManager) outcome" where
  "LockUpgrade t rid s =
     (let x = txn s t in
      if txn_state x = SHRINKING then (Inr (Some False), SetState t ABORTED s)
      else if txn_state x = ABORTED then (Inr (Some False), s)
      else if rid \<in> exclusive_lock_set x then (Inr (Some True), s)
      else if rid \<notin> shared_lock_set x then (Inr (Some False), s)
      else
        let q = queue s rid in
        if upgrading q then (Inr (Some False), SetState t ABORTED (set_queue rid q s))
        else
          (case find (\<lambda>r. req_txn r = t) (request_queue q) of
             None \<Rightarrow> (Inr (Some False), set_queue rid (q\<lparr>upgrading := False\<rparr>) s)
           | Some r \<Rightarrow>
               cv_wait t CUpgrade rid (req_node r)
                 (set_queue rid
                    \<lparr>request_queue = update_node (req_node r)
                       (\<lambda>r. r\<lparr>lock_mode := EXCLUSIVE, granted := False\<rparr>) (request_queue q),
                     upgrading = True\<rparr> s)))"

definition Unlock :: "txn_id \<Rightarrow> RID \<Rightarrow> LockManager \<Rightarrow> bool \<times> LockManager" where
  "Unlock t rid s =
     (case lock_table s rid of
        None \<Rightarrow> (False, s)
      | Some q \<Rightarrow>
          (case find (\<lambda>r. req_txn r = t) (request_queue q) of
             None \<Rightarrow> (False, s)
           | Some r \<Rightarrow>
               let q1 = (if upgrading q \<and> lock_mode r = EXCLUSIVE \<and> \<not> granted r
                         then q\<lparr>upgrading := False\<rparr> else q);
                   s1 = set_queue rid (q1\<lparr>request_queue := erase_node (req_node r) (request_queue q1)\<rparr>) s;
                   x = txn s1 t;
                   x1 = (if txn_state x = GROWING then x\<lparr>txn_state := SHRINKING\<rparr> else x)
               in (True, set_txn t (x1\<lparr>shared_lock_set := shared_lock_set x1 - {rid},
                                       exclusive_lock_set := exclusive_lock_set x1 - {rid}\<rparr>) s1)))"

section \<open>Steps\<close>

definition busy :: "LockManager \<Rightarrow> txn_id \<Rightarrow> bool" where
  "busy s t \<longleftrightarrow> t \<in> fst ` set (waiting s)"

inductive lm_step :: "LockManager \<Rightarrow> LockManager \<Rightarrow> bool" where
  lock_shared: "\<not> busy s t \<Longrightarrow> LockShared t rid s = (r, s') \<Longrightarrow> lm_step s s'"
| lock_exclusive: "\<not> busy s t \<Longrightarrow> LockExclusive t rid s = (r, s') \<Longrightarrow> lm_step s s'"
| lock_upgrade: "\<not> busy s t \<Longrightarrow> LockUpgrade t rid s = (r, s') \<Longrightarrow> lm_step s s'"
| unlock: "\<not> busy s t \<Longrightarrow> Unlock t rid s = (b, s') \<Longrightarrow> lm_step s s'"
| wake: "(t, c, rid, i) \<in> set (waiting s) \<Longrightarrow> may_proceed c t rid s \<Longrightarrow>
    resume t c rid i s = (r, s') \<Longrightarrow> lm_step s s'"
| abort: "lm_step s (SetState t ABORTED s)"
| commit: "\<not> busy s t \<Longrightarrow> lm_step s (SetState t COMMITTED s)"

definition lm_reachable :: "LockManager \<Rightarrow> bool" where
  "lm_reachable s \<longleftrightarrow> lm_step\<^sup>*\<^sup>* LockManager_init s"

section \<open>The invariant\<close>

abbreviation reqs :: "LockManager \<Rightarrow> RID \<Rightarrow> LockRequest set" where
  "reqs s rid \<equiv> set (request_queue (queue s rid))"

fun call_mode :: "call \<Rightarrow> LockMode" where
  "call_mode CShared = SHARED"
| "call_mode CExclusive = EXCLUSIVE"
| "call_mode CUpgrade = EXCLUSIVE"

definition queue_ok :: "LockManager \<Rightarrow> RID \<Rightarrow> bool" where
  "queue_ok s rid \<longleftrightarrow>
     distinct (map req_node (request_queue (queue s rid))) \<and> (\<forall>r \<in> reqs s rid. req_node r < next_node s) \<and>
     (\<forall>r1 \<in> reqs s rid. \<forall>r2 \<in> reqs s rid.
        granted r1 \<and> granted r2 \<and> req_txn r1 \<noteq> req_txn r2 \<longrightarrow> lock_mode r1 = SHARED)"

definition held_ok :: "LockManager \<Rightarrow> txn_id \<Rightarrow> RID \<Rightarrow> bool" where
  "held_ok s t rid \<longleftrightarrow>
     (rid \<in> exclusive_lock_set (txn s t) \<longrightarrow>
        (\<exists>r \<in> reqs s rid. req_txn r = t \<and> granted r \<and> lock_mode r = EXCLUSIVE)) \<and>
     (rid \<in> shared_lock_set (txn s t) \<longrightarrow>
        (\<exists>r \<in> reqs s rid. req_txn r = t \<and> granted r) \<or> (\<exists>i. (t, CUpgrade, rid, i) \<in> set (waiting s)))"

definition wait_ok :: "LockManager \<Rightarrow> txn_id \<Rightarrow> call \<Rightarrow> RID \<Rightarrow> nat \<Rightarrow> bool" where
  "wait_ok s t c rid i \<longleftrightarrow>
     (\<exists>r \<in> reqs s rid. req_node r = i \<and> req_txn r = t \<and> \<not> granted r \<and> lock_mode r = call_mode c) \<and>
     rid \<notin> exclusive_lock_set (txn s t) \<and> txn_state (txn s t) \<noteq> SHRINKING \<and>
     (c = CShared \<longrightarrow> rid \<notin> shared_lock_set (txn s t)) \<and>
     (c = CUpgrade \<longrightarrow> upgrading (queue s rid) \<and> rid \<in> shared_lock_set (txn s t))"

definition upgrade_ok :: "LockManager \<Rightarrow> RID \<Rightarrow> bool" where
  "upgrade_ok s rid \<longleftrightarrow>
     (upgrading (queue s rid) \<longrightarrow> (\<exists>t i. (t, CUpgrade, rid, i) \<in> set (waiting s))) \<and>
     (\<forall>t i t' i'. (t, CUpgrade, rid, i) \<in> set (waiting s) \<longrightarrow> (t', CUpgrade, rid, i') \<in> set (waiting s) \<longrightarrow> t = t')"

definition pending_ok :: "LockManager \<Rightarrow> RID \<Rightarrow> bool" where
  "pending_ok s rid \<longleftrightarrow>
     (\<forall>r \<in> reqs s rid. \<not> granted r \<longrightarrow> (\<exists>c. (req_txn r, c, rid, req_node r) \<in> set (waiting s)))"

definition lm_inv :: "LockManager \<Rightarrow> bool" where
  "lm_inv s \<longleftrightarrow> distinct (map fst (waiting s)) \<and> (\<forall>rid. queue_ok s rid \<and> upgrade_ok s rid \<and> pending_ok s rid) \<and>
     (\<forall>t rid. held_ok s t rid) \<and> (\<forall>(t, c, rid, i) \<in> set (waiting s). wait_ok s t c rid i)"

lemma lm_invI:
  assumes "distinct (map fst (waiting s))" and "\<And>rid. queue_ok s rid" and "\<And>rid. upgrade_ok s rid"
    and "\<And>t rid. held_ok s t rid" and "\<And>t c rid i. (t, c, rid, i) \<in> set (waiting s) \<Longrightarrow> wait_ok s t c rid i"
    and "\<And>rid. pending_ok s rid"
  shows "lm_inv s"
  using assms by (auto simp: lm_inv_def)

lemma lm_invD:
  assumes "lm_inv s"
  shows "distinct (map fst (waiting s))" and "queue_ok s rid" and "upgrade_ok s rid" and "held_ok s t rid"
    and "(t, c, rid, i) \<in> set (waiting s) \<Longrightarrow> wait_ok s t c rid i" and "pending_ok s rid"
  using assms by (auto simp: lm_inv_def)

lemma state_simps [simp]:
  "queue (set_queue rid q s) rid' = (if rid' = rid then q else queue s rid')"
  "queue (set_txn t x s) = queue s" "queue (s\<lparr>waiting := w\<rparr>) = queue s" "queue (s\<lparr>next_node := n\<rparr>) = queue s"
  "txn (set_queue rid q s) = txn s" "txn (set_txn t x s) = (txn s)(t := x)"
  "waiting (set_queue rid q s) = waiting s" "waiting (set_txn t x s) = waiting s"
  "next_node (set_queue rid q s) = next_node s" "next_node (set_txn t x s) = next_node s"
  by (auto simp: queue_def set_queue_def set_txn_def fun_eq_iff)

lemma set_erase_node: "set (erase_node i rs) = {r \<in> set rs. req_node r \<noteq> i}"
  by (simp add: erase_node_def)

lemma set_update_node: "set (update_node i g rs) = (\<lambda>r. if req_node r = i then g r else r) ` set rs"
  by (simp add: update_node_def)

lemma map_update_node: "(\<And>r. req_node (g r) = req_node r) \<Longrightarrow> map req_node (update_node i g rs) = map req_node rs"
  by (auto simp: update_node_def)

lemma distinct_erase_node: "distinct (map req_node rs) \<Longrightarrow> distinct (map req_node (erase_node i rs))"
  by (simp add: erase_node_def distinct_map_filter)

lemma node_unique:
  "queue_ok s rid \<Longrightarrow> r1 \<in> reqs s rid \<Longrightarrow> r2 \<in> reqs s rid \<Longrightarrow> req_node r1 = req_node r2 \<Longrightarrow> r1 = r2"
  by (auto simp: queue_ok_def distinct_map inj_on_def)

lemma waiting_unique:
  "lm_inv s \<Longrightarrow> (t, c, rid, i) \<in> set (waiting s) \<Longrightarrow> (t, c', rid', i') \<in> set (waiting s) \<Longrightarrow>
   c = c' \<and> rid = rid' \<and> i = i'"
  using eq_key_imp_eq_value [OF lm_invD(1), of s t "(c, rid, i)" "(c', rid', i')"] by auto

lemma lm_inv_init: "lm_inv LockManager_init"
  by (simp add: lm_inv_def LockManager_init_def queue_ok_def upgrade_ok_def held_ok_def pending_ok_def
      queue_def Transaction_init_def)

lemma SetState_inv:
  assumes "lm_inv s" and "st = SHRINKING \<Longrightarrow> \<not> busy s t"
  shows "lm_inv (SetState t st s)"
proof (rule lm_invI)
  note inv = lm_invD [OF assms(1)]
  have x: "queue (SetState t st s) = queue s" "waiting (SetState t st s) = waiting s"
    "next_node (SetState t st s) = next_node s"
    "shared_lock_set (txn (SetState t st s) t') = shared_lock_set (txn s t')"
    "exclusive_lock_set (txn (SetState t st s) t') = exclusive_lock_set (txn s t')"
    "txn_state (txn (SetState t st s) t') = (if t' = t then st else txn_state (txn s t'))" for t'
    by (simp_all add: SetState_def)
  show "distinct (map fst (waiting (SetState t st s)))" using inv(1) by (simp add: x)
  show "queue_ok (SetState t st s) rid" "upgrade_ok (SetState t st s) rid" "held_ok (SetState t st s) t' rid"
    "pending_ok (SetState t st s) rid" for rid t'
    using inv(2-4,6) unfolding queue_ok_def upgrade_ok_def held_ok_def pending_ok_def x by blast+
  show "wait_ok (SetState t st s) t' c rid i" if "(t', c, rid, i) \<in> set (waiting (SetState t st s))" for t' c rid i
    using that inv(5) [of t' c rid i] assms(2) unfolding wait_ok_def x by (auto simp: busy_def rev_image_eqI)
qed

lemma not_busy: "\<not> busy s t \<Longrightarrow> (t, c, rid, i) \<notin> set (waiting s)"
  by (force simp: busy_def)

text \<open>Joining a queue and starting to wait.\<close>

lemma enqueue_inv:
  assumes "lm_inv s" and "\<not> busy s t" and "rid \<notin> exclusive_lock_set (txn s t)"
    and "c = CShared \<Longrightarrow> rid \<notin> shared_lock_set (txn s t)" and "txn_state (txn s t) \<noteq> SHRINKING" and "c \<noteq> CUpgrade"
  shows "lm_inv ((enqueue t (call_mode c) rid s)\<lparr>waiting := (t, c, rid, next_node s) # waiting s\<rparr>)"
proof -
  note inv = lm_invD [OF assms(1)]
  define s' where "s' = (enqueue t (call_mode c) rid s)\<lparr>waiting := (t, c, rid, next_node s) # waiting s\<rparr>"
  let ?r = "\<lparr>req_node = next_node s, req_txn = t, lock_mode = call_mode c, granted = False\<rparr>"
  have q: "request_queue (queue s' rid') = request_queue (queue s rid') @ (if rid' = rid then [?r] else [])"
    "upgrading (queue s' rid') = upgrading (queue s rid')" for rid'
    by (simp_all add: enqueue_def Let_def s'_def)
  have x: "txn s' = txn s" "next_node s' = Suc (next_node s)" "waiting s' = (t, c, rid, next_node s) # waiting s"
    by (simp_all add: enqueue_def Let_def s'_def)
  have "lm_inv s'"
  proof (rule lm_invI)
    show "distinct (map fst (waiting s'))" using inv(1) assms(2) by (auto simp: x busy_def)
    show "queue_ok s' rid'" for rid'
      using inv(2) [of rid'] by (auto simp: queue_ok_def q x less_SucI)
    show "upgrade_ok s' rid'" for rid'
      using inv(3) [of rid'] assms(6) unfolding upgrade_ok_def q(2) x by auto
    show "held_ok s' t' rid'" for t' rid'
      using inv(4) [of t' rid'] unfolding held_ok_def q x by auto
    show "wait_ok s' t' c' rid' i'" if "(t', c', rid', i') \<in> set (waiting s')" for t' c' rid' i'
      using that inv(5) [of t' c' rid' i'] assms(3-6) unfolding wait_ok_def q x by auto
    show "pending_ok s' rid'" for rid'
      using inv(6) [of rid'] unfolding pending_ok_def q x by auto
  qed
  then show ?thesis by (simp add: s'_def)
qed

text \<open>Replacing one request of the queue of \<open>rid\<close>, or removing it.\<close>

lemma reqs_update:
  assumes "queue_ok s rid" and "r \<in> reqs s rid"
  shows "set (update_node (req_node r) g (request_queue (queue s rid))) = insert (g r) (reqs s rid - {r})"
proof -
  have "(\<lambda>x. if req_node x = req_node r then g x else x) ` reqs s rid = (\<lambda>x. if x = r then g r else x) ` reqs s rid"
    using node_unique [OF assms(1) _ assms(2)] by (intro image_cong) auto
  then show ?thesis using assms(2) unfolding set_update_node by auto
qed

lemma reqs_erase:
  assumes "queue_ok s rid" and "r \<in> reqs s rid"
  shows "set (erase_node (req_node r) (request_queue (queue s rid))) = reqs s rid - {r}"
  using assms node_unique [OF assms(1), of _ r] unfolding set_erase_node by auto

text \<open>Starting an upgrade: the shared request turns into an ungranted exclusive one.\<close>

lemma upgrade_inv:
  assumes "lm_inv s" and "\<not> busy s t" and "rid \<notin> exclusive_lock_set (txn s t)" and "rid \<in> shared_lock_set (txn s t)"
    and "txn_state (txn s t) \<noteq> SHRINKING" and "\<not> upgrading (queue s rid)"
    and r: "r \<in> reqs s rid" "req_txn r = t"
  shows "lm_inv ((set_queue rid \<lparr>request_queue = update_node (req_node r)
      (\<lambda>r. r\<lparr>lock_mode := EXCLUSIVE, granted := False\<rparr>) (request_queue (queue s rid)), upgrading = True\<rparr> s)
      \<lparr>waiting := (t, CUpgrade, rid, req_node r) # waiting s\<rparr>)"
proof -
  note inv = lm_invD [OF assms(1)]
  define rs where "rs = update_node (req_node r) (\<lambda>r. r\<lparr>lock_mode := EXCLUSIVE, granted := False\<rparr>)
    (request_queue (queue s rid))"
  define s' where "s' = (set_queue rid \<lparr>request_queue = rs, upgrading = True\<rparr> s)
    \<lparr>waiting := (t, CUpgrade, rid, req_node r) # waiting s\<rparr>"
  define r' where "r' = r\<lparr>lock_mode := EXCLUSIVE, granted := False\<rparr>"
  have x: "txn s' = txn s" "next_node s' = next_node s" "waiting s' = (t, CUpgrade, rid, req_node r) # waiting s"
    by (simp_all add: s'_def set_queue_def)
  have same: "queue s' rid' = queue s rid'" if "rid' \<noteq> rid" for rid'
    using that by (simp add: s'_def)
  have here: "reqs s' rid = insert r' (reqs s rid - {r})" "upgrading (queue s' rid)"
    using reqs_update [OF inv(2) r(1)] by (simp_all add: s'_def rs_def r'_def)
  have dist: "map req_node (request_queue (queue s' rid)) = map req_node (request_queue (queue s rid))"
    by (simp add: s'_def rs_def map_update_node)
  have r': "req_node r' = req_node r" "req_txn r' = t" "\<not> granted r'" "lock_mode r' = EXCLUSIVE"
    using r(2) by (simp_all add: r'_def)
  have no_upg: "(t', CUpgrade, rid, i') \<notin> set (waiting s)" for t' i'
    using inv(5) [of t' CUpgrade rid i'] assms(6) by (auto simp: wait_ok_def)
  have "lm_inv s'"
  proof (rule lm_invI)
    show "distinct (map fst (waiting s'))" using inv(1) assms(2) by (auto simp: busy_def x)
    show "queue_ok s' rid'" for rid'
    proof (cases "rid' = rid")
      case True
      then show ?thesis using inv(2) [of rid] r(1) r' unfolding queue_ok_def True dist here x by auto
    next
      case False
      then show ?thesis using inv(2) [of rid'] by (simp add: queue_ok_def same x)
    qed
    show "upgrade_ok s' rid'" for rid'
      using inv(3) [of rid'] no_upg by (cases "rid' = rid") (auto simp: upgrade_ok_def same x)
    show "held_ok s' t' rid'" for t' rid'
    proof (cases "rid' = rid")
      case True
      then show ?thesis using inv(4) [of t' rid] assms(3) r(2) unfolding held_ok_def True here x by auto
    next
      case False
      then show ?thesis using inv(4) [of t' rid'] by (auto simp: held_ok_def same x)
    qed
    show "wait_ok s' t' c' rid' i'" if w: "(t', c', rid', i') \<in> set (waiting s')" for t' c' rid' i'
    proof (cases "t' = t")
      case True
      with w assms(2) have eq: "c' = CUpgrade" "rid' = rid" "i' = req_node r" using not_busy by (auto simp: x)
      show ?thesis using True assms(3-5) r' here(2) unfolding wait_ok_def eq here(1) x by auto
    next
      case False
      then have old: "wait_ok s t' c' rid' i'" using w inv(5) by (auto simp: x)
      then show ?thesis
      proof (cases "rid' = rid")
        case True
        then show ?thesis using old False r(2) here(2) unfolding wait_ok_def True here(1) x by auto
      next
        case rid: False
        then show ?thesis using old by (simp add: wait_ok_def same x)
      qed
    qed
    show "pending_ok s' rid'" for rid'
    proof (cases "rid' = rid")
      case True
      then show ?thesis using inv(6) [of rid] r' unfolding pending_ok_def True here x by auto
    next
      case False
      then show ?thesis using inv(6) [of rid'] by (auto simp: pending_ok_def same x)
    qed
  qed
  then show ?thesis by (simp add: s'_def rs_def)
qed

text \<open>What a resumption finds: its own request, still ungranted, and its own entry in \<open>waiting\<close>.\<close>

lemma others_wait:
  assumes "lm_inv s" and "(t, c, rid, i) \<in> set (waiting s)"
  shows "set (filter (\<lambda>w. w \<noteq> (t, c, rid, i)) (waiting s)) = {w \<in> set (waiting s). fst w \<noteq> t}"
proof (rule set_eqI)
  fix w :: "txn_id \<times> call \<times> RID \<times> nat"
  obtain t' c' rid' i' where w: "w = (t', c', rid', i')" by (metis prod_cases4)
  show "w \<in> set (filter (\<lambda>w. w \<noteq> (t, c, rid, i)) (waiting s)) \<longleftrightarrow> w \<in> {w \<in> set (waiting s). fst w \<noteq> t}"
  proof (cases "t' = t")
    case True
    then show ?thesis using waiting_unique [OF assms, of c' rid' i'] unfolding w True by fastforce
  qed (simp add: w)
qed

text \<open>What both outcomes of a wait have in common: the waiting request \<open>r\<close> is replaced by granted requests of its transaction, or by nothing.\<close>

lemma resumed_wait:
  assumes "lm_inv s" and w: "(t, c, rid, i) \<in> set (waiting s)"
    and r: "r \<in> reqs s rid" "req_node r = i" "req_txn r = t"
    and s': "waiting s' = filter (\<lambda>w. w \<noteq> (t, c, rid, i)) (waiting s)"
    and q: "\<And>rid'. rid' \<noteq> rid \<Longrightarrow> queue s' rid' = queue s rid'"
    and up: "upgrading (queue s' rid) \<longleftrightarrow> c \<noteq> CUpgrade \<and> upgrading (queue s rid)"
    and rs: "reqs s' rid = R \<union> (reqs s rid - {r})" "\<forall>r' \<in> R. granted r'"
    and x: "\<And>t'. t' \<noteq> t \<Longrightarrow> txn s' t' = txn s t'"
  shows "distinct (map fst (waiting s'))" and "upgrade_ok s' rid'" and "pending_ok s' rid'"
    and "(t', c', rid', i') \<in> set (waiting s') \<Longrightarrow> wait_ok s' t' c' rid' i'"
proof -
  note inv = lm_invD [OF assms(1)]
  have wt: "w' \<in> set (waiting s') \<longleftrightarrow> w' \<in> set (waiting s) \<and> fst w' \<noteq> t" for w'
    using others_wait [OF assms(1) w] s' by auto
  have uniq: "(t, c', rid', i') \<in> set (waiting s) \<Longrightarrow> c' = c \<and> rid' = rid \<and> i' = i" for c' rid' i'
    using waiting_unique [OF assms(1) w] by blast
  show "distinct (map fst (waiting s'))" using inv(1) by (simp add: s' distinct_map_filter)
  have "t' \<noteq> t" if "(t', CUpgrade, rid', i') \<in> set (waiting s)" "rid' = rid \<longrightarrow> c \<noteq> CUpgrade" for t' i'
    using that uniq [of CUpgrade rid' i'] by auto
  note free = this
  show "upgrade_ok s' rid'"
  proof (cases "rid' = rid")
    case True
    then show ?thesis using inv(3) [of rid] free unfolding upgrade_ok_def True up wt by auto
  next
    case False
    then show ?thesis using inv(3) [of rid'] free unfolding upgrade_ok_def q [OF False] wt by auto
  qed
  show "wait_ok s' t' c' rid' i'" if "(t', c', rid', i') \<in> set (waiting s')"
  proof -
    have w': "(t', c', rid', i') \<in> set (waiting s)" "t' \<noteq> t" using that wt by auto
    have "\<not> (c = CUpgrade \<and> rid' = rid \<and> c' = CUpgrade)"
      using inv(3) [of rid] w w' unfolding upgrade_ok_def by blast
    then show ?thesis
      using inv(5) [OF w'(1)] w'(2) r(3) q [of rid'] rs(1) up x [OF w'(2)] unfolding wait_ok_def
      by (cases "rid' = rid") auto
  qed
  have "r1 \<in> reqs s rid' \<and> req_txn r1 \<noteq> t" if r1: "r1 \<in> reqs s' rid'" "\<not> granted r1" for r1
  proof -
    have old: "r1 \<in> reqs s rid'" "rid' = rid \<Longrightarrow> r1 \<noteq> r"
      using r1 q [of rid'] rs by (cases "rid' = rid"; auto)+
    with inv(6) [of rid'] r1(2) obtain c' where "(req_txn r1, c', rid', req_node r1) \<in> set (waiting s)"
      unfolding pending_ok_def by blast
    with old uniq [of c' rid' "req_node r1"] node_unique [OF inv(2) _ r(1), of r1] r(2) show ?thesis by metis
  qed
  then show "pending_ok s' rid'" using inv(6) [of rid'] wt unfolding pending_ok_def by fastforce
qed

lemma aborted_wait_inv:
  assumes "lm_inv s" and w: "(t, c, rid, i) \<in> set (waiting s)" and r: "r \<in> reqs s rid" "req_node r = i" "\<not> granted r"
    and s': "waiting s' = filter (\<lambda>w. w \<noteq> (t, c, rid, i)) (waiting s)" "next_node s' = next_node s"
    and q: "\<And>rid'. rid' \<noteq> rid \<Longrightarrow> queue s' rid' = queue s rid'"
    and here: "request_queue (queue s' rid) = erase_node i (request_queue (queue s rid))"
      "upgrading (queue s' rid) \<longleftrightarrow> c \<noteq> CUpgrade \<and> upgrading (queue s rid)"
    and x: "\<And>t'. t' \<noteq> t \<Longrightarrow> txn s' t' = txn s t'" "exclusive_lock_set (txn s' t) = exclusive_lock_set (txn s t)"
      "shared_lock_set (txn s' t) = (if c = CUpgrade then shared_lock_set (txn s t) - {rid} else shared_lock_set (txn s t))"
  shows "lm_inv s'"
proof (rule lm_invI)
  note inv = lm_invD [OF assms(1)]
  have wt: "w' \<in> set (waiting s') \<longleftrightarrow> w' \<in> set (waiting s) \<and> fst w' \<noteq> t" for w'
    using others_wait [OF assms(1) w] s'(1) by auto
  have rs: "reqs s' rid = reqs s rid - {r}"
    using reqs_erase [OF inv(2) r(1)] r(2) here(1) by simp
  have rt: "req_txn r = t"
  proof -
    from inv(5) [OF w] obtain r' where "r' \<in> reqs s rid" "req_node r' = i" "req_txn r' = t"
      unfolding wait_ok_def by blast
    with node_unique [OF inv(2) _ r(1)] r(2) show ?thesis by blast
  qed
  have uniq: "(t, c', rid', i') \<in> set (waiting s) \<Longrightarrow> c' = c \<and> rid' = rid \<and> i' = i" for c' rid' i'
    using waiting_unique [OF assms(1) w] by blast
  note old = resumed_wait [OF assms(1) w r(1,2) rt s'(1) q here(2) _ _ x(1), of "{}"]
  show "distinct (map fst (waiting s'))" "upgrade_ok s' rid'" "pending_ok s' rid'"
    "\<And>t' c' i'. (t', c', rid', i') \<in> set (waiting s') \<Longrightarrow> wait_ok s' t' c' rid' i'" for rid'
    using old rs by simp_all
  show "queue_ok s' rid'" for rid'
  proof (cases "rid' = rid")
    case True
    then show ?thesis using inv(2) [of rid] distinct_erase_node unfolding queue_ok_def True s'(2) here(1)
      by (auto simp: set_erase_node)
  next
    case False
    then show ?thesis using inv(2) [of rid'] by (simp add: queue_ok_def q s'(2))
  qed
  show "held_ok s' t' rid'" for t' rid'
  proof -
    have old: "held_ok s t' rid'" by (rule inv(4))
    have R: "(\<exists>r' \<in> reqs s' rid'. P r' \<and> granted r') \<longleftrightarrow> (\<exists>r' \<in> reqs s rid'. P r' \<and> granted r')" for P
      using r(3) q [of rid'] rs by (cases "rid' = rid") auto
    have X: "exclusive_lock_set (txn s' t') = exclusive_lock_set (txn s t')" using x by (cases "t' = t") auto
    have S: "rid' \<in> shared_lock_set (txn s' t') \<Longrightarrow> rid' \<in> shared_lock_set (txn s t') \<and>
        \<not> (t' = t \<and> rid' = rid \<and> c = CUpgrade)"
      using x by (cases "t' = t") (auto split: if_splits)
    have W: "(\<exists>j. (t', CUpgrade, rid', j) \<in> set (waiting s)) \<Longrightarrow> \<not> (t' = t \<and> rid' = rid \<and> c = CUpgrade) \<Longrightarrow>
        \<exists>j. (t', CUpgrade, rid', j) \<in> set (waiting s')"
      using wt uniq [of CUpgrade rid'] by (metis fst_conv)
    show ?thesis
      using old S W R [of "\<lambda>r'. req_txn r' = t'"] R [of "\<lambda>r'. req_txn r' = t' \<and> lock_mode r' = EXCLUSIVE"]
      unfolding held_ok_def X by (auto simp: conj_ac)
  qed
qed

lemma granted_wait_inv:
  assumes "lm_inv s" and w: "(t, c, rid, i) \<in> set (waiting s)"
    and r: "r \<in> reqs s rid" "req_node r = i" "req_txn r = t" "lock_mode r = call_mode c"
    and free: "\<And>r'. r' \<in> reqs s rid \<Longrightarrow> granted r' \<Longrightarrow> req_txn r' \<noteq> t \<Longrightarrow> c = CShared \<and> lock_mode r' = SHARED"
    and s': "waiting s' = filter (\<lambda>w. w \<noteq> (t, c, rid, i)) (waiting s)" "next_node s' = next_node s"
    and q: "\<And>rid'. rid' \<noteq> rid \<Longrightarrow> queue s' rid' = queue s rid'"
    and here: "request_queue (queue s' rid) = update_node i (\<lambda>r. r\<lparr>granted := True\<rparr>) (request_queue (queue s rid))"
      "upgrading (queue s' rid) \<longleftrightarrow> c \<noteq> CUpgrade \<and> upgrading (queue s rid)"
    and x: "\<And>t'. t' \<noteq> t \<Longrightarrow> txn s' t' = txn s t'"
      "exclusive_lock_set (txn s' t) = (if c = CShared then {} else {rid}) \<union> exclusive_lock_set (txn s t)"
      "shared_lock_set (txn s' t) = (case c of CShared \<Rightarrow> insert rid (shared_lock_set (txn s t))
         | CExclusive \<Rightarrow> shared_lock_set (txn s t) | CUpgrade \<Rightarrow> shared_lock_set (txn s t) - {rid})"
  shows "lm_inv s'"
proof (rule lm_invI)
  note inv = lm_invD [OF assms(1)]
  define r' where "r' = r\<lparr>granted := True\<rparr>"
  have r': "req_node r' = i" "req_txn r' = t" "granted r'" "lock_mode r' = call_mode c"
    using r by (simp_all add: r'_def)
  have wt: "w' \<in> set (waiting s') \<longleftrightarrow> w' \<in> set (waiting s) \<and> fst w' \<noteq> t" for w'
    using others_wait [OF assms(1) w] s'(1) by auto
  have rs: "reqs s' rid = insert r' (reqs s rid - {r})"
    using reqs_update [OF inv(2) r(1)] r(2) here(1) by (simp add: r'_def)
  have dist: "map req_node (request_queue (queue s' rid)) = map req_node (request_queue (queue s rid))"
    unfolding here(1) by (rule map_update_node) simp
  have uniq: "(t, c', rid', i') \<in> set (waiting s) \<Longrightarrow> c' = c \<and> rid' = rid \<and> i' = i" for c' rid' i'
    using waiting_unique [OF assms(1) w] by blast
  note old = resumed_wait [OF assms(1) w r(1-3) s'(1) q here(2) _ _ x(1), of "{r'}"]
  show "distinct (map fst (waiting s'))" "upgrade_ok s' rid'" "pending_ok s' rid'"
    "\<And>t' c' i'. (t', c', rid', i') \<in> set (waiting s') \<Longrightarrow> wait_ok s' t' c' rid' i'" for rid'
    using old rs r'(3) by simp_all
  show "queue_ok s' rid'" for rid'
  proof (cases "rid' = rid")
    case True
    have "lock_mode r1 = SHARED" if "r1 \<in> reqs s' rid" "r2 \<in> reqs s' rid" "granted r1" "granted r2" "req_txn r1 \<noteq> req_txn r2" for r1 r2
    proof (cases "r1 = r' \<or> r2 = r'")
      case True
      then show ?thesis using that free [of r1] free [of r2] r' unfolding rs by (cases c) auto
    next
      case False
      with that inv(2) [of rid] show ?thesis unfolding rs queue_ok_def by blast
    qed
    moreover have "req_node r1 < next_node s" if "r1 \<in> reqs s' rid" for r1
      using that inv(2) [of rid] r(1,2) r'(1) unfolding rs queue_ok_def by auto
    ultimately show ?thesis using inv(2) [of rid] unfolding queue_ok_def True dist s'(2) by blast
  next
    case False
    then show ?thesis using inv(2) [of rid'] by (simp add: queue_ok_def q s'(2))
  qed
  show "held_ok s' t' rid'" for t' rid'
  proof (cases "rid' = rid \<and> t' = t")
    case True
    then show ?thesis using r' inv(5) [OF w] x(2) unfolding held_ok_def rs
      by (cases c) (auto simp: wait_ok_def rs)
  next
    case False
    have old: "held_ok s t' rid'" by (rule inv(4))
    have R: "r1 \<in> reqs s' rid'" if "r1 \<in> reqs s rid'" "req_txn r1 = t'" for r1
      using that q [of rid'] rs r(3) False by (cases "rid' = rid") auto
    have X: "rid' \<in> exclusive_lock_set (txn s' t') \<longleftrightarrow> rid' \<in> exclusive_lock_set (txn s t')"
      "rid' \<in> shared_lock_set (txn s' t') \<longleftrightarrow> rid' \<in> shared_lock_set (txn s t')"
      using x False by (cases "t' = t"; cases c; auto)+
    have W: "(t', CUpgrade, rid', j) \<in> set (waiting s) \<Longrightarrow> (t', CUpgrade, rid', j) \<in> set (waiting s')" for j
      using wt uniq [of CUpgrade rid' j] False by auto
    show ?thesis using old R W unfolding held_ok_def X by blast
  qed
qed

lemma resume_inv:
  assumes "lm_inv s" and w: "(t, c, rid, i) \<in> set (waiting s)" and "may_proceed c t rid s"
  shows "\<exists>b s'. resume t c rid i s = (Inr b, s') \<and> lm_inv s' \<and> (b \<longleftrightarrow> txn_state (txn s t) \<noteq> ABORTED)"
proof -
  note inv = lm_invD [OF assms(1)]
  obtain r where r: "r \<in> reqs s rid" "req_node r = i" "req_txn r = t" "\<not> granted r" "lock_mode r = call_mode c"
    using inv(5) [OF w] by (auto simp: wait_ok_def)
  have node: "i \<in> req_node ` reqs s rid" using r by auto
  show ?thesis
  proof (cases "txn_state (txn s t) = ABORTED")
    case True
    define s' where "s' = snd (resume t c rid i s)"
    have run: "resume t c rid i s = (Inr False, s')"
      using True node by (auto simp: resume_def s'_def Let_def)
    have "lm_inv s'"
      by (rule aborted_wait_inv [OF assms(1) w r(1,2,4)]) (use True node in \<open>simp_all add: s'_def resume_def Let_def\<close>)
    with run True show ?thesis by auto
  next
    case False
    define s' where "s' = snd (resume t c rid i s)"
    have run: "resume t c rid i s = (Inr True, s')"
      using False node by (auto simp: resume_def s'_def Let_def)
    have free: "c = CShared \<and> lock_mode r' = SHARED" if "r' \<in> reqs s rid" "granted r'" "req_txn r' \<noteq> t" for r'
      using assms(3) False that by (cases "lock_mode r'") (auto simp: may_proceed_def)
    have "lm_inv s'"
      by (rule granted_wait_inv [OF assms(1) w r(1,2,3,5) free])
        (use False node in \<open>simp_all add: s'_def resume_def Let_def split: call.splits\<close>)
    with run False show ?thesis by auto
  qed
qed

lemma cv_wait_inv:
  assumes "lm_inv (s\<lparr>waiting := (t, c, rid, i) # waiting s\<rparr>)"
  shows "\<exists>b s'. cv_wait t c rid i s = (Inr b, s') \<and> lm_inv s'"
  using resume_inv [OF assms, of t c rid i] assms by (auto simp: cv_wait_def Let_def)

lemma Unlock_inv:
  assumes "lm_inv s" and "\<not> busy s t"
  shows "lm_inv (snd (Unlock t rid s))"
proof (cases "find (\<lambda>r. req_txn r = t) (request_queue (queue s rid))")
  case None
  then have "snd (Unlock t rid s) = s"
    by (cases "lock_table s rid") (simp_all add: Unlock_def queue_def)
  with assms(1) show ?thesis by simp
next
  case (Some r)
  note inv = lm_invD [OF assms(1)]
  have r: "r \<in> reqs s rid" "req_txn r = t" using Some by (auto simp: find_Some_iff)
  have idle: "(t, c', rid', i') \<notin> set (waiting s)" for c' rid' i' using assms(2) not_busy by blast
  then have gr: "granted r" using inv(6) [of rid] r unfolding pending_ok_def by blast
  define s' where "s' = snd (Unlock t rid s)"
  have tab: "lock_table s rid = Some (queue s rid)"
    using Some by (auto simp: queue_def split: option.splits)
  have s'_eq: "s' = set_txn t ((if txn_state (txn s t) = GROWING then (txn s t)\<lparr>txn_state := SHRINKING\<rparr> else txn s t)
      \<lparr>shared_lock_set := shared_lock_set (txn s t) - {rid}, exclusive_lock_set := exclusive_lock_set (txn s t) - {rid}\<rparr>)
      (set_queue rid ((queue s rid)\<lparr>request_queue := erase_node (req_node r) (request_queue (queue s rid))\<rparr>) s)"
    using tab Some gr by (simp add: s'_def Unlock_def Let_def)
  have x: "waiting s' = waiting s" "next_node s' = next_node s" "\<And>t'. t' \<noteq> t \<Longrightarrow> txn s' t' = txn s t'"
    "shared_lock_set (txn s' t) = shared_lock_set (txn s t) - {rid}"
    "exclusive_lock_set (txn s' t) = exclusive_lock_set (txn s t) - {rid}"
    by (simp_all add: s'_eq)
  have q: "\<And>rid'. rid' \<noteq> rid \<Longrightarrow> queue s' rid' = queue s rid'" "upgrading (queue s' rid) = upgrading (queue s rid)"
    "request_queue (queue s' rid) = erase_node (req_node r) (request_queue (queue s rid))"
    by (simp_all add: s'_eq)
  have rs: "reqs s' rid = reqs s rid - {r}" using reqs_erase [OF inv(2) r(1)] q(3) by simp
  have up: "upgrading (queue s' rid') = upgrading (queue s rid')" for rid'
    using q(1,2) by (cases "rid' = rid") auto
  have other: "r1 \<in> reqs s' rid' \<longleftrightarrow> r1 \<in> reqs s rid' \<and> (rid' = rid \<longrightarrow> r1 \<noteq> r)" for r1 rid'
    using q(1) [of rid'] rs by (cases "rid' = rid") auto
  have "lm_inv s'"
  proof (rule lm_invI)
    show "distinct (map fst (waiting s'))" using inv(1) x(1) by simp
    show "queue_ok s' rid'" for rid'
    proof (cases "rid' = rid")
      case True
      have "distinct (map req_node (request_queue (queue s' rid)))"
        using inv(2) [of rid] unfolding q(3) by (simp add: queue_ok_def distinct_erase_node)
      then show ?thesis using inv(2) [of rid] unfolding queue_ok_def True rs x(2) by blast
    next
      case False
      then show ?thesis using inv(2) [of rid'] by (simp add: queue_ok_def q(1) x(2))
    qed
    show "upgrade_ok s' rid'" for rid' using inv(3) [of rid'] unfolding upgrade_ok_def up x(1) by blast
    show "pending_ok s' rid'" for rid' using inv(6) [of rid'] other unfolding pending_ok_def x(1) by blast
    show "held_ok s' t' rid'" for t' rid'
    proof (cases "t' = t")
      case True
      then show ?thesis using inv(4) [of t rid'] other idle x(1,4,5) unfolding held_ok_def by auto
    next
      case False
      then show ?thesis using inv(4) [of t' rid'] other r(2) unfolding held_ok_def x(1) x(3) [OF False] by blast
    qed
    show "wait_ok s' t' c' rid' i'" if "(t', c', rid', i') \<in> set (waiting s')" for t' c' rid' i'
    proof -
      have t': "t' \<noteq> t" "(t', c', rid', i') \<in> set (waiting s)" using that idle unfolding x(1) by blast+
      then show ?thesis using inv(5) [OF t'(2)] other r(2) unfolding wait_ok_def up x(3) [OF t'(1)] by blast
    qed
  qed
  then show ?thesis by (simp add: s'_def)
qed

section \<open>Every step keeps the invariant and is defined\<close>

lemma LockShared_inv:
  assumes "lm_inv s" and "\<not> busy s t"
  shows "\<exists>b s'. LockShared t rid s = (Inr b, s') \<and> lm_inv s'"
proof -
  have "\<exists>b s'. cv_wait t CShared rid (next_node s) (enqueue t SHARED rid s) = (Inr b, s') \<and> lm_inv s'"
    if "rid \<notin> exclusive_lock_set (txn s t)" "rid \<notin> shared_lock_set (txn s t)" "txn_state (txn s t) \<noteq> SHRINKING"
    using enqueue_inv [OF assms that(1) _ that(3), of CShared] that(2)
    by (intro cv_wait_inv) (simp add: enqueue_def Let_def)
  then show ?thesis
    using assms SetState_inv [OF assms(1)] by (auto simp: LockShared_def Let_def)
qed

lemma LockExclusive_inv:
  assumes "lm_inv s" and "\<not> busy s t"
  shows "\<exists>b s'. LockExclusive t rid s = (Inr b, s') \<and> lm_inv s'"
proof -
  have "\<exists>b s'. cv_wait t CExclusive rid (next_node s) (enqueue t EXCLUSIVE rid s) = (Inr b, s') \<and> lm_inv s'"
    if "rid \<notin> exclusive_lock_set (txn s t)" "txn_state (txn s t) \<noteq> SHRINKING"
    using enqueue_inv [OF assms that(1) _ that(2), of CExclusive]
    by (intro cv_wait_inv) (simp add: enqueue_def Let_def)
  then show ?thesis
    using assms SetState_inv [OF assms(1)] by (auto simp: LockExclusive_def Let_def)
qed

text \<open>Touching \<open>lock_table_[rid]\<close> without changing the queue changes nothing else.\<close>

lemma set_queue_id_inv: "lm_inv s \<Longrightarrow> lm_inv (set_queue rid (queue s rid) s)"
proof -
  have "queue (set_queue rid (queue s rid) s) = queue s" by (auto simp: fun_eq_iff)
  then show "lm_inv s \<Longrightarrow> lm_inv (set_queue rid (queue s rid) s)"
    by (simp add: lm_inv_def queue_ok_def upgrade_ok_def pending_ok_def held_ok_def wait_ok_def)
qed

lemma LockUpgrade_inv:
  assumes "lm_inv s" and "\<not> busy s t"
  shows "\<exists>b s'. LockUpgrade t rid s = (Inr b, s') \<and> lm_inv s'"
proof -
  let ?up = "\<lambda>r. set_queue rid \<lparr>request_queue = update_node (req_node r)
    (\<lambda>r. r\<lparr>lock_mode := EXCLUSIVE, granted := False\<rparr>) (request_queue (queue s rid)), upgrading = True\<rparr> s"
  have up: "\<exists>b s'. cv_wait t CUpgrade rid (req_node r) (?up r) = (Inr b, s') \<and> lm_inv s'"
    if "rid \<notin> exclusive_lock_set (txn s t)" "rid \<in> shared_lock_set (txn s t)" "txn_state (txn s t) \<noteq> SHRINKING"
      "\<not> upgrading (queue s rid)" "find (\<lambda>r. req_txn r = t) (request_queue (queue s rid)) = Some r" for r
  proof -
    have "r \<in> reqs s rid" "req_txn r = t" using that(5) by (auto simp: find_Some_iff)
    from upgrade_inv [OF assms that(1-4) this] show ?thesis by (intro cv_wait_inv) simp
  qed
  have none: "lm_inv (set_queue rid ((queue s rid)\<lparr>upgrading := False\<rparr>) s)" if "\<not> upgrading (queue s rid)"
  proof -
    have "(queue s rid)\<lparr>upgrading := False\<rparr> = queue s rid" using that by (cases "queue s rid") simp
    with set_queue_id_inv [OF assms(1), of rid] show ?thesis by simp
  qed
  have busy: "lm_inv (SetState t ABORTED (set_queue rid (queue s rid) s))"
    by (rule SetState_inv [OF set_queue_id_inv [OF assms(1)]]) simp
  show ?thesis
    using assms SetState_inv [OF assms(1)] up none busy
    by (auto simp: LockUpgrade_def Let_def split: option.splits)
qed

lemma lm_step_inv: "lm_step s s' \<Longrightarrow> lm_inv s \<Longrightarrow> lm_inv s'"
proof (induction rule: lm_step.induct)
  case (lock_shared s t rid r s')
  then show ?case using LockShared_inv [of s t rid] by auto
next
  case (lock_exclusive s t rid r s')
  then show ?case using LockExclusive_inv [of s t rid] by auto
next
  case (lock_upgrade s t rid r s')
  then show ?case using LockUpgrade_inv [of s t rid] by auto
next
  case (unlock s t rid b s')
  then show ?case using Unlock_inv [of s t rid] by auto
next
  case (wake t c rid i s r s')
  then show ?case using resume_inv [of s t c rid i] by auto
next
  case (abort s t)
  then show ?case by (rule SetState_inv) simp
next
  case (commit s t)
  from commit(2) show ?case by (rule SetState_inv) simp
qed

lemma lm_reachable_inv: "lm_reachable s \<Longrightarrow> lm_inv s"
proof -
  have "lm_step\<^sup>*\<^sup>* LockManager_init s \<Longrightarrow> lm_inv s"
    by (induction rule: rtranclp_induct) (simp_all add: lm_inv_init lm_step_inv)
  then show "lm_reachable s \<Longrightarrow> lm_inv s" by (simp add: lm_reachable_def)
qed

section \<open>Properties\<close>



text \<open>
  At most one upgrade per record: two transactions never wait at the same time to upgrade
  the same record (which would deadlock them), and while one waits the flag \<open>upgrading_\<close> is set
  and a second \<open>LockUpgrade\<close> of a shared holder fails and aborts its transaction.
\<close>

theorem one_upgrade_at_a_time:
  assumes "lm_reachable s" and "(t, CUpgrade, rid, i) \<in> set (waiting s)"
  shows "((t', CUpgrade, rid, i') \<in> set (waiting s) \<longrightarrow> t' = t) \<and>
    (txn_state (txn s t') = GROWING \<and> rid \<in> shared_lock_set (txn s t') \<and> rid \<notin> exclusive_lock_set (txn s t') \<longrightarrow>
      (\<exists>s'. LockUpgrade t' rid s = (Inr (Some False), s') \<and> txn_state (txn s' t') = ABORTED))"
proof -
  note inv = lm_invD [OF lm_reachable_inv [OF assms(1)]]
  have "upgrading (queue s rid)" using inv(5) [OF assms(2)] by (simp add: wait_ok_def)
  moreover have "(t', CUpgrade, rid, i') \<in> set (waiting s) \<Longrightarrow> t' = t"
    using inv(3) [of rid] assms(2) unfolding upgrade_ok_def by blast
  ultimately show ?thesis by (auto simp: LockUpgrade_def Let_def SetState_def)
qed

text \<open>A call of one transaction leaves the others' lock sets and states alone.\<close>

lemma resume_frame: "t' \<noteq> t \<Longrightarrow> txn (snd (resume t c rid i s)) t' = txn s t'"
  by (simp add: resume_def Let_def)

lemma cv_wait_frame: "t' \<noteq> t \<Longrightarrow> txn (snd (cv_wait t c rid i s)) t' = txn s t'"
  using resume_frame [of t' t c rid i "s\<lparr>waiting := (t, c, rid, i) # waiting s\<rparr>"]
  by (auto simp: cv_wait_def Let_def bind_out_def split: prod.splits sum.splits)

lemma calls_frame:
  assumes "t' \<noteq> t"
  shows "txn (snd (LockShared t rid s)) t' = txn s t'" and "txn (snd (LockExclusive t rid s)) t' = txn s t'"
    and "txn (snd (LockUpgrade t rid s)) t' = txn s t'" and "txn (snd (Unlock t rid s)) t' = txn s t'"
  using assms cv_wait_frame [OF assms]
  by (auto simp: LockShared_def LockExclusive_def LockUpgrade_def Unlock_def SetState_def enqueue_def Let_def
      split: option.splits)

definition locks_shrink :: "Transaction \<Rightarrow> Transaction \<Rightarrow> bool" where
  "locks_shrink x x' \<longleftrightarrow> shared_lock_set x' \<subseteq> shared_lock_set x \<and> exclusive_lock_set x' \<subseteq> exclusive_lock_set x"


section \<open>A run with an upgrade\<close>

text \<open>
  Transactions 1 and 2 share record \<open>(0, 0)\<close>; 1 asks for an upgrade and waits for 2, which
  unlocks; before 1 wakes up, 3 asks for the exclusive lock.
\<close>

abbreviation demo_rid :: RID where
  "demo_rid \<equiv> RID 0 0"

definition both_share :: LockManager where
  "both_share = snd (LockShared 2 demo_rid (snd (LockShared 1 demo_rid LockManager_init)))"

definition one_upgrades :: LockManager where
  "one_upgrades = snd (LockUpgrade 1 demo_rid both_share)"

definition two_leaves :: LockManager where
  "two_leaves = snd (Unlock 2 demo_rid one_upgrades)"

definition three_locks :: LockManager where
  "three_locks = snd (LockExclusive 3 demo_rid two_leaves)"

lemma reach_calls:
  assumes "lm_reachable s" and "\<not> busy s t"
  shows "lm_reachable (snd (LockShared t rid s))" and "lm_reachable (snd (LockExclusive t rid s))"
    and "lm_reachable (snd (LockUpgrade t rid s))" and "lm_reachable (snd (Unlock t rid s))"
  using assms unfolding lm_reachable_def
  by (metis prod.collapse rtranclp.rtrancl_into_rtrancl lm_step.intros(1-4))+

lemma demo_reachable:
  "lm_reachable both_share" "lm_reachable one_upgrades" "lm_reachable two_leaves" "lm_reachable three_locks"
proof -
  have "lm_reachable LockManager_init" by (simp add: lm_reachable_def)
  moreover have "\<not> busy LockManager_init 1" "\<not> busy (snd (LockShared 1 demo_rid LockManager_init)) 2"
    "\<not> busy both_share 1" "\<not> busy one_upgrades 2" "\<not> busy two_leaves 3" by code_simp+
  ultimately show "lm_reachable both_share" "lm_reachable one_upgrades" "lm_reachable two_leaves" "lm_reachable three_locks"
    unfolding three_locks_def two_leaves_def one_upgrades_def both_share_def by (simp_all add: reach_calls)
qed


section \<open>Witnesses\<close>



theorem one_upgrade_at_a_time_witness:
  "\<exists>s'. LockUpgrade 2 demo_rid one_upgrades = (Inr (Some False), s') \<and> txn_state (txn s' 2) = ABORTED"
proof -
  have "(1, CUpgrade, demo_rid, 0) \<in> set (waiting one_upgrades)" by code_simp
  note once = one_upgrade_at_a_time [OF demo_reachable(2) this, of 2]
  have "txn_state (txn one_upgrades 2) = GROWING \<and> demo_rid \<in> shared_lock_set (txn one_upgrades 2) \<and>
    demo_rid \<notin> exclusive_lock_set (txn one_upgrades 2)" by code_simp
  with once show ?thesis by blast
qed


end
