(* ===== verification/Txn_Manager.thy ===== *)
theory Txn_Manager
  imports Lock_Manager
begin

text \<open>
  The transaction manager (\<open>src/concurrency/transaction_manager.cpp\<close>). \<open>Commit\<close> and
  \<open>Abort\<close> iterate over the transaction's lock sets and call \<open>Unlock\<close>, which erases the
  current element from the set that is being iterated: the increment of the loop's iterator is
  then undefined. The order in which an \<open>unordered_set\<close> is traversed is an argument.
\<close>

record TransactionManager =
  next_txn_id :: txn_id
  lock_manager :: LockManager

definition Begin :: "IsolationLevel \<Rightarrow> TransactionManager \<Rightarrow> txn_id \<times> TransactionManager" where
  "Begin level m =
     (let t = next_txn_id m in
      (t, m\<lparr>next_txn_id := t + 1, lock_manager := set_txn t (Transaction_init level) (lock_manager m)\<rparr>))"

fun unlock_each :: "txn_id \<Rightarrow> RID list \<Rightarrow> LockManager \<Rightarrow> (unit, LockManager) outcome" where
  "unlock_each t [] s = (Inr (), s)"
| "unlock_each t (rid # rids) s =
     (case Unlock t rid s of (found, s') \<Rightarrow>
        if found then (Inl UndefinedBehaviour, s') else unlock_each t rids s')"

definition release_all :: "TransactionState \<Rightarrow> txn_id \<Rightarrow> RID list \<Rightarrow> RID list \<Rightarrow> TransactionManager
    \<Rightarrow> (unit, TransactionManager) outcome" where
  "release_all st t shared_order exclusive_order m =
     (case bind_out (unlock_each t shared_order (SetState t st (lock_manager m)))
             (\<lambda>_. unlock_each t exclusive_order) of
        (Inl e, s) \<Rightarrow> (Inl e, m\<lparr>lock_manager := s\<rparr>)
      | (Inr _, s) \<Rightarrow>
          (Inr (), m\<lparr>lock_manager := set_txn t ((txn s t)\<lparr>shared_lock_set := {}, exclusive_lock_set := {}\<rparr>) s\<rparr>))"

definition Commit :: "txn_id \<Rightarrow> RID list \<Rightarrow> RID list \<Rightarrow> TransactionManager \<Rightarrow> (unit, TransactionManager) outcome" where
  "Commit = release_all COMMITTED"

definition Abort :: "txn_id \<Rightarrow> RID list \<Rightarrow> RID list \<Rightarrow> TransactionManager \<Rightarrow> (unit, TransactionManager) outcome" where
  "Abort = release_all ABORTED"

section \<open>Lemmas\<close>

text \<open>A lock a transaction holds is found by \<open>Unlock\<close>.\<close>

lemma Unlock_finds:
  assumes "lm_inv s" and "\<not> busy s t" and "rid \<in> shared_lock_set (txn s t) \<union> exclusive_lock_set (txn s t)"
  shows "fst (Unlock t rid s)"
proof -
  have "\<exists>r \<in> reqs s rid. req_txn r = t"
    using lm_invD(4) [OF assms(1), of t rid] assms(2,3) not_busy [of s t CUpgrade rid] unfolding held_ok_def by blast
  then obtain r where r: "find (\<lambda>r. req_txn r = t) (request_queue (queue s rid)) = Some r"
    by (cases "find (\<lambda>r. req_txn r = t) (request_queue (queue s rid))") (auto simp: find_None_iff)
  moreover from r have "lock_table s rid = Some (queue s rid)"
    by (auto simp: queue_def split: option.splits)
  ultimately show ?thesis by (simp add: Unlock_def Let_def)
qed

lemma release_all_undefined:
  assumes "lm_reachable (lock_manager m)" and "\<not> busy (lock_manager m) t"
    and "set sh = shared_lock_set (txn (lock_manager m) t)" and "set ex = exclusive_lock_set (txn (lock_manager m) t)"
    and "st = COMMITTED \<or> st = ABORTED" and "sh \<noteq> [] \<or> ex \<noteq> []"
  shows "fst (release_all st t sh ex m) = Inl UndefinedBehaviour"
proof -
  let ?s = "SetState t st (lock_manager m)"
  have "lm_inv ?s" using SetState_inv lm_reachable_inv [OF assms(1)] assms(2) by blast
  moreover have "\<not> busy ?s t" using assms(2) by (simp add: busy_def SetState_def)
  moreover have "shared_lock_set (txn ?s t) = set sh" "exclusive_lock_set (txn ?s t) = set ex"
    using assms(3,4) by (simp_all add: SetState_def)
  ultimately have found: "fst (Unlock t rid ?s)" if "rid \<in> set sh \<union> set ex" for rid
    using Unlock_finds [of ?s t rid] that by simp
  have "fst (unlock_each t rids ?s) = Inl UndefinedBehaviour" if "rids \<noteq> []" "set rids \<subseteq> set sh \<union> set ex" for rids
    using that found [of "hd rids"] by (cases rids) (auto split: prod.splits)
  then have ue: "\<exists>s'. unlock_each t rids ?s = (Inl UndefinedBehaviour, s')"
    if "rids \<noteq> []" "set rids \<subseteq> set sh \<union> set ex" for rids
    using that by (metis prod.collapse)
  show ?thesis
  proof (cases "sh = []")
    case True
    with ue [of ex] assms(6) show ?thesis by (auto simp: release_all_def)
  next
    case False
    with ue [of sh] show ?thesis by (auto simp: release_all_def simp del: unlock_each.simps)
  qed
qed

section \<open>Properties\<close>

text \<open>
  C24. \<open>Commit\<close> and \<open>Abort\<close> are defined exactly for a transaction that holds no lock. With
  at least one lock held, the first \<open>Unlock\<close> erases the element the loop stands on and the
  loop goes on with an invalid iterator, in whatever order the sets are traversed; with none,
  the state changes and nothing else happens.
\<close>

theorem Commit_Abort_defined_iff_no_locks:
  assumes "lm_reachable (lock_manager m)" and "\<not> busy (lock_manager m) t"
    and "set sh = shared_lock_set (txn (lock_manager m) t)" and "set ex = exclusive_lock_set (txn (lock_manager m) t)"
  shows "(if sh = [] \<and> ex = []
     then Commit t sh ex m = (Inr (), m\<lparr>lock_manager := SetState t COMMITTED (lock_manager m)\<rparr>) \<and>
       Abort t sh ex m = (Inr (), m\<lparr>lock_manager := SetState t ABORTED (lock_manager m)\<rparr>)
     else fst (Commit t sh ex m) = Inl UndefinedBehaviour \<and> fst (Abort t sh ex m) = Inl UndefinedBehaviour)"
proof (cases "sh = [] \<and> ex = []")
  case True
  then have empty: "shared_lock_set (txn (lock_manager m) t) = {}" "exclusive_lock_set (txn (lock_manager m) t) = {}"
    using assms(3,4) by auto
  have "set_txn t ((txn (SetState t st (lock_manager m)) t)\<lparr>shared_lock_set := {}, exclusive_lock_set := {}\<rparr>)
      (SetState t st (lock_manager m)) = SetState t st (lock_manager m)" for st
    using empty by (cases "txn (lock_manager m) t") (simp add: SetState_def set_txn_def)
  then show ?thesis using True by (simp add: Commit_def Abort_def release_all_def)
next
  case False
  then show ?thesis using release_all_undefined [OF assms] by (auto simp: Commit_def Abort_def)
qed

theorem Commit_Abort_defined_iff_no_locks_witness:
  "fst (Commit 1 [demo_rid] [] \<lparr>next_txn_id = 4, lock_manager = both_share\<rparr>) = Inl UndefinedBehaviour"
proof -
  have "\<not> busy both_share 1" "set [demo_rid] = shared_lock_set (txn both_share 1)"
    "set [] = exclusive_lock_set (txn both_share 1)" by code_simp+
  with Commit_Abort_defined_iff_no_locks [of "\<lparr>next_txn_id = 4, lock_manager = both_share\<rparr>" 1 "[demo_rid]" "[]"]
    demo_reachable(1) show ?thesis by simp
qed

end
