(* ===== verification/BPlus_Pages.thy ===== *)
theory BPlus_Pages
  imports Prelude
begin

text \<open>
  The pages of the B+ tree (\<open>src/storage/page/b_plus_tree_leaf_page.cpp\<close>,
  \<open>b_plus_tree_internal_page.cpp\<close>) for the instantiation the repository compiles: \<open>int\<close>
  keys under \<open>std::less\<close>, record identifiers in leaves, page identifiers in internal pages.
  \<open>array_[0]\<close> is a function of the index, together with \<open>size_\<close>; its loops are kept as loops,
  and the lemmas show what each does to the list of the entries in use (\<open>entries_of\<close>).
\<close>

section \<open>Arrays and their loops\<close>

definition items :: "(nat \<Rightarrow> 'a) \<Rightarrow> nat \<Rightarrow> 'a list" where
  "items a n = map a [0..<n]"

text \<open>\<open>for (int i = n; i > idx; i--) a[i] = a[i - 1];\<close>\<close>

fun shift_up :: "nat \<Rightarrow> nat \<Rightarrow> (nat \<Rightarrow> 'a) \<Rightarrow> nat \<Rightarrow> 'a" where
  "shift_up 0 idx a = a"
| "shift_up (Suc i) idx a = (if Suc i > idx then shift_up i idx (a(Suc i := a i)) else a)"

text \<open>\<open>for (int i = idx; i + 1 < n; i++) a[i] = a[i + 1];\<close>\<close>

function shift_down :: "nat \<Rightarrow> nat \<Rightarrow> (nat \<Rightarrow> 'a) \<Rightarrow> nat \<Rightarrow> 'a" where
  "shift_down i n a = (if i + 1 < n then shift_down (i + 1) n (a(i := a (i + 1))) else a)"
  by auto

termination shift_down
  by (relation "measure (\<lambda>(i, n, a). n - i)") auto

text \<open>\<open>for (int i = 0; i < cnt; i++) dst[d + i] = src[s + i];\<close>\<close>

fun copy_items :: "nat \<Rightarrow> (nat \<Rightarrow> 'a) \<Rightarrow> nat \<Rightarrow> (nat \<Rightarrow> 'a) \<Rightarrow> nat \<Rightarrow> nat \<Rightarrow> 'a" where
  "copy_items 0 src s dst d = dst"
| "copy_items (Suc cnt) src s dst d = copy_items cnt src (Suc s) (dst(d := src s)) (Suc d)"

declare shift_down.simps [simp del]

lemma length_items [simp]: "length (items a n) = n"
  by (simp add: items_def)

lemma nth_items [simp]: "i < n \<Longrightarrow> items a n ! i = a i"
  by (simp add: items_def)

lemma items_Suc: "items a (Suc n) = items a n @ [a n]"
  by (simp add: items_def)

lemma items_upd [simp]: "n \<le> i \<Longrightarrow> items (a(i := x)) n = items a n"
  by (simp add: items_def)

lemma take_items: "k \<le> n \<Longrightarrow> take k (items a n) = items a k"
  by (rule nth_equalityI) auto

lemma shift_up_nth: "shift_up n idx a j = (if idx < j \<and> j \<le> n then a (j - 1) else a j)"
  by (induction n arbitrary: a) (auto simp: le_Suc_eq)

lemma shift_down_nth: "shift_down i n a j = (if i \<le> j \<and> j + 1 < n then a (j + 1) else a j)"
proof (induction i n a rule: shift_down.induct)
  case (1 i n a)
  show ?case
  proof (cases "i + 1 < n")
    case True
    have "shift_down i n a = shift_down (i + 1) n (a(i := a (i + 1)))" using True by (subst shift_down.simps) simp
    then show ?thesis using 1 [OF True] True by (auto simp: fun_upd_def)
  next
    case False
    then show ?thesis by (subst shift_down.simps) auto
  qed
qed

lemma copy_items_nth: "copy_items cnt src s dst d j = (if d \<le> j \<and> j < d + cnt then src (s + (j - d)) else dst j)"
  by (induction cnt arbitrary: s dst d) (auto simp: not_less_eq_eq less_Suc_eq intro!: arg_cong [where f = src])

text \<open>Inserting at a position, and removing from one, as list operations.\<close>

definition insert_at :: "nat \<Rightarrow> 'a \<Rightarrow> 'a list \<Rightarrow> 'a list" where
  "insert_at i x xs = take i xs @ x # drop i xs"

definition remove_at :: "nat \<Rightarrow> 'a list \<Rightarrow> 'a list" where
  "remove_at i xs = take i xs @ drop (Suc i) xs"

lemma items_insert:
  assumes "idx \<le> n"
  shows "items ((shift_up n idx a)(idx := x)) (Suc n) = insert_at idx x (items a n)"
proof (rule nth_equalityI)
  fix j assume "j < length (items ((shift_up n idx a)(idx := x)) (Suc n))"
  then show "items ((shift_up n idx a)(idx := x)) (Suc n) ! j = insert_at idx x (items a n) ! j"
    using assms by (cases "j < idx"; cases "j = idx") (auto simp: insert_at_def shift_up_nth nth_append nth_Cons')
qed (use assms in \<open>simp add: insert_at_def\<close>)

lemma items_remove:
  assumes "idx < n"
  shows "items (shift_down idx n a) (n - 1) = remove_at idx (items a n)"
proof (rule nth_equalityI)
  fix j assume "j < length (items (shift_down idx n a) (n - 1))"
  then show "items (shift_down idx n a) (n - 1) ! j = remove_at idx (items a n) ! j"
    using assms by (cases "j < idx") (auto simp: remove_at_def shift_down_nth nth_append)
qed (use assms in \<open>simp add: remove_at_def\<close>)

lemma items_copy_append: "items (copy_items cnt src s dst d) (d + cnt) = items dst d @ map src [s..<s + cnt]"
  by (rule nth_equalityI) (auto simp: copy_items_nth nth_append)

section \<open>Headers\<close>

record TreePage =
  tp_size :: nat
  tp_max :: nat
  tp_parent :: page_id

record LeafPage = TreePage +
  next_leaf :: page_id
  leaf_array :: "nat \<Rightarrow> int \<times> RID"

record InternalPage = TreePage +
  child_array :: "nat \<Rightarrow> int \<times> page_id"

definition leaf_min_size :: "nat \<Rightarrow> nat" where
  "leaf_min_size m = m div 2"

definition internal_min_size :: "nat \<Rightarrow> nat" where
  "internal_min_size m = (m + 1) div 2"

section \<open>Leaf pages\<close>

definition leaf_Init :: "nat \<Rightarrow> (nat \<Rightarrow> int \<times> RID) \<Rightarrow> LeafPage" where
  "leaf_Init m arr = \<lparr>tp_size = 0, tp_max = m, tp_parent = INVALID_PAGE_ID, next_leaf = INVALID_PAGE_ID, leaf_array = arr\<rparr>"

definition leaf_KeyAt :: "LeafPage \<Rightarrow> nat \<Rightarrow> int" where
  "leaf_KeyAt l i = fst (leaf_array l i)"

definition leaf_ValueAt :: "LeafPage \<Rightarrow> nat \<Rightarrow> RID" where
  "leaf_ValueAt l i = snd (leaf_array l i)"

text \<open>The binary search of \<open>KeyIndex\<close>.\<close>

function bisect :: "(nat \<Rightarrow> int \<times> 'v) \<Rightarrow> int \<Rightarrow> nat \<Rightarrow> nat \<Rightarrow> nat" where
  "bisect a key l r =
     (if l < r then
        let mid = l + (r - l) div 2 in
        if fst (a mid) < key then bisect a key (mid + 1) r else bisect a key l mid
      else l)"
  by auto

termination bisect
  by (relation "measure (\<lambda>(a, key, l, r). r - l)") (auto simp: Let_def)

declare bisect.simps [simp del]

definition leaf_KeyIndex :: "LeafPage \<Rightarrow> int \<Rightarrow> nat" where
  "leaf_KeyIndex l key = bisect (leaf_array l) key 0 (tp_size l)"

definition leaf_Lookup :: "LeafPage \<Rightarrow> int \<Rightarrow> RID option" where
  "leaf_Lookup l key =
     (let idx = leaf_KeyIndex l key in
      if idx \<ge> tp_size l then None
      else
        let k = fst (leaf_array l idx) in
        if \<not> k < key \<and> \<not> key < k then Some (snd (leaf_array l idx)) else None)"

definition leaf_Insert :: "int \<Rightarrow> RID \<Rightarrow> LeafPage \<Rightarrow> nat \<times> LeafPage" where
  "leaf_Insert key value l =
     (let sz = tp_size l; idx = leaf_KeyIndex l key in
      if idx < sz \<and> \<not> fst (leaf_array l idx) < key \<and> \<not> key < fst (leaf_array l idx) then (sz, l)
      else
        let arr = (shift_up sz idx (leaf_array l))(idx := (key, value)) in
        (sz + 1, l\<lparr>leaf_array := arr, tp_size := sz + 1\<rparr>))"

definition leaf_Remove :: "int \<Rightarrow> LeafPage \<Rightarrow> nat \<times> LeafPage" where
  "leaf_Remove key l =
     (let sz = tp_size l; idx = leaf_KeyIndex l key in
      if idx \<ge> sz then (sz, l)
      else if fst (leaf_array l idx) < key \<or> key < fst (leaf_array l idx) then (sz, l)
      else (sz - 1, l\<lparr>leaf_array := shift_down idx sz (leaf_array l), tp_size := sz - 1\<rparr>))"

text \<open>The moves return the page they are called on and the recipient.\<close>

definition leaf_MoveHalfTo :: "LeafPage \<Rightarrow> LeafPage \<Rightarrow> LeafPage \<times> LeafPage" where
  "leaf_MoveHalfTo l r =
     (let sz = tp_size l; split_idx = sz div 2; move_cnt = sz - split_idx in
      (l\<lparr>tp_size := split_idx\<rparr>,
       r\<lparr>leaf_array := copy_items move_cnt (leaf_array l) split_idx (leaf_array r) 0, tp_size := move_cnt\<rparr>))"

definition leaf_MoveAllTo :: "LeafPage \<Rightarrow> LeafPage \<Rightarrow> LeafPage \<times> LeafPage" where
  "leaf_MoveAllTo l r =
     (let rsz = tp_size r; sz = tp_size l in
      (l\<lparr>tp_size := 0, next_leaf := INVALID_PAGE_ID\<rparr>,
       r\<lparr>leaf_array := copy_items sz (leaf_array l) 0 (leaf_array r) rsz, tp_size := rsz + sz,
         next_leaf := next_leaf l\<rparr>))"

definition leaf_MoveFirstToEndOf :: "LeafPage \<Rightarrow> LeafPage \<Rightarrow> error + LeafPage \<times> LeafPage" where
  "leaf_MoveFirstToEndOf l r =
     (if tp_size l \<le> 0 then Inl (RuntimeError ''BPlusTreeLeafPage::MoveFirstToEndOf: empty donor'')
      else
        let sz = tp_size l; rsz = tp_size r in
        Inr (l\<lparr>leaf_array := shift_down 0 sz (leaf_array l), tp_size := sz - 1\<rparr>,
             r\<lparr>leaf_array := (leaf_array r)(rsz := leaf_array l 0), tp_size := rsz + 1\<rparr>))"

definition leaf_MoveLastToFrontOf :: "LeafPage \<Rightarrow> LeafPage \<Rightarrow> error + LeafPage \<times> LeafPage" where
  "leaf_MoveLastToFrontOf l r =
     (if tp_size l \<le> 0 then Inl (RuntimeError ''BPlusTreeLeafPage::MoveLastToFrontOf: empty donor'')
      else
        let sz = tp_size l; rsz = tp_size r in
        Inr (l\<lparr>tp_size := sz - 1\<rparr>,
             r\<lparr>leaf_array := (shift_up rsz 0 (leaf_array r))(0 := leaf_array l (sz - 1)), tp_size := rsz + 1\<rparr>))"

section \<open>Internal pages\<close>

definition int_Init :: "nat \<Rightarrow> (nat \<Rightarrow> int \<times> page_id) \<Rightarrow> InternalPage" where
  "int_Init m arr = \<lparr>tp_size = 0, tp_max = m, tp_parent = INVALID_PAGE_ID, child_array = arr\<rparr>"

definition int_KeyAt :: "InternalPage \<Rightarrow> nat \<Rightarrow> int" where
  "int_KeyAt p i = fst (child_array p i)"

definition int_SetKeyAt :: "nat \<Rightarrow> int \<Rightarrow> InternalPage \<Rightarrow> InternalPage" where
  "int_SetKeyAt i k p = p\<lparr>child_array := (child_array p)(i := (k, snd (child_array p i)))\<rparr>"

definition int_ValueAt :: "InternalPage \<Rightarrow> nat \<Rightarrow> page_id" where
  "int_ValueAt p i = snd (child_array p i)"

definition int_SetValueAt :: "nat \<Rightarrow> page_id \<Rightarrow> InternalPage \<Rightarrow> InternalPage" where
  "int_SetValueAt i v p = p\<lparr>child_array := (child_array p)(i := (fst (child_array p i), v))\<rparr>"

fun value_index :: "(nat \<Rightarrow> int \<times> page_id) \<Rightarrow> page_id \<Rightarrow> nat list \<Rightarrow> int" where
  "value_index a v [] = -1"
| "value_index a v (i # is) = (if snd (a i) = v then int i else value_index a v is)"

definition int_ValueIndex :: "InternalPage \<Rightarrow> page_id \<Rightarrow> int" where
  "int_ValueIndex p v = value_index (child_array p) v [0..<tp_size p]"

text \<open>The loop of \<open>Lookup\<close>, from \<open>i\<close> on, with the child found so far.\<close>

fun route :: "(nat \<Rightarrow> int \<times> page_id) \<Rightarrow> int \<Rightarrow> nat list \<Rightarrow> page_id \<Rightarrow> page_id" where
  "route a key [] result = result"
| "route a key (i # is) result = (if key < fst (a i) then result else route a key is (snd (a i)))"

definition int_Lookup :: "InternalPage \<Rightarrow> int \<Rightarrow> page_id" where
  "int_Lookup p key = route (child_array p) key [1..<tp_size p] (snd (child_array p 0))"

definition int_PopulateNewRoot :: "page_id \<Rightarrow> int \<Rightarrow> page_id \<Rightarrow> InternalPage \<Rightarrow> InternalPage" where
  "int_PopulateNewRoot old_value key new_value p =
     int_SetValueAt 1 new_value (int_SetKeyAt 1 key (int_SetValueAt 0 old_value (p\<lparr>tp_size := 2\<rparr>)))"

definition int_InsertNodeAfter :: "page_id \<Rightarrow> int \<Rightarrow> page_id \<Rightarrow> InternalPage \<Rightarrow> error + InternalPage" where
  "int_InsertNodeAfter old_value key new_value p =
     (let idx = int_ValueIndex p old_value in
      if idx < 0 then Inl (RuntimeError ''BPlusTreeInternalPage::InsertNodeAfter: old_value not found'')
      else
        let old_size = tp_size p; i = nat idx + 1 in
        Inr (p\<lparr>child_array := (shift_up old_size i (child_array p))(i := (key, new_value)), tp_size := old_size + 1\<rparr>))"

definition int_Remove :: "nat \<Rightarrow> InternalPage \<Rightarrow> error + InternalPage" where
  "int_Remove index p =
     (let sz = tp_size p in
      if index \<ge> sz then Inl (RuntimeError ''BPlusTreeInternalPage::Remove: index out of range'')
      else Inr (p\<lparr>child_array := shift_down index sz (child_array p), tp_size := sz - 1\<rparr>))"

definition int_RemoveAndReturnOnlyChild :: "InternalPage \<Rightarrow> error + page_id \<times> InternalPage" where
  "int_RemoveAndReturnOnlyChild p =
     (if tp_size p \<noteq> 1 then Inl (RuntimeError ''BPlusTreeInternalPage::RemoveAndReturnOnlyChild: size != 1'')
      else Inr (int_ValueAt p 0, p\<lparr>tp_size := 0\<rparr>))"

definition int_MoveAllTo :: "InternalPage \<Rightarrow> InternalPage \<Rightarrow> int \<Rightarrow> InternalPage \<times> InternalPage" where
  "int_MoveAllTo p r middle_key =
     (let rsz = tp_size r; sz = tp_size p in
      if sz = 0 then (p, r)
      else
        (p\<lparr>tp_size := 0\<rparr>,
         r\<lparr>child_array := copy_items (sz - 1) (child_array p) 1
              ((child_array r)(rsz := (middle_key, int_ValueAt p 0))) (rsz + 1),
           tp_size := rsz + sz\<rparr>))"

definition int_MoveHalfTo :: "InternalPage \<Rightarrow> InternalPage \<Rightarrow> int \<Rightarrow> InternalPage \<times> InternalPage" where
  "int_MoveHalfTo p r middle_key =
     (let n = tp_size p in
      if n \<le> 1 then (p, r\<lparr>tp_size := 0\<rparr>)
      else
        let split_idx = n div 2 in
        (p\<lparr>tp_size := split_idx\<rparr>,
         r\<lparr>child_array := copy_items (n - split_idx - 1) (child_array p) (split_idx + 1)
              ((child_array r)(0 := (middle_key, int_ValueAt p split_idx))) 1,
           tp_size := n - split_idx\<rparr>))"

definition int_MoveFirstToEndOf :: "InternalPage \<Rightarrow> InternalPage \<Rightarrow> int \<Rightarrow> error + InternalPage \<times> InternalPage" where
  "int_MoveFirstToEndOf p r middle_key =
     (let sz = tp_size p; rsz = tp_size r in
      if sz \<le> 0 then Inl (RuntimeError ''BPlusTreeInternalPage::MoveFirstToEndOf: empty donor'')
      else
        let r' = r\<lparr>child_array := (child_array r)(rsz := (middle_key, int_ValueAt p 0)), tp_size := rsz + 1\<rparr> in
        if sz = 1 then Inr (p\<lparr>tp_size := 0\<rparr>, r')
        else
          let a = (child_array p)(0 := (fst (child_array p 0), int_ValueAt p 1)) in
          Inr (p\<lparr>child_array := shift_down 1 sz a, tp_size := sz - 1\<rparr>, r'))"

definition int_MoveLastToFrontOf :: "InternalPage \<Rightarrow> InternalPage \<Rightarrow> int \<Rightarrow> error + InternalPage \<times> InternalPage" where
  "int_MoveLastToFrontOf p r middle_key =
     (let sz = tp_size p in
      if sz \<le> 0 then Inl (RuntimeError ''BPlusTreeInternalPage::MoveLastToFrontOf: empty donor'')
      else
        let moved_p0 = int_ValueAt p (sz - 1); p' = p\<lparr>tp_size := sz - 1\<rparr>; rsz = tp_size r in
        if rsz = 0 then
          Inr (p', r\<lparr>child_array := (child_array r)(0 := (fst (child_array r 0), moved_p0)), tp_size := 1\<rparr>)
        else
          let old_p0 = int_ValueAt r 0;
              a = shift_up (rsz + 1) 0 (child_array r);
              a1 = a(0 := (fst (a 0), moved_p0));
              a2 = a1(1 := (middle_key, old_p0))
          in Inr (p', r\<lparr>child_array := a2, tp_size := rsz + 1\<rparr>))"

section \<open>Leaves as sorted lists\<close>

abbreviation entries_of :: "LeafPage \<Rightarrow> (int \<times> RID) list" where
  "entries_of l \<equiv> items (leaf_array l) (tp_size l)"

abbreviation children_of :: "InternalPage \<Rightarrow> (int \<times> page_id) list" where
  "children_of p \<equiv> items (child_array p) (tp_size p)"

abbreviation keys_sorted :: "(int \<times> 'v) list \<Rightarrow> bool" where
  "keys_sorted kvs \<equiv> sorted_wrt (<) (map fst kvs)"

text \<open>The list specification: a sorted association list.\<close>

fun ins_sorted :: "int \<Rightarrow> 'v \<Rightarrow> (int \<times> 'v) list \<Rightarrow> (int \<times> 'v) list" where
  "ins_sorted k v [] = [(k, v)]"
| "ins_sorted k v ((k', v') # kvs) =
     (if k < k' then (k, v) # (k', v') # kvs else if k = k' then (k', v') # kvs
      else (k', v') # ins_sorted k v kvs)"

text \<open>The binary search returns the number of smaller keys.\<close>

lemma bisect_ok:
  assumes "\<And>i j. i < j \<Longrightarrow> j < n \<Longrightarrow> fst (a i) < fst (a j)" and "r \<le> n" and "l \<le> r"
    and "\<And>i. i < l \<Longrightarrow> fst (a i) < key" and "\<And>i. r \<le> i \<Longrightarrow> i < n \<Longrightarrow> key \<le> fst (a i)"
  shows "bisect a key l r \<le> n \<and> (\<forall>i < bisect a key l r. fst (a i) < key) \<and>
    (\<forall>i. bisect a key l r \<le> i \<longrightarrow> i < n \<longrightarrow> key \<le> fst (a i))"
  using assms(2-5)
proof (induction "r - l" arbitrary: l r rule: less_induct)
  case less
  have mono: "fst (a i) \<le> fst (a j)" if "i \<le> j" "j < n" for i j
    using assms(1) [of i j] that by (cases "i = j") auto
  show ?case
  proof (cases "l < r")
    case False
    then have "bisect a key l r = l" "l = r" using less.prems(2) by (simp_all add: bisect.simps)
    then show ?thesis using less.prems by simp
  next
    case True
    define mid where "mid = l + (r - l) div 2"
    have mid: "l \<le> mid" "mid < r" using True by (auto simp: mid_def)
    show ?thesis
    proof (cases "fst (a mid) < key")
      case lt: True
      have low: "fst (a i) < key" if "i < mid + 1" for i
        using mono [of i mid] that lt mid less.prems(1) by simp
      have eq: "bisect a key l r = bisect a key (mid + 1) r"
        using True lt by (subst bisect.simps) (simp add: mid_def Let_def)
      show ?thesis unfolding eq
        by (rule less.hyps [OF _ less.prems(1) _ low less.prems(4)]) (use mid in auto)
    next
      case geq: False
      have high: "key \<le> fst (a i)" if "mid \<le> i" "i < n" for i
        using mono [of mid i] that geq by simp
      have eq: "bisect a key l r = bisect a key l mid"
        using True geq by (subst bisect.simps) (simp add: mid_def Let_def)
      show ?thesis unfolding eq
        by (rule less.hyps [OF _ _ mid(1) less.prems(3) high]) (use mid less.prems(1) in auto)
    qed
  qed
qed

lemma sorted_entries:
  "keys_sorted (items a n) \<Longrightarrow> i < j \<Longrightarrow> j < n \<Longrightarrow> fst (a i) < fst (a j)"
  by (simp add: sorted_wrt_iff_nth_less)

lemma KeyIndex_ok:
  assumes "keys_sorted (entries_of l)"
  shows "leaf_KeyIndex l key \<le> tp_size l" and "i < leaf_KeyIndex l key \<Longrightarrow> fst (leaf_array l i) < key"
    and "leaf_KeyIndex l key \<le> i \<Longrightarrow> i < tp_size l \<Longrightarrow> key \<le> fst (leaf_array l i)"
  using bisect_ok [where a = "leaf_array l" and n = "tp_size l" and r = "tp_size l" and l = 0 and key = key]
    sorted_entries [OF assms] by (auto simp: leaf_KeyIndex_def)

text \<open>Splitting a sorted list at the first key that is not smaller.\<close>

lemma split_sorted:
  assumes "keys_sorted (xs @ ys)" and "\<forall>kv \<in> set xs. fst kv < key" and "\<forall>kv \<in> set ys. key \<le> fst kv"
  shows "map_of (xs @ ys) key = (case ys of [] \<Rightarrow> None | kv # _ \<Rightarrow> if fst kv = key then Some (snd kv) else None)"
    and "ins_sorted key v (xs @ ys) =
      (case ys of kv # _ \<Rightarrow> if fst kv = key then xs @ ys else xs @ (key, v) # ys | [] \<Rightarrow> xs @ [(key, v)])"
    and "filter (\<lambda>kv. fst kv \<noteq> key) (xs @ ys) =
      (case ys of kv # ys' \<Rightarrow> if fst kv = key then xs @ ys' else xs @ ys | [] \<Rightarrow> xs)"
proof -
  have later: "key < fst kv" if "ys = kv0 # ys'" "kv \<in> set ys'" for kv0 ys' kv
    using assms(1,3) that by (fastforce simp: sorted_wrt_append)
  have xs: "map_of xs key = None" using assms(2) by (auto simp: map_of_eq_None_iff)
  show "map_of (xs @ ys) key = (case ys of [] \<Rightarrow> None | kv # _ \<Rightarrow> if fst kv = key then Some (snd kv) else None)"
  proof (cases ys)
    case (Cons kv ys')
    then have "map_of ys' key = None" using later by (fastforce simp: map_of_eq_None_iff)
    then show ?thesis using xs Cons by (cases kv) (auto simp: map_add_def split: option.splits)
  qed (simp add: xs)
  have end_: "ins_sorted key v ys = (case ys of kv # _ \<Rightarrow> if fst kv = key then ys else (key, v) # ys | [] \<Rightarrow> [(key, v)])"
    using assms(3) by (cases ys) auto
  have "ins_sorted key v (xs @ ys) = xs @ ins_sorted key v ys"
    using assms(2) by (induction xs) auto
  then show "ins_sorted key v (xs @ ys) =
      (case ys of kv # _ \<Rightarrow> if fst kv = key then xs @ ys else xs @ (key, v) # ys | [] \<Rightarrow> xs @ [(key, v)])"
    unfolding end_ by (cases ys) auto
  have "filter (\<lambda>kv. fst kv \<noteq> key) xs = xs" using assms(2) by (induction xs) auto
  moreover have "filter (\<lambda>kv. fst kv \<noteq> key) ys' = ys'" if "ys = kv0 # ys'" for kv0 ys'
    using later [OF that] by (auto simp: filter_id_conv)
  ultimately show "filter (\<lambda>kv. fst kv \<noteq> key) (xs @ ys) =
      (case ys of kv # ys' \<Rightarrow> if fst kv = key then xs @ ys' else xs @ ys | [] \<Rightarrow> xs)"
    by (cases ys) auto
qed

lemma locate:
  fixes key :: int
  assumes "keys_sorted (entries_of l)"
  obtains xs ys where "entries_of l = xs @ ys" and "leaf_KeyIndex l key = length xs"
    and "tp_size l = length xs + length ys" and "\<forall>kv \<in> set xs. fst kv < key" and "\<forall>kv \<in> set ys. key \<le> fst kv"
    and "ys \<noteq> [] \<longrightarrow> leaf_array l (length xs) = hd ys"
proof -
  let ?i = "leaf_KeyIndex l key"
  note k = KeyIndex_ok [OF assms, where key = key]
  show thesis
  proof (rule that [of "take ?i (entries_of l)" "drop ?i (entries_of l)"])
    show "\<forall>kv \<in> set (take ?i (entries_of l)). fst kv < key"
      using k(1,2) by (fastforce simp: in_set_conv_nth)
    show "\<forall>kv \<in> set (drop ?i (entries_of l)). key \<le> fst kv"
    proof
      fix kv assume "kv \<in> set (drop ?i (entries_of l))"
      then obtain j where "j < tp_size l - ?i" "kv = leaf_array l (?i + j)" by (auto simp: in_set_conv_nth)
      then show "key \<le> fst kv" using k(3) [of "?i + j"] by simp
    qed
    show "drop ?i (entries_of l) \<noteq> [] \<longrightarrow> leaf_array l (length (take ?i (entries_of l))) = hd (drop ?i (entries_of l))"
      using k(1) by (simp add: hd_drop_conv_nth)
  qed (use k(1) in simp_all)
qed

section \<open>What the leaf operations do\<close>

lemma leaf_Lookup_ok:
  assumes "keys_sorted (entries_of l)"
  shows "leaf_Lookup l key = map_of (entries_of l) key"
proof -
  from locate [OF assms, where key = key] obtain xs ys where
    e: "entries_of l = xs @ ys" "leaf_KeyIndex l key = length xs" "tp_size l = length xs + length ys"
    "\<forall>kv \<in> set xs. fst kv < key" "\<forall>kv \<in> set ys. key \<le> fst kv" "ys \<noteq> [] \<longrightarrow> leaf_array l (length xs) = hd ys" .
  have "keys_sorted (xs @ ys)" using assms e(1) by simp
  note m = split_sorted(1) [OF this e(4,5)]
  show ?thesis
    unfolding e(1) m unfolding leaf_Lookup_def e(2,3) using e(5,6) by (cases ys) (auto simp: Let_def)
qed

lemma leaf_Insert_ok:
  assumes "keys_sorted (entries_of l)"
  shows "entries_of (snd (leaf_Insert key v l)) = ins_sorted key v (entries_of l)"
    and "fst (leaf_Insert key v l) = tp_size (snd (leaf_Insert key v l))"
    and "fst (leaf_Insert key v l) = tp_size l \<longleftrightarrow> map_of (entries_of l) key \<noteq> None"
    and "fst (leaf_Insert key v l) \<le> tp_size l + 1"
proof -
  from locate [OF assms, where key = key] obtain xs ys where
    e: "entries_of l = xs @ ys" "leaf_KeyIndex l key = length xs" "tp_size l = length xs + length ys"
    "\<forall>kv \<in> set xs. fst kv < key" "\<forall>kv \<in> set ys. key \<le> fst kv" "ys \<noteq> [] \<longrightarrow> leaf_array l (length xs) = hd ys" .
  have srt: "keys_sorted (xs @ ys)" using assms e(1) by simp
  note m = split_sorted(1) [OF srt e(4,5)] split_sorted(2) [OF srt e(4,5), of v]
  have dup: "(length xs < tp_size l \<and> \<not> fst (leaf_array l (length xs)) < key \<and> \<not> key < fst (leaf_array l (length xs))) \<longleftrightarrow>
      map_of (entries_of l) key \<noteq> None"
    unfolding e(1) m(1) unfolding e(3) using e(5,6) by (cases ys) auto
  show "fst (leaf_Insert key v l) = tp_size (snd (leaf_Insert key v l))" "fst (leaf_Insert key v l) \<le> tp_size l + 1"
    by (simp_all add: leaf_Insert_def Let_def)
  show "fst (leaf_Insert key v l) = tp_size l \<longleftrightarrow> map_of (entries_of l) key \<noteq> None"
    unfolding dup [symmetric] by (simp add: leaf_Insert_def Let_def e(2))
  show "entries_of (snd (leaf_Insert key v l)) = ins_sorted key v (entries_of l)"
  proof (cases "map_of (entries_of l) key \<noteq> None")
    case True
    then have "snd (leaf_Insert key v l) = l" using dup by (simp add: leaf_Insert_def Let_def e(2))
    moreover have "ins_sorted key v (xs @ ys) = xs @ ys"
      using True unfolding e(1) m by (cases ys) (auto split: if_splits)
    ultimately show ?thesis using e(1) by simp
  next
    case False
    have "length xs \<le> tp_size l" using e(3) by simp
    from items_insert [OF this, of "leaf_array l" "(key, v)"] have
      "entries_of (snd (leaf_Insert key v l)) = xs @ (key, v) # ys"
      using False dup e(1) by (simp add: leaf_Insert_def Let_def e(2) insert_at_def)
    moreover have "ins_sorted key v (xs @ ys) = xs @ (key, v) # ys"
      using False unfolding e(1) m by (cases ys) (auto split: if_splits)
    ultimately show ?thesis using e(1) by simp
  qed
qed

lemma leaf_Remove_ok:
  assumes "keys_sorted (entries_of l)"
  shows "entries_of (snd (leaf_Remove key l)) = filter (\<lambda>kv. fst kv \<noteq> key) (entries_of l)"
    and "fst (leaf_Remove key l) = tp_size (snd (leaf_Remove key l))"
    and "fst (leaf_Remove key l) = tp_size l \<longleftrightarrow> map_of (entries_of l) key = None"
proof -
  from locate [OF assms, where key = key] obtain xs ys where
    e: "entries_of l = xs @ ys" "leaf_KeyIndex l key = length xs" "tp_size l = length xs + length ys"
    "\<forall>kv \<in> set xs. fst kv < key" "\<forall>kv \<in> set ys. key \<le> fst kv" "ys \<noteq> [] \<longrightarrow> leaf_array l (length xs) = hd ys" .
  have srt: "keys_sorted (xs @ ys)" using assms e(1) by simp
  note m = split_sorted(1) [OF srt e(4,5)] split_sorted(3) [OF srt e(4,5)]
  show "fst (leaf_Remove key l) = tp_size (snd (leaf_Remove key l))"
    by (simp add: leaf_Remove_def Let_def)
  show "fst (leaf_Remove key l) = tp_size l \<longleftrightarrow> map_of (entries_of l) key = None"
    unfolding e(1) m(1) using e(2,3,5,6) by (cases ys) (auto simp: leaf_Remove_def Let_def)
  show "entries_of (snd (leaf_Remove key l)) = filter (\<lambda>kv. fst kv \<noteq> key) (entries_of l)"
  proof (cases ys)
    case Nil
    then show ?thesis unfolding e(1) m(2) using e(1-3) by (simp add: leaf_Remove_def Let_def)
  next
    case (Cons kv ys')
    have "length xs < tp_size l" using e(3) Cons by simp
    from items_remove [OF this, of "leaf_array l"] e(1) Cons have
      rm: "items (shift_down (length xs) (tp_size l) (leaf_array l)) (tp_size l - 1) = xs @ ys'" by (simp add: remove_at_def)
    show ?thesis unfolding e(1) m(2) using e(1-3,5,6) Cons rm by (auto simp: leaf_Remove_def Let_def)
  qed
qed

section \<open>What the moves between pages do\<close>

lemma items_Cons: "items a (Suc n) = a 0 # items (\<lambda>i. a (Suc i)) n"
  unfolding items_def by (simp add: upt_conv_Cons del: upt_Suc) (simp add: map_Suc_upt [symmetric] del: upt_Suc)

lemma items_drop: "k \<le> n \<Longrightarrow> map a [k..<n] = drop k (items a n)"
  by (simp add: items_def drop_map)

lemma leaf_MoveHalfTo_ok:
  assumes "leaf_MoveHalfTo l r = (l', r')"
  shows "entries_of l' = take (tp_size l div 2) (entries_of l)" and "entries_of r' = drop (tp_size l div 2) (entries_of l)"
    and "tp_max l' = tp_max l" and "tp_max r' = tp_max r" and "tp_parent l' = tp_parent l" and "tp_parent r' = tp_parent r"
    and "next_leaf l' = next_leaf l"
  using assms items_copy_append [of "tp_size l - tp_size l div 2" "leaf_array l" "tp_size l div 2" "leaf_array r" 0]
  by (auto simp: leaf_MoveHalfTo_def Let_def take_items items_drop) (simp add: items_def)

lemma leaf_MoveAllTo_ok:
  assumes "leaf_MoveAllTo l r = (l', r')"
  shows "entries_of r' = entries_of r @ entries_of l" and "tp_max r' = tp_max r" and "tp_parent r' = tp_parent r"
    and "next_leaf r' = next_leaf l" and "tp_size l' = 0"
  using assms items_copy_append [of "tp_size l" "leaf_array l" 0 "leaf_array r" "tp_size r"]
  by (auto simp: leaf_MoveAllTo_def Let_def items_def [of "leaf_array l"])

lemma leaf_MoveFirstToEndOf_ok:
  assumes "0 < tp_size l"
  obtains l' r' where "leaf_MoveFirstToEndOf l r = Inr (l', r')" and "entries_of l' = tl (entries_of l)"
    and "entries_of r' = entries_of r @ [hd (entries_of l)]" and "tp_max l' = tp_max l" and "tp_max r' = tp_max r"
    and "tp_parent l' = tp_parent l" and "tp_parent r' = tp_parent r" and "next_leaf l' = next_leaf l" and "next_leaf r' = next_leaf r"
proof -
  have "hd (entries_of l) = leaf_array l 0" using assms by (subst hd_conv_nth) (auto simp: items_def)
  moreover have "remove_at 0 (entries_of l) = tl (entries_of l)" by (simp add: remove_at_def drop_Suc)
  ultimately show thesis
    using that assms items_remove [OF assms, of "leaf_array l"] by (simp add: leaf_MoveFirstToEndOf_def Let_def items_Suc)
qed

lemma leaf_MoveLastToFrontOf_ok:
  assumes "0 < tp_size l"
  obtains l' r' where "leaf_MoveLastToFrontOf l r = Inr (l', r')" and "entries_of l' = butlast (entries_of l)"
    and "entries_of r' = last (entries_of l) # entries_of r" and "tp_max l' = tp_max l" and "tp_max r' = tp_max r"
    and "tp_parent l' = tp_parent l" and "tp_parent r' = tp_parent r" and "next_leaf l' = next_leaf l" and "next_leaf r' = next_leaf r"
proof -
  have "last (entries_of l) = leaf_array l (tp_size l - 1)" using assms by (subst last_conv_nth) (auto simp: items_def)
  moreover have "items (leaf_array l) (tp_size l - 1) = butlast (entries_of l)" by (simp add: butlast_conv_take take_items)
  ultimately show thesis
    using that assms items_insert [of 0 "tp_size r" "leaf_array r" "leaf_array l (tp_size l - 1)"]
    by (simp add: leaf_MoveLastToFrontOf_def Let_def insert_at_def)
qed

text \<open>Internal pages.\<close>

lemma value_index_ok:
  "distinct (map (snd \<circ> a) is) \<Longrightarrow> i \<in> set is \<Longrightarrow> value_index a (snd (a i)) is = int i"
  by (induction "is") (auto simp: rev_image_eqI)

lemma int_ValueIndex_ok:
  assumes "distinct (map snd (children_of p))" and "i < tp_size p" and "snd (children_of p ! i) = v"
  shows "int_ValueIndex p v = int i"
  using value_index_ok [of "child_array p" "[0..<tp_size p]" i] assms
  by (simp add: int_ValueIndex_def items_def comp_def)

lemma int_InsertNodeAfter_ok:
  assumes "distinct (map snd (children_of p))" and "i < tp_size p" and "snd (children_of p ! i) = v"
  obtains p' where "int_InsertNodeAfter v k w p = Inr p'" and "children_of p' = insert_at (Suc i) (k, w) (children_of p)"
    and "tp_max p' = tp_max p" and "tp_parent p' = tp_parent p" and "tp_size p' = Suc (tp_size p)"
  using int_ValueIndex_ok [OF assms] items_insert [of "Suc i" "tp_size p" "child_array p" "(k, w)"] assms(2) that
  by (simp add: int_InsertNodeAfter_def Let_def nat_add_distrib)

lemma int_Remove_ok:
  assumes "i < tp_size p"
  obtains p' where "int_Remove i p = Inr p'" and "children_of p' = remove_at i (children_of p)"
    and "tp_max p' = tp_max p" and "tp_parent p' = tp_parent p" and "tp_size p' = tp_size p - 1"
  using items_remove [OF assms, of "child_array p"] assms that by (simp add: int_Remove_def Let_def)

lemma int_SetKeyAt_ok:
  "i < tp_size p \<Longrightarrow> children_of (int_SetKeyAt i k p) = (children_of p)[i := (k, snd (children_of p ! i))]"
  by (rule nth_equalityI) (auto simp: int_SetKeyAt_def nth_list_update)

lemma int_MoveAllTo_ok:
  assumes "int_MoveAllTo p r mid = (p', r')" and "children_of p = (k0, c0) # cs"
  shows "children_of r' = children_of r @ (mid, c0) # cs" and "tp_max r' = tp_max r" and "tp_parent r' = tp_parent r"
proof -
  obtain n where n: "tp_size p = Suc n" using arg_cong [OF assms(2), of length] by simp
  have hd: "snd (child_array p 0) = c0" "map (child_array p) [Suc 0..<Suc n] = cs"
    using assms(2) unfolding n items_def by (simp_all add: upt_conv_Cons del: upt_Suc)
  show "tp_max r' = tp_max r" "tp_parent r' = tp_parent r" using assms(1) n by (auto simp: int_MoveAllTo_def Let_def)
  show "children_of r' = children_of r @ (mid, c0) # cs"
    using assms(1) n hd items_copy_append [of n "child_array p" 1 "(child_array r)(tp_size r := (mid, c0))" "Suc (tp_size r)"]
    by (auto simp: int_MoveAllTo_def Let_def int_ValueAt_def items_Suc)
qed

lemma int_MoveHalfTo_ok:
  assumes "int_MoveHalfTo p r mid = (p', r')" and "2 \<le> tp_size p"
  shows "children_of p' = take (tp_size p div 2) (children_of p)"
    and "children_of r' = (mid, snd (children_of p ! (tp_size p div 2))) # drop (Suc (tp_size p div 2)) (children_of p)"
    and "tp_max p' = tp_max p" and "tp_max r' = tp_max r" and "tp_parent p' = tp_parent p" and "tp_parent r' = tp_parent r"
proof -
  let ?s = "tp_size p div 2"
  have s: "?s < tp_size p" using assms(2) by simp
  show "children_of p' = take ?s (children_of p)" "tp_max p' = tp_max p" "tp_max r' = tp_max r"
    "tp_parent p' = tp_parent p" "tp_parent r' = tp_parent r"
    using assms by (auto simp: int_MoveHalfTo_def Let_def take_items)
  have "items (copy_items (tp_size p - ?s - 1) (child_array p) (?s + 1) ((child_array r)(0 := (mid, snd (child_array p ?s)))) 1)
      (1 + (tp_size p - ?s - 1)) = (mid, snd (child_array p ?s)) # map (child_array p) [Suc ?s..<tp_size p]"
    using s by (subst items_copy_append) (simp add: items_def)
  moreover have "1 + (tp_size p - ?s - 1) = tp_size p - ?s" using s by simp
  ultimately show "children_of r' = (mid, snd (children_of p ! ?s)) # drop (Suc ?s) (children_of p)"
    using assms s by (auto simp: int_MoveHalfTo_def Let_def int_ValueAt_def items_drop)
qed

lemma int_MoveFirstToEndOf_ok:
  assumes "children_of p = (k0, c0) # (k1, c1) # cs"
  obtains p' r' where "int_MoveFirstToEndOf p r mid = Inr (p', r')" and "children_of p' = (k0, c1) # cs"
    and "children_of r' = children_of r @ [(mid, c0)]" and "tp_max p' = tp_max p" and "tp_max r' = tp_max r"
    and "tp_parent p' = tp_parent p" and "tp_parent r' = tp_parent r"
proof -
  obtain n where n: "tp_size p = Suc (Suc n)" using arg_cong [OF assms, of length] by auto
  have e: "child_array p 0 = (k0, c0)" "child_array p 1 = (k1, c1)"
    using arg_cong [OF assms, of "\<lambda>xs. xs ! 0"] arg_cong [OF assms, of "\<lambda>xs. xs ! 1"] by (simp_all add: n)
  let ?a = "(child_array p)(0 := (k0, c1))"
  have a: "items ?a (tp_size p) = (k0, c1) # (k1, c1) # cs"
    using assms unfolding n by (simp add: items_Cons e)
  have "items (shift_down 1 (tp_size p) ?a) (tp_size p - 1) = remove_at 1 (items ?a (tp_size p))"
    using n by (intro items_remove) simp
  then have rm: "items (shift_down (Suc 0) (Suc (Suc n)) ?a) (Suc n) = (k0, c1) # cs"
    unfolding a unfolding n by (simp add: remove_at_def)
  define p' where "p' = p\<lparr>child_array := shift_down (Suc 0) (Suc (Suc n)) ?a, tp_size := Suc n\<rparr>"
  define r' where "r' = r\<lparr>child_array := (child_array r)(tp_size r := (mid, c0)), tp_size := tp_size r + 1\<rparr>"
  show thesis
  proof (rule that [of p' r'])
    show "int_MoveFirstToEndOf p r mid = Inr (p', r')"
      using e by (simp add: int_MoveFirstToEndOf_def Let_def n int_ValueAt_def p'_def r'_def)
    show "children_of p' = (k0, c1) # cs" using rm by (simp add: p'_def)
    show "children_of r' = children_of r @ [(mid, c0)]" by (simp add: r'_def items_Suc)
  qed (simp_all add: p'_def r'_def)
qed

lemma int_MoveLastToFrontOf_ok:
  assumes "children_of r = (k0, c0) # cs" and "children_of p \<noteq> []"
  obtains p' r' where "int_MoveLastToFrontOf p r mid = Inr (p', r')" and "children_of p' = butlast (children_of p)"
    and "children_of r' = (k0, snd (last (children_of p))) # (mid, c0) # cs" and "tp_max p' = tp_max p" and "tp_max r' = tp_max r"
    and "tp_parent p' = tp_parent p" and "tp_parent r' = tp_parent r"
proof -
  have pos: "0 < tp_size p" using assms(2) by (simp add: items_def)
  obtain n where n: "tp_size r = Suc n" using arg_cong [OF assms(1), of length] by auto
  have e: "child_array r 0 = (k0, c0)" using arg_cong [OF assms(1), of "\<lambda>xs. xs ! 0"] by (simp add: n)
  have last: "last (children_of p) = child_array p (tp_size p - 1)" using pos by (subst last_conv_nth) (auto simp: items_def)
  have cs: "cs = items (\<lambda>i. child_array r (Suc i)) n" using assms(1) by (simp add: n items_Cons e)
  let ?a = "\<lambda>x. ((shift_up (Suc (Suc n)) 0 (child_array r))(0 := (k0, x), Suc 0 := (mid, c0)))"
  have "items (?a x) (Suc (Suc n)) = (k0, x) # (mid, c0) # cs" for x
    unfolding items_Cons cs by (auto simp: items_def shift_up_nth) (rule arg_cong [where f = "child_array r"], arith)
  then show thesis
    using that pos by (simp add: int_MoveLastToFrontOf_def Let_def n e int_ValueAt_def last butlast_conv_take take_items shift_up_nth)
qed

lemma int_PopulateNewRoot_ok:
  "children_of (int_PopulateNewRoot v k w p) = [(fst (child_array p 0), v), (k, w)]"
  "tp_max (int_PopulateNewRoot v k w p) = tp_max p" "tp_parent (int_PopulateNewRoot v k w p) = tp_parent p"
  "tp_size (int_PopulateNewRoot v k w p) = 2"
  by (simp_all add: int_PopulateNewRoot_def int_SetValueAt_def int_SetKeyAt_def items_def numeral_2_eq_2)

text \<open>Routing: the last child whose key is not larger, the first child when there is none.\<close>

fun route_list :: "int \<Rightarrow> page_id \<Rightarrow> (int \<times> page_id) list \<Rightarrow> page_id" where
  "route_list key c [] = c"
| "route_list key c ((k, c') # cs) = (if key < k then c else route_list key c' cs)"

lemma route_route_list: "route a key is c = route_list key c (map a is)"
proof (induction "is" arbitrary: c)
  case (Cons i "is")
  then show ?case by (cases "a i") simp
qed simp

lemma int_Lookup_ok: "children_of p = (k0, c0) # cs \<Longrightarrow> int_Lookup p key = route_list key c0 cs"
  by (cases "tp_size p") (auto simp: int_Lookup_def route_route_list items_def upt_conv_Cons simp del: upt_Suc)

end
