(* ===== verification/BPlus_Tree.thy ===== *)
theory BPlus_Tree
  imports BPlus_Pages Page_Store
begin

text \<open>
  The B+ tree (\<open>src/storage/index/b_plus_tree.cpp\<close>) and its iterator
  (\<open>b_plus_tree_iterator.cpp\<close>) over the page store that the buffer pool implements. The bytes of
  an index page are viewed as the struct the code casts them to (\<open>node\<close>); a cast of a leaf to an
  internal page or back, a write of more entries than fit behind the header of a page, a null
  dereference and a page that is moved into itself are \<open>UndefinedBehaviour\<close>. Every fetch,
  allocation, write through a page pointer, unpin and deletion of the code is a step on the store,
  in the order of the code. A loop is a \<open>partial_function\<close>: \<open>None\<close> is a loop that does
  not end.
\<close>

section \<open>Nodes in the buffer pool\<close>

datatype node = Leaf LeafPage | Internal InternalPage

text \<open>
  \<open>IsLeafPage\<close> tells leaves from everything else, so a zeroed page, whose type field is
  \<open>INVALID_INDEX_PAGE\<close>, reads as an internal page with no entries.
\<close>

definition zero_node :: node where
  "zero_node = Internal \<lparr>tp_size = 0, tp_max = 0, tp_parent = 0, child_array = (\<lambda>_. (0, 0))\<rparr>"

definition zero_leaf_array :: "nat \<Rightarrow> int \<times> RID" where
  "zero_leaf_array = (\<lambda>_. (0, RID 0 0))"

definition zero_child_array :: "nat \<Rightarrow> int \<times> page_id" where
  "zero_child_array = (\<lambda>_. (0, 0))"

fun IsLeafPage :: "node \<Rightarrow> bool" where
  "IsLeafPage (Leaf _) = True"
| "IsLeafPage (Internal _) = False"

fun GetParentPageId :: "node \<Rightarrow> page_id" where
  "GetParentPageId (Leaf l) = tp_parent l"
| "GetParentPageId (Internal n) = tp_parent n"

fun SetParentPageId :: "page_id \<Rightarrow> node \<Rightarrow> node" where
  "SetParentPageId p (Leaf l) = Leaf (l\<lparr>tp_parent := p\<rparr>)"
| "SetParentPageId p (Internal n) = Internal (n\<lparr>tp_parent := p\<rparr>)"

text \<open>A leaf has a header of 20 bytes and entries of 12, an internal page 16 and 8.\<close>

fun node_fits :: "node \<Rightarrow> bool" where
  "node_fits (Leaf l) \<longleftrightarrow> 20 + 12 * tp_size l \<le> PAGE_SIZE"
| "node_fits (Internal n) \<longleftrightarrow> 16 + 8 * tp_size n \<le> PAGE_SIZE"

record BPlusTree =
  root_page_id :: page_id
  leaf_max_size :: nat
  internal_max_size :: nat
  bpm :: "node page_store"

definition BPlusTree_init :: "nat \<Rightarrow> nat \<Rightarrow> node page_store \<Rightarrow> BPlusTree" where
  "BPlusTree_init lm im s =
     \<lparr>root_page_id = INVALID_PAGE_ID,
      leaf_max_size = (if lm = 0 then (PAGE_SIZE - 16 - 4) div (4 + 8) else lm),
      internal_max_size = (if im = 0 then (PAGE_SIZE - 16) div (4 + 4) else im),
      bpm = s\<rparr>"

definition IsEmpty :: "BPlusTree \<Rightarrow> bool" where
  "IsEmpty t \<longleftrightarrow> root_page_id t = INVALID_PAGE_ID"

text \<open>The calls on the pool; \<open>e\<close> is what a null result leads to.\<close>

definition get_page :: "error \<Rightarrow> page_id \<Rightarrow> BPlusTree \<Rightarrow> (node, BPlusTree) outcome" where
  "get_page e p t =
     (case ps_fetch p (bpm t) of
        (Inl x, s) \<Rightarrow> (Inl x, t\<lparr>bpm := s\<rparr>)
      | (Inr None, s) \<Rightarrow> (Inl e, t\<lparr>bpm := s\<rparr>)
      | (Inr (Some n), s) \<Rightarrow> (Inr n, t\<lparr>bpm := s\<rparr>))"

definition new_page :: "error \<Rightarrow> BPlusTree \<Rightarrow> (page_id, BPlusTree) outcome" where
  "new_page e t =
     (case ps_new zero_node (bpm t) of
        (Inl x, s) \<Rightarrow> (Inl x, t\<lparr>bpm := s\<rparr>)
      | (Inr None, s) \<Rightarrow> (Inl e, t\<lparr>bpm := s\<rparr>)
      | (Inr (Some p), s) \<Rightarrow> (Inr p, t\<lparr>bpm := s\<rparr>))"

definition put_page :: "page_id \<Rightarrow> node \<Rightarrow> BPlusTree \<Rightarrow> (unit, BPlusTree) outcome" where
  "put_page p n t =
     (if node_fits n then (case ps_write p n (bpm t) of (r, s) \<Rightarrow> (r, t\<lparr>bpm := s\<rparr>))
      else (Inl UndefinedBehaviour, t))"

definition unpin :: "page_id \<Rightarrow> bool \<Rightarrow> BPlusTree \<Rightarrow> BPlusTree" where
  "unpin p dirty t = t\<lparr>bpm := snd (ps_unpin p dirty (bpm t))\<rparr>"

definition delete_page :: "page_id \<Rightarrow> BPlusTree \<Rightarrow> BPlusTree" where
  "delete_page p t = t\<lparr>bpm := snd (ps_delete p (bpm t))\<rparr>"

text \<open>Reading through the pointer to a page that is pinned.\<close>

definition leaf_at :: "page_id \<Rightarrow> BPlusTree \<Rightarrow> (LeafPage, BPlusTree) outcome" where
  "leaf_at p t = (case content (bpm t) p of Some (Leaf l) \<Rightarrow> (Inr l, t) | _ \<Rightarrow> (Inl UndefinedBehaviour, t))"

definition internal_at :: "page_id \<Rightarrow> BPlusTree \<Rightarrow> (InternalPage, BPlusTree) outcome" where
  "internal_at p t = (case content (bpm t) p of Some (Internal n) \<Rightarrow> (Inr n, t) | _ \<Rightarrow> (Inl UndefinedBehaviour, t))"

definition lift_err :: "error + 'a \<Rightarrow> BPlusTree \<Rightarrow> ('a, BPlusTree) outcome" where
  "lift_err r t = (r, t)"

text \<open>A method that changes the page it is called on and the page it is given.\<close>

definition put_pages :: "page_id \<Rightarrow> node \<Rightarrow> page_id \<Rightarrow> node \<Rightarrow> BPlusTree \<Rightarrow> (unit, BPlusTree) outcome" where
  "put_pages p n q m t =
     (if p = q then (Inl UndefinedBehaviour, t)
      else bind_out (put_page p n t) (\<lambda>_ t. put_page q m t))"

section \<open>Searching\<close>

text \<open>
  The descent that \<open>GetValue\<close>, both \<open>Begin\<close>s, \<open>Insert\<close> and \<open>Remove\<close> share: it stops
  at a leaf, which it leaves pinned.
\<close>

partial_function (option) descend ::
  "error \<Rightarrow> (InternalPage \<Rightarrow> page_id) \<Rightarrow> page_id \<Rightarrow> BPlusTree \<Rightarrow> (page_id \<times> LeafPage, BPlusTree) outcome option" where
  [code]: "descend e pick cur t =
     (case get_page e cur t of
        (Inl x, t) \<Rightarrow> Some (Inl x, t)
      | (Inr (Leaf l), t) \<Rightarrow> Some (Inr (cur, l), t)
      | (Inr (Internal n), t) \<Rightarrow> descend e pick (pick n) (unpin cur False t))"

definition GetValue :: "int \<Rightarrow> BPlusTree \<Rightarrow> (RID option, BPlusTree) outcome option" where
  "GetValue key t =
     (if IsEmpty t then Some (Inr None, t)
      else and_then (descend (RuntimeError ''GetValue: FetchPage failed'') (\<lambda>n. int_Lookup n key) (root_page_id t) t)
        (\<lambda>(cur, l) t. Some (Inr (leaf_Lookup l key), unpin cur False t)))"

text \<open>An iterator is a leaf and an index in it.\<close>

datatype Iterator = Iterator page_id nat

definition tree_End :: Iterator where
  "tree_End = Iterator INVALID_PAGE_ID 0"

definition tree_Begin :: "BPlusTree \<Rightarrow> (Iterator, BPlusTree) outcome option" where
  "tree_Begin t =
     (if IsEmpty t then Some (Inr tree_End, t)
      else and_then (descend (RuntimeError ''Begin: FetchPage failed'') (\<lambda>n. int_ValueAt n 0) (root_page_id t) t)
        (\<lambda>(cur, l) t. Some (Inr (Iterator cur 0), unpin cur False t)))"

definition tree_Begin_key :: "int \<Rightarrow> BPlusTree \<Rightarrow> (Iterator, BPlusTree) outcome option" where
  "tree_Begin_key key t =
     (if IsEmpty t then Some (Inr tree_End, t)
      else and_then (descend (RuntimeError ''Begin(key): FetchPage failed'') (\<lambda>n. int_Lookup n key) (root_page_id t) t)
        (\<lambda>(cur, l) t.
           let idx = leaf_KeyIndex l key in
           if idx \<ge> tp_size l then
             let nxt = next_leaf l; t' = unpin cur False t in
             Some (Inr (if nxt = INVALID_PAGE_ID then tree_End else Iterator nxt 0), t')
           else Some (Inr (Iterator cur idx), unpin cur False t)))"

fun IsEnd :: "Iterator \<Rightarrow> bool" where
  "IsEnd (Iterator p i) \<longleftrightarrow> p = INVALID_PAGE_ID"

fun iter_deref :: "Iterator \<Rightarrow> BPlusTree \<Rightarrow> (int \<times> RID, BPlusTree) outcome" where
  "iter_deref (Iterator p i) t =
     (if IsEnd (Iterator p i) then (Inl (OutOfRange ''BPlusTreeIterator::operator*: dereference end iterator''), t)
      else bind_out (get_page (RuntimeError ''BPlusTreeIterator::operator*: FetchPage failed'') p t) (\<lambda>n t.
        bind_out (leaf_at p t) (\<lambda>l t.
          if i \<ge> tp_size l then
            (Inl (OutOfRange ''BPlusTreeIterator::operator*: index out of range''), unpin p False t)
          else (Inr (leaf_KeyAt l i, leaf_ValueAt l i), unpin p False t))))"

fun iter_next :: "Iterator \<Rightarrow> BPlusTree \<Rightarrow> (Iterator, BPlusTree) outcome" where
  "iter_next (Iterator p i) t =
     (if IsEnd (Iterator p i) then (Inr (Iterator p i), t)
      else bind_out (get_page (RuntimeError ''BPlusTreeIterator::operator++: FetchPage failed'') p t) (\<lambda>n t.
        bind_out (leaf_at p t) (\<lambda>l t.
          if i + 1 \<ge> tp_size l then
            let nxt = next_leaf l; t' = unpin p False t in
            (Inr (if nxt = INVALID_PAGE_ID then Iterator INVALID_PAGE_ID 0 else Iterator nxt 0), t')
          else (Inr (Iterator p (i + 1)), unpin p False t))))"

text \<open>A client that walks the tree with an iterator and collects what it points at.\<close>

partial_function (option) walk :: "Iterator \<Rightarrow> BPlusTree \<Rightarrow> ((int \<times> RID) list, BPlusTree) outcome option" where
  [code]: "walk it t =
     (if IsEnd it then Some (Inr [], t)
      else case iter_deref it t of
        (Inl e, t) \<Rightarrow> Some (Inl e, t)
      | (Inr kv, t) \<Rightarrow>
          (case iter_next it t of
             (Inl e, t) \<Rightarrow> Some (Inl e, t)
           | (Inr it', t) \<Rightarrow>
               Option.bind (walk it' t) (\<lambda>(r, t).
                 Some (case r of Inl e \<Rightarrow> (Inl e, t) | Inr kvs \<Rightarrow> (Inr (kv # kvs), t)))))"

section \<open>Insertion\<close>

definition set_parent :: "error \<Rightarrow> page_id \<Rightarrow> page_id \<Rightarrow> BPlusTree \<Rightarrow> (unit, BPlusTree) outcome" where
  "set_parent e parent child t =
     bind_out (get_page e child t) (\<lambda>n t.
     bind_out (put_page child (SetParentPageId parent n) t) (\<lambda>_ t. (Inr (), unpin child True t)))"

text \<open>
  The lambda \<open>set_children_parent\<close>: the children are read from the page up front, since changing
  the parent of a page changes neither the size nor the entries of any page.
\<close>

fun set_parents :: "error \<Rightarrow> page_id \<Rightarrow> page_id list \<Rightarrow> BPlusTree \<Rightarrow> (unit, BPlusTree) outcome" where
  "set_parents e parent [] t = (Inr (), t)"
| "set_parents e parent (c # cs) t = bind_out (set_parent e parent c t) (\<lambda>_ t. set_parents e parent cs t)"

definition set_children_parent :: "error \<Rightarrow> page_id \<Rightarrow> BPlusTree \<Rightarrow> (unit, BPlusTree) outcome" where
  "set_children_parent e pid t =
     bind_out (internal_at pid t) (\<lambda>n t. set_parents e pid (map (int_ValueAt n) [0..<tp_size n]) t)"

definition start_tree :: "int \<Rightarrow> RID \<Rightarrow> BPlusTree \<Rightarrow> (bool, BPlusTree) outcome" where
  "start_tree key value t =
     bind_out (new_page (RuntimeError ''Insert: NewPage failed'') t) (\<lambda>root_pid t.
     let leaf = (leaf_Init (leaf_max_size t) zero_leaf_array)\<lparr>tp_parent := INVALID_PAGE_ID\<rparr>;
         t = t\<lparr>root_page_id := root_pid\<rparr>;
         (after, leaf) = leaf_Insert key value leaf
     in bind_out (put_page root_pid (Leaf leaf) t) (\<lambda>_ t. (Inr True, unpin root_pid (after > 0) t)))"

text \<open>Step 3 of \<open>Insert\<close>: the leaf \<open>cur\<close> is split; the result is the key to push up and the new page.\<close>

definition split_leaf :: "page_id \<Rightarrow> BPlusTree \<Rightarrow> (int \<times> page_id, BPlusTree) outcome" where
  "split_leaf cur t =
     bind_out (new_page (RuntimeError ''Insert: NewPage for leaf split failed'') t) (\<lambda>new_pid t.
     bind_out (put_page new_pid (Leaf (leaf_Init (leaf_max_size t) zero_leaf_array)) t) (\<lambda>_ t.
     bind_out (get_page (RuntimeError ''Insert: FetchPage(old leaf) failed'') cur t) (\<lambda>_ t.
     bind_out (leaf_at cur t) (\<lambda>old_leaf t.
     bind_out (leaf_at new_pid t) (\<lambda>new_leaf t.
     let new_leaf = new_leaf\<lparr>tp_parent := tp_parent old_leaf\<rparr>;
         (old_leaf, new_leaf) = leaf_MoveHalfTo old_leaf new_leaf;
         new_leaf = new_leaf\<lparr>next_leaf := next_leaf old_leaf\<rparr>;
         old_leaf = old_leaf\<lparr>next_leaf := new_pid\<rparr>
     in bind_out (put_pages cur (Leaf old_leaf) new_pid (Leaf new_leaf) t) (\<lambda>_ t.
        (Inr (leaf_KeyAt new_leaf 0, new_pid), unpin new_pid True (unpin cur True t))))))))"

definition new_root :: "page_id \<Rightarrow> int \<Rightarrow> page_id \<Rightarrow> BPlusTree \<Rightarrow> (unit, BPlusTree) outcome" where
  "new_root left_pid up_key right_pid t =
     bind_out (new_page (RuntimeError ''Insert: NewPage(new root) failed'') t) (\<lambda>root_pid t.
     let root = (int_Init (internal_max_size t) zero_child_array)\<lparr>tp_parent := INVALID_PAGE_ID\<rparr>;
         root = int_PopulateNewRoot left_pid up_key right_pid root
     in bind_out (put_page root_pid (Internal root) t) (\<lambda>_ t.
        let t = t\<lparr>root_page_id := root_pid\<rparr> in
        bind_out (set_parent UndefinedBehaviour root_pid left_pid t) (\<lambda>_ t.
        bind_out (set_parent UndefinedBehaviour root_pid right_pid t) (\<lambda>_ t.
        (Inr (), unpin root_pid True t)))))"

definition split_internal :: "page_id \<Rightarrow> BPlusTree \<Rightarrow> (int \<times> page_id, BPlusTree) outcome" where
  "split_internal pid t =
     bind_out (get_page (RuntimeError ''Insert: FetchPage(parent for split) failed'') pid t) (\<lambda>_ t.
     bind_out (internal_at pid t) (\<lambda>old_in t.
     let promote = int_KeyAt old_in (tp_size old_in div 2) in
     bind_out (new_page (RuntimeError ''Insert: NewPage for internal split failed'') t) (\<lambda>new_pid t.
     let new_in = (int_Init (internal_max_size t) zero_child_array)\<lparr>tp_parent := tp_parent old_in\<rparr>;
         (old_in, new_in) = int_MoveHalfTo old_in new_in promote
     in bind_out (put_pages pid (Internal old_in) new_pid (Internal new_in) t) (\<lambda>_ t.
        bind_out (set_children_parent (RuntimeError ''Insert: FetchPage(child) failed'') new_pid t) (\<lambda>_ t.
        (Inr (promote, new_pid), unpin new_pid True (unpin pid True t)))))))"

text \<open>
  One iteration of the loop of step 4: \<open>None\<close> when the insertion is complete, otherwise the pair
  of pages and the key that the next iteration works on.
\<close>

definition insert_in_parent ::
  "page_id \<times> int \<times> page_id \<Rightarrow> BPlusTree \<Rightarrow> ((page_id \<times> int \<times> page_id) option, BPlusTree) outcome" where
  "insert_in_parent = (\<lambda>(left_pid, up_key, right_pid) t.
     bind_out (get_page (RuntimeError ''Insert: FetchPage(left) failed'') left_pid t) (\<lambda>lnode t.
     let parent_pid = GetParentPageId lnode; t = unpin left_pid False t in
     if parent_pid = INVALID_PAGE_ID then
       bind_out (new_root left_pid up_key right_pid t) (\<lambda>_ t. (Inr None, t))
     else
       bind_out (get_page (RuntimeError ''Insert: FetchPage(parent) failed'') parent_pid t) (\<lambda>_ t.
       bind_out (internal_at parent_pid t) (\<lambda>parent t.
       bind_out (lift_err (int_InsertNodeAfter left_pid up_key right_pid parent) t) (\<lambda>parent t.
       bind_out (put_page parent_pid (Internal parent) t) (\<lambda>_ t.
       bind_out (set_parent (RuntimeError ''Insert: FetchPage(right child) failed'') parent_pid right_pid t) (\<lambda>_ t.
       bind_out (internal_at parent_pid t) (\<lambda>parent t.
       let t = unpin parent_pid True t in
       if tp_size parent \<le> tp_max parent then (Inr None, t)
       else bind_out (split_internal parent_pid t) (\<lambda>(promote, new_pid) t.
         (Inr (Some (parent_pid, promote, new_pid)), t))))))))))"

partial_function (option) insert_up :: "page_id \<times> int \<times> page_id \<Rightarrow> BPlusTree \<Rightarrow> (bool, BPlusTree) outcome option" where
  [code]: "insert_up x t =
     (case insert_in_parent x t of
        (Inl e, t) \<Rightarrow> Some (Inl e, t)
      | (Inr None, t) \<Rightarrow> Some (Inr True, t)
      | (Inr (Some x'), t) \<Rightarrow> insert_up x' t)"

definition tree_Insert :: "int \<Rightarrow> RID \<Rightarrow> BPlusTree \<Rightarrow> (bool, BPlusTree) outcome option" where
  "tree_Insert key value t =
     (if IsEmpty t then Some (start_tree key value t)
      else and_then (descend (RuntimeError ''Insert: FetchPage failed'') (\<lambda>n. int_Lookup n key) (root_page_id t) t)
        (\<lambda>(cur, leaf) t.
           let old_size = tp_size leaf;
               (after, leaf') = leaf_Insert key value leaf;
               inserted = (after \<noteq> old_size);
               overflow = (tp_size leaf' > tp_max leaf')
           in and_then (Some (if inserted then put_page cur (Leaf leaf') t else (Inr (), t))) (\<lambda>_ t.
              let t = unpin cur (inserted \<or> overflow) t in
              if \<not> inserted then Some (Inr False, t)
              else if \<not> overflow then Some (Inr True, t)
              else and_then (Some (split_leaf cur t)) (\<lambda>(up_key, new_pid) t. insert_up (cur, up_key, new_pid) t))))"

section \<open>Deletion\<close>

text \<open>
  After a merge: the root shrinks to its only child, or the parent is the next page to look at
  (\<open>Some\<close>), or the deletion is complete. The parent is still pinned.
\<close>

definition shrink_root :: "page_id \<Rightarrow> BPlusTree \<Rightarrow> (page_id option, BPlusTree) outcome" where
  "shrink_root parent_pid t =
     bind_out (internal_at parent_pid t) (\<lambda>parent t.
     if tp_parent parent = INVALID_PAGE_ID then
       if tp_size parent = 1 then
         bind_out (lift_err (int_RemoveAndReturnOnlyChild parent) t) (\<lambda>(new_root, parent) t.
         bind_out (put_page parent_pid (Internal parent) t) (\<lambda>_ t.
         let t = t\<lparr>root_page_id := new_root\<rparr> in
         bind_out (set_parent UndefinedBehaviour INVALID_PAGE_ID new_root t) (\<lambda>_ t.
         (Inr None, delete_page parent_pid (unpin parent_pid True t)))))
       else (Inr None, unpin parent_pid True t)
     else
       (Inr (if tp_size parent < internal_min_size (tp_max parent) then Some parent_pid else None),
        unpin parent_pid True t))"

text \<open>\<open>parent->SetKeyAt\<close> and \<open>parent->Remove\<close> on the pinned parent.\<close>

definition parent_SetKeyAt :: "page_id \<Rightarrow> nat \<Rightarrow> int \<Rightarrow> BPlusTree \<Rightarrow> (unit, BPlusTree) outcome" where
  "parent_SetKeyAt pid i k t =
     bind_out (internal_at pid t) (\<lambda>n t. put_page pid (Internal (int_SetKeyAt i k n)) t)"

definition parent_Remove :: "page_id \<Rightarrow> nat \<Rightarrow> BPlusTree \<Rightarrow> (unit, BPlusTree) outcome" where
  "parent_Remove pid i t =
     bind_out (internal_at pid t) (\<lambda>n t.
     bind_out (lift_err (int_Remove i n) t) (\<lambda>n t. put_page pid (Internal n) t))"

text \<open>
  Borrowing from a sibling: \<open>Some ()\<close> when an entry was moved and every page is unpinned,
  \<open>None\<close> when there is no sibling or it has no entry to spare.
\<close>

definition leaf_borrow_left :: "page_id \<Rightarrow> page_id \<Rightarrow> int \<Rightarrow> page_id \<Rightarrow> BPlusTree \<Rightarrow> (unit option, BPlusTree) outcome" where
  "leaf_borrow_left under_pid parent_pid index left_sib t =
     (if left_sib = INVALID_PAGE_ID then (Inr None, t)
      else bind_out (get_page UndefinedBehaviour left_sib t) (\<lambda>_ t.
        bind_out (leaf_at left_sib t) (\<lambda>leaf_l t.
        if tp_size leaf_l > leaf_min_size (tp_max leaf_l) then
          bind_out (leaf_at under_pid t) (\<lambda>leaf_u t.
          bind_out (lift_err (leaf_MoveLastToFrontOf leaf_l leaf_u) t) (\<lambda>(leaf_l, leaf_u) t.
          bind_out (put_pages left_sib (Leaf leaf_l) under_pid (Leaf leaf_u) t) (\<lambda>_ t.
          bind_out (parent_SetKeyAt parent_pid (nat index) (leaf_KeyAt leaf_u 0) t) (\<lambda>_ t.
          (Inr (Some ()), unpin parent_pid True (unpin under_pid True (unpin left_sib True t)))))))
        else (Inr None, unpin left_sib False t))))"

definition leaf_borrow_right :: "page_id \<Rightarrow> page_id \<Rightarrow> int \<Rightarrow> page_id \<Rightarrow> BPlusTree \<Rightarrow> (unit option, BPlusTree) outcome" where
  "leaf_borrow_right under_pid parent_pid index right_sib t =
     (if right_sib = INVALID_PAGE_ID then (Inr None, t)
      else bind_out (get_page UndefinedBehaviour right_sib t) (\<lambda>_ t.
        bind_out (leaf_at right_sib t) (\<lambda>leaf_r t.
        if tp_size leaf_r > leaf_min_size (tp_max leaf_r) then
          bind_out (leaf_at under_pid t) (\<lambda>leaf_u t.
          bind_out (lift_err (leaf_MoveFirstToEndOf leaf_r leaf_u) t) (\<lambda>(leaf_r, leaf_u) t.
          bind_out (put_pages right_sib (Leaf leaf_r) under_pid (Leaf leaf_u) t) (\<lambda>_ t.
          bind_out (parent_SetKeyAt parent_pid (nat (index + 1)) (leaf_KeyAt leaf_r 0) t) (\<lambda>_ t.
          (Inr (Some ()), unpin parent_pid True (unpin under_pid True (unpin right_sib True t)))))))
        else (Inr None, unpin right_sib False t))))"

definition leaf_merge :: "page_id \<Rightarrow> page_id \<Rightarrow> int \<Rightarrow> page_id \<Rightarrow> page_id \<Rightarrow> BPlusTree \<Rightarrow> (unit, BPlusTree) outcome" where
  "leaf_merge under_pid parent_pid index left_sib right_sib t =
     (if index = 0 then
        bind_out (get_page UndefinedBehaviour right_sib t) (\<lambda>_ t.
        bind_out (leaf_at right_sib t) (\<lambda>leaf_r t.
        bind_out (leaf_at under_pid t) (\<lambda>leaf_u t.
        let (leaf_r, leaf_u) = leaf_MoveAllTo leaf_r leaf_u in
        bind_out (put_pages right_sib (Leaf leaf_r) under_pid (Leaf leaf_u) t) (\<lambda>_ t.
        let t = delete_page right_sib (unpin right_sib True t) in
        bind_out (parent_Remove parent_pid 1 t) (\<lambda>_ t. (Inr (), unpin under_pid True t))))))
      else
        bind_out (get_page UndefinedBehaviour left_sib t) (\<lambda>_ t.
        bind_out (leaf_at left_sib t) (\<lambda>leaf_l t.
        bind_out (leaf_at under_pid t) (\<lambda>leaf_u t.
        let (leaf_u, leaf_l) = leaf_MoveAllTo leaf_u leaf_l in
        bind_out (put_pages under_pid (Leaf leaf_u) left_sib (Leaf leaf_l) t) (\<lambda>_ t.
        let t = delete_page under_pid (unpin under_pid True (unpin left_sib True t)) in
        parent_Remove parent_pid (nat index) t)))))"

definition fix_leaf :: "page_id \<Rightarrow> page_id \<Rightarrow> int \<Rightarrow> page_id \<Rightarrow> page_id \<Rightarrow> BPlusTree \<Rightarrow> (page_id option, BPlusTree) outcome" where
  "fix_leaf under_pid parent_pid index left_sib right_sib t =
     bind_out (get_page UndefinedBehaviour under_pid t) (\<lambda>_ t.
     bind_out (leaf_at under_pid t) (\<lambda>leaf_u t.
     if tp_size leaf_u \<ge> leaf_min_size (tp_max leaf_u) then
       (Inr None, unpin parent_pid False (unpin under_pid False t))
     else
       bind_out (leaf_borrow_left under_pid parent_pid index left_sib t) (\<lambda>r t.
       if r \<noteq> None then (Inr None, t) else
       bind_out (leaf_borrow_right under_pid parent_pid index right_sib t) (\<lambda>r t.
       if r \<noteq> None then (Inr None, t) else
       bind_out (leaf_merge under_pid parent_pid index left_sib right_sib t) (\<lambda>_ t.
       shrink_root parent_pid t)))))"

abbreviation child_error :: error where
  "child_error \<equiv> RuntimeError ''Remove: FetchPage(child) failed''"

definition internal_borrow_left :: "page_id \<Rightarrow> page_id \<Rightarrow> int \<Rightarrow> page_id \<Rightarrow> BPlusTree \<Rightarrow> (unit option, BPlusTree) outcome" where
  "internal_borrow_left under_pid parent_pid index left_sib t =
     (if left_sib = INVALID_PAGE_ID then (Inr None, t)
      else bind_out (get_page UndefinedBehaviour left_sib t) (\<lambda>_ t.
        bind_out (internal_at left_sib t) (\<lambda>in_l t.
        if tp_size in_l > internal_min_size (tp_max in_l) then
          let new_parent_key = int_KeyAt in_l (tp_size in_l - 1) in
          bind_out (internal_at parent_pid t) (\<lambda>parent t.
          let sep = int_KeyAt parent (nat index) in
          bind_out (internal_at under_pid t) (\<lambda>in_u t.
          bind_out (lift_err (int_MoveLastToFrontOf in_l in_u sep) t) (\<lambda>(in_l, in_u) t.
          bind_out (put_pages left_sib (Internal in_l) under_pid (Internal in_u) t) (\<lambda>_ t.
          bind_out (set_children_parent child_error under_pid t) (\<lambda>_ t.
          bind_out (parent_SetKeyAt parent_pid (nat index) new_parent_key t) (\<lambda>_ t.
          (Inr (Some ()), unpin parent_pid True (unpin under_pid True (unpin left_sib True t)))))))))
        else (Inr None, unpin left_sib False t))))"

definition internal_borrow_right :: "page_id \<Rightarrow> page_id \<Rightarrow> int \<Rightarrow> page_id \<Rightarrow> BPlusTree \<Rightarrow> (unit option, BPlusTree) outcome" where
  "internal_borrow_right under_pid parent_pid index right_sib t =
     (if right_sib = INVALID_PAGE_ID then (Inr None, t)
      else bind_out (get_page UndefinedBehaviour right_sib t) (\<lambda>_ t.
        bind_out (internal_at right_sib t) (\<lambda>in_r t.
        if tp_size in_r > internal_min_size (tp_max in_r) then
          bind_out (internal_at parent_pid t) (\<lambda>parent t.
          let sep = int_KeyAt parent (nat (index + 1)) in
          bind_out (internal_at under_pid t) (\<lambda>in_u t.
          bind_out (lift_err (int_MoveFirstToEndOf in_r in_u sep) t) (\<lambda>(in_r, in_u) t.
          bind_out (put_pages right_sib (Internal in_r) under_pid (Internal in_u) t) (\<lambda>_ t.
          bind_out (set_children_parent child_error under_pid t) (\<lambda>_ t.
          bind_out (internal_at right_sib t) (\<lambda>in_r t.
          bind_out (parent_SetKeyAt parent_pid (nat (index + 1)) (int_KeyAt in_r 1) t) (\<lambda>_ t.
          (Inr (Some ()), unpin parent_pid True (unpin under_pid True (unpin right_sib True t))))))))))
        else (Inr None, unpin right_sib False t))))"

definition internal_merge :: "page_id \<Rightarrow> page_id \<Rightarrow> int \<Rightarrow> page_id \<Rightarrow> page_id \<Rightarrow> BPlusTree \<Rightarrow> (unit, BPlusTree) outcome" where
  "internal_merge under_pid parent_pid index left_sib right_sib t =
     bind_out (internal_at parent_pid t) (\<lambda>parent t.
     if index = 0 then
       let middle = int_KeyAt parent 1 in
       bind_out (get_page UndefinedBehaviour right_sib t) (\<lambda>_ t.
       bind_out (internal_at right_sib t) (\<lambda>in_r t.
       bind_out (internal_at under_pid t) (\<lambda>in_u t.
       let (in_r, in_u) = int_MoveAllTo in_r in_u middle in
       bind_out (put_pages right_sib (Internal in_r) under_pid (Internal in_u) t) (\<lambda>_ t.
       bind_out (set_children_parent child_error under_pid t) (\<lambda>_ t.
       let t = delete_page right_sib (unpin right_sib True t) in
       bind_out (parent_Remove parent_pid 1 t) (\<lambda>_ t. (Inr (), unpin under_pid True t)))))))
     else
       let middle = int_KeyAt parent (nat index) in
       bind_out (get_page UndefinedBehaviour left_sib t) (\<lambda>_ t.
       bind_out (internal_at left_sib t) (\<lambda>in_l t.
       bind_out (internal_at under_pid t) (\<lambda>in_u t.
       let (in_u, in_l) = int_MoveAllTo in_u in_l middle in
       bind_out (put_pages under_pid (Internal in_u) left_sib (Internal in_l) t) (\<lambda>_ t.
       bind_out (set_children_parent child_error left_sib t) (\<lambda>_ t.
       let t = delete_page under_pid (unpin under_pid True (unpin left_sib True t)) in
       parent_Remove parent_pid (nat index) t))))))"

definition fix_internal :: "page_id \<Rightarrow> page_id \<Rightarrow> int \<Rightarrow> page_id \<Rightarrow> page_id \<Rightarrow> BPlusTree \<Rightarrow> (page_id option, BPlusTree) outcome" where
  "fix_internal under_pid parent_pid index left_sib right_sib t =
     bind_out (get_page UndefinedBehaviour under_pid t) (\<lambda>_ t.
     bind_out (internal_at under_pid t) (\<lambda>in_u t.
     if tp_size in_u \<ge> internal_min_size (tp_max in_u) then
       (Inr None, unpin parent_pid False (unpin under_pid False t))
     else
       bind_out (internal_borrow_left under_pid parent_pid index left_sib t) (\<lambda>r t.
       if r \<noteq> None then (Inr None, t) else
       bind_out (internal_borrow_right under_pid parent_pid index right_sib t) (\<lambda>r t.
       if r \<noteq> None then (Inr None, t) else
       bind_out (internal_merge under_pid parent_pid index left_sib right_sib t) (\<lambda>_ t.
       shrink_root parent_pid t)))))"

text \<open>One iteration of the loop that repairs underflow, from the page \<open>under_pid\<close>.\<close>

definition fix_underflow :: "page_id \<Rightarrow> BPlusTree \<Rightarrow> (page_id option, BPlusTree) outcome" where
  "fix_underflow under_pid t =
     bind_out (get_page (RuntimeError ''Remove: FetchPage(under) failed'') under_pid t) (\<lambda>under_node t.
     let parent_pid = GetParentPageId under_node; t = unpin under_pid False t in
     if parent_pid = INVALID_PAGE_ID then (Inr None, t)
     else
       bind_out (get_page (RuntimeError ''Remove: FetchPage(parent) failed'') parent_pid t) (\<lambda>_ t.
       bind_out (internal_at parent_pid t) (\<lambda>parent t.
       let index = int_ValueIndex parent under_pid;
           left_sib = (if index > 0 then int_ValueAt parent (nat (index - 1)) else INVALID_PAGE_ID);
           right_sib = (if index + 1 < int (tp_size parent) then int_ValueAt parent (nat (index + 1)) else INVALID_PAGE_ID)
       in if IsLeafPage under_node then fix_leaf under_pid parent_pid index left_sib right_sib t
          else fix_internal under_pid parent_pid index left_sib right_sib t)))"

partial_function (option) remove_up :: "page_id \<Rightarrow> BPlusTree \<Rightarrow> (unit, BPlusTree) outcome option" where
  [code]: "remove_up under_pid t =
     (case fix_underflow under_pid t of
        (Inl e, t) \<Rightarrow> Some (Inl e, t)
      | (Inr None, t) \<Rightarrow> Some (Inr (), t)
      | (Inr (Some pid), t) \<Rightarrow> remove_up pid t)"

definition tree_Remove :: "int \<Rightarrow> BPlusTree \<Rightarrow> (unit, BPlusTree) outcome option" where
  "tree_Remove key t =
     (if IsEmpty t then Some (Inr (), t)
      else and_then (descend (RuntimeError ''Remove: FetchPage failed'') (\<lambda>n. int_Lookup n key) (root_page_id t) t)
        (\<lambda>(cur, leaf) t.
           let old_size = tp_size leaf;
               (after, leaf') = leaf_Remove key leaf;
               changed = (after \<noteq> old_size)
           in and_then (Some (if changed then put_page cur (Leaf leaf') t else (Inr (), t))) (\<lambda>_ t.
              if tp_parent leaf' = INVALID_PAGE_ID then
                if tp_size leaf' = 0 then
                  let old_root = root_page_id t;
                      t = t\<lparr>root_page_id := INVALID_PAGE_ID\<rparr>
                  in Some (Inr (), delete_page old_root (unpin old_root True t))
                else Some (Inr (), unpin cur changed t)
              else
                let t = unpin cur changed t in
                if \<not> changed then Some (Inr (), t) else remove_up cur t)))"

end
