(* ===== verification/BPlus_Store.thy ===== *)
theory BPlus_Store
  imports BPlus_Tree
begin

text \<open>
  Symbolic execution of the tree's code: its states in a normal form (\<open>st\<close>) that shows the
  contents of the pages, the pins and the pages saved, and one rewrite rule per call on the pool.
  \<open>exec_simps\<close> collects the rules, so that the proofs about the operations run the code by
  simplification.
\<close>

named_theorems exec_simps \<open>steps of the tree's code on states in normal form\<close>

type_synonym contents = "page_id \<rightharpoonup> node"

definition st ::
  "BPlusTree \<Rightarrow> page_id \<Rightarrow> contents \<Rightarrow> page_id list \<Rightarrow> page_id set \<Rightarrow> page_id \<Rightarrow> BPlusTree" where
  "st T r C P S N =
     T\<lparr>root_page_id := r, bpm := (bpm T)\<lparr>content := C, pinned := P, saved := S, next_new := N\<rparr>\<rparr>"

lemma st_self: "t = st t (root_page_id t) (content (bpm t)) (pinned (bpm t)) (saved (bpm t)) (next_new (bpm t))"
  by (simp add: st_def)

lemma st_sel [simp, exec_simps]:
  "root_page_id (st T r C P S N) = r" "leaf_max_size (st T r C P S N) = leaf_max_size T"
  "internal_max_size (st T r C P S N) = internal_max_size T" "content (bpm (st T r C P S N)) = C"
  "pinned (bpm (st T r C P S N)) = P" "saved (bpm (st T r C P S N)) = S" "next_new (bpm (st T r C P S N)) = N"
  "capacity (bpm (st T r C P S N)) = capacity (bpm T)" "(st T r C P S N)\<lparr>root_page_id := q\<rparr> = st T q C P S N"
  by (simp_all add: st_def)

definition room :: "nat \<Rightarrow> BPlusTree \<Rightarrow> page_id list \<Rightarrow> bool" where
  "room k T P \<longleftrightarrow> card (set P) + k \<le> capacity (bpm T)"

lemma room_cards:
  assumes "room k T P"
  shows "1 \<le> k \<Longrightarrow> card (set P) < capacity (bpm T)"
    and "2 \<le> k \<Longrightarrow> card (insert a (set P)) < capacity (bpm T)"
    and "3 \<le> k \<Longrightarrow> card (insert a (insert b (set P))) < capacity (bpm T)"
    and "4 \<le> k \<Longrightarrow> card (insert a (insert b (insert c (set P)))) < capacity (bpm T)"
  using assms card_insert_le_m1 [of "card (set P) + 1" "set P" a] card_insert_le_m1 [of "card (set P) + 1" "set P" b]
    card_insert_le_m1 [of "card (set P) + 2" "insert b (set P)" a] card_insert_le_m1 [of "card (set P) + 1" "set P" c]
    card_insert_le_m1 [of "card (set P) + 2" "insert c (set P)" b]
    card_insert_le_m1 [of "card (set P) + 3" "insert b (insert c (set P))" a]
  unfolding room_def by simp_all

declare card_insert_disjoint [simp del]

lemma get_page_st [exec_simps]:
  "C p = Some n \<Longrightarrow> p \<in> set P \<or> card (set P) < capacity (bpm T) \<Longrightarrow>
   get_page e p (st T r C P S N) = (Inr n, st T r C (p # P) S N)"
  by (auto simp: get_page_def ps_fetch_def st_def ps_full_def)

lemma put_page_st [exec_simps]:
  "p \<in> set P \<Longrightarrow> node_fits n \<Longrightarrow> put_page p n (st T r C P S N) = (Inr (), st T r (C(p \<mapsto> n)) P (S - {p}) N)"
  by (simp add: put_page_def ps_write_def st_def)

lemma new_page_st [exec_simps]:
  "card (set P) < capacity (bpm T) \<Longrightarrow> N < 2 ^ 31 - 1 \<Longrightarrow>
   new_page e (st T r C P S N) = (Inr N, st T r (C(N \<mapsto> zero_node)) (N # P) (S - {N}) (N + 1))"
  by (simp add: new_page_def ps_new_def st_def ps_full_def)

lemma unpin_dirty_st [exec_simps]:
  "p \<in> set P \<Longrightarrow> unpin p True (st T r C P S N) = st T r C (remove1 p P) (insert p S) N"
  by (simp add: unpin_def ps_unpin_def st_def Let_def)

lemma unpin_clean_st [exec_simps]:
  "p \<in> set P \<Longrightarrow> p \<in> S \<or> p \<in> set (remove1 p P) \<Longrightarrow> unpin p False (st T r C P S N) = st T r C (remove1 p P) S N"
  by (auto simp: unpin_def ps_unpin_def st_def Let_def)

lemma delete_page_st [exec_simps]:
  "p \<notin> set P \<Longrightarrow> delete_page p (st T r C P S N) = st T r (C(p := None)) P S N"
  by (simp add: delete_page_def ps_delete_def st_def)

lemma leaf_at_st [exec_simps]: "C p = Some (Leaf l) \<Longrightarrow> leaf_at p (st T r C P S N) = (Inr l, st T r C P S N)"
  by (simp add: leaf_at_def)

lemma internal_at_st [exec_simps]: "C p = Some (Internal n) \<Longrightarrow> internal_at p (st T r C P S N) = (Inr n, st T r C P S N)"
  by (simp add: internal_at_def)

lemma put_pages_st [exec_simps]:
  "p \<in> set P \<Longrightarrow> q \<in> set P \<Longrightarrow> p \<noteq> q \<Longrightarrow> node_fits n \<Longrightarrow> node_fits m \<Longrightarrow>
   put_pages p n q m (st T r C P S N) = (Inr (), st T r (C(p \<mapsto> n, q \<mapsto> m)) P (S - {p} - {q}) N)"
  by (simp add: put_pages_def exec_simps)

lemma lift_err_simps [simp, exec_simps]: "lift_err r t = (r, t)"
  by (simp add: lift_err_def)

declare and_then_simps [exec_simps]

section \<open>Parents\<close>

lemma SetParent_simps [simp]:
  "GetParentPageId (SetParentPageId q n) = q" "node_fits (SetParentPageId q n) = node_fits n"
  "SetParentPageId q (SetParentPageId q' n) = SetParentPageId q n" "IsLeafPage (SetParentPageId q n) = IsLeafPage n"
  by (cases n; simp)+

definition parent_of :: "contents \<Rightarrow> page_id \<Rightarrow> page_id option" where
  "parent_of C p = map_option GetParentPageId (C p)"

definition reparent :: "page_id \<Rightarrow> page_id set \<Rightarrow> contents \<Rightarrow> contents" where
  "reparent q A C = (\<lambda>p. if p \<in> A then map_option (SetParentPageId q) (C p) else C p)"

text \<open>Contents that differ in the parent pointers only.\<close>

definition same_entries :: "node option \<Rightarrow> node option \<Rightarrow> bool" where
  "same_entries x y \<longleftrightarrow> map_option (SetParentPageId 0) x = map_option (SetParentPageId 0) y"

lemma same_entries_refl [simp]: "same_entries x x"
  by (simp add: same_entries_def)

lemma same_entries_sym: "same_entries x y \<Longrightarrow> same_entries y x"
  by (simp add: same_entries_def)

lemma same_entries_trans: "same_entries x y \<Longrightarrow> same_entries y z \<Longrightarrow> same_entries x z"
  by (simp add: same_entries_def)

lemma same_entries_parent [simp]:
  "same_entries (Some (SetParentPageId q n)) (Some m) = same_entries (Some n) (Some m)"
  "same_entries (Some m) (Some (SetParentPageId q n)) = same_entries (Some m) (Some n)"
  "same_entries (map_option (SetParentPageId q) x) y = same_entries x y"
  "same_entries y (map_option (SetParentPageId q) x) = same_entries y x"
  by (simp_all add: same_entries_def option.map_comp comp_def)

lemma same_entries_Some: "same_entries (Some n) y \<Longrightarrow> \<exists>m. y = Some m"
  by (cases y) (simp_all add: same_entries_def)

lemma same_entries_internal:
  "same_entries x y \<Longrightarrow> x = Some (Internal n) \<Longrightarrow>
   \<exists>m. y = Some (Internal m) \<and> tp_size m = tp_size n \<and> tp_max m = tp_max n \<and> child_array m = child_array n"
proof -
  assume a: "same_entries x y" "x = Some (Internal n)"
  then obtain m' where m': "y = Some m'" using same_entries_Some by blast
  show ?thesis
  proof (cases m')
    case (Internal m)
    with a m' have "n\<lparr>tp_parent := 0\<rparr> = m\<lparr>tp_parent := 0\<rparr>" by (simp add: same_entries_def)
    then have "tp_size m = tp_size n" "tp_max m = tp_max n" "child_array m = child_array n"
      by (metis InternalPage.select_convs InternalPage.surjective TreePage.select_convs TreePage.update_convs(3))+
    then show ?thesis using m' Internal by simp
  qed (use a m' in \<open>simp add: same_entries_def\<close>)
qed

lemma same_entries_leaf:
  "same_entries x y \<Longrightarrow> x = Some (Leaf l) \<Longrightarrow>
   \<exists>m. y = Some (Leaf m) \<and> tp_size m = tp_size l \<and> tp_max m = tp_max l \<and> leaf_array m = leaf_array l \<and> next_leaf m = next_leaf l"
proof -
  assume a: "same_entries x y" "x = Some (Leaf l)"
  then obtain m' where m': "y = Some m'" using same_entries_Some by blast
  show ?thesis
  proof (cases m')
    case (Leaf m)
    with a m' have "l\<lparr>tp_parent := 0\<rparr> = m\<lparr>tp_parent := 0\<rparr>" by (simp add: same_entries_def)
    then have "tp_size m = tp_size l" "tp_max m = tp_max l" "leaf_array m = leaf_array l" "next_leaf m = next_leaf l"
      by (metis LeafPage.select_convs LeafPage.surjective TreePage.select_convs TreePage.update_convs(3))+
    then show ?thesis using m' Leaf by simp
  qed (use a m' in \<open>simp add: same_entries_def\<close>)
qed

lemma set_parent_st [exec_simps]:
  "C c = Some n \<Longrightarrow> node_fits n \<Longrightarrow> c \<in> set P \<or> card (set P) < capacity (bpm T) \<Longrightarrow>
   set_parent e q c (st T r C P S N) = (Inr (), st T r (C(c \<mapsto> SetParentPageId q n)) P (insert c S) N)"
  by (simp add: set_parent_def exec_simps)

lemma set_parents_st:
  assumes "\<forall>c \<in> set cs. \<exists>n. C c = Some n \<and> node_fits n" and "card (set P) < capacity (bpm T)"
  shows "set_parents e q cs (st T r C P S N) = (Inr (), st T r (reparent q (set cs) C) P (S \<union> set cs) N)"
  using assms(1)
proof (induction cs arbitrary: C S)
  case Nil
  then show ?case by (simp add: reparent_def)
next
  case (Cons c cs)
  then obtain n where n: "C c = Some n" "node_fits n" by auto
  define C' where C': "C' = C(c \<mapsto> SetParentPageId q n)"
  have "reparent q (set cs) C' = reparent q (set (c # cs)) C"
    using n by (auto simp: reparent_def C')
  moreover have "\<forall>c \<in> set cs. \<exists>n. C' c = Some n \<and> node_fits n" using Cons.prems n by (auto simp: C')
  ultimately show ?case
    using Cons.IH [of C' "insert c S"] assms(2) by (simp add: set_parent_st [where C = C, OF n] C' [symmetric])
qed

lemma set_children_parent_st:
  assumes "C p = Some (Internal n)" and "\<forall>c \<in> snd ` set (children_of n). \<exists>m. C c = Some m \<and> node_fits m"
    and "card (set P) < capacity (bpm T)"
  shows "set_children_parent e p (st T r C P S N) =
    (Inr (), st T r (reparent p (snd ` set (children_of n)) C) P (S \<union> snd ` set (children_of n)) N)"
proof -
  have "map (int_ValueAt n) [0..<tp_size n] = map snd (children_of n)" by (simp add: int_ValueAt_def items_def)
  then show ?thesis using set_parents_st [of "map snd (children_of n)" C P T e p r S N] assms
    by (simp add: set_children_parent_def internal_at_st)
qed

end
