(* ===== verification/BPlus_Tower.thy ===== *)
theory BPlus_Tower
  imports BPlus_Store
begin

text \<open>
  The shape of the tree in the buffer pool, level by level. A level is a list of nodes, each with
  the lower bound of its keys (\<open>None\<close> for the leftmost), its page and its entries; the children
  of a level, listed with their lower bounds, are the nodes of the level below. \<open>tower\<close> stacks the
  internal levels over the heads of a level up to the root. The flat view makes a split or a merge an
  edit of two neighbouring lists, and the climb from a leaf to the root an induction on the levels.
\<close>

type_synonym 'a lnode = "int option \<times> page_id \<times> 'a list"
type_synonym head = "int option \<times> page_id"

abbreviation heads :: "'a lnode list \<Rightarrow> head list" where
  "heads lv \<equiv> map (\<lambda>x. (fst x, fst (snd x))) lv"

abbreviation pids :: "'a lnode list \<Rightarrow> page_id list" where
  "pids lv \<equiv> map (\<lambda>x. fst (snd x)) lv"

fun kids :: "(int \<times> page_id) lnode \<Rightarrow> head list" where
  "kids (lo, p, []) = []"
| "kids (lo, p, (k, c) # cs) = (lo, c) # map (apfst Some) cs"

fun inner :: "contents \<Rightarrow> nat \<Rightarrow> (int \<times> page_id) lnode \<Rightarrow> bool" where
  "inner C M (lo, p, cs) \<longleftrightarrow>
     (\<exists>n. C p = Some (Internal n) \<and> children_of n = cs \<and> tp_max n = M) \<and> (\<forall>c \<in> snd ` set cs. parent_of C c = Some p)"

definition least_width :: "nat \<Rightarrow> 'b list \<Rightarrow> nat" where
  "least_width M ups = (if ups = [] then 2 else internal_min_size M)"

fun width_ok :: "nat \<Rightarrow> nat \<Rightarrow> 'a lnode \<Rightarrow> bool" where
  "width_ok w M (lo, p, cs) \<longleftrightarrow> w \<le> length cs \<and> length cs \<le> M"

lemma width_ok_iff: "width_ok w M x \<longleftrightarrow> w \<le> length (snd (snd x)) \<and> length (snd (snd x)) \<le> M"
  by (cases x) simp

fun tower :: "contents \<Rightarrow> nat \<Rightarrow> head list \<Rightarrow> (int \<times> page_id) lnode list list \<Rightarrow> page_id \<Rightarrow> bool" where
  "tower C M H [] r \<longleftrightarrow> H = [(None, r)] \<and> parent_of C r = Some INVALID_PAGE_ID"
| "tower C M H (lv # ups) r \<longleftrightarrow>
     concat (map kids lv) = H \<and> (\<forall>x \<in> set lv. inner C M x \<and> width_ok (least_width M ups) M x) \<and>
     tower C M (heads lv) ups r"

abbreviation tower_pages :: "(int \<times> page_id) lnode list list \<Rightarrow> page_id list" where
  "tower_pages ups \<equiv> concat (map pids ups)"

lemma snd_heads: "map snd (heads lv) = pids lv"
  by (induction lv) auto

lemma snd_kids [simp]: "map snd (kids (lo, p, cs)) = map snd cs"
  by (cases "(lo, p, cs)" rule: kids.cases) auto

lemma length_kids [simp]: "length (kids (lo, p, cs)) = length cs"
  by (cases "(lo, p, cs)" rule: kids.cases) auto

lemma snd_set_kids [simp]: "snd ` set (kids (lo, p, cs)) = snd ` set cs"
  using arg_cong [OF snd_kids [of lo p cs], of set] by (simp del: snd_kids)

lemma kids_append: "xs \<noteq> [] \<Longrightarrow> kids (lo, p, xs @ ys) = kids (lo, p, xs) @ map (apfst Some) ys"
  by (cases "(lo, p, xs)" rule: kids.cases) auto

section \<open>Frames\<close>

lemma inner_frame:
  assumes "inner C M (lo, p, cs)" and "same_entries (C p) (C' p)" and "\<forall>c \<in> snd ` set cs. parent_of C' c = parent_of C c"
  shows "inner C' M (lo, p, cs)"
proof -
  from assms(1) obtain n where "C p = Some (Internal n)" "children_of n = cs" "tp_max n = M" by auto
  with same_entries_internal [OF assms(2)] obtain m where
    "C' p = Some (Internal m)" "tp_size m = tp_size n" "tp_max m = tp_max n" "child_array m = child_array n" by blast
  then show ?thesis using assms(1,3) \<open>children_of n = cs\<close> \<open>tp_max n = M\<close> by auto
qed

lemma kids_below: "concat (map kids lv) = H \<Longrightarrow> (lo, p, cs) \<in> set lv \<Longrightarrow> snd ` set cs \<subseteq> snd ` set H"
  using snd_set_kids [of lo p cs] by (metis UN_upper image_mono image_set set_concat imageI)

lemma tower_frame:
  assumes "tower C M H ups r" and "\<forall>x \<in> set (tower_pages ups). C' x = C x"
    and "\<forall>c \<in> snd ` set H. parent_of C' c = parent_of C c"
  shows "tower C' M H ups r"
  using assms
proof (induction ups arbitrary: H)
  case Nil
  then show ?case by auto
next
  case (Cons lv ups)
  have same: "\<forall>x \<in> set (pids lv). C' x = C x" using Cons.prems(2) by auto
  then have "\<forall>c \<in> snd ` set (heads lv). parent_of C' c = parent_of C c" by (auto simp: parent_of_def)
  with Cons.IH [of "heads lv"] Cons.prems have up: "tower C' M (heads lv) ups r" by simp
  have "inner C' M x" if "x \<in> set lv" for x
  proof -
    obtain lo p cs where x: "x = (lo, p, cs)" by (cases x)
    have "snd ` set cs \<subseteq> snd ` set H" using kids_below [of lv H lo p cs] Cons.prems(1) that x by simp
    then have par: "\<forall>c \<in> snd ` set cs. parent_of C' c = parent_of C c" using Cons.prems(3) by blast
    have "C' p = C p" using same that x by force
    then have same: "same_entries (C p) (C' p)" by simp
    have "inner C M (lo, p, cs)" using Cons.prems(1) that x by (simp del: inner.simps)
    from inner_frame [OF this same par] show ?thesis unfolding x .
  qed
  then show ?case using Cons.prems(1) up by simp
qed

lemma tower_heads_nonempty: "tower C M H ups r \<Longrightarrow> 2 \<le> M \<Longrightarrow> H \<noteq> [] \<and> fst (hd H) = None"
proof (induction ups arbitrary: H)
  case (Cons lv ups)
  from Cons.IH [of "heads lv"] Cons.prems have h: "heads lv \<noteq> []" "fst (hd (heads lv)) = None" by auto
  then obtain lo p cs lv' where lv: "lv = (lo, p, cs) # lv'" by (cases lv) auto
  then have "cs \<noteq> []" using Cons.prems by (auto simp: least_width_def internal_min_size_def split: if_splits)
  then obtain k c cs' where "cs = (k, c) # cs'" by (cases cs) auto
  then show ?case using Cons.prems(1) lv h by auto
qed simp

section \<open>Searching\<close>

text \<open>Lower bounds, with \<open>None\<close> below everything.\<close>

fun at_least :: "int option \<Rightarrow> int \<Rightarrow> bool" where
  "at_least None k \<longleftrightarrow> True"
| "at_least (Some a) k \<longleftrightarrow> a \<le> k"

fun below :: "int option \<Rightarrow> int option \<Rightarrow> bool" where
  "below lo None \<longleftrightarrow> False"
| "below None (Some b) \<longleftrightarrow> True"
| "below (Some a) (Some b) \<longleftrightarrow> a < b"

lemma below_trans: "below a b \<Longrightarrow> below b c \<Longrightarrow> below a c"
  by (cases a; cases b; cases c) auto

lemma below_above: "below a b \<Longrightarrow> \<not> at_least a k \<Longrightarrow> \<not> at_least b k"
  by (cases a; cases b) auto

abbreviation bounds_sorted :: "head list \<Rightarrow> bool" where
  "bounds_sorted H \<equiv> sorted_wrt below (map fst H)"

text \<open>The node of a level that a key belongs to.\<close>

definition covers :: "int \<Rightarrow> head list \<Rightarrow> head \<Rightarrow> head list \<Rightarrow> bool" where
  "covers key A h B \<longleftrightarrow> at_least (fst h) key \<and> (\<forall>h' \<in> set B. \<not> at_least (fst h') key)"

lemma route_list_covers:
  assumes "sorted_wrt below (lo # map (\<lambda>x. Some (fst x)) cs)" and "at_least lo key"
  shows "\<exists>A B lo'. (lo, c) # map (apfst Some) cs = A @ (lo', route_list key c cs) # B \<and>
    covers key A (lo', route_list key c cs) B"
  using assms
proof (induction cs arbitrary: lo c)
  case Nil
  then show ?case by (intro exI [of _ "[]"] exI [of _ lo]) (simp add: covers_def)
next
  case (Cons kc cs)
  obtain k c' where kc: "kc = (k, c')" by (cases kc)
  show ?case
  proof (cases "key < k")
    case True
    have "\<not> at_least (Some (fst x)) key" if "x \<in> set cs" for x
      using Cons.prems(1) True that by (auto simp: kc)
    then have "covers key [] (lo, c) (map (apfst Some) (kc # cs))"
      using Cons.prems(2) True by (auto simp: covers_def kc)
    then show ?thesis using True
      by (intro exI [of _ "[]"] exI [of _ "map (apfst Some) (kc # cs)"] exI [of _ lo]) (simp add: kc)
  next
    case False
    have "sorted_wrt below (Some k # map (\<lambda>x. Some (fst x)) cs)" using Cons.prems(1) by (simp add: kc)
    from Cons.IH [OF this, of c'] False obtain A B lo' where
      "(Some k, c') # map (apfst Some) cs = A @ (lo', route_list key c' cs) # B" "covers key A (lo', route_list key c' cs) B"
      by auto
    then show ?thesis
      using False by (intro exI [of _ "(lo, c) # A"] exI [of _ B] exI [of _ lo']) (auto simp: kc covers_def)
  qed
qed

text \<open>The bounds of a level are bounds of the level below.\<close>

lemma kids_first: "snd (snd x) \<noteq> [] \<Longrightarrow> \<exists>c ks. kids x = (fst x, c) # ks"
  by (cases x rule: kids.cases) auto

lemma heads_bounds_sorted:
  assumes "\<forall>x \<in> set lv. snd (snd x) \<noteq> []" and "bounds_sorted (concat (map kids lv))"
  shows "bounds_sorted (heads lv)"
  using assms
proof (induction lv)
  case (Cons x lv)
  obtain c ks where ks: "kids x = (fst x, c) # ks" using kids_first Cons.prems(1) by fastforce
  have tail: "bounds_sorted (concat (map kids lv))" using Cons.prems(2) by (simp add: sorted_wrt_append)
  have first: "\<forall>h \<in> set (concat (map kids lv)). below (fst x) (fst h)"
    using Cons.prems(2) ks by (simp add: sorted_wrt_append)
  have "below (fst x) (fst y)" if y: "y \<in> set lv" for y
  proof -
    obtain c' ks' where "kids y = (fst y, c') # ks'" using kids_first Cons.prems(1) y by fastforce
    then have "(fst y, c') \<in> set (concat (map kids lv))" using y by (auto intro!: bexI [of _ y])
    then show ?thesis using first by fastforce
  qed
  then show ?case using Cons.IH [OF _ tail] Cons.prems(1) by simp
qed simp

lemma bounds_sorted_concat: "bounds_sorted (concat hs) \<Longrightarrow> h \<in> set hs \<Longrightarrow> bounds_sorted h"
  by (induction hs) (auto simp: sorted_wrt_append)

lemma later_bounds:
  assumes "\<forall>x \<in> set lv. snd (snd x) \<noteq> []" and "bounds_sorted (concat (map kids lv))"
    and "\<forall>x \<in> set lv. \<not> at_least (fst x) key"
  shows "\<forall>h \<in> set (concat (map kids lv)). \<not> at_least (fst h) key"
proof
  fix h assume "h \<in> set (concat (map kids lv))"
  then obtain x where x: "x \<in> set lv" "h \<in> set (kids x)" by auto
  obtain c ks where ks: "kids x = (fst x, c) # ks" using kids_first assms(1) x(1) by fastforce
  have "bounds_sorted (kids x)" using bounds_sorted_concat [OF assms(2)] x(1) by simp
  moreover have "\<not> at_least (fst x) key" using assms(3) x(1) by simp
  ultimately show "\<not> at_least (fst h) key" using x(2) ks below_above by auto
qed

text \<open>What every operation may assume of the pool, and what it keeps.\<close>

definition pool_ok :: "contents \<Rightarrow> page_id list \<Rightarrow> page_id set \<Rightarrow> page_id \<Rightarrow> bool" where
  "pool_ok C P S N \<longleftrightarrow> dom C \<subseteq> {0..<N} \<and> set P \<subseteq> dom C \<and> dom C - set P \<subseteq> S \<and> 0 \<le> N"

lemma pool_ok_clean: "pool_ok C P S N \<Longrightarrow> C p = Some n \<Longrightarrow> p \<in> S \<or> p \<in> set P"
  by (auto simp: pool_ok_def)

lemma pool_ok_fresh: "pool_ok C P S N \<Longrightarrow> N \<notin> set P \<and> C N = None"
  by (force simp: pool_ok_def)

lemma pool_ok_valid: "pool_ok C P S N \<Longrightarrow> C p = Some n \<Longrightarrow> p \<noteq> INVALID_PAGE_ID \<and> 0 \<le> p \<and> p < N"
  by (force simp: pool_ok_def INVALID_PAGE_ID_def)

lemma peek_st:
  assumes "pool_ok C P S N" and "C p = Some n" and "room 1 T P"
  shows "get_page e p (st T r C P S N) = (Inr n, st T r C (p # P) S N)"
    and "unpin p False (st T r C (p # P) S N) = st T r C P S N"
  using pool_ok_clean [OF assms(1,2)] room_cards(1) [OF assms(3)] assms(2) by (simp_all add: exec_simps)

lemma descend_internal:
  assumes "pool_ok C P S N" and "C p = Some (Internal n)" and "room 1 T P"
  shows "descend e f p (st T r C P S N) = descend e f (f n) (st T r C P S N)"
  by (subst descend.simps) (simp add: peek_st [OF assms])

lemma descend_leaf:
  assumes "pool_ok C P S N" and "C p = Some (Leaf l)" and "room 1 T P"
  shows "descend e f p (st T r C P S N) = Some (Inr (p, l), st T r C (p # P) S N)"
  by (subst descend.simps) (simp add: peek_st [OF assms])

lemma descend_tower:
  assumes "tower C M H ups r" and "bounds_sorted H" and "2 \<le> M" and "pool_ok C P S N" and "room 1 T P"
  shows "\<exists>A lo p B. H = A @ (lo, p) # B \<and> covers key A (lo, p) B \<and>
    descend e (\<lambda>n. int_Lookup n key) r (st T r' C P S N) = descend e (\<lambda>n. int_Lookup n key) p (st T r' C P S N)"
  using assms(1,2)
proof (induction ups arbitrary: H)
  case Nil
  then show ?case by (intro exI [of _ "[]"] exI [of _ None] exI [of _ r]) (simp add: covers_def)
next
  case (Cons lv ups)
  have ne: "\<forall>x \<in> set lv. snd (snd x) \<noteq> []"
    using Cons.prems(1) assms(3) by (fastforce simp: least_width_def internal_min_size_def width_ok_iff split: if_splits)
  have "bounds_sorted (heads lv)" using heads_bounds_sorted [OF ne] Cons.prems by simp
  with Cons.IH [of "heads lv"] Cons.prems obtain A lo p B where
    h: "heads lv = A @ (lo, p) # B" "covers key A (lo, p) B"
    "descend e (\<lambda>n. int_Lookup n key) r (st T r' C P S N) = descend e (\<lambda>n. int_Lookup n key) p (st T r' C P S N)" by auto
  from h(1) obtain X cs Y where lv: "lv = X @ (lo, p, cs) # Y" and A: "A = heads X" and B: "B = heads Y"
    by (auto simp: map_eq_append_conv)
  from Cons.prems(1) lv obtain n where n: "C p = Some (Internal n)" "children_of n = cs" by auto
  obtain k c cs' where cs: "cs = (k, c) # cs'" using ne lv by (cases cs) auto
  have srt: "bounds_sorted (concat (map kids X) @ kids (lo, p, cs) @ concat (map kids Y))"
    using Cons.prems lv by simp
  then have "sorted_wrt below (lo # map (\<lambda>x. Some (fst x)) cs')"
    by (simp add: cs sorted_wrt_append comp_def)
  then obtain A' B' lo' c' where k: "(lo, c) # map (apfst Some) cs' = A' @ (lo', c') # B'"
    "c' = route_list key c cs'" "covers key A' (lo', c') B'"
    using route_list_covers [of lo cs' key c] h(2) by (metis covers_def fst_conv)
  have "\<forall>h \<in> set (concat (map kids Y)). \<not> at_least (fst h) key"
    using later_bounds [of Y key] ne lv srt h(2) B by (auto simp: covers_def sorted_wrt_append)
  then have "covers key (concat (map kids X) @ A') (lo', c') (B' @ concat (map kids Y))"
    using k(3) by (auto simp: covers_def)
  moreover have "H = (concat (map kids X) @ A') @ (lo', c') # B' @ concat (map kids Y)"
    using Cons.prems(1) lv cs k(1) by simp
  moreover have "int_Lookup n key = c'" using int_Lookup_ok [of n k c cs'] n cs k(2) by simp
  ultimately show ?case using h(3) descend_internal [OF assms(4) n(1) assms(5)] by metis
qed

lemma descend_first:
  assumes "tower C M H ups r" and "2 \<le> M" and "pool_ok C P S N" and "room 1 T P"
  shows "descend e (\<lambda>n. int_ValueAt n 0) r (st T r' C P S N) = descend e (\<lambda>n. int_ValueAt n 0) (snd (hd H)) (st T r' C P S N)"
  using assms(1)
proof (induction ups arbitrary: H)
  case (Cons lv ups)
  have "heads lv \<noteq> []" using tower_heads_nonempty [of C M "heads lv" ups r] Cons.prems assms(2) by auto
  then obtain lo p cs lv' where lv: "lv = (lo, p, cs) # lv'" by (cases lv) auto
  then have "cs \<noteq> []" using Cons.prems assms(2) by (auto simp: least_width_def internal_min_size_def split: if_splits)
  then obtain k c cs' where cs: "cs = (k, c) # cs'" by (cases cs) auto
  from Cons.prems lv obtain n where n: "C p = Some (Internal n)" "children_of n = cs" by auto
  then have "int_ValueAt n 0 = c" using cs by (cases "tp_size n") (auto simp: items_Cons int_ValueAt_def, simp add: items_def)
  then show ?case
    using Cons.IH [of "heads lv"] Cons.prems lv cs descend_internal [OF assms(3) n(1) assms(4)] by auto
qed simp

end
