(* ===== verification/BPlus_Insert.thy ===== *)
theory BPlus_Insert
  imports BPlus_Tower
begin

text \<open>
  The climb of \<open>Insert\<close>: a split of a node of some level is carried to the levels above it
  (\<open>insert_up_ok\<close>), by induction on the levels of the tower.
\<close>

section \<open>Lists of children\<close>

lemma concat_split:
  "concat xss = A @ h # B \<Longrightarrow> \<exists>X A' B' Y. xss = X @ (A' @ h # B') # Y \<and> A = concat X @ A' \<and> B = B' @ concat Y"
proof (induction xss arbitrary: A)
  case (Cons xs xss)
  from Cons.prems have "xs @ concat xss = A @ h # B" by simp
  then consider us where "xs = A @ h # us" "B = us @ concat xss" | us where "A = xs @ us" "concat xss = us @ h # B"
    by (auto simp: append_eq_append_conv2 append_eq_Cons_conv)
  then show ?case
  proof cases
    case 1
    then show ?thesis by (intro exI [of _ "[]"] exI [of _ A] exI [of _ us] exI [of _ xss]) simp
  next
    case 2
    from Cons.IH [OF 2(2)] obtain X A' B' Y where
      "xss = X @ (A' @ h # B') # Y" "us = concat X @ A'" "B = B' @ concat Y" by blast
    then show ?thesis using 2 by (intro exI [of _ "xs # X"] exI [of _ A'] exI [of _ B'] exI [of _ Y]) simp
  qed
qed simp

lemma level_split:
  assumes "concat (map kids lv) = A @ h # B"
  obtains X x Y A' B' where "lv = X @ x # Y" and "kids x = A' @ h # B'" and "A = concat (map kids X) @ A'"
    and "B = B' @ concat (map kids Y)"
proof -
  from concat_split [OF assms] obtain X' A' B' Y' where
    m: "map kids lv = X' @ (A' @ h # B') # Y'" and AB: "A = concat X' @ A'" "B = B' @ concat Y'" by blast
  from m obtain X lv' where X: "lv = X @ lv'" "X' = map kids X" "map kids lv' = (A' @ h # B') # Y'"
    by (metis map_eq_append_conv)
  from X(3) obtain x Y where "lv' = x # Y" "kids x = A' @ h # B'" "Y' = map kids Y" by (metis map_eq_Cons_conv)
  then show thesis using that [of X x Y A' B'] X AB by simp
qed

lemma kids_split:
  assumes "kids (lo', q, cs) = A @ (lo, p) # B"
  obtains a k b where "cs = a @ (k, p) # b" and "length a = length A" and "B = map (apfst Some) b"
    and "\<forall>ys. kids (lo', q, a @ (k, p) # ys) = A @ (lo, p) # map (apfst Some) ys"
proof (cases A)
  case Nil
  with assms obtain k cs' where "cs = (k, p) # cs'" "lo = lo'" "B = map (apfst Some) cs'" by (cases cs) auto
  then show thesis using that [of "[]" k cs'] Nil by simp
next
  case (Cons h A')
  with assms obtain k0 c0 cs' where cs: "cs = (k0, c0) # cs'" "h = (lo', c0)" and "map (apfst Some) cs' = A' @ (lo, p) # B"
    by (cases cs) auto
  then obtain a k b where "cs' = a @ (k, p) # b" "map (apfst Some) a = A'" "lo = Some k" "map (apfst Some) b = B"
    by (auto simp: map_eq_append_conv map_eq_Cons_conv)
  then show thesis using that [of "(k0, c0) # a" k b] cs Cons by auto
qed

text \<open>Cutting a node in two, the second part under the key at the cut.\<close>

lemma kids_cut:
  assumes "0 < s" and "s < length cs"
  shows "kids (lo, p, take s cs) @ kids (Some (fst (cs ! s)), q, drop s cs) = kids (lo, p, cs)"
proof -
  have "drop s cs = cs ! s # drop (Suc s) cs" using assms(2) by (simp add: Cons_nth_drop_Suc)
  then have "kids (Some (fst (cs ! s)), q, drop s cs) = map (apfst Some) (drop s cs)"
    by (cases "cs ! s") simp
  moreover have "take s cs \<noteq> []" using assms by auto
  ultimately show ?thesis using kids_append [of "take s cs" lo p "drop s cs"] by simp
qed

section \<open>One iteration\<close>

lemma same_entries_fits: "same_entries (Some n) (Some m) \<Longrightarrow> node_fits m = node_fits n"
  unfolding same_entries_def by (metis SetParent_simps(2) option.simps(9) option.inject)

definition fits :: "contents \<Rightarrow> page_id \<Rightarrow> bool" where
  "fits C p \<longleftrightarrow> (\<exists>n. C p = Some n \<and> node_fits n)"

lemma fits_same: "fits C p \<Longrightarrow> same_entries (C p) (C' p) \<Longrightarrow> fits C' p"
  unfolding fits_def using same_entries_Some same_entries_fits by metis

lemma fits_upd [simp]: "fits (C(p \<mapsto> n)) q = (if q = p then node_fits n else fits C q)"
  by (simp add: fits_def)

lemma new_root_st:
  assumes "pool_ok C P S N" and "C p = Some np" and "node_fits np" and "C q = Some nq" and "node_fits nq" and "p \<noteq> q"
    and "room 2 T P" and "N < 2 ^ 31 - 1"
  obtains n where "new_root p k q (st T r C P S N) =
      (Inr (), st T N (C(N \<mapsto> Internal n, p \<mapsto> SetParentPageId N np, q \<mapsto> SetParentPageId N nq)) P
        (insert N (insert q (insert p S))) (N + 1))"
    and "children_of n = [(0, p), (k, q)]" and "tp_max n = internal_max_size T" and "tp_parent n = INVALID_PAGE_ID"
proof -
  define n where "n = int_PopulateNewRoot p k q ((int_Init (internal_max_size T) zero_child_array)\<lparr>tp_parent := INVALID_PAGE_ID\<rparr>)"
  have n: "children_of n = [(0, p), (k, q)]" "tp_max n = internal_max_size T" "tp_parent n = INVALID_PAGE_ID" "tp_size n = 2"
    unfolding n_def by (subst int_PopulateNewRoot_ok, simp add: int_Init_def zero_child_array_def)+
  have fresh: "p \<noteq> N" "q \<noteq> N" "N \<notin> set P"
    using pool_ok_valid [OF assms(1)] pool_ok_fresh [OF assms(1)] assms(2,4) by auto
  note card = room_cards(1,2) [OF assms(7)]
  have C: "C(N \<mapsto> Internal n, p \<mapsto> SetParentPageId N np, q \<mapsto> SetParentPageId N nq) =
      ((C(N \<mapsto> zero_node))(N \<mapsto> Internal n))(p \<mapsto> SetParentPageId N np, q \<mapsto> SetParentPageId N nq)" by simp
  have "node_fits (Internal n)" using n(4) by (simp add: PAGE_SIZE_def)
  then have "new_root p k q (st T r C P S N) =
      (Inr (), st T N (C(N \<mapsto> Internal n, p \<mapsto> SetParentPageId N np, q \<mapsto> SetParentPageId N nq)) P
        (insert N (insert q (insert p (S - {N} - {N})))) (N + 1))"
    unfolding new_root_def using assms fresh card
    by (simp add: exec_simps Let_def n_def [symmetric] del: node_fits.simps)
  moreover have "insert N (insert q (insert p (S - {N} - {N}))) = insert N (insert q (insert p S))" by auto
  ultimately show thesis using that n(1-3) by simp
qed

lemma insert_in_parent_root:
  assumes "pool_ok C P S N" and "C p = Some np" and "GetParentPageId np = INVALID_PAGE_ID" and "room 1 T P"
  shows "insert_in_parent (p, k, q) (st T r C P S N) = bind_out (new_root p k q (st T r C P S N)) (\<lambda>_ t. (Inr None, t))"
  by (simp add: insert_in_parent_def peek_st [OF assms(1,2,4)] assms(3) Let_def)

text \<open>The parent takes the new page and is either wide enough or split.\<close>

lemma insert_in_parent_st:
  assumes "pool_ok C P S N" and "C p = Some np" and "GetParentPageId np = pp" and "C pp = Some (Internal n)"
    and "C q = Some nq" and "node_fits nq" and "pp \<noteq> q" and "room 2 T P"
    and "int_InsertNodeAfter p k q n = Inr n'" and "node_fits (Internal n')"
  defines "C1 \<equiv> C(pp \<mapsto> Internal n', q \<mapsto> SetParentPageId pp nq)"
  shows "insert_in_parent (p, k, q) (st T r C P S N) =
    (if tp_size n' \<le> tp_max n' then (Inr None, st T r C1 P (insert pp (insert q S)) N)
     else bind_out (split_internal pp (st T r C1 P (insert pp (insert q S)) N))
       (\<lambda>(promote, new_pid) t. (Inr (Some (pp, promote, new_pid)), t)))"
proof -
  have "pp \<noteq> INVALID_PAGE_ID" using pool_ok_valid [OF assms(1,4)] by simp
  moreover have "room 1 T P" using assms(8) by (simp add: room_def)
  note peek = peek_st [OF assms(1,2) this]
  have S: "insert pp (insert q (S - {pp})) = insert pp (insert q S)" by auto
  show ?thesis
    unfolding insert_in_parent_def using assms room_cards(1,2) [OF assms(8)] calculation
    by (simp add: peek exec_simps Let_def S C1_def del: node_fits.simps)
qed

lemma split_internal_st:
  assumes "pool_ok C P S N" and "C p = Some (Internal n)" and "2 \<le> tp_size n" and "node_fits (Internal n)"
    and "\<forall>c \<in> snd ` set (children_of n). c \<noteq> p \<and> fits C c" and "room 3 T P" and "N < 2 ^ 31 - 1"
  obtains m m' where "split_internal p (st T r C P S N) =
      (Inr (fst (children_of n ! (tp_size n div 2)), N),
       st T r (reparent N (snd ` set (children_of m')) (C(p \<mapsto> Internal m, N \<mapsto> Internal m'))) P
         (insert N (insert p (S \<union> snd ` set (children_of m')))) (N + 1))"
    and "children_of m = take (tp_size n div 2) (children_of n)" and "children_of m' = drop (tp_size n div 2) (children_of n)"
    and "tp_max m = tp_max n" and "tp_max m' = internal_max_size T" and "tp_parent m = tp_parent n"
    and "node_fits (Internal m)" and "node_fits (Internal m')"
proof -
  let ?s = "tp_size n div 2"
  have s: "?s < tp_size n" using assms(3) by simp
  define k where "k = int_KeyAt n ?s"
  have k: "k = fst (children_of n ! ?s)" using s by (simp add: k_def int_KeyAt_def)
  obtain m m' where mm: "int_MoveHalfTo n ((int_Init (internal_max_size T) zero_child_array)\<lparr>tp_parent := tp_parent n\<rparr>) k = (m, m')"
    by (cases "int_MoveHalfTo n ((int_Init (internal_max_size T) zero_child_array)\<lparr>tp_parent := tp_parent n\<rparr>) k")
  note ok = int_MoveHalfTo_ok [OF mm assms(3)]
  have m': "children_of m' = drop ?s (children_of n)"
    using ok(2) s k by (metis Cons_nth_drop_Suc length_items prod.collapse)
  have fm: "node_fits (Internal m)" "node_fits (Internal m')"
    using arg_cong [OF ok(1), of length] arg_cong [OF m', of length] assms(4) by simp_all
  have fresh: "p \<noteq> N" "N \<notin> set P" "p \<in> dom C"
    using pool_ok_valid [OF assms(1,2)] pool_ok_fresh [OF assms(1)] assms(2) by auto
  define C2 where "C2 = (C(N \<mapsto> zero_node))(p \<mapsto> Internal m, N \<mapsto> Internal m')"
  have "\<forall>c \<in> snd ` set (children_of m'). \<exists>x. C2 c = Some x \<and> node_fits x"
  proof
    fix c assume "c \<in> snd ` set (children_of m')"
    then have "c \<in> snd ` set (children_of n)" using m' by (auto dest: in_set_dropD)
    then have "c \<noteq> p" "fits C c" using assms(5) by auto
    then show "\<exists>x. C2 c = Some x \<and> node_fits x" using fm by (auto simp: C2_def fits_def)
  qed
  moreover have "C2 N = Some (Internal m')" by (simp add: C2_def)
  ultimately have kids: "card (set P') < capacity (bpm T) \<Longrightarrow> set_children_parent e N (st T r C2 P' S' N') =
      (Inr (), st T r (reparent N (snd ` set (children_of m')) C2) P' (S' \<union> snd ` set (children_of m')) N')" for e P' S' N'
    by (intro set_children_parent_st) auto
  have "split_internal p (st T r C P S N) =
      (Inr (k, N), st T r (reparent N (snd ` set (children_of m')) C2) P
         (insert N (insert p (S - {N} - {p} - {N} \<union> snd ` set (children_of m')))) (N + 1))"
    unfolding split_internal_def using assms(1-3,7) fresh room_cards(1,2,3) [OF assms(6)] fm mm
    by (simp add: exec_simps Let_def k_def [symmetric] kids C2_def [symmetric] int_Init_def [symmetric] del: node_fits.simps fun_upd_apply)
  moreover have "insert N (insert p (S - {N} - {p} - {N} \<union> A)) = insert N (insert p (S \<union> A))" for A by auto
  moreover have "C2 = C(p \<mapsto> Internal m, N \<mapsto> Internal m')" using fresh by (simp add: C2_def fun_upd_twist)
  ultimately have "split_internal p (st T r C P S N) =
      (Inr (fst (children_of n ! ?s), N),
       st T r (reparent N (snd ` set (children_of m')) (C(p \<mapsto> Internal m, N \<mapsto> Internal m'))) P
         (insert N (insert p (S \<union> snd ` set (children_of m')))) (N + 1))"
    unfolding k by simp
  then show thesis using that ok(1,3,4,5) m' fm by (simp add: int_Init_def)
qed

section \<open>The climb\<close>

lemma parent_of_upd [simp]: "parent_of (C(p \<mapsto> n)) q = (if q = p then Some (GetParentPageId n) else parent_of C q)"
  by (simp add: parent_of_def)

lemma parent_of_reparent: "c \<in> dom C \<Longrightarrow> parent_of (reparent q A C) c = (if c \<in> A then Some q else parent_of C c)"
  by (auto simp: parent_of_def reparent_def option.map_comp comp_def)

lemma reparent_same [simp]: "same_entries (C x) (reparent q A C x)"
  by (simp add: reparent_def)

lemma dom_reparent [simp]: "dom (reparent q A C) = dom C"
  by (auto simp: reparent_def dom_def)

text \<open>What the climb may touch: parents of the level it starts from, the levels above, new pages.\<close>

definition climbed :: "contents \<Rightarrow> contents \<Rightarrow> page_id set \<Rightarrow> page_id set \<Rightarrow> page_id \<Rightarrow> bool" where
  "climbed C C' A U N \<longleftrightarrow>
     (\<forall>x. x < N \<longrightarrow> x \<notin> A \<longrightarrow> x \<notin> U \<longrightarrow> C' x = C x) \<and> (\<forall>x \<in> A. same_entries (C x) (C' x))"

definition insert_result ::
  "BPlusTree \<Rightarrow> contents \<Rightarrow> nat \<Rightarrow> head list \<Rightarrow> (int \<times> page_id) lnode list list \<Rightarrow> page_id list \<Rightarrow> page_id \<Rightarrow>
   (bool, BPlusTree) outcome option \<Rightarrow> bool" where
  "insert_result T C M H ups P N res \<longleftrightarrow>
     (\<exists>r' C' S' N' ups'. res = Some (Inr True, st T r' C' P S' N') \<and> tower C' M H ups' r' \<and> pool_ok C' P S' N' \<and>
        N \<le> N' \<and> N' \<le> N + int (length ups) + 1 \<and> ups' \<noteq> [] \<and> distinct (tower_pages ups') \<and>
        set (tower_pages ups') \<subseteq> set (tower_pages ups) \<union> {N..<N'} \<and>
        climbed C C' (snd ` set H) (set (tower_pages ups)) N)"

lemma insert_up_root:
  assumes "tower C M [(None, p)] [] r" and "q \<noteq> p" and "fits C p" and "fits C q"
    and "pool_ok C P S N" and "room 2 T P" and "N < 2 ^ 31 - 1" and "M = internal_max_size T" and "2 \<le> M"
  shows "insert_result T C M [(None, p), (Some k, q)] [] P N (insert_up (p, k, q) (st T r C P S N))"
proof -
  from assms(3,4) obtain np nq where n: "C p = Some np" "node_fits np" "C q = Some nq" "node_fits nq" by (auto simp: fits_def)
  have "room 1 T P" using assms(6) by (simp add: room_def)
  have par: "GetParentPageId np = INVALID_PAGE_ID" using assms(1) n(1) by (simp add: parent_of_def)
  from new_root_st [OF assms(5) n assms(2) [symmetric] assms(6,7)] obtain root where
    r: "new_root p k q (st T r C P S N) =
      (Inr (), st T N (C(N \<mapsto> Internal root, p \<mapsto> SetParentPageId N np, q \<mapsto> SetParentPageId N nq)) P
        (insert N (insert q (insert p S))) (N + 1))"
    "children_of root = [(0, p), (k, q)]" "tp_max root = internal_max_size T" "tp_parent root = INVALID_PAGE_ID" .
  define C' where "C' = C(N \<mapsto> Internal root, p \<mapsto> SetParentPageId N np, q \<mapsto> SetParentPageId N nq)"
  have fresh: "p \<noteq> N" "q \<noteq> N" using pool_ok_valid [OF assms(5)] n by auto
  have "insert_up (p, k, q) (st T r C P S N) = Some (Inr True, st T N C' P (insert N (insert q (insert p S))) (N + 1))"
    by (subst insert_up.simps)
      (simp add: insert_in_parent_root [OF assms(5) n(1) par \<open>room 1 T P\<close>] r(1) C'_def)
  moreover have "tower C' M [(None, p), (Some k, q)] [[(None, N, [(0, p), (k, q)])]] N"
    using fresh assms(2,8,9) r(2-4) by (auto simp: C'_def least_width_def)
  moreover have "pool_ok C' P (insert N (insert q (insert p S))) (N + 1)"
    using assms(5) n fresh by (auto simp: pool_ok_def C'_def subset_iff)
  moreover have "climbed C C' {p, q} {} N"
    using n assms(2) by (simp add: climbed_def C'_def)
  ultimately show ?thesis unfolding insert_result_def
    by (intro exI [of _ N] exI [of _ C'] exI [of _ "insert N (insert q (insert p S))"] exI [of _ "N + 1"]
        exI [of _ "[[(None, N, [(0, p), (k, q)])]]"]) simp
qed

lemma tower_dom: "tower C M H ups r \<Longrightarrow> x \<in> set (tower_pages ups) \<Longrightarrow> \<exists>n. C x = Some (Internal n) \<and> tp_size n \<le> M"
proof (induction ups arbitrary: H)
  case (Cons lv ups)
  show ?case
  proof (cases "x \<in> set (pids lv)")
    case True
    then obtain lo cs where "(lo, x, cs) \<in> set lv" by auto
    then have "inner C M (lo, x, cs)" "width_ok (least_width M ups) M (lo, x, cs)" using Cons.prems(1) by (simp_all del: inner.simps width_ok.simps)
    then show ?thesis by auto
  next
    case False
    then show ?thesis using Cons.IH [of "heads lv"] Cons.prems by auto
  qed
qed simp

text \<open>The parent of a node of a level, with the neighbours of both.\<close>

lemma parent_found:
  assumes "tower C M (A @ (lo, p) # B) (lv # ups) r"
  obtains X lo' pp Y A' B' a k b n where "lv = X @ (lo', pp, a @ (k, p) # b) # Y" and "length a = length A'"
    and "A = concat (map kids X) @ A'" and "B = B' @ concat (map kids Y)" and "B' = map (apfst Some) b"
    and "\<forall>ys. kids (lo', pp, a @ (k, p) # ys) = A' @ (lo, p) # map (apfst Some) ys"
    and "C pp = Some (Internal n)" and "children_of n = a @ (k, p) # b" and "tp_max n = M" and "parent_of C p = Some pp"
proof -
  from assms have "concat (map kids lv) = A @ (lo, p) # B" by simp
  from level_split [OF this] obtain X x Y A' B' where lv: "lv = X @ x # Y" "kids x = A' @ (lo, p) # B'"
    "A = concat (map kids X) @ A'" "B = B' @ concat (map kids Y)" .
  obtain lo' pp cs where x: "x = (lo', pp, cs)" by (cases x)
  from kids_split [OF lv(2) [unfolded x]] obtain a k b where k: "cs = a @ (k, p) # b" "length a = length A'"
    "B' = map (apfst Some) b" "\<forall>ys. kids (lo', pp, a @ (k, p) # ys) = A' @ (lo, p) # map (apfst Some) ys" .
  have "inner C M (lo', pp, cs)" using assms lv(1) x by (simp del: inner.simps)
  then obtain n where "C pp = Some (Internal n)" "children_of n = cs" "tp_max n = M" "parent_of C p = Some pp"
    using k(1) by auto
  then show thesis using that [OF _ k(2) lv(3,4) k(3,4)] lv(1) x k(1) by simp
qed

text \<open>Other nodes of the level are not affected by a change of one node and of a new page.\<close>

lemma inner_others:
  assumes "inner C M y" and "C' (fst (snd y)) = C (fst (snd y))" and "\<forall>c \<in> snd ` set (snd (snd y)). parent_of C' c = parent_of C c"
  shows "inner C' M y"
proof (cases y)
  case (fields lo p cs)
  then show ?thesis using inner_frame [of C M lo p cs C'] assms by (simp del: inner.simps)
qed

end
