(* ===== verification/BPlus_Climb.thy ===== *)
theory BPlus_Climb
  imports BPlus_Insert
begin

text \<open>
  The climb of \<open>Insert\<close> through all levels: a node next to a node of some level is entered into the
  parent, the parent is split when it overflows, and so on up to a new root.
\<close>

definition level_ok :: "contents \<Rightarrow> nat \<Rightarrow> nat \<Rightarrow> (int \<times> page_id) lnode list \<Rightarrow> bool" where
  "level_ok C M w lv \<longleftrightarrow> (\<forall>x \<in> set lv. inner C M x \<and> width_ok w M x)"

lemma tower_Cons:
  "tower C M H (lv # ups) r \<longleftrightarrow> concat (map kids lv) = H \<and> level_ok C M (least_width M ups) lv \<and> tower C M (heads lv) ups r"
  by (simp add: level_ok_def)

declare tower.simps(2) [simp del]

lemma level_ok_width: "level_ok C M w lv \<Longrightarrow> (lo, p, ks) \<in> set lv \<Longrightarrow> w \<le> length ks \<and> length ks \<le> M"
  unfolding level_ok_def by fastforce

lemma snd_set_heads: "snd ` set (heads lv) = set (pids lv)"
  by (simp add: image_image)

lemma inner_children: "inner C M (lo, p, cs) \<Longrightarrow> c \<in> snd ` set cs \<Longrightarrow> parent_of C c = Some p"
  by auto

lemma inner_fits: "inner C M (lo, p, cs) \<Longrightarrow> length cs \<le> 510 \<Longrightarrow> fits C p"
  by (auto simp: fits_def PAGE_SIZE_def)

abbreviation child_ids :: "(int \<times> page_id) lnode \<Rightarrow> page_id list" where
  "child_ids x \<equiv> map snd (snd (snd x))"

lemma snd_concat_kids: "map snd (concat (map kids lv)) = concat (map child_ids lv)"
proof (induction lv)
  case (Cons x lv)
  then show ?case by (cases x) simp
qed simp

lemma distinct_neighbours:
  "distinct (concat (map f (X @ x # Y))) \<Longrightarrow> y \<in> set X \<union> set Y \<Longrightarrow> c \<in> set (f y) \<Longrightarrow> c \<notin> set (f x)"
  by auto

text \<open>Replacing one node of a level.\<close>

lemma level_replace:
  assumes "level_ok C M w (X @ x # Y)" and "distinct (concat (map child_ids (X @ x # Y)))"
    and "\<forall>y \<in> set (pids (X @ Y)). C' y = C y"
    and "\<forall>c. c \<notin> set (child_ids x) \<longrightarrow> c \<in> set (concat (map child_ids (X @ Y))) \<longrightarrow> parent_of C' c = parent_of C c"
    and "\<forall>z \<in> set Z. inner C' M z \<and> width_ok w M z"
  shows "level_ok C' M w (X @ Z @ Y)"
proof -
  have "inner C' M y" if y: "y \<in> set X \<union> set Y" for y
  proof (rule inner_others)
    show "inner C M y" using assms(1) y by (auto simp: level_ok_def simp del: inner.simps)
    show "C' (fst (snd y)) = C (fst (snd y))" using assms(3) y by auto
    have "c \<notin> set (child_ids x)" "c \<in> set (concat (map child_ids (X @ Y)))" if "c \<in> set (child_ids y)" for c
      using distinct_neighbours [OF assms(2) y that] y that by auto
    then show "\<forall>c \<in> snd ` set (snd (snd y)). parent_of C' c = parent_of C c"
      using assms(4) by (simp only: set_map [symmetric]) blast
  qed
  then show ?thesis using assms(1,5) by (auto simp: level_ok_def simp del: inner.simps width_ok.simps)
qed

section \<open>Entering a page into the parent\<close>

lemma enter_parent:
  assumes "tower C M (A @ (lo, p) # B) (lv # ups) r" and "distinct (q # map snd (A @ (lo, p) # B) @ tower_pages (lv # ups))"
    and "fits C p" and "fits C q" and "pool_ok C P S N" and "room 2 T P" and "M \<le> 509"
  obtains X lo' pp cs Y n' C1 cs' where "lv = X @ (lo', pp, cs) # Y"
    and "insert_in_parent (p, k, q) (st T r C P S N) =
      (if length cs' \<le> M then (Inr None, st T r C1 P (insert pp (insert q S)) N)
       else bind_out (split_internal pp (st T r C1 P (insert pp (insert q S)) N))
         (\<lambda>(promote, new_pid) t. (Inr (Some (pp, promote, new_pid)), t)))"
    and "C1 pp = Some (Internal n')" and "children_of n' = cs'" and "tp_max n' = M" and "length cs' = Suc (length cs)"
    and "set (map snd cs') = insert q (set (map snd cs))" and "distinct (map snd cs')"
    and "concat (map kids X) @ kids (lo', pp, cs') @ concat (map kids Y) = A @ (lo, p) # (Some k, q) # B"
    and "\<forall>x. x \<noteq> pp \<longrightarrow> x \<noteq> q \<longrightarrow> C1 x = C x" and "parent_of C1 pp = parent_of C pp" and "parent_of C1 q = Some pp"
    and "same_entries (C q) (C1 q)" and "dom C1 = dom C" and "pp \<noteq> q"
proof -
  from parent_found [OF assms(1)] obtain X lo' pp Y A' B' a kp b n where
    f: "lv = X @ (lo', pp, a @ (kp, p) # b) # Y" "length a = length A'" "A = concat (map kids X) @ A'"
    "B = B' @ concat (map kids Y)" "B' = map (apfst Some) b"
    "\<forall>ys. kids (lo', pp, a @ (kp, p) # ys) = A' @ (lo, p) # map (apfst Some) ys"
    "C pp = Some (Internal n)" "children_of n = a @ (kp, p) # b" "tp_max n = M" "parent_of C p = Some pp" .
  from assms(3,4) obtain np nq where n: "C p = Some np" "C q = Some nq" "node_fits nq" by (auto simp: fits_def)
  have par: "GetParentPageId np = pp" using f(10) n(1) by (simp add: parent_of_def)
  have pq: "pp \<noteq> q" using assms(2) f(1) by auto
  have "map snd (A @ (lo, p) # B) = concat (map child_ids lv)"
    using assms(1) snd_concat_kids [of lv] by (simp add: tower_Cons)
  then have ids: "distinct (concat (map child_ids lv))" "q \<notin> set (concat (map child_ids lv))"
    using assms(2) by (simp_all add: distinct_append del: set_concat)
  then have ids': "distinct (map snd (a @ (kp, p) # b))" "q \<notin> set (map snd (a @ (kp, p) # b))" using f(1) by auto
  have wide: "length (a @ (kp, p) # b) \<le> M" using assms(1) f(1) by (simp add: tower_Cons level_ok_def)
  have "tp_size n = length (a @ (kp, p) # b)" using f(8) by (metis length_items)
  then have "length a < tp_size n" "snd (children_of n ! length a) = p" unfolding f(8) by simp_all
  from int_InsertNodeAfter_ok [OF _ this, of k q] ids'(1) f(8) obtain n' where
    n': "int_InsertNodeAfter p k q n = Inr n'" "children_of n' = insert_at (Suc (length a)) (k, q) (children_of n)"
    "tp_max n' = tp_max n" "tp_parent n' = tp_parent n" "tp_size n' = Suc (tp_size n)" by metis
  define cs' where "cs' = a @ (kp, p) # (k, q) # b"
  have cs': "children_of n' = cs'" using n'(2) f(8) by (simp add: insert_at_def cs'_def)
  have size: "tp_size n' = length cs'" using cs' by (metis length_items)
  then have fit: "node_fits (Internal n')" using wide assms(7) by (simp add: cs'_def PAGE_SIZE_def)
  define C1 where "C1 = C(pp \<mapsto> Internal n', q \<mapsto> SetParentPageId pp nq)"
  have step: "insert_in_parent (p, k, q) (st T r C P S N) =
      (if length cs' \<le> M then (Inr None, st T r C1 P (insert pp (insert q S)) N)
       else bind_out (split_internal pp (st T r C1 P (insert pp (insert q S)) N))
         (\<lambda>(promote, new_pid) t. (Inr (Some (pp, promote, new_pid)), t)))"
    unfolding insert_in_parent_st [OF assms(5) n(1) par f(7) n(2,3) pq assms(6) n'(1) fit]
    using n'(3) f(9) size by (simp add: C1_def)
  show thesis
  proof (rule that [of X lo' pp "a @ (kp, p) # b" Y cs' C1 n'])
    show "concat (map kids X) @ kids (lo', pp, cs') @ concat (map kids Y) = A @ (lo, p) # (Some k, q) # B"
      using f(3-6) by (simp add: cs'_def)
    show "dom C1 = dom C" using f(7) n by (auto simp: C1_def)
    show "parent_of C1 pp = parent_of C pp" using f(7) n'(4) pq by (simp add: C1_def parent_of_def)
    show "tp_max n' = M" using n'(3) f(9) by simp
    show "set (map snd cs') = insert q (set (map snd (a @ (kp, p) # b)))" by (auto simp: cs'_def)
    show "distinct (map snd cs')" using ids' by (auto simp: cs'_def)
  qed (rule f(1) step cs' pq | simp add: C1_def n pq cs'_def)+
qed

text \<open>Pages of the tower above a level, and pages that the climb has not reached.\<close>

lemma insert_up_wide:
  assumes "tower C M H (lv # ups) r" and "distinct (q # map snd H @ tower_pages (lv # ups))" and "pool_ok C P S N" and "fits C q"
    and "lv = X @ (lo', pp, cs) # Y" and "C1 pp = Some (Internal n')" and "children_of n' = cs'" and "tp_max n' = M"
    and "length cs' = Suc (length cs)" and "length cs' \<le> M" and "set (map snd cs') = insert q (set (map snd cs))"
    and "concat (map kids X) @ kids (lo', pp, cs') @ concat (map kids Y) = H'"
    and "\<forall>x. x \<noteq> pp \<longrightarrow> x \<noteq> q \<longrightarrow> C1 x = C x" and "parent_of C1 pp = parent_of C pp" and "parent_of C1 q = Some pp"
    and "same_entries (C q) (C1 q)" and "dom C1 = dom C" and "snd ` set H' = insert q (snd ` set H)"
  shows "insert_result T C M H' (lv # ups) P N (Some (Inr True, st T r C1 P (insert pp (insert q S)) N))"
proof -
  have H: "map snd H = concat (map child_ids lv)" using assms(1) snd_concat_kids [of lv] by (simp add: tower_Cons)
  have dH: "distinct (map snd H)" using assms(2) by simp
  have lvl: "level_ok C M (least_width M ups) (X @ (lo', pp, cs) # Y)" using assms(1,5) by (simp add: tower_Cons)
  have out: "x \<noteq> pp \<and> x \<noteq> q" if "x \<in> set (map snd H) \<union> set (pids (X @ Y)) \<union> set (tower_pages ups)" for x
    using assms(2,5) that by auto
  have same: "C1 x = C x" if "x \<in> set (map snd H) \<union> set (pids (X @ Y)) \<union> set (tower_pages ups)" for x
    using out [OF that] assms(13) by blast
  have pos: "parent_of C1 c = Some pp" if "c \<in> set (map snd cs)" for c
  proof -
    have "c \<in> set (map snd H)" using that unfolding H assms(5) by auto
    then have "parent_of C1 c = parent_of C c" using out assms(13) by (simp add: parent_of_def)
    then show ?thesis using lvl that by (auto simp: level_ok_def)
  qed
  have new: "inner C1 M (lo', pp, cs')" "width_ok (least_width M ups) M (lo', pp, cs')"
    using assms(6-11,15) pos lvl by (auto simp: level_ok_def simp flip: set_map)
  have "level_ok C1 M (least_width M ups) (X @ [(lo', pp, cs')] @ Y)"
  proof (rule level_replace [OF lvl])
    show "distinct (concat (map child_ids (X @ (lo', pp, cs) # Y)))" using dH unfolding H assms(5) .
    show "\<forall>y \<in> set (pids (X @ Y)). C1 y = C y" using out assms(13) by blast
    show "\<forall>c. c \<notin> set (child_ids (lo', pp, cs)) \<longrightarrow> c \<in> set (concat (map child_ids (X @ Y))) \<longrightarrow> parent_of C1 c = parent_of C c"
    proof (intro allI impI)
      fix c assume "c \<in> set (concat (map child_ids (X @ Y)))"
      then have "c \<in> set (map snd H)" unfolding H assms(5) by auto
      then show "parent_of C1 c = parent_of C c" using out assms(13) by (simp add: parent_of_def)
    qed
  qed (use new in simp)
  moreover have "tower C1 M (heads (X @ [(lo', pp, cs')] @ Y)) ups r"
  proof (rule tower_frame [where C = C])
    show "tower C M (heads (X @ [(lo', pp, cs')] @ Y)) ups r" using assms(1,5) by (simp add: tower_Cons)
    show "\<forall>x \<in> set (tower_pages ups). C1 x = C x" using out assms(13) by blast
    show "\<forall>c \<in> snd ` set (heads (X @ [(lo', pp, cs')] @ Y)). parent_of C1 c = parent_of C c"
    proof
      fix c assume "c \<in> snd ` set (heads (X @ [(lo', pp, cs')] @ Y))"
      then have "c = pp \<or> c \<in> set (pids (X @ Y))" unfolding snd_set_heads by auto
      then show "parent_of C1 c = parent_of C c" using same [of c] assms(14) unfolding parent_of_def by (metis UnCI)
    qed
  qed
  ultimately have "tower C1 M H' ((X @ [(lo', pp, cs')] @ Y) # ups) r" using assms(12) by (simp add: tower_Cons)
  moreover have "pool_ok C1 P (insert pp (insert q S)) N" using assms(3,17) by (auto simp: pool_ok_def)
  moreover have "climbed C C1 (snd ` set H') (set (tower_pages (lv # ups))) N"
    unfolding climbed_def using assms(5,13,16,18) out by auto
  ultimately show ?thesis unfolding insert_result_def using assms(2,5)
    by (intro exI [of _ r] exI [of _ C1] exI [of _ "insert pp (insert q S)"] exI [of _ N]
        exI [of _ "(X @ [(lo', pp, cs')] @ Y) # ups"]) (auto simp: distinct_append)
qed

section \<open>Splitting the parent\<close>

lemma distinct_parts:
  assumes "distinct (q # A @ B)"
  shows "q \<notin> set A" and "q \<notin> set B" and "distinct A" and "distinct B" and "set A \<inter> set B = {}"
  using assms by auto

text \<open>
  The pages after the parent \<open>pp\<close>, which holds \<open>cs\<close> and the new page \<open>q\<close>, has been split at \<open>s\<close>
  into \<open>pp\<close> and a new page \<open>N\<close>.
\<close>

definition split_pages ::
  "contents \<Rightarrow> contents \<Rightarrow> nat \<Rightarrow> page_id \<Rightarrow> page_id \<Rightarrow> page_id \<Rightarrow> (int \<times> page_id) list \<Rightarrow> (int \<times> page_id) list \<Rightarrow> bool" where
  "split_pages C C2 M pp q N cs1 cs2 \<longleftrightarrow>
     (\<forall>x. x \<noteq> pp \<longrightarrow> x \<noteq> N \<longrightarrow> x \<notin> set (map snd (cs1 @ cs2)) \<longrightarrow> C2 x = C x) \<and>
     (\<forall>x \<in> set (map snd (cs1 @ cs2)). same_entries (C x) (C2 x)) \<and>
     inner C2 M (None, pp, cs1) \<and> inner C2 M (None, N, cs2) \<and> parent_of C2 pp = parent_of C pp"

lemma split_pages_intro:
  assumes "\<forall>x. x \<noteq> pp \<longrightarrow> x \<noteq> q \<longrightarrow> C1 x = C x" and "same_entries (C q) (C1 q)" and "parent_of C1 q = Some pp"
    and "parent_of C1 pp = parent_of C pp" and "C1 pp = Some (Internal n')"
    and "children_of m = cs1" and "children_of m' = cs2" and "tp_max m = M" and "tp_max m' = M" and "tp_parent m = tp_parent n'"
    and "q \<in> set (map snd (cs1 @ cs2))" and "distinct (map snd (cs1 @ cs2))"
    and "\<forall>c \<in> set (map snd (cs1 @ cs2)). c \<noteq> pp \<and> c \<noteq> N \<and> c \<in> dom C1 \<and> (c \<noteq> q \<longrightarrow> parent_of C c = Some pp)" and "pp \<noteq> N"
  shows "split_pages C (reparent N (snd ` set cs2) (C1(pp \<mapsto> Internal m, N \<mapsto> Internal m'))) M pp q N cs1 cs2"
    (is "split_pages C ?C2 M pp q N cs1 cs2")
proof -
  let ?A = "set (map snd (cs1 @ cs2))"
  have ends: "pp \<notin> ?A" "N \<notin> ?A" using assms(13) by blast+
  have kid: "?C2 x = (if x \<in> snd ` set cs2 then map_option (SetParentPageId N) (C1 x) else C1 x)" if "x \<in> ?A" for x
    using that ends by (auto simp: reparent_def)
  have "same_entries (C x) (?C2 x)" if "x \<in> ?A" for x
    using kid [OF that] assms(1,2) ends that by (cases "x = q") auto
  moreover have par: "parent_of ?C2 x = Some (if x \<in> snd ` set cs2 then N else pp)" if "x \<in> ?A" for x
  proof -
    have "parent_of C1 x = Some pp" using assms(1,3,13) that ends by (cases "x = q") (auto simp: parent_of_def)
    then show ?thesis using kid [OF that] by (auto simp: parent_of_def option.map_comp comp_def)
  qed
  moreover have top: "?C2 pp = Some (Internal m)" "?C2 N = Some (Internal m')"
    using ends assms(14) by (auto simp: reparent_def)
  have "inner ?C2 M (None, pp, cs1)" unfolding inner.simps
  proof (intro conjI ballI)
    show "\<exists>n. ?C2 pp = Some (Internal n) \<and> children_of n = cs1 \<and> tp_max n = M" using top(1) assms(6,8) by simp
    show "parent_of ?C2 c = Some pp" if "c \<in> snd ` set cs1" for c
    proof -
      have "c \<notin> snd ` set cs2" using assms(12) that by auto
      moreover have "c \<in> ?A" using that by simp
      ultimately show ?thesis using par [of c] by simp
    qed
  qed
  moreover have "inner ?C2 M (None, N, cs2)" unfolding inner.simps
  proof (intro conjI ballI)
    show "\<exists>n. ?C2 N = Some (Internal n) \<and> children_of n = cs2 \<and> tp_max n = M" using top(2) assms(7,9) by simp
    show "parent_of ?C2 c = Some N" if "c \<in> snd ` set cs2" for c using par [of c] that by simp
  qed
  moreover have "parent_of ?C2 pp = parent_of C pp" using top(1) assms(4,5,10) by (simp add: parent_of_def)
  moreover have "?C2 x = C x" if "x \<noteq> pp" "x \<noteq> N" "x \<notin> ?A" for x
    using that assms(1,11) by (auto simp: reparent_def)
  ultimately show ?thesis unfolding split_pages_def by blast
qed

lemma inner_any_bound: "inner C M (lo, p, cs) = inner C M (lo', p, cs)"
  by simp

lemma split_level:
  assumes "tower C M H (lv # ups) r" and "distinct (q # map snd H @ tower_pages (lv # ups))" and "lv = X @ (lo', pp, cs) # Y"
    and "split_pages C C2 M pp q N cs1 cs2" and "insert q (set (map snd cs)) = set (map snd (cs1 @ cs2))"
    and "N \<notin> set (map snd H @ tower_pages (lv # ups))"
  shows "tower C2 M (heads lv) ups r"
    and "\<forall>y \<in> set X \<union> set Y. inner C2 M y"
proof -
  have H: "map snd H = concat (map child_ids lv)" using assms(1) snd_concat_kids [of lv] by (simp add: tower_Cons)
  note d = distinct_parts [OF assms(2)]
  have dH: "distinct (concat (map child_ids (X @ (lo', pp, cs) # Y)))" using d(3) unfolding H assms(3) .
  have out: "x \<noteq> pp \<and> x \<noteq> N \<and> x \<notin> set (map snd (cs1 @ cs2))" if x: "x \<in> set (pids (X @ Y)) \<union> set (tower_pages ups)" for x
  proof -
    have "x \<in> set (tower_pages (lv # ups))" using x assms(3) by auto
    moreover have "set (map snd cs) \<subseteq> set (map snd H)" unfolding H assms(3) by auto
    moreover have "x \<noteq> pp" using d(4) x assms(3) by auto
    ultimately show ?thesis using d(2,5) assms(6) unfolding assms(5) [symmetric] set_append by blast
  qed
  have same: "C2 x = C x" if "x \<in> set (pids (X @ Y)) \<union> set (tower_pages ups)" for x
    using out [OF that] assms(4) unfolding split_pages_def by blast
  show "tower C2 M (heads lv) ups r"
  proof (rule tower_frame [where C = C])
    show "tower C M (heads lv) ups r" using assms(1) by (simp add: tower_Cons)
    show "\<forall>x \<in> set (tower_pages ups). C2 x = C x" using same by blast
    show "\<forall>c \<in> snd ` set (heads lv). parent_of C2 c = parent_of C c"
    proof
      fix c assume "c \<in> snd ` set (heads lv)"
      then have "c = pp \<or> c \<in> set (pids (X @ Y))" unfolding snd_set_heads assms(3) by auto
      then show "parent_of C2 c = parent_of C c" using same [of c] assms(4) unfolding parent_of_def split_pages_def by (metis UnCI)
    qed
  qed
  show "\<forall>y \<in> set X \<union> set Y. inner C2 M y"
  proof
    fix y assume y: "y \<in> set X \<union> set Y"
    show "inner C2 M y"
    proof (rule inner_others)
      show "inner C M y" using assms(1,3) y by (auto simp: tower_Cons level_ok_def simp del: inner.simps)
      show "C2 (fst (snd y)) = C (fst (snd y))" using same y by auto
      show "\<forall>c \<in> snd ` set (snd (snd y)). parent_of C2 c = parent_of C c"
      proof
        fix c assume "c \<in> snd ` set (snd (snd y))"
        then have c: "c \<in> set (child_ids y)" by simp
        have "c \<in> set (map snd H)" using c y unfolding H assms(3) by auto
        then have "c \<noteq> q" "c \<noteq> pp" "c \<noteq> N" using assms(2,3,6) by auto
        moreover have "c \<notin> set (map snd cs)" using distinct_neighbours [OF dH y c] by simp
        ultimately have "C2 c = C c" using assms(4,5) unfolding split_pages_def by blast
        then show "parent_of C2 c = parent_of C c" by (simp add: parent_of_def)
      qed
    qed
  qed
qed

lemma width_mono: "width_ok w M x \<Longrightarrow> w' \<le> w \<Longrightarrow> width_ok w' M x"
  by (cases x) auto

lemma top_level_single: "tower C M (heads (X @ x # Y)) [] r \<Longrightarrow> X = [] \<and> Y = []"
  by (cases X) (auto simp: append_eq_Cons_conv)

lemma distinct_climb:
  fixes N :: int
  assumes "distinct (A @ U)" and "\<forall>x \<in> set (A @ U). x < N" and "distinct V" and "distinct A'" and "set A' = insert N (set A)"
    and "set V \<subseteq> set U \<union> {N + 1..<N'}" and "N + 1 \<le> N'"
  shows "distinct (A' @ V)" and "set (A' @ V) \<subseteq> set (A @ U) \<union> {N..<N'}"
proof -
  have V: "x \<in> set U \<or> N < x \<and> x < N'" if "x \<in> set V" for x using subsetD [OF assms(6) that] by auto
  have "x \<notin> set V" if x: "x \<in> set A'" for x
  proof
    assume "x \<in> set V"
    from V [OF this] have "x \<in> set U \<or> N < x" by blast
    moreover from x assms(5) have "x = N \<or> x \<in> set A" by blast
    moreover have "set A \<inter> set U = {}" "\<forall>y \<in> set A. y < N" "\<forall>y \<in> set U. y < N" using assms(1,2) by auto
    ultimately show False by force
  qed
  then show "distinct (A' @ V)" using assms(3,4) by auto
  show "set (A' @ V) \<subseteq> set (A @ U) \<union> {N..<N'}"
  proof
    fix x assume "x \<in> set (A' @ V)"
    then consider "x \<in> set A'" | "x \<in> set V" by auto
    then show "x \<in> set (A @ U) \<union> {N..<N'}"
    proof cases
      case 1
      then have "x = N \<or> x \<in> set A" using assms(5) by blast
      then show ?thesis using assms(7) by auto
    next
      case 2
      then show ?thesis using V [OF 2] by auto
    qed
  qed
qed

lemma insert_up_split:
  assumes t: "tower C M H (lv # ups) r" and d: "distinct (q # map snd H @ tower_pages (lv # ups))" and lv: "lv = X @ (lo', pp, cs) # Y"
    and sp: "split_pages C C2 M pp q N cs1 cs2" and ids: "insert q (set (map snd cs)) = set (map snd (cs1 @ cs2))"
    and old: "\<forall>x \<in> set (q # map snd H @ tower_pages (lv # ups)). x < N"
    and up: "insert_result T C2 M (heads X @ (lo', pp) # (Some k, N) # heads Y) ups P (N + 1) res"
    and H': "concat (map kids X) @ kids (lo', pp, cs1) @ kids (Some k, N, cs2) @ concat (map kids Y) = H'"
    and w: "internal_min_size M \<le> length cs1" "length cs1 \<le> M" "internal_min_size M \<le> length cs2" "length cs2 \<le> M"
    and HH: "set (map snd H') = insert q (set (map snd H))"
  shows "insert_result T C M H' (lv # ups) P N res"
proof -
  let ?lv = "X @ (lo', pp, cs1) # (Some k, N, cs2) # Y"
  have new: "N \<notin> set (map snd H @ tower_pages (lv # ups))" using old by auto
  note lvl = split_level [OF t d lv sp ids new]
  note dp = distinct_parts [OF d]
  have H: "map snd H = concat (map child_ids lv)" using t snd_concat_kids [of lv] by (simp add: tower_Cons)
  have heads: "heads ?lv = heads X @ (lo', pp) # (Some k, N) # heads Y" by simp
  from up obtain r' C' S' N' ups' where u: "res = Some (Inr True, st T r' C' P S' N')" "tower C' M (heads ?lv) ups' r'" "pool_ok C' P S' N'"
    "N + 1 \<le> N'" "N' \<le> N + 1 + int (length ups) + 1" "ups' \<noteq> []" "distinct (tower_pages ups')"
    "set (tower_pages ups') \<subseteq> set (tower_pages ups) \<union> {N + 1..<N'}"
    "climbed C2 C' (snd ` set (heads ?lv)) (set (tower_pages ups)) (N + 1)"
    unfolding insert_result_def heads by blast
  have lv': "set (pids ?lv) = insert N (set (pids lv))" using lv by auto
  have kid: "C' c = C2 c" if "c \<in> insert q (set (map snd H))" for c
  proof -
    have "c < N" using that old by auto
    moreover have "c \<notin> set (pids lv)" "c \<notin> set (tower_pages ups)" using that dp(2,5) by auto
    ultimately show ?thesis using u(9) unfolding climbed_def snd_set_heads lv' by auto
  qed
  have "inner C' M x" if x: "x \<in> set ?lv" for x
  proof -
    obtain lo p ks where xx: "x = (lo, p, ks)" by (cases x)
    have halves: "inner C2 M (lo', pp, cs1)" "inner C2 M (Some k, N, cs2)"
      using sp inner_any_bound unfolding split_pages_def by blast+
    from x consider "x \<in> set X \<union> set Y" | "x = (lo', pp, cs1)" | "x = (Some k, N, cs2)" by auto
    then have "inner C2 M x" using lvl(2) halves by cases (blast, simp_all only:)
    moreover have "p \<in> set (pids ?lv)" using x xx by force
    then have "same_entries (C2 p) (C' p)" using u(9) unfolding climbed_def snd_set_heads by blast
    moreover have "snd ` set ks \<subseteq> insert q (set (map snd H))"
    proof (cases "x \<in> set X \<union> set Y")
      case True
      then have "set (child_ids x) \<subseteq> set (map snd H)" unfolding H lv by auto
      then show ?thesis unfolding xx by auto
    next
      case False
      then have "snd ` set ks \<subseteq> insert q (set (map snd cs))" using x xx ids by auto
      moreover have "set (map snd cs) \<subseteq> set (map snd H)" unfolding H lv by auto
      ultimately show ?thesis by blast
    qed
    then have "C' c = C2 c" if "c \<in> snd ` set ks" for c using kid [of c] that by blast
    then have "\<forall>c \<in> snd ` set ks. parent_of C' c = parent_of C2 c" by (simp add: parent_of_def)
    ultimately show ?thesis unfolding xx by (intro inner_frame [of C2 M lo p ks C'])
  qed
  moreover have "width_ok (internal_min_size M) M x" if "x \<in> set ?lv" for x
  proof (cases "x \<in> set X \<union> set Y")
    case True
    then have "ups \<noteq> []" using t top_level_single [of C M X "(lo', pp, cs)" Y r] lv by (auto simp: tower_Cons)
    then show ?thesis using t True lv by (auto simp: tower_Cons level_ok_def least_width_def simp del: width_ok.simps)
  qed (use that w in auto)
  ultimately have "level_ok C' M (least_width M ups') ?lv" using u(6) by (simp add: level_ok_def least_width_def del: inner.simps width_ok.simps)
  then have "tower C' M H' (?lv # ups') r'" using u(2) H' by (simp add: tower_Cons)
  moreover have "climbed C C' (snd ` set H') (set (tower_pages (lv # ups))) N" unfolding climbed_def
  proof (intro conjI allI impI ballI)
    fix x assume x: "x < N" "x \<notin> snd ` set H'" "x \<notin> set (tower_pages (lv # ups))"
    then have "x \<notin> insert q (set (map snd cs))" using HH unfolding H lv by auto
    then have "C2 x = C x" using sp x(1,3) lv unfolding split_pages_def ids by auto
    then show "C' x = C x" using u(9) x unfolding climbed_def snd_set_heads lv' by auto
  next
    fix x assume "x \<in> snd ` set H'"
    then have x: "x \<in> insert q (set (map snd H))" using HH by simp
    then have "x \<noteq> pp" "x \<noteq> N" using dp(2,5) new lv old by auto
    then have "same_entries (C x) (C2 x)" using sp unfolding split_pages_def by (metis same_entries_refl)
    then show "same_entries (C x) (C' x)" using kid [OF x] by simp
  qed
  moreover have pages: "distinct (tower_pages (?lv # ups'))" "set (tower_pages (?lv # ups')) \<subseteq> set (tower_pages (lv # ups)) \<union> {N..<N'}"
  proof -
    have d0: "distinct (pids lv @ tower_pages ups)" using dp(4) by simp
    have small: "\<forall>x \<in> set (pids lv @ tower_pages ups). x < N" using old by simp
    have "distinct (pids ?lv)" using d0 small lv by auto
    note c = distinct_climb [OF d0 small u(7) this lv' u(8,4)]
    show "distinct (tower_pages (?lv # ups'))" "set (tower_pages (?lv # ups')) \<subseteq> set (tower_pages (lv # ups)) \<union> {N..<N'}"
      using c by (simp_all only: list.map concat.simps)
  qed
  ultimately show ?thesis unfolding insert_result_def using u(1,3,4,5)
    by (intro exI [of _ r'] exI [of _ C'] exI [of _ S'] exI [of _ N'] exI [of _ "?lv # ups'"]) simp
qed

lemma tower_fits: "tower C M H ups r \<Longrightarrow> M \<le> 510 \<Longrightarrow> x \<in> set (tower_pages ups) \<Longrightarrow> fits C x"
  using tower_dom [of C M H ups r x] by (auto simp: fits_def PAGE_SIZE_def)

lemma pool_ok_reparent:
  assumes "pool_ok C P S N" and "dom C1 = dom C" and "pp \<in> dom C" and "A \<subseteq> dom C"
  shows "pool_ok (reparent N A (C1(pp \<mapsto> a, N \<mapsto> b))) P (insert N (insert pp (S \<union> A'))) (N + 1)"
proof -
  have "dom (reparent N A (C1(pp \<mapsto> a, N \<mapsto> b))) = insert N (dom C)" using assms(2,3) by auto
  then show ?thesis using assms(1) unfolding pool_ok_def by auto
qed

lemma tower_old:
  assumes "tower C M H ups r" and "\<forall>x \<in> set (q # map snd H). fits C x" and "pool_ok C P S N" and x: "x \<in> set (q # map snd H @ tower_pages ups)"
  shows "x \<in> dom C" and "x < N"
proof -
  show dom: "x \<in> dom C" using x tower_dom [OF assms(1), of x] assms(2) unfolding fits_def by auto
  then have "x \<in> {0..<N}" using assms(3) unfolding pool_ok_def by (blast dest: subsetD)
  then show "x < N" by simp
qed

text \<open>The page \<open>pp\<close> has one child too many: the code splits it.\<close>

lemma overflow_split:
  assumes t: "tower C M H (lv # ups) r" and d: "distinct (q # map snd H @ tower_pages (lv # ups))" and fits: "\<forall>x \<in> set (q # map snd H). fits C x"
    and pool: "pool_ok C P S N" and room: "room 3 T P" and N: "N < 2 ^ 31 - 1" and M: "M = internal_max_size T" "3 \<le> M" "M \<le> 509"
    and lv: "lv = X @ (lo', pp, cs) # Y" and n': "C1 pp = Some (Internal n')" "children_of n' = cs'" "tp_max n' = M"
    and wide: "length cs' = Suc M" and ids: "set (map snd cs') = insert q (set (map snd cs))" "distinct (map snd cs')"
    and C1: "\<forall>x. x \<noteq> pp \<longrightarrow> x \<noteq> q \<longrightarrow> C1 x = C x" "parent_of C1 pp = parent_of C pp" "parent_of C1 q = Some pp"
      "same_entries (C q) (C1 q)" "dom C1 = dom C" "pp \<noteq> q"
  obtains s C2 S2 where "split_internal pp (st T r C1 P (insert pp (insert q S)) N) = (Inr (fst (cs' ! s), N), st T r C2 P S2 (N + 1))"
    and "split_pages C C2 M pp q N (take s cs') (drop s cs')" and "pool_ok C2 P S2 (N + 1)"
    and "0 < s" and "s \<le> M" and "internal_min_size M \<le> s" and "internal_min_size M \<le> length cs' - s" and "length cs' - s \<le> M"
proof -
  note dp = distinct_parts [OF d] and old = tower_old [OF t fits pool]
  have H: "map snd H = concat (map child_ids lv)" using t snd_concat_kids [of lv] by (simp add: tower_Cons)
  have inn: "inner C M (lo', pp, cs)" using t lv by (auto simp: tower_Cons level_ok_def)
  have size: "tp_size n' = Suc M" using n'(2) wide by (metis length_items)
  have kid: "c \<noteq> pp \<and> fits C c \<and> c \<in> dom C \<and> (c \<noteq> q \<longrightarrow> parent_of C c = Some pp)" if "c \<in> set (map snd cs')" for c
  proof -
    have "set (map snd cs) \<subseteq> set (map snd H)" unfolding H lv by auto
    then have c: "c = q \<or> c \<in> set (map snd cs) \<and> c \<in> set (map snd H)" using that ids(1) by blast
    moreover have "pp \<in> set (tower_pages (lv # ups))" using lv by simp
    ultimately have "c \<noteq> pp" using C1(6) dp(5) by blast
    moreover have "c \<in> set (q # map snd H)" using c by (simp only: list.set insert_iff) blast
    then have "fits C c" using fits by blast
    moreover have "c \<noteq> q \<longrightarrow> parent_of C c = Some pp" using c inner_children [OF inn] by (simp only: set_map) blast
    ultimately show ?thesis unfolding fits_def by blast
  qed
  let ?s = "tp_size n' div 2" and ?S1 = "insert pp (insert q S)"
  have s: "0 < ?s" "?s < length cs'" "internal_min_size M = ?s" "?s \<le> M" "internal_min_size M \<le> length cs' - ?s" "length cs' - ?s \<le> M"
    using size wide M(2) by (simp_all add: internal_min_size_def)
  have pool1: "pool_ok C1 P ?S1 N" using pool C1(5) by (auto simp: pool_ok_def)
  have "fits C1 c" if "c \<in> set (map snd cs')" for c
    using kid [OF that] C1(1,4) fits_same [of C c C1] same_entries_refl [of "C c"] by (cases "c = q") metis+
  then have kids1: "\<forall>c \<in> snd ` set (children_of n'). c \<noteq> pp \<and> fits C1 c" using kid unfolding n'(2) by simp
  have "node_fits (Internal n')" "2 \<le> tp_size n'" using size M(2,3) by (simp_all add: PAGE_SIZE_def)
  from split_internal_st [OF pool1 n'(1) this(2,1) kids1 room N, of r] obtain m m' where
    sp: "split_internal pp (st T r C1 P ?S1 N) = (Inr (fst (cs' ! ?s), N),
      st T r (reparent N (snd ` set (children_of m')) (C1(pp \<mapsto> Internal m, N \<mapsto> Internal m'))) P
        (insert N (insert pp (?S1 \<union> snd ` set (children_of m')))) (N + 1))"
    "children_of m = take ?s cs'" "children_of m' = drop ?s cs'" "tp_max m = M" "tp_max m' = M" "tp_parent m = tp_parent n'"
    unfolding n'(2,3) M(1) [symmetric] by blast
  have cut: "set (map snd (take ?s cs' @ drop ?s cs')) = insert q (set (map snd cs))" using ids(1) by simp
  show thesis
  proof (rule that [OF sp(1) [unfolded sp(3)] _ _ s(1,4) _ s(5,6)])
    show "split_pages C (reparent N (snd ` set (drop ?s cs')) (C1(pp \<mapsto> Internal m, N \<mapsto> Internal m'))) M pp q N (take ?s cs') (drop ?s cs')"
    proof (rule split_pages_intro [OF C1(1,4,3,2) n'(1) sp(2-6)])
      show "q \<in> set (map snd (take ?s cs' @ drop ?s cs'))" unfolding cut by simp
      show "distinct (map snd (take ?s cs' @ drop ?s cs'))" using ids(2) by simp
      show "\<forall>c \<in> set (map snd (take ?s cs' @ drop ?s cs')). c \<noteq> pp \<and> c \<noteq> N \<and> c \<in> dom C1 \<and> (c \<noteq> q \<longrightarrow> parent_of C c = Some pp)"
        using kid pool_ok_fresh [OF pool] unfolding append_take_drop_id C1(5) by blast
      show "pp \<noteq> N" using old(2) [of pp] lv by auto
    qed
    have "pp \<in> dom C" using n'(1) C1(5) by auto
    moreover have "snd ` set (drop ?s cs') \<subseteq> dom C" using kid by (auto dest!: in_set_dropD)
    ultimately show "pool_ok (reparent N (snd ` set (drop ?s cs')) (C1(pp \<mapsto> Internal m, N \<mapsto> Internal m'))) P
        (insert N (insert pp (?S1 \<union> snd ` set (drop ?s cs')))) (N + 1)" unfolding insert_is_Un [of pp "insert q S"]
      using pool_ok_reparent [OF pool C1(5), of pp "snd ` set (drop ?s cs')" "Internal m" "Internal m'" "{q} \<union> snd ` set (drop ?s cs')"]
      by (simp add: Un_assoc insert_commute)
    show "internal_min_size M \<le> ?s" using s(3) by simp
  qed
qed

lemma split_heads_fit:
  assumes t: "tower C M H (lv # ups) r" and lv: "lv = X @ (lo', pp, cs) # Y" and M: "M \<le> 509" and sp: "split_pages C C2 M pp q N cs1 cs2"
    and other: "\<And>x. x \<in> set X \<union> set Y \<Longrightarrow> inner C2 M x" and "length cs1 \<le> M" and "length cs2 \<le> M"
  shows "\<forall>x \<in> insert N (set (pids lv)). fits C2 x"
proof -
  have "fits C2 pp" "fits C2 N" using sp assms(6,7) M inner_fits unfolding split_pages_def by fastforce+
  moreover have "fits C2 x" if "x \<in> set (pids X) \<union> set (pids Y)" for x
  proof -
    from that have "\<exists>y \<in> set X \<union> set Y. fst (snd y) = x" by auto
    then obtain lo ks where y: "(lo, x, ks) \<in> set X \<union> set Y" by (metis prod.collapse)
    then have "(lo, x, ks) \<in> set lv" using lv by auto
    then have "length ks \<le> M" using t level_ok_width unfolding tower_Cons by blast
    then show ?thesis using inner_fits [of C2 M lo x ks] other [OF y] M by simp
  qed
  ultimately show ?thesis unfolding lv by auto
qed

lemma insert_up_ok:
  assumes "tower C M (A @ (lo, p) # B) ups r" and "distinct (q # map snd (A @ (lo, p) # B) @ tower_pages ups)"
    and "\<forall>x \<in> set (q # map snd (A @ (lo, p) # B)). fits C x" and "pool_ok C P S N" and "room 3 T P"
    and "N + int (length ups) < 2 ^ 31 - 1" and "M = internal_max_size T" and "3 \<le> M" and "M \<le> 509"
  shows "insert_result T C M (A @ (lo, p) # (Some k, q) # B) ups P N (insert_up (p, k, q) (st T r C P S N))"
  using assms(1-4,6)
proof (induction ups arbitrary: C A lo p B q k S N)
  case Nil
  then have "A = []" "B = []" "lo = None" by (auto simp: append_eq_Cons_conv)
  moreover have "room 2 T P" using assms(5) by (simp add: room_def)
  ultimately show ?case using insert_up_root [of C M p r q P S N T k] Nil assms(7,8) by simp
next
  case (Cons lv ups)
  let ?H = "A @ (lo, p) # B" and ?H' = "A @ (lo, p) # (Some k, q) # B"
  have "room 2 T P" using assms(5) by (simp add: room_def)
  have fpq: "fits C p" "fits C q" using Cons.prems(3) by auto
  from enter_parent [OF Cons.prems(1,2) fpq Cons.prems(4) \<open>room 2 T P\<close> assms(9), of k] obtain X lo' pp cs Y n' C1 cs' where
    e: "lv = X @ (lo', pp, cs) # Y"
    "insert_in_parent (p, k, q) (st T r C P S N) =
      (if length cs' \<le> M then (Inr None, st T r C1 P (insert pp (insert q S)) N)
       else bind_out (split_internal pp (st T r C1 P (insert pp (insert q S)) N))
         (\<lambda>(promote, new_pid) t. (Inr (Some (pp, promote, new_pid)), t)))"
    "C1 pp = Some (Internal n')" "children_of n' = cs'" "tp_max n' = M" "length cs' = Suc (length cs)"
    "set (map snd cs') = insert q (set (map snd cs))" "distinct (map snd cs')"
    "concat (map kids X) @ kids (lo', pp, cs') @ concat (map kids Y) = ?H'"
    "\<forall>x. x \<noteq> pp \<longrightarrow> x \<noteq> q \<longrightarrow> C1 x = C x" "parent_of C1 pp = parent_of C pp" "parent_of C1 q = Some pp"
    "same_entries (C q) (C1 q)" "dom C1 = dom C" "pp \<noteq> q" .
  have HH: "set (map snd ?H') = insert q (set (map snd ?H))" by auto
  show ?case
  proof (cases "length cs' \<le> M")
    case True
    then have "insert_up (p, k, q) (st T r C P S N) = Some (Inr True, st T r C1 P (insert pp (insert q S)) N)"
      by (subst insert_up.simps) (simp add: e(2))
    moreover have "snd ` set ?H' = insert q (snd ` set ?H)" by auto
    note insert_up_wide [OF Cons.prems(1,2,4) fpq(2) e(1,3-6) True e(7,9-14) this]
    ultimately show ?thesis by simp
  next
    case False
    note dp = distinct_parts [OF Cons.prems(2)]
    have "length cs \<le> M" using Cons.prems(1) e(1) by (auto simp: tower_Cons level_ok_def)
    then have over: "length cs' = Suc M" using e(6) False by simp
    have "N < 2 ^ 31 - 1" using Cons.prems(5) by simp
    from overflow_split [OF Cons.prems(1-4) assms(5) this assms(7-9) e(1,3-5) over e(7,8,10-15)]
    obtain s C2 S2 where sp: "split_internal pp (st T r C1 P (insert pp (insert q S)) N) = (Inr (fst (cs' ! s), N), st T r C2 P S2 (N + 1))"
      "split_pages C C2 M pp q N (take s cs') (drop s cs')" "pool_ok C2 P S2 (N + 1)"
      and s: "0 < s" "s \<le> M" "internal_min_size M \<le> s" "internal_min_size M \<le> length cs' - s" "length cs' - s \<le> M" .
    have up: "insert_up (p, k, q) (st T r C P S N) = insert_up (pp, fst (cs' ! s), N) (st T r C2 P S2 (N + 1))"
      using False by (subst insert_up.simps) (simp add: e(2) sp(1))
    have ids: "insert q (set (map snd cs)) = set (map snd (take s cs' @ drop s cs'))" using e(7) by simp
    have old: "\<forall>x \<in> set (q # map snd ?H @ tower_pages (lv # ups)). x < N" using tower_old(2) [OF Cons.prems(1,3,4)] by blast
    then have new: "N \<notin> set (map snd ?H @ tower_pages (lv # ups))" by auto
    note lvl = split_level [OF Cons.prems(1,2) e(1) sp(2) ids new]
    have "insert_result T C2 M (heads X @ (lo', pp) # (Some (fst (cs' ! s)), N) # heads Y) ups P (N + 1)
        (insert_up (pp, fst (cs' ! s), N) (st T r C2 P S2 (N + 1)))"
    proof (rule Cons.IH [OF _ _ _ sp(3)])
      show "tower C2 M (heads X @ (lo', pp) # heads Y) ups r" using lvl(1) e(1) by simp
      have hs: "map snd (heads X @ (lo', pp) # heads Y) = pids lv" using e(1) by (simp add: comp_def)
      show "distinct (N # map snd (heads X @ (lo', pp) # heads Y) @ tower_pages ups)" using dp(4) new unfolding hs by simp
      show "\<forall>x \<in> set (N # map snd (heads X @ (lo', pp) # heads Y)). fits C2 x" unfolding hs list.set
        by (rule split_heads_fit [OF Cons.prems(1) e(1) assms(9) sp(2)]) (use lvl(2) s in auto)
      show "N + 1 + int (length ups) < 2 ^ 31 - 1" using Cons.prems(5) by simp
    qed
    moreover have "s < length cs'" using s over by simp
    then have "concat (map kids X) @ kids (lo', pp, take s cs') @ kids (Some (fst (cs' ! s)), N, drop s cs') @
        concat (map kids Y) = ?H'"
      using kids_cut [OF s(1), of cs' lo' pp N] e(9) by (metis append.assoc)
    ultimately show ?thesis unfolding up
      by (rule insert_up_split [OF Cons.prems(1,2) e(1) sp(2) ids old]) (use s HH in simp_all)
  qed
qed

end
