(* ===== verification/BPlus_Leaves.thy ===== *)
theory BPlus_Leaves
  imports BPlus_Climb
begin

text \<open>
  The leaf level under the tower, the representation of a sorted association list by a tree
  (\<open>tree_of\<close>), and the searches: \<open>GetValue\<close>, both \<open>Begin\<close>s and the iterator.
\<close>

section \<open>The leaf level\<close>

fun leaf_node :: "contents \<Rightarrow> nat \<Rightarrow> (int \<times> RID) lnode \<Rightarrow> bool" where
  "leaf_node C L (lo, p, kvs) \<longleftrightarrow> (\<exists>l. C p = Some (Leaf l) \<and> entries_of l = kvs \<and> tp_max l = L)"

definition next_of :: "contents \<Rightarrow> page_id \<Rightarrow> page_id option" where
  "next_of C p = (case C p of Some (Leaf l) \<Rightarrow> Some (next_leaf l) | _ \<Rightarrow> None)"

text \<open>The pages are linked in this order and the last one points to \<open>z\<close>.\<close>

fun linked :: "contents \<Rightarrow> page_id list \<Rightarrow> page_id \<Rightarrow> bool" where
  "linked C [] z \<longleftrightarrow> True"
| "linked C (p # ps) z \<longleftrightarrow> next_of C p = Some (hd (ps @ [z])) \<and> linked C ps z"

abbreviation keys_of :: "'a lnode \<Rightarrow> 'a list" where
  "keys_of x \<equiv> snd (snd x)"

definition leaf_order :: "(int \<times> RID) lnode list \<Rightarrow> bool" where
  "leaf_order lv \<longleftrightarrow>
     sorted_wrt (\<lambda>x y. below (fst x) (fst y) \<and> (\<forall>kv \<in> set (keys_of x). \<not> at_least (fst y) (fst kv))) lv \<and>
     (\<forall>x \<in> set lv. keys_sorted (keys_of x) \<and> (\<forall>kv \<in> set (keys_of x). at_least (fst x) (fst kv)))"

definition least_leaf :: "nat \<Rightarrow> 'b list \<Rightarrow> nat" where
  "least_leaf L ups = (if ups = [] then 1 else leaf_min_size L)"

abbreviation all_entries :: "(int \<times> RID) lnode list \<Rightarrow> (int \<times> RID) list" where
  "all_entries lv \<equiv> concat (map keys_of lv)"

definition tree_rep ::
  "contents \<Rightarrow> nat \<Rightarrow> nat \<Rightarrow> page_id \<Rightarrow> (int \<times> RID) lnode list \<Rightarrow> (int \<times> page_id) lnode list list \<Rightarrow> bool" where
  "tree_rep C L M r lv ups \<longleftrightarrow>
     (\<forall>x \<in> set lv. leaf_node C L x \<and> width_ok (least_leaf L ups) L x) \<and> linked C (pids lv) INVALID_PAGE_ID \<and>
     leaf_order lv \<and> tower C M (heads lv) ups r \<and> distinct (pids lv @ tower_pages ups)"

lemma linked_append: "linked C (ps @ qs) z \<longleftrightarrow> linked C ps (hd (qs @ [z])) \<and> linked C qs z"
  by (induction ps) (auto simp: hd_append)

lemma linked_frame: "linked C ps z \<Longrightarrow> \<forall>p \<in> set ps. next_of C' p = next_of C p \<Longrightarrow> linked C' ps z"
  by (induction ps) auto

lemma next_of_same: "same_entries (C p) (C' p) \<Longrightarrow> next_of C p = Some q \<Longrightarrow> next_of C' p = Some q"
  unfolding next_of_def by (auto split: option.splits node.splits) (metis same_entries_leaf same_entries_Some option.inject node.inject node.distinct)+

lemma leaf_node_same: "leaf_node C L x \<Longrightarrow> same_entries (C (fst (snd x))) (C' (fst (snd x))) \<Longrightarrow> leaf_node C' L x"
  by (cases x) (fastforce dest: same_entries_leaf)

lemma leaf_order_bounds: "leaf_order lv \<Longrightarrow> bounds_sorted (heads lv)"
  unfolding leaf_order_def by (auto simp: sorted_wrt_map elim: sorted_wrt_mono_rel [rotated])

text \<open>Around the leaf that a key belongs to.\<close>

lemma leaf_order_split:
  assumes "leaf_order (X @ (lo, p, kvs) # Y)" and "covers key (heads X) (lo, p) (heads Y)"
  shows "\<forall>kv \<in> set (all_entries X). fst kv < key" and "\<forall>kv \<in> set (all_entries Y). key < fst kv" and "keys_sorted kvs"
proof -
  show "keys_sorted kvs" using assms(1) by (simp add: leaf_order_def)
  have "above": "at_least lo key" "\<forall>y \<in> set Y. \<not> at_least (fst y) key" using assms(2) by (auto simp: covers_def)
  have X: "\<not> at_least lo (fst kv)" if "x \<in> set X" "kv \<in> set (keys_of x)" for x kv
    using assms(1) that by (auto simp: leaf_order_def sorted_wrt_append)
  show "\<forall>kv \<in> set (all_entries X). fst kv < key"
    using X "above"(1) by (cases lo) fastforce+
  have Y: "at_least (fst y) (fst kv)" if "y \<in> set Y" "kv \<in> set (keys_of y)" for y kv
    using assms(1) that by (auto simp: leaf_order_def)
  have less: "key < k" if "\<not> at_least b key" "at_least b k" for b k
    using that by (cases b) auto
  show "\<forall>kv \<in> set (all_entries Y). key < fst kv"
    using Y "above"(2) less by fastforce
qed

lemma entries_around:
  assumes "\<forall>kv \<in> set E. fst kv < key" and "\<forall>kv \<in> set F. key < fst kv"
  shows "map_of (E @ kvs @ F) key = map_of kvs key" and "ins_sorted key v (E @ kvs @ F) = E @ ins_sorted key v kvs @ F"
    and "filter (\<lambda>kv. fst kv \<noteq> key) (E @ kvs @ F) = E @ filter (\<lambda>kv. fst kv \<noteq> key) kvs @ F"
proof -
  have "map_of E key = None" "map_of F key = None" using assms by (auto simp: map_of_eq_None_iff)
  then show "map_of (E @ kvs @ F) key = map_of kvs key" by (simp add: map_add_def split: option.splits)
  have "ins_sorted key v (kvs @ F) = ins_sorted key v kvs @ F"
  proof (induction kvs)
    case Nil
    then show ?case using assms(2) by (cases F) auto
  qed auto
  moreover have "ins_sorted key v (E @ xs) = E @ ins_sorted key v xs" for xs using assms(1) by (induction E) auto
  ultimately show "ins_sorted key v (E @ kvs @ F) = E @ ins_sorted key v kvs @ F" by simp
  have "filter (\<lambda>kv. fst kv \<noteq> key) E = E" "filter (\<lambda>kv. fst kv \<noteq> key) F = F" using assms by (auto simp: filter_id_conv)
  then show "filter (\<lambda>kv. fst kv \<noteq> key) (E @ kvs @ F) = E @ filter (\<lambda>kv. fst kv \<noteq> key) kvs @ F" by simp
qed

lemma all_entries_sorted: "leaf_order lv \<Longrightarrow> keys_sorted (all_entries lv)"
proof (induction lv)
  case (Cons x lv)
  have less: "k < k'" if "\<not> at_least b k" "at_least b k'" for b k k'
    using that by (cases b) auto
  have "fst kv < fst kv'" if "kv \<in> set (keys_of x)" "y \<in> set lv" "kv' \<in> set (keys_of y)" for kv y kv'
    using Cons.prems that less [of "fst y" "fst kv" "fst kv'"] by (auto simp: leaf_order_def)
  moreover have "leaf_order lv" using Cons.prems by (simp add: leaf_order_def)
  ultimately show ?case using Cons.IH Cons.prems by (auto simp: leaf_order_def sorted_wrt_append)
qed simp

section \<open>The tree as an association list\<close>

definition tree_of :: "BPlusTree \<Rightarrow> (int \<times> RID) list \<Rightarrow> bool" where
  "tree_of t kvs \<longleftrightarrow>
     ps_ok (bpm t) \<and> 2 \<le> leaf_max_size t \<and> leaf_max_size t \<le> 338 \<and> 3 \<le> internal_max_size t \<and> internal_max_size t \<le> 509 \<and>
     (if root_page_id t = INVALID_PAGE_ID then kvs = []
      else \<exists>lv ups. tree_rep (content (bpm t)) (leaf_max_size t) (internal_max_size t) (root_page_id t) lv ups \<and> kvs = all_entries lv)"

lemma ps_ok_pool: "ps_ok s \<longleftrightarrow> pool_ok (content s) (pinned s) (saved s) (next_new s)"
  by (auto simp: ps_ok_def pool_ok_def)

lemma tree_repD:
  assumes "tree_rep C L M r lv ups"
  shows "\<forall>x \<in> set lv. leaf_node C L x" and "\<forall>x \<in> set lv. width_ok (least_leaf L ups) L x"
    and "linked C (pids lv) INVALID_PAGE_ID" and "leaf_order lv" and "tower C M (heads lv) ups r"
    and "distinct (pids lv @ tower_pages ups)"
  using assms by (simp_all add: tree_rep_def)

text \<open>The leaf that a search reaches.\<close>

lemma find_leaf:
  assumes "tree_rep C L M r lv ups" and "2 \<le> M" and "pool_ok C P S N" and "room 1 T P"
  obtains X lo p kvs Y l where "lv = X @ (lo, p, kvs) # Y" and "covers key (heads X) (lo, p) (heads Y)"
    and "C p = Some (Leaf l)" and "entries_of l = kvs" and "tp_max l = L"
    and "descend e (\<lambda>n. int_Lookup n key) r (st T r' C P S N) = Some (Inr (p, l), st T r' C (p # P) S N)"
proof -
  note t = tree_repD [OF assms(1)]
  from descend_tower [OF t(5) leaf_order_bounds [OF t(4)] assms(2-4), of key e r'] obtain A lo p B where
    a: "heads lv = A @ (lo, p) # B" "covers key A (lo, p) B"
    "descend e (\<lambda>n. int_Lookup n key) r (st T r' C P S N) = descend e (\<lambda>n. int_Lookup n key) p (st T r' C P S N)" by blast
  from a(1) obtain X kvs Y where lv: "lv = X @ (lo, p, kvs) # Y" "A = heads X" "B = heads Y"
    by (auto simp: map_eq_append_conv map_eq_Cons_conv)
  with t(1) obtain l where "C p = Some (Leaf l)" "entries_of l = kvs" "tp_max l = L" by auto
  then show thesis using that lv a descend_leaf [OF assms(3) _ assms(4)] by simp
qed

lemma unpin_back: "pool_ok C P S N \<Longrightarrow> C p = Some n \<Longrightarrow> unpin p False (st T r C (p # P) S N) = st T r C P S N"
  using pool_ok_clean [of C P S N p n] by (simp add: unpin_clean_st)

lemma GetValue_ok:
  assumes "tree_of t kvs" and "room 1 t (pinned (bpm t))"
  shows "GetValue key t = Some (Inr (map_of kvs key), t)"
proof (cases "IsEmpty t")
  case True
  then show ?thesis using assms(1) by (simp add: GetValue_def IsEmpty_def tree_of_def)
next
  case False
  let ?C = "content (bpm t)" and ?P = "pinned (bpm t)" and ?S = "saved (bpm t)" and ?N = "next_new (bpm t)"
  from assms(1) False obtain lv ups where
    t: "tree_rep ?C (leaf_max_size t) (internal_max_size t) (root_page_id t) lv ups" "kvs = all_entries lv" "2 \<le> internal_max_size t"
    by (auto simp: tree_of_def IsEmpty_def)
  have pool: "pool_ok ?C ?P ?S ?N" using assms(1) by (simp add: tree_of_def ps_ok_pool)
  from find_leaf [OF t(1,3) pool assms(2), of key "RuntimeError ''GetValue: FetchPage failed''" "root_page_id t"]
  obtain X lo p ks Y l where f: "lv = X @ (lo, p, ks) # Y" "covers key (heads X) (lo, p) (heads Y)" "?C p = Some (Leaf l)" "entries_of l = ks"
    "descend (RuntimeError ''GetValue: FetchPage failed'') (\<lambda>n. int_Lookup n key) (root_page_id t) t =
      Some (Inr (p, l), st t (root_page_id t) ?C (p # ?P) ?S ?N)" unfolding st_self [symmetric] .
  note o = leaf_order_split [OF tree_repD(4) [OF t(1), unfolded f(1)] f(2)]
  have "map_of kvs key = map_of ks key" using entries_around(1) [OF o(1,2)] t(2) f(1) by simp
  moreover have "leaf_Lookup l key = map_of ks key" using leaf_Lookup_ok [of l key] o(3) f(4) by simp
  ultimately show ?thesis
    using False unpin_back [OF pool f(3), of t "root_page_id t"] by (simp add: GetValue_def f(5) st_self [symmetric])
qed

section \<open>The iterator\<close>

lemma iter_deref_st:
  assumes "pool_ok C P S N" and "C p = Some (Leaf l)" and "room 1 T P" and "i < tp_size l"
  shows "iter_deref (Iterator p i) (st T r C P S N) = (Inr (entries_of l ! i), st T r C P S N)"
  using assms pool_ok_valid [OF assms(1,2)] peek_st [OF assms(1-3)]
  by (simp add: leaf_at_st leaf_KeyAt_def leaf_ValueAt_def)

lemma iter_next_st:
  assumes "pool_ok C P S N" and "C p = Some (Leaf l)" and "room 1 T P"
  shows "iter_next (Iterator p i) (st T r C P S N) =
    (Inr (if i + 1 < tp_size l then Iterator p (i + 1)
          else if next_leaf l = INVALID_PAGE_ID then tree_End else Iterator (next_leaf l) 0), st T r C P S N)"
  using assms pool_ok_valid [OF assms(1,2)] peek_st [OF assms(1-3)]
  by (simp add: leaf_at_st Let_def tree_End_def not_le)

lemma walk_end: "walk tree_End t = Some (Inr [], t)"
  by (subst walk.simps) (simp add: tree_End_def)

lemma walk_step:
  assumes "\<not> IsEnd it" and "iter_deref it t = (Inr kv, t)" and "iter_next it t = (Inr it', t)" and "walk it' t = Some (Inr kvs, t)"
  shows "walk it t = Some (Inr (kv # kvs), t)"
  using assms by (subst walk.simps) simp

lemma walk_leaf:
  assumes "pool_ok C P S N" and "C p = Some (Leaf l)" and "room 1 T P" and "i < tp_size l"
    and "walk (if next_leaf l = INVALID_PAGE_ID then tree_End else Iterator (next_leaf l) 0) (st T r C P S N) = Some (Inr rest, st T r C P S N)"
  shows "walk (Iterator p i) (st T r C P S N) = Some (Inr (drop i (entries_of l) @ rest), st T r C P S N)"
  using assms(4)
proof (induction "tp_size l - i" arbitrary: i)
  case (Suc n)
  have it: "\<not> IsEnd (Iterator p i)" using pool_ok_valid [OF assms(1,2)] by simp
  have tail: "walk (if i + 1 < tp_size l then Iterator p (i + 1) else if next_leaf l = INVALID_PAGE_ID then tree_End
      else Iterator (next_leaf l) 0) (st T r C P S N) = Some (Inr (drop (Suc i) (entries_of l) @ rest), st T r C P S N)"
    using Suc assms(5) by (cases "i + 1 < tp_size l") auto
  have "drop i (entries_of l) = entries_of l ! i # drop (Suc i) (entries_of l)"
    using Suc.prems by (metis Cons_nth_drop_Suc length_items)
  then show ?case
    using walk_step [OF it iter_deref_st [OF assms(1-3) Suc.prems] iter_next_st [OF assms(1-3)] tail] by simp
qed simp

lemma walk_leaves:
  assumes "pool_ok C P S N" and "room 1 T P" and "\<forall>x \<in> set lv. leaf_node C L x \<and> keys_of x \<noteq> []"
    and "linked C (pids lv) INVALID_PAGE_ID"
  shows "walk (case lv of [] \<Rightarrow> tree_End | x # _ \<Rightarrow> Iterator (fst (snd x)) 0) (st T r C P S N) = Some (Inr (all_entries lv), st T r C P S N)"
  using assms(3,4)
proof (induction lv)
  case Nil
  then show ?case by (simp add: walk_end)
next
  case (Cons x lv)
  obtain lo p kvs where x: "x = (lo, p, kvs)" by (cases x)
  from Cons.prems(1) x obtain l where l: "C p = Some (Leaf l)" "entries_of l = kvs" "kvs \<noteq> []" by auto
  then have "0 < tp_size l" by (metis length_items length_greater_0_conv)
  moreover have "next_leaf l = hd (pids lv @ [INVALID_PAGE_ID])" using Cons.prems(2) x l by (simp add: next_of_def)
  moreover have "fst (snd y) \<noteq> INVALID_PAGE_ID" if "y \<in> set lv" for y
  proof -
    have "leaf_node C L y" using Cons.prems(1) that by simp
    then show ?thesis using pool_ok_valid [OF assms(1)] by (cases y) auto
  qed
  ultimately have "walk (if next_leaf l = INVALID_PAGE_ID then tree_End else Iterator (next_leaf l) 0) (st T r C P S N) =
      Some (Inr (all_entries lv), st T r C P S N)"
    using Cons by (cases lv) auto
  from walk_leaf [OF assms(1) l(1) assms(2) \<open>0 < tp_size l\<close> this] show ?case using l x by simp
qed

lemma leaves_nonempty:
  "tree_rep C L M r lv ups \<Longrightarrow> 2 \<le> L \<Longrightarrow> \<forall>x \<in> set lv. leaf_node C L x \<and> keys_of x \<noteq> []"
  by (fastforce simp: tree_rep_def least_leaf_def leaf_min_size_def width_ok_iff split: if_splits)

lemma Begin_walk_ok:
  assumes "tree_of t kvs" and "room 1 t (pinned (bpm t))"
  shows "and_then (tree_Begin t) walk = Some (Inr kvs, t)"
proof (cases "IsEmpty t")
  case True
  then show ?thesis using assms(1) by (simp add: tree_Begin_def IsEmpty_def tree_of_def walk_end)
next
  case False
  let ?C = "content (bpm t)" and ?P = "pinned (bpm t)" and ?S = "saved (bpm t)" and ?N = "next_new (bpm t)" and ?r = "root_page_id t"
  from assms(1) False obtain lv ups where
    t: "tree_rep ?C (leaf_max_size t) (internal_max_size t) ?r lv ups" "kvs = all_entries lv" "2 \<le> internal_max_size t" "2 \<le> leaf_max_size t"
    by (auto simp: tree_of_def IsEmpty_def)
  have pool: "pool_ok ?C ?P ?S ?N" using assms(1) by (simp add: tree_of_def ps_ok_pool)
  note d = tree_repD [OF t(1)]
  obtain x lv' where lv: "lv = x # lv'" using tower_heads_nonempty [OF d(5) t(3)] by (cases lv) auto
  obtain lo p ks where x: "x = (lo, p, ks)" by (cases x)
  obtain l where l: "?C p = Some (Leaf l)" using d(1) lv x by auto
  have "descend e (\<lambda>n. int_ValueAt n 0) ?r (st t ?r ?C ?P ?S ?N) = Some (Inr (p, l), st t ?r ?C (p # ?P) ?S ?N)" for e
    using descend_first [OF d(5) t(3) pool assms(2)] descend_leaf [OF pool l assms(2)] lv x by simp
  then have "tree_Begin t = Some (Inr (Iterator p 0), t)"
    using False unpin_back [OF pool l, of t ?r] by (simp add: tree_Begin_def st_self [symmetric])
  then show ?thesis
    using walk_leaves [OF pool assms(2) leaves_nonempty [OF t(1,4)] d(3), of ?r] t(2) lv x by (simp add: st_self [symmetric])
qed

text \<open>\<open>Begin(key)\<close> starts at the first entry that is not smaller.\<close>

lemma drop_smaller:
  assumes "keys_sorted kvs" and "i \<le> length kvs" and "\<forall>j < i. fst (kvs ! j) < key" and "\<forall>j < length kvs. i \<le> j \<longrightarrow> key \<le> fst (kvs ! j)"
  shows "drop i kvs = filter (\<lambda>kv. key \<le> fst kv) kvs"
proof -
  have "filter (\<lambda>kv. key \<le> fst kv) (take i kvs) = []"
    using assms(2,3) by (force simp: filter_empty_conv in_set_conv_nth)
  moreover have "filter (\<lambda>kv. key \<le> fst kv) (drop i kvs) = drop i kvs"
    unfolding filter_id_conv
  proof
    fix kv assume "kv \<in> set (drop i kvs)"
    then obtain j where "j < length kvs - i" "kv = kvs ! (i + j)" using assms(2) by (auto simp: in_set_conv_nth)
    then show "key \<le> fst kv" using assms(4) by simp
  qed
  ultimately show ?thesis by (metis append_Nil append_take_drop_id filter_append)
qed

lemma Begin_key_walk_ok:
  assumes "tree_of t kvs" and "room 1 t (pinned (bpm t))"
  shows "and_then (tree_Begin_key key t) walk = Some (Inr (filter (\<lambda>kv. key \<le> fst kv) kvs), t)"
proof (cases "IsEmpty t")
  case True
  then show ?thesis using assms(1) by (simp add: tree_Begin_key_def IsEmpty_def tree_of_def walk_end)
next
  case False
  let ?C = "content (bpm t)" and ?P = "pinned (bpm t)" and ?S = "saved (bpm t)" and ?N = "next_new (bpm t)" and ?r = "root_page_id t"
  from assms(1) False obtain lv ups where
    t: "tree_rep ?C (leaf_max_size t) (internal_max_size t) ?r lv ups" "kvs = all_entries lv" "2 \<le> internal_max_size t" "2 \<le> leaf_max_size t"
    by (auto simp: tree_of_def IsEmpty_def)
  have pool: "pool_ok ?C ?P ?S ?N" using assms(1) by (simp add: tree_of_def ps_ok_pool)
  from find_leaf [OF t(1,3) pool assms(2), of key "RuntimeError ''Begin(key): FetchPage failed''" ?r]
  obtain X lo p ks Y l where f: "lv = X @ (lo, p, ks) # Y" "covers key (heads X) (lo, p) (heads Y)" "?C p = Some (Leaf l)" "entries_of l = ks"
    "descend (RuntimeError ''Begin(key): FetchPage failed'') (\<lambda>n. int_Lookup n key) ?r t =
      Some (Inr (p, l), st t ?r ?C (p # ?P) ?S ?N)" unfolding st_self [symmetric] .
  note o = leaf_order_split [OF tree_repD(4) [OF t(1), unfolded f(1)] f(2)]
  let ?i = "leaf_KeyIndex l key"
  have srt: "keys_sorted (entries_of l)" using o(3) f(4) by simp
  note k = KeyIndex_ok [OF srt, where key = key]
  have "drop ?i ks = filter (\<lambda>kv. key \<le> fst kv) ks"
    using drop_smaller [OF srt, of ?i key] k f(4) by auto
  moreover have "filter (\<lambda>kv. key \<le> fst kv) (all_entries X) = []" "filter (\<lambda>kv. key \<le> fst kv) (all_entries Y) = all_entries Y"
    using o(1,2) by (force simp: filter_empty_conv, force simp: filter_id_conv)
  ultimately have res: "filter (\<lambda>kv. key \<le> fst kv) kvs = drop ?i ks @ all_entries Y" using t(2) f(1) by simp
  have link: "next_leaf l = hd (pids Y @ [INVALID_PAGE_ID])" "linked ?C (pids Y) INVALID_PAGE_ID"
    using tree_repD(3) [OF t(1)] f(1,3) by (auto simp: linked_append next_of_def)
  have Y: "\<forall>x \<in> set Y. leaf_node ?C (leaf_max_size t) x \<and> keys_of x \<noteq> []" using leaves_nonempty [OF t(1,4)] f(1) by simp
  have "fst (snd y) \<noteq> INVALID_PAGE_ID" if "y \<in> set Y" for y
  proof -
    have "leaf_node ?C (leaf_max_size t) y" using Y that by simp
    then show ?thesis using pool_ok_valid [OF pool] by (cases y) auto
  qed
  then have rest: "walk (if next_leaf l = INVALID_PAGE_ID then tree_End else Iterator (next_leaf l) 0) (st t ?r ?C ?P ?S ?N) =
      Some (Inr (all_entries Y), st t ?r ?C ?P ?S ?N)"
    using walk_leaves [OF pool assms(2) Y link(2), of ?r] link(1) by (cases Y) auto
  show ?thesis
  proof (cases "?i < tp_size l")
    case True
    then have "tree_Begin_key key t = Some (Inr (Iterator p ?i), st t ?r ?C ?P ?S ?N)"
      using False unpin_back [OF pool f(3), of t ?r] by (simp add: tree_Begin_key_def f(5) Let_def)
    then show ?thesis using walk_leaf [OF pool f(3) assms(2) True rest] res f(4) by (simp add: st_self [symmetric])
  next
    case False': False
    then have "tree_Begin_key key t = Some (Inr (if next_leaf l = INVALID_PAGE_ID then tree_End else Iterator (next_leaf l) 0), st t ?r ?C ?P ?S ?N)"
      using False unpin_back [OF pool f(3), of t ?r] by (simp add: tree_Begin_key_def f(5) Let_def)
    moreover have "drop ?i ks = []" using False' f(4) by (metis drop_all length_items not_le)
    ultimately show ?thesis using rest res by (simp add: st_self [symmetric])
  qed
qed

end
