(* ===== verification/BPlus_Insertion.thy ===== *)
theory BPlus_Insertion
  imports BPlus_Leaves
begin

text \<open>\<open>Insert\<close> on a tree that represents a sorted list: it returns, and the list gets the entry.\<close>

section \<open>The height of the tree\<close>

lemma wide_levels: "(\<forall>x \<in> set lv. w \<le> length (keys_of x)) \<Longrightarrow> w * length lv \<le> length (concat (map kids lv))"
proof (induction lv)
  case (Cons x lv)
  then show ?case by (cases x) simp
qed simp

lemma tower_height:
  assumes "tower C M H ups r" and "3 \<le> M"
  shows "2 ^ length ups \<le> length H"
  using assms(1)
proof (induction ups arbitrary: H)
  case (Cons lv ups)
  have "\<forall>x \<in> set lv. 2 \<le> length (keys_of x)"
    using Cons.prems assms(2)
    by (auto simp: tower_Cons level_ok_def width_ok_iff least_width_def internal_min_size_def split: if_splits dest!: bspec)
  from wide_levels [OF this] have "2 * length lv \<le> length H" using Cons.prems by (simp add: tower_Cons)
  then show ?case using Cons.IH [of "heads lv"] Cons.prems by (simp add: tower_Cons)
qed simp

lemma tree_height:
  assumes "tree_rep C L M r lv ups" and "3 \<le> M" and "pool_ok C P S N" and "N < 2 ^ 31"
  shows "length ups \<le> 30"
proof -
  note t = tree_repD [OF assms(1)]
  have "p \<in> {0..<N}" if "p \<in> set (pids lv)" for p
  proof -
    from that obtain x where "x \<in> set lv" "fst (snd x) = p" by auto
    then have "leaf_node C L x" "fst (snd x) = p" using t(1) by auto
    then show ?thesis using pool_ok_valid [OF assms(3)] by (cases x) auto
  qed
  then have "set (pids lv) \<subseteq> {0..<N}" by blast
  from card_mono [OF _ this] have "card (set (pids lv)) \<le> card {0..<N}" by simp
  moreover have "distinct (pids lv)" using t(6) by simp
  ultimately have "length lv \<le> nat N" by (metis card_atLeastLessThan_int diff_zero distinct_card length_map)
  moreover have "2 ^ length ups \<le> length lv" using tower_height [OF t(5) assms(2)] by simp
  ultimately have "2 ^ length ups \<le> nat N" by (rule order.trans [rotated])
  also have "\<dots> < 2 ^ 31" using assms(4) by simp
  finally have "length ups < 31" by (simp only: power_strict_increasing_iff)
  then show ?thesis by simp
qed

section \<open>Leaves\<close>

lemma split_leaf_st:
  assumes "pool_ok C P S N" and "C p = Some (Leaf l)" and "2 \<le> tp_size l" and "node_fits (Leaf l)" and "room 2 T P" and "N < 2 ^ 31 - 1"
  obtains l1 l2 where "split_leaf p (st T r C P S N) =
      (Inr (fst (entries_of l ! (tp_size l div 2)), N), st T r (C(p \<mapsto> Leaf l1, N \<mapsto> Leaf l2)) P (insert N (insert p S)) (N + 1))"
    and "entries_of l1 = take (tp_size l div 2) (entries_of l)" and "entries_of l2 = drop (tp_size l div 2) (entries_of l)"
    and "tp_max l1 = tp_max l" and "tp_max l2 = leaf_max_size T" and "tp_parent l1 = tp_parent l" and "tp_parent l2 = tp_parent l"
    and "next_leaf l1 = N" and "next_leaf l2 = next_leaf l" and "node_fits (Leaf l1)" and "node_fits (Leaf l2)"
proof -
  let ?s = "tp_size l div 2"
  define e where "e = leaf_Init (leaf_max_size T) zero_leaf_array"
  obtain m1 m2 where mm: "leaf_MoveHalfTo l (e\<lparr>tp_parent := tp_parent l\<rparr>) = (m1, m2)"
    by (cases "leaf_MoveHalfTo l (e\<lparr>tp_parent := tp_parent l\<rparr>)")
  note ok = leaf_MoveHalfTo_ok [OF mm]
  define l1 where "l1 = m1\<lparr>next_leaf := N\<rparr>"
  define l2 where "l2 = m2\<lparr>next_leaf := next_leaf l\<rparr>"
  have entries: "entries_of l1 = take ?s (entries_of l)" "entries_of l2 = drop ?s (entries_of l)" using ok by (simp_all add: l1_def l2_def)
  have sizes: "tp_size l1 = ?s" "tp_size l2 = tp_size l - ?s"
    using arg_cong [OF entries(1), of length] arg_cong [OF entries(2), of length] by simp_all
  then have fit: "node_fits (Leaf l1)" "node_fits (Leaf l2)" "node_fits (Leaf e)"
    using assms(4) by (simp_all add: e_def leaf_Init_def PAGE_SIZE_def)
  have "entries_of l2 ! 0 = entries_of l ! ?s" using entries(2) assms(3) by simp
  then have key: "leaf_KeyAt l2 0 = fst (entries_of l ! ?s)" using sizes(2) assms(3) by (simp add: leaf_KeyAt_def)
  have fresh: "p \<noteq> N" "N \<notin> set P" using pool_ok_valid [OF assms(1,2)] pool_ok_fresh [OF assms(1)] by auto
  have nxt: "next_leaf m1 = next_leaf l" using ok(7) .
  have C: "(C(N \<mapsto> zero_node))(N \<mapsto> Leaf e, p \<mapsto> Leaf l1, N \<mapsto> Leaf l2) = C(p \<mapsto> Leaf l1, N \<mapsto> Leaf l2)"
    using fresh by (auto simp: fun_upd_def)
  have S: "insert N (insert p (S - {N} - {N} - {p} - {N})) = insert N (insert p S)" by auto
  have "split_leaf p (st T r C P S N) =
      (Inr (fst (entries_of l ! ?s), N), st T r (C(p \<mapsto> Leaf l1, N \<mapsto> Leaf l2)) P (insert N (insert p S)) (N + 1))"
    unfolding split_leaf_def C [symmetric] S [symmetric]
    using assms(2,6) fresh room_cards(1,2) [OF assms(5)] fit mm nxt key
    by (simp add: exec_simps Let_def e_def [symmetric] l1_def [symmetric] l2_def [symmetric] del: node_fits.simps fun_upd_upd)
  then show thesis
    using that [of l1 l2] entries fit ok by (simp add: l1_def l2_def e_def leaf_Init_def)
qed

text \<open>The order of the leaves when the entries of one change, and when one is cut in two.\<close>

lemma leaf_order_replace:
  assumes "leaf_order (X @ (lo, p, kvs) # Y)" and "keys_sorted kvs'"
    and "\<forall>kv \<in> set kvs'. at_least lo (fst kv) \<and> (\<forall>y \<in> set Y. \<not> at_least (fst y) (fst kv))"
  shows "leaf_order (X @ (lo, p, kvs') # Y)"
  using assms by (auto simp: leaf_order_def sorted_wrt_append)

lemma at_least_less: "\<not> at_least b k \<Longrightarrow> at_least b k' \<Longrightarrow> k < k'"
  by (cases b) auto

lemma leaf_order_cut:
  assumes "leaf_order (X @ (lo, p, kvs) # Y)" and "0 < s" and "s < length kvs"
  shows "leaf_order (X @ (lo, p, take s kvs) # (Some (fst (kvs ! s)), q, drop s kvs) # Y)"
proof -
  let ?k = "fst (kvs ! s)"
  have srt: "keys_sorted kvs" and low: "\<forall>kv \<in> set kvs. at_least lo (fst kv)"
    and up: "\<forall>y \<in> set Y. below lo (fst y) \<and> (\<forall>kv \<in> set kvs. \<not> at_least (fst y) (fst kv))"
    and X: "\<forall>x \<in> set X. below (fst x) lo \<and> (\<forall>kv \<in> set (keys_of x). \<not> at_least lo (fst kv))"
    using assms(1) by (auto simp: leaf_order_def sorted_wrt_append)
  have k: "kvs ! s \<in> set kvs" "kvs ! 0 \<in> set kvs" using assms(3) by (auto intro: nth_mem)
  have "fst (kvs ! 0) < ?k" using srt assms(2,3) by (simp add: sorted_wrt_iff_nth_less)
  moreover have "at_least lo (fst (kvs ! 0))" using low k(2) by blast
  ultimately have lok: "below lo (Some ?k)" by (cases lo) auto
  have split: "keys_sorted (take s kvs @ drop s kvs)" using srt by simp
  have sub: "set (take s kvs) \<subseteq> set kvs" "set (drop s kvs) \<subseteq> set kvs" by (auto dest: in_set_takeD in_set_dropD)
  have d: "drop s kvs = kvs ! s # drop (Suc s) kvs" using assms(3) by (simp add: Cons_nth_drop_Suc)
  have left: "\<forall>kv \<in> set (take s kvs). fst kv < ?k" using split unfolding d by (auto simp: sorted_wrt_append)
  have right: "\<forall>kv \<in> set (drop s kvs). ?k \<le> fst kv" using split unfolding d by (auto simp: sorted_wrt_append)
  have upk: "\<forall>y \<in> set Y. below (Some ?k) (fst y)"
  proof
    fix y assume "y \<in> set Y"
    then have "\<not> at_least (fst y) ?k" using up k(1) by blast
    then show "below (Some ?k) (fst y)" by (cases "fst y") auto
  qed
  have Xk: "\<forall>x \<in> set X. below (fst x) (Some ?k) \<and> (\<forall>kv \<in> set (keys_of x). fst kv < ?k)"
    using X lok below_trans low k(1) at_least_less by blast
  have halves: "keys_sorted (take s kvs)" "keys_sorted (drop s kvs)"
    using split unfolding map_append sorted_wrt_append by blast+
  have rest: "leaf_order X" "leaf_order Y" "\<forall>x \<in> set X. \<forall>y \<in> set Y. below (fst x) (fst y) \<and> (\<forall>kv \<in> set (keys_of x). \<not> at_least (fst y) (fst kv))"
    using assms(1) by (auto simp: leaf_order_def sorted_wrt_append)
  have leftY: "\<forall>y \<in> set Y. \<forall>kv \<in> set (take s kvs). \<not> at_least (fst y) (fst kv)" using up sub(1) by blast
  have rightY: "\<forall>y \<in> set Y. \<forall>kv \<in> set (drop s kvs). \<not> at_least (fst y) (fst kv)" using up sub(2) by blast
  have lows: "\<forall>kv \<in> set (take s kvs). at_least lo (fst kv)" using low sub(1) by blast
  have upY: "\<forall>y \<in> set Y. below lo (fst y)" using up by blast
  have left': "\<forall>kv \<in> set (take s kvs). \<not> at_least (Some ?k) (fst kv)" using left by auto
  have right': "\<forall>kv \<in> set (drop s kvs). at_least (Some ?k) (fst kv)" using right by auto
  have Xk': "\<forall>x \<in> set X. below (fst x) (Some ?k) \<and> (\<forall>kv \<in> set (keys_of x). \<not> at_least (Some ?k) (fst kv))" using Xk by (simp add: not_le)
  show ?thesis
    using rest halves X Xk' upk upY lok left' right' lows leftY rightY
    unfolding leaf_order_def sorted_wrt_append
    by (simp only: sorted_wrt.simps list.set ball_simps fst_conv snd_conv sorted_wrt_append set_append ball_Un) blast
qed

lemma ins_sorted_set: "set (ins_sorted k v kvs) \<subseteq> insert (k, v) (set kvs)"
  by (induction kvs) (auto split: if_splits)

lemma length_ins_sorted: "length kvs \<le> length (ins_sorted k v kvs)"
  by (induction kvs) auto

lemma ins_sorted_sorted: "keys_sorted kvs \<Longrightarrow> keys_sorted (ins_sorted k v kvs)"
proof (induction kvs)
  case (Cons kv kvs)
  obtain k' v' where kv: "kv = (k', v')" by (cases kv)
  have "\<forall>x \<in> set (ins_sorted k v kvs). k' < fst x" if "k' < k"
    using Cons.prems ins_sorted_set [of k v kvs] that kv by auto
  then show ?case using Cons kv by auto
qed simp

text \<open>A leaf with new entries in the same place.\<close>

lemma leaf_replaced:
  assumes "tree_rep C L M r (X @ (lo, p, kvs) # Y) ups" and "C p = Some (Leaf l)"
    and "entries_of l' = kvs'" and "tp_max l' = L" and "tp_parent l' = tp_parent l" and "next_leaf l' = next_leaf l"
  shows "\<forall>x \<in> set (X @ (lo, p, kvs') # Y). leaf_node (C(p \<mapsto> Leaf l')) L x"
    and "linked (C(p \<mapsto> Leaf l')) (pids (X @ (lo, p, kvs') # Y)) INVALID_PAGE_ID"
    and "tower (C(p \<mapsto> Leaf l')) M (heads (X @ (lo, p, kvs') # Y)) ups r"
proof -
  note t = tree_repD [OF assms(1)]
  let ?C = "C(p \<mapsto> Leaf l')"
  have other: "q \<noteq> p" if "q \<in> set (pids X) \<union> set (pids Y) \<union> set (tower_pages ups)" for q using t(6) that by auto
  have "leaf_node ?C L x" if "x \<in> set X \<union> set Y" for x
  proof (rule leaf_node_same)
    show "leaf_node C L x" using t(1) that by auto
    show "same_entries (C (fst (snd x))) (?C (fst (snd x)))" using other [of "fst (snd x)"] that by auto
  qed
  then show "\<forall>x \<in> set (X @ (lo, p, kvs') # Y). leaf_node ?C L x" using assms(3,4) by auto
  show "linked ?C (pids (X @ (lo, p, kvs') # Y)) INVALID_PAGE_ID"
    using linked_frame [OF t(3), of ?C] assms(2,6) by (simp add: next_of_def)
  show "tower ?C M (heads (X @ (lo, p, kvs') # Y)) ups r"
  proof (rule tower_frame [where C = C])
    show "tower C M (heads (X @ (lo, p, kvs') # Y)) ups r" using t(5) by simp
    show "\<forall>x \<in> set (tower_pages ups). ?C x = C x" using other by (auto simp del: set_concat)
    show "\<forall>c \<in> snd ` set (heads (X @ (lo, p, kvs') # Y)). parent_of ?C c = parent_of C c" using assms(2,5) by (simp add: parent_of_def)
  qed
qed

lemma tree_rep_replace:
  assumes t: "tree_rep C L M r (X @ (lo, p, kvs) # Y) ups" and l: "C p = Some (Leaf l)"
    and l': "entries_of l' = kvs'" "tp_max l' = L" "tp_parent l' = tp_parent l" "next_leaf l' = next_leaf l"
    and ord: "leaf_order (X @ (lo, p, kvs') # Y)" and w: "width_ok (least_leaf L ups) L (lo, p, kvs')"
  shows "tree_rep (C(p \<mapsto> Leaf l')) L M r (X @ (lo, p, kvs') # Y) ups"
  using leaf_replaced [OF t l l'] tree_repD(2,6) [OF t] ord w unfolding tree_rep_def by auto

text \<open>A leaf that has been cut in two, with the new half entered in the tower.\<close>

lemma linked_cut:
  assumes "linked C (ps @ p # qs) z" and "next_of C' p = Some q" and "next_of C' q = next_of C p"
    and "\<forall>x \<in> set ps \<union> set qs. next_of C' x = next_of C x"
  shows "linked C' (ps @ p # q # qs) z"
  using assms linked_frame [of C ps p C'] linked_frame [of C qs z C'] by (simp add: linked_append)

lemma tree_rep_cut:
  assumes "tree_rep C L M r (X @ (lo, p, kvs) # Y) ups" and "C p = Some (Leaf l)" and "pool_ok C P S N"
    and "entries_of l1 = take s kvs'" and "entries_of l2 = drop s kvs'" and "tp_max l1 = L" and "tp_max l2 = L"
    and "next_leaf l1 = N" and "next_leaf l2 = next_leaf l"
    and "leaf_order (X @ (lo, p, take s kvs') # (Some k, N, drop s kvs') # Y)"
    and "leaf_min_size L \<le> s" and "s \<le> L" and "s + leaf_min_size L \<le> length kvs'" and "length kvs' \<le> s + L"
    and "insert_result T (C(p \<mapsto> Leaf l1, N \<mapsto> Leaf l2)) M (heads X @ (lo, p) # (Some k, N) # heads Y) ups P (N + 1) res"
  shows "\<exists>r' C' S' N' ups'. res = Some (Inr True, st T r' C' P S' N') \<and> pool_ok C' P S' N' \<and> N' \<le> N + int (length ups) + 2 \<and>
    tree_rep C' L M r' (X @ (lo, p, take s kvs') # (Some k, N, drop s kvs') # Y) ups'"
proof -
  note t = tree_repD [OF assms(1)]
  let ?C = "C(p \<mapsto> Leaf l1, N \<mapsto> Leaf l2)" and ?H = "heads X @ (lo, p) # (Some k, N) # heads Y"
    and ?lv = "X @ (lo, p, take s kvs') # (Some k, N, drop s kvs') # Y"
  from assms(15) obtain r' C' S' N' ups' where c: "res = Some (Inr True, st T r' C' P S' N')" "tower C' M ?H ups' r'"
    "pool_ok C' P S' N'" "N' \<le> N + 1 + int (length ups) + 1" "ups' \<noteq> []" "distinct (tower_pages ups')"
    "set (tower_pages ups') \<subseteq> set (tower_pages ups) \<union> {N + 1..<N'}" "climbed ?C C' (snd ` set ?H) (set (tower_pages ups)) (N + 1)"
    unfolding insert_result_def by blast
  have H: "snd ` set ?H = set (pids ?lv)" by (simp add: image_image image_Un)
  have old: "x < N" if "x \<in> set (pids (X @ (lo, p, kvs) # Y))" for x
  proof -
    from that obtain y where "y \<in> set (X @ (lo, p, kvs) # Y)" "fst (snd y) = x" unfolding set_map by blast
    then have "leaf_node C L y" "fst (snd y) = x" using t(1) by blast+
    then show ?thesis using pool_ok_valid [OF assms(3)] by (cases y) auto
  qed
  have same: "same_entries (?C x) (C' x)" if "x \<in> set (pids ?lv)" for x
    using c(8) that unfolding climbed_def H by blast
  have dp: "distinct (pids (X @ (lo, p, kvs) # Y))" using t(6) unfolding distinct_append by blast
  have X: "fst (snd y) \<noteq> p \<and> fst (snd y) \<noteq> N" if "y \<in> set X \<union> set Y" for y
    using dp that old [of "fst (snd y)"] by auto
  have leaves: "leaf_node C' L y" if y: "y \<in> set ?lv" for y
  proof (rule leaf_node_same)
    have "leaf_node C L y" if "y \<in> set X \<union> set Y" using t(1) that by auto
    then have "leaf_node ?C L y" if "y \<in> set X \<union> set Y" using X [OF that] that by (cases y) auto
    moreover have "p \<noteq> N" using old [of p] by simp
    ultimately show "leaf_node ?C L y" using y assms(4-7) by auto
    have "fst (snd y) \<in> set (pids ?lv)" using y unfolding set_map by blast
    then show "same_entries (?C (fst (snd y))) (C' (fst (snd y)))" by (rule same)
  qed
  have "p < N" using old [of p] by simp
  have "linked ?C (pids ?lv) INVALID_PAGE_ID"
  proof -
    have "linked ?C (pids X @ p # N # pids Y) INVALID_PAGE_ID"
    proof (rule linked_cut [where C = C])
      show "linked C (pids X @ p # pids Y) INVALID_PAGE_ID" using t(3) by simp
      show "next_of ?C p = Some N" "next_of ?C N = next_of C p" using assms(2,8,9) \<open>p < N\<close> by (simp_all add: next_of_def)
      show "\<forall>x \<in> set (pids X) \<union> set (pids Y). next_of ?C x = next_of C x" using X by (auto simp: next_of_def)
    qed
    then show ?thesis by simp
  qed
  then have link: "linked C' (pids ?lv) INVALID_PAGE_ID"
  proof (rule linked_frame, intro ballI)
    fix x assume x: "x \<in> set (pids ?lv)"
    then obtain y where "y \<in> set ?lv" "fst (snd y) = x" unfolding set_map by blast
    with leaves [of y] obtain l where "C' x = Some (Leaf l)" by (cases y) auto
    then have "next_of C' x = Some (next_leaf l)" by (simp add: next_of_def)
    moreover from this have "next_of ?C x = Some (next_leaf l)" by (rule next_of_same [where C = C' and p = x and C' = ?C, OF same_entries_sym [OF same [OF x]]])
    ultimately show "next_of C' x = next_of ?C x" by simp
  qed
  have single: "X = [] \<and> Y = []" if "ups = []" using t(5) that top_level_single [of C M X "(lo, p, kvs)" Y r] by (cases X) (auto simp: append_eq_Cons_conv)
  have widths: "width_ok (least_leaf L ups') L y" if "y \<in> set ?lv" for y
  proof (cases "y \<in> set X \<union> set Y")
    case True
    then have "ups \<noteq> []" using single by auto
    then show ?thesis using t(2) True c(5) by (auto simp: least_leaf_def)
  next
    case False
    then show ?thesis using that assms(11-14) c(5) by (auto simp: least_leaf_def)
  qed
  have "distinct (pids ?lv)" using dp old [of N] by auto
  moreover have "x \<notin> set (tower_pages ups')" if "x \<in> set (pids ?lv)" for x
  proof
    assume "x \<in> set (tower_pages ups')"
    from subsetD [OF c(7) this] have up: "x \<in> set (tower_pages ups) \<or> N < x" by (simp only: Un_iff atLeastLessThan_iff) linarith
    from that have "x = N \<or> x \<in> set (pids (X @ (lo, p, kvs) # Y))" by (simp only: map_append list.map set_append list.set snd_conv fst_conv Un_iff insert_iff) blast
    moreover have "N \<notin> set (tower_pages ups)" using tower_dom [OF t(5), of N] pool_ok_fresh [OF assms(3)] by force
    moreover have "set (pids (X @ (lo, p, kvs) # Y)) \<inter> set (tower_pages ups) = {}" using t(6) unfolding distinct_append by blast
    ultimately show False using old [of x] up by (blast dest: less_asym)
  qed
  ultimately have "distinct (pids ?lv @ tower_pages ups')" using c(6) unfolding distinct_append by blast
  moreover have "tower C' M (heads ?lv) ups' r'" using c(2) by simp
  ultimately have "tree_rep C' L M r' ?lv ups'" unfolding tree_rep_def using leaves widths link assms(10) by blast
  then show ?thesis using c(1,3,4) by (intro exI [of _ r'] exI [of _ C'] exI [of _ S'] exI [of _ N'] exI [of _ ups']) simp
qed

section \<open>Insert\<close>

lemma ins_sorted_present: "keys_sorted kvs \<Longrightarrow> map_of kvs k \<noteq> None \<Longrightarrow> ins_sorted k v kvs = kvs"
proof (induction kvs)
  case (Cons kv kvs)
  obtain k' v' where kv: "kv = (k', v')" by (cases kv)
  have "k' < k" if "k \<noteq> k'" using Cons.prems kv that by (force dest!: map_of_SomeD)
  then show ?case using Cons kv by (auto split: if_splits)
qed simp

lemma leaf_Insert_keeps:
  "tp_max (snd (leaf_Insert k v l)) = tp_max l" "tp_parent (snd (leaf_Insert k v l)) = tp_parent l"
  "next_leaf (snd (leaf_Insert k v l)) = next_leaf l"
  by (simp_all add: leaf_Insert_def Let_def)

lemma start_tree_st:
  assumes "pool_ok C P S N" and "room 1 T P" and "N < 2 ^ 31 - 1"
  shows "\<exists>l. start_tree k v (st T r C P S N) = (Inr True, st T N (C(N \<mapsto> Leaf l)) P (insert N S) (N + 1)) \<and>
    entries_of l = [(k, v)] \<and> tp_max l = leaf_max_size T \<and> tp_parent l = INVALID_PAGE_ID \<and> next_leaf l = INVALID_PAGE_ID"
proof -
  define e where "e = (leaf_Init (leaf_max_size T) zero_leaf_array)\<lparr>tp_parent := INVALID_PAGE_ID\<rparr>"
  have e: "entries_of e = []" by (simp add: e_def leaf_Init_def items_def)
  define l where "l = snd (leaf_Insert k v e)"
  have l: "entries_of l = [(k, v)]" using leaf_Insert_ok(1) [of e k v] e by (simp add: l_def)
  then have size: "tp_size l = 1" by (metis length_items length_Cons list.size(3) One_nat_def)
  have pair: "leaf_Insert k v e = (1, l)" using leaf_Insert_ok(2) [of e k v] e size by (simp add: l_def prod_eq_iff)
  have "start_tree k v (st T r C P S N) = (Inr True, st T N (C(N \<mapsto> Leaf l)) P (insert N S) (N + 1))"
    unfolding start_tree_def using room_cards(1) [OF assms(2)] assms(3) size
    by (simp add: exec_simps Let_def e_def [symmetric] pair PAGE_SIZE_def)
  moreover have "tp_max l = leaf_max_size T" "tp_parent l = INVALID_PAGE_ID" "next_leaf l = INVALID_PAGE_ID"
    by (simp_all add: l_def leaf_Insert_keeps e_def leaf_Init_def)
  ultimately show ?thesis using l by blast
qed

lemma tree_rep_start:
  "entries_of l = [(k, v)] \<Longrightarrow> tp_max l = L \<Longrightarrow> tp_parent l = INVALID_PAGE_ID \<Longrightarrow> next_leaf l = INVALID_PAGE_ID \<Longrightarrow> 1 \<le> L \<Longrightarrow>
   tree_rep (C(N \<mapsto> Leaf l)) L M N [(None, N, [(k, v)])] []"
  by (simp add: tree_rep_def least_leaf_def leaf_order_def next_of_def)

lemma pool_ok_add: "pool_ok C P S N \<Longrightarrow> pool_ok (C(N \<mapsto> n)) P (insert N S) (N + 1)"
  by (auto simp: pool_ok_def)

lemma pool_ok_put: "pool_ok C P S N \<Longrightarrow> C p = Some m \<Longrightarrow> pool_ok (C(p \<mapsto> n)) P (insert p S) N"
  by (force simp: pool_ok_def)

lemma pool_ok_sub: "pool_ok C P S N \<Longrightarrow> S \<subseteq> S' \<Longrightarrow> pool_ok C P S' N"
  by (auto simp: pool_ok_def)

text \<open>The entries of the tree after a leaf has changed.\<close>

lemma all_entries_ins:
  assumes "leaf_order (X @ (lo, p, kvs) # Y)" and "covers key (heads X) (lo, p) (heads Y)"
  shows "all_entries X @ ins_sorted key v kvs @ all_entries Y = ins_sorted key v (all_entries (X @ (lo, p, kvs) # Y))"
    and "leaf_order (X @ (lo, p, ins_sorted key v kvs) # Y)"
proof -
  note o = leaf_order_split [OF assms]
  show "all_entries X @ ins_sorted key v kvs @ all_entries Y = ins_sorted key v (all_entries (X @ (lo, p, kvs) # Y))"
    using entries_around(2) [OF o(1,2)] by simp
  have key: "at_least lo key" "\<forall>y \<in> set Y. \<not> at_least (fst y) key" using assms(2) by (auto simp: covers_def)
  have old: "\<forall>kv \<in> set kvs. at_least lo (fst kv) \<and> (\<forall>y \<in> set Y. \<not> at_least (fst y) (fst kv))"
    using assms(1) by (auto simp: leaf_order_def sorted_wrt_append)
  have "at_least lo (fst kv) \<and> (\<forall>y \<in> set Y. \<not> at_least (fst y) (fst kv))" if "kv \<in> set (ins_sorted key v kvs)" for kv
    using subsetD [OF ins_sorted_set that] key old by (metis fst_conv insertE)
  then show "leaf_order (X @ (lo, p, ins_sorted key v kvs) # Y)"
    using leaf_order_replace [OF assms(1) ins_sorted_sorted [OF o(3)]] by blast
qed

lemma tower_root: "tower C M H ups r \<Longrightarrow> parent_of C r = Some INVALID_PAGE_ID"
  by (induction ups arbitrary: H) (auto simp: tower_Cons)

lemma tree_rep_root: "tree_rep C L M r lv ups \<Longrightarrow> pool_ok C P S N \<Longrightarrow> r \<noteq> INVALID_PAGE_ID"
  using tower_root [OF tree_repD(5)] pool_ok_valid [of C P S N r] by (fastforce simp: parent_of_def)

lemma leaf_of_rep: "tree_rep C L M r lv ups \<Longrightarrow> x \<in> set (pids lv) \<Longrightarrow> L \<le> 338 \<Longrightarrow> fits C x"
  unfolding tree_rep_def fits_def
  by (elim conjE) (auto simp: PAGE_SIZE_def dest!: bspec)

definition inserted ::
  "BPlusTree \<Rightarrow> page_id list \<Rightarrow> page_id \<Rightarrow> (int \<times> RID) list \<Rightarrow> bool \<Rightarrow> (bool, BPlusTree) outcome option \<Rightarrow> bool" where
  "inserted T P N kvs new res \<longleftrightarrow>
     (\<exists>r' C' S' N' lv' ups'. res = Some (Inr new, st T r' C' P S' N') \<and> pool_ok C' P S' N' \<and> N' \<le> N + 32 \<and>
        tree_rep C' (leaf_max_size T) (internal_max_size T) r' lv' ups' \<and> all_entries lv' = kvs)"

lemma insertedI:
  "res = Some (Inr new, st T r' C' P S' N') \<Longrightarrow> pool_ok C' P S' N' \<Longrightarrow>
   tree_rep C' (leaf_max_size T) (internal_max_size T) r' lv' ups' \<Longrightarrow> N' \<le> N + 32 \<Longrightarrow> all_entries lv' = kvs \<Longrightarrow> inserted T P N kvs new res"
  unfolding inserted_def by blast

text \<open>The leaf is too full: it is cut in two, and the climb enters the new half.\<close>

lemma insert_overflow:
  assumes t: "tree_rep C L M r (X @ (lo, p, kvs) # Y) ups" and l: "C p = Some (Leaf l)" and pool: "pool_ok C P S N"
    and r: "room 3 T P" and ids: "N < 2 ^ 31 - 64" and L: "L = leaf_max_size T" "2 \<le> L" "L \<le> 338"
    and M: "M = internal_max_size T" "3 \<le> M" "M \<le> 509"
    and l': "entries_of l' = kvs'" "tp_max l' = L" "tp_parent l' = tp_parent l" "next_leaf l' = next_leaf l" and len: "length kvs' = Suc L"
    and ord: "leaf_order (X @ (lo, p, kvs') # Y)"
  shows "inserted T P N (all_entries X @ kvs' @ all_entries Y) True
    (and_then (Some (split_leaf p (st T r (C(p \<mapsto> Leaf l')) P (insert p S) N))) (\<lambda>(k, q). insert_up (p, k, q)))"
proof -
  note d = tree_repD [OF t]
  have size: "tp_size l' = Suc L" using l'(1) len by (metis length_items)
  let ?s = "tp_size l' div 2" and ?k = "fst (kvs' ! (tp_size l' div 2))" and ?S = "insert N (insert p (insert p S))"
  have s: "0 < ?s" "?s < length kvs'" "leaf_min_size L \<le> ?s" "?s \<le> L" "?s + leaf_min_size L \<le> length kvs'" "length kvs' \<le> ?s + L"
    using size len L(2) by (simp_all add: leaf_min_size_def)
  have "length ups \<le> 30" using tree_height [OF t M(2) pool] ids by simp
  have room2: "room 2 T P" using r by (simp add: room_def)
  have fit: "node_fits (Leaf l')" "2 \<le> tp_size l'" "N < 2 ^ 31 - 1" using size L(2,3) ids by (simp_all add: PAGE_SIZE_def)
  have "(C(p \<mapsto> Leaf l')) p = Some (Leaf l')" by simp
  from split_leaf_st [OF pool_ok_put [OF pool l] this fit(2,1) room2 fit(3), of r] obtain l1 l2 where
    c: "split_leaf p (st T r (C(p \<mapsto> Leaf l')) P (insert p S) N) = (Inr (fst (entries_of l' ! ?s), N),
      st T r (C(p \<mapsto> Leaf l', p \<mapsto> Leaf l1, N \<mapsto> Leaf l2)) P ?S (N + 1))"
    "entries_of l1 = take ?s (entries_of l')" "entries_of l2 = drop ?s (entries_of l')" "tp_max l1 = tp_max l'" "tp_max l2 = leaf_max_size T"
    "tp_parent l1 = tp_parent l'" "tp_parent l2 = tp_parent l'" "next_leaf l1 = N" "next_leaf l2 = next_leaf l'"
    "node_fits (Leaf l1)" "node_fits (Leaf l2)" .
  note sp = c(1-6,8-11) [unfolded fun_upd_upd l' L(1) [symmetric]]
  let ?C = "C(p \<mapsto> Leaf l1, N \<mapsto> Leaf l2)" and ?H = "heads X @ (lo, p) # heads Y"
  have new: "C N = None" "p \<noteq> N" using pool_ok_fresh [OF pool] l by auto
  have notN: "N \<notin> set (pids (X @ (lo, p, kvs) # Y) @ tower_pages ups)"
    using leaf_of_rep [OF t, of N] tower_dom [OF d(5), of N] L(3) new(1) unfolding set_append fits_def by force
  have ids': "map snd ?H = pids (X @ (lo, p, kvs) # Y)" by (simp add: comp_def)
  have "insert_result T ?C M (heads X @ (lo, p) # (Some ?k, N) # heads Y) ups P (N + 1) (insert_up (p, ?k, N) (st T r ?C P ?S (N + 1)))"
  proof (rule insert_up_ok [OF _ _ _ _ r _ M])
    have Nt: "N \<notin> set (tower_pages ups)" "p \<notin> set (tower_pages ups)" using notN d(6) by auto
    have up: "\<forall>x \<in> set (tower_pages ups). ?C x = C x"
    proof
      fix x assume "x \<in> set (tower_pages ups)"
      then have "x \<noteq> N" "x \<noteq> p" using Nt by blast+
      then show "?C x = C x" by simp
    qed
    have par: "\<forall>c \<in> snd ` set ?H. parent_of ?C c = parent_of C c"
    proof
      fix c assume "c \<in> snd ` set ?H"
      then have "c \<in> set (map snd ?H)" by (simp only: set_map)
      then have "c \<noteq> N" using notN unfolding ids' by auto
      then show "parent_of ?C c = parent_of C c" using l sp(6) by (simp add: parent_of_def)
    qed
    show "tower ?C M ?H ups r" by (rule tower_frame [OF _ up par]) (use d(5) in simp)
    show "distinct (N # map snd ?H @ tower_pages ups)" using d(6) notN unfolding ids' by simp
    have "fits ?C x" if "x \<in> set (pids (X @ (lo, p, kvs) # Y))" for x
      using leaf_of_rep [OF t that] L(3) sp(9,10) by (simp del: node_fits.simps)
    moreover have "fits ?C N" using sp(10) by (simp del: node_fits.simps)
    ultimately show "\<forall>x \<in> set (N # map snd ?H). fits ?C x" unfolding ids' list.set by blast
    show "pool_ok ?C P ?S (N + 1)" using pool_ok_add [OF pool_ok_put [OF pool l, of "Leaf l1"], of "Leaf l2"] by simp
    show "N + 1 + int (length ups) < 2 ^ 31 - 1" using \<open>length ups \<le> 30\<close> ids by simp
  qed
  from tree_rep_cut [OF t l pool sp(2-5,7,8) leaf_order_cut [OF ord s(1,2)] s(3-6) this] obtain r' C' S' N' ups' where
    res: "insert_up (p, ?k, N) (st T r ?C P ?S (N + 1)) = Some (Inr True, st T r' C' P S' N')" "pool_ok C' P S' N'" "N' \<le> N + int (length ups) + 2"
    "tree_rep C' L M r' (X @ (lo, p, take ?s kvs') # (Some ?k, N, drop ?s kvs') # Y) ups'" by blast
  show ?thesis unfolding sp(1) by (rule insertedI [OF _ res(2) res(4) [unfolded L(1) M(1)]]) (use res(1,3) \<open>length ups \<le> 30\<close> in simp_all)
qed

lemma insert_nonempty:
  assumes t: "tree_rep C L M r lv ups" and pool: "pool_ok C P S N" and room: "room 3 T P" and ids: "N < 2 ^ 31 - 64"
    and L: "L = leaf_max_size T" "2 \<le> L" "L \<le> 338" and M: "M = internal_max_size T" "3 \<le> M" "M \<le> 509"
  shows "inserted T P N (ins_sorted key v (all_entries lv)) (map_of (all_entries lv) key = None) (tree_Insert key v (st T r C P S N))"
proof -
  have "room 1 T P" "2 \<le> M" using room M(2) by (simp_all add: room_def)
  from find_leaf [OF t this(2) pool this(1), of key "RuntimeError ''Insert: FetchPage failed''" r] obtain X lo p kvs Y l where
    f: "lv = X @ (lo, p, kvs) # Y" "covers key (heads X) (lo, p) (heads Y)" "C p = Some (Leaf l)" "entries_of l = kvs" "tp_max l = L"
    "descend (RuntimeError ''Insert: FetchPage failed'') (\<lambda>n. int_Lookup n key) r (st T r C P S N) = Some (Inr (p, l), st T r C (p # P) S N)" .
  define l' where "l' = snd (leaf_Insert key v l)"
  have ord: "leaf_order (X @ (lo, p, kvs) # Y)" using tree_repD(4) [OF t] f(1) by simp
  note o = leaf_order_split [OF ord f(2)] and i = all_entries_ins [OF ord f(2), of v, folded f(1)]
  have srt: "keys_sorted (entries_of l)" using o(3) f(4) by simp
  note li = leaf_Insert_ok [OF srt, of key v, folded l'_def, unfolded f(4)] and lk = leaf_Insert_keeps [of key v l, folded l'_def]
  have pair: "leaf_Insert key v l = (tp_size l', l')" using li(2) by (simp add: l'_def prod_eq_iff)
  have mo: "map_of (all_entries lv) key = map_of kvs key" using entries_around(1) [OF o(1,2)] f(1) by simp
  have root: "r \<noteq> INVALID_PAGE_ID" using tree_rep_root [OF t pool] .
  have small: "tp_size l \<le> L" using tree_repD(2) [OF t] f(1,4) by auto
  then have fit: "node_fits (Leaf l')" using li(4) L(3) pair by (simp add: PAGE_SIZE_def)
  have one: "least_leaf L ups \<le> tp_size l" using tree_repD(2) [OF t] f(1,4) by auto
  show ?thesis
  proof (cases "map_of kvs key")
    case (Some w)
    then have same: "tp_size l' = tp_size l" "\<not> tp_size l' > tp_max l'" using li(3) pair lk(1) small f(5) by auto
    have "tree_Insert key v (st T r C P S N) = Some (Inr False, st T r C P S N)"
      using root unpin_back [OF pool f(3), of T r] same by (simp add: tree_Insert_def IsEmpty_def f(6) pair)
    moreover have "ins_sorted key v (all_entries lv) = all_entries lv"
      using ins_sorted_present [OF all_entries_sorted [OF tree_repD(4) [OF t]], of key v] mo Some by simp
    ultimately show ?thesis using insertedI [OF _ pool t [unfolded L(1) M(1)]] mo Some by simp
  next
    case None
    then have new: "tp_size l' \<noteq> tp_size l" "tp_size l' \<le> Suc (tp_size l)" using li(3,4) pair by auto
    have "length (ins_sorted key v kvs) = tp_size l'" using li(1) by (metis length_items)
    moreover have "length kvs = tp_size l" using f(4) by (metis length_items)
    ultimately have size: "tp_size l' = Suc (tp_size l)" using new length_ins_sorted [of kvs key v] by simp
    have S: "insert p (S - {p}) = insert p S" by auto
    have run: "tree_Insert key v (st T r C P S N) =
        (if tp_size l' > L then and_then (Some (split_leaf p (st T r (C(p \<mapsto> Leaf l')) P (insert p S) N))) (\<lambda>(k, q). insert_up (p, k, q))
         else Some (Inr True, st T r (C(p \<mapsto> Leaf l')) P (insert p S) N))"
      using root fit new(1) lk(1) f(5) S
      by (simp add: tree_Insert_def IsEmpty_def f(6) pair exec_simps split_def del: node_fits.simps)
    show ?thesis
    proof (cases "tp_size l' > L")
      case True
      then have "length (ins_sorted key v kvs) = Suc L" using li(1) size small by (metis Suc_leI le_antisym length_items not_less_eq_eq)
      from insert_overflow [OF t [unfolded f(1)] f(3) pool room ids L M li(1) _ _ _ this i(2)] lk f(5) True run mo None i(1)
      show ?thesis by simp
    next
      case False
      have "width_ok (least_leaf L ups) L (lo, p, ins_sorted key v kvs)"
        using False one size li(1) by (metis Suc_leD Suc_le_mono le_Suc_eq length_items not_less width_ok.simps le_trans)
      from tree_rep_replace [OF t [unfolded f(1)] f(3) li(1) _ _ _ i(2) this] lk f(5)
      have "tree_rep (C(p \<mapsto> Leaf l')) L M r (X @ (lo, p, ins_sorted key v kvs) # Y) ups" by simp
      from insertedI [OF _ pool_ok_put [OF pool f(3)] this [unfolded L(1) M(1)]] show ?thesis using run False mo None i(1) L(1) by simp
    qed
  qed
qed

lemma tree_Insert_ok:
  assumes "tree_of t kvs" and "room 3 t (pinned (bpm t))" and "next_new (bpm t) < 2 ^ 31 - 64"
  shows "\<exists>t'. tree_Insert key v t = Some (Inr (map_of kvs key = None), t') \<and> tree_of t' (ins_sorted key v kvs) \<and>
    pinned (bpm t') = pinned (bpm t) \<and> capacity (bpm t') = capacity (bpm t) \<and> next_new (bpm t') \<le> next_new (bpm t) + 32"
proof -
  let ?C = "content (bpm t)" and ?P = "pinned (bpm t)" and ?S = "saved (bpm t)" and ?N = "next_new (bpm t)" and ?r = "root_page_id t"
  have pool: "pool_ok ?C ?P ?S ?N" and sizes: "2 \<le> leaf_max_size t" "leaf_max_size t \<le> 338" "3 \<le> internal_max_size t" "internal_max_size t \<le> 509"
    using assms(1) by (simp_all add: tree_of_def ps_ok_pool)
  have "inserted t ?P ?N (ins_sorted key v kvs) (map_of kvs key = None) (tree_Insert key v t)"
  proof (cases "?r = INVALID_PAGE_ID")
    case True
    then have "kvs = []" using assms(1) by (simp add: tree_of_def)
    have "room 1 t ?P" "?N < 2 ^ 31 - 1" using assms(2,3) by (simp_all add: room_def)
    from start_tree_st [OF pool this, of key v ?r] obtain l where
      l: "start_tree key v t = (Inr True, st t ?N (?C(?N \<mapsto> Leaf l)) ?P (insert ?N ?S) (?N + 1))"
      "entries_of l = [(key, v)]" "tp_max l = leaf_max_size t" "tp_parent l = INVALID_PAGE_ID" "next_leaf l = INVALID_PAGE_ID"
      unfolding st_self [symmetric] by blast
    have "1 \<le> leaf_max_size t" using sizes(1) by simp
    note rep = tree_rep_start [OF l(2-5) this, of ?C ?N "internal_max_size t"]
    show ?thesis unfolding inserted_def tree_Insert_def IsEmpty_def \<open>kvs = []\<close> using True l(1) pool_ok_add [OF pool] rep by fastforce
  next
    case False
    then obtain lv ups where "tree_rep ?C (leaf_max_size t) (internal_max_size t) ?r lv ups" "kvs = all_entries lv"
      using assms(1) by (auto simp: tree_of_def)
    then show ?thesis using insert_nonempty [OF _ pool assms(2,3) refl sizes(1,2) refl sizes(3,4), of ?r lv ups] by (simp add: st_self [symmetric])
  qed
  then obtain r' C' S' N' lv' ups' where i: "tree_Insert key v t = Some (Inr (map_of kvs key = None), st t r' C' ?P S' N')" "pool_ok C' ?P S' N'" "N' \<le> ?N + 32"
    "tree_rep C' (leaf_max_size t) (internal_max_size t) r' lv' ups'" "all_entries lv' = ins_sorted key v kvs"
    unfolding inserted_def by blast
  have "tree_of (st t r' C' ?P S' N') (ins_sorted key v kvs)"
    using i(2,4,5) sizes tree_rep_root [OF i(4,2)] by (auto simp: tree_of_def ps_ok_pool)
  then show ?thesis using i(1,3) by simp
qed

end
