(* ===== verification/BPlus_Correct.thy ===== *)
theory BPlus_Correct
  imports BPlus_Insertion
begin

text \<open>
  What the B+ tree promises: it is an ordered index. The contract is a locale that knows only the
  sorted association list behind the index; what a client that fills an index may expect is proved
  there, once, and reached for the tree by interpretation.
\<close>

section \<open>Ordered indexes\<close>

fun insert_all ::
  "(int \<Rightarrow> 'v \<Rightarrow> 't \<Rightarrow> (bool, 't) outcome option) \<Rightarrow> (int \<times> 'v) list \<Rightarrow> 't \<Rightarrow> (bool list, 't) outcome option" where
  "insert_all ins [] t = Some (Inr [], t)"
| "insert_all ins ((k, v) # kvs) t =
     and_then (ins k v t) (\<lambda>b t. and_then (insert_all ins kvs t) (\<lambda>bs t. Some (Inr (b # bs), t)))"

text \<open>Which insertions of a list add an entry: those of a key that the list has not had before.\<close>

fun first_times :: "(int \<times> 'v) list \<Rightarrow> (int \<times> 'v) list \<Rightarrow> bool list" where
  "first_times kvs [] = []"
| "first_times kvs ((k, v) # xs) = (map_of kvs k = None) # first_times ((k, v) # kvs) xs"

lemma first_times_cong: "(\<forall>k. map_of kvs k = None \<longleftrightarrow> map_of kvs' k = None) \<Longrightarrow> first_times kvs xs = first_times kvs' xs"
proof (induction xs arbitrary: kvs kvs')
  case (Cons kv xs)
  obtain k v where "kv = (k, v)" by (cases kv)
  then show ?case using Cons.prems Cons.IH [of "(k, v) # kvs" "(k, v) # kvs'"] by simp
qed simp

lemma map_of_ins_sorted:
  "keys_sorted kvs \<Longrightarrow> map_of (ins_sorted k v kvs) = (if map_of kvs k = None then (map_of kvs)(k \<mapsto> v) else map_of kvs)"
proof (induction kvs)
  case (Cons kv kvs)
  obtain k' v' where kv: "kv = (k', v')" by (cases kv)
  have "map_of kvs k = None" if "k < k'"
    using Cons.prems kv that by (fastforce simp: map_of_eq_None_iff)
  then show ?case using Cons kv by (auto simp: fun_upd_twist)
qed auto

locale ordered_index =
  fixes rep :: "'t \<Rightarrow> (int \<times> 'v) list \<Rightarrow> bool" and ready :: "nat \<Rightarrow> 't \<Rightarrow> bool"
    and ins :: "int \<Rightarrow> 'v \<Rightarrow> 't \<Rightarrow> (bool, 't) outcome option"
    and look :: "int \<Rightarrow> 't \<Rightarrow> ('v option, 't) outcome option"
    and scan :: "'t \<Rightarrow> ((int \<times> 'v) list, 't) outcome option"
    and scan_key :: "int \<Rightarrow> 't \<Rightarrow> ((int \<times> 'v) list, 't) outcome option"
  assumes rep_sorted: "rep t kvs \<Longrightarrow> keys_sorted kvs"
    and ins_law: "rep t kvs \<Longrightarrow> ready (Suc n) t \<Longrightarrow>
      \<exists>t'. ins k v t = Some (Inr (map_of kvs k = None), t') \<and> rep t' (ins_sorted k v kvs) \<and> ready n t'"
    and look_law: "rep t kvs \<Longrightarrow> ready n t \<Longrightarrow> look k t = Some (Inr (map_of kvs k), t)"
    and scan_law: "rep t kvs \<Longrightarrow> ready n t \<Longrightarrow> scan t = Some (Inr kvs, t)"
    and scan_key_law: "rep t kvs \<Longrightarrow> ready n t \<Longrightarrow> scan_key k t = Some (Inr (filter (\<lambda>kv. k \<le> fst kv) kvs), t)"
begin

lemma fill:
  assumes "rep t kvs" and "ready (length xs + n) t"
  shows "\<exists>t' kvs'. insert_all ins xs t = Some (Inr (first_times kvs xs), t') \<and> rep t' kvs' \<and> ready n t' \<and>
    map_of kvs' = map_of xs ++ map_of kvs"
  using assms
proof (induction xs arbitrary: t kvs)
  case (Cons kv xs)
  obtain k v where kv: "kv = (k, v)" by (cases kv)
  from ins_law [OF Cons.prems(1), of "length xs + n" k v] Cons.prems(2) obtain t' where
    t': "ins k v t = Some (Inr (map_of kvs k = None), t')" "rep t' (ins_sorted k v kvs)" "ready (length xs + n) t'" by auto
  note m = map_of_ins_sorted [OF rep_sorted [OF Cons.prems(1)], of k v]
  have seen: "first_times (ins_sorted k v kvs) xs = first_times ((k, v) # kvs) xs" using m by (intro first_times_cong) auto
  have "map_of xs ++ map_of (ins_sorted k v kvs) = map_of (kv # xs) ++ map_of kvs"
    using m kv by (auto simp: map_add_def fun_eq_iff split: option.splits)
  with Cons.IH [OF t'(2,3)] obtain t2 kvs2 where "insert_all ins xs t' = Some (Inr (first_times ((k, v) # kvs) xs), t2)"
    "rep t2 kvs2" "ready n t2" "map_of kvs2 = map_of (kv # xs) ++ map_of kvs" unfolding seen by metis
  moreover from this(1) have "insert_all ins (kv # xs) t = Some (Inr (first_times kvs (kv # xs)), t2)" using t'(1) kv by simp
  ultimately show ?case by blast
qed auto

text \<open>An index that has been filled answers searches and scans like the map of the entries.\<close>

lemma filled:
  assumes "rep t []" and "ready (length xs) t"
  shows "\<exists>t' kvs. insert_all ins xs t = Some (Inr (first_times [] xs), t') \<and> keys_sorted kvs \<and> map_of kvs = map_of xs \<and>
    scan t' = Some (Inr kvs, t') \<and> (\<forall>k. scan_key k t' = Some (Inr (filter (\<lambda>kv. k \<le> fst kv) kvs), t')) \<and>
    (\<forall>k. look k t' = Some (Inr (map_of xs k), t'))"
proof -
  from fill [OF assms(1), of xs 0] assms(2) obtain t' kvs where
    "insert_all ins xs t = Some (Inr (first_times [] xs), t')" "rep t' kvs" "ready 0 t'" "map_of kvs = map_of xs" by auto
  then show ?thesis using rep_sorted look_law scan_law scan_key_law by metis
qed

end

section \<open>The B+ tree is an ordered index\<close>

text \<open>
  The pool has three frames that nobody has pinned, and page ids for \<open>n\<close> insertions: an insertion
  takes at most 32 new pages, since a tree of fewer than \<open>2 ^ 31\<close> pages has at most 31 levels.
\<close>

definition tree_ready :: "nat \<Rightarrow> BPlusTree \<Rightarrow> bool" where
  "tree_ready n t \<longleftrightarrow> room 3 t (pinned (bpm t)) \<and> next_new (bpm t) + 32 * int n < 2 ^ 31 - 32"

definition scan_all :: "BPlusTree \<Rightarrow> ((int \<times> RID) list, BPlusTree) outcome option" where
  "scan_all t = and_then (tree_Begin t) walk"

definition scan_key :: "int \<Rightarrow> BPlusTree \<Rightarrow> ((int \<times> RID) list, BPlusTree) outcome option" where
  "scan_key key t = and_then (tree_Begin_key key t) walk"

interpretation tree: ordered_index tree_of tree_ready tree_Insert GetValue scan_all scan_key
proof
  fix t kvs n k v
  assume t: "tree_of t kvs"
  show "keys_sorted kvs" using t all_entries_sorted tree_repD(4) by (fastforce simp: tree_of_def split: if_splits)
  show "\<exists>t'. tree_Insert k v t = Some (Inr (map_of kvs k = None), t') \<and> tree_of t' (ins_sorted k v kvs) \<and> tree_ready n t'"
    if "tree_ready (Suc n) t"
    using tree_Insert_ok [OF t, of k v] that by (auto simp: tree_ready_def room_def)
  assume "tree_ready n t"
  then have "room 1 t (pinned (bpm t))" by (simp add: tree_ready_def room_def)
  then show "GetValue k t = Some (Inr (map_of kvs k), t)" "scan_all t = Some (Inr kvs, t)"
    "scan_key k t = Some (Inr (filter (\<lambda>kv. k \<le> fst kv) kvs), t)"
    using GetValue_ok [OF t] Begin_walk_ok [OF t] Begin_key_walk_ok [OF t] by (simp_all add: scan_all_def scan_key_def)
qed

lemma tree_of_init:
  "ps_ok s \<Longrightarrow> 2 \<le> lm \<Longrightarrow> lm \<le> 338 \<Longrightarrow> 3 \<le> im \<Longrightarrow> im \<le> 509 \<Longrightarrow> tree_of (BPlusTree_init lm im s) []"
  by (simp add: tree_of_def BPlusTree_init_def)

section \<open>Properties\<close>

text \<open>
  C3. Insert returns; it reports whether the key was new, leaves a well-formed tree that represents the
  list with the entry added in order (an existing key keeps its value), and pins no page.
\<close>

theorem bplus_insert_correct:
  assumes "tree_of t kvs" and "tree_ready 1 t"
  shows "\<exists>t'. tree_Insert key v t = Some (Inr (map_of kvs key = None), t') \<and> tree_of t' (ins_sorted key v kvs) \<and>
    pinned (bpm t') = pinned (bpm t)"
  using tree_Insert_ok [OF assms(1), of key v] assms(2) by (auto simp: tree_ready_def)

definition sample_tree :: BPlusTree where
  "sample_tree = BPlusTree_init 2 3 (ps_init 8 0)"

lemma sample_tree_ok [simp]: "tree_of sample_tree []" "n \<le> 100 \<Longrightarrow> tree_ready n sample_tree"
  by (simp_all add: sample_tree_def tree_of_init tree_ready_def room_def) (simp_all add: BPlusTree_init_def ps_init_def)

lemma sample_filled:
  obtains t kvs where "tree_of t kvs" and "tree_ready 1 t" and "room 1 t (pinned (bpm t))"
    and "map_of kvs = map_of (map (\<lambda>k. (k, RID 0 1)) [1, 9, 4, 7, 6])"
proof -
  have "tree_ready (length (map (\<lambda>k. (k, RID 0 1)) [1, 9, 4, 7, 6 :: int]) + 1) sample_tree" by simp
  from tree.fill [OF sample_tree_ok(1) this] obtain t kvs where
    "tree_of t kvs" "tree_ready 1 t" "map_of kvs = map_of (map (\<lambda>k. (k, RID 0 1)) [1, 9, 4, 7, 6]) ++ map_of []" by blast
  moreover from this(2) have "room 1 t (pinned (bpm t))" by (simp add: tree_ready_def room_def)
  ultimately show thesis using that by simp
qed

theorem bplus_insert_correct_witness:
  "\<exists>t kvs t'. map_of kvs 7 = Some (RID 0 1) \<and> tree_Insert 3 (RID 0 2) t = Some (Inr True, t') \<and> tree_of t' (ins_sorted 3 (RID 0 2) kvs)"
proof -
  from sample_filled obtain t kvs where
    t: "tree_of t kvs" "tree_ready 1 t" "room 1 t (pinned (bpm t))" "map_of kvs = map_of (map (\<lambda>k. (k, RID 0 1)) [1, 9, 4, 7, 6])" .
  from bplus_insert_correct [OF t(1,2), of 3 "RID 0 2"] obtain t' where
    "tree_Insert 3 (RID 0 2) t = Some (Inr (map_of kvs 3 = None), t')" "tree_of t' (ins_sorted 3 (RID 0 2) kvs)" by blast
  then show ?thesis using t(4) by (intro exI [of _ t] exI [of _ kvs] exI [of _ t']) simp
qed

text \<open>
  C4. GetValue returns; it finds exactly the value that the represented list has for the key, and changes nothing.
\<close>

theorem bplus_lookup_correct:
  assumes "tree_of t kvs" and "room 1 t (pinned (bpm t))"
  shows "GetValue key t = Some (Inr (map_of kvs key), t)"
  by (rule GetValue_ok [OF assms])

theorem bplus_lookup_correct_witness:
  "\<exists>t. GetValue 7 t = Some (Inr (Some (RID 0 1)), t) \<and> GetValue 8 t = Some (Inr None, t)"
proof -
  from sample_filled obtain t kvs where
    t: "tree_of t kvs" "tree_ready 1 t" "room 1 t (pinned (bpm t))" "map_of kvs = map_of (map (\<lambda>k. (k, RID 0 1)) [1, 9, 4, 7, 6])" .
  from bplus_lookup_correct [OF t(1,3), of 7] bplus_lookup_correct [OF t(1,3), of 8]
  show ?thesis using t(4) by auto
qed

text \<open>
  C5. A client that walks from Begin to the end sees every entry of the represented list, in the order of
  the keys; from Begin(key), exactly those with a key that is not smaller. The walk ends.
\<close>

theorem bplus_scans_correct:
  assumes "tree_of t kvs" and "room 1 t (pinned (bpm t))"
  shows "and_then (tree_Begin t) walk = Some (Inr kvs, t) \<and>
    and_then (tree_Begin_key key t) walk = Some (Inr (filter (\<lambda>kv. key \<le> fst kv) kvs), t)"
  using Begin_walk_ok [OF assms] Begin_key_walk_ok [OF assms] by simp

theorem bplus_scans_correct_witness:
  "\<exists>t kvs. map_of kvs 7 = Some (RID 0 1) \<and> and_then (tree_Begin_key 6 t) walk = Some (Inr (filter (\<lambda>kv. 6 \<le> fst kv) kvs), t)"
proof -
  from sample_filled obtain t kvs where
    t: "tree_of t kvs" "tree_ready 1 t" "room 1 t (pinned (bpm t))" "map_of kvs = map_of (map (\<lambda>k. (k, RID 0 1)) [1, 9, 4, 7, 6])" .
  from bplus_scans_correct [OF t(1,3), of 6] t(4) show ?thesis by (intro exI [of _ t] exI [of _ kvs]) auto
qed

text \<open>
  Filling a tree from its constructor: for every list of keys and values the insertions return, an insertion
  reports true exactly when the key is new, and afterwards searches and scans answer as the map of the list does.
\<close>

theorem bplus_filled:
  assumes "ps_ok s" and "2 \<le> lm" and "lm \<le> 338" and "3 \<le> im" and "im \<le> 509"
    and "card (set (pinned s)) + 3 \<le> capacity s" and "next_new s + 32 * int (length xs) < 2 ^ 31 - 32"
  shows "\<exists>t kvs. insert_all tree_Insert xs (BPlusTree_init lm im s) = Some (Inr (first_times [] xs), t) \<and>
    keys_sorted kvs \<and> map_of kvs = map_of xs \<and> scan_all t = Some (Inr kvs, t) \<and>
    (\<forall>k. scan_key k t = Some (Inr (filter (\<lambda>kv. k \<le> fst kv) kvs), t)) \<and> (\<forall>k. GetValue k t = Some (Inr (map_of xs k), t))"
proof (rule tree.filled)
  show "tree_of (BPlusTree_init lm im s) []" using tree_of_init assms(1-5) .
  show "tree_ready (length xs) (BPlusTree_init lm im s)" using assms(6,7) by (simp add: tree_ready_def room_def BPlusTree_init_def)
qed

theorem bplus_filled_witness:
  "\<exists>t. insert_all tree_Insert [(5, RID 0 0), (2, RID 0 1), (5, RID 0 2)] (BPlusTree_init 2 3 (ps_init 4 0)) = Some (Inr [True, True, False], t) \<and>
    GetValue 5 t = Some (Inr (Some (RID 0 0)), t)"
  using bplus_filled [of "ps_init 4 0 :: node page_store" 2 3 "[(5, RID 0 0), (2, RID 0 1), (5, RID 0 2)]"]
  by (auto simp: ps_init_def [of 4 0, symmetric]) (auto simp: ps_init_def)

text \<open>
  C25. The sizes that the constructor computes for 0 fill a page to its last byte, so there is no room for the
  entry that an insertion adds before it splits: inserting a new key into a full leaf writes past the page.
\<close>

theorem default_leaf_overflow:
  assumes "content (bpm t) (root_page_id t) = Some (Leaf l)" and "root_page_id t \<noteq> INVALID_PAGE_ID"
    and "keys_sorted (entries_of l)" and "map_of (entries_of l) key = None"
    and "tp_size l = leaf_max_size (BPlusTree_init 0 0 s)" and "card (set (pinned (bpm t))) < capacity (bpm t)"
  shows "\<exists>t'. tree_Insert key v t = Some (Inl UndefinedBehaviour, t')"
proof -
  let ?C = "content (bpm t)" and ?P = "pinned (bpm t)" and ?S = "saved (bpm t)" and ?N = "next_new (bpm t)" and ?r = "root_page_id t"
  have size: "tp_size l = 339" using assms(5) by (simp add: BPlusTree_init_def PAGE_SIZE_def)
  define l' where "l' = snd (leaf_Insert key v l)"
  note li = leaf_Insert_ok [OF assms(3), of key v, folded l'_def]
  have "tp_size l' = length (ins_sorted key v (entries_of l))" using arg_cong [OF li(1), of length] by simp
  then have "tp_size l \<le> tp_size l'" "tp_size l' \<noteq> tp_size l"
    using length_ins_sorted [of "entries_of l" key v] li(2,3) assms(4) by simp_all
  then have "\<not> node_fits (Leaf l')" "tp_size l' \<noteq> tp_size l" using size by (simp_all add: PAGE_SIZE_def)
  moreover have "leaf_Insert key v l = (tp_size l', l')" using li(2) by (simp add: l'_def prod_eq_iff)
  moreover have "descend e f ?r (st t ?r ?C ?P ?S ?N) = Some (Inr (?r, l), st t ?r ?C (?r # ?P) ?S ?N)" for e f
    by (subst descend.simps) (use assms(1,6) in \<open>simp add: exec_simps\<close>)
  ultimately show ?thesis
    using assms(2) by (simp add: tree_Insert_def IsEmpty_def st_self [symmetric] put_page_def del: node_fits.simps)
qed

definition full_leaf :: LeafPage where
  "full_leaf = \<lparr>tp_size = 339, tp_max = 339, tp_parent = INVALID_PAGE_ID, next_leaf = INVALID_PAGE_ID, leaf_array = (\<lambda>i. (int i, RID 0 0))\<rparr>"

theorem default_leaf_overflow_witness:
  "\<exists>t'. tree_Insert (- 1) (RID 0 0)
    ((BPlusTree_init 0 0 ((ps_init 4 1)\<lparr>content := [0 \<mapsto> Leaf full_leaf]\<rparr>))\<lparr>root_page_id := 0\<rparr>) = Some (Inl UndefinedBehaviour, t')"
  by (rule default_leaf_overflow [where l = full_leaf and s = "ps_init 4 1"])
    (auto simp: BPlusTree_init_def ps_init_def INVALID_PAGE_ID_def full_leaf_def PAGE_SIZE_def items_def sorted_wrt_map map_of_eq_None_iff
      intro: sorted_wrt_mono_rel [OF _ sorted_wrt_upt])

end
