(* ===== verification/BPlus_Shrink.thy ===== *)
theory BPlus_Shrink
  imports BPlus_Insertion
begin

text \<open>
  The climb of \<open>Remove\<close>: a node that has become too small borrows from a sibling or is merged with one, and
  after a merge the parent is looked at next, up to a root that shrinks. First what each step of the code does to
  the pages, then what that means for the levels of the tower.
\<close>

section \<open>Reading the parent\<close>

definition side :: "int \<Rightarrow> (int \<times> page_id) list \<Rightarrow> page_id" where
  "side i cs = (if 0 \<le> i \<and> i < int (length cs) then snd (cs ! nat i) else INVALID_PAGE_ID)"

lemma fix_underflow_st:
  assumes "pool_ok C P S N" and "C p = Some node" and "parent_of C p = Some pp" and "C pp = Some (Internal n)"
    and "distinct (map snd (children_of n))" and "i < tp_size n" and "snd (children_of n ! i) = p" and "room 1 T P"
  shows "fix_underflow p (st T r C P S N) =
    (if IsLeafPage node then fix_leaf else fix_internal) p pp (int i)
      (side (int i - 1) (children_of n)) (side (int i + 1) (children_of n)) (st T r C (pp # P) S N)"
proof -
  have pp: "GetParentPageId node = pp" "pp \<noteq> INVALID_PAGE_ID"
    using assms(2,3) pool_ok_valid [OF assms(1,4)] by (simp_all add: parent_of_def)
  have "nat (int i - 1) = i - 1" "nat (int i + 1) = Suc i" by simp_all
  then have sides: "side (int i - 1) (children_of n) = (if int i > 0 then int_ValueAt n (nat (int i - 1)) else INVALID_PAGE_ID)"
    "side (int i + 1) (children_of n) = (if int i + 1 < int (tp_size n) then int_ValueAt n (nat (int i + 1)) else INVALID_PAGE_ID)"
    using assms(6) by (auto simp: side_def int_ValueAt_def)
  show ?thesis unfolding sides
    using int_ValueIndex_ok [OF assms(5-7)] room_cards(1) [OF assms(8)] assms(4) pp
    by (simp add: fix_underflow_def peek_st [OF assms(1,2,8)] exec_simps Let_def)
qed

text \<open>Deleting a page that may be pinned by somebody else: the tree does not use it any more.\<close>

lemma delete_page_cases:
  assumes "pool_ok C P S N"
  obtains C' where "delete_page p (st T r C P S N) = st T r C' P S N" and "\<forall>x. x \<noteq> p \<longrightarrow> C' x = C x" and "pool_ok C' P S N"
proof (cases "p \<in> set P")
  case True
  then have "delete_page p (st T r C P S N) = st T r C P S N" by (simp add: delete_page_def ps_delete_def st_def)
  then show thesis using that assms by blast
next
  case False
  then have "pool_ok (C(p := None)) P S N" using assms by (auto simp: pool_ok_def)
  then show thesis using that [of "C(p := None)"] False by (simp add: exec_simps)
qed

lemma int_SetKeyAt_keeps [simp]:
  "tp_max (int_SetKeyAt i k n) = tp_max n" "tp_parent (int_SetKeyAt i k n) = tp_parent n" "tp_size (int_SetKeyAt i k n) = tp_size n"
  by (simp_all add: int_SetKeyAt_def)

lemma parent_SetKeyAt_st [exec_simps]:
  "C pp = Some (Internal n) \<Longrightarrow> node_fits (Internal n) \<Longrightarrow> pp \<in> set P \<Longrightarrow>
   parent_SetKeyAt pp i k (st T r C P S N) = (Inr (), st T r (C(pp \<mapsto> Internal (int_SetKeyAt i k n))) P (S - {pp}) N)"
  by (simp add: parent_SetKeyAt_def exec_simps)

lemma parent_Remove_st:
  assumes "C pp = Some (Internal n)" and "i < tp_size n" and "node_fits (Internal n)" and "pp \<in> set P"
  obtains n' where "parent_Remove pp i (st T r C P S N) = (Inr (), st T r (C(pp \<mapsto> Internal n')) P (S - {pp}) N)"
    and "children_of n' = remove_at i (children_of n)" and "tp_max n' = tp_max n" and "tp_parent n' = tp_parent n"
proof -
  from int_Remove_ok [OF assms(2)] obtain n' where
    n': "int_Remove i n = Inr n'" "children_of n' = remove_at i (children_of n)" "tp_max n' = tp_max n" "tp_parent n' = tp_parent n"
    "tp_size n' = tp_size n - 1" .
  then have "node_fits (Internal n')" using assms(3) by simp
  then show thesis using that [of n'] n' assms(1,4) by (simp add: parent_Remove_def exec_simps del: node_fits.simps)
qed

section \<open>What a step leaves in the pool\<close>

text \<open>
  \<open>moved\<close>: the pages after entries have been moved between the siblings \<open>p1\<close> and \<open>p2\<close>, or after \<open>p2\<close> has
  been merged into \<open>p1\<close> and dropped.
\<close>

lemma pool_ok_upd: "pool_ok C P S N \<Longrightarrow> p \<in> dom C \<Longrightarrow> pool_ok (C(p \<mapsto> n)) P S N"
  by (auto simp: pool_ok_def)

lemma pool_ok_saved: "pool_ok C P S N \<Longrightarrow> S \<subseteq> S' \<Longrightarrow> pool_ok C P S' N"
  by (auto simp: pool_ok_def)

lemma pool_ok_pin: "pool_ok C P S N \<Longrightarrow> p \<in> dom C \<Longrightarrow> pool_ok C (p # P) S N"
  by (auto simp: pool_ok_def)

lemma pool_ok_unpin: "pool_ok C (p # P) S N \<Longrightarrow> pool_ok C P (insert p S) N"
  by (auto simp: pool_ok_def)

lemma borrow_none_st:
  assumes "pool_ok C (p # pp # P) S N" and "room 3 T P" and "sib \<noteq> INVALID_PAGE_ID \<Longrightarrow> \<exists>l. C sib = Some (Leaf l) \<and> tp_size l \<le> leaf_min_size (tp_max l)"
  shows "leaf_borrow_left p pp i sib (st T r C (p # pp # P) S N) = (Inr None, st T r C (p # pp # P) S N)"
    and "leaf_borrow_right p pp i sib (st T r C (p # pp # P) S N) = (Inr None, st T r C (p # pp # P) S N)"
proof -
  note card = room_cards(3) [OF assms(2)]
  have "leaf_borrow_left p pp i sib (st T r C (p # pp # P) S N) = (Inr None, st T r C (p # pp # P) S N) \<and>
    leaf_borrow_right p pp i sib (st T r C (p # pp # P) S N) = (Inr None, st T r C (p # pp # P) S N)"
  proof (cases "sib = INVALID_PAGE_ID")
    case False
    with assms(3) obtain l where l: "C sib = Some (Leaf l)" "tp_size l \<le> leaf_min_size (tp_max l)" by blast
    have "sib \<in> S \<or> sib \<in> set (p # pp # P)" using pool_ok_clean [OF assms(1) l(1)] .
    then show ?thesis using False l card by (simp add: leaf_borrow_left_def leaf_borrow_right_def exec_simps)
  qed (simp add: leaf_borrow_left_def leaf_borrow_right_def)
  then show "leaf_borrow_left p pp i sib (st T r C (p # pp # P) S N) = (Inr None, st T r C (p # pp # P) S N)"
    "leaf_borrow_right p pp i sib (st T r C (p # pp # P) S N) = (Inr None, st T r C (p # pp # P) S N)" by auto
qed

section \<open>Leaves: one step of the code\<close>

text \<open>A leaf that keeps all but its entries.\<close>

definition leaf_keeps :: "LeafPage \<Rightarrow> LeafPage \<Rightarrow> bool" where
  "leaf_keeps l l' \<longleftrightarrow> tp_max l' = tp_max l \<and> tp_parent l' = tp_parent l \<and> next_leaf l' = next_leaf l"

lemma leaf_KeyAt_0: "entries_of l = kv # kvs \<Longrightarrow> leaf_KeyAt l 0 = fst kv"
  by (cases "tp_size l") (simp_all add: items_Cons leaf_KeyAt_def, simp add: items_def)

lemma leaf_size: "tp_size l = length (entries_of l)"
  by simp

lemma leaf_borrow_left_st:
  assumes "C q = Some (Leaf l)" and "C p = Some (Leaf u)" and "C pp = Some (Internal n)" and "q \<noteq> p"
    and "leaf_min_size (tp_max l) < tp_size l" and "node_fits (Leaf l)" and "12 * tp_size u + 32 \<le> PAGE_SIZE"
    and "i < tp_size n" and "node_fits (Internal n)" and "room 3 T P" and "q \<noteq> INVALID_PAGE_ID"
  obtains l' u' n' where "leaf_borrow_left p pp (int i) q (st T r C (p # pp # P) S N) =
      (Inr (Some ()), st T r (C(q \<mapsto> Leaf l', p \<mapsto> Leaf u', pp \<mapsto> Internal n')) P (insert pp (insert p (insert q S))) N)"
    and "entries_of l' = butlast (entries_of l)" and "entries_of u' = last (entries_of l) # entries_of u"
    and "leaf_keeps l l'" and "leaf_keeps u u'"
    and "children_of n' = (children_of n)[i := (fst (last (entries_of l)), snd (children_of n ! i))]"
    and "tp_max n' = tp_max n" and "tp_parent n' = tp_parent n"
proof -
  have "0 < tp_size l" using assms(5) by simp
  from leaf_MoveLastToFrontOf_ok [OF this, of u] obtain l' u' where
    m: "leaf_MoveLastToFrontOf l u = Inr (l', u')" "entries_of l' = butlast (entries_of l)" "entries_of u' = last (entries_of l) # entries_of u"
    "leaf_keeps l l'" "leaf_keeps u u'" unfolding leaf_keeps_def by metis
  have fit: "node_fits (Leaf l')" "node_fits (Leaf u')"
    using assms(6,7) arg_cong [OF m(2), of length] arg_cong [OF m(3), of length] by (simp_all add: PAGE_SIZE_def)
  have other: "pp \<noteq> q" "pp \<noteq> p" using assms(1-3) by auto
  let ?C = "C(q \<mapsto> Leaf l', p \<mapsto> Leaf u')" and ?k = "fst (last (entries_of l))"
  let ?n = "int_SetKeyAt i ?k n"
  have S: "insert pp (insert p (insert q (S - {q} - {p} - {pp}))) = insert pp (insert p (insert q S))" by auto
  have key: "leaf_KeyAt u' 0 = ?k" using leaf_KeyAt_0 [OF m(3)] .
  have "leaf_borrow_left p pp (int i) q (st T r C (p # pp # P) S N) =
      (Inr (Some ()), st T r (?C(pp \<mapsto> Internal ?n)) P (insert pp (insert p (insert q S))) N)"
    unfolding leaf_borrow_left_def S [symmetric]
    using assms(1-5,9,11) other fit m(1) room_cards(3) [OF assms(10)] key
    by (simp add: exec_simps del: node_fits.simps)
  then show thesis using that [of l' u' ?n] m int_SetKeyAt_ok [OF assms(8), of ?k] by simp
qed

lemma leaf_borrow_right_st:
  assumes "C q = Some (Leaf l)" and "C p = Some (Leaf u)" and "C pp = Some (Internal n)" and "q \<noteq> p"
    and "leaf_min_size (tp_max l) < tp_size l" and "2 \<le> tp_size l" and "node_fits (Leaf l)" and "12 * tp_size u + 32 \<le> PAGE_SIZE"
    and "Suc i < tp_size n" and "node_fits (Internal n)" and "room 3 T P" and "q \<noteq> INVALID_PAGE_ID"
  obtains l' u' n' where "leaf_borrow_right p pp (int i) q (st T r C (p # pp # P) S N) =
      (Inr (Some ()), st T r (C(q \<mapsto> Leaf l', p \<mapsto> Leaf u', pp \<mapsto> Internal n')) P (insert pp (insert p (insert q S))) N)"
    and "entries_of l' = tl (entries_of l)" and "entries_of u' = entries_of u @ [hd (entries_of l)]"
    and "leaf_keeps l l'" and "leaf_keeps u u'"
    and "children_of n' = (children_of n)[Suc i := (fst (entries_of l ! 1), snd (children_of n ! Suc i))]"
    and "tp_max n' = tp_max n" and "tp_parent n' = tp_parent n"
proof -
  have "0 < tp_size l" using assms(6) by simp
  from leaf_MoveFirstToEndOf_ok [OF this, of u] obtain l' u' where
    m: "leaf_MoveFirstToEndOf l u = Inr (l', u')" "entries_of l' = tl (entries_of l)" "entries_of u' = entries_of u @ [hd (entries_of l)]"
    "leaf_keeps l l'" "leaf_keeps u u'" unfolding leaf_keeps_def by metis
  have fit: "node_fits (Leaf l')" "node_fits (Leaf u')"
    using assms(7,8) arg_cong [OF m(2), of length] arg_cong [OF m(3), of length] by (simp_all add: PAGE_SIZE_def)
  have other: "pp \<noteq> q" "pp \<noteq> p" using assms(1-3) by auto
  let ?C = "C(q \<mapsto> Leaf l', p \<mapsto> Leaf u')" and ?k = "fst (entries_of l ! 1)"
  let ?n = "int_SetKeyAt (Suc i) ?k n"
  have S: "insert pp (insert p (insert q (S - {q} - {p} - {pp}))) = insert pp (insert p (insert q S))" by auto
  obtain kv kvs where "entries_of l' = kv # kvs" "kv = entries_of l ! 1"
  proof -
    have "length (entries_of l') \<noteq> 0" using assms(6) m(2) by simp
    then obtain kv kvs where kv: "entries_of l' = kv # kvs" by (cases "entries_of l'") auto
    then have "kv = entries_of l' ! 0" by simp
    also have "\<dots> = entries_of l ! 1" unfolding m(2) using assms(6) by (subst nth_tl) auto
    finally show thesis using that kv by blast
  qed
  then have key: "leaf_KeyAt l' 0 = ?k" using leaf_KeyAt_0 by metis
  have "leaf_borrow_right p pp (int i) q (st T r C (p # pp # P) S N) =
      (Inr (Some ()), st T r (?C(pp \<mapsto> Internal ?n)) P (insert pp (insert p (insert q S))) N)"
    unfolding leaf_borrow_right_def S [symmetric]
    using assms(1-5,10,12) other fit m(1) room_cards(3) [OF assms(11)] key
    by (simp add: exec_simps nat_add_distrib del: node_fits.simps)
  then show thesis using that [of l' u' ?n] m int_SetKeyAt_ok [OF assms(9), of ?k] by simp
qed

text \<open>Merging the right one of two neighbours into the left one, \<open>i\<close> being the index of the left one.\<close>

lemma leaf_merge_st:
  assumes "pool_ok C (p # pp # P) S N" and "C p1 = Some (Leaf l1)" and "C p2 = Some (Leaf l2)" and "C pp = Some (Internal n)" and "p1 \<noteq> p2"
    and "p = p1 \<and> i = 0 \<and> rs = p2 \<or> p = p2 \<and> 0 < i \<and> ls = p1" and "i = (if p = p1 then j else Suc j)" and "Suc j < tp_size n"
    and "12 * (tp_size l1 + tp_size l2) + 20 \<le> PAGE_SIZE" and "node_fits (Internal n)" and "room 3 T P"
  obtains l' n' C' where "leaf_merge p pp (int i) ls rs (st T r C (p # pp # P) S N) =
      (Inr (), st T r C' (pp # P) (insert p2 (insert p1 S) - {pp}) N)"
    and "pool_ok C' (pp # P) (insert p2 (insert p1 S) - {pp}) N"
    and "C' p1 = Some (Leaf l')" and "C' pp = Some (Internal n')" and "\<forall>x. x \<noteq> p1 \<longrightarrow> x \<noteq> p2 \<longrightarrow> x \<noteq> pp \<longrightarrow> C' x = C x"
    and "entries_of l' = entries_of l1 @ entries_of l2" and "tp_max l' = tp_max l1" and "tp_parent l' = tp_parent l1" and "next_leaf l' = next_leaf l2"
    and "children_of n' = remove_at (Suc j) (children_of n)" and "tp_max n' = tp_max n" and "tp_parent n' = tp_parent n"
proof -
  obtain l2' l' where m: "leaf_MoveAllTo l2 l1 = (l2', l')" by (cases "leaf_MoveAllTo l2 l1")
  note ok = leaf_MoveAllTo_ok [OF m]
  have fit: "node_fits (Leaf l2')" "node_fits (Leaf l')"
    using assms(9) arg_cong [OF ok(1), of length] ok(5) by (simp_all add: PAGE_SIZE_def)
  have other: "pp \<noteq> p1" "pp \<noteq> p2" using assms(2-4) by auto
  from int_Remove_ok [OF assms(8)] obtain n' where
    n': "int_Remove (Suc j) n = Inr n'" "children_of n' = remove_at (Suc j) (children_of n)" "tp_max n' = tp_max n" "tp_parent n' = tp_parent n"
    "tp_size n' = tp_size n - 1" .
  then have nfit: "node_fits (Internal n')" using assms(10) by simp
  define C1 where "C1 = C(p2 \<mapsto> Leaf l2', p1 \<mapsto> Leaf l')"
  have C1: "C1 pp = Some (Internal n)" using other assms(4) by (simp add: C1_def)
  have pool1: "pool_ok C1 (p # pp # P) S N"
    using pool_ok_upd [OF pool_ok_upd [OF assms(1), of p2 "Leaf l2'"], of p1 "Leaf l'"] assms(2,3) by (auto simp: C1_def)
  note fin = that [where l' = l' and n' = n', OF _ _ _ _ _ ok(1,2,3,4) n'(2-4)]
  show thesis
  proof (cases "p = p1")
    case True
    have j: "i = 0" "j = 0" "rs = p2" using assms(6,7) True \<open>p1 \<noteq> p2\<close> by auto
    have pool2: "pool_ok C1 (p1 # pp # P) (insert p2 (S - {p2} - {p1})) N"
      using pool1 True other by (auto simp: pool_ok_def)
    from delete_page_cases [OF this, of p2 T r] obtain C2 where
      C2: "delete_page p2 (st T r C1 (p1 # pp # P) (insert p2 (S - {p2} - {p1})) N) = st T r C2 (p1 # pp # P) (insert p2 (S - {p2} - {p1})) N"
      "\<forall>x. x \<noteq> p2 \<longrightarrow> C2 x = C1 x" "pool_ok C2 (p1 # pp # P) (insert p2 (S - {p2} - {p1})) N" .
    have C2p: "C2 pp = Some (Internal n)" using C2(2) C1 other by simp
    let ?C = "C2(pp \<mapsto> Internal n')"
    have S: "insert p1 (insert p2 (S - {p2} - {p1}) - {pp}) = insert p2 (insert p1 S) - {pp}" using other by auto
    have "leaf_merge p pp (int i) ls rs (st T r C (p # pp # P) S N) = (Inr (), st T r ?C (pp # P) (insert p2 (insert p1 S) - {pp}) N)"
      unfolding leaf_merge_def S [symmetric] True j
      using assms(2,3,5) other fit m room_cards(3) [OF assms(11)] n'(1) nfit C2(1) C2p
      by (simp add: exec_simps C1_def [symmetric] parent_Remove_def j(2) [symmetric] del: node_fits.simps)
    moreover have "pool_ok ?C (pp # P) (insert p2 (insert p1 S) - {pp}) N"
    proof -
      have "pool_ok ?C (p1 # pp # P) (insert p2 (S - {p2} - {p1})) N" by (rule pool_ok_upd [OF C2(3)]) (use C2p in auto)
      then show ?thesis unfolding S [symmetric] by (auto simp: pool_ok_def)
    qed
    ultimately show thesis using fin C2(2) other \<open>p1 \<noteq> p2\<close> by (auto simp: C1_def)
  next
    case False
    then have p: "p = p2" "i = Suc j" "ls = p1" using assms(6,7) by auto
    let ?S = "insert p2 (insert p1 (S - {p2} - {p1}))"
    have pool2: "pool_ok C1 (pp # P) ?S N"
      using pool1 p other by (auto simp: pool_ok_def)
    from delete_page_cases [OF this, of p2 T r] obtain C2 where
      C2: "delete_page p2 (st T r C1 (pp # P) ?S N) = st T r C2 (pp # P) ?S N"
      "\<forall>x. x \<noteq> p2 \<longrightarrow> C2 x = C1 x" "pool_ok C2 (pp # P) ?S N" .
    have C2p: "C2 pp = Some (Internal n)" using C2(2) C1 other by simp
    let ?C = "C2(pp \<mapsto> Internal n')"
    have S: "?S - {pp} = insert p2 (insert p1 S) - {pp}" by auto
    have "leaf_merge p pp (int i) ls rs (st T r C (p # pp # P) S N) = (Inr (), st T r ?C (pp # P) (?S - {pp}) N)"
      unfolding leaf_merge_def p
      using assms(2,3,5) other fit m room_cards(3) [OF assms(11)] n'(1) nfit C2(1) C2p
      by (simp add: exec_simps C1_def [symmetric] parent_Remove_def nat_add_distrib del: node_fits.simps)
    moreover have "pool_ok ?C (pp # P) (?S - {pp}) N"
    proof -
      have "pool_ok ?C (pp # P) ?S N" by (rule pool_ok_upd [OF C2(3)]) (use C2p in auto)
      then show ?thesis by (auto simp: pool_ok_def)
    qed
    ultimately show thesis using fin C2(2) other \<open>p1 \<noteq> p2\<close> unfolding S by (auto simp: C1_def)
  qed
qed

section \<open>What a step does\<close>

text \<open>
  The neighbours \<open>p1\<close> and \<open>p2\<close> are children \<open>j\<close> and \<open>j + 1\<close> of their parent \<open>pp\<close>. Either their entries are
  divided anew, at \<open>s\<close>, and the parent gets a new key for \<open>p2\<close>; or \<open>p2\<close> is merged into \<open>p1\<close> and leaves the parent.
\<close>

definition neighbours :: "contents \<Rightarrow> page_id \<Rightarrow> nat \<Rightarrow> page_id \<Rightarrow> page_id \<Rightarrow> bool" where
  "neighbours C pp j p1 p2 \<longleftrightarrow>
     (\<exists>n. C pp = Some (Internal n) \<and> Suc j < tp_size n \<and> snd (children_of n ! j) = p1 \<and> snd (children_of n ! Suc j) = p2)"

definition parent_keyed :: "contents \<Rightarrow> contents \<Rightarrow> page_id \<Rightarrow> nat \<Rightarrow> int \<Rightarrow> bool" where
  "parent_keyed C C' pp j k \<longleftrightarrow>
     (\<exists>n n'. C pp = Some (Internal n) \<and> C' pp = Some (Internal n') \<and>
        children_of n' = (children_of n)[Suc j := (k, snd (children_of n ! Suc j))] \<and> tp_max n' = tp_max n \<and> tp_parent n' = tp_parent n)"

definition parent_cut :: "contents \<Rightarrow> contents \<Rightarrow> page_id \<Rightarrow> nat \<Rightarrow> bool" where
  "parent_cut C C' pp j \<longleftrightarrow>
     (\<exists>n n'. C pp = Some (Internal n) \<and> C' pp = Some (Internal n') \<and> children_of n' = remove_at (Suc j) (children_of n) \<and>
        tp_max n' = tp_max n \<and> tp_parent n' = tp_parent n)"

definition leaves_moved :: "nat \<Rightarrow> contents \<Rightarrow> contents \<Rightarrow> page_id \<Rightarrow> page_id \<Rightarrow> page_id \<Rightarrow> nat \<Rightarrow> int \<Rightarrow> bool" where
  "leaves_moved L C C' pp p1 p2 s k \<longleftrightarrow>
     (\<exists>l1 l2 m1 m2. C p1 = Some (Leaf l1) \<and> C p2 = Some (Leaf l2) \<and> C' p1 = Some (Leaf m1) \<and> C' p2 = Some (Leaf m2) \<and>
        leaf_keeps l1 m1 \<and> leaf_keeps l2 m2 \<and> entries_of m1 = take s (entries_of l1 @ entries_of l2) \<and>
        entries_of m2 = drop s (entries_of l1 @ entries_of l2) \<and> k = fst ((entries_of l1 @ entries_of l2) ! s) \<and>
        0 < s \<and> s < tp_size l1 + tp_size l2 \<and> leaf_min_size L \<le> s \<and> s \<le> L \<and>
        leaf_min_size L + s \<le> tp_size l1 + tp_size l2 \<and> tp_size l1 + tp_size l2 \<le> s + L) \<and>
     (\<forall>x. x \<notin> {p1, p2, pp} \<longrightarrow> C' x = C x)"

definition leaves_merged :: "nat \<Rightarrow> contents \<Rightarrow> contents \<Rightarrow> page_id \<Rightarrow> page_id \<Rightarrow> page_id \<Rightarrow> bool" where
  "leaves_merged L C C' pp p1 p2 \<longleftrightarrow>
     (\<exists>l1 l2 m. C p1 = Some (Leaf l1) \<and> C p2 = Some (Leaf l2) \<and> C' p1 = Some (Leaf m) \<and> entries_of m = entries_of l1 @ entries_of l2 \<and>
        tp_max m = tp_max l1 \<and> tp_parent m = tp_parent l1 \<and> next_leaf m = next_leaf l2 \<and>
        leaf_min_size L \<le> tp_size l1 + tp_size l2 \<and> tp_size l1 + tp_size l2 \<le> L) \<and>
     (\<forall>x. x \<notin> {p1, p2, pp} \<longrightarrow> C' x = C x)"

lemma leaves_movedI:
  "C p1 = Some (Leaf l1) \<Longrightarrow> C p2 = Some (Leaf l2) \<Longrightarrow> C' p1 = Some (Leaf m1) \<Longrightarrow> C' p2 = Some (Leaf m2) \<Longrightarrow>
   leaf_keeps l1 m1 \<Longrightarrow> leaf_keeps l2 m2 \<Longrightarrow> entries_of m1 = take s (entries_of l1 @ entries_of l2) \<Longrightarrow>
   entries_of m2 = drop s (entries_of l1 @ entries_of l2) \<Longrightarrow> k = fst ((entries_of l1 @ entries_of l2) ! s) \<Longrightarrow>
   0 < s \<and> s < tp_size l1 + tp_size l2 \<and> leaf_min_size L \<le> s \<and> s \<le> L \<and>
     leaf_min_size L + s \<le> tp_size l1 + tp_size l2 \<and> tp_size l1 + tp_size l2 \<le> s + L \<Longrightarrow>
   \<forall>x. x \<notin> {p1, p2, pp} \<longrightarrow> C' x = C x \<Longrightarrow> leaves_moved L C C' pp p1 p2 s k"
  unfolding leaves_moved_def by blast

lemma leaves_mergedI:
  "C p1 = Some (Leaf l1) \<Longrightarrow> C p2 = Some (Leaf l2) \<Longrightarrow> C' p1 = Some (Leaf m) \<Longrightarrow> entries_of m = entries_of l1 @ entries_of l2 \<Longrightarrow>
   tp_max m = tp_max l1 \<Longrightarrow> tp_parent m = tp_parent l1 \<Longrightarrow> next_leaf m = next_leaf l2 \<Longrightarrow>
   leaf_min_size L \<le> tp_size l1 + tp_size l2 \<Longrightarrow> tp_size l1 + tp_size l2 \<le> L \<Longrightarrow>
   \<forall>x. x \<notin> {p1, p2, pp} \<longrightarrow> C' x = C x \<Longrightarrow> leaves_merged L C C' pp p1 p2"
  unfolding leaves_merged_def by blast

text \<open>The results of looking at a page that is too small: an entry is borrowed, or there is a merge.\<close>

definition step_result ::
  "(contents \<Rightarrow> contents \<Rightarrow> page_id \<Rightarrow> page_id \<Rightarrow> page_id \<Rightarrow> nat \<Rightarrow> int \<Rightarrow> bool) \<Rightarrow>
   (contents \<Rightarrow> contents \<Rightarrow> page_id \<Rightarrow> page_id \<Rightarrow> page_id \<Rightarrow> bool) \<Rightarrow>
   BPlusTree \<Rightarrow> page_id \<Rightarrow> contents \<Rightarrow> page_id list \<Rightarrow> page_id \<Rightarrow> page_id \<Rightarrow> page_id \<Rightarrow> (page_id option, BPlusTree) outcome \<Rightarrow> bool" where
  "step_result mov mer T r C P N p pp res \<longleftrightarrow>
     (\<exists>C' S' j p1 p2. neighbours C pp j p1 p2 \<and> p \<in> {p1, p2} \<and>
        ((\<exists>s k. res = (Inr None, st T r C' P S' N) \<and> pool_ok C' P S' N \<and> mov C C' pp p1 p2 s k \<and> parent_keyed C C' pp j k) \<or>
         (res = shrink_root pp (st T r C' (pp # P) S' N) \<and> pool_ok C' (pp # P) S' N \<and> mer C C' pp p1 p2 \<and> parent_cut C C' pp j)))"

lemma step_moved:
  "res = (Inr None, st T r C' P S' N) \<Longrightarrow> pool_ok C' P S' N \<Longrightarrow> neighbours C pp j p1 p2 \<Longrightarrow> p \<in> {p1, p2} \<Longrightarrow>
   mov C C' pp p1 p2 s k \<Longrightarrow> parent_keyed C C' pp j k \<Longrightarrow> step_result mov mer T r C P N p pp res"
  unfolding step_result_def by blast

lemma step_merged:
  "res = shrink_root pp (st T r C' (pp # P) S' N) \<Longrightarrow> pool_ok C' (pp # P) S' N \<Longrightarrow> neighbours C pp j p1 p2 \<Longrightarrow> p \<in> {p1, p2} \<Longrightarrow>
   mer C C' pp p1 p2 \<Longrightarrow> parent_cut C C' pp j \<Longrightarrow> step_result mov mer T r C P N p pp res"
  unfolding step_result_def by blast

text \<open>A leaf with less than the least number of entries, all other children of its parent being wide enough.\<close>

definition leaf_family :: "nat \<Rightarrow> contents \<Rightarrow> page_id \<Rightarrow> page_id \<Rightarrow> (int \<times> page_id) list \<Rightarrow> bool" where
  "leaf_family L C p pp cs \<longleftrightarrow>
     (\<exists>n. C pp = Some (Internal n) \<and> children_of n = cs \<and> node_fits (Internal n)) \<and> parent_of C p = Some pp \<and>
     distinct (map snd cs) \<and> 2 \<le> length cs \<and>
     (\<forall>c \<in> set (map snd cs). \<exists>l. C c = Some (Leaf l) \<and> tp_max l = L \<and> tp_size l \<le> L \<and> (c \<noteq> p \<longrightarrow> leaf_min_size L \<le> tp_size l))"

lemma side_ok:
  assumes "0 \<le> i" and "i < int (length cs)"
  shows "side i cs = snd (cs ! nat i)"
  using assms by (simp add: side_def)

lemma side_none: "i < 0 \<or> int (length cs) \<le> i \<Longrightarrow> side i cs = INVALID_PAGE_ID"
  by (auto simp: side_def)

lemma side_valid:
  assumes "pool_ok C P S N" and "\<forall>c \<in> set (map snd cs). c \<in> dom C" and "side i cs \<noteq> INVALID_PAGE_ID"
  obtains j where "i = int j" and "j < length cs" and "side i cs = snd (cs ! j)" and "side i cs \<in> set (map snd cs)"
proof -
  have "0 \<le> i" "i < int (length cs)" using assms(3) by (auto simp: side_def split: if_splits)
  then show thesis using that [of "nat i"] by (auto simp: side_def)
qed

lemma cut_last:
  "xs \<noteq> [] \<Longrightarrow> take (length xs - 1) (xs @ ys) = butlast xs \<and> drop (length xs - 1) (xs @ ys) = last xs # ys \<and>
   (xs @ ys) ! (length xs - 1) = last xs"
  by (cases xs rule: rev_cases) (auto simp: nth_append)

lemma cut_first:
  "ys \<noteq> [] \<Longrightarrow> take (Suc (length xs)) (xs @ ys) = xs @ [hd ys] \<and> drop (Suc (length xs)) (xs @ ys) = tl ys \<and>
   (xs @ ys) ! Suc (length xs) = ys ! 1"
  by (cases ys) (auto simp: nth_append)

text \<open>The situation of the code when a leaf is too small: the leaf is child \<open>i\<close> of the pinned page \<open>pp\<close>.\<close>

definition leaf_site :: "nat \<Rightarrow> BPlusTree \<Rightarrow> contents \<Rightarrow> page_id list \<Rightarrow> page_id set \<Rightarrow> page_id \<Rightarrow>
    page_id \<Rightarrow> page_id \<Rightarrow> (int \<times> page_id) list \<Rightarrow> nat \<Rightarrow> InternalPage \<Rightarrow> LeafPage \<Rightarrow> bool" where
  "leaf_site L T C P S N p pp cs i n u \<longleftrightarrow>
     leaf_family L C p pp cs \<and> pool_ok C P S N \<and> i < length cs \<and> snd (cs ! i) = p \<and>
     C p = Some (Leaf u) \<and> tp_size u < leaf_min_size L \<and> leaf_min_size L \<le> Suc (tp_size u) \<and> 2 \<le> L \<and> L \<le> 338 \<and> room 3 T P \<and>
     C pp = Some (Internal n) \<and> children_of n = cs \<and> node_fits (Internal n)"

definition spare_leaf :: "nat \<Rightarrow> contents \<Rightarrow> page_id \<Rightarrow> bool" where
  "spare_leaf L C q \<longleftrightarrow> (\<exists>l. C q = Some (Leaf l) \<and> leaf_min_size L < tp_size l)"

lemma leaf_siteD:
  assumes "leaf_site L T C P S N p pp cs i n u"
  shows "C pp = Some (Internal n)" "children_of n = cs" "node_fits (Internal n)" "distinct (map snd cs)" "2 \<le> length cs"
    "i < length cs" "snd (cs ! i) = p" "C p = Some (Leaf u)" "tp_size u < leaf_min_size L" "leaf_min_size L \<le> Suc (tp_size u)"
    "2 \<le> L" "L \<le> 338" "room 3 T P" "tp_size n = length cs" "pool_ok C P S N"
    "\<forall>c \<in> set (map snd cs). \<exists>l. C c = Some (Leaf l) \<and> tp_max l = L \<and> tp_size l \<le> L \<and> (c \<noteq> p \<longrightarrow> leaf_min_size L \<le> tp_size l)"
proof -
  show n: "C pp = Some (Internal n)" "children_of n = cs" "node_fits (Internal n)" "i < length cs" "snd (cs ! i) = p" "C p = Some (Leaf u)"
    "tp_size u < leaf_min_size L" "leaf_min_size L \<le> Suc (tp_size u)" "2 \<le> L" "L \<le> 338" "room 3 T P" "pool_ok C P S N"
    using assms by (simp_all only: leaf_site_def)
  show "tp_size n = length cs" using n(2) by (metis length_items)
  have "leaf_family L C p pp cs" using assms by (simp only: leaf_site_def)
  then show "distinct (map snd cs)" "2 \<le> length cs"
    "\<forall>c \<in> set (map snd cs). \<exists>l. C c = Some (Leaf l) \<and> tp_max l = L \<and> tp_size l \<le> L \<and> (c \<noteq> p \<longrightarrow> leaf_min_size L \<le> tp_size l)"
    unfolding leaf_family_def by blast+
qed

lemma leaf_site_ok:
  assumes "leaf_site L T C P S N p pp cs i n u"
  shows "pool_ok C (p # pp # P) S N" and "tp_max u = L" and "leaf_min_size L \<le> 169" and "2 * leaf_min_size L \<le> L"
    and "1 \<le> leaf_min_size L" and "12 * tp_size u + 32 \<le> PAGE_SIZE"
proof -
  note site = leaf_siteD [OF assms]
  show "pool_ok C (p # pp # P) S N" using pool_ok_pin [OF pool_ok_pin [OF site(15), of pp], of p] site(1,8) by blast
  show "tp_max u = L" using site(6,7,8,16) by (metis length_map node.inject(1) nth_map nth_mem option.inject)
  show small: "leaf_min_size L \<le> 169" "2 * leaf_min_size L \<le> L" "1 \<le> leaf_min_size L" using site(11,12) by (simp_all add: leaf_min_size_def)
  show "12 * tp_size u + 32 \<le> PAGE_SIZE" using site(9) small by (simp add: PAGE_SIZE_def)
qed

lemma leaf_site_child:
  assumes "leaf_site L T C P S N p pp cs i n u" and j: "j < length cs"
  shows "\<exists>l. C (snd (cs ! j)) = Some (Leaf l)" and "snd (cs ! j) \<noteq> INVALID_PAGE_ID" and "j \<noteq> i \<Longrightarrow> snd (cs ! j) \<noteq> p" and "pp \<noteq> snd (cs ! j)"
    and "C (snd (cs ! j)) = Some (Leaf l) \<Longrightarrow> tp_max l = L \<and> tp_size l \<le> L \<and> (j \<noteq> i \<longrightarrow> leaf_min_size L \<le> tp_size l)"
    and "\<not> spare_leaf L C (snd (cs ! j)) \<Longrightarrow> C (snd (cs ! j)) = Some (Leaf l) \<Longrightarrow> tp_size l \<le> leaf_min_size (tp_max l)"
    and "Suc j < length cs \<Longrightarrow> neighbours C pp j (snd (cs ! j)) (snd (cs ! Suc j))"
proof -
  note site = leaf_siteD [OF assms(1)]
  have "snd (cs ! j) \<in> set (map snd cs)" using j by simp
  note kid = bspec [OF site(16) this]
  then show leaf: "\<exists>l. C (snd (cs ! j)) = Some (Leaf l)" by blast
  show "snd (cs ! j) \<noteq> INVALID_PAGE_ID" using leaf pool_ok_valid [OF site(15)] by blast
  show apart: "snd (cs ! j) \<noteq> p" if "j \<noteq> i" using site(4,6,7) j that by (auto simp: distinct_conv_nth)
  show "pp \<noteq> snd (cs ! j)" using leaf site(1) by auto
  show size: "tp_max l = L \<and> tp_size l \<le> L \<and> (j \<noteq> i \<longrightarrow> leaf_min_size L \<le> tp_size l)" if "C (snd (cs ! j)) = Some (Leaf l)"
    using kid apart that by fastforce
  show "tp_size l \<le> leaf_min_size (tp_max l)" if "\<not> spare_leaf L C (snd (cs ! j))" "C (snd (cs ! j)) = Some (Leaf l)"
    using that size unfolding spare_leaf_def by (metis not_le)
  show "neighbours C pp j (snd (cs ! j)) (snd (cs ! Suc j))" if "Suc j < length cs"
    unfolding neighbours_def by (intro exI [of _ n]) (simp add: site(1,2), simp add: site(14) that)
qed

lemma fix_leaf_steps:
  assumes "leaf_site L T C P S N p pp cs i n u"
  shows "fix_leaf p pp (int i) ls rs (st T r C (pp # P) S N) =
      bind_out (leaf_borrow_left p pp (int i) ls (st T r C (p # pp # P) S N)) (\<lambda>r t.
       if r \<noteq> None then (Inr None, t) else
       bind_out (leaf_borrow_right p pp (int i) rs t) (\<lambda>r t.
       if r \<noteq> None then (Inr None, t) else
       bind_out (leaf_merge p pp (int i) ls rs t) (\<lambda>_ t. shrink_root pp t)))"
  unfolding fix_leaf_def using leaf_siteD(8,9) [OF assms] leaf_site_ok(2) [OF assms] room_cards(2) [OF leaf_siteD(13) [OF assms]]
  by (simp add: exec_simps)

text \<open>A sibling without a spare entry lends nothing.\<close>

lemma leaf_no_left:
  assumes s: "leaf_site L T C P S N p pp cs i n u" and "\<And>j. i = Suc j \<Longrightarrow> \<not> spare_leaf L C (snd (cs ! j))"
  shows "leaf_borrow_left p pp (int i) (side (int i - 1) cs) (st T r C (p # pp # P) S N) = (Inr None, st T r C (p # pp # P) S N)"
proof (rule borrow_none_st(1) [OF leaf_site_ok(1) [OF s] leaf_siteD(13) [OF s]])
  assume "side (int i - 1) cs \<noteq> INVALID_PAGE_ID"
  then obtain j where j: "i = Suc j" "side (int i - 1) cs = snd (cs ! j)" by (cases i) (auto simp: side_def split: if_splits)
  then have "j < length cs" using leaf_siteD(6) [OF s] by simp
  note child = leaf_site_child [OF s this]
  then show "\<exists>l. C (side (int i - 1) cs) = Some (Leaf l) \<and> tp_size l \<le> leaf_min_size (tp_max l)" using assms(2) j by fastforce
qed

lemma leaf_no_right:
  assumes s: "leaf_site L T C P S N p pp cs i n u" and "Suc i < length cs \<Longrightarrow> \<not> spare_leaf L C (snd (cs ! Suc i))"
  shows "leaf_borrow_right p pp (int i) (side (int i + 1) cs) (st T r C (p # pp # P) S N) = (Inr None, st T r C (p # pp # P) S N)"
proof (rule borrow_none_st(2) [OF leaf_site_ok(1) [OF s] leaf_siteD(13) [OF s]])
  assume "side (int i + 1) cs \<noteq> INVALID_PAGE_ID"
  then have j: "Suc i < length cs" "side (int i + 1) cs = snd (cs ! Suc i)" by (auto simp: side_def nat_add_distrib split: if_splits)
  note child = leaf_site_child [OF s j(1)]
  then show "\<exists>l. C (side (int i + 1) cs) = Some (Leaf l) \<and> tp_size l \<le> leaf_min_size (tp_max l)" using assms(2) j by fastforce
qed

lemma fix_leaf_left:
  assumes s: "leaf_site L T C P S N p pp cs i n u" and left: "i = Suc j" "spare_leaf L C (snd (cs ! j))"
  shows "step_result (leaves_moved L) (leaves_merged L) T r C P N p pp
    (fix_leaf p pp (int i) (side (int i - 1) cs) (side (int i + 1) cs) (st T r C (pp # P) S N))"
proof -
  let ?ls = "side (int i - 1) cs" and ?rs = "side (int i + 1) cs"
  note site = leaf_siteD [OF s] and small = leaf_site_ok(3-5) [OF s] and usize = leaf_site_ok(6) [OF s]
  note n = site(1-3) and d = site(4,5) and i = site(6,7) and u = site(8-10) and L = site(11,12) and room = site(13) and size = site(14)
  note pool = leaf_site_ok(1) [OF s] and go = fix_leaf_steps [OF s] and leaf = leaf_site_child(1) [OF s] and valid = leaf_site_child(2) [OF s]
  note apart = leaf_site_child(3) [OF s] and lpage = leaf_site_child(4) [OF s] and pick = leaf_site_child(5) [OF s]
  note tight = leaf_site_child(6) [OF s] and nb = leaf_site_child(7) [OF s]
  let ?q = "snd (cs ! j)"
  have j: "j < length cs" "j \<noteq> i" using i(1) left(1) by simp_all
  from left(2) obtain l where l: "C ?q = Some (Leaf l)" "leaf_min_size L < tp_size l" unfolding spare_leaf_def by blast
  note pk = pick [OF j(1) l(1)]
  have lfit: "node_fits (Leaf l)" using pk L(2) by (simp add: PAGE_SIZE_def)
  have ls: "?ls = ?q" using left(1) j(1) by (simp add: side_def)
  have "leaf_min_size (tp_max l) < tp_size l" using l(2) pk by simp
  from leaf_borrow_left_st [OF l(1) u(1) n(1) apart [OF j] this lfit usize _ n(3) room valid [OF j(1)], of i r S N] size i(1)
  obtain l' u' n' where b: "leaf_borrow_left p pp (int i) ?q (st T r C (p # pp # P) S N) =
    (Inr (Some ()), st T r (C(?q \<mapsto> Leaf l', p \<mapsto> Leaf u', pp \<mapsto> Internal n')) P (insert pp (insert p (insert ?q S))) N)"
    "entries_of l' = butlast (entries_of l)" "entries_of u' = last (entries_of l) # entries_of u" "leaf_keeps l l'" "leaf_keeps u u'"
    "children_of n' = (children_of n)[i := (fst (last (entries_of l)), snd (children_of n ! i))]" "tp_max n' = tp_max n" "tp_parent n' = tp_parent n"
    by auto
  let ?C = "C(?q \<mapsto> Leaf l', p \<mapsto> Leaf u', pp \<mapsto> Internal n')" and ?s = "tp_size l - 1"
  have "entries_of l \<noteq> []" using l(2) by (metis length_items list.size(3) not_less_zero)
  note e = cut_last [OF this, of "entries_of u", unfolded length_items]
  have mv: "leaves_moved L C ?C pp ?q p ?s (fst (last (entries_of l)))"
  proof (rule leaves_movedI [OF l(1) u(1) _ _ b(4,5)])
    show "?C ?q = Some (Leaf l')" "?C p = Some (Leaf u')" using apart [OF j] lpage [OF j(1)] lpage [OF i(1)] i(2) by auto
    show "fst (last (entries_of l)) = fst ((entries_of l @ entries_of u) ! ?s)" using e by simp
    show "entries_of l' = take ?s (entries_of l @ entries_of u)" "entries_of u' = drop ?s (entries_of l @ entries_of u)" using b(2,3) e by simp_all
    show "0 < ?s \<and> ?s < tp_size l + tp_size u \<and> leaf_min_size L \<le> ?s \<and> ?s \<le> L \<and>
      leaf_min_size L + ?s \<le> tp_size l + tp_size u \<and> tp_size l + tp_size u \<le> ?s + L" using l(2) pk u(2,3) small by auto
  qed simp
  have key: "parent_keyed C ?C pp j (fst (last (entries_of l)))"
    unfolding parent_keyed_def using n(1) b(6-8) left(1) by auto
  have "pool_ok ?C P (insert pp (insert p (insert ?q S))) N"
    using pool n(1) u(1) l(1) by (auto simp: pool_ok_def)
  moreover have "neighbours C pp j ?q p" using nb [of j] left(1) i by simp
  moreover have "fix_leaf p pp (int i) ?ls ?rs (st T r C (pp # P) S N) = (Inr None, st T r ?C P (insert pp (insert p (insert ?q S))) N)"
    using go b(1) unfolding ls by simp
  ultimately show ?thesis using mv key by (intro step_moved [where mov = "leaves_moved L"]) auto
qed

lemma fix_leaf_right:
  assumes s: "leaf_site L T C P S N p pp cs i n u"
    and right: "\<And>j. i = Suc j \<Longrightarrow> \<not> spare_leaf L C (snd (cs ! j))" "Suc i < length cs" "spare_leaf L C (snd (cs ! Suc i))"
  shows "step_result (leaves_moved L) (leaves_merged L) T r C P N p pp
    (fix_leaf p pp (int i) (side (int i - 1) cs) (side (int i + 1) cs) (st T r C (pp # P) S N))"
proof -
  let ?ls = "side (int i - 1) cs" and ?rs = "side (int i + 1) cs"
  note site = leaf_siteD [OF s] and small = leaf_site_ok(3-5) [OF s] and usize = leaf_site_ok(6) [OF s]
  note n = site(1-3) and d = site(4,5) and i = site(6,7) and u = site(8-10) and L = site(11,12) and room = site(13) and size = site(14)
  note pool = leaf_site_ok(1) [OF s] and go = fix_leaf_steps [OF s] and leaf = leaf_site_child(1) [OF s] and valid = leaf_site_child(2) [OF s]
  note apart = leaf_site_child(3) [OF s] and lpage = leaf_site_child(4) [OF s] and pick = leaf_site_child(5) [OF s]
  note tight = leaf_site_child(6) [OF s] and nb = leaf_site_child(7) [OF s]
  let ?q = "snd (cs ! Suc i)"
  have j: "Suc i < length cs" "Suc i \<noteq> i" using right(2) by simp_all
  from right(3) obtain l where l: "C ?q = Some (Leaf l)" "leaf_min_size L < tp_size l" unfolding spare_leaf_def by blast
  note pk = pick [OF j(1) l(1)]
  have lfit: "node_fits (Leaf l)" using pk L(2) by (simp add: PAGE_SIZE_def)
  have rs: "?rs = ?q" using j(1) by (simp add: side_def nat_add_distrib)
  have min: "leaf_min_size (tp_max l) < tp_size l" "2 \<le> tp_size l" using l(2) pk small by simp_all
  from leaf_borrow_right_st [OF l(1) u(1) n(1) apart [OF j] min lfit usize _ n(3) room valid [OF j(1)], of i r S N] size j(1)
  obtain l' u' n' where b: "leaf_borrow_right p pp (int i) ?q (st T r C (p # pp # P) S N) =
    (Inr (Some ()), st T r (C(?q \<mapsto> Leaf l', p \<mapsto> Leaf u', pp \<mapsto> Internal n')) P (insert pp (insert p (insert ?q S))) N)"
    "entries_of l' = tl (entries_of l)" "entries_of u' = entries_of u @ [hd (entries_of l)]" "leaf_keeps l l'" "leaf_keeps u u'"
    "children_of n' = (children_of n)[Suc i := (fst (entries_of l ! 1), snd (children_of n ! Suc i))]" "tp_max n' = tp_max n" "tp_parent n' = tp_parent n"
    by auto
  let ?C = "C(?q \<mapsto> Leaf l', p \<mapsto> Leaf u', pp \<mapsto> Internal n')" and ?s = "Suc (tp_size u)"
  have "entries_of l \<noteq> []" using l(2) by (metis length_items list.size(3) not_less_zero)
  note e = cut_first [OF this, of "entries_of u", unfolded length_items]
  have "leaves_moved L C ?C pp p ?q ?s (fst (entries_of l ! 1))"
  proof (rule leaves_movedI [OF u(1) l(1) _ _ b(5,4)])
    show "?C ?q = Some (Leaf l')" "?C p = Some (Leaf u')" using apart [OF j] lpage [OF j(1)] lpage [OF i(1)] i(2) by auto
    show "fst (entries_of l ! 1) = fst ((entries_of u @ entries_of l) ! ?s)" using e by simp
    show "entries_of u' = take ?s (entries_of u @ entries_of l)" "entries_of l' = drop ?s (entries_of u @ entries_of l)" using b(2,3) e by simp_all
    show "0 < ?s \<and> ?s < tp_size u + tp_size l \<and> leaf_min_size L \<le> ?s \<and> ?s \<le> L \<and>
      leaf_min_size L + ?s \<le> tp_size u + tp_size l \<and> tp_size u + tp_size l \<le> ?s + L" using l(2) pk u(2,3) small min by auto
  qed simp
  moreover have "parent_keyed C ?C pp i (fst (entries_of l ! 1))"
    unfolding parent_keyed_def using n(1) b(6-8) by auto
  moreover have "pool_ok ?C P (insert pp (insert p (insert ?q S))) N"
    using pool n(1) u(1) l(1) by (auto simp: pool_ok_def)
  moreover have "neighbours C pp i p ?q" using nb [of i] j(1) i by simp
  moreover have "fix_leaf p pp (int i) ?ls ?rs (st T r C (pp # P) S N) = (Inr None, st T r ?C P (insert pp (insert p (insert ?q S))) N)"
    using go leaf_no_left [OF s right(1)] b(1) unfolding rs by simp
  ultimately show ?thesis by (intro step_moved [where mov = "leaves_moved L"]) auto
qed

lemma fix_leaf_merge:
  assumes s: "leaf_site L T C P S N p pp cs i n u"
    and none: "\<And>j. i = Suc j \<Longrightarrow> \<not> spare_leaf L C (snd (cs ! j))" "Suc i < length cs \<Longrightarrow> \<not> spare_leaf L C (snd (cs ! Suc i))"
  shows "step_result (leaves_moved L) (leaves_merged L) T r C P N p pp
    (fix_leaf p pp (int i) (side (int i - 1) cs) (side (int i + 1) cs) (st T r C (pp # P) S N))"
proof -
  let ?ls = "side (int i - 1) cs" and ?rs = "side (int i + 1) cs"
  note site = leaf_siteD [OF s] and small = leaf_site_ok(3-5) [OF s] and usize = leaf_site_ok(6) [OF s]
  note n = site(1-3) and d = site(4,5) and i = site(6,7) and u = site(8-10) and L = site(11,12) and room = site(13) and size = site(14)
  note pool = leaf_site_ok(1) [OF s] and go = fix_leaf_steps [OF s] and leaf = leaf_site_child(1) [OF s] and valid = leaf_site_child(2) [OF s]
  note apart = leaf_site_child(3) [OF s] and lpage = leaf_site_child(4) [OF s] and pick = leaf_site_child(5) [OF s]
  note tight = leaf_site_child(6) [OF s] and nb = leaf_site_child(7) [OF s]
  define j where "j = (if i = 0 then 0 else i - 1)"
  have j: "Suc j < length cs" "p = snd (cs ! j) \<and> i = 0 \<or> p = snd (cs ! Suc j) \<and> 0 < i" "i = (if i = 0 then j else Suc j)"
    using d(2) i by (auto simp: j_def)
  obtain l1 l2 where l: "C (snd (cs ! j)) = Some (Leaf l1)" "C (snd (cs ! Suc j)) = Some (Leaf l2)" using leaf j(1) by fastforce
  note pk = pick [OF _ l(1)] pick [OF j(1) l(2)]
  have sizes: "tp_size l1 + tp_size l2 \<le> L" "leaf_min_size L \<le> tp_size l1 + tp_size l2"
  proof -
    have "i = 0 \<Longrightarrow> l1 = u \<and> tp_size l2 \<le> leaf_min_size L" "0 < i \<Longrightarrow> l2 = u \<and> tp_size l1 \<le> leaf_min_size L"
      using l u(1) i j tight [of "Suc j" l2] tight [of j l1] pk none by (auto simp: j_def)
    then show "tp_size l1 + tp_size l2 \<le> L" "leaf_min_size L \<le> tp_size l1 + tp_size l2"
      using u(2,3) small pk j(1) by (cases "i = 0"; auto simp: j_def)+
  qed
  have ne: "snd (cs ! j) \<noteq> snd (cs ! Suc j)" using d(1) j(1) by (auto simp: distinct_conv_nth)
  have ni: "nat (int i - 1) = i - Suc 0" by simp
  have merge_args: "p = snd (cs ! j) \<and> i = 0 \<and> ?rs = snd (cs ! Suc j) \<or> p = snd (cs ! Suc j) \<and> 0 < i \<and> ?ls = snd (cs ! j)"
    "i = (if p = snd (cs ! j) then j else Suc j)"
    using j ne by (auto simp: side_def nat_add_distrib ni j_def)
  have fit: "12 * (tp_size l1 + tp_size l2) + 20 \<le> PAGE_SIZE" using sizes(1) L(2) by (simp add: PAGE_SIZE_def)
  have "Suc j < tp_size n" using size j(1) by simp
  from leaf_merge_st [OF pool l n(1) ne merge_args this fit n(3) room, where r = r] obtain l' n' C' where
    m: "leaf_merge p pp (int i) ?ls ?rs (st T r C (p # pp # P) S N) =
      (Inr (), st T r C' (pp # P) (insert (snd (cs ! Suc j)) (insert (snd (cs ! j)) S) - {pp}) N)"
    "pool_ok C' (pp # P) (insert (snd (cs ! Suc j)) (insert (snd (cs ! j)) S) - {pp}) N"
    "C' (snd (cs ! j)) = Some (Leaf l')" "C' pp = Some (Internal n')"
    "\<forall>x. x \<noteq> snd (cs ! j) \<longrightarrow> x \<noteq> snd (cs ! Suc j) \<longrightarrow> x \<noteq> pp \<longrightarrow> C' x = C x"
    "entries_of l' = entries_of l1 @ entries_of l2" "tp_max l' = tp_max l1" "tp_parent l' = tp_parent l1" "next_leaf l' = next_leaf l2"
    "children_of n' = remove_at (Suc j) (children_of n)" "tp_max n' = tp_max n" "tp_parent n' = tp_parent n" .
  have "leaves_merged L C C' pp (snd (cs ! j)) (snd (cs ! Suc j))"
    using m(5) by (intro leaves_mergedI [where C' = C', OF l(1) l(2) m(3) m(6-9) sizes(2,1)]) blast
  moreover have "parent_cut C C' pp j" unfolding parent_cut_def using n(1) m(4,10-12) by blast
  moreover have "fix_leaf p pp (int i) ?ls ?rs (st T r C (pp # P) S N) =
      shrink_root pp (st T r C' (pp # P) (insert (snd (cs ! Suc j)) (insert (snd (cs ! j)) S) - {pp}) N)"
    using go leaf_no_left [OF s none(1)] leaf_no_right [OF s none(2)] m(1) by simp
  ultimately show ?thesis using nb [OF Suc_lessD [OF j(1)] j(1)] j(2) m(2) by (intro step_merged [where mer = "leaves_merged L"]) auto
qed

lemma fix_leaf_st:
  assumes f: "leaf_family L C p pp cs" and "pool_ok C P S N" and i: "i < length cs" "snd (cs ! i) = p"
    and u: "C p = Some (Leaf u)" "tp_size u < leaf_min_size L" "leaf_min_size L \<le> Suc (tp_size u)"
    and L: "2 \<le> L" "L \<le> 338" and room: "room 3 T P"
  shows "step_result (leaves_moved L) (leaves_merged L) T r C P N p pp
    (fix_leaf p pp (int i) (side (int i - 1) cs) (side (int i + 1) cs) (st T r C (pp # P) S N))"
proof -
  from f obtain n where "C pp = Some (Internal n)" "children_of n = cs" "node_fits (Internal n)" unfolding leaf_family_def by blast
  then have s: "leaf_site L T C P S N p pp cs i n u" using assms by (simp add: leaf_site_def)
  consider (left) j where "i = Suc j" "spare_leaf L C (snd (cs ! j))"
    | (right) "\<And>j. i = Suc j \<Longrightarrow> \<not> spare_leaf L C (snd (cs ! j))" "Suc i < length cs" "spare_leaf L C (snd (cs ! Suc i))"
    | (none) "\<And>j. i = Suc j \<Longrightarrow> \<not> spare_leaf L C (snd (cs ! j))" "Suc i < length cs \<Longrightarrow> \<not> spare_leaf L C (snd (cs ! Suc i))" by blast
  then show ?thesis by cases (use fix_leaf_left [OF s] fix_leaf_right [OF s] fix_leaf_merge [OF s] in blast)+
qed

section \<open>Internal pages: one step of the code\<close>

definition inner_keeps :: "InternalPage \<Rightarrow> InternalPage \<Rightarrow> bool" where
  "inner_keeps n n' \<longleftrightarrow> tp_max n' = tp_max n \<and> tp_parent n' = tp_parent n"

lemma int_KeyAt_nth: "i < tp_size n \<Longrightarrow> int_KeyAt n i = fst (children_of n ! i)"
  by (simp add: int_KeyAt_def)

lemma kids_fit:
  assumes "K \<subseteq> A" and "\<forall>c \<in> A. c \<noteq> p \<and> c \<noteq> q \<and> c \<noteq> pp \<and> fits C c"
  shows "\<forall>c \<in> K. \<exists>m. (C(q \<mapsto> x, p \<mapsto> y)) c = Some m \<and> node_fits m" and "pp \<notin> K" and "q \<notin> K" and "p \<notin> K"
proof -
  have "c \<noteq> p \<and> c \<noteq> q \<and> c \<noteq> pp \<and> fits C c" if "c \<in> K" for c using assms that by blast
  then show "\<forall>c \<in> K. \<exists>m. (C(q \<mapsto> x, p \<mapsto> y)) c = Some m \<and> node_fits m" "pp \<notin> K" "q \<notin> K" "p \<notin> K" by (auto simp: fits_def)
qed

lemma internal_borrow_left_st:
  assumes "C q = Some (Internal l)" and "C p = Some (Internal u)" and "C pp = Some (Internal n)" and "q \<noteq> p" and "pp \<noteq> q" and "pp \<noteq> p"
    and "internal_min_size (tp_max l) < tp_size l" and "node_fits (Internal l)" and "8 * tp_size u + 24 \<le> PAGE_SIZE"
    and "i < tp_size n" and "node_fits (Internal n)" and "room 4 T P" and "q \<noteq> INVALID_PAGE_ID" and "children_of u = (k0, c0) # cs"
    and "\<forall>c \<in> snd ` set (children_of l) \<union> snd ` set (children_of u). c \<noteq> p \<and> c \<noteq> q \<and> c \<noteq> pp \<and> fits C c"
  obtains l' u' n' where "internal_borrow_left p pp (int i) q (st T r C (p # pp # P) S N) =
      (Inr (Some ()), st T r ((reparent p (snd ` set (children_of u')) (C(q \<mapsto> Internal l', p \<mapsto> Internal u')))(pp \<mapsto> Internal n')) P
        (insert pp (insert p (insert q (S \<union> snd ` set (children_of u'))))) N)"
    and "children_of l' = butlast (children_of l)"
    and "children_of u' = (k0, snd (last (children_of l))) # (fst (children_of n ! i), c0) # cs"
    and "inner_keeps l l'" and "inner_keeps u u'"
    and "children_of n' = (children_of n)[i := (fst (last (children_of l)), snd (children_of n ! i))]"
    and "inner_keeps n n'"
proof -
  let ?sep = "fst (children_of n ! i)" and ?k = "fst (last (children_of l))"
  have pos: "0 < tp_size l" using assms(7) by simp
  then have ne: "children_of l \<noteq> []" by (simp add: items_def)
  from int_MoveLastToFrontOf_ok [OF assms(14) ne, of ?sep] obtain l' u' where
    m: "int_MoveLastToFrontOf l u ?sep = Inr (l', u')" "children_of l' = butlast (children_of l)"
    "children_of u' = (k0, snd (last (children_of l))) # (?sep, c0) # cs" "inner_keeps l l'" "inner_keeps u u'"
    unfolding inner_keeps_def by metis
  have fit: "node_fits (Internal l')" "node_fits (Internal u')"
    using assms(8,9) arg_cong [OF m(2), of length] arg_cong [OF m(3), of length] arg_cong [OF assms(14), of length] by (simp_all add: PAGE_SIZE_def)
  have keys: "int_KeyAt n i = ?sep" "int_KeyAt l (tp_size l - 1) = ?k"
    using assms(10) pos ne by (simp_all add: int_KeyAt_nth last_conv_nth)
  let ?K = "snd ` set (children_of u')" and ?C = "C(q \<mapsto> Internal l', p \<mapsto> Internal u')"
  have "snd (last (children_of l)) \<in> snd ` set (children_of l)" using ne by simp
  then have K: "?K \<subseteq> snd ` set (children_of l) \<union> snd ` set (children_of u)" unfolding m(3) assms(14) by auto
  note kids = kids_fit(1) [OF K assms(15)] and pp = kids_fit(2) [OF K assms(15)]
  let ?R = "reparent p ?K ?C" and ?n = "int_SetKeyAt i ?k n"
  have R: "?R pp = Some (Internal n)" using pp assms(3,5,6) by (simp add: reparent_def)
  have "card (set (q # p # pp # P)) < capacity (bpm T)" using room_cards(4) [OF assms(12)] by simp
  note scp = set_children_parent_st [where C = ?C and n = u', OF fun_upd_same kids this]
  have S: "insert pp (insert p (insert q (S - {q} - {p} \<union> ?K - {pp}))) = insert pp (insert p (insert q (S \<union> ?K)))" by auto
  have "internal_borrow_left p pp (int i) q (st T r C (p # pp # P) S N) =
      (Inr (Some ()), st T r (?R(pp \<mapsto> Internal ?n)) P (insert pp (insert p (insert q (S \<union> ?K)))) N)"
    unfolding internal_borrow_left_def S [symmetric]
    using assms(1-7,11,13) fit m(1) room_cards(3,4) [OF assms(12)] keys R
    by (simp add: exec_simps scp Let_def del: node_fits.simps fun_upd_apply)
  moreover have "inner_keeps n ?n" by (simp add: inner_keeps_def)
  ultimately show thesis by (intro that [OF _ m(2-5) int_SetKeyAt_ok [OF assms(10)]])
qed

text \<open>The key that the parent gets is the second one that is left in the right sibling: it should be the first that was taken off.\<close>

lemma internal_borrow_right_st:
  assumes "C q = Some (Internal l)" and "C p = Some (Internal u)" and "C pp = Some (Internal n)" and "q \<noteq> p" and "pp \<noteq> q" and "pp \<noteq> p"
    and "internal_min_size (tp_max l) < tp_size l" and "node_fits (Internal l)" and "8 * tp_size u + 24 \<le> PAGE_SIZE"
    and "Suc i < tp_size n" and "node_fits (Internal n)" and "room 4 T P" and "q \<noteq> INVALID_PAGE_ID"
    and "children_of l = (k0, c0) # (k1, c1) # (k2, c2) # cs"
    and "\<forall>c \<in> snd ` set (children_of l) \<union> snd ` set (children_of u). c \<noteq> p \<and> c \<noteq> q \<and> c \<noteq> pp \<and> fits C c"
  obtains l' u' n' where "internal_borrow_right p pp (int i) q (st T r C (p # pp # P) S N) =
      (Inr (Some ()), st T r ((reparent p (snd ` set (children_of u')) (C(q \<mapsto> Internal l', p \<mapsto> Internal u')))(pp \<mapsto> Internal n')) P
        (insert pp (insert p (insert q (S \<union> snd ` set (children_of u'))))) N)"
    and "children_of l' = (k0, c1) # (k2, c2) # cs"
    and "children_of u' = children_of u @ [(fst (children_of n ! Suc i), c0)]"
    and "inner_keeps l l'" and "inner_keeps u u'"
    and "children_of n' = (children_of n)[Suc i := (k2, snd (children_of n ! Suc i))]"
    and "inner_keeps n n'"
proof -
  let ?sep = "fst (children_of n ! Suc i)"
  from int_MoveFirstToEndOf_ok [OF assms(14), of u ?sep] obtain l' u' where
    m: "int_MoveFirstToEndOf l u ?sep = Inr (l', u')" "children_of l' = (k0, c1) # (k2, c2) # cs"
    "children_of u' = children_of u @ [(?sep, c0)]" "inner_keeps l l'" "inner_keeps u u'"
    unfolding inner_keeps_def by metis
  have sizes: "tp_size l' = length ((k0, c1) # (k2, c2) # cs)" using m(2) by (metis length_items)
  have fit: "node_fits (Internal l')" "node_fits (Internal u')"
    using assms(8,9) sizes arg_cong [OF m(3), of length] arg_cong [OF assms(14), of length] by (simp_all add: PAGE_SIZE_def)
  have keys: "int_KeyAt n (Suc i) = ?sep" using assms(10) by (simp add: int_KeyAt_nth)
  have "children_of l' ! Suc 0 = (k2, c2)" unfolding m(2) by simp
  moreover have "Suc 0 < tp_size l'" unfolding sizes by simp
  ultimately have key2: "int_KeyAt l' (Suc 0) = k2" by (metis int_KeyAt_nth fst_conv)
  let ?K = "snd ` set (children_of u')" and ?C = "C(q \<mapsto> Internal l', p \<mapsto> Internal u')"
  have K: "?K \<subseteq> snd ` set (children_of l) \<union> snd ` set (children_of u)" unfolding m(3) assms(14) by auto
  note kids = kids_fit(1) [OF K assms(15)] and out = kids_fit(2,3) [OF K assms(15)]
  let ?R = "reparent p ?K ?C" and ?n = "int_SetKeyAt (Suc i) k2 n"
  have R: "?R pp = Some (Internal n)" "?R q = Some (Internal l')" using out assms(3-6) by (simp_all add: reparent_def)
  have "card (set (q # p # pp # P)) < capacity (bpm T)" using room_cards(4) [OF assms(12)] by simp
  note scp = set_children_parent_st [where C = ?C and n = u', OF fun_upd_same kids this]
  have S: "insert pp (insert p (insert q (S - {q} - {p} \<union> ?K - {pp}))) = insert pp (insert p (insert q (S \<union> ?K)))" by auto
  have "internal_borrow_right p pp (int i) q (st T r C (p # pp # P) S N) =
      (Inr (Some ()), st T r (?R(pp \<mapsto> Internal ?n)) P (insert pp (insert p (insert q (S \<union> ?K)))) N)"
    unfolding internal_borrow_right_def S [symmetric]
    using assms(1-7,11,13) fit m(1) room_cards(3,4) [OF assms(12)] keys R key2
    by (simp add: exec_simps scp Let_def nat_add_distrib del: node_fits.simps fun_upd_apply)
  moreover have "inner_keeps n ?n" by (simp add: inner_keeps_def)
  ultimately show thesis by (intro that [OF _ m(2-5) int_SetKeyAt_ok [OF assms(10)]])
qed

lemma internal_merge_st:
  assumes "pool_ok C (p # pp # P) S N" and "C p1 = Some (Internal n1)" and "C p2 = Some (Internal n2)" and "C pp = Some (Internal n)"
    and "p1 \<noteq> p2" and "pp \<noteq> p1" and "pp \<noteq> p2"
    and "p = p1 \<and> i = 0 \<and> rs = p2 \<or> p = p2 \<and> 0 < i \<and> ls = p1" and "i = (if p = p1 then j else Suc j)" and "Suc j < tp_size n"
    and "8 * (tp_size n1 + tp_size n2) + 16 \<le> PAGE_SIZE" and "node_fits (Internal n)" and "room 4 T P" and "children_of n2 = (k0, c0) # cs"
    and "\<forall>c \<in> snd ` set (children_of n1) \<union> snd ` set (children_of n2). c \<noteq> p1 \<and> c \<noteq> p2 \<and> c \<noteq> pp \<and> fits C c"
  obtains m n' C' S' where "internal_merge p pp (int i) ls rs (st T r C (p # pp # P) S N) = (Inr (), st T r C' (pp # P) S' N)"
    and "pool_ok C' (pp # P) S' N" and "C' p1 = Some (Internal m)" and "C' pp = Some (Internal n')"
    and "children_of m = children_of n1 @ (fst (children_of n ! Suc j), c0) # cs" and "inner_keeps n1 m"
    and "children_of n' = remove_at (Suc j) (children_of n)" and "inner_keeps n n'"
    and "\<forall>x. x \<notin> {p1, p2, pp} \<longrightarrow> C' x = (if x \<in> snd ` set (children_of m) then map_option (SetParentPageId p1) (C x) else C x)"
proof -
  let ?sep = "fst (children_of n ! Suc j)"
  obtain n2' m where mv: "int_MoveAllTo n2 n1 ?sep = (n2', m)" by (cases "int_MoveAllTo n2 n1 ?sep")
  note ok = int_MoveAllTo_ok [OF mv assms(14)]
  have n2': "tp_size n2' = 0" using mv by (auto simp: int_MoveAllTo_def Let_def split: if_splits)
  have fit: "node_fits (Internal n2')" "node_fits (Internal m)"
    using assms(11) n2' arg_cong [OF ok(1), of length] arg_cong [OF assms(14), of length] by (simp_all add: PAGE_SIZE_def)
  from int_Remove_ok [OF assms(10)] obtain n' where
    n': "int_Remove (Suc j) n = Inr n'" "children_of n' = remove_at (Suc j) (children_of n)" "tp_max n' = tp_max n" "tp_parent n' = tp_parent n"
    "tp_size n' = tp_size n - 1" .
  then have nfit: "node_fits (Internal n')" using assms(12) by simp
  have keys: "int_KeyAt n (Suc j) = ?sep" using assms(10) by (simp add: int_KeyAt_nth)
  let ?K = "snd ` set (children_of m)" and ?C = "C(p2 \<mapsto> Internal n2', p1 \<mapsto> Internal m)"
  have K: "?K \<subseteq> snd ` set (children_of n1) \<union> snd ` set (children_of n2)" unfolding ok(1) assms(14) by auto
  have old: "\<forall>c \<in> snd ` set (children_of n1) \<union> snd ` set (children_of n2). c \<noteq> p1 \<and> c \<noteq> p2 \<and> c \<noteq> pp \<and> fits C c" by (rule assms(15))
  note kids = kids_fit(1) [OF K old] and out = kids_fit(2,3,4) [OF K old]
  define R where "R = reparent p1 ?K ?C"
  have R: "R pp = Some (Internal n)" "R p1 = Some (Internal m)" "R p2 = Some (Internal n2')"
    using out assms(4-7) by (simp_all add: R_def reparent_def)
  have Rx: "\<forall>x. x \<notin> {p1, p2, pp} \<longrightarrow> R x = (if x \<in> ?K then map_option (SetParentPageId p1) (C x) else C x)"
    by (simp add: R_def reparent_def)
  have dom: "dom R = dom C" using assms(2,3) by (auto simp: R_def)
  have scp': "set_children_parent e p1 (st T r ?C (p2 # p1 # pp # P) S' N) = (Inr (), st T r R (p2 # p1 # pp # P) (S' \<union> ?K) N)" for e S'
    using set_children_parent_st [where C = ?C and n = m, OF fun_upd_same kids, folded R_def] room_cards(4) [OF assms(13)] by simp
  have scp'': "set_children_parent e p1 (st T r ?C (p1 # p2 # pp # P) S' N) = (Inr (), st T r R (p1 # p2 # pp # P) (S' \<union> ?K) N)" for e S'
    using set_children_parent_st [where C = ?C and n = m, OF fun_upd_same kids, folded R_def] room_cards(4) [OF assms(13)] by simp
  have poolR: "pool_ok R (p # pp # P) S N" using assms(1) by (simp add: pool_ok_def dom)
  note fin = that [where m = m and n' = n', OF _ _ _ _ ok(1) _ n'(2)]
  have keeps: "inner_keeps n1 m" "inner_keeps n n'" using ok n' by (simp_all add: inner_keeps_def)
  show thesis
  proof (cases "p = p1")
    case True
    have j: "i = 0" "j = 0" "rs = p2" using assms(5,8,9) True by auto
    let ?S = "insert p2 (S - {p2} - {p1} \<union> ?K)"
    have "pool_ok R (p1 # pp # P) ?S N" using poolR True by (auto simp: pool_ok_def)
    from delete_page_cases [OF this, of p2 T r] obtain C2 where
      C2: "delete_page p2 (st T r R (p1 # pp # P) ?S N) = st T r C2 (p1 # pp # P) ?S N"
      "\<forall>x. x \<noteq> p2 \<longrightarrow> C2 x = R x" "pool_ok C2 (p1 # pp # P) ?S N" .
    have C2p: "C2 pp = Some (Internal n)" using C2(2) R(1) assms(7) by simp
    let ?C' = "C2(pp \<mapsto> Internal n')"
    have "internal_merge p pp (int i) ls rs (st T r C (p # pp # P) S N) = (Inr (), st T r ?C' (pp # P) (insert p1 (?S - {pp})) N)"
      unfolding internal_merge_def True j
      using assms(2-7) fit mv room_cards(3) [OF assms(13)] n'(1) nfit C2(1) C2p scp' keys [unfolded j(2)]
      by (simp add: exec_simps parent_Remove_def j(2) [symmetric] del: node_fits.simps fun_upd_apply)
    moreover have "pool_ok ?C' (pp # P) (insert p1 (?S - {pp})) N"
    proof -
      have "pool_ok ?C' (p1 # pp # P) ?S N" by (rule pool_ok_upd [OF C2(3)]) (use C2p in auto)
      then show ?thesis by (auto simp: pool_ok_def)
    qed
    ultimately show thesis
      by (rule fin) (use C2(2) Rx R(2) assms(5-7) keeps in auto)
  next
    case False
    then have p: "p = p2" "i = Suc j" "ls = p1" using assms(8,9) by auto
    let ?S = "insert p2 (insert p1 (S - {p2} - {p1} \<union> ?K))"
    have "pool_ok R (pp # P) ?S N" using poolR p by (auto simp: pool_ok_def)
    from delete_page_cases [OF this, of p2 T r] obtain C2 where
      C2: "delete_page p2 (st T r R (pp # P) ?S N) = st T r C2 (pp # P) ?S N"
      "\<forall>x. x \<noteq> p2 \<longrightarrow> C2 x = R x" "pool_ok C2 (pp # P) ?S N" .
    have C2p: "C2 pp = Some (Internal n)" using C2(2) R(1) assms(7) by simp
    let ?C' = "C2(pp \<mapsto> Internal n')"
    have "internal_merge p pp (int i) ls rs (st T r C (p # pp # P) S N) = (Inr (), st T r ?C' (pp # P) (?S - {pp}) N)"
      unfolding internal_merge_def p
      using assms(2-7) fit mv room_cards(3) [OF assms(13)] n'(1) nfit C2(1) C2p scp'' keys
      by (simp add: exec_simps parent_Remove_def nat_add_distrib del: node_fits.simps fun_upd_apply)
    moreover have "pool_ok ?C' (pp # P) (?S - {pp}) N"
    proof -
      have "pool_ok ?C' (pp # P) ?S N" by (rule pool_ok_upd [OF C2(3)]) (use C2p in auto)
      then show ?thesis by (auto simp: pool_ok_def)
    qed
    ultimately show thesis
      by (rule fin) (use C2(2) Rx R(2) assms(5-7) keeps in auto)
  qed
qed

section \<open>Internal pages: what a step does\<close>

definition key_of :: "contents \<Rightarrow> page_id \<Rightarrow> page_id \<Rightarrow> int \<Rightarrow> bool" where
  "key_of C pp p k \<longleftrightarrow> (\<exists>n. C pp = Some (Internal n) \<and> (k, p) \<in> set (children_of n))"

text \<open>The children of two neighbours in one list, the key between them coming down from the parent.\<close>

abbreviation joined :: "(int \<times> page_id) list \<Rightarrow> int \<Rightarrow> (int \<times> page_id) list \<Rightarrow> (int \<times> page_id) list" where
  "joined cs1 k cs2 \<equiv> cs1 @ (k, snd (hd cs2)) # tl cs2"

definition family_frame :: "contents \<Rightarrow> contents \<Rightarrow> page_id set \<Rightarrow> page_id set \<Rightarrow> bool" where
  "family_frame C C' ps A \<longleftrightarrow> (\<forall>x \<in> A. same_entries (C x) (C' x)) \<and> (\<forall>x. x \<notin> ps \<union> A \<longrightarrow> C' x = C x)"

text \<open>A page that does not have to borrow from its right sibling: that one has nothing to spare, or the left one has.\<close>

definition no_loan :: "contents \<Rightarrow> page_id \<Rightarrow> bool" where
  "no_loan C p \<longleftrightarrow>
     (\<forall>q n i l. parent_of C p = Some q \<longrightarrow> C q = Some (Internal n) \<longrightarrow> Suc i < tp_size n \<longrightarrow> snd (children_of n ! i) = p \<longrightarrow>
        C (snd (children_of n ! Suc i)) = Some (Internal l) \<longrightarrow> internal_min_size (tp_max l) < tp_size l \<longrightarrow>
        (\<exists>j m. i = Suc j \<and> C (snd (children_of n ! j)) = Some (Internal m) \<and> internal_min_size (tp_max m) < tp_size m))"

definition inners_moved :: "nat \<Rightarrow> contents \<Rightarrow> contents \<Rightarrow> page_id \<Rightarrow> page_id \<Rightarrow> page_id \<Rightarrow> nat \<Rightarrow> int \<Rightarrow> bool" where
  "inners_moved M C C' pp p1 p2 s k \<longleftrightarrow>
     (\<exists>cs1 cs2 sep cs2'. inner C M (None, p1, cs1) \<and> inner C M (None, p2, cs2) \<and> cs1 \<noteq> [] \<and> cs2 \<noteq> [] \<and> key_of C pp p2 sep \<and>
        inner C' M (None, p1, take s (joined cs1 sep cs2)) \<and> inner C' M (None, p2, cs2') \<and>
        tl cs2' = tl (drop s (joined cs1 sep cs2)) \<and> map snd cs2' = map snd (drop s (joined cs1 sep cs2)) \<and>
        internal_min_size M \<le> s \<and> s \<le> M \<and> internal_min_size M + s \<le> length cs1 + length cs2 \<and> length cs1 + length cs2 \<le> s + M \<and>
        (no_loan C p1 \<longrightarrow> k = fst (joined cs1 sep cs2 ! s)) \<and>
        parent_of C' p1 = parent_of C p1 \<and> parent_of C' p2 = parent_of C p2 \<and>
        family_frame C C' {p1, p2, pp} (snd ` set cs1 \<union> snd ` set cs2))"

definition inners_merged :: "nat \<Rightarrow> contents \<Rightarrow> contents \<Rightarrow> page_id \<Rightarrow> page_id \<Rightarrow> page_id \<Rightarrow> bool" where
  "inners_merged M C C' pp p1 p2 \<longleftrightarrow>
     (\<exists>cs1 cs2 sep. inner C M (None, p1, cs1) \<and> inner C M (None, p2, cs2) \<and> cs1 \<noteq> [] \<and> cs2 \<noteq> [] \<and> key_of C pp p2 sep \<and>
        inner C' M (None, p1, joined cs1 sep cs2) \<and> internal_min_size M \<le> length cs1 + length cs2 \<and> length cs1 + length cs2 \<le> M \<and>
        parent_of C' p1 = parent_of C p1 \<and> family_frame C C' {p1, p2, pp} (snd ` set cs1 \<union> snd ` set cs2))"

definition inner_family :: "nat \<Rightarrow> contents \<Rightarrow> page_id \<Rightarrow> page_id \<Rightarrow> (int \<times> page_id) list \<Rightarrow> bool" where
  "inner_family M C p pp cs \<longleftrightarrow>
     (\<exists>n. C pp = Some (Internal n) \<and> children_of n = cs \<and> node_fits (Internal n)) \<and> parent_of C p = Some pp \<and>
     distinct (map snd cs) \<and> 2 \<le> length cs \<and> pp \<notin> set (map snd cs) \<and>
     (\<forall>c \<in> set (map snd cs). \<exists>n. C c = Some (Internal n) \<and> tp_max n = M \<and> tp_size n \<le> M \<and> (c \<noteq> p \<longrightarrow> internal_min_size M \<le> tp_size n) \<and>
        distinct (map snd (children_of n)) \<and> (\<forall>x \<in> snd ` set (children_of n). fits C x \<and> parent_of C x = Some c \<and> x \<noteq> pp \<and> x \<notin> set (map snd cs)))"

lemma internal_borrow_none_st:
  assumes "pool_ok C (p # pp # P) S N" and "room 4 T P"
    and "sib \<noteq> INVALID_PAGE_ID \<Longrightarrow> \<exists>n. C sib = Some (Internal n) \<and> tp_size n \<le> internal_min_size (tp_max n)"
  shows "internal_borrow_left p pp i sib (st T r C (p # pp # P) S N) = (Inr None, st T r C (p # pp # P) S N)"
    and "internal_borrow_right p pp i sib (st T r C (p # pp # P) S N) = (Inr None, st T r C (p # pp # P) S N)"
proof -
  note card = room_cards(3) [OF assms(2)]
  have "internal_borrow_left p pp i sib (st T r C (p # pp # P) S N) = (Inr None, st T r C (p # pp # P) S N) \<and>
    internal_borrow_right p pp i sib (st T r C (p # pp # P) S N) = (Inr None, st T r C (p # pp # P) S N)"
  proof (cases "sib = INVALID_PAGE_ID")
    case False
    with assms(3) obtain l where l: "C sib = Some (Internal l)" "tp_size l \<le> internal_min_size (tp_max l)" by blast
    have "sib \<in> S \<or> sib \<in> set (p # pp # P)" using pool_ok_clean [OF assms(1) l(1)] .
    then show ?thesis using False l card by (simp add: internal_borrow_left_def internal_borrow_right_def exec_simps)
  qed (simp add: internal_borrow_left_def internal_borrow_right_def)
  then show "internal_borrow_left p pp i sib (st T r C (p # pp # P) S N) = (Inr None, st T r C (p # pp # P) S N)"
    "internal_borrow_right p pp i sib (st T r C (p # pp # P) S N) = (Inr None, st T r C (p # pp # P) S N)" by auto
qed

text \<open>Reparenting the children that have moved to \<open>p\<close>.\<close>

lemma reparented_family:
  assumes "K' \<subseteq> A" and "A \<inter> {p, q, pp} = {}" and "A \<subseteq> dom C" and "q \<noteq> p" and "pp \<noteq> q" and "pp \<noteq> p"
    and C'_def: "C' = (reparent p K' (C(q \<mapsto> x, p \<mapsto> y)))(pp \<mapsto> z)"
  shows "family_frame C C' {p, q, pp} A" and "\<forall>v \<in> K'. parent_of C' v = Some p"
    and "\<forall>v \<in> A - K'. C' v = C v" and "C' q = Some x" and "C' p = Some y" and "C' pp = Some z" and "dom C' = dom C \<union> {p, q, pp}"
proof -
  show "family_frame C C' {p, q, pp} A" unfolding family_frame_def
  proof (intro conjI ballI allI impI)
    fix v assume "v \<in> A"
    then have "v \<notin> {p, q, pp}" using assms(2) by blast
    then show "same_entries (C v) (C' v)" by (simp add: C'_def reparent_def)
  next
    fix v assume "v \<notin> {p, q, pp} \<union> A"
    then have "v \<notin> K'" "v \<notin> {p, q, pp}" using assms(1) by blast+
    then show "C' v = C v" by (simp add: C'_def reparent_def)
  qed
  have out: "p \<notin> K'" "q \<notin> K'" "pp \<notin> K'" using assms(1,2) by blast+
  show "\<forall>v \<in> K'. parent_of C' v = Some p"
  proof
    fix v assume v: "v \<in> K'"
    then have "v \<notin> {p, q, pp}" "v \<in> dom C" using assms(1-3) by blast+
    then show "parent_of C' v = Some p" using v by (auto simp: C'_def reparent_def parent_of_def)
  qed
  show "\<forall>v \<in> A - K'. C' v = C v" using assms(2) by (auto simp: C'_def reparent_def)
  show "C' pp = Some z" "C' q = Some x" "C' p = Some y" using out assms(4-6) by (simp_all add: C'_def reparent_def)
  show "dom C' = dom C \<union> {p, q, pp}" by (auto simp: C'_def)
qed

lemma inners_movedI:
  assumes "C q = Some (Internal l)" and "C p = Some (Internal u)" and "tp_max l = M" and "tp_max u = M" and "inner_keeps l l'" and "inner_keeps u u'"
    and "\<forall>c \<in> snd ` set (children_of l). parent_of C c = Some q" and "\<forall>c \<in> snd ` set (children_of u). parent_of C c = Some p"
    and "distinct (map snd (children_of l))" and "q \<noteq> p" and "pp \<noteq> q" and "pp \<noteq> p"
    and A: "(snd ` set (children_of l) \<union> snd ` set (children_of u)) \<inter> {p, q, pp} = {}"
      "snd ` set (children_of l) \<union> snd ` set (children_of u) \<subseteq> dom C"
    and C'_def: "C' = (reparent p (snd ` set (children_of u')) (C(q \<mapsto> Internal l', p \<mapsto> Internal u')))(pp \<mapsto> z)"
    and given: "set (map snd (children_of u')) = set (map snd (children_of u)) \<union> {c}" "c \<in> snd ` set (children_of l)"
      "set (map snd (children_of l')) = set (map snd (children_of l)) - {c}"
  shows "family_frame C C' {q, p, pp} (snd ` set (children_of l) \<union> snd ` set (children_of u))"
    and "inner C' M (None, q, children_of l')" and "inner C' M (None, p, children_of u')"
    and "parent_of C' q = parent_of C q" and "parent_of C' p = parent_of C p" and "dom C' = dom C \<union> {p, q, pp}"
proof -
  let ?A = "snd ` set (children_of l) \<union> snd ` set (children_of u)" and ?K = "snd ` set (children_of u')"
  have K: "?K \<subseteq> ?A" using given by auto
  note r = reparented_family [OF K A assms(10-12) C'_def]
  show "family_frame C C' {q, p, pp} ?A" using r(1) by (simp add: insert_commute)
  show "dom C' = dom C \<union> {p, q, pp}" by (rule r(7))
  show "inner C' M (None, p, children_of u')" using r(2,5) assms(4,6) by (auto simp: inner_keeps_def)
  have "parent_of C' v = Some q" if "v \<in> snd ` set (children_of l')" for v
  proof -
    have v: "v \<in> snd ` set (children_of l)" "v \<noteq> c" using that given(3) by auto
    then have "parent_of C v = Some q" using assms(7) by blast
    then have "v \<notin> snd ` set (children_of u)" using assms(8,10) by force
    then have "v \<in> ?A - ?K" using v given(1) by auto
    then have "C' v = C v" using r(3) by blast
    then show ?thesis using \<open>parent_of C v = Some q\<close> by (simp add: parent_of_def)
  qed
  then show "inner C' M (None, q, children_of l')" using r(4) assms(3,5) by (auto simp: inner_keeps_def)
  show "parent_of C' q = parent_of C q" "parent_of C' p = parent_of C p" using r(4,5) assms(1,2,5,6) by (simp_all add: parent_of_def inner_keeps_def)
qed

lemma inners_mergedI:
  assumes "C p1 = Some (Internal n1)" and "C p2 = Some (Internal n2)" and "inner C M (None, p1, children_of n1)" and "inner C M (None, p2, children_of n2)"
    and "children_of n1 \<noteq> [] \<and> children_of n2 \<noteq> []" and "key_of C pp p2 sep" and "C' p1 = Some (Internal m)" and "inner_keeps n1 m"
    and J: "children_of m = joined (children_of n1) sep (children_of n2)"
    and size: "internal_min_size M \<le> tp_size n1 + tp_size n2" "tp_size n1 + tp_size n2 \<le> M"
    and fam: "\<forall>c \<in> snd ` set (children_of n1) \<union> snd ` set (children_of n2). c \<noteq> p1 \<and> c \<noteq> p2 \<and> c \<noteq> pp \<and> fits C c"
    and frame: "\<forall>x. x \<notin> {p1, p2, pp} \<longrightarrow> C' x = (if x \<in> snd ` set (children_of m) then map_option (SetParentPageId p1) (C x) else C x)"
  shows "inners_merged M C C' pp p1 p2"
proof -
  let ?A = "snd ` set (children_of n1) \<union> snd ` set (children_of n2)"
  have K: "snd ` set (children_of m) = ?A" unfolding J using assms(5) by (cases "children_of n2") auto
  have out: "c \<notin> {p1, p2, pp} \<and> C c \<noteq> None" if "c \<in> ?A" for c using fam that by (auto simp: fits_def)
  have "parent_of C' c = Some p1" if "c \<in> ?A" for c using out [OF that] frame that K by (auto simp: parent_of_def)
  then have "inner C' M (None, p1, children_of m)" using assms(1,3,7,8) K by (simp add: inner_keeps_def)
  moreover have "parent_of C' p1 = parent_of C p1" using assms(1,7,8) by (simp add: parent_of_def inner_keeps_def)
  moreover have "family_frame C C' {p1, p2, pp} ?A" unfolding family_frame_def
  proof (intro conjI ballI allI impI)
    fix c assume "c \<in> ?A"
    then show "same_entries (C c) (C' c)" using out [of c] frame K by simp
  next
    fix c assume "c \<notin> {p1, p2, pp} \<union> ?A"
    then have "c \<notin> {p1, p2, pp}" "c \<notin> snd ` set (children_of m)" unfolding K by blast+
    then show "C' c = C c" using frame by simp
  qed
  ultimately show ?thesis unfolding inners_merged_def using assms(3-6) size unfolding J
    by (intro exI [of _ "children_of n1"] exI [of _ "children_of n2"] exI [of _ sep]) simp
qed

lemma butlast_ids: "xs \<noteq> [] \<Longrightarrow> distinct (map snd xs) \<Longrightarrow> set (map snd (butlast xs)) = set (map snd xs) - {snd (last xs)}"
  by (cases xs rule: rev_cases) auto

lemma pool_ok_pages: "pool_ok C (p # pp # P) S N \<Longrightarrow> dom C' = dom C \<Longrightarrow> pool_ok C' P (insert pp (insert p S)) N"
  by (auto simp: pool_ok_def)

text \<open>The situation of the code when an internal page is too small: the page is child \<open>i\<close> of the pinned page \<open>pp\<close>.\<close>

definition inner_site :: "nat \<Rightarrow> BPlusTree \<Rightarrow> contents \<Rightarrow> page_id list \<Rightarrow> page_id set \<Rightarrow> page_id \<Rightarrow>
    page_id \<Rightarrow> page_id \<Rightarrow> (int \<times> page_id) list \<Rightarrow> nat \<Rightarrow> InternalPage \<Rightarrow> InternalPage \<Rightarrow> bool" where
  "inner_site M T C P S N p pp cs i n u \<longleftrightarrow>
     inner_family M C p pp cs \<and> pool_ok C P S N \<and> i < length cs \<and> snd (cs ! i) = p \<and>
     C p = Some (Internal u) \<and> tp_size u < internal_min_size M \<and> internal_min_size M \<le> Suc (tp_size u) \<and> 3 \<le> M \<and> M \<le> 509 \<and> room 4 T P \<and>
     C pp = Some (Internal n) \<and> children_of n = cs \<and> node_fits (Internal n)"

definition spare_inner :: "nat \<Rightarrow> contents \<Rightarrow> page_id \<Rightarrow> bool" where
  "spare_inner M C q \<longleftrightarrow> (\<exists>l. C q = Some (Internal l) \<and> internal_min_size M < tp_size l)"

lemma inner_siteD:
  assumes "inner_site M T C P S N p pp cs i n u"
  shows "C pp = Some (Internal n)" "children_of n = cs" "node_fits (Internal n)" "distinct (map snd cs)" "2 \<le> length cs"
    "i < length cs" "snd (cs ! i) = p" "C p = Some (Internal u)" "tp_size u < internal_min_size M" "internal_min_size M \<le> Suc (tp_size u)"
    "3 \<le> M" "M \<le> 509" "room 4 T P" "tp_size n = length cs" "pool_ok C P S N" "parent_of C p = Some pp" "pp \<notin> set (map snd cs)"
    "\<forall>c \<in> set (map snd cs). \<exists>n. C c = Some (Internal n) \<and> tp_max n = M \<and> tp_size n \<le> M \<and> (c \<noteq> p \<longrightarrow> internal_min_size M \<le> tp_size n) \<and>
        distinct (map snd (children_of n)) \<and> (\<forall>x \<in> snd ` set (children_of n). fits C x \<and> parent_of C x = Some c \<and> x \<noteq> pp \<and> x \<notin> set (map snd cs))"
proof -
  show n: "C pp = Some (Internal n)" "children_of n = cs" "node_fits (Internal n)" "i < length cs" "snd (cs ! i) = p" "C p = Some (Internal u)"
    "tp_size u < internal_min_size M" "internal_min_size M \<le> Suc (tp_size u)" "3 \<le> M" "M \<le> 509" "room 4 T P" "pool_ok C P S N"
    using assms by (simp_all only: inner_site_def)
  show "tp_size n = length cs" using n(2) by (metis length_items)
  have "inner_family M C p pp cs" using assms by (simp only: inner_site_def)
  then show "distinct (map snd cs)" "2 \<le> length cs" "parent_of C p = Some pp" "pp \<notin> set (map snd cs)"
    "\<forall>c \<in> set (map snd cs). \<exists>n. C c = Some (Internal n) \<and> tp_max n = M \<and> tp_size n \<le> M \<and> (c \<noteq> p \<longrightarrow> internal_min_size M \<le> tp_size n) \<and>
        distinct (map snd (children_of n)) \<and> (\<forall>x \<in> snd ` set (children_of n). fits C x \<and> parent_of C x = Some c \<and> x \<noteq> pp \<and> x \<notin> set (map snd cs))"
    unfolding inner_family_def by blast+
qed

lemma inner_site_child:
  assumes "inner_site M T C P S N p pp cs i n u" and j: "j < length cs"
  shows "\<exists>l. C (snd (cs ! j)) = Some (Internal l)" and "snd (cs ! j) \<noteq> INVALID_PAGE_ID" and "j \<noteq> i \<Longrightarrow> snd (cs ! j) \<noteq> p" and "pp \<noteq> snd (cs ! j)"
    and "C (snd (cs ! j)) = Some (Internal l) \<Longrightarrow>
      tp_max l = M \<and> tp_size l \<le> M \<and> (j \<noteq> i \<longrightarrow> internal_min_size M \<le> tp_size l) \<and> distinct (map snd (children_of l)) \<and>
      (\<forall>x \<in> snd ` set (children_of l). fits C x \<and> parent_of C x = Some (snd (cs ! j)) \<and> x \<noteq> pp \<and> x \<notin> set (map snd cs)) \<and>
      inner C M (None, snd (cs ! j), children_of l)"
    and "\<not> spare_inner M C (snd (cs ! j)) \<Longrightarrow> C (snd (cs ! j)) = Some (Internal l) \<Longrightarrow> tp_size l \<le> internal_min_size (tp_max l)"
    and "Suc j < length cs \<Longrightarrow> neighbours C pp j (snd (cs ! j)) (snd (cs ! Suc j))"
    and "key_of C pp (snd (cs ! j)) (fst (cs ! j))"
proof -
  note site = inner_siteD [OF assms(1)]
  have mem: "snd (cs ! j) \<in> set (map snd cs)" using j by simp
  note kid = bspec [OF site(18) this]
  then show node: "\<exists>l. C (snd (cs ! j)) = Some (Internal l)" by blast
  show "snd (cs ! j) \<noteq> INVALID_PAGE_ID" using node pool_ok_valid [OF site(15)] by blast
  show apart: "snd (cs ! j) \<noteq> p" if "j \<noteq> i" using site(4,6,7) j that by (auto simp: distinct_conv_nth)
  show "pp \<noteq> snd (cs ! j)" using site(17) mem by metis
  show pick: "tp_max l = M \<and> tp_size l \<le> M \<and> (j \<noteq> i \<longrightarrow> internal_min_size M \<le> tp_size l) \<and> distinct (map snd (children_of l)) \<and>
      (\<forall>x \<in> snd ` set (children_of l). fits C x \<and> parent_of C x = Some (snd (cs ! j)) \<and> x \<noteq> pp \<and> x \<notin> set (map snd cs)) \<and>
      inner C M (None, snd (cs ! j), children_of l)" if "C (snd (cs ! j)) = Some (Internal l)"
    using kid apart that by fastforce
  show "tp_size l \<le> internal_min_size (tp_max l)" if "\<not> spare_inner M C (snd (cs ! j))" "C (snd (cs ! j)) = Some (Internal l)"
    using that pick unfolding spare_inner_def by (metis not_le)
  show "neighbours C pp j (snd (cs ! j)) (snd (cs ! Suc j))" if "Suc j < length cs"
    unfolding neighbours_def by (intro exI [of _ n]) (simp add: site(1,2), simp add: site(14) that)
  show "key_of C pp (snd (cs ! j)) (fst (cs ! j))"
    unfolding key_of_def using site(1,2) j by (intro exI [of _ n]) simp
qed

lemma inner_site_ok:
  assumes "inner_site M T C P S N p pp cs i n u"
  shows "pool_ok C (p # pp # P) S N" and "tp_max u = M" and "internal_min_size M \<le> 255" and "2 * internal_min_size M \<le> M + 1"
    and "2 \<le> internal_min_size M" and "8 * tp_size u + 24 \<le> PAGE_SIZE" and "children_of u \<noteq> []"
proof -
  note site = inner_siteD [OF assms]
  show "pool_ok C (p # pp # P) S N" using pool_ok_pin [OF pool_ok_pin [OF site(15), of pp], of p] site(1,8) by blast
  show "tp_max u = M" using inner_site_child(5) [OF assms site(6), of u] site(7,8) by simp
  show small: "internal_min_size M \<le> 255" "2 * internal_min_size M \<le> M + 1" "2 \<le> internal_min_size M"
    using site(11,12) by (simp_all add: internal_min_size_def)
  show "8 * tp_size u + 24 \<le> PAGE_SIZE" using site(9) small by (simp add: PAGE_SIZE_def)
  have "0 < tp_size u" using site(10) small by simp
  then show "children_of u \<noteq> []" by (simp add: items_def)
qed

lemma inner_site_family:
  assumes "inner_site M T C P S N p pp cs i n u" and "j < length cs" and "C (snd (cs ! j)) = Some (Internal l)"
  shows "\<forall>c \<in> snd ` set (children_of l) \<union> snd ` set (children_of u). c \<noteq> p \<and> c \<noteq> snd (cs ! j) \<and> c \<noteq> pp \<and> fits C c"
    and "snd ` set (children_of l) \<union> snd ` set (children_of u) \<subseteq> dom C"
proof -
  note i = inner_siteD(6,7) [OF assms(1)]
  note pk = inner_site_child(5) [OF assms] inner_site_child(5) [OF assms(1) i(1), of u, unfolded i(2), OF inner_siteD(8) [OF assms(1)]]
  have "p \<in> set (map snd cs)" "snd (cs ! j) \<in> set (map snd cs)" using i assms(2) by auto
  then show "\<forall>c \<in> snd ` set (children_of l) \<union> snd ` set (children_of u). c \<noteq> p \<and> c \<noteq> snd (cs ! j) \<and> c \<noteq> pp \<and> fits C c" using pk by blast
  then show "snd ` set (children_of l) \<union> snd ` set (children_of u) \<subseteq> dom C" by (auto simp: fits_def)
qed

lemma fix_internal_steps:
  assumes "inner_site M T C P S N p pp cs i n u"
  shows "fix_internal p pp (int i) ls rs (st T r C (pp # P) S N) =
      bind_out (internal_borrow_left p pp (int i) ls (st T r C (p # pp # P) S N)) (\<lambda>r t.
       if r \<noteq> None then (Inr None, t) else
       bind_out (internal_borrow_right p pp (int i) rs t) (\<lambda>r t.
       if r \<noteq> None then (Inr None, t) else
       bind_out (internal_merge p pp (int i) ls rs t) (\<lambda>_ t. shrink_root pp t)))"
  unfolding fix_internal_def using inner_siteD(8,9) [OF assms] inner_site_ok(2) [OF assms] room_cards(2) [OF inner_siteD(13) [OF assms]]
  by (simp add: exec_simps)

text \<open>A sibling without a spare child lends nothing.\<close>

lemma inner_no_left:
  assumes s: "inner_site M T C P S N p pp cs i n u" and "\<And>j. i = Suc j \<Longrightarrow> \<not> spare_inner M C (snd (cs ! j))"
  shows "internal_borrow_left p pp (int i) (side (int i - 1) cs) (st T r C (p # pp # P) S N) = (Inr None, st T r C (p # pp # P) S N)"
proof (rule internal_borrow_none_st(1) [OF inner_site_ok(1) [OF s] inner_siteD(13) [OF s]])
  assume "side (int i - 1) cs \<noteq> INVALID_PAGE_ID"
  then obtain j where j: "i = Suc j" "side (int i - 1) cs = snd (cs ! j)" by (cases i) (auto simp: side_def split: if_splits)
  then have "j < length cs" using inner_siteD(6) [OF s] by simp
  note child = inner_site_child(1,6) [OF s this]
  then show "\<exists>l. C (side (int i - 1) cs) = Some (Internal l) \<and> tp_size l \<le> internal_min_size (tp_max l)" using assms(2) j by fastforce
qed

lemma inner_no_right:
  assumes s: "inner_site M T C P S N p pp cs i n u" and "Suc i < length cs \<Longrightarrow> \<not> spare_inner M C (snd (cs ! Suc i))"
  shows "internal_borrow_right p pp (int i) (side (int i + 1) cs) (st T r C (p # pp # P) S N) = (Inr None, st T r C (p # pp # P) S N)"
proof (rule internal_borrow_none_st(2) [OF inner_site_ok(1) [OF s] inner_siteD(13) [OF s]])
  assume "side (int i + 1) cs \<noteq> INVALID_PAGE_ID"
  then have j: "Suc i < length cs" "side (int i + 1) cs = snd (cs ! Suc i)" by (auto simp: side_def nat_add_distrib split: if_splits)
  note child = inner_site_child(1,6) [OF s j(1)]
  then show "\<exists>l. C (side (int i + 1) cs) = Some (Internal l) \<and> tp_size l \<le> internal_min_size (tp_max l)" using assms(2) j by fastforce
qed

lemma fix_internal_left:
  assumes s: "inner_site M T C P S N p pp cs i n u" and left: "i = Suc j" "spare_inner M C (snd (cs ! j))"
  shows "step_result (inners_moved M) (inners_merged M) T r C P N p pp
    (fix_internal p pp (int i) (side (int i - 1) cs) (side (int i + 1) cs) (st T r C (pp # P) S N))"
proof -
  let ?ls = "side (int i - 1) cs" and ?rs = "side (int i + 1) cs"
  note site = inner_siteD [OF s] and small = inner_site_ok(3-5) [OF s] and usize = inner_site_ok(6) [OF s]
  note n = site(1-3) and d = site(4,5,17) and i = site(6,7) and u = site(8-10) and M = site(11,12) and room = site(13) and size = site(14)
  note pool = inner_site_ok(1) [OF s] and go = fix_internal_steps [OF s] and node = inner_site_child(1) [OF s] and valid = inner_site_child(2) [OF s]
  note apart = inner_site_child(3) [OF s] and lpage = inner_site_child(4) [OF s] and pick = inner_site_child(5) [OF s]
  note tight = inner_site_child(6) [OF s] and nb = inner_site_child(7) [OF s] and key = inner_site_child(8) [OF s]
  note family = inner_site_family [OF s] and uM = inner_site_ok(2) [OF s] and une = inner_site_ok(7) [OF s]
  obtain k0 c0 us where us: "children_of u = (k0, c0) # us" using une by (cases "children_of u") auto
  let ?q = "snd (cs ! j)" and ?sep = "fst (cs ! i)"
  have j: "j < length cs" "j \<noteq> i" using i(1) left(1) by simp_all
  from left(2) obtain l where l: "C ?q = Some (Internal l)" "internal_min_size M < tp_size l" unfolding spare_inner_def by blast
  note pk = pick [OF j(1) l(1)] and pu = pick [OF i(1), of u, unfolded i(2), OF u(1)]
  have lfit: "node_fits (Internal l)" using pk M(2) by (simp add: PAGE_SIZE_def)
  have ls: "?ls = ?q" using left(1) j(1) by (simp add: side_def)
  have min: "internal_min_size (tp_max l) < tp_size l" using l(2) pk by simp
  have "i < tp_size n" using size i(1) by simp
  note fam = family [OF j(1) l(1)]
  have pages: "pp \<noteq> ?q" "pp \<noteq> p" using lpage j(1) lpage [OF i(1)] i(2) by auto
  from internal_borrow_left_st [OF l(1) u(1) n(1) apart [OF j] pages min lfit usize \<open>i < tp_size n\<close> n(3) room valid [OF j(1)] us fam(1), of r S N, unfolded n(2)]
  obtain l' u' n' where b: "internal_borrow_left p pp (int i) ?q (st T r C (p # pp # P) S N) =
    (Inr (Some ()), st T r ((reparent p (snd ` set (children_of u')) (C(?q \<mapsto> Internal l', p \<mapsto> Internal u')))(pp \<mapsto> Internal n')) P
      (insert pp (insert p (insert ?q (S \<union> snd ` set (children_of u'))))) N)"
    "children_of l' = butlast (children_of l)" "children_of u' = (k0, snd (last (children_of l))) # (?sep, c0) # us"
    "inner_keeps l l'" "inner_keeps u u'" "children_of n' = cs[i := (fst (last (children_of l)), snd (cs ! i))]" "inner_keeps n n'" .
  define C' where "C' = (reparent p (snd ` set (children_of u')) (C(?q \<mapsto> Internal l', p \<mapsto> Internal u')))(pp \<mapsto> Internal n')"
  have ne: "children_of l \<noteq> []" using l(2) by (metis length_items list.size(3) not_less_zero)
  have given: "set (map snd (children_of u')) = set (map snd (children_of u)) \<union> {snd (last (children_of l))}"
    "snd (last (children_of l)) \<in> snd ` set (children_of l)"
    "set (map snd (children_of l')) = set (map snd (children_of l)) - {snd (last (children_of l))}"
    unfolding b(2,3) us using butlast_ids [OF ne] pk ne by (auto simp del: set_map)
  have A: "(snd ` set (children_of l) \<union> snd ` set (children_of u)) \<inter> {p, ?q, pp} = {}" using fam(1) by blast
  have par: "\<forall>c \<in> snd ` set (children_of l). parent_of C c = Some ?q" "\<forall>c \<in> snd ` set (children_of u). parent_of C c = Some p" using pk pu by blast+
  have dl: "distinct (map snd (children_of l))" and maxs: "tp_max l = M" "tp_max u = M" using pk uM by blast+
  note mv = inners_movedI [OF l(1) u(1) maxs b(4,5) par dl apart [OF j] pages A fam(2) C'_def given]
  let ?s = "tp_size l - 1" and ?J = "joined (children_of l) ?sep (children_of u)"
  have e: "take ?s ?J = children_of l'" "drop ?s ?J = last (children_of l) # (?sep, c0) # us"
    using cut_last [OF ne, of "(?sep, c0) # us"] b(2) us by simp_all
  have "inners_moved M C C' pp ?q p ?s (fst (last (children_of l)))"
    unfolding inners_moved_def
  proof (intro exI conjI)
    show "inner C M (None, ?q, children_of l)" "inner C M (None, p, children_of u)" using pk pu by blast+
    show "key_of C pp p ?sep" using key [OF i(1)] i(2) by simp
    show "inner C' M (None, ?q, take ?s ?J)" unfolding e(1) by (rule mv(2))
    show "inner C' M (None, p, children_of u')" by (rule mv(3))
    show "tl (children_of u') = tl (drop ?s ?J)" "map snd (children_of u') = map snd (drop ?s ?J)" unfolding e(2) b(3) by simp_all
    show "internal_min_size M \<le> ?s" "?s \<le> M" "internal_min_size M + ?s \<le> length (children_of l) + length (children_of u)"
      "length (children_of l) + length (children_of u) \<le> ?s + M"
      using l(2) pk u(2,3) small M by auto
    show "no_loan C ?q \<longrightarrow> fst (last (children_of l)) = fst (?J ! ?s)"
      using cut_last [OF ne, of "(?sep, c0) # us"] us by simp
  qed (rule ne une mv)+
  moreover have "parent_keyed C C' pp j (fst (last (children_of l)))"
    unfolding parent_keyed_def using n(1,2) b(6,7) left(1) mv(6) by (intro exI [of _ n] exI [of _ n']) (simp add: C'_def inner_keeps_def)
  moreover have "pool_ok C' P (insert pp (insert p (insert ?q (S \<union> snd ` set (children_of u'))))) N"
    by (rule pool_ok_pages [OF pool_ok_saved [OF pool]]) (use mv(6) l(1) u(1) n(1) in auto)
  moreover have "neighbours C pp j ?q p" using nb [of j] left(1) i by simp
  moreover have "fix_internal p pp (int i) ?ls ?rs (st T r C (pp # P) S N) =
      (Inr None, st T r C' P (insert pp (insert p (insert ?q (S \<union> snd ` set (children_of u'))))) N)"
    using go b(1) unfolding ls C'_def by simp
  ultimately show ?thesis by (intro step_moved [where mov = "inners_moved M"]) auto
qed

lemma fix_internal_right:
  assumes s: "inner_site M T C P S N p pp cs i n u"
    and right: "\<And>j. i = Suc j \<Longrightarrow> \<not> spare_inner M C (snd (cs ! j))" "Suc i < length cs" "spare_inner M C (snd (cs ! Suc i))"
  shows "step_result (inners_moved M) (inners_merged M) T r C P N p pp
    (fix_internal p pp (int i) (side (int i - 1) cs) (side (int i + 1) cs) (st T r C (pp # P) S N))"
proof -
  let ?ls = "side (int i - 1) cs" and ?rs = "side (int i + 1) cs"
  note site = inner_siteD [OF s] and small = inner_site_ok(3-5) [OF s] and usize = inner_site_ok(6) [OF s]
  note n = site(1-3) and d = site(4,5,17) and i = site(6,7) and u = site(8-10) and M = site(11,12) and room = site(13) and size = site(14)
  note pool = inner_site_ok(1) [OF s] and go = fix_internal_steps [OF s] and node = inner_site_child(1) [OF s] and valid = inner_site_child(2) [OF s]
  note apart = inner_site_child(3) [OF s] and lpage = inner_site_child(4) [OF s] and pick = inner_site_child(5) [OF s]
  note tight = inner_site_child(6) [OF s] and nb = inner_site_child(7) [OF s] and key = inner_site_child(8) [OF s]
  note family = inner_site_family [OF s] and uM = inner_site_ok(2) [OF s] and une = inner_site_ok(7) [OF s]
  let ?q = "snd (cs ! Suc i)" and ?sep = "fst (cs ! Suc i)"
  have j: "Suc i < length cs" "Suc i \<noteq> i" using right(2) by simp_all
  from right(3) obtain l where l: "C ?q = Some (Internal l)" "internal_min_size M < tp_size l" unfolding spare_inner_def by blast
  note pk = pick [OF j(1) l(1)] and pu = pick [OF i(1), of u, unfolded i(2), OF u(1)]
  have lfit: "node_fits (Internal l)" using pk M(2) by (simp add: PAGE_SIZE_def)
  have rs: "?rs = ?q" using j(1) by (simp add: side_def nat_add_distrib)
  have min: "internal_min_size (tp_max l) < tp_size l" using l(2) pk by simp
  have "3 \<le> length (children_of l)" using l(2) small by simp
  then obtain a0 d0 k1 c1 k2 c2 ls' where ls': "children_of l = (a0, d0) # (k1, c1) # (k2, c2) # ls'"
    by (cases "children_of l" rule: list.exhaust; cases "tl (children_of l)"; cases "tl (tl (children_of l))") auto
  have "Suc i < tp_size n" using size j(1) by simp
  note fam = family [OF j(1) l(1)]
  have pages: "pp \<noteq> ?q" "pp \<noteq> p" using lpage j(1) lpage [OF i(1)] i(2) by auto
  from internal_borrow_right_st [OF l(1) u(1) n(1) apart [OF j] pages min lfit usize \<open>Suc i < tp_size n\<close> n(3) room valid [OF j(1)] ls' fam(1), of r S N, unfolded n(2)]
  obtain l' u' n' where b: "internal_borrow_right p pp (int i) ?q (st T r C (p # pp # P) S N) =
    (Inr (Some ()), st T r ((reparent p (snd ` set (children_of u')) (C(?q \<mapsto> Internal l', p \<mapsto> Internal u')))(pp \<mapsto> Internal n')) P
      (insert pp (insert p (insert ?q (S \<union> snd ` set (children_of u'))))) N)"
    "children_of l' = (a0, c1) # (k2, c2) # ls'" "children_of u' = children_of u @ [(?sep, d0)]"
    "inner_keeps l l'" "inner_keeps u u'" "children_of n' = cs[Suc i := (k2, snd (cs ! Suc i))]" "inner_keeps n n'" .
  define C' where "C' = (reparent p (snd ` set (children_of u')) (C(?q \<mapsto> Internal l', p \<mapsto> Internal u')))(pp \<mapsto> Internal n')"
  have dl: "distinct (map snd (children_of l))" and maxs: "tp_max l = M" "tp_max u = M" using pk uM by blast+
  have given: "set (map snd (children_of u')) = set (map snd (children_of u)) \<union> {d0}"
    "d0 \<in> snd ` set (children_of l)" "set (map snd (children_of l')) = set (map snd (children_of l)) - {d0}"
    using dl unfolding b(2,3) ls' by auto
  have A: "(snd ` set (children_of l) \<union> snd ` set (children_of u)) \<inter> {p, ?q, pp} = {}" using fam(1) by blast
  have par: "\<forall>c \<in> snd ` set (children_of l). parent_of C c = Some ?q" "\<forall>c \<in> snd ` set (children_of u). parent_of C c = Some p" using pk pu by blast+
  note mv = inners_movedI [OF l(1) u(1) maxs b(4,5) par dl apart [OF j] pages A fam(2) C'_def given]
  let ?s = "Suc (tp_size u)" and ?J = "joined (children_of u) ?sep (children_of l)"
  have e: "take ?s ?J = children_of u'" "drop ?s ?J = (k1, c1) # (k2, c2) # ls'"
    using cut_first [of "(?sep, d0) # (k1, c1) # (k2, c2) # ls'" "children_of u"] b(3) ls' by simp_all
  have "inners_moved M C C' pp p ?q ?s k2"
    unfolding inners_moved_def
  proof (intro exI conjI)
    show "inner C M (None, ?q, children_of l)" "inner C M (None, p, children_of u)" using pk pu by blast+
    show "key_of C pp ?q ?sep" using key [OF j(1)] .
    show "inner C' M (None, p, take ?s ?J)" unfolding e(1) by (rule mv(3))
    show "inner C' M (None, ?q, children_of l')" by (rule mv(2))
    show "tl (children_of l') = tl (drop ?s ?J)" "map snd (children_of l') = map snd (drop ?s ?J)" unfolding e(2) b(2) by simp_all
    show "internal_min_size M \<le> ?s" "?s \<le> M" "internal_min_size M + ?s \<le> length (children_of u) + length (children_of l)"
      "length (children_of u) + length (children_of l) \<le> ?s + M"
      using l(2) pk u(2,3) small M by auto
    have "\<not> no_loan C p"
    proof
      assume "no_loan C p"
      moreover have "parent_of C p = Some pp" by (rule site(16))
      moreover have "snd (children_of n ! i) = p" "Suc i < tp_size n" "C (snd (children_of n ! Suc i)) = Some (Internal l)"
        using i n(2) size j(1) l(1) by simp_all
      ultimately obtain j m where "i = Suc j" "C (snd (children_of n ! j)) = Some (Internal m)" "internal_min_size (tp_max m) < tp_size m"
        using n(1) min unfolding no_loan_def by blast
      moreover from this have "tp_max m = M" using pick [of j m] i(1) n(2) by simp
      ultimately show False using right(1) [of j] n(2) by (auto simp: spare_inner_def)
    qed
    then show "no_loan C p \<longrightarrow> k2 = fst (?J ! ?s)" by blast
    show "children_of l \<noteq> []" using ls' by simp
    show "family_frame C C' {p, ?q, pp} (snd ` set (children_of u) \<union> snd ` set (children_of l))"
      using mv(1) by (simp add: Un_commute insert_commute)
  qed (rule une mv)+
  moreover have "parent_keyed C C' pp i k2"
    unfolding parent_keyed_def using n(1,2) b(6,7) by (intro exI [of _ n] exI [of _ n']) (simp add: C'_def inner_keeps_def)
  moreover have "pool_ok C' P (insert pp (insert p (insert ?q (S \<union> snd ` set (children_of u'))))) N"
    by (rule pool_ok_pages [OF pool_ok_saved [OF pool]]) (use mv(6) l(1) u(1) n(1) in auto)
  moreover have "neighbours C pp i p ?q" using nb [of i] j(1) i by simp
  moreover have "fix_internal p pp (int i) ?ls ?rs (st T r C (pp # P) S N) =
      (Inr None, st T r C' P (insert pp (insert p (insert ?q (S \<union> snd ` set (children_of u'))))) N)"
    using go inner_no_left [OF s right(1)] b(1) unfolding rs C'_def by simp
  ultimately show ?thesis by (intro step_moved [where mov = "inners_moved M"]) auto
qed

lemma fix_internal_merge:
  assumes s: "inner_site M T C P S N p pp cs i n u"
    and none: "\<And>j. i = Suc j \<Longrightarrow> \<not> spare_inner M C (snd (cs ! j))" "Suc i < length cs \<Longrightarrow> \<not> spare_inner M C (snd (cs ! Suc i))"
  shows "step_result (inners_moved M) (inners_merged M) T r C P N p pp
    (fix_internal p pp (int i) (side (int i - 1) cs) (side (int i + 1) cs) (st T r C (pp # P) S N))"
proof -
  let ?ls = "side (int i - 1) cs" and ?rs = "side (int i + 1) cs"
  note site = inner_siteD [OF s] and small = inner_site_ok(3-5) [OF s] and usize = inner_site_ok(6) [OF s]
  note n = site(1-3) and d = site(4,5,17) and i = site(6,7) and u = site(8-10) and M = site(11,12) and room = site(13) and size = site(14)
  note pool = inner_site_ok(1) [OF s] and go = fix_internal_steps [OF s] and node = inner_site_child(1) [OF s] and valid = inner_site_child(2) [OF s]
  note apart = inner_site_child(3) [OF s] and lpage = inner_site_child(4) [OF s] and pick = inner_site_child(5) [OF s]
  note tight = inner_site_child(6) [OF s] and nb = inner_site_child(7) [OF s] and key = inner_site_child(8) [OF s]
  note family = inner_site_family [OF s] and uM = inner_site_ok(2) [OF s] and une = inner_site_ok(7) [OF s]
  define j where "j = (if i = 0 then 0 else i - 1)"
  have j: "Suc j < length cs" "p = snd (cs ! j) \<and> i = 0 \<or> p = snd (cs ! Suc j) \<and> 0 < i" "i = (if i = 0 then j else Suc j)"
    using d(2) i by (auto simp: j_def)
  obtain n1 n2 where l: "C (snd (cs ! j)) = Some (Internal n1)" "C (snd (cs ! Suc j)) = Some (Internal n2)" using node j(1) by fastforce
  have "j < length cs" using j(1) by simp
  note pk = pick [OF this l(1)] pick [OF j(1) l(2)]
  have ends: "i = 0 \<Longrightarrow> n1 = u \<and> tp_size n2 \<le> internal_min_size M" "0 < i \<Longrightarrow> n2 = u \<and> tp_size n1 \<le> internal_min_size M"
    using l u(1) i j tight [of "Suc j" n2] tight [of j n1] pk none by (auto simp: j_def)
  have sizes: "tp_size n1 + tp_size n2 \<le> M" "internal_min_size M \<le> tp_size n1 + tp_size n2" "0 < tp_size n1" "0 < tp_size n2"
    using ends u(2,3) small pk j(1) by (cases "i = 0"; auto simp: j_def)+
  have ne: "snd (cs ! j) \<noteq> snd (cs ! Suc j)" using d(1) j(1) by (auto simp: distinct_conv_nth)
  have ni: "nat (int i - 1) = i - Suc 0" by simp
  have merge_args: "p = snd (cs ! j) \<and> i = 0 \<and> ?rs = snd (cs ! Suc j) \<or> p = snd (cs ! Suc j) \<and> 0 < i \<and> ?ls = snd (cs ! j)"
    "i = (if p = snd (cs ! j) then j else Suc j)"
    using j ne by (auto simp: side_def nat_add_distrib ni j_def)
  have fit: "8 * (tp_size n1 + tp_size n2) + 16 \<le> PAGE_SIZE" using sizes(1) M(2) by (simp add: PAGE_SIZE_def)
  have jn: "Suc j < tp_size n" using size j(1) by simp
  obtain a0 d0 ns where n2: "children_of n2 = (a0, d0) # ns" using sizes(4) by (cases "children_of n2") (auto simp: items_def)
  have n1: "children_of n1 \<noteq> []" using sizes(3) by (auto simp: items_def)
  have ids: "snd (cs ! j) \<in> set (map snd cs)" "snd (cs ! Suc j) \<in> set (map snd cs)" using j(1) by auto
  then have fam: "\<forall>c \<in> snd ` set (children_of n1) \<union> snd ` set (children_of n2). c \<noteq> snd (cs ! j) \<and> c \<noteq> snd (cs ! Suc j) \<and> c \<noteq> pp \<and> fits C c"
    using pk by blast
  have pages: "pp \<noteq> snd (cs ! j)" "pp \<noteq> snd (cs ! Suc j)" using lpage j(1) \<open>j < length cs\<close> by auto
  from internal_merge_st [OF pool l n(1) ne pages merge_args jn fit n(3) room n2 fam, where r = r, unfolded n(2)] obtain m n' C' S' where
    m: "internal_merge p pp (int i) ?ls ?rs (st T r C (p # pp # P) S N) = (Inr (), st T r C' (pp # P) S' N)"
    "pool_ok C' (pp # P) S' N" "C' (snd (cs ! j)) = Some (Internal m)" "C' pp = Some (Internal n')"
    "children_of m = children_of n1 @ (fst (cs ! Suc j), d0) # ns" "inner_keeps n1 m" "children_of n' = remove_at (Suc j) cs" "inner_keeps n n'"
    "\<forall>x. x \<notin> {snd (cs ! j), snd (cs ! Suc j), pp} \<longrightarrow>
      C' x = (if x \<in> snd ` set (children_of m) then map_option (SetParentPageId (snd (cs ! j))) (C x) else C x)" .
  let ?p1 = "snd (cs ! j)" and ?p2 = "snd (cs ! Suc j)" and ?sep = "fst (cs ! Suc j)"
  have "inners_merged M C C' pp ?p1 ?p2"
    using m(5) n1 n2 by (intro inners_mergedI [OF l _ _ _ key [OF j(1)] m(3,6) _ sizes(2,1) fam m(9)]) (use pk in auto)
  moreover have "parent_cut C C' pp j" unfolding parent_cut_def
    using n(1,2) m(4,7,8) by (intro exI [of _ n] exI [of _ n']) (simp add: inner_keeps_def)
  moreover have "fix_internal p pp (int i) ?ls ?rs (st T r C (pp # P) S N) = shrink_root pp (st T r C' (pp # P) S' N)"
    using go inner_no_left [OF s none(1)] inner_no_right [OF s none(2)] m(1) by simp
  ultimately show ?thesis using nb [OF Suc_lessD [OF j(1)] j(1)] j(2) m(2) by (intro step_merged [where mer = "inners_merged M"]) auto
qed

lemma fix_internal_st:
  assumes f: "inner_family M C p pp cs" and "pool_ok C P S N" and i: "i < length cs" "snd (cs ! i) = p"
    and u: "C p = Some (Internal u)" "tp_size u < internal_min_size M" "internal_min_size M \<le> Suc (tp_size u)"
    and M: "3 \<le> M" "M \<le> 509" and room: "room 4 T P"
  shows "step_result (inners_moved M) (inners_merged M) T r C P N p pp
    (fix_internal p pp (int i) (side (int i - 1) cs) (side (int i + 1) cs) (st T r C (pp # P) S N))"
proof -
  from f obtain n where "C pp = Some (Internal n)" "children_of n = cs" "node_fits (Internal n)" unfolding inner_family_def by blast
  then have s: "inner_site M T C P S N p pp cs i n u" using assms by (simp add: inner_site_def)
  consider (left) j where "i = Suc j" "spare_inner M C (snd (cs ! j))"
    | (right) "\<And>j. i = Suc j \<Longrightarrow> \<not> spare_inner M C (snd (cs ! j))" "Suc i < length cs" "spare_inner M C (snd (cs ! Suc i))"
    | (none) "\<And>j. i = Suc j \<Longrightarrow> \<not> spare_inner M C (snd (cs ! j))" "Suc i < length cs \<Longrightarrow> \<not> spare_inner M C (snd (cs ! Suc i))" by blast
  then show ?thesis by cases (use fix_internal_left [OF s] fix_internal_right [OF s] fix_internal_merge [OF s] in blast)+
qed

end
