(* ===== verification/BPlus_Removal.thy ===== *)
theory BPlus_Removal
  imports BPlus_Shrink
begin

text \<open>
  What borrowing and merging mean for the levels of the tower, and the climb of \<open>Remove\<close> by induction on the levels:
  it always ends in a tower over the same pages (\<open>shrink_ok\<close>), with the same bounds when no internal page has
  to borrow from its right sibling (\<open>shrink_done\<close>).
\<close>

section \<open>Editing the children of one node\<close>

lemma kids_nth_Suc: "Suc j < length cs \<Longrightarrow> kids (lo, p, cs) ! Suc j = apfst Some (cs ! Suc j)"
  by (cases "(lo, p, cs)" rule: kids.cases) auto

lemma kids_set_key: "kids (lo, p, cs[Suc j := (k, q)]) = (kids (lo, p, cs))[Suc j := (Some k, q)]"
  by (cases "(lo, p, cs)" rule: kids.cases) (auto simp: map_update)

lemma kids_remove: "kids (lo, p, remove_at (Suc j) cs) = remove_at (Suc j) (kids (lo, p, cs))"
  by (cases "(lo, p, cs)" rule: kids.cases) (auto simp: remove_at_def take_map drop_map)

text \<open>Two neighbours of a level, and the edits of their heads.\<close>

lemma heads_split:
  assumes "heads lv = A @ (b1, p1) # (b2, p2) # B"
  obtains U z1 z2 V where "lv = U @ (b1, p1, z1) # (b2, p2, z2) # V" and "heads U = A" and "heads V = B"
  using assms by (auto simp: map_eq_append_conv map_eq_Cons_conv)

lemma level_pair:
  assumes "concat (map kids (X @ (lo', pp, cs) # Y)) = heads lv" and "Suc j < length cs"
  obtains U b1 z1 z2 V where "lv = U @ (b1, snd (cs ! j), z1) # (Some (fst (cs ! Suc j)), snd (cs ! Suc j), z2) # V"
    and "\<forall>k z1' z2'. concat (map kids (X @ (lo', pp, cs[Suc j := (k, snd (cs ! Suc j))]) # Y)) =
      heads (U @ (b1, snd (cs ! j), z1') # (Some k, snd (cs ! Suc j), z2') # V)"
    and "\<forall>z1'. concat (map kids (X @ (lo', pp, remove_at (Suc j) cs) # Y)) = heads (U @ (b1, snd (cs ! j), z1') # V)"
proof -
  let ?K = "kids (lo', pp, cs)"
  define Z where "Z = take j ?K"
  define W where "W = drop (Suc (Suc j)) ?K"
  have len: "length ?K = length cs" by simp
  have "snd (?K ! j) = snd (cs ! j)"
    using nth_map [of j ?K snd] nth_map [of j cs snd] assms(2) by simp
  then obtain b1 where b1: "?K ! j = (b1, snd (cs ! j))" by (metis prod.collapse)
  have K: "?K = Z @ (b1, snd (cs ! j)) # (Some (fst (cs ! Suc j)), snd (cs ! Suc j)) # W"
  proof -
    have "?K = Z @ ?K ! j # ?K ! Suc j # W"
      unfolding Z_def W_def using assms(2) len by (simp add: id_take_nth_drop [symmetric] Cons_nth_drop_Suc)
    then show ?thesis using b1 kids_nth_Suc [OF assms(2), of lo' pp] by (simp add: apfst_def map_prod_def split: prod.splits)
  qed
  have Z: "length Z = j" using assms(2) by (simp add: Z_def)
  have "heads lv = (concat (map kids X) @ Z) @ (b1, snd (cs ! j)) # (Some (fst (cs ! Suc j)), snd (cs ! Suc j)) # W @ concat (map kids Y)"
    using assms(1) by (simp add: K)
  from heads_split [OF this] obtain U z1 z2 V where
    lv: "lv = U @ (b1, snd (cs ! j), z1) # (Some (fst (cs ! Suc j)), snd (cs ! Suc j), z2) # V"
    "heads U = concat (map kids X) @ Z" "heads V = W @ concat (map kids Y)" .
  have set: "?K[Suc j := (Some k, q)] = Z @ (b1, snd (cs ! j)) # (Some k, q) # W" for k q
    unfolding K using Z by (simp add: list_update_append)
  have rem: "remove_at (Suc j) ?K = Z @ (b1, snd (cs ! j)) # W"
    unfolding K remove_at_def using Z by simp
  show thesis
    by (rule that [OF lv(1)]) (simp_all add: kids_set_key kids_remove set rem lv(2,3))
qed

text \<open>A level in which the node \<open>pp\<close> may have one child too few.\<close>

definition short_level ::
  "contents \<Rightarrow> nat \<Rightarrow> head list \<Rightarrow> (int \<times> page_id) lnode list \<Rightarrow> (int \<times> page_id) lnode list list \<Rightarrow> page_id \<Rightarrow> page_id \<Rightarrow> bool" where
  "short_level C M H lv ups r pp \<longleftrightarrow>
     concat (map kids lv) = H \<and> tower C M (heads lv) ups r \<and>
     (\<forall>x \<in> set lv. inner C M x \<and> width_ok (if fst (snd x) = pp then least_width M ups - 1 else least_width M ups) M x)"

lemma parent_level:
  assumes "\<forall>x \<in> set (X @ (lo', pp, cs) # Y). inner C M x" and "tower C M (heads (X @ (lo', pp, cs) # Y)) ups r"
    and "inner C' M (lo', pp, cs')" and "parent_of C' pp = parent_of C pp"
    and "\<forall>x \<in> set (pids (X @ Y)) \<union> set (tower_pages ups). C' x = C x"
    and "\<forall>c \<in> set (concat (map child_ids (X @ Y))). parent_of C' c = parent_of C c"
  shows "\<forall>x \<in> set (X @ (lo', pp, cs') # Y). inner C' M x" and "tower C' M (heads (X @ (lo', pp, cs') # Y)) ups r"
proof -
  have "inner C' M x" if x: "x \<in> set (X @ Y)" for x
  proof (rule inner_others)
    show "inner C M x" using assms(1) x by (simp del: inner.simps)
    show "C' (fst (snd x)) = C (fst (snd x))" using assms(5) x by auto
    have "set (child_ids x) \<subseteq> set (concat (map child_ids (X @ Y)))" using x by auto
    then show "\<forall>c \<in> snd ` set (snd (snd x)). parent_of C' c = parent_of C c" using assms(6) by (simp only: set_map [symmetric]) (meson subsetD)
  qed
  then show "\<forall>x \<in> set (X @ (lo', pp, cs') # Y). inner C' M x" using assms(3) by (auto simp del: inner.simps)
  show "tower C' M (heads (X @ (lo', pp, cs') # Y)) ups r"
  proof (rule tower_frame [where C = C])
    show "tower C M (heads (X @ (lo', pp, cs') # Y)) ups r" using assms(2) by simp
    show "\<forall>x \<in> set (tower_pages ups). C' x = C x" using assms(5) by blast
    show "\<forall>c \<in> snd ` set (heads (X @ (lo', pp, cs') # Y)). parent_of C' c = parent_of C c"
    proof
      fix c assume "c \<in> snd ` set (heads (X @ (lo', pp, cs') # Y))"
      then have "c = pp \<or> c \<in> set (pids (X @ Y))" unfolding snd_set_heads by auto
      then show "parent_of C' c = parent_of C c" using assms(4,5) unfolding parent_of_def by (metis UnCI)
    qed
  qed
qed

text \<open>The parent of two neighbours, found in its level.\<close>

lemma parent_in_level:
  assumes "tower C M (heads lv) (lvp # ups) r" and "neighbours C pp j p1 p2" and "pp \<in> set (pids lvp)"
  obtains X lo' cs Y n where "lvp = X @ (lo', pp, cs) # Y" and "C pp = Some (Internal n)" and "children_of n = cs" and "tp_max n = M"
    and "Suc j < length cs" and "p1 = snd (cs ! j)" and "p2 = snd (cs ! Suc j)" and "\<forall>c \<in> snd ` set cs. parent_of C c = Some pp"
    and "concat (map kids (X @ (lo', pp, cs) # Y)) = heads lv" and "tower C M (heads (X @ (lo', pp, cs) # Y)) ups r"
    and "\<forall>x \<in> set (X @ (lo', pp, cs) # Y). inner C M x \<and> width_ok (least_width M ups) M x"
    and "set (map snd cs) \<subseteq> set (pids lv)"
proof -
  from assms(3) obtain lo' cs where "(lo', pp, cs) \<in> set lvp" by auto
  then obtain X Y where lvp: "lvp = X @ (lo', pp, cs) # Y" by (meson split_list)
  have t: "concat (map kids lvp) = heads lv" "level_ok C M (least_width M ups) lvp" "tower C M (heads lvp) ups r"
    using assms(1) by (simp_all add: tower_Cons)
  then have "inner C M (lo', pp, cs)" using lvp by (simp add: level_ok_def del: inner.simps)
  then obtain n where n: "C pp = Some (Internal n)" "children_of n = cs" "tp_max n = M" "\<forall>c \<in> snd ` set cs. parent_of C c = Some pp" by auto
  from assms(2) obtain m where m: "C pp = Some (Internal m)" "Suc j < tp_size m" "snd (children_of m ! j) = p1" "snd (children_of m ! Suc j) = p2"
    unfolding neighbours_def by blast
  then have "m = n" using n(1) by simp
  then have j: "Suc j < length cs" "p1 = snd (cs ! j)" "p2 = snd (cs ! Suc j)" using m n(2) by (metis length_items)+
  have "set (map snd cs) \<subseteq> set (pids lv)"
  proof -
    have "set (map snd (heads lv)) = set (concat (map child_ids lvp))" using snd_concat_kids [of lvp] t(1) by simp
    then show ?thesis unfolding snd_heads lvp by auto
  qed
  then show thesis using that [OF lvp n(1-3) j n(4) _ _ _] t unfolding lvp level_ok_def by blast
qed

lemma other_pages:
  assumes "distinct (tower_pages ((X @ (lo', pp, cs) # Y) # ups))"
    and "\<forall>x \<in> set (tower_pages ((X @ (lo', pp, cs) # Y) # ups)). x \<noteq> pp \<longrightarrow> C' x = C x"
  shows "\<forall>x \<in> set (pids (X @ Y)) \<union> set (tower_pages ups). C' x = C x"
proof -
  define A B U where "A = pids X" and "B = pids Y" and "U = tower_pages ups"
  then have e: "tower_pages ((X @ (lo', pp, cs) # Y) # ups) = A @ pp # B @ U" "pids (X @ Y) = A @ B" by simp_all
  show ?thesis using assms unfolding e U_def [symmetric] by auto
qed

lemma keyed_level:
  assumes t: "tower C M (heads lv) (lvp # ups) r" and nb: "neighbours C pp j p1 p2" and pk: "parent_keyed C C' pp j k" and pp: "pp \<in> set (pids lvp)"
    and d: "distinct (tower_pages (lvp # ups))" and same: "\<forall>x \<in> set (tower_pages (lvp # ups)). x \<noteq> pp \<longrightarrow> C' x = C x"
    and par: "\<forall>c \<in> set (pids lv). parent_of C' c = parent_of C c"
  obtains U b1 z1 k2 z2 V lvp' where "lv = U @ (b1, p1, z1) # (Some k2, p2, z2) # V" and "key_of C pp p2 k2" and "pids lvp' = pids lvp"
    and "\<forall>z1' z2'. tower C' M (heads (U @ (b1, p1, z1') # (Some k, p2, z2') # V)) (lvp' # ups) r"
proof -
  from parent_in_level [OF t nb pp] obtain X lo' cs Y n where
    f: "lvp = X @ (lo', pp, cs) # Y" "C pp = Some (Internal n)" "children_of n = cs" "tp_max n = M"
    "Suc j < length cs" "p1 = snd (cs ! j)" "p2 = snd (cs ! Suc j)" "\<forall>c \<in> snd ` set cs. parent_of C c = Some pp"
    "concat (map kids (X @ (lo', pp, cs) # Y)) = heads lv" "tower C M (heads (X @ (lo', pp, cs) # Y)) ups r"
    "\<forall>x \<in> set (X @ (lo', pp, cs) # Y). inner C M x \<and> width_ok (least_width M ups) M x" "set (map snd cs) \<subseteq> set (pids lv)" .
  let ?cs = "cs[Suc j := (k, snd (cs ! Suc j))]" and ?lvp = "X @ (lo', pp, cs[Suc j := (k, snd (cs ! Suc j))]) # Y"
  from pk f(2,3) obtain n' where n': "C' pp = Some (Internal n')" "children_of n' = ?cs" "tp_max n' = tp_max n" "tp_parent n' = tp_parent n"
    unfolding parent_keyed_def by auto
  have ids: "map snd ?cs = map snd cs" using f(5) by (simp add: map_update list_update_same_conv)
  have "set (concat (map child_ids (X @ Y))) \<subseteq> set (map snd (heads lv))"
    unfolding f(9) [symmetric] snd_concat_kids by auto
  then have kids: "\<forall>c \<in> set (concat (map child_ids (X @ Y))). parent_of C' c = parent_of C c" using par unfolding snd_heads by blast
  have "inner C' M (lo', pp, ?cs)"
  proof -
    have "parent_of C' c = Some pp" if "c \<in> snd ` set ?cs" for c
    proof -
      have "c \<in> set (map snd cs)" using that unfolding ids [symmetric] by simp
      then show ?thesis using f(8,12) par by (metis list.set_map subsetD)
    qed
    then show ?thesis using n' f(4) by simp
  qed
  moreover have "parent_of C' pp = parent_of C pp" using n'(1,4) f(2) by (simp add: parent_of_def)
  moreover have "\<forall>x \<in> set (pids (X @ Y)) \<union> set (tower_pages ups). C' x = C x" using other_pages d same unfolding f(1) by blast
  moreover have "\<forall>x \<in> set (X @ (lo', pp, cs) # Y). inner C M x" using f(11) by blast
  ultimately have up: "\<forall>x \<in> set ?lvp. inner C' M x" "tower C' M (heads ?lvp) ups r" using parent_level [OF _ f(10) _ _ _ kids] by blast+
  from level_pair [OF f(9,5)] obtain U b1 z1 z2 V where
    l: "lv = U @ (b1, snd (cs ! j), z1) # (Some (fst (cs ! Suc j)), snd (cs ! Suc j), z2) # V"
    "\<forall>k z1' z2'. concat (map kids (X @ (lo', pp, cs[Suc j := (k, snd (cs ! Suc j))]) # Y)) =
      heads (U @ (b1, snd (cs ! j), z1') # (Some k, snd (cs ! Suc j), z2') # V)"
    "\<forall>z1'. concat (map kids (X @ (lo', pp, remove_at (Suc j) cs) # Y)) = heads (U @ (b1, snd (cs ! j), z1') # V)" .
  have level: "level_ok C' M (least_width M ups) ?lvp" unfolding level_ok_def
  proof
    fix x assume x: "x \<in> set ?lvp"
    have "width_ok (least_width M ups) M x"
    proof (cases "x \<in> set X \<union> set Y")
      case False
      then have xx: "x = (lo', pp, ?cs)" using x by auto
      have "width_ok (least_width M ups) M (lo', pp, cs)" using f(11) by auto
      then show ?thesis unfolding xx by simp
    qed (use f(11) in auto)
    then show "inner C' M x \<and> width_ok (least_width M ups) M x" using up(1) x by blast
  qed
  have "tower C' M (heads (U @ (b1, p1, z1') # (Some k, p2, z2') # V)) (?lvp # ups) r" for z1' z2'
    unfolding tower_Cons f(6,7) by (intro conjI l(2) [rule_format] up(2) level)
  moreover have "key_of C pp p2 (fst (cs ! Suc j))" unfolding key_of_def using f(2,3,5,7) by (intro exI [of _ n]) simp
  ultimately show thesis using that [OF l(1) [folded f(6,7)], of ?lvp] f(1) by simp
qed

lemma remove_at_ids: "set (map snd (remove_at i cs)) \<subseteq> set (map snd cs)"
  by (auto simp: remove_at_def dest: in_set_takeD in_set_dropD)

lemma cut_level:
  assumes t: "tower C M (heads lv) (lvp # ups) r" and nb: "neighbours C pp j p1 p2" and pc: "parent_cut C C' pp j" and pp: "pp \<in> set (pids lvp)"
    and d: "distinct (pids lv)" "distinct (tower_pages (lvp # ups))" and same: "\<forall>x \<in> set (tower_pages (lvp # ups)). x \<noteq> pp \<longrightarrow> C' x = C x"
    and par: "\<forall>c \<in> set (pids lv). c \<noteq> p2 \<longrightarrow> parent_of C' c = parent_of C c"
  obtains U b1 z1 k2 z2 V lvp' where "lv = U @ (b1, p1, z1) # (Some k2, p2, z2) # V" and "key_of C pp p2 k2" and "pids lvp' = pids lvp"
    and "\<forall>z1'. short_level C' M (heads (U @ (b1, p1, z1') # V)) lvp' ups r pp"
proof -
  from parent_in_level [OF t nb pp] obtain X lo' cs Y n where
    f: "lvp = X @ (lo', pp, cs) # Y" "C pp = Some (Internal n)" "children_of n = cs" "tp_max n = M"
    "Suc j < length cs" "p1 = snd (cs ! j)" "p2 = snd (cs ! Suc j)" "\<forall>c \<in> snd ` set cs. parent_of C c = Some pp"
    "concat (map kids (X @ (lo', pp, cs) # Y)) = heads lv" "tower C M (heads (X @ (lo', pp, cs) # Y)) ups r"
    "\<forall>x \<in> set (X @ (lo', pp, cs) # Y). inner C M x \<and> width_ok (least_width M ups) M x" "set (map snd cs) \<subseteq> set (pids lv)" .
  let ?cs = "remove_at (Suc j) cs" and ?lvp = "X @ (lo', pp, remove_at (Suc j) cs) # Y"
  from pc f(2,3) obtain n' where n': "C' pp = Some (Internal n')" "children_of n' = ?cs" "tp_max n' = tp_max n" "tp_parent n' = tp_parent n"
    unfolding parent_cut_def by auto
  have dk: "distinct (concat (map child_ids (X @ (lo', pp, cs) # Y)))"
    using d(1) unfolding snd_heads [symmetric] f(9) [symmetric] snd_concat_kids .
  have gone: "p2 \<notin> set (map snd ?cs)"
  proof -
    have "map snd ?cs = remove_at (Suc j) (map snd cs)" by (simp add: remove_at_def take_map drop_map)
    moreover have "distinct (map snd cs)" using dk by simp
    then have "map snd cs ! Suc j \<notin> set (remove_at (Suc j) (map snd cs))"
      using f(5) id_take_nth_drop [of "Suc j" "map snd cs"] unfolding remove_at_def
      by (metis distinct.simps(2) distinct_append length_map not_distinct_conv_prefix set_append Un_iff disjoint_insert(1) list.set(2))
    ultimately show ?thesis using f(5,7) by simp
  qed
  have below_ids: "set (concat (map child_ids (X @ Y))) \<subseteq> set (pids lv)"
    unfolding snd_heads [symmetric] f(9) [symmetric] snd_concat_kids by auto
  have kids: "\<forall>c \<in> set (concat (map child_ids (X @ Y))). parent_of C' c = parent_of C c"
  proof
    fix c assume c: "c \<in> set (concat (map child_ids (X @ Y)))"
    then obtain y where y: "y \<in> set X \<union> set Y" "c \<in> set (child_ids y)" by auto
    have "c \<notin> set (map snd cs)" using distinct_neighbours [OF dk y] by simp
    moreover have "p2 \<in> set (map snd cs)" using f(5,7) by simp
    ultimately have "c \<noteq> p2" by metis
    then show "parent_of C' c = parent_of C c" using bspec [OF par subsetD [OF below_ids c]] by simp
  qed
  have "inner C' M (lo', pp, ?cs)"
  proof -
    have "parent_of C' c = Some pp" if "c \<in> snd ` set ?cs" for c
    proof -
      have "c \<in> set (map snd cs)" "c \<noteq> p2" using that gone remove_at_ids [of "Suc j" cs] by auto
      then show ?thesis using f(8,12) par by (metis list.set_map subsetD)
    qed
    then show ?thesis using n' f(4) by simp
  qed
  moreover have "parent_of C' pp = parent_of C pp" using n'(1,4) f(2) by (simp add: parent_of_def)
  moreover have "\<forall>x \<in> set (pids (X @ Y)) \<union> set (tower_pages ups). C' x = C x" using other_pages d(2) same unfolding f(1) by blast
  moreover have "\<forall>x \<in> set (X @ (lo', pp, cs) # Y). inner C M x" using f(11) by blast
  ultimately have up: "\<forall>x \<in> set ?lvp. inner C' M x" "tower C' M (heads ?lvp) ups r" using parent_level [OF _ f(10) _ _ _ kids] by blast+
  from level_pair [OF f(9,5)] obtain U b1 z1 z2 V where
    l: "lv = U @ (b1, snd (cs ! j), z1) # (Some (fst (cs ! Suc j)), snd (cs ! Suc j), z2) # V"
    "\<forall>k z1' z2'. concat (map kids (X @ (lo', pp, cs[Suc j := (k, snd (cs ! Suc j))]) # Y)) =
      heads (U @ (b1, snd (cs ! j), z1') # (Some k, snd (cs ! Suc j), z2') # V)"
    "\<forall>z1'. concat (map kids (X @ (lo', pp, remove_at (Suc j) cs) # Y)) = heads (U @ (b1, snd (cs ! j), z1') # V)" .
  have "short_level C' M (heads (U @ (b1, p1, z1') # V)) ?lvp ups r pp" for z1'
    unfolding short_level_def f(6)
  proof (intro conjI ballI)
    show "concat (map kids ?lvp) = heads (U @ (b1, snd (cs ! j), z1') # V)" by (rule l(3) [rule_format])
    show "tower C' M (heads ?lvp) ups r" by (rule up(2))
    fix x assume x: "x \<in> set ?lvp"
    then show "inner C' M x" using up(1) by blast
    have "length ?cs = length cs - 1" using f(5) by (simp add: remove_at_def)
    then show "width_ok (if fst (snd x) = pp then least_width M ups - 1 else least_width M ups) M x"
    proof (cases "x \<in> set X \<union> set Y")
      case True
      then have "width_ok (least_width M ups) M x" using f(11) by auto
      then show ?thesis by (rule width_mono) simp
    next
      case False
      then have xx: "x = (lo', pp, ?cs)" using x by auto
      have "width_ok (least_width M ups) M (lo', pp, cs)" using f(11) by auto
      then show ?thesis using \<open>length ?cs = length cs - 1\<close> unfolding xx by (simp, linarith)
    qed
  qed
  moreover have "key_of C pp p2 (fst (cs ! Suc j))" unfolding key_of_def using f(2,3,5,7) by (intro exI [of _ n]) simp
  ultimately show thesis using that [OF l(1) [folded f(6,7)], of ?lvp] f(1) by simp
qed

end
