(* ===== verification/BPlus_Repair.thy ===== *)
theory BPlus_Repair
  imports BPlus_Removal
begin

text \<open>
  The climb of \<open>Remove\<close> by induction on the levels: from a page that has lost a child it always ends in a tower
  over the same pages (\<open>shrink_ok\<close>), and with the same bounds when no internal page has to borrow from its right
  sibling.
\<close>

section \<open>Frames\<close>

lemma family_frame_trans:
  assumes "family_frame C C' P1 A1" and "family_frame C' C'' P2 A2"
    and "P1 \<subseteq> Q" and "A1 \<subseteq> A" and "P2 \<subseteq> Q" and "A2 \<subseteq> Q" and "A \<inter> Q = {}"
  shows "family_frame C C'' Q A"
  unfolding family_frame_def
proof (intro conjI ballI allI impI)
  fix x assume x: "x \<in> A"
  then have "x \<notin> P2 \<union> A2" "x \<notin> P1" using assms(3,5-7) by blast+
  then have "C'' x = C' x" "x \<notin> A1 \<Longrightarrow> C' x = C x" using assms(1,2) unfolding family_frame_def by blast+
  then show "same_entries (C x) (C'' x)" using assms(1) unfolding family_frame_def by (cases "x \<in> A1") auto
next
  fix x assume "x \<notin> Q \<union> A"
  then have "x \<notin> P1 \<union> A1" "x \<notin> P2 \<union> A2" using assms(3-6) by blast+
  then show "C'' x = C x" using assms(1,2) unfolding family_frame_def by metis
qed

lemma family_frame_mono:
  assumes "family_frame C C' P1 A1" and "P1 \<subseteq> Q" and "A1 \<subseteq> A" and "A \<inter> Q = {}"
  shows "family_frame C C' Q A"
proof -
  have "family_frame C' C' {} {}" by (simp add: family_frame_def)
  from family_frame_trans [OF assms(1) this assms(2,3) _ _ assms(4)] show ?thesis by simp
qed

text \<open>A level with other lower bounds.\<close>

definition rebound :: "head list \<Rightarrow> 'a lnode list \<Rightarrow> 'a lnode list" where
  "rebound H lv = map2 (\<lambda>h x. (fst h, snd x)) H lv"

lemma rebound_heads: "map snd H = pids lv \<Longrightarrow> heads (rebound H lv) = H"
proof (induction H arbitrary: lv)
  case (Cons h H)
  then obtain x lv' where "lv = x # lv'" by (cases lv) auto
  then show ?case using Cons by (simp add: rebound_def prod_eq_iff)
qed (simp add: rebound_def)

lemma rebound_pages: "map snd H = pids lv \<Longrightarrow> map snd (rebound H lv) = map snd lv"
proof (induction H arbitrary: lv)
  case (Cons h H)
  then obtain x lv' where "lv = x # lv'" by (cases lv) auto
  then show ?case using Cons by (simp add: rebound_def)
qed (simp add: rebound_def)

lemma rebound_same: "rebound (heads lv) lv = lv"
  by (induction lv) (auto simp: rebound_def)

lemma map_snd_eqD:
  assumes "map snd xs = map snd ys"
  shows "map (\<lambda>x. f (snd x)) xs = map (\<lambda>x. f (snd x)) ys"
proof -
  have "map f (map snd xs) = map f (map snd ys)" using assms by simp
  then show ?thesis by (simp add: comp_def)
qed

text \<open>The pages of two neighbours of a level are changed and those of their children; the rest of the level stays.\<close>

lemma around_neighbours:
  assumes H: "concat (map kids (U @ (b1, p1, cs1) # (b2, p2, cs2) # V)) = H"
    and d: "distinct (map snd H @ pids (U @ (b1, p1, cs1) # (b2, p2, cs2) # V) @ W)" and "pp \<in> set W"
    and f: "family_frame C C' {p1, p2, pp} (snd ` set cs1 \<union> snd ` set cs2)"
  shows "\<forall>y \<in> set U \<union> set V. C' (fst (snd y)) = C (fst (snd y)) \<and> (\<forall>c \<in> set (child_ids y). C' c = C c)"
    and "\<forall>x \<in> set W. x \<noteq> pp \<longrightarrow> C' x = C x"
proof -
  have ids: "map snd H = concat (map child_ids U) @ map snd cs1 @ map snd cs2 @ concat (map child_ids V)"
    using H snd_concat_kids [of "U @ (b1, p1, cs1) # (b2, p2, cs2) # V"] by simp
  define A1 A2 AU AV PU PV where "A1 = map snd cs1" and "A2 = map snd cs2" and "AU = concat (map child_ids U)" and "AV = concat (map child_ids V)"
    and "PU = pids U" and "PV = pids V"
  have d': "distinct ((AU @ A1 @ A2 @ AV) @ (PU @ p1 # p2 # PV) @ W)"
    using d unfolding ids A1_def A2_def AU_def AV_def PU_def PV_def by simp
  have same: "C' x = C x" if "x \<noteq> p1" "x \<noteq> p2" "x \<noteq> pp" "x \<notin> set A1" "x \<notin> set A2" for x
    using f that unfolding family_frame_def A1_def A2_def by auto
  have rest: "C' x = C x" if "x \<in> set AU \<union> set AV \<union> set PU \<union> set PV" for x
    by (rule same) (use d' that assms(3) in auto)
  show "\<forall>y \<in> set U \<union> set V. C' (fst (snd y)) = C (fst (snd y)) \<and> (\<forall>c \<in> set (child_ids y). C' c = C c)"
  proof (intro ballI conjI)
    fix y assume y: "y \<in> set U \<union> set V"
    then have "fst (snd y) \<in> set PU \<union> set PV" unfolding PU_def PV_def by auto
    then show "C' (fst (snd y)) = C (fst (snd y))" by (intro rest) blast
    fix c assume "c \<in> set (child_ids y)"
    then have "c \<in> set AU \<union> set AV" using y unfolding AU_def AV_def by auto
    then show "C' c = C c" by (intro rest) blast
  qed
  show "\<forall>x \<in> set W. x \<noteq> pp \<longrightarrow> C' x = C x"
    by (intro ballI impI same) (use d' in auto)
qed

section \<open>The end of the climb\<close>

text \<open>What the loop does after the repair of one page.\<close>

definition go_on :: "(page_id option, BPlusTree) outcome \<Rightarrow> (unit, BPlusTree) outcome option" where
  "go_on res =
     (case res of
        (Inl e, t) \<Rightarrow> Some (Inl e, t)
      | (Inr None, t) \<Rightarrow> Some (Inr (), t)
      | (Inr (Some q), t) \<Rightarrow> remove_up q t)"

lemma go_on_simps [simp]:
  "go_on (Inr None, t) = Some (Inr (), t)" "go_on (Inr (Some q), t) = remove_up q t"
  by (simp_all add: go_on_def)

lemma remove_up_go_on: "remove_up p t = go_on (fix_underflow p t)"
  by (subst remove_up.simps) (simp add: go_on_def)

text \<open>
  The result of the climb over the heads \<open>H\<close> of the level below: a tower over the same pages, with the same bounds
  if \<open>exact\<close>; no page is allocated and no pin is left.
\<close>

definition remove_result ::
  "bool \<Rightarrow> BPlusTree \<Rightarrow> contents \<Rightarrow> nat \<Rightarrow> head list \<Rightarrow> (int \<times> page_id) lnode list list \<Rightarrow> page_id list \<Rightarrow> page_id \<Rightarrow>
   (unit, BPlusTree) outcome option \<Rightarrow> bool" where
  "remove_result exact T C M H ups P N res \<longleftrightarrow>
     (\<exists>r' C' S' H' ups'. res = Some (Inr (), st T r' C' P S' N) \<and> tower C' M H' ups' r' \<and> map snd H' = map snd H \<and>
        (exact \<longrightarrow> H' = H) \<and> pool_ok C' P S' N \<and> distinct (tower_pages ups') \<and> set (tower_pages ups') \<subseteq> set (tower_pages ups) \<and>
        family_frame C C' (set (tower_pages ups)) (snd ` set H))"

lemma remove_resultI:
  "res = Some (Inr (), st T r' C' P S' N) \<Longrightarrow> tower C' M H' ups' r' \<Longrightarrow> map snd H' = map snd H \<Longrightarrow> (exact \<Longrightarrow> H' = H) \<Longrightarrow>
   pool_ok C' P S' N \<Longrightarrow> distinct (tower_pages ups') \<Longrightarrow> set (tower_pages ups') \<subseteq> set (tower_pages ups) \<Longrightarrow>
   family_frame C C' (set (tower_pages ups)) (snd ` set H) \<Longrightarrow> remove_result exact T C M H ups P N res"
  unfolding remove_result_def by blast

lemma shrink_to_child:
  assumes "C pp = Some (Internal n)" and "tp_parent n = INVALID_PAGE_ID" and "children_of n = [(k, c)]" and "node_fits (Internal n)"
    and "C c = Some x" and "node_fits x" and "c \<noteq> pp" and pool: "pool_ok C (pp # P) S N" and room: "room 2 T P"
  obtains C' S' where "shrink_root pp (st T r C (pp # P) S N) = (Inr None, st T c C' P S' N)" and "pool_ok C' P S' N"
    and "C' c = Some (SetParentPageId INVALID_PAGE_ID x)" and "\<forall>v. v \<noteq> c \<longrightarrow> v \<noteq> pp \<longrightarrow> C' v = C v"
proof -
  have size: "tp_size n = 1" using arg_cong [OF assms(3), of length] by simp
  then have child: "int_ValueAt n 0 = c" using assms(3) by (simp add: int_ValueAt_def items_def)
  let ?n = "n\<lparr>tp_size := 0\<rparr>" and ?x = "SetParentPageId INVALID_PAGE_ID x"
  let ?C = "C(pp \<mapsto> Internal ?n, c \<mapsto> ?x)" and ?S = "insert pp (insert c (S - {pp}))"
  have "pool_ok ?C P ?S N" using pool assms(1,5) by (auto simp: pool_ok_def)
  from delete_page_cases [OF this, of pp T c] obtain C' where
    C': "delete_page pp (st T c ?C P ?S N) = st T c C' P ?S N" "\<forall>v. v \<noteq> pp \<longrightarrow> C' v = ?C v" "pool_ok C' P ?S N" .
  have "c \<in> set (pp # P) \<or> card (set (pp # P)) < capacity (bpm T)" using room_cards(2) [OF room] by simp
  moreover have "node_fits (Internal ?n)" using assms(4) size by (simp add: PAGE_SIZE_def)
  ultimately have "shrink_root pp (st T r C (pp # P) S N) = (Inr None, st T c C' P ?S N)"
    unfolding shrink_root_def using assms(1,2,5-7) size child C'(1)
    by (simp add: exec_simps int_RemoveAndReturnOnlyChild_def del: node_fits.simps)
  then show thesis using that [of C' ?S] C'(2,3) assms(7) by auto
qed

lemma shrink_root_done:
  assumes "C pp = Some (Internal n)" and "pp \<noteq> INVALID_PAGE_ID"
    and "if tp_parent n = INVALID_PAGE_ID then tp_size n \<noteq> 1 else internal_min_size (tp_max n) \<le> tp_size n"
  shows "shrink_root pp (st T r C (pp # P) S N) = (Inr None, st T r C P (insert pp S) N)"
  using assms by (auto simp: shrink_root_def exec_simps split: if_splits)

lemma shrink_root_short:
  assumes "C pp = Some (Internal n)" and "tp_parent n \<noteq> INVALID_PAGE_ID" and "tp_size n < internal_min_size (tp_max n)"
  shows "shrink_root pp (st T r C (pp # P) S N) = (Inr (Some pp), st T r C P (insert pp S) N)"
  using assms by (simp add: shrink_root_def exec_simps)

text \<open>The climb ends at a page that is wide enough, or at the root.\<close>

lemma short_levelD:
  assumes "short_level C M H lv ups r pp"
  shows "concat (map kids lv) = H" and "tower C M (heads lv) ups r"
    and "\<forall>x \<in> set lv. inner C M x \<and> width_ok (if fst (snd x) = pp then least_width M ups - 1 else least_width M ups) M x"
  using assms by (simp_all add: short_level_def)

lemma short_level_page:
  assumes "short_level C M H lv ups r pp" and "pp \<in> set (pids lv)"
  obtains X lo cs Y n where "lv = X @ (lo, pp, cs) # Y" and "C pp = Some (Internal n)" and "children_of n = cs" and "tp_max n = M"
    and "tp_size n = length cs" and "tp_size n \<le> M" and "least_width M ups \<le> Suc (tp_size n)" and "\<forall>c \<in> set (map snd cs). parent_of C c = Some pp"
    and "set (map snd cs) \<subseteq> set (map snd H)"
proof -
  from assms(2) obtain lo cs where x: "(lo, pp, cs) \<in> set lv" by auto
  then obtain X Y where lv: "lv = X @ (lo, pp, cs) # Y" by (meson split_list)
  have "inner C M (lo, pp, cs)" "width_ok (least_width M ups - 1) M (lo, pp, cs)" using short_levelD(3) [OF assms(1)] x by (auto simp del: inner.simps)
  then obtain n where n: "C pp = Some (Internal n)" "children_of n = cs" "tp_max n = M" "\<forall>c \<in> set (map snd cs). parent_of C c = Some pp"
    "least_width M ups - 1 \<le> length cs" "length cs \<le> M" by auto
  have "tp_size n = length cs" using n(2) by (metis length_items)
  moreover have "set (map snd cs) \<subseteq> set (map snd H)"
  proof -
    have ids: "map snd H = concat (map child_ids lv)" using snd_concat_kids [of lv] unfolding short_levelD(1) [OF assms(1)] .
    show ?thesis unfolding ids lv by auto
  qed
  ultimately show thesis using that [OF lv n(1-3)] n(4-6) by simp
qed

lemma shrink_done:
  assumes lv: "short_level C M H lv ups r pp" and pp: "pp \<in> set (pids lv)" and pool: "pool_ok C (pp # P) S N"
    and d: "distinct (map snd H @ tower_pages (lv # ups))" and fits: "\<forall>x \<in> set (map snd H). fits C x" and room: "room 2 T P"
    and M: "3 \<le> M" "M \<le> 509" and fin: "ups = [] \<or> level_ok C M (least_width M ups) lv"
  shows "remove_result exact T C M H (lv # ups) P N (go_on (shrink_root pp (st T r C (pp # P) S N)))"
proof -
  from short_level_page [OF lv pp] obtain X lo cs Y n where
    n: "lv = X @ (lo, pp, cs) # Y" "C pp = Some (Internal n)" "children_of n = cs" "tp_max n = M" "tp_size n = length cs" "tp_size n \<le> M"
    "least_width M ups \<le> Suc (tp_size n)" "\<forall>c \<in> set (map snd cs). parent_of C c = Some pp" "set (map snd cs) \<subseteq> set (map snd H)" .
  note l = short_levelD [OF lv]
  have valid: "pp \<noteq> INVALID_PAGE_ID" using pool_ok_valid [OF pool n(2)] by simp
  have par: "parent_of C pp = Some (tp_parent n)" using n(2) by (simp add: parent_of_def)
  have pool': "pool_ok C P (insert pp S) N" using pool_ok_unpin [OF pool] .
  show ?thesis
  proof (cases "ups = [] \<and> length cs = 1")
    case True
    then have top: "X = []" "Y = []" "pp = r" "lo = None" and root: "tp_parent n = INVALID_PAGE_ID"
      using l(2) top_level_single [of C M X "(lo, pp, cs)" Y r] par unfolding n(1) by auto
    from True obtain k c where cs: "cs = [(k, c)]" by (cases cs) auto
    have H: "H = [(None, c)]" using l(1) top cs n(1) by simp
    obtain x where x: "C c = Some x" "node_fits x" using fits H by (auto simp: fits_def)
    have "c \<noteq> pp" using d H unfolding n(1) by auto
    moreover have "node_fits (Internal n)" using n(6) M(2) by (simp add: PAGE_SIZE_def)
    ultimately obtain C' S' where s: "shrink_root pp (st T r C (pp # P) S N) = (Inr None, st T c C' P S' N)" "pool_ok C' P S' N"
      "C' c = Some (SetParentPageId INVALID_PAGE_ID x)" "\<forall>v. v \<noteq> c \<longrightarrow> v \<noteq> pp \<longrightarrow> C' v = C v"
      using shrink_to_child [OF n(2) root n(3) [unfolded cs] _ x _ pool room, of r] by blast
    show ?thesis
    proof (rule remove_resultI)
      show "go_on (shrink_root pp (st T r C (pp # P) S N)) = Some (Inr (), st T c C' P S' N)" using s(1) by simp
      show "tower C' M H [] c" using s(3) H by (simp add: parent_of_def)
      show "family_frame C C' (set (tower_pages (lv # ups))) (snd ` set H)"
        unfolding family_frame_def using s(3,4) x(1) H n(1) by auto
    qed (use s(2) in simp_all)
  next
    case False
    have level: "level_ok C M (least_width M ups) lv"
    proof (cases "ups = []")
      case True
      then have "X = []" "Y = []" using l(2) top_level_single [of C M X "(lo, pp, cs)" Y r] unfolding n(1) by auto
      then show ?thesis using l(3) n(5-7) False True unfolding level_ok_def n(1) by (auto simp: least_width_def)
    qed (use fin in simp)
    then have tower: "tower C M H (lv # ups) r" using l(1,2) by (simp add: tower_Cons)
    have "least_width M ups \<le> tp_size n" using level_ok_width [OF level] n(1,5) by auto
    moreover have "if ups = [] then tp_parent n = INVALID_PAGE_ID else tp_parent n \<noteq> INVALID_PAGE_ID"
    proof (cases ups)
      case Nil
      then show ?thesis using l(2) par unfolding n(1) by (cases X) (auto simp: append_eq_Cons_conv)
    next
      case (Cons lvp ups')
      have "tower C M (heads X @ (lo, pp) # heads Y) (lvp # ups') r" using l(2) unfolding n(1) Cons by simp
      from parent_found [OF this] obtain q nq where "C q = Some (Internal nq)" "parent_of C pp = Some q" by metis
      then show ?thesis using par pool_ok_valid [OF pool, of q] Cons by simp
    qed
    ultimately have big: "if tp_parent n = INVALID_PAGE_ID then tp_size n \<noteq> 1 else internal_min_size (tp_max n) \<le> tp_size n"
      using False n(4,5) by (auto simp: least_width_def split: if_splits)
    have "shrink_root pp (st T r C (pp # P) S N) = (Inr None, st T r C P (insert pp S) N)"
      by (rule shrink_root_done [where C = C and pp = pp and n = n]) (rule n(2) valid big)+
    then have go: "go_on (shrink_root pp (st T r C (pp # P) S N)) = Some (Inr (), st T r C P (insert pp S) N)" by simp
    have "distinct (tower_pages (lv # ups))" using d unfolding distinct_append by blast
    then show ?thesis using pool' by (intro remove_resultI [OF go tower]) (simp_all add: family_frame_def)
  qed
qed

section \<open>One step of the climb\<close>

lemma child_in_level:
  assumes "short_level C M H lv ups r p" and "distinct (map snd H)" and "c \<in> set (pids lv)"
  obtains m where "C c = Some (Internal m)" and "tp_max m = M" and "tp_size m \<le> M" and "c \<noteq> p \<longrightarrow> least_width M ups \<le> tp_size m"
    and "distinct (map snd (children_of m))" and "\<forall>x \<in> snd ` set (children_of m). parent_of C x = Some c \<and> x \<in> set (map snd H)"
proof -
  from assms(3) obtain y where y: "y \<in> set lv" "c = fst (snd y)" by auto
  obtain b ks where yb: "y = (b, c, ks)" using y(2) by (cases y) auto
  have w: "inner C M (b, c, ks)" "width_ok (if c = p then least_width M ups - 1 else least_width M ups) M (b, c, ks)"
    using short_levelD(3) [OF assms(1)] y(1) unfolding yb by (fastforce simp del: inner.simps width_ok.simps)+
  then obtain m where m: "C c = Some (Internal m)" "children_of m = ks" "tp_max m = M" "\<forall>x \<in> snd ` set ks. parent_of C x = Some c" by auto
  have size: "tp_size m = length ks" using m(2) by (metis length_items)
  have ids: "map snd H = concat (map child_ids lv)" using snd_concat_kids [of lv] unfolding short_levelD(1) [OF assms(1)] .
  obtain X Y where lv: "lv = X @ y # Y" using y(1) by (meson split_list)
  then have "map snd H = concat (map child_ids X) @ map snd ks @ concat (map child_ids Y)" unfolding ids yb by simp
  then have "distinct (map snd ks)" "set (map snd ks) \<subseteq> set (map snd H)" using assms(2) by (simp del: set_map, auto simp del: set_map)
  then show thesis using that [OF m(1,3)] m(2,4) size w(2) by (auto split: if_splits)
qed

lemma short_family:
  assumes s: "short_level C M H lv (lvp # ups) r p" and p: "p \<in> set (pids lv)"
    and d: "distinct (map snd H @ tower_pages (lv # lvp # ups))" and fits: "\<forall>x \<in> set (map snd H). fits C x" and M: "3 \<le> M" "M \<le> 509"
  obtains pp n i where "parent_of C p = Some pp" and "C pp = Some (Internal n)" and "pp \<in> set (pids lvp)" and "i < tp_size n"
    and "snd (children_of n ! i) = p" and "distinct (map snd (children_of n))" and "inner_family M C p pp (children_of n)"
proof -
  note l = short_levelD [OF s]
  from p obtain X lo cs Y where lv: "lv = X @ (lo, p, cs) # Y" by (auto dest!: split_list)
  have "tower C M (heads X @ (lo, p) # heads Y) (lvp # ups) r" using l(2) unfolding lv by simp
  from parent_found [OF this] obtain X' lo' pp Y' a k b n where
    f: "lvp = X' @ (lo', pp, a @ (k, p) # b) # Y'" "C pp = Some (Internal n)" "children_of n = a @ (k, p) # b" "tp_max n = M" "parent_of C p = Some pp" .
  let ?cs = "children_of n"
  have up: "concat (map kids lvp) = heads lv" "level_ok C M (least_width M ups) lvp" using l(2) by (simp_all add: tower_Cons)
  have w: "least_width M ups \<le> length ?cs" "length ?cs \<le> M" using level_ok_width [OF up(2), of lo' pp ?cs] f(1) unfolding f(3) by auto
  have two: "2 \<le> internal_min_size M" using M(1) by (simp add: internal_min_size_def)
  define A B W where "A = set (map snd H)" and "B = set (pids lv)" and "W = tower_pages (lvp # ups)"
  have dd: "A \<inter> B = {}" "A \<inter> set W = {}" "B \<inter> set W = {}" "distinct (pids lv)" "distinct (map snd H)"
  proof -
    have "distinct (map snd H @ pids lv @ W)" using d unfolding W_def by (simp only: list.map concat.simps)
    then show "A \<inter> B = {}" "A \<inter> set W = {}" "B \<inter> set W = {}" "distinct (pids lv)" "distinct (map snd H)"
      unfolding distinct_append set_append A_def B_def by blast+
  qed
  have ids: "pids lv = concat (map child_ids lvp)" using snd_concat_kids [of lvp] unfolding up(1) snd_heads .
  have sub: "set (map snd ?cs) \<subseteq> B" unfolding B_def ids f(1,3) by auto
  have dcs: "distinct (map snd ?cs)" using dd(4) unfolding ids f(1,3) by auto
  have ppW: "pp \<in> set W" "pp \<in> set (pids lvp)" unfolding W_def f(1) by simp_all
  have "inner_family M C p pp ?cs" unfolding inner_family_def
  proof (intro conjI ballI)
    have "node_fits (Internal n)" using w(2) M(2) length_items [of "child_array n" "tp_size n"] by (simp add: PAGE_SIZE_def)
    then show "\<exists>n'. C pp = Some (Internal n') \<and> children_of n' = ?cs \<and> node_fits (Internal n')" using f(2) by blast
    show "2 \<le> length ?cs" using w(1) two by (auto simp: least_width_def split: if_splits)
    show "pp \<notin> set (map snd ?cs)" using sub dd(3) ppW(1) by blast
    fix c assume c: "c \<in> set (map snd ?cs)"
    then have "c \<in> set (pids lv)" using sub unfolding B_def by blast
    from child_in_level [OF s dd(5) this] obtain m where
      m: "C c = Some (Internal m)" "tp_max m = M" "tp_size m \<le> M" "c \<noteq> p \<longrightarrow> least_width M (lvp # ups) \<le> tp_size m"
      "distinct (map snd (children_of m))" "\<forall>x \<in> snd ` set (children_of m). parent_of C x = Some c \<and> x \<in> set (map snd H)" .
    have "fits C x \<and> parent_of C x = Some c \<and> x \<noteq> pp \<and> x \<notin> set (map snd ?cs)" if "x \<in> snd ` set (children_of m)" for x
    proof -
      have x: "parent_of C x = Some c" "x \<in> A" using m(6) that unfolding A_def by blast+
      then show ?thesis using fits dd(1,2) sub ppW(1) unfolding A_def by blast
    qed
    then show "\<exists>m. C c = Some (Internal m) \<and> tp_max m = M \<and> tp_size m \<le> M \<and> (c \<noteq> p \<longrightarrow> internal_min_size M \<le> tp_size m) \<and>
        distinct (map snd (children_of m)) \<and> (\<forall>x \<in> snd ` set (children_of m). fits C x \<and> parent_of C x = Some c \<and> x \<noteq> pp \<and> x \<notin> set (map snd ?cs))"
      using m(1-5) by (intro exI [of _ m]) (simp add: least_width_def)
  qed (rule f(5) dcs)+
  moreover have "tp_size n = length (a @ (k, p) # b)" using f(3) by (metis length_items)
  then have "length a < tp_size n" "snd (?cs ! length a) = p" unfolding f(3) by simp_all
  ultimately show thesis using that [OF f(5,2) ppW(2) _ _ dcs] by blast
qed

text \<open>Siblings of a short page have nothing to borrow from it.\<close>

lemma no_loan_neighbour:
  assumes "neighbours C pp j p1 p2" and "C p2 = Some (Internal u)" and "tp_size u < internal_min_size (tp_max u)"
    and "C pp = Some (Internal n)" and "distinct (map snd (children_of n))" and "parent_of C p1 = Some pp"
  shows "no_loan C p1"
  unfolding no_loan_def
proof (intro allI impI)
  fix q n' i l
  assume a: "parent_of C p1 = Some q" "C q = Some (Internal n')" "Suc i < tp_size n'" "snd (children_of n' ! i) = p1"
    "C (snd (children_of n' ! Suc i)) = Some (Internal l)" "internal_min_size (tp_max l) < tp_size l"
  have same: "q = pp" "n' = n" using a(1,2) assms(4,6) by simp_all
  from assms(1,4) have j: "Suc j < tp_size n" "snd (children_of n ! j) = p1" "snd (children_of n ! Suc j) = p2" unfolding neighbours_def by auto
  have "j = i"
  proof -
    have "map snd (children_of n) ! j = map snd (children_of n) ! i" using j a(3,4) same by simp
    then show ?thesis using nth_eq_iff_index_eq [OF assms(5), of j i] j(1) a(3) same by simp
  qed
  then show "\<exists>j m. i = Suc j \<and> C (snd (children_of n' ! j)) = Some (Internal m) \<and> internal_min_size (tp_max m) < tp_size m"
    using a(5,6) assms(2,3) j(3) same by simp
qed

text \<open>What two neighbours of a level and their parent may change, seen from the whole tower.\<close>

lemma neighbours_frame:
  assumes s: "short_level C M H lv (lvp # ups) r p" and d: "distinct (map snd H @ tower_pages (lv # lvp # ups))"
    and nb: "neighbours C pp j p1 p2" and pp: "pp \<in> set (pids lvp)" and i: "inner C M (None, p1, cs1)" "inner C M (None, p2, cs2)"
    and fr: "family_frame C C' {p1, p2, pp} (snd ` set cs1 \<union> snd ` set cs2)"
  shows "\<forall>c \<in> set (pids lv). c \<noteq> p1 \<longrightarrow> c \<noteq> p2 \<longrightarrow> C' c = C c" and "\<forall>x \<in> set (tower_pages (lvp # ups)). x \<noteq> pp \<longrightarrow> C' x = C x"
    and "family_frame C C' (set (tower_pages (lv # lvp # ups))) (snd ` set H)"
    and "set (map snd cs1) \<union> set (map snd cs2) \<subseteq> set (map snd H)"
proof -
  define A B W where "A = set (map snd H)" and "B = set (pids lv)" and "W = set (tower_pages (lvp # ups))"
  have dd: "A \<inter> B = {}" "A \<inter> W = {}" "B \<inter> W = {}" and dH: "distinct (map snd H)"
  proof -
    have "distinct (map snd H @ pids lv @ tower_pages (lvp # ups))" using d by (simp only: list.map concat.simps)
    then show "A \<inter> B = {}" "A \<inter> W = {}" "B \<inter> W = {}" "distinct (map snd H)"
      unfolding distinct_append set_append A_def B_def W_def by blast+
  qed
  from parent_in_level [OF short_levelD(2) [OF s] nb pp] obtain X lo' cs Y n where
    f: "lvp = X @ (lo', pp, cs) # Y" "C pp = Some (Internal n)" "children_of n = cs" "tp_max n = M"
    "Suc j < length cs" "p1 = snd (cs ! j)" "p2 = snd (cs ! Suc j)" "\<forall>c \<in> snd ` set cs. parent_of C c = Some pp"
    "concat (map kids (X @ (lo', pp, cs) # Y)) = heads lv" "tower C M (heads (X @ (lo', pp, cs) # Y)) ups r"
    "\<forall>x \<in> set (X @ (lo', pp, cs) # Y). inner C M x \<and> width_ok (least_width M ups) M x" "set (map snd cs) \<subseteq> set (pids lv)" .
  have ps: "p1 \<in> B" "p2 \<in> B" using f(5-7,12) unfolding B_def by auto
  have sub: "snd ` set cs' \<subseteq> A" if q: "q \<in> B" "inner C M (None, q, cs')" for q cs'
  proof -
    from child_in_level [OF s dH q(1) [unfolded B_def]] obtain m where m: "C q = Some (Internal m)"
      "\<forall>x \<in> snd ` set (children_of m). parent_of C x = Some q \<and> x \<in> set (map snd H)" .
    then have "children_of m = cs'" using q(2) by simp
    then show ?thesis using m(2) unfolding A_def by blast
  qed
  have ids: "snd ` set cs1 \<subseteq> A" "snd ` set cs2 \<subseteq> A" using sub [OF ps(1) i(1)] sub [OF ps(2) i(2)] by blast+
  then show "set (map snd cs1) \<union> set (map snd cs2) \<subseteq> set (map snd H)" unfolding A_def by simp
  have ppW: "pp \<in> W" unfolding W_def using pp by simp
  have same: "C' x = C x" if "x \<in> B \<union> W" "x \<noteq> p1" "x \<noteq> p2" "x \<noteq> pp" for x
  proof -
    have "x \<notin> A" using that(1) dd by blast
    then have "x \<notin> {p1, p2, pp} \<union> (snd ` set cs1 \<union> snd ` set cs2)" using that(2-4) ids by blast
    then show ?thesis using fr unfolding family_frame_def by blast
  qed
  have "pp \<notin> B" using dd(3) ppW by blast
  then show "\<forall>c \<in> set (pids lv). c \<noteq> p1 \<longrightarrow> c \<noteq> p2 \<longrightarrow> C' c = C c"
    using same unfolding B_def [symmetric] by blast
  have "p1 \<notin> W" "p2 \<notin> W" using dd(3) ps by blast+
  then show "\<forall>x \<in> set (tower_pages (lvp # ups)). x \<noteq> pp \<longrightarrow> C' x = C x"
    using same unfolding W_def [symmetric] by blast
  have Q: "set (tower_pages (lv # lvp # ups)) = B \<union> W" unfolding B_def W_def by (simp only: list.map concat.simps set_append)
  have A: "snd ` set H = A" unfolding A_def by simp
  show "family_frame C C' (set (tower_pages (lv # lvp # ups))) (snd ` set H)"
    unfolding Q A by (rule family_frame_mono [OF fr]) (use ps ppW ids dd in blast)+
qed

lemma level_nodes_eq: "inner C M (b, q, z) \<Longrightarrow> inner C M (None, q, cs) \<Longrightarrow> z = cs"
  by auto

text \<open>The level with the two neighbours edited.\<close>

lemma edited_level:
  assumes "\<forall>x \<in> set (U @ (b1, p1, cs1) # (b2, p2, cs2) # V). inner C M x" and "\<forall>x \<in> set U \<union> set V. width_ok w M x"
    and "\<forall>y \<in> set U \<union> set V. C' (fst (snd y)) = C (fst (snd y)) \<and> (\<forall>c \<in> set (child_ids y). C' c = C c)"
    and "\<forall>z \<in> set Z. inner C' M z \<and> width_ok w M z"
  shows "level_ok C' M w (U @ Z @ V)"
  unfolding level_ok_def
proof
  fix x assume "x \<in> set (U @ Z @ V)"
  then consider "x \<in> set Z" | "x \<in> set U \<union> set V" by auto
  then show "inner C' M x \<and> width_ok w M x"
  proof cases
    case 2
    have "inner C' M x"
    proof (rule inner_others)
      show "inner C M x" using assms(1) 2 by (auto simp del: inner.simps)
      show "C' (fst (snd x)) = C (fst (snd x))" using assms(3) 2 by blast
      show "\<forall>c \<in> snd ` set (snd (snd x)). parent_of C' c = parent_of C c" using assms(3) 2 by (simp add: parent_of_def)
    qed
    then show ?thesis using assms(2) 2 by blast
  qed (use assms(4) in blast)
qed

lemma joined_kids:
  assumes "cs1 \<noteq> []" and "cs2 \<noteq> []"
  shows "kids (b, p, joined cs1 k cs2) = kids (b, p, cs1) @ kids (Some k, q, cs2)"
proof -
  obtain a c ks where "cs2 = (a, c) # ks" using assms(2) by (cases cs2) auto
  then show ?thesis using kids_append [OF assms(1)] by simp
qed

lemma cut_kids:
  assumes "0 < s" and "s < length J" and "tl cs' = tl (drop s J)" and "map snd cs' = map snd (drop s J)"
  shows "kids (b, p, take s J) @ kids (Some (fst (J ! s)), q, cs') = kids (b, p, J)"
proof -
  have D: "drop s J = J ! s # drop (Suc s) J" using assms(2) by (simp add: Cons_nth_drop_Suc)
  obtain a c ks where cs': "cs' = (a, c) # ks" using assms(4) D by (cases cs') auto
  have "c = snd (J ! s)" "ks = drop (Suc s) J" using assms(3,4) unfolding D cs' by simp_all
  then have "kids (Some (fst (J ! s)), q, cs') = map (apfst Some) (drop s J)" unfolding D cs' by (simp add: apfst_def map_prod_def split: prod.splits)
  moreover have "take s J \<noteq> []" using assms(1,2) by auto
  ultimately show ?thesis using kids_append [of "take s J" b p "drop s J"] by simp
qed

lemma moved_level:
  assumes s: "short_level C M H lv (lvp # ups) r p" and d: "distinct (map snd H @ tower_pages (lv # lvp # ups))"
    and nb: "neighbours C pp j p1 p2" and pp: "pp \<in> set (pids lvp)" and uniq: "\<forall>k k'. key_of C pp p2 k \<longrightarrow> key_of C pp p2 k' \<longrightarrow> k = k'"
    and mv: "inners_moved M C C' pp p1 p2 sp k" and pk: "parent_keyed C C' pp j k" and p: "p \<in> {p1, p2}" and M: "3 \<le> M"
  obtains H' lv' lvp' where "tower C' M H' (lv' # lvp' # ups) r" and "map snd H' = map snd H" and "no_loan C p1 \<longrightarrow> H' = H"
    and "pids lv' = pids lv" and "pids lvp' = pids lvp" and "family_frame C C' (set (tower_pages (lv # lvp # ups))) (snd ` set H)"
proof -
  from mv obtain cs1 cs2 sep cs2' where m: "inner C M (None, p1, cs1)" "inner C M (None, p2, cs2)" "cs1 \<noteq> []" "cs2 \<noteq> []" "key_of C pp p2 sep"
    "inner C' M (None, p1, take sp (joined cs1 sep cs2))" "inner C' M (None, p2, cs2')"
    "tl cs2' = tl (drop sp (joined cs1 sep cs2))" "map snd cs2' = map snd (drop sp (joined cs1 sep cs2))"
    "internal_min_size M \<le> sp" "sp \<le> M" "internal_min_size M + sp \<le> length cs1 + length cs2" "length cs1 + length cs2 \<le> sp + M"
    "no_loan C p1 \<longrightarrow> k = fst (joined cs1 sep cs2 ! sp)" "parent_of C' p1 = parent_of C p1" "parent_of C' p2 = parent_of C p2"
    "family_frame C C' {p1, p2, pp} (snd ` set cs1 \<union> snd ` set cs2)"
    unfolding inners_moved_def by blast
  note nf = neighbours_frame [OF s d nb pp m(1,2,17)]
  have par: "\<forall>c \<in> set (pids lv). parent_of C' c = parent_of C c" using nf(1) m(15,16) unfolding parent_of_def by metis
  have dt: "distinct (pids lv)" "distinct (tower_pages (lvp # ups))" "distinct (map snd H @ pids lv @ tower_pages (lvp # ups))"
    using d by (simp_all only: list.map concat.simps distinct_append)
  from keyed_level [OF short_levelD(2) [OF s] nb pk pp dt(2) nf(2) par] obtain U b1 z1 k2 z2 V lvp' where
    k: "lv = U @ (b1, p1, z1) # (Some k2, p2, z2) # V" "key_of C pp p2 k2" "pids lvp' = pids lvp"
    "\<forall>z1' z2'. tower C' M (heads (U @ (b1, p1, z1') # (Some k, p2, z2') # V)) (lvp' # ups) r" .
  note l = short_levelD [OF s]
  have nodes: "\<forall>x \<in> set lv. inner C M x" using l(3) by blast
  then have "inner C M (b1, p1, z1)" "inner C M (Some k2, p2, z2)" unfolding k(1) by (simp_all del: inner.simps)
  then have z: "z1 = cs1" "z2 = cs2" using level_nodes_eq m(1,2) by blast+
  have sep: "k2 = sep" using uniq k(2) m(5) by blast
  note lv = k(1) [unfolded z sep]
  let ?J = "joined cs1 sep cs2" and ?w = "internal_min_size M"
  have J: "length ?J = length cs1 + length cs2" using m(4) by (cases cs2) auto
  have w: "0 < ?w" using M by (simp add: internal_min_size_def)
  let ?lv = "U @ [(b1, p1, take sp ?J), (Some k, p2, cs2')] @ V"
  have "length cs2' = length ?J - sp" "length (take sp ?J) = min (length ?J) sp" using m(9) by (metis length_drop length_map, simp only: length_take)
  then have sizes: "width_ok ?w M (b1, p1, take sp ?J)" "width_ok ?w M (Some k, p2, cs2')"
    unfolding J width_ok.simps using m(10-13) by linarith+
  note ar = around_neighbours [OF l(1) [unfolded lv] dt(3) [unfolded lv] _ m(17)]
  have ppW: "pp \<in> set (tower_pages (lvp # ups))" using pp by simp
  have lvl: "level_ok C' M ?w ?lv"
  proof (rule edited_level [OF nodes [unfolded lv] _ ar(1)])
    have "p1 \<noteq> p2" "p1 \<notin> set (pids U) \<union> set (pids V)" "p2 \<notin> set (pids U) \<union> set (pids V)" using dt(1) unfolding lv by auto
    then have other: "fst (snd x) \<noteq> p" if "x \<in> set U \<union> set V" for x using that p by auto
    show "\<forall>x \<in> set U \<union> set V. width_ok ?w M x"
    proof
      fix x assume x: "x \<in> set U \<union> set V"
      then have "x \<in> set lv" unfolding lv by auto
      from bspec [OF l(3) this] show "width_ok ?w M x" using other [OF x] by (simp add: least_width_def)
    qed
    show "\<forall>z \<in> set [(b1, p1, take sp ?J), (Some k, p2, cs2')]. inner C' M z \<and> width_ok ?w M z"
      using sizes inner_any_bound [of C' M None p1 _ b1] m(6) inner_any_bound [of C' M None p2 cs2' "Some k"] m(7) by (simp del: inner.simps)
  qed (rule ppW)
  let ?H = "concat (map kids ?lv)"
  have "tower C' M ?H (?lv # lvp' # ups) r" unfolding tower_Cons
    using lvl k(4) by (simp add: least_width_def tower_Cons)
  moreover have H: "H = concat (map kids U) @ kids (b1, p1, ?J) @ concat (map kids V)"
    using l(1) joined_kids [OF m(3,4), of b1 p1 sep p2] unfolding lv by simp
  have "map snd (take sp ?J) @ map snd cs2' = map snd ?J" unfolding m(9) by (metis append_take_drop_id map_append)
  then have "map snd ?H = map snd H" unfolding H by simp
  moreover have "no_loan C p1 \<longrightarrow> ?H = H"
    unfolding H using m(14) cut_kids [OF _ _ m(8,9), of b1 p1 p2] m(10,12) w J by simp
  moreover have "pids ?lv = pids lv" unfolding lv by simp
  ultimately show thesis using that k(3) nf(3) by blast
qed

lemma merged_level:
  assumes s: "short_level C M H lv (lvp # ups) r p" and d: "distinct (map snd H @ tower_pages (lv # lvp # ups))"
    and nb: "neighbours C pp j p1 p2" and pp: "pp \<in> set (pids lvp)" and uniq: "\<forall>k k'. key_of C pp p2 k \<longrightarrow> key_of C pp p2 k' \<longrightarrow> k = k'"
    and mg: "inners_merged M C C' pp p1 p2" and pc: "parent_cut C C' pp j" and p: "p \<in> {p1, p2}"
  obtains lv' lvp' where "short_level C' M (heads lv') lvp' ups r pp" and "level_ok C' M (internal_min_size M) lv'"
    and "concat (map kids lv') = H" and "set (pids lv') \<subseteq> set (pids lv)" and "distinct (pids lv')" and "pids lvp' = pids lvp"
    and "family_frame C C' (set (tower_pages (lv # lvp # ups))) (snd ` set H)"
    and "\<forall>x \<in> set (tower_pages (lvp # ups)). x \<noteq> pp \<longrightarrow> C' x = C x"
proof -
  from mg obtain cs1 cs2 sep where m: "inner C M (None, p1, cs1)" "inner C M (None, p2, cs2)" "cs1 \<noteq> []" "cs2 \<noteq> []" "key_of C pp p2 sep"
    "inner C' M (None, p1, joined cs1 sep cs2)" "internal_min_size M \<le> length cs1 + length cs2" "length cs1 + length cs2 \<le> M"
    "parent_of C' p1 = parent_of C p1" "family_frame C C' {p1, p2, pp} (snd ` set cs1 \<union> snd ` set cs2)"
    unfolding inners_merged_def by blast
  note nf = neighbours_frame [OF s d nb pp m(1,2,10)]
  have par: "\<forall>c \<in> set (pids lv). c \<noteq> p2 \<longrightarrow> parent_of C' c = parent_of C c" using nf(1) m(9) unfolding parent_of_def by metis
  have dt: "distinct (pids lv)" "distinct (tower_pages (lvp # ups))" "distinct (map snd H @ pids lv @ tower_pages (lvp # ups))"
    using d by (simp_all only: list.map concat.simps distinct_append)
  from cut_level [OF short_levelD(2) [OF s] nb pc pp dt(1,2) nf(2) par] obtain U b1 z1 k2 z2 V lvp' where
    k: "lv = U @ (b1, p1, z1) # (Some k2, p2, z2) # V" "key_of C pp p2 k2" "pids lvp' = pids lvp"
    "\<forall>z1'. short_level C' M (heads (U @ (b1, p1, z1') # V)) lvp' ups r pp" .
  note l = short_levelD [OF s]
  have nodes: "\<forall>x \<in> set lv. inner C M x" using l(3) by blast
  then have "inner C M (b1, p1, z1)" "inner C M (Some k2, p2, z2)" unfolding k(1) by (simp_all del: inner.simps)
  then have z: "z1 = cs1" "z2 = cs2" using level_nodes_eq m(1,2) by blast+
  have sep: "k2 = sep" using uniq k(2) m(5) by blast
  note lv = k(1) [unfolded z sep]
  let ?J = "joined cs1 sep cs2" and ?w = "internal_min_size M"
  have J: "length ?J = length cs1 + length cs2" using m(4) by (cases cs2) auto
  let ?lv = "U @ [(b1, p1, ?J)] @ V"
  have size: "width_ok ?w M (b1, p1, ?J)" unfolding width_ok.simps J using m(7,8) by blast
  note ar = around_neighbours [OF l(1) [unfolded lv] dt(3) [unfolded lv] _ m(10)]
  have ppW: "pp \<in> set (tower_pages (lvp # ups))" using pp by simp
  have lvl: "level_ok C' M ?w ?lv"
  proof (rule edited_level [OF nodes [unfolded lv] _ ar(1)])
    have "p1 \<noteq> p2" "p1 \<notin> set (pids U) \<union> set (pids V)" "p2 \<notin> set (pids U) \<union> set (pids V)" using dt(1) unfolding lv by auto
    then have other: "fst (snd x) \<noteq> p" if "x \<in> set U \<union> set V" for x using that p by auto
    show "\<forall>x \<in> set U \<union> set V. width_ok ?w M x"
    proof
      fix x assume x: "x \<in> set U \<union> set V"
      then have "x \<in> set lv" unfolding lv by auto
      from bspec [OF l(3) this] show "width_ok ?w M x" using other [OF x] by (simp add: least_width_def)
    qed
    show "\<forall>z \<in> set [(b1, p1, ?J)]. inner C' M z \<and> width_ok ?w M z"
      using size inner_any_bound [of C' M None p1 ?J b1] m(6) by (simp del: inner.simps)
  qed (rule ppW)
  have "concat (map kids ?lv) = H"
    using l(1) joined_kids [OF m(3,4), of b1 p1 sep p2] unfolding lv by simp
  moreover have "short_level C' M (heads ?lv) lvp' ups r pp" using k(4) by simp
  moreover have "set (pids ?lv) \<subseteq> set (pids lv)" "distinct (pids ?lv)" using dt(1) unfolding lv by auto
  ultimately show thesis using that lvl k(3) nf(2,3) by blast
qed

lemma key_of_unique:
  assumes "C pp = Some (Internal n)" and "distinct (map snd (children_of n))"
  shows "\<forall>k k'. key_of C pp q k \<longrightarrow> key_of C pp q k' \<longrightarrow> k = k'"
  using assms by (fastforce simp: key_of_def distinct_map inj_on_def)

text \<open>A page keeps its place among its siblings when only its own children change.\<close>

lemma no_loan_same:
  assumes "no_loan C p" and "parent_of C p = Some q" and "C q = Some (Internal n)" and "distinct (map snd (children_of n))"
    and "parent_of C' p = Some q" and "C' q = C q" and "\<forall>c \<in> set (map snd (children_of n)). c \<noteq> p \<longrightarrow> C' c = C c"
  shows "no_loan C' p"
  unfolding no_loan_def
proof (intro allI impI)
  fix q' n' i l
  assume a: "parent_of C' p = Some q'" "C' q' = Some (Internal n')" "Suc i < tp_size n'" "snd (children_of n' ! i) = p"
    "C' (snd (children_of n' ! Suc i)) = Some (Internal l)" "internal_min_size (tp_max l) < tp_size l"
  have same: "q' = q" "n' = n" using a(1,2) assms(3,5,6) by simp_all
  have kid: "C' (snd (children_of n ! j)) = C (snd (children_of n ! j))" if "j < tp_size n" "j \<noteq> i" for j
  proof -
    have "map snd (children_of n) ! j \<noteq> map snd (children_of n) ! i"
      using nth_eq_iff_index_eq [OF assms(4), of j i] that a(3) same by simp
    then have "snd (children_of n ! j) \<noteq> p" using a(3,4) that same by simp
    moreover have "snd (children_of n ! j) \<in> set (map snd (children_of n))" using that(1) by (intro nth_mem [of j "map snd (children_of n)", simplified nth_map length_map length_items]) simp
    ultimately show ?thesis using assms(7) by blast
  qed
  have "C (snd (children_of n ! Suc i)) = Some (Internal l)" using a(3,5) kid [of "Suc i"] same by simp
  then obtain j m where j: "i = Suc j" "C (snd (children_of n ! j)) = Some (Internal m)" "internal_min_size (tp_max m) < tp_size m"
    using assms(1-3) a(3,4,6) same unfolding no_loan_def by blast
  then show "\<exists>j m. i = Suc j \<and> C' (snd (children_of n' ! j)) = Some (Internal m) \<and> internal_min_size (tp_max m) < tp_size m"
    using kid [of j] a(3) same by auto
qed

section \<open>The climb\<close>

text \<open>What the climb above a level leaves of the level itself.\<close>

lemma under_result:
  assumes res: "remove_result exact T C' M (heads lv) ups P N res" and lvl: "level_ok C' M (internal_min_size M) lv" and H: "concat (map kids lv) = H"
    and d: "distinct (map snd H @ pids lv @ tower_pages ups)" and f: "family_frame C C' Q (snd ` set H)"
    and Q: "set (pids lv) \<subseteq> Q" "set (tower_pages ups) \<subseteq> Q" "snd ` set H \<inter> Q = {}" and M: "3 \<le> M"
  shows "\<exists>r' C'' S' H' ups'. res = Some (Inr (), st T r' C'' P S' N) \<and> tower C'' M H' ups' r' \<and> map snd H' = map snd H \<and>
    (exact \<longrightarrow> H' = H) \<and> pool_ok C'' P S' N \<and> distinct (tower_pages ups') \<and> set (tower_pages ups') \<subseteq> Q \<and> family_frame C C'' Q (snd ` set H)"
proof -
  from res obtain r' C'' S' H1 ups1 where r: "res = Some (Inr (), st T r' C'' P S' N)" "tower C'' M H1 ups1 r'" "map snd H1 = map snd (heads lv)"
    "exact \<longrightarrow> H1 = heads lv" "pool_ok C'' P S' N" "distinct (tower_pages ups1)" "set (tower_pages ups1) \<subseteq> set (tower_pages ups)"
    "family_frame C' C'' (set (tower_pages ups)) (snd ` set (heads lv))" unfolding remove_result_def by blast
  let ?lv = "rebound H1 lv"
  have ids: "map snd H1 = pids lv" using r(3) unfolding snd_heads .
  define A B W where "A = snd ` set H" and "B = set (pids lv)" and "W = set (tower_pages ups)"
  have dd: "A \<inter> B = {}" "A \<inter> W = {}" "B \<inter> W = {}" "distinct (pids lv)"
    using d unfolding distinct_append set_append set_map A_def B_def W_def by blast+
  note fr = r(8) [unfolded snd_set_heads, folded B_def W_def]
  have pages: "map snd ?lv = map snd lv" by (rule rebound_pages [OF ids])
  have lvl': "level_ok C'' M (internal_min_size M) ?lv" unfolding level_ok_def
  proof
    fix x assume "x \<in> set ?lv"
    then have "snd x \<in> set (map snd lv)" using pages by (metis image_eqI list.set_map)
    then obtain y where y: "y \<in> set lv" "snd y = snd x" by auto
    obtain b p cs where x: "x = (b, p, cs)" by (cases x)
    have i: "inner C' M y" "width_ok (internal_min_size M) M y" using lvl y(1) unfolding level_ok_def by blast+
    then have "inner C' M (fst y, p, cs)" using y(2) x by (metis prod.collapse snd_conv)
    moreover have "same_entries (C' p) (C'' p)"
    proof -
      have "p \<in> B" unfolding B_def using y x by force
      then show ?thesis using fr unfolding family_frame_def by blast
    qed
    moreover have "\<forall>c \<in> snd ` set cs. parent_of C'' c = parent_of C' c"
    proof
      fix c assume c: "c \<in> snd ` set cs"
      have "y = (fst y, p, cs)" using y(2) x by (simp add: prod_eq_iff)
      then have "snd ` set (kids y) = snd ` set cs" using snd_set_kids [of "fst y" p cs] by simp
      moreover have "set (kids y) \<subseteq> set (concat (map kids lv))" using y(1) by auto
      ultimately have "c \<in> A" unfolding A_def H [symmetric] using c by blast
      then have "c \<notin> W \<union> B" using dd by blast
      then show "parent_of C'' c = parent_of C' c" using fr unfolding family_frame_def parent_of_def by metis
    qed
    ultimately have "inner C'' M (fst y, p, cs)" by (rule inner_frame)
    moreover have "width_ok (internal_min_size M) M x" using i(2) y(2) by (simp add: width_ok_iff)
    ultimately show "inner C'' M x \<and> width_ok (internal_min_size M) M x" unfolding x using inner_any_bound by blast
  qed
  have "2 \<le> internal_min_size M" using M by (simp add: internal_min_size_def)
  then have "least_width M ups1 \<le> internal_min_size M" by (simp add: least_width_def)
  then have "level_ok C'' M (least_width M ups1) ?lv" using lvl' width_mono unfolding level_ok_def by blast
  then have "tower C'' M (concat (map kids ?lv)) (?lv # ups1) r'"
    unfolding tower_Cons rebound_heads [OF ids] using r(2) by blast
  moreover have "map snd (concat (map kids ?lv)) = map snd H"
    unfolding H [symmetric] snd_concat_kids using map_snd_eqD [OF pages, of "\<lambda>z. map snd (snd z)"] by simp
  moreover have "exact \<longrightarrow> concat (map kids ?lv) = H" using r(4) H rebound_same [of lv] by auto
  moreover have t: "tower_pages (?lv # ups1) = pids lv @ tower_pages ups1" using map_snd_eqD [OF pages, of fst] by simp
  have "distinct (tower_pages (?lv # ups1))"
    unfolding t distinct_append using dd(3,4) r(6,7) unfolding B_def [symmetric] W_def [symmetric] by blast
  moreover have "set (tower_pages (?lv # ups1)) \<subseteq> Q" unfolding t set_append using r(7) Q by blast
  moreover have "family_frame C C'' Q (snd ` set H)"
    by (rule family_frame_trans [OF f r(8) subset_refl subset_refl Q(2) _ Q(3)]) (use Q(1) in \<open>simp only: snd_set_heads\<close>)
  ultimately show ?thesis using r(1,5) by blast
qed

text \<open>Where the parent of a page of the tower is, and the siblings.\<close>

lemma tower_parent:
  assumes "tower C M (heads lv) ups r" and "x \<in> set (pids lv)" and "distinct (pids lv)"
  shows "parent_of C x = Some INVALID_PAGE_ID \<or>
    (\<exists>q n. parent_of C x = Some q \<and> C q = Some (Internal n) \<and> q \<in> set (tower_pages ups) \<and> distinct (map snd (children_of n)) \<and>
       set (map snd (children_of n)) \<subseteq> set (pids lv))"
proof (cases ups)
  case Nil
  then have "heads lv = [(None, r)]" "parent_of C r = Some INVALID_PAGE_ID" using assms(1) by simp_all
  moreover have "x = r" using assms(2) snd_heads [of lv] \<open>heads lv = [(None, r)]\<close> by (metis empty_iff empty_set list.simps(15) list.simps(8) list.simps(9) singletonD snd_conv)
  ultimately show ?thesis by simp
next
  case (Cons l ups')
  from assms(2) obtain X lo ks Y where lv: "lv = X @ (lo, x, ks) # Y" by (auto dest!: split_list)
  have t: "tower C M (heads X @ (lo, x) # heads Y) (l # ups') r" using assms(1) unfolding lv Cons by simp
  from parent_found [OF t] obtain X' lo' q Y' a k b n where
    f: "l = X' @ (lo', q, a @ (k, x) # b) # Y'" "C q = Some (Internal n)" "children_of n = a @ (k, x) # b" "parent_of C x = Some q" .
  have up: "concat (map kids l) = heads lv" using t unfolding lv by (simp add: tower_Cons)
  have ids: "pids lv = concat (map child_ids l)" using snd_concat_kids [of l] unfolding up snd_heads .
  have "set (map snd (children_of n)) \<subseteq> set (pids lv)" unfolding ids f(1,3) by auto
  moreover have "distinct (map snd (children_of n))" using assms(3) unfolding ids f(1,3) by auto
  moreover have "q \<in> set (tower_pages ups)" unfolding Cons f(1) by simp
  ultimately show ?thesis using f(2,4) by blast
qed

lemma tower_parent_above:
  assumes "tower C M H ups r" and "x \<in> set (tower_pages ups)" and "distinct (tower_pages ups)"
  shows "parent_of C x = Some INVALID_PAGE_ID \<or>
    (\<exists>q n. parent_of C x = Some q \<and> C q = Some (Internal n) \<and> q \<in> set (tower_pages ups) \<and> distinct (map snd (children_of n)) \<and>
       set (map snd (children_of n)) \<subseteq> set (tower_pages ups))"
  using assms
proof (induction ups arbitrary: H)
  case (Cons lv ups)
  have t: "tower C M (heads lv) ups r" using Cons.prems(1) by (simp add: tower_Cons)
  have d: "distinct (pids lv)" "distinct (tower_pages ups)" "set (tower_pages (lv # ups)) = set (pids lv) \<union> set (tower_pages ups)"
    using Cons.prems(3) by simp_all
  show ?case
  proof (cases "x \<in> set (pids lv)")
    case True
    from tower_parent [OF t this d(1)] show ?thesis unfolding d(3) by blast
  next
    case False
    then have "x \<in> set (tower_pages ups)" using Cons.prems(2) unfolding d(3) by blast
    from Cons.IH [OF t this d(2)] show ?thesis unfolding d(3) by blast
  qed
qed simp

definition careful :: "contents \<Rightarrow> page_id set \<Rightarrow> bool" where
  "careful C A \<longleftrightarrow> (\<forall>x \<in> A. \<forall>u. C x = Some (Internal u) \<longrightarrow> tp_size u \<le> internal_min_size (tp_max u) \<longrightarrow> no_loan C x)"

lemma no_loan_root: "parent_of C x = Some INVALID_PAGE_ID \<Longrightarrow> C INVALID_PAGE_ID = None \<Longrightarrow> no_loan C x"
  by (simp add: no_loan_def)

lemma careful_above:
  assumes t: "tower C M (heads lv) ups r" and d: "distinct (pids lv @ tower_pages ups)" and q: "q \<in> set (pids lv)"
    and same: "\<forall>x \<in> set (pids lv @ tower_pages ups). x \<noteq> q \<longrightarrow> C' x = C x" and par: "parent_of C' q = parent_of C q" and inv: "C' INVALID_PAGE_ID = None"
  shows "no_loan C q \<Longrightarrow> no_loan C' q" and "careful C (set (tower_pages ups)) \<Longrightarrow> careful C' (set (tower_pages ups))"
proof -
  define B W where "B = set (pids lv)" and "W = set (tower_pages ups)"
  have dd: "B \<inter> W = {}" "distinct (pids lv)" "distinct (tower_pages ups)" using d unfolding distinct_append B_def W_def by blast+
  have same': "C' x = C x" if "x \<in> B \<union> W" "x \<noteq> q" for x using same that unfolding set_append B_def W_def by blast
  have qB: "q \<in> B" "q \<notin> W" using q dd(1) unfolding B_def by blast+
  show "no_loan C' q" if n: "no_loan C q"
  proof -
    from tower_parent [OF t q dd(2), folded B_def W_def] consider "parent_of C q = Some INVALID_PAGE_ID"
      | p n where "parent_of C q = Some p" "C p = Some (Internal n)" "p \<in> W" "distinct (map snd (children_of n))" "set (map snd (children_of n)) \<subseteq> B" by blast
    then show ?thesis
    proof cases
      case 1
      then show ?thesis using no_loan_root par inv by simp
    next
      case 2
      then have "C' p = C p" using same' qB by blast
      moreover have "\<forall>c \<in> set (map snd (children_of n)). c \<noteq> q \<longrightarrow> C' c = C c" using 2(5) same' by blast
      ultimately show ?thesis using no_loan_same [OF n 2(1,2,4), of C'] par 2(1) by simp
    qed
  qed
  show "careful C' (set (tower_pages ups))" if c: "careful C (set (tower_pages ups))"
    unfolding careful_def W_def [symmetric]
  proof (intro ballI allI impI)
    fix x u assume x: "x \<in> W" "C' x = Some (Internal u)" "tp_size u \<le> internal_min_size (tp_max u)"
    have cx: "C' x = C x" using same' x(1) qB by blast
    then have par: "parent_of C' x = parent_of C x" by (simp add: parent_of_def)
    have n: "no_loan C x" using c x cx unfolding careful_def W_def by metis
    from tower_parent_above [OF t x(1) [unfolded W_def] dd(3), folded W_def] consider "parent_of C x = Some INVALID_PAGE_ID"
      | p n where "parent_of C x = Some p" "C p = Some (Internal n)" "p \<in> W" "distinct (map snd (children_of n))" "set (map snd (children_of n)) \<subseteq> W" by blast
    then show "no_loan C' x"
    proof cases
      case 1
      then show ?thesis using no_loan_root par inv by simp
    next
      case 2
      then have "C' p = C p" "\<forall>c \<in> set (map snd (children_of n)). c \<noteq> x \<longrightarrow> C' c = C c" using same' qB(2) by blast+
      then show ?thesis using no_loan_same [OF n 2(1,2,4), of C'] par 2(1) by simp
    qed
  qed
qed

lemma parent_cut_parent: "parent_cut C C' q j \<Longrightarrow> parent_of C' q = parent_of C q"
  by (auto simp: parent_cut_def parent_of_def)

lemma short_width:
  assumes s: "short_level C M H lv ups r p" and n: "C p = Some (Internal u)" and w: "least_width M ups \<le> tp_size u"
  shows "level_ok C M (least_width M ups) lv"
  unfolding level_ok_def
proof
  fix x assume "x \<in> set lv"
  from bspec [OF short_levelD(3) [OF s] this] have x: "inner C M x" "width_ok (if fst (snd x) = p then least_width M ups - 1 else least_width M ups) M x" by blast+
  show "inner C M x \<and> width_ok (least_width M ups) M x"
  proof (cases "fst (snd x) = p")
    case True
    obtain b cs where xx: "x = (b, p, cs)" using True by (cases x) auto
    then have "children_of u = cs" using x(1) n by simp
    then have "tp_size u = length cs" by (metis length_items)
    then show ?thesis using x w True by (simp add: xx del: inner.simps)
  qed (use x in simp)
qed

abbreviation short_no_loan :: "contents \<Rightarrow> page_id \<Rightarrow> bool" where
  "short_no_loan C p \<equiv> (\<forall>u. C p = Some (Internal u) \<longrightarrow> tp_size u < internal_min_size (tp_max u) \<longrightarrow> no_loan C p)"

lemma parent_cut_size:
  assumes "parent_cut C C' q j" and "neighbours C q j p1 p2" and "C' q = Some (Internal u')"
  obtains u where "C q = Some (Internal u)" and "tp_size u = Suc (tp_size u')" and "tp_max u' = tp_max u"
proof -
  from assms(1,3) obtain n where n: "C q = Some (Internal n)" "children_of u' = remove_at (Suc j) (children_of n)" "tp_max u' = tp_max n"
    unfolding parent_cut_def by auto
  have "Suc j < tp_size n" using assms(2) n(1) unfolding neighbours_def by auto
  then have "length (remove_at (Suc j) (children_of n)) = tp_size n - 1" "0 < tp_size n" by (simp_all add: remove_at_def)
  then have "tp_size n = Suc (tp_size u')" using arg_cong [OF n(2), of length] by simp
  then show thesis using that n by blast
qed

text \<open>What the climb may still expect of the pages above, after their children have been merged.\<close>

lemma careful_after_cut:
  assumes t: "tower C M (heads lvp) ups r" and d: "distinct (tower_pages (lvp # ups))" and q: "q \<in> set (pids lvp)"
    and same: "\<forall>x \<in> set (tower_pages (lvp # ups)). x \<noteq> q \<longrightarrow> C' x = C x" and pc: "parent_cut C C' q j" and nb: "neighbours C q j p1 p2"
    and pool: "pool_ok C' P S N" and c: "careful C (set (tower_pages (lvp # ups)))"
  shows "short_no_loan C' q \<and> careful C' (set (tower_pages ups))"
proof -
  have pages: "tower_pages (lvp # ups) = pids lvp @ tower_pages ups" by (simp only: list.map concat.simps)
  have inv: "C' INVALID_PAGE_ID = None" using pool_ok_valid [OF pool] by (metis not_None_eq)
  note ab = careful_above [OF t d [unfolded pages] q same [unfolded pages] parent_cut_parent [OF pc] inv]
  have "no_loan C' q" if u': "C' q = Some (Internal u')" "tp_size u' < internal_min_size (tp_max u')" for u'
  proof -
    from parent_cut_size [OF pc nb u'(1)] obtain v where "C q = Some (Internal v)" "tp_size v = Suc (tp_size u')" "tp_max u' = tp_max v" .
    then have "no_loan C q" using c q u'(2) unfolding careful_def pages by simp
    then show ?thesis by (rule ab(1))
  qed
  moreover have "careful C (set (tower_pages ups))" using c unfolding careful_def pages by simp
  ultimately show ?thesis using ab(2) by blast
qed

text \<open>One round of the loop at a short page: the neighbours it works on, and what comes of it.\<close>

lemma short_step:
  assumes s: "short_level C M H lv (lvp # ups) r pp" and pp: "pp \<in> set (pids lv)" and pool: "pool_ok C (pp # P) S N"
    and d: "distinct (map snd H @ tower_pages (lv # lvp # ups))" and fits: "\<forall>x \<in> set (map snd H). fits C x"
    and short: "\<not> level_ok C M (least_width M (lvp # ups)) lv" and room: "room 4 T P" and M: "3 \<le> M" "M \<le> 509"
  obtains q n u C' S' j p1 p2 where "C pp = Some (Internal u)" and "tp_size u < internal_min_size (tp_max u)" and "q \<in> set (pids lvp)"
    and "C q = Some (Internal n)" and "distinct (map snd (children_of n))" and "neighbours C q j p1 p2" and "pp \<in> {p1, p2}"
    and "(\<exists>sp k. go_on (shrink_root pp (st T r C (pp # P) S N)) = Some (Inr (), st T r C' P S' N) \<and> pool_ok C' P S' N \<and>
        inners_moved M C C' q p1 p2 sp k \<and> parent_keyed C C' q j k) \<or>
      (go_on (shrink_root pp (st T r C (pp # P) S N)) = go_on (shrink_root q (st T r C' (q # P) S' N)) \<and> pool_ok C' (q # P) S' N \<and>
        inners_merged M C C' q p1 p2 \<and> parent_cut C C' q j)"
proof -
  have room': "room 1 T P" using room by (simp add: room_def)
  from short_family [OF s pp d fits M] obtain q n i where
    f: "parent_of C pp = Some q" "C q = Some (Internal n)" "q \<in> set (pids lvp)" "i < tp_size n" "snd (children_of n ! i) = pp"
    "distinct (map snd (children_of n))" "inner_family M C pp q (children_of n)" .
  from short_level_page [OF s pp] obtain X lo cs Y u where
    u: "lv = X @ (lo, pp, cs) # Y" "C pp = Some (Internal u)" "children_of u = cs" "tp_max u = M" "tp_size u = length cs" "tp_size u \<le> M"
    "least_width M (lvp # ups) \<le> Suc (tp_size u)" "\<forall>c \<in> set (map snd cs). parent_of C c = Some pp" "set (map snd cs) \<subseteq> set (map snd H)" .
  have "\<not> least_width M (lvp # ups) \<le> tp_size u" using short_width [OF s u(2)] short by blast
  then have size: "tp_size u < internal_min_size M" "internal_min_size M \<le> Suc (tp_size u)" using u(7) by (simp_all add: least_width_def)
  have "q \<noteq> INVALID_PAGE_ID" using pool_ok_valid [OF pool f(2)] by simp
  then have par: "tp_parent u \<noteq> INVALID_PAGE_ID" using f(1) u(2) by (simp add: parent_of_def)
  have pool': "pool_ok C P (insert pp S) N" by (rule pool_ok_unpin [OF pool])
  let ?fix = "fix_internal pp q (int i) (side (int i - 1) (children_of n)) (side (int i + 1) (children_of n)) (st T r C (q # P) (insert pp S) N)"
  have "shrink_root pp (st T r C (pp # P) S N) = (Inr (Some pp), st T r C P (insert pp S) N)"
    by (rule shrink_root_short [where n = u]) (use u(2,4) par size(1) in simp_all)
  then have go: "go_on (shrink_root pp (st T r C (pp # P) S N)) = go_on ?fix"
    using fix_underflow_st [OF pool' u(2) f(1,2,6,4,5) room', of r] by (simp add: remove_up_go_on)
  have i: "i < length (children_of n)" using f(4) by simp
  from fix_internal_st [OF f(7) pool' i f(5) u(2) size M room, of r] obtain C' S' j p1 p2 where nb: "neighbours C q j p1 p2" "pp \<in> {p1, p2}" and
    step: "(\<exists>sp k. ?fix = (Inr None, st T r C' P S' N) \<and> pool_ok C' P S' N \<and> inners_moved M C C' q p1 p2 sp k \<and> parent_keyed C C' q j k) \<or>
      (?fix = shrink_root q (st T r C' (q # P) S' N) \<and> pool_ok C' (q # P) S' N \<and> inners_merged M C C' q p1 p2 \<and> parent_cut C C' q j)"
    unfolding step_result_def by blast
  have "(\<exists>sp k. go_on ?fix = Some (Inr (), st T r C' P S' N) \<and> pool_ok C' P S' N \<and> inners_moved M C C' q p1 p2 sp k \<and> parent_keyed C C' q j k) \<or>
      (go_on ?fix = go_on (shrink_root q (st T r C' (q # P) S' N)) \<and> pool_ok C' (q # P) S' N \<and> inners_merged M C C' q p1 p2 \<and> parent_cut C C' q j)"
    using step by (metis go_on_simps(1))
  then show thesis using that [OF u(2) _ f(3,2,6) nb] size(1) unfolding go u(4) by blast
qed

text \<open>After entries have been moved the climb is over.\<close>

lemma moved_result:
  assumes s: "short_level C M H lv (lvp # ups) r pp" and d: "distinct (map snd H @ tower_pages (lv # lvp # ups))"
    and u: "C pp = Some (Internal u)" "tp_size u < internal_min_size (tp_max u)" and q: "q \<in> set (pids lvp)"
    and n: "C q = Some (Internal n)" "distinct (map snd (children_of n))" and nb: "neighbours C q j p1 p2" "pp \<in> {p1, p2}"
    and m: "inners_moved M C C' q p1 p2 sp k" "parent_keyed C C' q j k" and pool: "pool_ok C' P S' N" and M: "3 \<le> M"
    and ex: "exact \<longrightarrow> short_no_loan C pp" and res: "res = Some (Inr (), st T r C' P S' N)"
  shows "remove_result exact T C M H (lv # lvp # ups) P N res"
proof -
  from moved_level [OF s d nb(1) q key_of_unique [where C = C and q = p2, OF n] m nb(2) M] obtain H' lv' lvp' where
    l: "tower C' M H' (lv' # lvp' # ups) r" "map snd H' = map snd H" "no_loan C p1 \<longrightarrow> H' = H" "pids lv' = pids lv" "pids lvp' = pids lvp"
    "family_frame C C' (set (tower_pages (lv # lvp # ups))) (snd ` set H)" .
  have "no_loan C p1" if exact
  proof (cases "pp = p1")
    case True
    then show ?thesis using ex that u by blast
  next
    case False
    then have p2: "p2 = pp" using nb(2) by blast
    from nb(1) n(1) have j: "Suc j < tp_size n" "snd (children_of n ! j) = p1" unfolding neighbours_def by auto
    have "p1 \<in> set (map snd (children_of n))" using j by (metis Suc_lessD length_items length_map nth_map nth_mem)
    moreover obtain X' lo' ks Y' where lvp: "lvp = X' @ (lo', q, ks) # Y'" using q by (auto dest!: split_list)
    have "inner C M (lo', q, ks)" using short_levelD(2) [OF s] unfolding lvp tower_Cons level_ok_def by (auto simp del: inner.simps)
    ultimately have "parent_of C p1 = Some q" using n(1) by auto
    from no_loan_neighbour [OF nb(1) u(1) [folded p2] u(2) n this] show ?thesis .
  qed
  then have "exact \<longrightarrow> H' = H" using l(3) by blast
  moreover have pages: "tower_pages (lv' # lvp' # ups) = tower_pages (lv # lvp # ups)" using l(4,5) by simp
  have "distinct (tower_pages (lv # lvp # ups))" using d unfolding distinct_append by blast
  then have "distinct (tower_pages (lv' # lvp' # ups))" "set (tower_pages (lv' # lvp' # ups)) \<subseteq> set (tower_pages (lv # lvp # ups))"
    unfolding pages by blast+
  ultimately show ?thesis unfolding remove_result_def using res l(1,2,6) pool by blast
qed

text \<open>After a merge it goes on at the parent, over a level with one page less.\<close>

lemma merged_result:
  assumes s: "short_level C M H lv (lvp # ups) r pp" and d: "distinct (map snd H @ tower_pages (lv # lvp # ups))"
    and q: "q \<in> set (pids lvp)" and n: "C q = Some (Internal n)" "distinct (map snd (children_of n))"
    and nb: "neighbours C q j p1 p2" "pp \<in> {p1, p2}" and m: "inners_merged M C C' q p1 p2" "parent_cut C C' q j"
    and pool: "pool_ok C' (q # P) S' N" and M: "3 \<le> M" "M \<le> 509" and ex: "exact \<longrightarrow> careful C (set (tower_pages (lvp # ups)))"
    and up: "\<And>lv' lvp'. short_level C' M (heads lv') lvp' ups r q \<Longrightarrow> q \<in> set (pids lvp') \<Longrightarrow>
      distinct (map snd (heads lv') @ tower_pages (lvp' # ups)) \<Longrightarrow> \<forall>x \<in> set (map snd (heads lv')). fits C' x \<Longrightarrow>
      exact \<longrightarrow> short_no_loan C' q \<and> careful C' (set (tower_pages ups)) \<Longrightarrow>
      remove_result exact T C' M (heads (lv' :: (int \<times> page_id) lnode list)) (lvp' # ups) P N res"
  shows "remove_result exact T C M H (lv # lvp # ups) P N res"
proof -
  have dt: "distinct (map snd H @ pids lv @ pids lvp @ tower_pages ups)" "distinct (tower_pages (lvp # ups))"
    using d by (simp_all only: list.map concat.simps distinct_append)
  from merged_level [OF s d nb(1) q key_of_unique [where C = C and q = p2, OF n] m nb(2)] obtain lv' lvp' where
    l: "short_level C' M (heads lv') lvp' ups r q" "level_ok C' M (internal_min_size M) lv'" "concat (map kids lv') = H"
    "set (pids lv') \<subseteq> set (pids lv)" "distinct (pids lv')" "pids lvp' = pids lvp"
    "family_frame C C' (set (tower_pages (lv # lvp # ups))) (snd ` set H)" "\<forall>x \<in> set (tower_pages (lvp # ups)). x \<noteq> q \<longrightarrow> C' x = C x" .
  define A B B' V W where "A = set (map snd H)" and "B = set (pids lv)" and "B' = set (pids lv')" and "V = set (pids lvp)" and "W = set (tower_pages ups)"
  have dd: "A \<inter> B = {}" "A \<inter> V = {}" "A \<inter> W = {}" "B \<inter> V = {}" "B \<inter> W = {}" "V \<inter> W = {}" "distinct (map snd H)" "distinct (pids lvp)" "distinct (tower_pages ups)"
    using dt(1) unfolding distinct_append set_append A_def B_def V_def W_def by blast+
  have sub: "B' \<subseteq> B" using l(4) unfolding B_def B'_def .
  have t: "tower_pages (lvp' # ups) = pids lvp @ tower_pages ups" using l(6) by simp
  have "remove_result exact T C' M (heads lv') (lvp' # ups) P N res"
  proof (rule up [OF l(1)])
    show "q \<in> set (pids lvp')" using q l(6) by simp
    show "distinct (map snd (heads lv') @ tower_pages (lvp' # ups))"
      unfolding t snd_heads distinct_append set_append using l(5) dd(4-6,8,9) sub unfolding B'_def V_def W_def by blast
    show "\<forall>x \<in> set (map snd (heads lv')). fits C' x"
    proof
      fix x assume "x \<in> set (map snd (heads lv'))"
      then obtain y where y: "y \<in> set lv'" "x = fst (snd y)" by auto
      then have "inner C' M y" "width_ok (internal_min_size M) M y" using l(2) unfolding level_ok_def by blast+
      then show "fits C' x" using inner_fits [of C' M "fst y" x "snd (snd y)"] y(2) M(2) by (cases y) (simp del: inner.simps)
    qed
    have "tower C M (heads lvp) ups r" using short_levelD(2) [OF s] by (simp add: tower_Cons)
    from careful_after_cut [OF this dt(2) q l(8) m(2) nb(1) pool] ex
    show "exact \<longrightarrow> short_no_loan C' q \<and> careful C' (set (tower_pages ups))" by blast
  qed
  note below = under_result [OF this l(2,3) _ l(7) _ _ _ M(1)]
  have Q: "set (tower_pages (lv # lvp # ups)) = B \<union> V \<union> W" unfolding B_def V_def W_def by (simp only: list.map concat.simps set_append Un_assoc)
  have A: "snd ` set H = A" unfolding A_def by simp
  have "distinct (map snd H @ pids lv' @ tower_pages (lvp' # ups))"
    unfolding t distinct_append set_append using l(5) dd sub unfolding A_def B'_def V_def W_def by blast
  moreover have "set (pids lv') \<subseteq> B \<union> V \<union> W" "set (tower_pages (lvp' # ups)) \<subseteq> B \<union> V \<union> W"
    unfolding t set_append V_def [symmetric] W_def [symmetric] B'_def [symmetric] using sub by blast+
  moreover have "A \<inter> (B \<union> V \<union> W) = {}" using dd by blast
  ultimately show ?thesis using below unfolding remove_result_def Q A by simp
qed

lemma shrink_ok:
  assumes room: "room 4 T P" and M: "3 \<le> M" "M \<le> 509"
  shows "short_level C M H lv ups r pp \<Longrightarrow> pp \<in> set (pids lv) \<Longrightarrow> pool_ok C (pp # P) S N \<Longrightarrow> distinct (map snd H @ tower_pages (lv # ups)) \<Longrightarrow>
    \<forall>x \<in> set (map snd H). fits C x \<Longrightarrow> exact \<longrightarrow> short_no_loan C pp \<and> careful C (set (tower_pages ups)) \<Longrightarrow>
    remove_result exact T C M H (lv # ups) P N (go_on (shrink_root pp (st T r C (pp # P) S N)))"
proof (induction ups arbitrary: C H lv pp S)
  case Nil
  have "room 2 T P" using room by (simp add: room_def)
  from shrink_done [OF Nil.prems(1-5) this M] show ?case by blast
next
  case (Cons lvp ups)
  note s = Cons.prems(1) and d = Cons.prems(4)
  show ?case
  proof (cases "level_ok C M (least_width M (lvp # ups)) lv")
    case True
    have "room 2 T P" using room by (simp add: room_def)
    from shrink_done [OF Cons.prems(1-5) this M] True show ?thesis by blast
  next
    case False
    from short_step [OF Cons.prems(1-5) False room M] obtain q n u C' S' j p1 p2 where
      f: "C pp = Some (Internal u)" "tp_size u < internal_min_size (tp_max u)" "q \<in> set (pids lvp)" "C q = Some (Internal n)"
      "distinct (map snd (children_of n))" "neighbours C q j p1 p2" "pp \<in> {p1, p2}"
      "(\<exists>sp k. go_on (shrink_root pp (st T r C (pp # P) S N)) = Some (Inr (), st T r C' P S' N) \<and> pool_ok C' P S' N \<and>
        inners_moved M C C' q p1 p2 sp k \<and> parent_keyed C C' q j k) \<or>
      (go_on (shrink_root pp (st T r C (pp # P) S N)) = go_on (shrink_root q (st T r C' (q # P) S' N)) \<and> pool_ok C' (q # P) S' N \<and>
        inners_merged M C C' q p1 p2 \<and> parent_cut C C' q j)" .
    have ex: "exact \<longrightarrow> short_no_loan C pp" "exact \<longrightarrow> careful C (set (tower_pages (lvp # ups)))" using Cons.prems(6) by blast+
    from f(8) show ?thesis
    proof (elim disjE exE conjE)
      fix sp k
      assume "go_on (shrink_root pp (st T r C (pp # P) S N)) = Some (Inr (), st T r C' P S' N)" "pool_ok C' P S' N"
        "inners_moved M C C' q p1 p2 sp k" "parent_keyed C C' q j k"
      then show ?thesis using moved_result [OF s d f(1-7) _ _ _ M(1) ex(1)] by blast
    next
      assume m: "go_on (shrink_root pp (st T r C (pp # P) S N)) = go_on (shrink_root q (st T r C' (q # P) S' N))" "pool_ok C' (q # P) S' N"
        "inners_merged M C C' q p1 p2" "parent_cut C C' q j"
      show ?thesis unfolding m(1)
        by (rule merged_result [OF s d f(3-7) m(3,4,2) M ex(2)]) (rule Cons.IH [OF _ _ m(2)])
    qed
  qed
qed

end
