(* ===== verification/BPlus_Deletion.thy ===== *)
theory BPlus_Deletion
  imports BPlus_Repair BPlus_Correct
begin

text \<open>
  \<open>Remove\<close> at the leaves, and what it promises: the entry is gone from the leaves and from every scan, nothing stays
  pinned, and the tree is well-formed again unless an internal page has had to borrow from its right sibling.
\<close>

section \<open>The leaf level\<close>

text \<open>A leaf level in which the leaf \<open>p\<close> may have one entry too few.\<close>

definition short_leaves ::
  "contents \<Rightarrow> nat \<Rightarrow> nat \<Rightarrow> page_id \<Rightarrow> (int \<times> RID) lnode list \<Rightarrow> (int \<times> page_id) lnode list list \<Rightarrow> page_id \<Rightarrow> bool" where
  "short_leaves C L M r lv ups p \<longleftrightarrow>
     (\<forall>x \<in> set lv. leaf_node C L x \<and> width_ok (if fst (snd x) = p then least_leaf L ups - 1 else least_leaf L ups) L x) \<and>
     linked C (pids lv) INVALID_PAGE_ID \<and> leaf_order lv \<and> tower C M (heads lv) ups r \<and> distinct (pids lv @ tower_pages ups)"

lemma short_leavesD:
  assumes "short_leaves C L M r lv ups p"
  shows "\<forall>x \<in> set lv. leaf_node C L x \<and> width_ok (if fst (snd x) = p then least_leaf L ups - 1 else least_leaf L ups) L x"
    and "linked C (pids lv) INVALID_PAGE_ID" and "leaf_order lv" and "tower C M (heads lv) ups r" and "distinct (pids lv @ tower_pages ups)"
  using assms by (simp_all add: short_leaves_def)

text \<open>The leaves of a tree whose internal pages may have wrong keys: what a scan needs.\<close>

definition loose_rep ::
  "contents \<Rightarrow> nat \<Rightarrow> nat \<Rightarrow> page_id \<Rightarrow> (int \<times> RID) lnode list \<Rightarrow> (int \<times> page_id) lnode list list \<Rightarrow> bool" where
  "loose_rep C L M r lv ups \<longleftrightarrow>
     (\<forall>x \<in> set lv. leaf_node C L x \<and> width_ok (least_leaf L ups) L x) \<and> linked C (pids lv) INVALID_PAGE_ID \<and> leaf_order lv \<and>
     (\<exists>H. tower C M H ups r \<and> map snd H = pids lv) \<and> distinct (pids lv @ tower_pages ups)"

lemma tree_rep_loose: "tree_rep C L M r lv ups \<Longrightarrow> loose_rep C L M r lv ups"
  unfolding tree_rep_def loose_rep_def using snd_heads by blast

lemma leaf_order_merge:
  assumes "leaf_order (U @ (b1, p1, z1) # (b2, p2, z2) # V)"
  shows "leaf_order (U @ (b1, p1, z1 @ z2) # V)"
proof -
  have o: "sorted_wrt (\<lambda>x y. below (fst x) (fst y) \<and> (\<forall>kv \<in> set (keys_of x). \<not> at_least (fst y) (fst kv))) (U @ (b1, p1, z1) # (b2, p2, z2) # V)"
    "\<forall>x \<in> set (U @ (b1, p1, z1) # (b2, p2, z2) # V). keys_sorted (keys_of x) \<and> (\<forall>kv \<in> set (keys_of x). at_least (fst x) (fst kv))"
    using assms unfolding leaf_order_def by blast+
  have z: "keys_sorted z1" "keys_sorted z2" "\<forall>kv \<in> set z1. at_least b1 (fst kv) \<and> \<not> at_least b2 (fst kv)" "\<forall>kv \<in> set z2. at_least b2 (fst kv)" "below b1 b2"
    using o by (auto simp: sorted_wrt_append)
  have "keys_sorted (z1 @ z2)" using z at_least_less by (fastforce simp: sorted_wrt_append)
  moreover have "at_least b1 k" if "at_least b2 k" for k using below_above [OF z(5)] that by blast
  then have "\<forall>kv \<in> set (z1 @ z2). at_least b1 (fst kv)" using z(3,4) by auto
  moreover have "\<forall>x \<in> set U. below (fst x) b1 \<and> (\<forall>kv \<in> set (keys_of x). \<not> at_least b1 (fst kv))" using o(1) by (auto simp: sorted_wrt_append)
  moreover have "\<forall>y \<in> set V. below b1 (fst y) \<and> (\<forall>kv \<in> set (z1 @ z2). \<not> at_least (fst y) (fst kv))" using o(1) by (auto simp: sorted_wrt_append)
  moreover have "leaf_order (U @ V)" using o unfolding leaf_order_def by (auto simp: sorted_wrt_append)
  ultimately show ?thesis unfolding leaf_order_def by (auto simp: sorted_wrt_append)
qed

text \<open>The family of a leaf that is too small.\<close>

lemma short_leaf_family:
  assumes s: "short_leaves C L M r lv (lvp # ups) p" and p: "p \<in> set (pids lv)" and M: "3 \<le> M" "M \<le> 509"
  obtains pp n i where "parent_of C p = Some pp" and "C pp = Some (Internal n)" and "pp \<in> set (pids lvp)" and "i < tp_size n"
    and "snd (children_of n ! i) = p" and "distinct (map snd (children_of n))" and "leaf_family L C p pp (children_of n)"
proof -
  note l = short_leavesD [OF s]
  from p obtain X lo cs Y where lv: "lv = X @ (lo, p, cs) # Y" by (auto dest!: split_list)
  have "tower C M (heads X @ (lo, p) # heads Y) (lvp # ups) r" using l(4) unfolding lv by simp
  from parent_found [OF this] obtain X' lo' pp Y' a k b n where
    f: "lvp = X' @ (lo', pp, a @ (k, p) # b) # Y'" "C pp = Some (Internal n)" "children_of n = a @ (k, p) # b" "tp_max n = M" "parent_of C p = Some pp" .
  let ?cs = "children_of n"
  have up: "concat (map kids lvp) = heads lv" "level_ok C M (least_width M ups) lvp" using l(4) by (simp_all add: tower_Cons)
  have w: "least_width M ups \<le> length ?cs" "length ?cs \<le> M" using level_ok_width [OF up(2), of lo' pp ?cs] f(1) unfolding f(3) by auto
  have two: "2 \<le> internal_min_size M" using M(1) by (simp add: internal_min_size_def)
  have ids: "pids lv = concat (map child_ids lvp)" using snd_concat_kids [of lvp] unfolding up(1) snd_heads .
  have sub: "set (map snd ?cs) \<subseteq> set (pids lv)" unfolding ids f(1,3) by auto
  have "distinct (pids lv)" using l(5) unfolding distinct_append by blast
  then have dcs: "distinct (map snd ?cs)" unfolding ids f(1,3) by auto
  have "leaf_family L C p pp ?cs" unfolding leaf_family_def
  proof (intro conjI ballI)
    have "node_fits (Internal n)" using w(2) M(2) length_items [of "child_array n" "tp_size n"] by (simp add: PAGE_SIZE_def)
    then show "\<exists>n'. C pp = Some (Internal n') \<and> children_of n' = ?cs \<and> node_fits (Internal n')" using f(2) by blast
    show "2 \<le> length ?cs" using w(1) two by (auto simp: least_width_def split: if_splits)
    fix c assume "c \<in> set (map snd ?cs)"
    then have "c \<in> set (pids lv)" using sub by blast
    then obtain y where y: "y \<in> set lv" "c = fst (snd y)" by auto
    have x: "leaf_node C L y" "width_ok (if c = p then least_leaf L (lvp # ups) - 1 else least_leaf L (lvp # ups)) L y" using l(1) y by blast+
    from x(1) y(2) obtain m where m: "C c = Some (Leaf m)" "entries_of m = snd (snd y)" "tp_max m = L" by (cases y) auto
    then have "tp_size m = length (snd (snd y))" by (metis length_items)
    then show "\<exists>m. C c = Some (Leaf m) \<and> tp_max m = L \<and> tp_size m \<le> L \<and> (c \<noteq> p \<longrightarrow> leaf_min_size L \<le> tp_size m)"
      using m(1,3) x(2) by (auto simp: width_ok_iff least_leaf_def split: if_splits)
  qed (rule f(5) dcs)+
  moreover have "tp_size n = length (a @ (k, p) # b)" using f(3) by (metis length_items)
  then have "length a < tp_size n" "snd (?cs ! length a) = p" unfolding f(3) by simp_all
  moreover have "pp \<in> set (pids lvp)" unfolding f(1) by simp
  ultimately show thesis using that [OF f(5,2) _ _ _ dcs] by blast
qed

text \<open>Two neighbouring leaves and the others of their level.\<close>

lemma leaf_neighbours:
  assumes s: "short_leaves C L M r lv (lvp # ups) p" and nb: "neighbours C pp j p1 p2" and pp: "pp \<in> set (pids lvp)"
    and same: "\<forall>x. x \<notin> {p1, p2, pp} \<longrightarrow> C' x = C x"
  shows "\<forall>x \<in> set (tower_pages (lvp # ups)). x \<noteq> pp \<longrightarrow> C' x = C x"
    and "\<forall>c \<in> set (pids lv). c \<noteq> p1 \<longrightarrow> c \<noteq> p2 \<longrightarrow> C' c = C c"
proof -
  note l = short_leavesD [OF s]
  define B W where "B = set (pids lv)" and "W = set (tower_pages (lvp # ups))"
  have BW: "B \<inter> W = {}" using l(5) unfolding distinct_append B_def W_def by blast
  from parent_in_level [OF l(4) nb pp] obtain X' lo' cs Y' n where f: "lvp = X' @ (lo', pp, cs) # Y'" "C pp = Some (Internal n)" "children_of n = cs" "tp_max n = M"
    "Suc j < length cs" "p1 = snd (cs ! j)" "p2 = snd (cs ! Suc j)" "\<forall>c \<in> snd ` set cs. parent_of C c = Some pp"
    "concat (map kids (X' @ (lo', pp, cs) # Y')) = heads lv" "tower C M (heads (X' @ (lo', pp, cs) # Y')) ups r"
    "\<forall>x \<in> set (X' @ (lo', pp, cs) # Y'). inner C M x \<and> width_ok (least_width M ups) M x" "set (map snd cs) \<subseteq> set (pids lv)" .
  have ps: "p1 \<in> B" "p2 \<in> B" using f(5-7,12) unfolding B_def by auto
  have ppW: "pp \<in> W" unfolding W_def using pp by simp
  show "\<forall>x \<in> set (tower_pages (lvp # ups)). x \<noteq> pp \<longrightarrow> C' x = C x" unfolding W_def [symmetric]
  proof (intro ballI impI)
    fix x assume "x \<in> W" "x \<noteq> pp"
    then have "x \<notin> {p1, p2, pp}" using BW ps by blast
    then show "C' x = C x" using same by blast
  qed
  show "\<forall>c \<in> set (pids lv). c \<noteq> p1 \<longrightarrow> c \<noteq> p2 \<longrightarrow> C' c = C c" unfolding B_def [symmetric]
  proof (intro ballI impI)
    fix c assume "c \<in> B" "c \<noteq> p1" "c \<noteq> p2"
    then have "c \<notin> {p1, p2, pp}" using ppW BW by blast
    then show "C' c = C c" using same by blast
  qed
qed

lemma other_leaves:
  assumes s: "short_leaves C L M r (U @ (b1, p1, z1) # (b2, p2, z2) # V) (lvp # ups) p" and pp: "pp \<in> set (pids lvp)" and p: "p \<in> {p1, p2}"
    and same: "\<forall>x. x \<notin> {p1, p2, pp} \<longrightarrow> C' x = C x"
  shows "\<forall>x \<in> set U \<union> set V. leaf_node C' L x \<and> width_ok (leaf_min_size L) L x \<and> C' (fst (snd x)) = C (fst (snd x))"
    and "p1 \<noteq> p2" and "\<forall>x \<in> set (tower_pages (lvp # ups)). x \<noteq> pp \<longrightarrow> C' x = C x"
proof -
  note l = short_leavesD [OF s]
  define PU PV W where "PU = set (pids U)" and "PV = set (pids V)" and "W = set (tower_pages (lvp # ups))"
  have dd: "p1 \<notin> PU \<union> PV \<union> W" "p2 \<notin> PU \<union> PV \<union> W" "p1 \<noteq> p2" "(PU \<union> PV) \<inter> W = {}"
  proof -
    have "distinct ((pids U @ p1 # p2 # pids V) @ tower_pages (lvp # ups))" using l(5) by simp
    then show "p1 \<notin> PU \<union> PV \<union> W" "p2 \<notin> PU \<union> PV \<union> W" "p1 \<noteq> p2" "(PU \<union> PV) \<inter> W = {}"
      unfolding distinct_append set_append PU_def PV_def W_def by auto
  qed
  then show "p1 \<noteq> p2" by blast
  have ppW: "pp \<in> W" unfolding W_def using pp by simp
  show "\<forall>x \<in> set (tower_pages (lvp # ups)). x \<noteq> pp \<longrightarrow> C' x = C x" unfolding W_def [symmetric]
  proof (intro ballI impI)
    fix x assume "x \<in> W" "x \<noteq> pp"
    then have "x \<notin> {p1, p2, pp}" using dd(1,2) by blast
    then show "C' x = C x" using same by blast
  qed
  show "\<forall>x \<in> set U \<union> set V. leaf_node C' L x \<and> width_ok (leaf_min_size L) L x \<and> C' (fst (snd x)) = C (fst (snd x))"
  proof
    fix x assume x: "x \<in> set U \<union> set V"
    then have P: "fst (snd x) \<in> PU \<union> PV" unfolding PU_def PV_def by auto
    then have out: "fst (snd x) \<notin> {p1, p2, pp}" using dd ppW by blast
    then have c: "C' (fst (snd x)) = C (fst (snd x))" using same by blast
    have "x \<in> set (U @ (b1, p1, z1) # (b2, p2, z2) # V)" using x by auto
    from bspec [OF l(1) this] have "leaf_node C L x" "width_ok (if fst (snd x) = p then least_leaf L (lvp # ups) - 1 else least_leaf L (lvp # ups)) L x" by blast+
    moreover have "fst (snd x) \<noteq> p" using out p by blast
    ultimately show "leaf_node C' L x \<and> width_ok (leaf_min_size L) L x \<and> C' (fst (snd x)) = C (fst (snd x))"
      using c leaf_node_same [of C L x C'] by (simp add: least_leaf_def)
  qed
qed

lemma leaf_entries_eq: "leaf_node C L (b, q, z) \<Longrightarrow> C q = Some (Leaf l) \<Longrightarrow> z = entries_of l \<and> tp_max l = L"
  by auto

lemma moved_leaves:
  assumes s: "short_leaves C L M r lv (lvp # ups) p" and nb: "neighbours C pp j p1 p2" and pp: "pp \<in> set (pids lvp)" and p: "p \<in> {p1, p2}"
    and mv: "leaves_moved L C C' pp p1 p2 sp k" and pk: "parent_keyed C C' pp j k"
  obtains lv' lvp' where "tree_rep C' L M r lv' (lvp' # ups)" and "all_entries lv' = all_entries lv"
proof -
  note l = short_leavesD [OF s]
  from mv obtain l1 l2 m1 m2 where m: "C p1 = Some (Leaf l1)" "C p2 = Some (Leaf l2)" "C' p1 = Some (Leaf m1)" "C' p2 = Some (Leaf m2)"
    "leaf_keeps l1 m1" "leaf_keeps l2 m2" "entries_of m1 = take sp (entries_of l1 @ entries_of l2)" "entries_of m2 = drop sp (entries_of l1 @ entries_of l2)"
    "k = fst ((entries_of l1 @ entries_of l2) ! sp)" "0 < sp" "sp < tp_size l1 + tp_size l2" "leaf_min_size L \<le> sp" "sp \<le> L"
    "leaf_min_size L + sp \<le> tp_size l1 + tp_size l2" "tp_size l1 + tp_size l2 \<le> sp + L" "\<forall>x. x \<notin> {p1, p2, pp} \<longrightarrow> C' x = C x"
    unfolding leaves_moved_def by blast
  let ?J = "entries_of l1 @ entries_of l2"
  have d: "distinct (tower_pages (lvp # ups))" "distinct (pids lv)" using l(5) unfolding distinct_append by blast+
  have up: "\<forall>x \<in> set (tower_pages (lvp # ups)). x \<noteq> pp \<longrightarrow> C' x = C x" and par: "\<forall>c \<in> set (pids lv). parent_of C' c = parent_of C c"
    using leaf_neighbours [OF s nb pp m(16)] m(1-6) by (auto simp: parent_of_def leaf_keeps_def)
  from keyed_level [OF l(4) nb pk pp d(1) up par] obtain U b1 z1 k2 z2 V lvp' where
    k: "lv = U @ (b1, p1, z1) # (Some k2, p2, z2) # V" "key_of C pp p2 k2" "pids lvp' = pids lvp"
    "\<forall>z1' z2'. tower C' M (heads (U @ (b1, p1, z1') # (Some k, p2, z2') # V)) (lvp' # ups) r" .
  note ot = other_leaves [OF s [unfolded k(1)] pp p m(16)]
  have "leaf_node C L (b1, p1, z1)" "leaf_node C L (Some k2, p2, z2)" using l(1) unfolding k(1) by auto
  then have z: "z1 = entries_of l1" "z2 = entries_of l2" "tp_max l1 = L" "tp_max l2 = L" using leaf_entries_eq m(1,2) by blast+
  let ?lv = "U @ (b1, p1, take sp ?J) # (Some k, p2, drop sp ?J) # V"
  have J: "length ?J = tp_size l1 + tp_size l2" by simp
  have "leaf_order (U @ (b1, p1, ?J) # V)" using leaf_order_merge [OF l(3) [unfolded k(1)]] unfolding z .
  from leaf_order_cut [OF this m(10)] have ord: "leaf_order ?lv" using m(9,11) J by simp
  have two: "leaf_node C' L (b1, p1, take sp ?J)" "leaf_node C' L (Some k, p2, drop sp ?J)"
    using m(3-8) z(3,4) by (simp_all add: leaf_keeps_def)
  have widths: "width_ok (leaf_min_size L) L (b1, p1, take sp ?J)" "width_ok (leaf_min_size L) L (Some k, p2, drop sp ?J)"
    unfolding width_ok.simps length_take length_drop J using m(11-15) by linarith+
  have link: "linked C' (pids ?lv) INVALID_PAGE_ID"
  proof (rule linked_frame)
    show "linked C (pids ?lv) INVALID_PAGE_ID" using l(2) unfolding k(1) by simp
    have "next_of C' (fst (snd x)) = next_of C (fst (snd x))" if "x \<in> set U \<union> set V" for x using ot(1) that by (simp add: next_of_def)
    then show "\<forall>x \<in> set (pids ?lv). next_of C' x = next_of C x" using m(1-6) by (auto simp: next_of_def leaf_keeps_def)
  qed
  have pages: "pids ?lv = pids lv" "tower_pages (lvp' # ups) = tower_pages (lvp # ups)" unfolding k(1) using k(3) by simp_all
  have "tree_rep C' L M r ?lv (lvp' # ups)" unfolding tree_rep_def
  proof (intro conjI)
    show "\<forall>x \<in> set ?lv. leaf_node C' L x \<and> width_ok (least_leaf L (lvp' # ups)) L x"
      using ot(1) two widths by (auto simp: least_leaf_def simp del: leaf_node.simps width_ok.simps)
    show "tower C' M (heads ?lv) (lvp' # ups) r" using k(4) by simp
    show "distinct (pids ?lv @ tower_pages (lvp' # ups))" unfolding pages using l(5) .
  qed (rule link ord)+
  moreover have "all_entries ?lv = all_entries lv" unfolding k(1) z
    using append_take_drop_id [of sp ?J] by (simp del: take_append drop_append append_take_drop_id)
  ultimately show thesis by (rule that)
qed

lemma merged_leaves:
  assumes s: "short_leaves C L M r lv (lvp # ups) p" and nb: "neighbours C pp j p1 p2" and pp: "pp \<in> set (pids lvp)" and p: "p \<in> {p1, p2}"
    and mg: "leaves_merged L C C' pp p1 p2" and pc: "parent_cut C C' pp j"
  obtains lv' lvp' where "short_level C' M (heads lv') lvp' ups r pp" and "pids lvp' = pids lvp" and "leaf_order lv'"
    and "\<forall>x \<in> set lv'. leaf_node C' L x \<and> width_ok (leaf_min_size L) L x" and "linked C' (pids lv') INVALID_PAGE_ID"
    and "distinct (pids lv' @ tower_pages (lvp # ups))" and "all_entries lv' = all_entries lv"
    and "\<forall>x \<in> set (tower_pages (lvp # ups)). x \<noteq> pp \<longrightarrow> C' x = C x"
proof -
  note l = short_leavesD [OF s]
  from mg obtain l1 l2 m1 where m: "C p1 = Some (Leaf l1)" "C p2 = Some (Leaf l2)" "C' p1 = Some (Leaf m1)" "entries_of m1 = entries_of l1 @ entries_of l2"
    "tp_max m1 = tp_max l1" "tp_parent m1 = tp_parent l1" "next_leaf m1 = next_leaf l2"
    "leaf_min_size L \<le> tp_size l1 + tp_size l2" "tp_size l1 + tp_size l2 \<le> L" "\<forall>x. x \<notin> {p1, p2, pp} \<longrightarrow> C' x = C x"
    unfolding leaves_merged_def by blast
  let ?J = "entries_of l1 @ entries_of l2"
  have d: "distinct (tower_pages (lvp # ups))" "distinct (pids lv)" using l(5) unfolding distinct_append by blast+
  have up: "\<forall>x \<in> set (tower_pages (lvp # ups)). x \<noteq> pp \<longrightarrow> C' x = C x" and par: "\<forall>c \<in> set (pids lv). c \<noteq> p2 \<longrightarrow> parent_of C' c = parent_of C c"
    using leaf_neighbours [OF s nb pp m(10)] m(1,3,6) by (auto simp: parent_of_def)
  from cut_level [OF l(4) nb pc pp d(2,1) up par] obtain U b1 z1 k2 z2 V lvp' where
    k: "lv = U @ (b1, p1, z1) # (Some k2, p2, z2) # V" "key_of C pp p2 k2" "pids lvp' = pids lvp"
    "\<forall>z1'. short_level C' M (heads (U @ (b1, p1, z1') # V)) lvp' ups r pp" .
  note ot = other_leaves [OF s [unfolded k(1)] pp p m(10)]
  have "leaf_node C L (b1, p1, z1)" "leaf_node C L (Some k2, p2, z2)" using l(1) unfolding k(1) by auto
  then have z: "z1 = entries_of l1" "z2 = entries_of l2" "tp_max l1 = L" "tp_max l2 = L" using leaf_entries_eq m(1,2) by blast+
  let ?lv = "U @ (b1, p1, ?J) # V"
  have J: "length ?J = tp_size l1 + tp_size l2" by simp
  have ord: "leaf_order ?lv" using leaf_order_merge [OF l(3) [unfolded k(1)]] unfolding z .
  have one: "leaf_node C' L (b1, p1, ?J)" "width_ok (leaf_min_size L) L (b1, p1, ?J)"
    using m(3-5) z(3) m(8,9) J by simp_all
  have next_of: "next_of C' (fst (snd x)) = next_of C (fst (snd x))" if "x \<in> set U \<union> set V" for x using ot(1) that by (simp add: next_of_def)
  have link: "linked C' (pids ?lv) INVALID_PAGE_ID"
  proof -
    have old: "linked C (pids U @ p1 # p2 # pids V) INVALID_PAGE_ID" using l(2) unfolding k(1) by simp
    have "linked C' (pids U) p1" "linked C' (pids V) INVALID_PAGE_ID"
      using old linked_frame [of C "pids U" p1 C'] linked_frame [of C "pids V" INVALID_PAGE_ID C'] next_of by (auto simp: linked_append)
    moreover have "next_of C' p1 = Some (hd (pids V @ [INVALID_PAGE_ID]))"
      using old m(2,3,7) by (simp add: linked_append next_of_def)
    ultimately show ?thesis by (simp add: linked_append)
  qed
  have "\<forall>x \<in> set ?lv. leaf_node C' L x \<and> width_ok (leaf_min_size L) L x"
    using ot(1) one by (auto simp del: leaf_node.simps width_ok.simps)
  moreover have "distinct (pids ?lv @ tower_pages (lvp # ups))" using l(5) unfolding k(1) by auto
  moreover have "all_entries ?lv = all_entries lv" unfolding k(1) z by simp
  ultimately show thesis using that [of ?lv lvp'] k(3,4) ord link up by blast
qed

text \<open>The tree after the climb above a level of leaves.\<close>

definition removed ::
  "bool \<Rightarrow> BPlusTree \<Rightarrow> page_id list \<Rightarrow> page_id \<Rightarrow> (int \<times> RID) list \<Rightarrow> (unit, BPlusTree) outcome option \<Rightarrow> bool" where
  "removed exact T P N kvs res \<longleftrightarrow>
     (\<exists>r' C' S'. res = Some (Inr (), st T r' C' P S' N) \<and> pool_ok C' P S' N \<and>
        (if r' = INVALID_PAGE_ID then kvs = []
         else \<exists>lv' ups'. loose_rep C' (leaf_max_size T) (internal_max_size T) r' lv' ups' \<and> all_entries lv' = kvs \<and>
           (exact \<longrightarrow> tree_rep C' (leaf_max_size T) (internal_max_size T) r' lv' ups')))"

lemma removed_exact:
  assumes "res = Some (Inr (), st T r C P S N)" and "pool_ok C P S N" and "tree_rep C (leaf_max_size T) (internal_max_size T) r lv ups"
    and "all_entries lv = kvs"
  shows "removed exact T P N kvs res"
  unfolding removed_def using assms tree_rep_loose [OF assms(3)] tree_rep_root [OF assms(3,2)]
  by (intro exI [of _ r] exI [of _ C] exI [of _ S]) auto

lemma removedE:
  assumes "removed exact T P N kvs res"
  obtains r' C' S' where "res = Some (Inr (), st T r' C' P S' N)" and "pool_ok C' P S' N" and "r' = INVALID_PAGE_ID \<longrightarrow> kvs = []"
    and "r' \<noteq> INVALID_PAGE_ID \<longrightarrow> (\<exists>lv' ups'. loose_rep C' (leaf_max_size T) (internal_max_size T) r' lv' ups' \<and> all_entries lv' = kvs \<and>
      (exact \<longrightarrow> tree_rep C' (leaf_max_size T) (internal_max_size T) r' lv' ups'))"
  using assms unfolding removed_def by (elim exE conjE) (rule that, auto split: if_splits)

lemma climbed_leaves:
  assumes res: "remove_result exact T C M (heads lv) ups P N res" and L: "L = leaf_max_size T" "2 \<le> L" and M: "M = internal_max_size T"
    and leaves: "\<forall>x \<in> set lv. leaf_node C L x \<and> width_ok (leaf_min_size L) L x" and link: "linked C (pids lv) INVALID_PAGE_ID"
    and ord: "leaf_order lv" and d: "distinct (pids lv @ tower_pages ups)"
  shows "removed exact T P N (all_entries lv) res"
proof -
  from res obtain r' C' S' H' ups' where r: "res = Some (Inr (), st T r' C' P S' N)" "tower C' M H' ups' r'" "map snd H' = map snd (heads lv)"
    "exact \<longrightarrow> H' = heads lv" "pool_ok C' P S' N" "distinct (tower_pages ups')" "set (tower_pages ups') \<subseteq> set (tower_pages ups)"
    "family_frame C C' (set (tower_pages ups)) (snd ` set (heads lv))" unfolding remove_result_def by blast
  have same: "same_entries (C x) (C' x)" if "x \<in> set (pids lv)" for x
    using r(8) that unfolding family_frame_def snd_set_heads by blast
  have "1 \<le> leaf_min_size L" using L(2) by (simp add: leaf_min_size_def)
  then have "least_leaf L ups' \<le> leaf_min_size L" by (simp add: least_leaf_def)
  then have nodes: "\<forall>x \<in> set lv. leaf_node C' L x \<and> width_ok (least_leaf L ups') L x"
    using leaves leaf_node_same same width_mono by (metis (no_types, lifting) image_eqI list.set_map)
  have link': "linked C' (pids lv) INVALID_PAGE_ID"
  proof (rule linked_frame [OF link], intro ballI)
    fix x assume x: "x \<in> set (pids lv)"
    then obtain y where y: "y \<in> set lv" "fst (snd y) = x" unfolding set_map by blast
    with leaves have "leaf_node C L y" by blast
    then obtain l where l: "C x = Some (Leaf l)" using y(2) by (metis leaf_node.simps prod.collapse)
    then have "next_of C x = Some (next_leaf l)" by (simp add: next_of_def)
    then show "next_of C' x = next_of C x" using next_of_same [where C = C and C' = C' and p = x] same [OF x] by simp
  qed
  have d': "distinct (pids lv @ tower_pages ups')" using d r(6,7) unfolding distinct_append by blast
  have "loose_rep C' L M r' lv ups'" unfolding loose_rep_def using nodes link' ord d' r(2,3) unfolding snd_heads by blast
  moreover have "exact \<longrightarrow> tree_rep C' L M r' lv ups'" unfolding tree_rep_def using nodes link' ord d' r(2,4) by blast
  moreover have "r' \<noteq> INVALID_PAGE_ID" using tower_root [OF r(2)] pool_ok_valid [OF r(5), of r'] by (auto simp: parent_of_def)
  ultimately show ?thesis unfolding removed_def using r(1,5) L(1) M
    by (intro exI [of _ r'] exI [of _ C'] exI [of _ S']) auto
qed

section \<open>Repairing a leaf\<close>

lemma fix_leaf_enough:
  assumes "C p = Some (Leaf u)" and "leaf_min_size (tp_max u) \<le> tp_size u" and "C pp = Some (Internal n)" and "pool_ok C P S N" and "room 3 T P"
  shows "fix_leaf p pp i ls rs (st T r C (pp # P) S N) = (Inr None, st T r C P S N)"
proof -
  have "p \<in> S \<or> p \<in> set P" "pp \<in> S \<or> pp \<in> set P" using pool_ok_clean [OF assms(4)] assms(1,3) by blast+
  moreover have "pp \<noteq> p" using assms(1,3) by auto
  ultimately show ?thesis unfolding fix_leaf_def using assms(1,2) room_cards(2) [OF assms(5)]
    by (auto simp: exec_simps)
qed

lemma leaf_fits: "leaf_node C L x \<Longrightarrow> width_ok w L x \<Longrightarrow> L \<le> 338 \<Longrightarrow> fits C (fst (snd x))"
  by (cases x) (auto simp: fits_def PAGE_SIZE_def)

lemma repair_leaf:
  assumes s: "short_leaves C L M r lv (lvp # ups) p" and p: "p \<in> set (pids lv)" and pool: "pool_ok C P S N" and room: "room 4 T P"
    and L: "L = leaf_max_size T" "2 \<le> L" "L \<le> 338" and M: "M = internal_max_size T" "3 \<le> M" "M \<le> 509"
    and c: "exact \<longrightarrow> careful C (set (tower_pages (lvp # ups)))"
  shows "removed exact T P N (all_entries lv) (remove_up p (st T r C P S N))"
proof -
  note l = short_leavesD [OF s]
  have room': "room 3 T P" "room 1 T P" using room by (simp_all add: room_def)
  from short_leaf_family [OF s p M(2,3)] obtain q n i where f: "parent_of C p = Some q" "C q = Some (Internal n)" "q \<in> set (pids lvp)"
    "i < tp_size n" "snd (children_of n ! i) = p" "distinct (map snd (children_of n))" "leaf_family L C p q (children_of n)" .
  from p obtain X lo ks Y where lv: "lv = X @ (lo, p, ks) # Y" by (auto dest!: split_list)
  have "leaf_node C L (lo, p, ks)" and w: "leaf_min_size L - 1 \<le> length ks" "length ks \<le> L" using l(1) unfolding lv by (auto simp: least_leaf_def)
  then obtain u where u: "C p = Some (Leaf u)" "entries_of u = ks" "tp_max u = L" by auto
  have size: "tp_size u = length ks" using u(2) by (metis length_items)
  let ?fix = "fix_leaf p q (int i) (side (int i - 1) (children_of n)) (side (int i + 1) (children_of n)) (st T r C (q # P) S N)"
  have go: "remove_up p (st T r C P S N) = go_on ?fix"
    using fix_underflow_st [OF pool u(1) f(1,2,6,4,5) room'(2), of r] by (simp add: remove_up_go_on)
  show ?thesis
  proof (cases "leaf_min_size L \<le> tp_size u")
    case True
    have "width_ok (least_leaf L (lvp # ups)) L x" if x: "x \<in> set lv" for x
    proof (cases "fst (snd x) = p")
      case True
      have "leaf_node C L x" using l(1) x by blast
      then have "length (snd (snd x)) = tp_size u" using True u(1) by (cases x) auto
      then show ?thesis using \<open>leaf_min_size L \<le> tp_size u\<close> size w(2) by (simp add: width_ok_iff least_leaf_def)
    next
      case False
      then show ?thesis using bspec [OF l(1) x] by simp
    qed
    then have "tree_rep C L M r lv (lvp # ups)" using l unfolding tree_rep_def by blast
    moreover have "?fix = (Inr None, st T r C P S N)" by (rule fix_leaf_enough [OF u(1) _ f(2) pool room'(1)]) (use True u(3) in simp)
    ultimately show ?thesis unfolding go using pool L(1) M(1) by (intro removed_exact) simp_all
  next
    case False
    have i: "i < length (children_of n)" using f(4) by simp
    have short: "tp_size u < leaf_min_size L" "leaf_min_size L \<le> Suc (tp_size u)" using False w(1) size by simp_all
    from fix_leaf_st [OF f(7) pool i f(5) u(1) short L(2,3) room'(1), of r] obtain C' S' j p1 p2 where
      nb: "neighbours C q j p1 p2" "p \<in> {p1, p2}" and
      step: "(\<exists>sp k. ?fix = (Inr None, st T r C' P S' N) \<and> pool_ok C' P S' N \<and> leaves_moved L C C' q p1 p2 sp k \<and> parent_keyed C C' q j k) \<or>
        (?fix = shrink_root q (st T r C' (q # P) S' N) \<and> pool_ok C' (q # P) S' N \<and> leaves_merged L C C' q p1 p2 \<and> parent_cut C C' q j)"
      unfolding step_result_def by blast
    from step show ?thesis
    proof (elim disjE exE conjE)
      fix sp k
      assume m: "?fix = (Inr None, st T r C' P S' N)" "pool_ok C' P S' N" "leaves_moved L C C' q p1 p2 sp k" "parent_keyed C C' q j k"
      from moved_leaves [OF s nb(1) f(3) nb(2) m(3,4)] obtain lv' lvp' where
        e: "tree_rep C' L M r lv' (lvp' # ups)" "all_entries lv' = all_entries lv" .
      show ?thesis unfolding go m(1) by (rule removed_exact [OF _ m(2) e(1) [unfolded L(1) M(1)] e(2)]) simp
    next
      assume m: "?fix = shrink_root q (st T r C' (q # P) S' N)" "pool_ok C' (q # P) S' N" "leaves_merged L C C' q p1 p2" "parent_cut C C' q j"
      from merged_leaves [OF s nb(1) f(3) nb(2) m(3,4)] obtain lv' lvp' where
        e: "short_level C' M (heads lv') lvp' ups r q" "pids lvp' = pids lvp" "leaf_order lv'"
        "\<forall>x \<in> set lv'. leaf_node C' L x \<and> width_ok (leaf_min_size L) L x" "linked C' (pids lv') INVALID_PAGE_ID"
        "distinct (pids lv' @ tower_pages (lvp # ups))" "all_entries lv' = all_entries lv"
        "\<forall>x \<in> set (tower_pages (lvp # ups)). x \<noteq> q \<longrightarrow> C' x = C x" .
      have t: "tower_pages (lvp' # ups) = tower_pages (lvp # ups)" using e(2) by simp
      have d: "distinct (pids lv' @ tower_pages (lvp' # ups))" using e(6) unfolding t .
      have "exact \<longrightarrow> short_no_loan C' q \<and> careful C' (set (tower_pages ups))"
      proof
        assume exact
        have "tower C M (heads lvp) ups r" using l(4) by (simp add: tower_Cons)
        moreover have "distinct (tower_pages (lvp # ups))" using l(5) unfolding distinct_append by blast
        ultimately show "short_no_loan C' q \<and> careful C' (set (tower_pages ups))"
          using careful_after_cut [OF _ _ f(3) e(8) m(4) nb(1) m(2)] c \<open>exact\<close> by blast
      qed
      moreover have "\<forall>x \<in> set (map snd (heads lv')). fits C' x" using e(4) leaf_fits L(3) by (auto simp del: leaf_node.simps width_ok.simps)
      moreover have "q \<in> set (pids lvp')" using f(3) e(2) by simp
      moreover have "distinct (map snd (heads lv') @ tower_pages (lvp' # ups))" using d unfolding snd_heads .
      ultimately have "remove_result exact T C' M (heads lv') (lvp' # ups) P N (go_on (shrink_root q (st T r C' (q # P) S' N)))"
        using shrink_ok [OF room M(2,3) e(1) _ m(2)] by blast
      from climbed_leaves [OF this L(1,2) M(1) e(4,5,3) d] show ?thesis unfolding go m(1) e(7) .
    qed
  qed
qed

section \<open>Remove\<close>

lemma leaf_Remove_keeps:
  "tp_max (snd (leaf_Remove k l)) = tp_max l" "tp_parent (snd (leaf_Remove k l)) = tp_parent l"
  "next_leaf (snd (leaf_Remove k l)) = next_leaf l"
  by (simp_all add: leaf_Remove_def Let_def)

lemma all_entries_del:
  assumes "leaf_order (X @ (lo, p, kvs) # Y)" and "covers key (heads X) (lo, p) (heads Y)"
  shows "all_entries (X @ (lo, p, filter (\<lambda>kv. fst kv \<noteq> key) kvs) # Y) = filter (\<lambda>kv. fst kv \<noteq> key) (all_entries (X @ (lo, p, kvs) # Y))"
    and "leaf_order (X @ (lo, p, filter (\<lambda>kv. fst kv \<noteq> key) kvs) # Y)"
proof -
  note o = leaf_order_split [OF assms]
  show "all_entries (X @ (lo, p, filter (\<lambda>kv. fst kv \<noteq> key) kvs) # Y) = filter (\<lambda>kv. fst kv \<noteq> key) (all_entries (X @ (lo, p, kvs) # Y))"
    using entries_around(3) [OF o(1,2)] by simp
  have "\<forall>kv \<in> set kvs. at_least lo (fst kv) \<and> (\<forall>y \<in> set Y. \<not> at_least (fst y) (fst kv))"
    using assms(1) by (auto simp: leaf_order_def sorted_wrt_append)
  moreover have "keys_sorted (filter (\<lambda>kv. fst kv \<noteq> key) kvs)" using o(3) by (simp add: sorted_wrt_map sorted_wrt_filter)
  ultimately show "leaf_order (X @ (lo, p, filter (\<lambda>kv. fst kv \<noteq> key) kvs) # Y)"
    using leaf_order_replace [OF assms(1)] by (meson filter_is_subset subsetD)
qed

lemma filter_absent: "map_of kvs k = None \<Longrightarrow> filter (\<lambda>kv. fst kv \<noteq> k) kvs = kvs"
  by (induction kvs) (auto split: if_splits)

lemma filter_present: "keys_sorted kvs \<Longrightarrow> map_of kvs k \<noteq> None \<Longrightarrow> Suc (length (filter (\<lambda>kv. fst kv \<noteq> k) kvs)) = length kvs"
proof (induction kvs)
  case (Cons kv kvs)
  show ?case
  proof (cases "fst kv = k")
    case True
    then have "map_of kvs k = None" using Cons.prems(1) by (auto simp: map_of_eq_None_iff)
    then show ?thesis using filter_absent [of kvs k] True by simp
  next
    case False
    then show ?thesis using Cons by (cases kv) simp
  qed
qed simp

text \<open>Step by step: the run of \<open>Remove\<close> from the leaf that it has found.\<close>

lemma tree_Remove_run:
  assumes root: "r \<noteq> INVALID_PAGE_ID" and l: "C p = Some (Leaf l)" and pool: "pool_ok C P S N"
    and go: "descend (RuntimeError ''Remove: FetchPage failed'') (\<lambda>n. int_Lookup n key) r (st T r C P S N) = Some (Inr (p, l), st T r C (p # P) S N)"
    and rm: "leaf_Remove key l = (tp_size l', l')" and fit: "node_fits (Leaf l')" and keeps: "tp_parent l' = tp_parent l"
  shows "tp_size l' = tp_size l \<Longrightarrow> 0 < tp_size l \<Longrightarrow> tree_Remove key (st T r C P S N) = Some (Inr (), st T r C P S N)"
    and "tp_size l' \<noteq> tp_size l \<Longrightarrow> tp_parent l = INVALID_PAGE_ID \<Longrightarrow> tp_size l' = 0 \<Longrightarrow> r = p \<Longrightarrow>
      tree_Remove key (st T r C P S N) = Some (Inr (), delete_page p (st T INVALID_PAGE_ID (C(p \<mapsto> Leaf l')) P (insert p S) N))"
    and "tp_size l' \<noteq> tp_size l \<Longrightarrow> tp_parent l = INVALID_PAGE_ID \<Longrightarrow> 0 < tp_size l' \<Longrightarrow>
      tree_Remove key (st T r C P S N) = Some (Inr (), st T r (C(p \<mapsto> Leaf l')) P (insert p S) N)"
    and "tp_size l' \<noteq> tp_size l \<Longrightarrow> tp_parent l \<noteq> INVALID_PAGE_ID \<Longrightarrow>
      tree_Remove key (st T r C P S N) = remove_up p (st T r (C(p \<mapsto> Leaf l')) P (insert p S) N)"
proof -
  have S: "insert p (S - {p}) = insert p S" by auto
  have one: "tree_Remove key (st T r C P S N) = and_then (Some (if tp_size l' \<noteq> tp_size l then put_page p (Leaf l') (st T r C (p # P) S N) else (Inr (), st T r C (p # P) S N)))
      (\<lambda>_ t. if tp_parent l' = INVALID_PAGE_ID then
                if tp_size l' = 0 then
                  let old_root = root_page_id t; t = t\<lparr>root_page_id := INVALID_PAGE_ID\<rparr>
                  in Some (Inr (), delete_page old_root (unpin old_root True t))
                else Some (Inr (), unpin p (tp_size l' \<noteq> tp_size l) t)
              else
                let t = unpin p (tp_size l' \<noteq> tp_size l) t in
                if \<not> tp_size l' \<noteq> tp_size l then Some (Inr (), t) else remove_up p t)"
    using root by (simp add: tree_Remove_def IsEmpty_def go rm Let_def)
  note clean = unpin_back [OF pool l, of T r]
  show "tree_Remove key (st T r C P S N) = Some (Inr (), st T r C P S N)" if "tp_size l' = tp_size l" "0 < tp_size l"
    unfolding one using that clean by (simp add: Let_def)
  show "tree_Remove key (st T r C P S N) = Some (Inr (), delete_page p (st T INVALID_PAGE_ID (C(p \<mapsto> Leaf l')) P (insert p S) N))"
    if "tp_size l' \<noteq> tp_size l" "tp_parent l = INVALID_PAGE_ID" "tp_size l' = 0" "r = p"
    unfolding one using that keeps fit S by (simp add: exec_simps Let_def del: node_fits.simps)
  show "tree_Remove key (st T r C P S N) = Some (Inr (), st T r (C(p \<mapsto> Leaf l')) P (insert p S) N)"
    if "tp_size l' \<noteq> tp_size l" "tp_parent l = INVALID_PAGE_ID" "0 < tp_size l'"
    unfolding one using that keeps fit S by (simp add: exec_simps Let_def del: node_fits.simps)
  show "tree_Remove key (st T r C P S N) = remove_up p (st T r (C(p \<mapsto> Leaf l')) P (insert p S) N)"
    if "tp_size l' \<noteq> tp_size l" "tp_parent l \<noteq> INVALID_PAGE_ID"
    unfolding one using that keeps fit S by (simp add: exec_simps Let_def del: node_fits.simps)
qed

text \<open>A leaf that has lost one entry, in a tree with internal pages.\<close>

lemma leaf_shortened:
  assumes t: "tree_rep C L M r (X @ (lo, p, kvs) # Y) (lvp # ups)" and l: "C p = Some (Leaf l)"
    and l': "entries_of l' = kvs'" "tp_max l' = L" "tp_parent l' = tp_parent l" "next_leaf l' = next_leaf l"
    and less: "Suc (length kvs') = length kvs" and ord: "leaf_order (X @ (lo, p, kvs') # Y)"
  shows "short_leaves (C(p \<mapsto> Leaf l')) L M r (X @ (lo, p, kvs') # Y) (lvp # ups) p"
proof -
  let ?C = "C(p \<mapsto> Leaf l')" and ?lv = "X @ (lo, p, kvs') # Y"
  note d = tree_repD [OF t] and lv' = leaf_replaced [OF t l l']
  have "width_ok (if fst (snd x) = p then least_leaf L (lvp # ups) - 1 else least_leaf L (lvp # ups)) L x" if x: "x \<in> set ?lv" for x
  proof -
    have "width_ok (least_leaf L (lvp # ups)) L (lo, p, kvs)" using d(2) by simp
    then have "width_ok (least_leaf L (lvp # ups) - 1) L (lo, p, kvs')" using less unfolding width_ok.simps by linarith
    moreover have "width_ok (least_leaf L (lvp # ups)) L x" if "x \<in> set X \<union> set Y" using d(2) that by auto
    ultimately show ?thesis using x by (auto simp: width_ok_iff)
  qed
  then show ?thesis unfolding short_leaves_def using lv' d(6) ord by simp
qed

lemma careful_shortened:
  assumes t: "tree_rep C L M r lv ups" and p: "p \<in> set (pids lv)" "C p = Some (Leaf l)" and l': "tp_parent l' = tp_parent l"
    and inv: "C INVALID_PAGE_ID = None" and c: "careful C (set (tower_pages ups))"
  shows "careful (C(p \<mapsto> Leaf l')) (set (tower_pages ups))"
proof -
  have "parent_of (C(p \<mapsto> Leaf l')) p = parent_of C p" using p(2) l' by (simp add: parent_of_def)
  moreover have "(C(p \<mapsto> Leaf l')) INVALID_PAGE_ID = None" using p(2) inv by auto
  ultimately show ?thesis using careful_above(2) [OF tree_repD(5,6) [OF t] p(1)] c by simp
qed

text \<open>The leaf that is the root: it is rewritten, or the tree is empty afterwards.\<close>

lemma remove_root_leaf:
  assumes t: "tree_rep C L M r [(None, r, kvs)] []" and l: "C r = Some (Leaf l)" and pool: "pool_ok C P S N"
    and L: "L = leaf_max_size T" and M: "M = internal_max_size T"
    and l': "entries_of l' = kvs'" "tp_max l' = L" "tp_parent l' = tp_parent l" "next_leaf l' = next_leaf l" "length kvs' \<le> L"
    and ord: "leaf_order [(None, r, kvs')]"
    and empty: "tp_size l' = 0 \<Longrightarrow> run = Some (Inr (), delete_page r (st T INVALID_PAGE_ID (C(r \<mapsto> Leaf l')) P (insert r S) N))"
    and rest: "0 < tp_size l' \<Longrightarrow> run = Some (Inr (), st T r (C(r \<mapsto> Leaf l')) P (insert r S) N)"
  shows "removed exact T P N kvs' run"
proof -
  have pool': "pool_ok (C(r \<mapsto> Leaf l')) P (insert r S) N" by (rule pool_ok_put [OF pool l])
  have size: "tp_size l' = length kvs'" using l'(1) by (metis length_items)
  show ?thesis
  proof (cases "tp_size l' = 0")
    case True
    from delete_page_cases [OF pool', of r T INVALID_PAGE_ID] obtain C' where
      C': "delete_page r (st T INVALID_PAGE_ID (C(r \<mapsto> Leaf l')) P (insert r S) N) = st T INVALID_PAGE_ID C' P (insert r S) N"
      "pool_ok C' P (insert r S) N" .
    have "kvs' = []" using True size by simp
    then show ?thesis unfolding removed_def empty [OF True] C'(1) using C'(2)
      by (intro exI [of _ INVALID_PAGE_ID] exI [of _ C'] exI [of _ "insert r S"]) simp
  next
    case False
    then have w: "width_ok (least_leaf L []) L (None, r, kvs')" using l'(5) size by (simp add: least_leaf_def Suc_le_eq)
    from tree_rep_replace [of C L M r "[]" None r kvs "[]" "[]" l l' kvs'] t l l'(1-4) ord
    have "tree_rep (C(r \<mapsto> Leaf l')) L M r [(None, r, kvs')] []" using w by simp
    then show ?thesis
      using rest pool' False L M by (intro removed_exact [where lv = "[(None, r, kvs')]" and ups = "[]"]) simp_all
  qed
qed

lemma remove_nonempty:
  assumes t: "tree_rep C L M r lv ups" and pool: "pool_ok C P S N" and room: "room 4 T P"
    and L: "L = leaf_max_size T" "2 \<le> L" "L \<le> 338" and M: "M = internal_max_size T" "3 \<le> M" "M \<le> 509"
    and c: "exact \<longrightarrow> careful C (set (tower_pages ups))"
  shows "removed exact T P N (filter (\<lambda>kv. fst kv \<noteq> key) (all_entries lv)) (tree_Remove key (st T r C P S N))"
proof -
  have room1: "room 1 T P" "2 \<le> M" using room M(2) by (simp_all add: room_def)
  from find_leaf [OF t room1(2) pool room1(1), of key "RuntimeError ''Remove: FetchPage failed''" r] obtain X lo p kvs Y l where
    f: "lv = X @ (lo, p, kvs) # Y" "covers key (heads X) (lo, p) (heads Y)" "C p = Some (Leaf l)" "entries_of l = kvs" "tp_max l = L"
    "descend (RuntimeError ''Remove: FetchPage failed'') (\<lambda>n. int_Lookup n key) r (st T r C P S N) = Some (Inr (p, l), st T r C (p # P) S N)" .
  note d = tree_repD [OF t]
  define l' where "l' = snd (leaf_Remove key l)"
  have ord: "leaf_order (X @ (lo, p, kvs) # Y)" using d(4) f(1) by simp
  note o = leaf_order_split [OF ord f(2)] and del = all_entries_del [OF ord f(2), folded f(1)]
  have srt: "keys_sorted (entries_of l)" using o(3) f(4) by simp
  note lr = leaf_Remove_ok [OF srt, of key, folded l'_def, unfolded f(4)] and lk = leaf_Remove_keeps [of key l, folded l'_def]
  have rm: "leaf_Remove key l = (tp_size l', l')" using lr(2) by (simp add: l'_def prod_eq_iff)
  let ?kvs = "filter (\<lambda>kv. fst kv \<noteq> key) kvs"
  have sizes: "tp_size l = length kvs" "tp_size l' = length ?kvs" using f(4) lr(1) by (metis length_items)+
  have width: "least_leaf L ups \<le> tp_size l" "tp_size l \<le> L" using d(2) f(1) sizes(1) by auto
  have "length ?kvs \<le> length kvs" by (rule length_filter_le)
  then have small: "tp_size l' \<le> L" using sizes width(2) by linarith
  have fit: "node_fits (Leaf l')" using small L(3) by (simp add: PAGE_SIZE_def)
  have root: "r \<noteq> INVALID_PAGE_ID" using tree_rep_root [OF t pool] .
  note run = tree_Remove_run [OF root f(3) pool f(6) rm fit lk(2)]
  have pos: "0 < tp_size l" using width(1) L(2) by (auto simp: least_leaf_def leaf_min_size_def split: if_splits)
  have mo: "map_of (all_entries lv) key = map_of kvs key" using entries_around(1) [OF o(1,2)] f(1) by simp
  show ?thesis
  proof (cases "map_of kvs key = None")
    case True
    then have same: "tp_size l' = tp_size l" using filter_absent [of kvs key] sizes by simp
    have "filter (\<lambda>kv. fst kv \<noteq> key) (all_entries lv) = all_entries lv" using filter_absent mo True by simp
    then show ?thesis using removed_exact [OF run(1) [OF same pos] pool t [unfolded L(1) M(1)] refl] by simp
  next
    case False
    then have less: "Suc (tp_size l') = tp_size l" using filter_present [OF o(3), of key] sizes by simp
    then have new: "tp_size l' \<noteq> tp_size l" by simp
    let ?C = "C(p \<mapsto> Leaf l')" and ?lv = "X @ (lo, p, ?kvs) # Y"
    have pool': "pool_ok ?C P (insert p S) N" by (rule pool_ok_put [OF pool f(3)])
    have lmax: "tp_max l' = L" using lk(1) f(5) by simp
    have par: "parent_of C p = Some (tp_parent l)" using f(3) by (simp add: parent_of_def)
    show ?thesis
    proof (cases ups)
      case Nil
      then have top: "X = []" "Y = []" "p = r" "lo = None" and root_par: "tp_parent l = INVALID_PAGE_ID"
        using d(5) top_level_single [of C M X "(lo, p, kvs)" Y r] par unfolding f(1) by auto
      show ?thesis using remove_root_leaf [of C L M r kvs l P S N T l', OF _ _ pool L(1) M(1) lr(1) lmax lk(2,3)] t f(1,3) del small sizes top Nil
          run(2) [OF new root_par _ top(3) [symmetric]] run(3) [OF new root_par] by simp
    next
      case (Cons lvp ups')
      have "tower C M (heads X @ (lo, p) # heads Y) (lvp # ups') r" using d(5) unfolding f(1) Cons by simp
      from parent_found [OF this] obtain q n where "C q = Some (Internal n)" "parent_of C p = Some q" by metis
      then have par': "tp_parent l \<noteq> INVALID_PAGE_ID" using par pool_ok_valid [OF pool, of q] by simp
      have short: "short_leaves ?C L M r ?lv (lvp # ups') p"
        by (rule leaf_shortened [OF t [unfolded f(1) Cons] f(3) lr(1) lmax lk(2,3) _ del(2)]) (use less sizes in simp)
      have "C INVALID_PAGE_ID = None" using pool_ok_valid [OF pool] by (metis not_None_eq)
      then have "exact \<longrightarrow> careful ?C (set (tower_pages (lvp # ups')))"
        using careful_shortened [OF t _ f(3) lk(2)] c f(1) Cons by simp
      from repair_leaf [OF short _ pool' room L M this] show ?thesis
        unfolding run(4) [OF new par'] using del(1) by simp
    qed
  qed
qed

section \<open>What Remove promises\<close>

definition delete_key :: "int \<Rightarrow> (int \<times> 'v) list \<Rightarrow> (int \<times> 'v) list" where
  "delete_key key kvs = filter (\<lambda>kv. fst kv \<noteq> key) kvs"

lemma map_of_delete_key: "map_of (delete_key key kvs) k = (if k = key then None else map_of kvs k)"
  unfolding delete_key_def by (induction kvs) auto

lemma delete_inserted: "map_of kvs k = None \<Longrightarrow> delete_key k (ins_sorted k v kvs) = kvs"
  unfolding delete_key_def by (induction kvs) (auto simp: filter_absent split: if_splits)

lemma remove_removed:
  assumes t: "tree_of t kvs" and room: "room 4 t (pinned (bpm t))" and c: "exact \<longrightarrow> careful (content (bpm t)) UNIV"
  shows "removed exact t (pinned (bpm t)) (next_new (bpm t)) (delete_key key kvs) (tree_Remove key t)"
proof -
  let ?C = "content (bpm t)" and ?P = "pinned (bpm t)" and ?S = "saved (bpm t)" and ?N = "next_new (bpm t)" and ?r = "root_page_id t"
  have pool: "pool_ok ?C ?P ?S ?N" and sizes: "2 \<le> leaf_max_size t" "leaf_max_size t \<le> 338" "3 \<le> internal_max_size t" "internal_max_size t \<le> 509"
    using t by (simp_all add: tree_of_def ps_ok_pool)
  show ?thesis
  proof (cases "?r = INVALID_PAGE_ID")
    case True
    then have "kvs = []" using t by (simp add: tree_of_def)
    moreover have "tree_Remove key t = Some (Inr (), st t ?r ?C ?P ?S ?N)" using True by (simp add: tree_Remove_def IsEmpty_def st_self [symmetric])
    ultimately show ?thesis unfolding removed_def using True pool
      by (intro exI [of _ ?r] exI [of _ ?C] exI [of _ ?S]) (simp add: delete_key_def)
  next
    case False
    then obtain lv ups where rep: "tree_rep ?C (leaf_max_size t) (internal_max_size t) ?r lv ups" "kvs = all_entries lv"
      using t by (auto simp: tree_of_def)
    have "exact \<longrightarrow> careful ?C (set (tower_pages ups))" using c by (auto simp: careful_def)
    from remove_nonempty [OF rep(1) pool room refl sizes(1,2) refl sizes(3,4) this, of key]
    show ?thesis by (simp add: st_self [symmetric] rep(2) delete_key_def)
  qed
qed

text \<open>Scanning a tree whose leaves are in order, whatever its internal keys say.\<close>

lemma loose_nonempty:
  assumes "loose_rep C L M r lv ups" and "2 \<le> L"
  shows "\<forall>x \<in> set lv. leaf_node C L x \<and> keys_of x \<noteq> []"
proof
  fix x assume "x \<in> set lv"
  then have "leaf_node C L x" "width_ok (least_leaf L ups) L x" using assms(1) unfolding loose_rep_def by blast+
  moreover have "1 \<le> least_leaf L ups" using assms(2) by (simp add: least_leaf_def leaf_min_size_def, auto)
  ultimately show "leaf_node C L x \<and> keys_of x \<noteq> []" by (auto simp: width_ok_iff)
qed

lemma loose_scan:
  assumes rep: "loose_rep C L M r lv ups" and pool: "pool_ok C P S N" and room: "room 1 T P" and L: "2 \<le> L" and M: "2 \<le> M"
    and root: "r \<noteq> INVALID_PAGE_ID"
  shows "scan_all (st T r C P S N) = Some (Inr (all_entries lv), st T r C P S N)"
proof -
  from rep obtain H where t: "tower C M H ups r" "map snd H = pids lv" and link: "linked C (pids lv) INVALID_PAGE_ID"
    unfolding loose_rep_def by blast
  obtain h H' where H: "H = h # H'" using tower_heads_nonempty [OF t(1) M] by (cases H) auto
  then obtain x lv' where lv: "lv = x # lv'" using t(2) by (cases lv) auto
  have p: "snd (hd H) = fst (snd x)" using t(2) H lv by simp
  have ne: "\<forall>x \<in> set lv. leaf_node C L x \<and> keys_of x \<noteq> []" using loose_nonempty [OF rep L] .
  then obtain l where l: "C (fst (snd x)) = Some (Leaf l)" using lv by (metis leaf_node.simps list.set_intros(1) prod.collapse)
  have "descend e (\<lambda>n. int_ValueAt n 0) r (st T r C P S N) = Some (Inr (fst (snd x), l), st T r C (fst (snd x) # P) S N)" for e
    using descend_first [OF t(1) M pool room] descend_leaf [OF pool l room] p by simp
  then have "tree_Begin (st T r C P S N) = Some (Inr (Iterator (fst (snd x)) 0), st T r C P S N)"
    using root unpin_back [OF pool l, of T r] by (simp add: tree_Begin_def IsEmpty_def)
  then show ?thesis unfolding scan_all_def using walk_leaves [OF pool room ne link, of r] lv by simp
qed

lemma empty_scan: "scan_all (st T INVALID_PAGE_ID C P S N) = Some (Inr [], st T INVALID_PAGE_ID C P S N)"
  by (simp add: scan_all_def tree_Begin_def IsEmpty_def walk_end)

section \<open>Indexes from which keys are removed\<close>

locale shrinking_index = ordered_index +
  fixes del :: "int \<Rightarrow> 't \<Rightarrow> (unit, 't) outcome option" and steady :: "'t \<Rightarrow> bool"
  assumes del_law: "rep t kvs \<Longrightarrow> ready n t \<Longrightarrow> steady t \<Longrightarrow> \<exists>t'. del k t = Some (Inr (), t') \<and> rep t' (delete_key k kvs) \<and> ready n t'"
begin

text \<open>A key that has been removed is not found any more; every other key is; the scans skip exactly the removed one.\<close>

lemma deleted:
  assumes "rep t kvs" and "ready n t" and "steady t"
  shows "\<exists>t'. del k t = Some (Inr (), t') \<and> rep t' (delete_key k kvs) \<and>
    (\<forall>k'. look k' t' = Some (Inr (if k' = k then None else map_of kvs k'), t')) \<and> scan t' = Some (Inr (delete_key k kvs), t')"
proof -
  from del_law [OF assms, of k] obtain t' where t': "del k t = Some (Inr (), t')" "rep t' (delete_key k kvs)" "ready n t'" by blast
  show ?thesis using look_law [OF t'(2,3)] scan_law [OF t'(2,3)] t'(1,2) by (intro exI [of _ t']) (simp add: map_of_delete_key)
qed

text \<open>Inserting a new key and removing it again is not seen by any client.\<close>

lemma insert_delete:
  assumes "rep t kvs" and "ready (Suc n) t" and "map_of kvs k = None" and "\<And>t'. ins k v t = Some (Inr True, t') \<Longrightarrow> steady t'"
  shows "\<exists>t' t''. ins k v t = Some (Inr True, t') \<and> del k t' = Some (Inr (), t'') \<and> scan t'' = Some (Inr kvs, t'')"
proof -
  from ins_law [OF assms(1,2), of k v] assms(3) obtain t' where t': "ins k v t = Some (Inr True, t')" "rep t' (ins_sorted k v kvs)" "ready n t'" by auto
  show ?thesis using deleted [OF t'(2,3) assms(4) [OF t'(1)], of k] t'(1) delete_inserted [OF assms(3), of v] by auto
qed

end

section \<open>The B+ tree as such an index\<close>

text \<open>
  Four frames are free, and no internal page that has no child to spare stands left of a sibling that has one, unless
  its left sibling has one, too: then \<open>Remove\<close> never calls for an entry of a right sibling.
\<close>

definition steady_tree :: "BPlusTree \<Rightarrow> bool" where
  "steady_tree t \<longleftrightarrow> room 4 t (pinned (bpm t)) \<and> careful (content (bpm t)) UNIV"

lemma tree_Remove_ok:
  assumes t: "tree_of t kvs" and "steady_tree t"
  shows "\<exists>t'. tree_Remove key t = Some (Inr (), t') \<and> tree_of t' (delete_key key kvs) \<and>
    pinned (bpm t') = pinned (bpm t) \<and> capacity (bpm t') = capacity (bpm t) \<and> next_new (bpm t') = next_new (bpm t)"
proof -
  have "removed True t (pinned (bpm t)) (next_new (bpm t)) (delete_key key kvs) (tree_Remove key t)"
    by (rule remove_removed [OF t]) (use assms(2) in \<open>simp_all add: steady_tree_def\<close>)
  from removedE [OF this] obtain r' C' S' where r: "tree_Remove key t = Some (Inr (), st t r' C' (pinned (bpm t)) S' (next_new (bpm t)))"
    "pool_ok C' (pinned (bpm t)) S' (next_new (bpm t))" "r' = INVALID_PAGE_ID \<longrightarrow> delete_key key kvs = []"
    "r' \<noteq> INVALID_PAGE_ID \<longrightarrow> (\<exists>lv' ups'. loose_rep C' (leaf_max_size t) (internal_max_size t) r' lv' ups' \<and> all_entries lv' = delete_key key kvs \<and>
      (True \<longrightarrow> tree_rep C' (leaf_max_size t) (internal_max_size t) r' lv' ups'))" .
  have "tree_of (st t r' C' (pinned (bpm t)) S' (next_new (bpm t))) (delete_key key kvs)"
    using r(2-4) t by (auto simp: tree_of_def ps_ok_pool)
  then show ?thesis using r(1) by simp
qed

interpretation shrinking: shrinking_index tree_of tree_ready tree_Insert GetValue scan_all scan_key tree_Remove steady_tree
proof
  fix t kvs n k
  assume "tree_of t kvs" "tree_ready n t" "steady_tree t"
  then show "\<exists>t'. tree_Remove k t = Some (Inr (), t') \<and> tree_of t' (delete_key k kvs) \<and> tree_ready n t'"
    using tree_Remove_ok [of t kvs k] by (auto simp: tree_ready_def room_def)
qed

section \<open>Properties\<close>

text \<open>
  C6. Remove returns; the key is gone, every other key is found with its value, a scan skips exactly the removed
  entry, the tree is well-formed, no page is allocated and no pin is left - as long as no internal page has to
  borrow from its right sibling.
\<close>

theorem bplus_remove_correct:
  assumes "tree_of t kvs" and "tree_ready 0 t" and "steady_tree t"
  shows "\<exists>t'. tree_Remove key t = Some (Inr (), t') \<and> tree_of t' (delete_key key kvs) \<and>
    (\<forall>k. GetValue k t' = Some (Inr (if k = key then None else map_of kvs k), t')) \<and>
    scan_all t' = Some (Inr (delete_key key kvs), t') \<and> pinned (bpm t') = pinned (bpm t) \<and> next_new (bpm t') = next_new (bpm t)"
  using shrinking.deleted [OF assms, of key] tree_Remove_ok [OF assms(1,3), of key] by auto

text \<open>A tree with two leaves.\<close>

definition small_tree :: BPlusTree where
  "small_tree = (BPlusTree_init 2 3 \<lparr>capacity = 8, content =
     [0 \<mapsto> Leaf \<lparr>tp_size = 1, tp_max = 2, tp_parent = 2, next_leaf = 1, leaf_array = (\<lambda>_. (1, RID 1 0))\<rparr>,
      1 \<mapsto> Leaf \<lparr>tp_size = 1, tp_max = 2, tp_parent = 2, next_leaf = INVALID_PAGE_ID, leaf_array = (\<lambda>_. (5, RID 5 0))\<rparr>,
      2 \<mapsto> Internal \<lparr>tp_size = 2, tp_max = 3, tp_parent = INVALID_PAGE_ID, child_array = (\<lambda>i. if i = 0 then (0, 0) else (5, 1))\<rparr>],
     pinned = [], saved = {0, 1, 2}, next_new = 3\<rparr>)\<lparr>root_page_id := 2\<rparr>"

lemma small_tree_ok: "tree_of small_tree [(1, RID 1 0), (5, RID 5 0)]" "tree_ready 0 small_tree" "steady_tree small_tree"
proof -
  show "tree_ready 0 small_tree" by (simp add: small_tree_def BPlusTree_init_def tree_ready_def room_def)
  show "steady_tree small_tree"
    by (auto simp: small_tree_def BPlusTree_init_def steady_tree_def room_def careful_def no_loan_def parent_of_def INVALID_PAGE_ID_def split: if_splits)
  let ?lv = "[(None, 0, [(1, RID 1 0)]), (Some 5, 1, [(5, RID 5 0)])]" and ?ups = "[[(None, 2, [(0, 0), (5, 1)])]]"
  have "tree_rep (content (bpm small_tree)) 2 3 2 ?lv ?ups"
    by (simp add: small_tree_def BPlusTree_init_def tree_rep_def tower_Cons level_ok_def least_width_def least_leaf_def leaf_min_size_def
      parent_of_def next_of_def items_def leaf_order_def upt_rec INVALID_PAGE_ID_def)
  then show "tree_of small_tree [(1, RID 1 0), (5, RID 5 0)]"
    unfolding tree_of_def
    by (auto simp: small_tree_def BPlusTree_init_def ps_ok_def INVALID_PAGE_ID_def intro!: exI [of _ ?lv] exI [of _ ?ups])
qed

theorem bplus_remove_correct_witness:
  "\<exists>t'. tree_Remove 5 small_tree = Some (Inr (), t') \<and> GetValue 5 t' = Some (Inr None, t') \<and> GetValue 1 t' = Some (Inr (Some (RID 1 0)), t')"
  using bplus_remove_correct [OF small_tree_ok, of 5] by fastforce



text \<open>The tree that inserting 1 to 6 builds, with three levels.\<close>

definition leaf_of :: "page_id \<Rightarrow> page_id \<Rightarrow> (int \<times> RID) list \<Rightarrow> node" where
  "leaf_of q next kvs = Leaf \<lparr>tp_size = length kvs, tp_max = 2, tp_parent = q, next_leaf = next, leaf_array = (\<lambda>i. kvs ! i)\<rparr>"

definition inner_of :: "page_id \<Rightarrow> (int \<times> page_id) list \<Rightarrow> node" where
  "inner_of q cs = Internal \<lparr>tp_size = length cs, tp_max = 3, tp_parent = q, child_array = (\<lambda>i. cs ! i)\<rparr>"

definition three_levels :: BPlusTree where
  "three_levels = (BPlusTree_init 2 3 \<lparr>capacity = 8, content =
     [0 \<mapsto> leaf_of 2 1 [(1, RID 1 0)], 1 \<mapsto> leaf_of 2 3 [(2, RID 2 0)], 3 \<mapsto> leaf_of 5 4 [(3, RID 3 0)], 4 \<mapsto> leaf_of 5 7 [(4, RID 4 0)],
      7 \<mapsto> leaf_of 5 INVALID_PAGE_ID [(5, RID 5 0), (6, RID 6 0)],
      2 \<mapsto> inner_of 6 [(0, 0), (2, 1)], 5 \<mapsto> inner_of 6 [(3, 3), (4, 4), (5, 7)], 6 \<mapsto> inner_of INVALID_PAGE_ID [(0, 2), (3, 5)]],
     pinned = [], saved = {0..<8}, next_new = 8\<rparr>)\<lparr>root_page_id := 6\<rparr>"

lemma three_levels_ok: "tree_of three_levels (map (\<lambda>k. (k, RID k 0)) [1, 2, 3, 4, 5, 6])"
proof -
  let ?lv = "[(None, 0, [(1, RID 1 0)]), (Some 2, 1, [(2, RID 2 0)]), (Some 3, 3, [(3, RID 3 0)]), (Some 4, 4, [(4, RID 4 0)]), (Some 5, 7, [(5, RID 5 0), (6, RID 6 0)])]"
    and ?ups = "[[(None, 2, [(0, 0), (2, 1)]), (Some 3, 5, [(3, 3), (4, 4), (5, 7)])], [(None, 6, [(0, 2), (3, 5)])]]"
  have "tree_rep (content (bpm three_levels)) 2 3 6 ?lv ?ups"
    by (simp add: three_levels_def BPlusTree_init_def leaf_of_def inner_of_def tree_rep_def tower_Cons level_ok_def least_width_def least_leaf_def
      leaf_min_size_def internal_min_size_def parent_of_def next_of_def items_def leaf_order_def upt_rec INVALID_PAGE_ID_def)
  then show ?thesis unfolding tree_of_def
    by (auto simp: three_levels_def BPlusTree_init_def ps_ok_def INVALID_PAGE_ID_def intro!: exI [of _ ?lv] exI [of _ ?ups])
qed


end
