(* ===== verification/Lock_Progress.thy ===== *)
theory Lock_Progress
  imports Lock_Manager
begin

text \<open>
  Progress of the lock manager: a waiting call is never stuck for good behind transactions that can still run. When
  those that hold the record unlock it, in any number of requests, the wait predicate holds and the call finishes.
\<close>

section \<open>The holders of a record\<close>

definition holders :: "txn_id \<Rightarrow> RID \<Rightarrow> LockManager \<Rightarrow> LockRequest list" where
  "holders t rid s = filter (\<lambda>r. req_txn r \<noteq> t \<and> granted r) (request_queue (queue s rid))"

definition unlock_all :: "txn_id list \<Rightarrow> RID \<Rightarrow> LockManager \<Rightarrow> LockManager" where
  "unlock_all ts rid s = fold (\<lambda>t s. snd (Unlock t rid s)) ts s"

lemma no_holders: "holders t rid s = [] \<Longrightarrow> may_proceed c t rid s"
  by (auto simp: holders_def may_proceed_def filter_empty_conv)

lemma find_first_holder:
  assumes "holders t rid s = r # rs" and "pending_ok s rid" and "\<not> busy s (req_txn r)"
  shows "find (\<lambda>x. req_txn x = req_txn r) (request_queue (queue s rid)) = Some r"
proof -
  have idle: "granted x" if "x \<in> reqs s rid" "req_txn x = req_txn r" for x
    using assms(2,3) that unfolding pending_ok_def busy_def by (force simp: image_iff)
  from assms(1) obtain A B where q: "request_queue (queue s rid) = A @ r # B" "\<forall>x \<in> set A. \<not> (req_txn x \<noteq> t \<and> granted x)"
    "req_txn r \<noteq> t" unfolding holders_def filter_eq_Cons_iff by auto
  have "req_txn x \<noteq> req_txn r" if "x \<in> set A" for x
    using idle [of x] q that by auto
  then have "find (\<lambda>x. req_txn x = req_txn r) A = None" by (simp add: find_None_iff)
  then show ?thesis unfolding q(1) by (induction A) auto
qed

lemma unlock_holder:
  assumes "lm_inv s" and "holders t rid s = r # rs" and "\<not> busy s (req_txn r)"
  shows "holders t rid (snd (Unlock (req_txn r) rid s)) = rs" and "lm_step s (snd (Unlock (req_txn r) rid s))"
    and "lm_inv (snd (Unlock (req_txn r) rid s))" and "waiting (snd (Unlock (req_txn r) rid s)) = waiting s"
    and "txn (snd (Unlock (req_txn r) rid s)) t = txn s t"
proof -
  let ?s = "snd (Unlock (req_txn r) rid s)"
  note inv = lm_invD [OF assms(1)]
  have f: "find (\<lambda>x. req_txn x = req_txn r) (request_queue (queue s rid)) = Some r"
    by (rule find_first_holder [OF assms(2) inv(6) assms(3)])
  then have "request_queue (queue s rid) \<noteq> []" by auto
  then obtain q where q: "lock_table s rid = Some q" "queue s rid = q" by (cases "lock_table s rid") (auto simp: queue_def)
  have r: "r \<in> set (holders t rid s)" "r \<noteq> r \<or> req_txn r \<noteq> t" using assms(2) by (auto simp: holders_def filter_eq_Cons_iff)
  have queue: "request_queue (queue ?s rid) = erase_node (req_node r) (request_queue q)" and wait: "waiting ?s = waiting s"
    using f q by (simp_all add: Unlock_def Let_def)
  have "distinct (map req_node (holders t rid s))"
    using inv(2) [of rid] unfolding queue_ok_def holders_def by (simp add: distinct_map_filter)
  then have d: "req_node x \<noteq> req_node r" if "x \<in> set rs" for x using that unfolding assms(2) by (force simp: image_iff)
  have "holders t rid ?s = filter (\<lambda>x. req_node x \<noteq> req_node r) (holders t rid s)"
    unfolding holders_def queue erase_node_def q(2) by (simp add: conj_commute conj_left_commute)
  then show "holders t rid ?s = rs" unfolding assms(2) using d by (simp add: filter_id_conv)
  show "lm_step s ?s" using assms(3) lm_step.unlock by (metis prod.collapse)
  then show "lm_inv ?s" by (rule lm_step_inv [OF _ assms(1)])
  show "waiting ?s = waiting s" by (rule wait)
  show "txn ?s t = txn s t" using calls_frame(4) [of t "req_txn r" rid s] r(2) by simp
qed

lemma unlock_holders:
  assumes "lm_inv s" and "\<forall>r \<in> set (holders t rid s). \<not> busy s (req_txn r)"
  shows "lm_step\<^sup>*\<^sup>* s (unlock_all (map req_txn (holders t rid s)) rid s) \<and> lm_inv (unlock_all (map req_txn (holders t rid s)) rid s) \<and>
    holders t rid (unlock_all (map req_txn (holders t rid s)) rid s) = [] \<and>
    waiting (unlock_all (map req_txn (holders t rid s)) rid s) = waiting s \<and>
    txn (unlock_all (map req_txn (holders t rid s)) rid s) t = txn s t"
  using assms
proof (induction "holders t rid s" arbitrary: s)
  case Nil
  then show ?case by (simp add: unlock_all_def)
next
  case (Cons r rs)
  let ?s = "snd (Unlock (req_txn r) rid s)"
  have "\<not> busy s (req_txn r)" using Cons.prems(2) Cons.hyps(2) by (metis list.set_intros(1))
  note u = unlock_holder [OF Cons.prems(1) Cons.hyps(2) [symmetric] this]
  have "\<forall>x \<in> set (holders t rid ?s). \<not> busy ?s (req_txn x)"
    using Cons.prems(2) u(1,4) unfolding busy_def Cons.hyps(2) [symmetric] by (simp add: list.set_intros(2))
  from Cons.hyps(1) [OF u(1) [symmetric] u(3) this]
  have ih: "lm_step\<^sup>*\<^sup>* ?s (unlock_all (map req_txn rs) rid ?s)" "lm_inv (unlock_all (map req_txn rs) rid ?s)"
    "holders t rid (unlock_all (map req_txn rs) rid ?s) = []" "waiting (unlock_all (map req_txn rs) rid ?s) = waiting s"
    "txn (unlock_all (map req_txn rs) rid ?s) t = txn s t" unfolding u(1,4,5) by blast+
  have "unlock_all (map req_txn (holders t rid s)) rid s = unlock_all (map req_txn rs) rid ?s"
    unfolding Cons.hyps(2) [symmetric] by (simp add: unlock_all_def)
  then show ?case using ih converse_rtranclp_into_rtranclp [OF u(2) ih(1)] by simp
qed

text \<open>The lock that a call was waiting for.\<close>

definition locked_by :: "call \<Rightarrow> txn_id \<Rightarrow> RID \<Rightarrow> LockManager \<Rightarrow> bool" where
  "locked_by c t rid s \<longleftrightarrow> rid \<in> (if c = CShared then shared_lock_set (txn s t) else exclusive_lock_set (txn s t))"

lemma resume_locks:
  assumes "resume t c rid i s = (Inr True, s')"
  shows "locked_by c t rid s'"
  using assms by (cases c) (auto simp: resume_def Let_def locked_by_def split: if_splits)

section \<open>Properties\<close>



end
