(* ===== verification/Table_Page.thy ===== *)
theory Table_Page
  imports Prelude
begin

text \<open>
  The slotted page of a table (\<open>src/storage/page/table_page.cpp\<close>), byte by byte: the header
  (next page, number of tuples, free-space pointer), the slot array that grows upwards behind it
  and the tuples that grow downwards from the end. A page is its 4096 bytes; the accessors read
  and write little-endian integers at the offsets of the source. An access outside the page is
  undefined. The locale \<open>row_page\<close> is the contract the table heap relies on.
\<close>

section \<open>Header fields\<close>

definition get_u32 :: "nat \<Rightarrow> byte list \<Rightarrow> nat" where
  "get_u32 off d = le_nat (get_bytes off 4 d)"

definition put_u32 :: "nat \<Rightarrow> nat \<Rightarrow> byte list \<Rightarrow> byte list" where
  "put_u32 off x d = put_bytes off (le_bytes 4 x) d"

definition get_u16 :: "nat \<Rightarrow> byte list \<Rightarrow> nat" where
  "get_u16 off d = le_nat (get_bytes off 2 d)"

definition put_u16 :: "nat \<Rightarrow> nat \<Rightarrow> byte list \<Rightarrow> byte list" where
  "put_u16 off x d = put_bytes off (le_bytes 2 x) d"

text \<open>A \<open>page_id_t\<close> in memory: two's complement.\<close>

definition GetNextPageId :: "byte list \<Rightarrow> page_id" where
  "GetNextPageId d = sint (word_of_nat (get_u32 0 d) :: 32 word)"

definition SetNextPageId :: "page_id \<Rightarrow> byte list \<Rightarrow> byte list" where
  "SetNextPageId p d = put_u32 0 (unat (word_of_int p :: 32 word)) d"

definition GetNumTuples :: "byte list \<Rightarrow> nat" where
  "GetNumTuples d = get_u32 4 d"

definition SetNumTuples :: "nat \<Rightarrow> byte list \<Rightarrow> byte list" where
  "SetNumTuples n d = put_u32 4 n d"

definition GetFreeSpacePointer :: "byte list \<Rightarrow> nat" where
  "GetFreeSpacePointer d = get_u32 8 d"

definition SetFreeSpacePointer :: "nat \<Rightarrow> byte list \<Rightarrow> byte list" where
  "SetFreeSpacePointer n d = put_u32 8 n d"

definition slot_offset :: "nat \<Rightarrow> nat" where
  "slot_offset slot = 16 + slot * 4"

definition GetTupleOffsetAtSlot :: "nat \<Rightarrow> byte list \<Rightarrow> nat" where
  "GetTupleOffsetAtSlot slot d = get_u16 (slot_offset slot) d"

definition GetTupleLengthAtSlot :: "nat \<Rightarrow> byte list \<Rightarrow> nat" where
  "GetTupleLengthAtSlot slot d = get_u16 (slot_offset slot + 2) d"

definition SetTupleOffsetAtSlot :: "nat \<Rightarrow> nat \<Rightarrow> byte list \<Rightarrow> byte list" where
  "SetTupleOffsetAtSlot slot n d = put_u16 (slot_offset slot) (n mod 2 ^ 16) d"

definition SetTupleLengthAtSlot :: "nat \<Rightarrow> nat \<Rightarrow> byte list \<Rightarrow> byte list" where
  "SetTupleLengthAtSlot slot n d = put_u16 (slot_offset slot + 2) (n mod 2 ^ 16) d"

definition slot_in_page :: "nat \<Rightarrow> bool" where
  "slot_in_page slot \<longleftrightarrow> slot_offset slot + 4 \<le> PAGE_SIZE"

section \<open>Operations\<close>

definition TablePage_Init :: "page_id \<Rightarrow> byte list" where
  "TablePage_Init p =
     SetFreeSpacePointer PAGE_SIZE (put_u32 4 0 (SetNextPageId p (replicate PAGE_SIZE 0)))"

text \<open>Computed as \<open>size_t\<close>, returned as \<open>uint32_t\<close>.\<close>

definition GetFreeSpaceRemaining :: "byte list \<Rightarrow> nat" where
  "GetFreeSpaceRemaining d =
     size_sub (GetFreeSpacePointer d) (16 + GetNumTuples d * 4) mod 2 ^ 32"

text \<open>\<open>uint32_t\<close> subtraction.\<close>

definition sub_u32 :: "nat \<Rightarrow> nat \<Rightarrow> nat" where
  "sub_u32 a b = (a + 2 ^ 32 - b) mod 2 ^ 32"

text \<open>Copying a tuple to \<open>data_ + off\<close> and filling its slot.\<close>

definition place_tuple :: "nat \<Rightarrow> byte list \<Rightarrow> byte list \<Rightarrow> error + byte list" where
  "place_tuple slot bs d =
     (let new_fsp = sub_u32 (GetFreeSpacePointer d) (length bs);
          d1 = SetFreeSpacePointer new_fsp d
      in if new_fsp + length bs > PAGE_SIZE \<or> \<not> slot_in_page slot then Inl UndefinedBehaviour
         else
           let d2 = put_bytes new_fsp bs d1
           in Inr (SetTupleLengthAtSlot slot (length bs) (SetTupleOffsetAtSlot slot new_fsp d2)))"

definition TP_InsertTuple :: "byte list \<Rightarrow> byte list \<Rightarrow> error + nat option \<times> byte list" where
  "TP_InsertTuple bs d =
     (if GetFreeSpaceRemaining d < length bs + 4 then Inr (None, d)
      else
        let num_tuples = GetNumTuples d in
        bind_err (place_tuple (num_tuples mod 2 ^ 16) bs d) (\<lambda>d.
          Inr (Some (num_tuples mod 2 ^ 16), SetNumTuples (num_tuples + 1) d)))"

definition TP_GetTuple :: "nat \<Rightarrow> byte list \<Rightarrow> error + byte list" where
  "TP_GetTuple slot d =
     (if \<not> slot_in_page slot then Inl UndefinedBehaviour
      else
        let off = GetTupleOffsetAtSlot slot d; n = GetTupleLengthAtSlot slot d in
        if off + n > PAGE_SIZE then Inl UndefinedBehaviour else Inr (get_bytes off n d))"

definition TP_GetTupleSize :: "nat \<Rightarrow> byte list \<Rightarrow> nat" where
  "TP_GetTupleSize slot d = GetTupleLengthAtSlot slot d"

definition TP_DeleteTuple :: "nat \<Rightarrow> byte list \<Rightarrow> error + byte list" where
  "TP_DeleteTuple slot d =
     (if \<not> slot_in_page slot then Inl UndefinedBehaviour
      else Inr (SetTupleOffsetAtSlot slot 0 (SetTupleLengthAtSlot slot 0 d)))"

definition TP_UpdateTuple :: "nat \<Rightarrow> byte list \<Rightarrow> byte list \<Rightarrow> error + bool \<times> byte list" where
  "TP_UpdateTuple slot bs d =
     (if \<not> slot_in_page slot then Inl UndefinedBehaviour
      else
        let old_size = GetTupleLengthAtSlot slot d; new_size = length bs in
        if new_size > old_size \<and> new_size - old_size > GetFreeSpaceRemaining d then Inr (False, d)
        else bind_err (TP_DeleteTuple slot d) (\<lambda>d. bind_err (place_tuple slot bs d) (\<lambda>d. Inr (True, d))))"

section \<open>Well-formed pages\<close>

abbreviation slot_tuple :: "byte list \<Rightarrow> nat \<Rightarrow> byte list" where
  "slot_tuple d i \<equiv> get_bytes (GetTupleOffsetAtSlot i d) (GetTupleLengthAtSlot i d) d"

text \<open>The tuples by slot; a deleted slot holds the empty one.\<close>

definition page_rows :: "byte list \<Rightarrow> byte list list" where
  "page_rows d = map (slot_tuple d) [0..<GetNumTuples d]"

definition slot_ok :: "byte list \<Rightarrow> nat \<Rightarrow> bool" where
  "slot_ok d i \<longleftrightarrow> GetTupleLengthAtSlot i d = 0 \<and> GetTupleOffsetAtSlot i d \<le> PAGE_SIZE \<or>
     GetFreeSpacePointer d \<le> GetTupleOffsetAtSlot i d \<and>
     GetTupleOffsetAtSlot i d + GetTupleLengthAtSlot i d \<le> PAGE_SIZE"

definition page_ok :: "byte list \<Rightarrow> bool" where
  "page_ok d \<longleftrightarrow> length d = PAGE_SIZE \<and> 16 + GetNumTuples d * 4 \<le> GetFreeSpacePointer d \<and>
     GetFreeSpacePointer d \<le> PAGE_SIZE \<and> (\<forall>i < GetNumTuples d. slot_ok d i)"

lemmas field_defs = GetNextPageId_def SetNextPageId_def GetNumTuples_def SetNumTuples_def
  GetFreeSpacePointer_def SetFreeSpacePointer_def GetTupleOffsetAtSlot_def GetTupleLengthAtSlot_def
  SetTupleOffsetAtSlot_def SetTupleLengthAtSlot_def slot_offset_def get_u32_def put_u32_def
  get_u16_def put_u16_def

lemma length_put_fields [simp]:
  assumes "length d = PAGE_SIZE"
  shows "length (SetNextPageId p d) = PAGE_SIZE" and "length (SetNumTuples n d) = PAGE_SIZE"
    and "length (SetFreeSpacePointer n d) = PAGE_SIZE"
    and "slot_in_page i \<Longrightarrow> length (SetTupleOffsetAtSlot i n d) = PAGE_SIZE"
    and "slot_in_page i \<Longrightarrow> length (SetTupleLengthAtSlot i n d) = PAGE_SIZE"
  using assms by (simp_all add: field_defs slot_in_page_def PAGE_SIZE_def)

lemma le_nat_two [simp]: "le_nat (le_bytes 2 n) = n mod 2 ^ 16"
  by (simp add: le_nat_le_bytes)

lemma le_nat_four [simp]: "le_nat (le_bytes 4 n) = n mod 2 ^ 32"
  by (simp add: le_nat_le_bytes)

text \<open>Reading a field after writing a field.\<close>

lemma num_after [simp]:
  assumes "length d = PAGE_SIZE"
  shows "GetNumTuples (SetNextPageId p d) = GetNumTuples d" and "GetNumTuples (SetFreeSpacePointer n d) = GetNumTuples d"
    and "GetNumTuples (SetNumTuples n d) = n mod 2 ^ 32"
    and "slot_in_page i \<Longrightarrow> GetNumTuples (SetTupleOffsetAtSlot i n d) = GetNumTuples d"
    and "slot_in_page i \<Longrightarrow> GetNumTuples (SetTupleLengthAtSlot i n d) = GetNumTuples d"
  using assms by (simp_all add: field_defs slot_in_page_def PAGE_SIZE_def get_put_disjoint get_put_same)

lemma fsp_after [simp]:
  assumes "length d = PAGE_SIZE"
  shows "GetFreeSpacePointer (SetNextPageId p d) = GetFreeSpacePointer d"
    and "GetFreeSpacePointer (SetNumTuples n d) = GetFreeSpacePointer d"
    and "GetFreeSpacePointer (SetFreeSpacePointer n d) = n mod 2 ^ 32"
    and "slot_in_page i \<Longrightarrow> GetFreeSpacePointer (SetTupleOffsetAtSlot i n d) = GetFreeSpacePointer d"
    and "slot_in_page i \<Longrightarrow> GetFreeSpacePointer (SetTupleLengthAtSlot i n d) = GetFreeSpacePointer d"
  using assms by (simp_all add: field_defs slot_in_page_def PAGE_SIZE_def get_put_disjoint get_put_same)

lemma next_after [simp]:
  assumes "length d = PAGE_SIZE"
  shows "GetNextPageId (SetNumTuples n d) = GetNextPageId d" and "GetNextPageId (SetFreeSpacePointer n d) = GetNextPageId d"
    and "slot_in_page i \<Longrightarrow> GetNextPageId (SetTupleOffsetAtSlot i n d) = GetNextPageId d"
    and "slot_in_page i \<Longrightarrow> GetNextPageId (SetTupleLengthAtSlot i n d) = GetNextPageId d"
  using assms by (simp_all add: field_defs slot_in_page_def PAGE_SIZE_def get_put_disjoint)

lemma next_set [simp]:
  assumes "length d = PAGE_SIZE" and "- (2 ^ 31) \<le> p" and "p < 2 ^ 31"
  shows "GetNextPageId (SetNextPageId p d) = p"
proof -
  have "unat (word_of_int p :: 32 word) < 2 ^ 32" using unsigned_less [of "word_of_int p :: 32 word"] by simp
  then have "GetNextPageId (SetNextPageId p d) = sint (word_of_int p :: 32 word)"
    using assms(1) by (simp add: field_defs PAGE_SIZE_def get_put_same)
  with assms(2,3) show ?thesis by (simp add: sint_sbintrunc' signed_take_bit_int_eq_self)
qed

lemma slot_after [simp]:
  assumes "length d = PAGE_SIZE" and "slot_in_page i"
  shows "GetTupleOffsetAtSlot i (SetNextPageId p d) = GetTupleOffsetAtSlot i d"
    and "GetTupleLengthAtSlot i (SetNextPageId p d) = GetTupleLengthAtSlot i d"
    and "GetTupleOffsetAtSlot i (SetNumTuples n d) = GetTupleOffsetAtSlot i d"
    and "GetTupleLengthAtSlot i (SetNumTuples n d) = GetTupleLengthAtSlot i d"
    and "GetTupleOffsetAtSlot i (SetFreeSpacePointer n d) = GetTupleOffsetAtSlot i d"
    and "GetTupleLengthAtSlot i (SetFreeSpacePointer n d) = GetTupleLengthAtSlot i d"
    and "slot_in_page j \<Longrightarrow> GetTupleOffsetAtSlot i (SetTupleOffsetAtSlot j n d) =
      (if i = j then n mod 2 ^ 16 else GetTupleOffsetAtSlot i d)"
    and "slot_in_page j \<Longrightarrow> GetTupleLengthAtSlot i (SetTupleLengthAtSlot j n d) =
      (if i = j then n mod 2 ^ 16 else GetTupleLengthAtSlot i d)"
    and "slot_in_page j \<Longrightarrow> GetTupleOffsetAtSlot i (SetTupleLengthAtSlot j n d) = GetTupleOffsetAtSlot i d"
    and "slot_in_page j \<Longrightarrow> GetTupleLengthAtSlot i (SetTupleOffsetAtSlot j n d) = GetTupleLengthAtSlot i d"
proof -
  show "GetTupleOffsetAtSlot i (SetNextPageId p d) = GetTupleOffsetAtSlot i d"
    "GetTupleLengthAtSlot i (SetNextPageId p d) = GetTupleLengthAtSlot i d"
    "GetTupleOffsetAtSlot i (SetNumTuples n d) = GetTupleOffsetAtSlot i d"
    "GetTupleLengthAtSlot i (SetNumTuples n d) = GetTupleLengthAtSlot i d"
    "GetTupleOffsetAtSlot i (SetFreeSpacePointer n d) = GetTupleOffsetAtSlot i d"
    "GetTupleLengthAtSlot i (SetFreeSpacePointer n d) = GetTupleLengthAtSlot i d"
    using assms by (simp_all add: field_defs slot_in_page_def PAGE_SIZE_def get_put_disjoint)
next
  assume j: "slot_in_page j"
  have apart: "i = j \<or> i + 1 \<le> j \<or> j + 1 \<le> i" by arith
  then have apart4: "i = j \<or> i * 4 + 4 \<le> j * 4 \<or> j * 4 + 4 \<le> i * 4" by arith
  show "GetTupleOffsetAtSlot i (SetTupleOffsetAtSlot j n d) = (if i = j then n mod 2 ^ 16 else GetTupleOffsetAtSlot i d)"
    "GetTupleLengthAtSlot i (SetTupleLengthAtSlot j n d) = (if i = j then n mod 2 ^ 16 else GetTupleLengthAtSlot i d)"
    using assms j apart4
    by (auto simp: field_defs slot_in_page_def PAGE_SIZE_def get_put_disjoint get_put_same)
  show "GetTupleOffsetAtSlot i (SetTupleLengthAtSlot j n d) = GetTupleOffsetAtSlot i d"
    "GetTupleLengthAtSlot i (SetTupleOffsetAtSlot j n d) = GetTupleLengthAtSlot i d"
    using assms j apart4
    by (simp_all add: field_defs slot_in_page_def PAGE_SIZE_def) (rule arg_cong [where f = le_nat], rule get_put_disjoint; simp; linarith)+
qed

text \<open>Writing tuple bytes behind the slots leaves header and slots alone, and the other way round.\<close>

lemma fields_after_data:
  assumes "length d = PAGE_SIZE" and "off + length bs \<le> PAGE_SIZE" and "16 \<le> off"
  shows "length (put_bytes off bs d) = PAGE_SIZE" and "GetNumTuples (put_bytes off bs d) = GetNumTuples d"
    and "GetNextPageId (put_bytes off bs d) = GetNextPageId d"
    and "GetFreeSpacePointer (put_bytes off bs d) = GetFreeSpacePointer d"
    and "slot_offset i + 4 \<le> off \<Longrightarrow> GetTupleOffsetAtSlot i (put_bytes off bs d) = GetTupleOffsetAtSlot i d"
    and "slot_offset i + 4 \<le> off \<Longrightarrow> GetTupleLengthAtSlot i (put_bytes off bs d) = GetTupleLengthAtSlot i d"
  using assms by (simp_all add: field_defs PAGE_SIZE_def get_put_disjoint)

lemma data_after_fields:
  assumes "length d = PAGE_SIZE" and "off + n \<le> PAGE_SIZE"
  shows "16 \<le> off \<Longrightarrow> get_bytes off n (SetNextPageId p d) = get_bytes off n d"
    and "16 \<le> off \<Longrightarrow> get_bytes off n (SetNumTuples k d) = get_bytes off n d"
    and "16 \<le> off \<Longrightarrow> get_bytes off n (SetFreeSpacePointer k d) = get_bytes off n d"
    and "slot_offset i + 4 \<le> off \<Longrightarrow> get_bytes off n (SetTupleOffsetAtSlot i k d) = get_bytes off n d"
    and "slot_offset i + 4 \<le> off \<Longrightarrow> get_bytes off n (SetTupleLengthAtSlot i k d) = get_bytes off n d"
  using assms by (simp_all add: field_defs PAGE_SIZE_def get_put_disjoint)

lemma get_bytes_0 [simp]: "get_bytes off 0 d = []"
  by (simp add: get_bytes_def)

lemma page_okD:
  assumes "page_ok d"
  shows "length d = PAGE_SIZE" and "16 + GetNumTuples d * 4 \<le> GetFreeSpacePointer d"
    and "GetFreeSpacePointer d \<le> PAGE_SIZE" and "i < GetNumTuples d \<Longrightarrow> slot_ok d i"
    and "i < GetNumTuples d \<Longrightarrow> slot_offset i + 4 \<le> GetFreeSpacePointer d"
    and "i < GetNumTuples d \<Longrightarrow> slot_in_page i" and "GetNumTuples d \<le> 1020"
  using assms by (auto simp: page_ok_def slot_offset_def slot_in_page_def PAGE_SIZE_def)

lemma free_space: "page_ok d \<Longrightarrow> GetFreeSpaceRemaining d = GetFreeSpacePointer d - (16 + GetNumTuples d * 4)"
  using page_okD(2,3) [of d] by (simp add: GetFreeSpaceRemaining_def size_max_def PAGE_SIZE_def)

lemma length_page_rows [simp]: "length (page_rows d) = GetNumTuples d"
  by (simp add: page_rows_def)

lemma nth_page_rows [simp]: "i < GetNumTuples d \<Longrightarrow> page_rows d ! i = slot_tuple d i"
  by (simp add: page_rows_def)

lemma length_slot_tuple: "page_ok d \<Longrightarrow> i < GetNumTuples d \<Longrightarrow> length (slot_tuple d i) = GetTupleLengthAtSlot i d"
  using page_okD(1) [of d] page_okD(4) [of d i] by (auto simp: slot_ok_def)

text \<open>Placing a tuple that fits below the free-space pointer.\<close>

lemma place_tuple_ok:
  assumes "length d = PAGE_SIZE" and fsp: "GetFreeSpacePointer d \<le> PAGE_SIZE"
    and fit: "slot_offset i + 4 + length bs \<le> GetFreeSpacePointer d"
  defines "off \<equiv> GetFreeSpacePointer d - length bs"
  shows "\<exists>d'. place_tuple i bs d = Inr d' \<and> length d' = PAGE_SIZE \<and> GetNumTuples d' = GetNumTuples d \<and>
    GetNextPageId d' = GetNextPageId d \<and> GetFreeSpacePointer d' = off \<and>
    GetTupleOffsetAtSlot i d' = off \<and> GetTupleLengthAtSlot i d' = length bs \<and>
    (\<forall>j. j \<noteq> i \<longrightarrow> slot_offset j + 4 \<le> off \<longrightarrow> GetTupleOffsetAtSlot j d' = GetTupleOffsetAtSlot j d \<and>
       GetTupleLengthAtSlot j d' = GetTupleLengthAtSlot j d) \<and>
    (\<forall>a n. GetFreeSpacePointer d \<le> a \<longrightarrow> a + n \<le> PAGE_SIZE \<longrightarrow> get_bytes a n d' = get_bytes a n d) \<and>
    get_bytes off (length bs) d' = bs"
proof -
  have i: "slot_in_page i" and small: "off < 2 ^ 16" "length bs < 2 ^ 16" "16 \<le> slot_offset i" "slot_offset i + 4 \<le> off"
    using fit fsp by (auto simp: slot_in_page_def off_def PAGE_SIZE_def slot_offset_def)
  have sub: "sub_u32 (GetFreeSpacePointer d) (length bs) = off"
  proof -
    have "GetFreeSpacePointer d + 2 ^ 32 - length bs = off + 2 ^ 32" using fit by (simp add: off_def)
    then show ?thesis using small(1) by (simp add: sub_u32_def)
  qed
  define d1 where "d1 = SetFreeSpacePointer off d"
  define d2 where "d2 = put_bytes off bs d1"
  define d3 where "d3 = SetTupleOffsetAtSlot i off d2"
  define d4 where "d4 = SetTupleLengthAtSlot i (length bs) d3"
  have end_: "off + length bs = GetFreeSpacePointer d" using fit by (simp add: off_def)
  then have run: "place_tuple i bs d = Inr d4"
    using fsp i sub by (simp add: place_tuple_def d1_def d2_def d3_def d4_def Let_def)
  have l1: "length d1 = PAGE_SIZE" using assms(1) by (simp add: d1_def)
  have off16: "16 \<le> off" and fits: "off + length bs \<le> PAGE_SIZE" using small end_ fsp by auto
  note fd = fields_after_data [OF l1 fits off16, folded d2_def]
  have l2: "length d2 = PAGE_SIZE" by (rule fd)
  have l3: "length d3 = PAGE_SIZE" using l2 i by (simp add: d3_def)
  have l4: "length d4 = PAGE_SIZE" using l3 i by (simp add: d4_def)
  have "GetNumTuples d4 = GetNumTuples d" "GetNextPageId d4 = GetNextPageId d" "GetFreeSpacePointer d4 = off"
    using assms(1) l2 l3 i fd small by (simp_all add: d4_def d3_def d1_def)
  moreover have "GetTupleOffsetAtSlot i d4 = off" "GetTupleLengthAtSlot i d4 = length bs"
    using l2 l3 i small by (simp_all add: d4_def d3_def)
  moreover have "GetTupleOffsetAtSlot j d4 = GetTupleOffsetAtSlot j d \<and> GetTupleLengthAtSlot j d4 = GetTupleLengthAtSlot j d"
    if "j \<noteq> i" "slot_offset j + 4 \<le> off" for j
  proof -
    have "slot_in_page j" using that(2) fits by (simp add: slot_in_page_def)
    then show ?thesis using that assms(1) l1 l2 l3 i fd(5,6) [of j] by (simp add: d4_def d3_def d1_def)
  qed
  moreover have "get_bytes a n d4 = get_bytes a n d2" if "off \<le> a" "a + n \<le> PAGE_SIZE" for a n
    using that l2 l3 small data_after_fields(4,5) [of _ a n i] by (simp add: d4_def d3_def)
  moreover have "get_bytes a n d2 = get_bytes a n d" if "GetFreeSpacePointer d \<le> a" "a + n \<le> PAGE_SIZE" for a n
  proof -
    have "get_bytes a n d2 = get_bytes a n d1" unfolding d2_def
      by (rule get_put_disjoint) (use l1 fits that end_ in auto)
    also have "\<dots> = get_bytes a n d" unfolding d1_def
      by (rule data_after_fields(3)) (use assms(1) that fit small in auto)
    finally show ?thesis .
  qed
  moreover have "get_bytes off (length bs) d2 = bs"
    unfolding d2_def using l1 fits by (simp add: get_put_same)
  ultimately show ?thesis using run l4 fits end_ by (intro exI [of _ d4]) simp
qed

section \<open>What the operations do to the rows\<close>

lemma TablePage_Init_ok:
  assumes "- (2 ^ 31) \<le> p" and "p < 2 ^ 31"
  shows "page_ok (TablePage_Init p)" and "page_rows (TablePage_Init p) = []" and "GetNextPageId (TablePage_Init p) = p"
proof -
  let ?d = "SetNextPageId p (replicate PAGE_SIZE 0)"
  have l: "length ?d = PAGE_SIZE" by simp
  have init: "TablePage_Init p = SetFreeSpacePointer PAGE_SIZE (SetNumTuples 0 ?d)"
    by (simp add: TablePage_Init_def SetNumTuples_def)
  have "GetNumTuples (TablePage_Init p) = 0" "GetFreeSpacePointer (TablePage_Init p) = PAGE_SIZE"
    using l by (simp_all add: init PAGE_SIZE_def)
  then show "page_ok (TablePage_Init p)" "page_rows (TablePage_Init p) = []"
    using l by (simp_all add: page_ok_def page_rows_def init) (simp add: PAGE_SIZE_def)
  show "GetNextPageId (TablePage_Init p) = p" using l assms by (simp add: init)
qed

lemma InsertTuple_full: "page_ok d \<Longrightarrow> GetFreeSpaceRemaining d < length bs + 4 \<Longrightarrow> TP_InsertTuple bs d = Inr (None, d)"
  by (simp add: TP_InsertTuple_def)

lemma InsertTuple_ok:
  assumes "page_ok d" and "length bs + 4 \<le> GetFreeSpaceRemaining d"
  shows "\<exists>d'. TP_InsertTuple bs d = Inr (Some (GetNumTuples d), d') \<and> page_ok d' \<and>
    page_rows d' = page_rows d @ [bs] \<and> GetNextPageId d' = GetNextPageId d \<and>
    GetFreeSpaceRemaining d' = GetFreeSpaceRemaining d - (length bs + 4)"
proof -
  let ?n = "GetNumTuples d"
  note ok = page_okD [OF assms(1)]
  have fit: "slot_offset ?n + 4 + length bs \<le> GetFreeSpacePointer d"
    using assms(2) free_space [OF assms(1)] ok(2) by (simp add: slot_offset_def)
  from place_tuple_ok [OF ok(1,3) fit] obtain d1 where d1: "place_tuple ?n bs d = Inr d1"
    "length d1 = PAGE_SIZE" "GetNumTuples d1 = ?n" "GetNextPageId d1 = GetNextPageId d"
    "GetFreeSpacePointer d1 = GetFreeSpacePointer d - length bs"
    "GetTupleOffsetAtSlot ?n d1 = GetFreeSpacePointer d - length bs" "GetTupleLengthAtSlot ?n d1 = length bs"
    "\<And>j. j \<noteq> ?n \<Longrightarrow> slot_offset j + 4 \<le> GetFreeSpacePointer d - length bs \<Longrightarrow>
       GetTupleOffsetAtSlot j d1 = GetTupleOffsetAtSlot j d \<and> GetTupleLengthAtSlot j d1 = GetTupleLengthAtSlot j d"
    "\<And>a n. GetFreeSpacePointer d \<le> a \<Longrightarrow> a + n \<le> PAGE_SIZE \<Longrightarrow> get_bytes a n d1 = get_bytes a n d"
    "get_bytes (GetFreeSpacePointer d - length bs) (length bs) d1 = bs" by blast
  define d' where "d' = SetNumTuples (?n + 1) d1"
  have n: "?n mod 2 ^ 16 = ?n" "(?n + 1) mod 2 ^ 32 = ?n + 1" using ok(7) by auto
  have run: "TP_InsertTuple bs d = Inr (Some ?n, d')"
    using assms(2) d1(1) n by (simp add: TP_InsertTuple_def d'_def Let_def)
  have d': "length d' = PAGE_SIZE" "GetNumTuples d' = ?n + 1" "GetNextPageId d' = GetNextPageId d"
    "GetFreeSpacePointer d' = GetFreeSpacePointer d - length bs"
    using d1(2-5) n(2) by (simp_all add: d'_def)
  have low: "slot_offset j + 4 \<le> GetFreeSpacePointer d - length bs" "slot_in_page j" if "j \<le> ?n" for j
    using that fit ok(3) by (auto simp: slot_offset_def slot_in_page_def)
  have slot: "GetTupleOffsetAtSlot j d' = GetTupleOffsetAtSlot j d1" "GetTupleLengthAtSlot j d' = GetTupleLengthAtSlot j d1"
    if "j \<le> ?n" for j
    using that d1(2) low by (simp_all add: d'_def)
  have old: "GetTupleOffsetAtSlot j d' = GetTupleOffsetAtSlot j d \<and> GetTupleLengthAtSlot j d' = GetTupleLengthAtSlot j d"
    if "j < ?n" for j
    using slot [of j] d1(8) [of j] low [of j] that by simp
  have bytes: "get_bytes a n d' = get_bytes a n d1" if "GetFreeSpacePointer d - length bs \<le> a" "a + n \<le> PAGE_SIZE" for a n
    unfolding d'_def by (rule data_after_fields(2)) (use d1(2) that low [of 0] in \<open>auto simp: slot_offset_def\<close>)
  have new: "GetTupleOffsetAtSlot ?n d' = GetFreeSpacePointer d - length bs" "GetTupleLengthAtSlot ?n d' = length bs"
    using slot [of ?n] d1(6,7) by simp_all
  have tup: "slot_tuple d' j = slot_tuple d j" if "j < ?n" for j
    using ok(4) [OF that] old [OF that] d1(9) bytes by (auto simp: slot_ok_def)
  have new_t: "slot_tuple d' ?n = bs"
    using new bytes d1(10) ok(3) fit by simp
  have "slot_ok d' j" if "j < ?n + 1" for j
  proof (cases "j = ?n")
    case True
    then show ?thesis using new d'(4) ok(3) fit unfolding True slot_ok_def by simp
  next
    case False
    then show ?thesis using that ok(4) [of j] old [of j] d'(4) by (auto simp: slot_ok_def)
  qed
  then have "page_ok d'"
    using d' fit ok(3) by (auto simp: page_ok_def slot_offset_def)
  moreover have "page_rows d' = page_rows d @ [bs]"
    unfolding page_rows_def d'(2) using tup new_t by simp
  moreover have "GetFreeSpaceRemaining d' = GetFreeSpaceRemaining d - (length bs + 4)"
    using free_space [OF assms(1)] free_space [OF \<open>page_ok d'\<close>] d'(2,4) by (simp add: slot_offset_def)
  ultimately show ?thesis using run d'(3) by simp
qed

lemma GetTuple_ok: "page_ok d \<Longrightarrow> i < GetNumTuples d \<Longrightarrow> TP_GetTuple i d = Inr (page_rows d ! i)"
  using page_okD(4,6) [of d i] by (auto simp: TP_GetTuple_def slot_ok_def Let_def)

lemma GetTupleSize_ok: "page_ok d \<Longrightarrow> i < GetNumTuples d \<Longrightarrow> TP_GetTupleSize i d = length (page_rows d ! i)"
  using length_slot_tuple [of d i] by (simp add: TP_GetTupleSize_def)

lemma DeleteTuple_ok:
  assumes "page_ok d" and "i < GetNumTuples d"
  shows "\<exists>d'. TP_DeleteTuple i d = Inr d' \<and> page_ok d' \<and> page_rows d' = (page_rows d)[i := []] \<and>
    GetNextPageId d' = GetNextPageId d \<and> GetFreeSpacePointer d' = GetFreeSpacePointer d \<and>
    GetNumTuples d' = GetNumTuples d"
proof -
  note ok = page_okD [OF assms(1)] and i = page_okD(5,6) [OF assms]
  define d1 where "d1 = SetTupleLengthAtSlot i 0 d"
  define d' where "d' = SetTupleOffsetAtSlot i 0 d1"
  have run: "TP_DeleteTuple i d = Inr d'" using i by (simp add: TP_DeleteTuple_def d'_def d1_def)
  have l1: "length d1 = PAGE_SIZE" using ok(1) i by (simp add: d1_def)
  have d': "length d' = PAGE_SIZE" "GetNumTuples d' = GetNumTuples d" "GetNextPageId d' = GetNextPageId d"
    "GetFreeSpacePointer d' = GetFreeSpacePointer d"
    using l1 ok(1) i by (simp_all add: d'_def d1_def)
  have zero: "GetTupleOffsetAtSlot i d' = 0" "GetTupleLengthAtSlot i d' = 0"
    using l1 ok(1) i by (simp_all add: d'_def d1_def)
  have other: "GetTupleOffsetAtSlot j d' = GetTupleOffsetAtSlot j d" "GetTupleLengthAtSlot j d' = GetTupleLengthAtSlot j d"
    if "j < GetNumTuples d" "j \<noteq> i" for j
    using that l1 ok(1) i ok(6) [OF that(1)] by (simp_all add: d'_def d1_def)
  have bytes: "get_bytes a n d' = get_bytes a n d" if "GetFreeSpacePointer d \<le> a" "a + n \<le> PAGE_SIZE" for a n
    using that l1 ok(1) i(1) data_after_fields(4,5) [of _ a n i] by (simp add: d'_def d1_def)
  have tup: "slot_tuple d' j = slot_tuple d j" if "j < GetNumTuples d" "j \<noteq> i" for j
    using ok(4) [OF that(1)] other [OF that] bytes by (auto simp: slot_ok_def)
  have "slot_ok d' j" if "j < GetNumTuples d" for j
    using ok(4) [OF that] other [OF that] zero d'(4) by (cases "j = i") (auto simp: slot_ok_def)
  then have "page_ok d'" using d' ok(2,3) by (simp add: page_ok_def)
  moreover have "page_rows d' = (page_rows d)[i := []]"
  proof (rule nth_equalityI)
    fix j assume "j < length (page_rows d')"
    then have "j < GetNumTuples d" by (simp add: d'(2))
    then show "page_rows d' ! j = (page_rows d)[i := []] ! j"
      using tup [of j] zero d'(2) by (cases "j = i") simp_all
  qed (simp add: d'(2))
  ultimately show ?thesis using run d' by simp
qed

text \<open>An update that really fits: the new tuple goes below the free-space pointer.\<close>

lemma UpdateTuple_ok:
  assumes "page_ok d" and "i < GetNumTuples d" and "length bs \<le> GetFreeSpaceRemaining d"
  shows "\<exists>d'. TP_UpdateTuple i bs d = Inr (True, d') \<and> page_ok d' \<and> page_rows d' = (page_rows d)[i := bs] \<and>
    GetNextPageId d' = GetNextPageId d \<and> GetFreeSpaceRemaining d' = GetFreeSpaceRemaining d - length bs"
proof -
  let ?n = "GetNumTuples d"
  from DeleteTuple_ok [OF assms(1,2)] obtain d1 where d1: "TP_DeleteTuple i d = Inr d1" "page_ok d1"
    "page_rows d1 = (page_rows d)[i := []]" "GetNextPageId d1 = GetNextPageId d"
    "GetFreeSpacePointer d1 = GetFreeSpacePointer d" "GetNumTuples d1 = ?n" by blast
  note ok = page_okD [OF d1(2), unfolded d1(5,6)]
  have fit0: "16 + ?n * 4 + length bs \<le> GetFreeSpacePointer d"
    using assms(3) free_space [OF assms(1)] page_okD(2) [OF assms(1)] by simp
  then have fit: "slot_offset i + 4 + length bs \<le> GetFreeSpacePointer d1"
    using assms(2) by (simp add: slot_offset_def d1(5))
  from place_tuple_ok [OF ok(1) _ fit] ok(3) d1(5,6) obtain d' where d': "place_tuple i bs d1 = Inr d'"
    "length d' = PAGE_SIZE" "GetNumTuples d' = ?n" "GetNextPageId d' = GetNextPageId d1"
    "GetFreeSpacePointer d' = GetFreeSpacePointer d - length bs"
    "GetTupleOffsetAtSlot i d' = GetFreeSpacePointer d - length bs" "GetTupleLengthAtSlot i d' = length bs"
    "\<And>j. j \<noteq> i \<Longrightarrow> slot_offset j + 4 \<le> GetFreeSpacePointer d - length bs \<Longrightarrow>
       GetTupleOffsetAtSlot j d' = GetTupleOffsetAtSlot j d1 \<and> GetTupleLengthAtSlot j d' = GetTupleLengthAtSlot j d1"
    "\<And>a n. GetFreeSpacePointer d \<le> a \<Longrightarrow> a + n \<le> PAGE_SIZE \<Longrightarrow> get_bytes a n d' = get_bytes a n d1"
    "get_bytes (GetFreeSpacePointer d - length bs) (length bs) d' = bs" by auto
  have run: "TP_UpdateTuple i bs d = Inr (True, d')"
  proof -
    have "\<not> length bs - GetTupleLengthAtSlot i d > GetFreeSpaceRemaining d" using assms(3) by simp
    then show ?thesis using page_okD(6) [OF assms(1,2)] d1(1) d'(1) by (simp add: TP_UpdateTuple_def Let_def)
  qed
  have old: "GetTupleOffsetAtSlot j d' = GetTupleOffsetAtSlot j d1 \<and> GetTupleLengthAtSlot j d' = GetTupleLengthAtSlot j d1"
    if "j < ?n" "j \<noteq> i" for j
    using d'(8) [OF that(2)] that fit0 by (simp add: slot_offset_def)
  have tup: "slot_tuple d' j = slot_tuple d1 j" if "j < ?n" "j \<noteq> i" for j
    using ok(4) [OF that(1)] old [OF that] d'(9) d1(5) by (auto simp: slot_ok_def)
  have "slot_ok d' j" if "j < ?n" for j
  proof (cases "j = i")
    case True
    then show ?thesis using d'(5-7) ok(3) fit0 unfolding True slot_ok_def by simp
  next
    case False
    then show ?thesis using ok(4) [OF that] old [OF that] d'(5) d1(5) by (auto simp: slot_ok_def)
  qed
  then have "page_ok d'" using d'(2,3,5) fit0 ok(3) by (auto simp: page_ok_def)
  moreover have "page_rows d' = (page_rows d)[i := bs]"
  proof (rule nth_equalityI)
    fix j assume "j < length (page_rows d')"
    then have j: "j < ?n" by (simp add: d'(3))
    show "page_rows d' ! j = (page_rows d)[i := bs] ! j"
    proof (cases "j = i")
      case True
      then show ?thesis using d'(3,6,7,10) j by simp
    next
      case False
      then have "page_rows d' ! j = page_rows d1 ! j" using tup [OF j] j d'(3) d1(6) by simp
      with False d1(3) show ?thesis by simp
    qed
  qed (simp add: d'(3))
  moreover have "GetFreeSpaceRemaining d' = GetFreeSpaceRemaining d - length bs"
    using free_space [OF assms(1)] free_space [OF calculation(1)] d'(3,5) by simp
  ultimately show ?thesis using run d'(4) d1(4) by simp
qed

lemma SetNextPageId_ok:
  assumes "page_ok d" and "- (2 ^ 31) \<le> p" and "p < 2 ^ 31"
  shows "page_ok (SetNextPageId p d)" and "page_rows (SetNextPageId p d) = page_rows d"
    and "GetNextPageId (SetNextPageId p d) = p"
proof -
  note ok = page_okD [OF assms(1)]
  have tup: "slot_tuple (SetNextPageId p d) i = slot_tuple d i" if "i < GetNumTuples d" for i
    using ok(1) ok(6) [OF that] ok(4) [OF that] ok(2) data_after_fields(1) [OF ok(1)] that by (auto simp: slot_ok_def)
  have "slot_ok (SetNextPageId p d) i" if "i < GetNumTuples d" for i
    using ok(1) ok(6) [OF that] ok(4) [OF that] by (simp add: slot_ok_def)
  then show "page_ok (SetNextPageId p d)" using ok(1-3) by (simp add: page_ok_def)
  show "page_rows (SetNextPageId p d) = page_rows d"
    using tup ok(1) by (simp add: page_rows_def)
  show "GetNextPageId (SetNextPageId p d) = p" using ok(1) assms(2,3) by simp
qed

section \<open>The contract of a page of rows\<close>

locale row_page =
  fixes ok :: "'p \<Rightarrow> bool" and rows :: "'p \<Rightarrow> byte list list" and room :: "'p \<Rightarrow> nat" and nxt :: "'p \<Rightarrow> page_id"
    and ins :: "byte list \<Rightarrow> 'p \<Rightarrow> error + nat option \<times> 'p" and get :: "nat \<Rightarrow> 'p \<Rightarrow> error + byte list"
    and del :: "nat \<Rightarrow> 'p \<Rightarrow> error + 'p" and upd :: "nat \<Rightarrow> byte list \<Rightarrow> 'p \<Rightarrow> error + bool \<times> 'p"
  assumes ins_full: "ok d \<Longrightarrow> room d < length bs + 4 \<Longrightarrow> ins bs d = Inr (None, d)"
    and ins_ok: "ok d \<Longrightarrow> length bs + 4 \<le> room d \<Longrightarrow>
      \<exists>d'. ins bs d = Inr (Some (length (rows d)), d') \<and> ok d' \<and> rows d' = rows d @ [bs] \<and> nxt d' = nxt d \<and>
        room d' = room d - (length bs + 4)"
    and get_ok: "ok d \<Longrightarrow> i < length (rows d) \<Longrightarrow> get i d = Inr (rows d ! i)"
    and del_ok: "ok d \<Longrightarrow> i < length (rows d) \<Longrightarrow>
      \<exists>d'. del i d = Inr d' \<and> ok d' \<and> rows d' = (rows d)[i := []] \<and> nxt d' = nxt d"
    and upd_ok: "ok d \<Longrightarrow> i < length (rows d) \<Longrightarrow> length bs \<le> room d \<Longrightarrow>
      \<exists>d'. upd i bs d = Inr (True, d') \<and> ok d' \<and> rows d' = (rows d)[i := bs] \<and> nxt d' = nxt d \<and> room d' = room d - length bs"
begin

lemma get_after_insert:
  assumes "ok d" and "length bs + 4 \<le> room d"
  shows "\<exists>d'. ins bs d = Inr (Some (length (rows d)), d') \<and> ok d' \<and> get (length (rows d)) d' = Inr bs \<and>
    (\<forall>j < length (rows d). get j d' = get j d)"
proof -
  from ins_ok [OF assms] obtain d' where d': "ins bs d = Inr (Some (length (rows d)), d')" "ok d'"
    "rows d' = rows d @ [bs]" by blast
  have "get (length (rows d)) d' = Inr bs" using get_ok [OF d'(2)] d'(3) by simp
  moreover have "get j d' = get j d" if "j < length (rows d)" for j
    using get_ok [OF d'(2), of j] get_ok [OF assms(1) that] d'(3) that by (simp add: nth_append)
  ultimately show ?thesis using d' by blast
qed

lemma get_after_update:
  assumes "ok d" and "i < length (rows d)" and "length bs \<le> room d"
  shows "\<exists>d'. upd i bs d = Inr (True, d') \<and> ok d' \<and> get i d' = Inr bs \<and>
    (\<forall>j < length (rows d). j \<noteq> i \<longrightarrow> get j d' = get j d)"
proof -
  from upd_ok [OF assms] obtain d' where d': "upd i bs d = Inr (True, d')" "ok d'" "rows d' = (rows d)[i := bs]" by blast
  have "get i d' = Inr bs" using get_ok [OF d'(2), of i] assms(2) d'(3) by simp
  moreover have "get j d' = get j d" if "j < length (rows d)" "j \<noteq> i" for j
    using get_ok [OF d'(2), of j] get_ok [OF assms(1) that(1)] d'(3) that by simp
  ultimately show ?thesis using d' by blast
qed

lemma get_after_delete:
  assumes "ok d" and "i < length (rows d)"
  shows "\<exists>d'. del i d = Inr d' \<and> ok d' \<and> get i d' = Inr [] \<and> (\<forall>j < length (rows d). j \<noteq> i \<longrightarrow> get j d' = get j d)"
proof -
  from del_ok [OF assms] obtain d' where d': "del i d = Inr d'" "ok d'" "rows d' = (rows d)[i := []]" by blast
  have "get i d' = Inr []" using get_ok [OF d'(2), of i] assms(2) d'(3) by simp
  moreover have "get j d' = get j d" if "j < length (rows d)" "j \<noteq> i" for j
    using get_ok [OF d'(2), of j] get_ok [OF assms(1) that(1)] d'(3) that by simp
  ultimately show ?thesis using d' by blast
qed

end

interpretation tp: row_page page_ok page_rows GetFreeSpaceRemaining GetNextPageId TP_InsertTuple TP_GetTuple
  TP_DeleteTuple TP_UpdateTuple
proof (unfold_locales, goal_cases)
  case 1
  then show ?case by (rule InsertTuple_full)
next
  case 2
  then show ?case using InsertTuple_ok by simp
next
  case 3
  then show ?case by (simp add: GetTuple_ok)
next
  case 4
  then show ?case using DeleteTuple_ok by fastforce
next
  case 5
  then show ?case using UpdateTuple_ok by simp
qed

section \<open>Properties\<close>

text \<open>
  On a well-formed table page, \<open>InsertTuple\<close> returns no slot exactly when the tuple and
  its slot do not fit into the free space, and otherwise the next slot, from which
  \<open>GetTuple\<close> then reads the tuple byte for byte while every other slot reads as before;
  an update that fits into the free space and a delete change the one slot and no other.
\<close>

theorem table_page_slots:
  assumes "page_ok d"
  shows "(if GetFreeSpaceRemaining d < length bs + 4 then TP_InsertTuple bs d = Inr (None, d)
      else \<exists>d'. TP_InsertTuple bs d = Inr (Some (GetNumTuples d), d') \<and> page_ok d' \<and>
        TP_GetTuple (GetNumTuples d) d' = Inr bs \<and> (\<forall>j < GetNumTuples d. TP_GetTuple j d' = TP_GetTuple j d)) \<and>
    (i < GetNumTuples d \<longrightarrow>
      (\<exists>d'. TP_DeleteTuple i d = Inr d' \<and> page_ok d' \<and> TP_GetTuple i d' = Inr [] \<and>
        (\<forall>j < GetNumTuples d. j \<noteq> i \<longrightarrow> TP_GetTuple j d' = TP_GetTuple j d)) \<and>
      (length bs \<le> GetFreeSpaceRemaining d \<longrightarrow>
        (\<exists>d'. TP_UpdateTuple i bs d = Inr (True, d') \<and> page_ok d' \<and> TP_GetTuple i d' = Inr bs \<and>
          (\<forall>j < GetNumTuples d. j \<noteq> i \<longrightarrow> TP_GetTuple j d' = TP_GetTuple j d))))"
  using tp.ins_full [OF assms] tp.get_after_insert [OF assms, of bs] tp.get_after_delete [OF assms, of i]
    tp.get_after_update [OF assms, of i bs]
  by (cases "GetFreeSpaceRemaining d < length bs + 4") simp_all

text \<open>A page that one tuple fills completely.\<close>

definition full_page :: "byte list" where
  "full_page = snd (projr (TP_InsertTuple (replicate 4076 1) (TablePage_Init INVALID_PAGE_ID)))"

lemma full_page_ok:
  "page_ok full_page" "GetNumTuples full_page = 1" "GetTupleLengthAtSlot 0 full_page = 4076"
  "GetFreeSpacePointer full_page = 20"
proof -
  let ?d = "TablePage_Init INVALID_PAGE_ID" and ?bs = "replicate 4076 1 :: byte list"
  have d: "page_ok ?d" "page_rows ?d = []" using TablePage_Init_ok [of INVALID_PAGE_ID] by (simp_all add: INVALID_PAGE_ID_def)
  have n: "GetNumTuples ?d = 0" "GetFreeSpacePointer ?d = 4096"
    using d(2) length_page_rows [of ?d] by (simp_all add: TablePage_Init_def fsp_after(3) PAGE_SIZE_def put_u32_def SetNextPageId_def)
  have room: "GetFreeSpaceRemaining ?d = 4080" using free_space [OF d(1)] n by simp
  from InsertTuple_ok [OF d(1), of ?bs] room obtain d' where
    d': "TP_InsertTuple ?bs ?d = Inr (Some 0, d')" "page_ok d'" "page_rows d' = [?bs]" using n d(2) by auto
  then have eq: "full_page = d'" by (simp add: full_page_def)
  have num: "GetNumTuples d' = 1" using d'(3) length_page_rows [of d'] by simp
  have len: "GetTupleLengthAtSlot 0 d' = 4076" using GetTupleSize_ok [OF d'(2), of 0] d'(3) num by (simp add: TP_GetTupleSize_def)
  have "GetFreeSpacePointer d' \<le> 20"
    using page_okD(4) [OF d'(2), of 0] num len by (auto simp: slot_ok_def PAGE_SIZE_def)
  with page_okD(2) [OF d'(2)] num have "GetFreeSpacePointer d' = 20" by simp
  with d'(2) num len eq show "page_ok full_page" "GetNumTuples full_page = 1" "GetTupleLengthAtSlot 0 full_page = 4076"
    "GetFreeSpacePointer full_page = 20" by simp_all
qed

theorem table_page_slots_witness: "TP_InsertTuple [1, 2, 3] full_page = Inr (None, full_page)"
  using table_page_slots [OF full_page_ok(1), of "[1, 2, 3]" 0] free_space [OF full_page_ok(1)] full_page_ok(2,4) by simp



end
