(* ===== verification/Values.thy ===== *)
theory Values
  imports Prelude "HOL-Library.Signed_Division"
begin

text \<open>
  The type system (\<open>src/type/value.cpp\<close>, \<open>src/type/type.cpp\<close>). A \<open>Value\<close> keeps its
  anonymous union as the 32 bits it occupies, read as a signed integer, a boolean or a float by
  the member that is accessed; a boolean constructor sets the low byte. Floating-point
  arithmetic and formatting work on bit patterns and are a parameter (\<open>float_ops\<close>): the model
  does not fix the rounding of the target. A \<open>std::string\<close> is a \<open>string\<close>, compared as its
  unsigned bytes. \<open>ONEBASE_ASSERT\<close> and \<open>UNREACHABLE\<close> throw \<open>std::logic_error\<close>; signed
  overflow is undefined.
\<close>

section \<open>Types\<close>

datatype TypeId = INVALID | BOOLEAN | INTEGER | FLOAT | VARCHAR

type_synonym bits32 = "32 word"

record float_ops =
  fl_less :: "bits32 \<Rightarrow> bits32 \<Rightarrow> bool"
  fl_le :: "bits32 \<Rightarrow> bits32 \<Rightarrow> bool"
  fl_eq :: "bits32 \<Rightarrow> bits32 \<Rightarrow> bool"
  fl_add :: "bits32 \<Rightarrow> bits32 \<Rightarrow> bits32"
  fl_sub :: "bits32 \<Rightarrow> bits32 \<Rightarrow> bits32"
  fl_mul :: "bits32 \<Rightarrow> bits32 \<Rightarrow> bits32"
  fl_div :: "bits32 \<Rightarrow> bits32 \<Rightarrow> bits32"
  fl_format :: "bits32 \<Rightarrow> string"
  fl_of_int :: "int \<Rightarrow> bits32"

definition GetTypeSize :: "TypeId \<Rightarrow> error + nat" where
  "GetTypeSize type =
     (case type of BOOLEAN \<Rightarrow> Inr 1 | INTEGER \<Rightarrow> Inr 4 | FLOAT \<Rightarrow> Inr 4 | VARCHAR \<Rightarrow> Inr 0
      | _ \<Rightarrow> Inl (LogicError ''Unknown type''))"

definition TypeIdToString :: "TypeId \<Rightarrow> string" where
  "TypeIdToString type =
     (case type of INVALID \<Rightarrow> ''INVALID'' | BOOLEAN \<Rightarrow> ''BOOLEAN'' | INTEGER \<Rightarrow> ''INTEGER''
      | FLOAT \<Rightarrow> ''FLOAT'' | VARCHAR \<Rightarrow> ''VARCHAR'')"

definition IsCoercableTo :: "TypeId \<Rightarrow> TypeId \<Rightarrow> bool" where
  "IsCoercableTo from_t to_t \<longleftrightarrow> from_t = to_t \<or> (from_t = INTEGER \<and> to_t = FLOAT)"

section \<open>Values\<close>

record Value =
  type_id :: TypeId
  bits :: bits32
  varchar :: string
  is_null :: bool

definition Value_none :: Value where
  "Value_none = \<lparr>type_id = INVALID, bits = 0, varchar = [], is_null = True\<rparr>"

definition Value_null :: "TypeId \<Rightarrow> Value" where
  "Value_null type = \<lparr>type_id = type, bits = 0, varchar = [], is_null = True\<rparr>"

definition Value_int :: "TypeId \<Rightarrow> int \<Rightarrow> Value" where
  "Value_int type i = \<lparr>type_id = type, bits = word_of_int i, varchar = [], is_null = False\<rparr>"

definition Value_float :: "TypeId \<Rightarrow> bits32 \<Rightarrow> Value" where
  "Value_float type f = \<lparr>type_id = type, bits = f, varchar = [], is_null = False\<rparr>"

definition Value_bool :: "TypeId \<Rightarrow> bool \<Rightarrow> Value" where
  "Value_bool type b = \<lparr>type_id = type, bits = of_bool b, varchar = [], is_null = False\<rparr>"

definition Value_string :: "TypeId \<Rightarrow> string \<Rightarrow> Value" where
  "Value_string type s = \<lparr>type_id = type, bits = 0, varchar = s, is_null = False\<rparr>"

text \<open>The members of the union.\<close>

definition integer :: "Value \<Rightarrow> int" where
  "integer v = sint (bits v)"

definition boolean :: "Value \<Rightarrow> bool" where
  "boolean v \<longleftrightarrow> (ucast (bits v) :: byte) \<noteq> 0"

definition GetAsInteger :: "Value \<Rightarrow> error + int" where
  "GetAsInteger v = (if type_id v = INTEGER then Inr (integer v) else Inl (LogicError ''Value is not an integer''))"

definition GetAsFloat :: "Value \<Rightarrow> error + bits32" where
  "GetAsFloat v = (if type_id v = FLOAT then Inr (bits v) else Inl (LogicError ''Value is not a float''))"

definition GetAsBoolean :: "Value \<Rightarrow> error + bool" where
  "GetAsBoolean v = (if type_id v = BOOLEAN then Inr (boolean v) else Inl (LogicError ''Value is not a boolean''))"

definition GetAsString :: "Value \<Rightarrow> error + string" where
  "GetAsString v = (if type_id v = VARCHAR then Inr (varchar v) else Inl (LogicError ''Value is not a varchar''))"

subsection \<open>Comparisons\<close>

text \<open>\<open>std::string\<close> compares by unsigned bytes, a proper prefix first.\<close>

fun string_less :: "string \<Rightarrow> string \<Rightarrow> bool" where
  "string_less [] t = (t \<noteq> [])"
| "string_less (c # s) [] = False"
| "string_less (c # s) (d # t) =
     (if (of_char c :: nat) < of_char d then True
      else if (of_char d :: nat) < of_char c then False
      else string_less s t)"

text \<open>The shared shape of the six comparisons; \<open>b\<close> is the case of \<open>BOOLEAN\<close>, where there is one.\<close>

definition compare :: "(int \<Rightarrow> int \<Rightarrow> bool) \<Rightarrow> (bits32 \<Rightarrow> bits32 \<Rightarrow> bool) \<Rightarrow> (string \<Rightarrow> string \<Rightarrow> bool)
    \<Rightarrow> (bool \<Rightarrow> bool \<Rightarrow> bool) option \<Rightarrow> Value \<Rightarrow> Value \<Rightarrow> error + Value" where
  "compare i f s b v w =
     (if type_id v \<noteq> type_id w then Inl (LogicError ''Type mismatch in comparison'')
      else case type_id v of
        INTEGER \<Rightarrow> Inr (Value_bool BOOLEAN (i (integer v) (integer w)))
      | FLOAT \<Rightarrow> Inr (Value_bool BOOLEAN (f (bits v) (bits w)))
      | VARCHAR \<Rightarrow> Inr (Value_bool BOOLEAN (s (varchar v) (varchar w)))
      | BOOLEAN \<Rightarrow> (case b of
            Some g \<Rightarrow> Inr (Value_bool BOOLEAN (g (boolean v) (boolean w)))
          | None \<Rightarrow> Inl (LogicError ''Unsupported type for comparison''))
      | INVALID \<Rightarrow> Inl (LogicError ''Unsupported type for comparison''))"

definition CompareLessThan :: "float_ops \<Rightarrow> Value \<Rightarrow> Value \<Rightarrow> error + Value" where
  "CompareLessThan F = compare (<) (fl_less F) string_less None"

definition CompareGreaterThan :: "float_ops \<Rightarrow> Value \<Rightarrow> Value \<Rightarrow> error + Value" where
  "CompareGreaterThan F = compare (>) (\<lambda>x y. fl_less F y x) (\<lambda>s t. string_less t s) None"

definition CompareLessThanOrEqual :: "float_ops \<Rightarrow> Value \<Rightarrow> Value \<Rightarrow> error + Value" where
  "CompareLessThanOrEqual F = compare (\<le>) (fl_le F) (\<lambda>s t. \<not> string_less t s) None"

definition CompareGreaterThanOrEqual :: "float_ops \<Rightarrow> Value \<Rightarrow> Value \<Rightarrow> error + Value" where
  "CompareGreaterThanOrEqual F = compare (\<ge>) (\<lambda>x y. fl_le F y x) (\<lambda>s t. \<not> string_less s t) None"

definition CompareEquals :: "float_ops \<Rightarrow> Value \<Rightarrow> Value \<Rightarrow> error + Value" where
  "CompareEquals F = compare (=) (fl_eq F) (=) (Some (=))"

definition CompareNotEquals :: "float_ops \<Rightarrow> Value \<Rightarrow> Value \<Rightarrow> error + Value" where
  "CompareNotEquals F = compare (\<noteq>) (\<lambda>x y. \<not> fl_eq F x y) (\<noteq>) (Some (\<noteq>))"

subsection \<open>Arithmetic\<close>

definition int32_ok :: "int \<Rightarrow> bool" where
  "int32_ok i \<longleftrightarrow> - (2 ^ 31) \<le> i \<and> i < 2 ^ 31"

definition int_result :: "int \<Rightarrow> error + Value" where
  "int_result i = (if int32_ok i then Inr (Value_int INTEGER i) else Inl UndefinedBehaviour)"

definition Add :: "float_ops \<Rightarrow> Value \<Rightarrow> Value \<Rightarrow> error + Value" where
  "Add F v w =
     (if type_id v \<noteq> type_id w then Inl (LogicError ''Type mismatch in arithmetic'')
      else case type_id v of
        INTEGER \<Rightarrow> int_result (integer v + integer w)
      | FLOAT \<Rightarrow> Inr (Value_float FLOAT (fl_add F (bits v) (bits w)))
      | _ \<Rightarrow> Inl (LogicError ''Unsupported type for addition''))"

definition Subtract :: "float_ops \<Rightarrow> Value \<Rightarrow> Value \<Rightarrow> error + Value" where
  "Subtract F v w =
     (if type_id v \<noteq> type_id w then Inl (LogicError ''Type mismatch in arithmetic'')
      else case type_id v of
        INTEGER \<Rightarrow> int_result (integer v - integer w)
      | FLOAT \<Rightarrow> Inr (Value_float FLOAT (fl_sub F (bits v) (bits w)))
      | _ \<Rightarrow> Inl (LogicError ''Unsupported type for subtraction''))"

definition Multiply :: "float_ops \<Rightarrow> Value \<Rightarrow> Value \<Rightarrow> error + Value" where
  "Multiply F v w =
     (if type_id v \<noteq> type_id w then Inl (LogicError ''Type mismatch in arithmetic'')
      else case type_id v of
        INTEGER \<Rightarrow> int_result (integer v * integer w)
      | FLOAT \<Rightarrow> Inr (Value_float FLOAT (fl_mul F (bits v) (bits w)))
      | _ \<Rightarrow> Inl (LogicError ''Unsupported type for multiplication''))"

text \<open>C++ division truncates; \<open>sdiv\<close> and \<open>smod\<close> are the truncating division of integers.\<close>

definition Divide :: "float_ops \<Rightarrow> Value \<Rightarrow> Value \<Rightarrow> error + Value" where
  "Divide F v w =
     (if type_id v \<noteq> type_id w then Inl (LogicError ''Type mismatch in arithmetic'')
      else case type_id v of
        INTEGER \<Rightarrow>
          if integer w = 0 then Inl (LogicError ''Division by zero'') else int_result (integer v sdiv integer w)
      | FLOAT \<Rightarrow>
          if fl_eq F (bits w) 0 then Inl (LogicError ''Division by zero'')
          else Inr (Value_float FLOAT (fl_div F (bits v) (bits w)))
      | _ \<Rightarrow> Inl (LogicError ''Unsupported type for division''))"

definition Modulo :: "Value \<Rightarrow> Value \<Rightarrow> error + Value" where
  "Modulo v w =
     (if type_id v \<noteq> type_id w then Inl (LogicError ''Type mismatch in arithmetic'')
      else case type_id v of
        INTEGER \<Rightarrow>
          if integer w = 0 then Inl (LogicError ''Modulo by zero'')
          else if \<not> int32_ok (integer v sdiv integer w) then Inl UndefinedBehaviour
          else int_result (integer v smod integer w)
      | _ \<Rightarrow> Inl (LogicError ''Unsupported type for modulo''))"

subsection \<open>Logic\<close>

definition Value_And :: "Value \<Rightarrow> Value \<Rightarrow> error + Value" where
  "Value_And v w =
     (if type_id v = BOOLEAN \<and> type_id w = BOOLEAN then Inr (Value_bool BOOLEAN (boolean v \<and> boolean w))
      else Inl (LogicError ''AND requires boolean''))"

definition Value_Or :: "Value \<Rightarrow> Value \<Rightarrow> error + Value" where
  "Value_Or v w =
     (if type_id v = BOOLEAN \<and> type_id w = BOOLEAN then Inr (Value_bool BOOLEAN (boolean v \<or> boolean w))
      else Inl (LogicError ''OR requires boolean''))"

definition Value_Not :: "Value \<Rightarrow> error + Value" where
  "Value_Not v =
     (if type_id v = BOOLEAN then Inr (Value_bool BOOLEAN (\<not> boolean v)) else Inl (LogicError ''NOT requires boolean''))"

subsection \<open>Serialization\<close>

definition char_byte :: "char \<Rightarrow> byte" where
  "char_byte c = word_of_nat (of_char c)"

definition byte_char :: "byte \<Rightarrow> char" where
  "byte_char b = char_of (unat b)"

text \<open>The bytes \<open>SerializeTo\<close> stores.\<close>

definition SerializeTo :: "Value \<Rightarrow> error + byte list" where
  "SerializeTo v =
     (case type_id v of
        BOOLEAN \<Rightarrow> Inr [of_bool (boolean v)]
      | INTEGER \<Rightarrow> Inr (le_bytes 4 (unat (bits v)))
      | FLOAT \<Rightarrow> Inr (le_bytes 4 (unat (bits v)))
      | VARCHAR \<Rightarrow>
          let len = length (varchar v) mod 2 ^ 32 in
          Inr (le_bytes 4 len @ map char_byte (take len (varchar v)))
      | INVALID \<Rightarrow> Inl (LogicError ''Unsupported type for serialization''))"

text \<open>
  Reading past the end of the storage, or a \<open>bool\<close> whose byte is neither 0 nor 1, is
  undefined.
\<close>

definition DeserializeFrom :: "byte list \<Rightarrow> TypeId \<Rightarrow> error + Value" where
  "DeserializeFrom storage type =
     (case type of
        BOOLEAN \<Rightarrow> (case storage of
            [] \<Rightarrow> Inl UndefinedBehaviour
          | b # _ \<Rightarrow> if b = 0 \<or> b = 1 then Inr (Value_bool type (b = 1)) else Inl UndefinedBehaviour)
      | INTEGER \<Rightarrow> if length storage < 4 then Inl UndefinedBehaviour
                   else Inr (Value_int type (sint (word_of_nat (le_nat (take 4 storage)) :: bits32)))
      | FLOAT \<Rightarrow> if length storage < 4 then Inl UndefinedBehaviour
                 else Inr (Value_float type (word_of_nat (le_nat (take 4 storage))))
      | VARCHAR \<Rightarrow>
          if length storage < 4 then Inl UndefinedBehaviour
          else
            let len = le_nat (take 4 storage) in
            if length storage < 4 + len then Inl UndefinedBehaviour
            else Inr (Value_string type (map byte_char (take len (drop 4 storage))))
      | INVALID \<Rightarrow> Inl (LogicError ''Unsupported type for deserialization''))"

definition GetSerializedSize :: "Value \<Rightarrow> error + nat" where
  "GetSerializedSize v =
     (case type_id v of
        BOOLEAN \<Rightarrow> Inr 1 | INTEGER \<Rightarrow> Inr 4 | FLOAT \<Rightarrow> Inr 4
      | VARCHAR \<Rightarrow> Inr ((4 + length (varchar v)) mod 2 ^ 32)
      | INVALID \<Rightarrow> Inl (LogicError ''Unsupported type for GetSerializedSize''))"

subsection \<open>Printing\<close>

fun digits_of :: "nat \<Rightarrow> string" where
  "digits_of n = (if n < 10 then [char_of (48 + n)] else digits_of (n div 10) @ [char_of (48 + n mod 10)])"

definition int_to_string :: "int \<Rightarrow> string" where
  "int_to_string i = (if i < 0 then CHR ''-'' # digits_of (nat (- i)) else digits_of (nat i))"

definition Value_ToString :: "float_ops \<Rightarrow> Value \<Rightarrow> string" where
  "Value_ToString F v =
     (if is_null v then ''NULL''
      else case type_id v of
        BOOLEAN \<Rightarrow> if boolean v then ''true'' else ''false''
      | INTEGER \<Rightarrow> int_to_string (integer v)
      | FLOAT \<Rightarrow> fl_format F (bits v)
      | VARCHAR \<Rightarrow> varchar v
      | INVALID \<Rightarrow> ''<INVALID>'')"

declare digits_of.simps [simp del]

section \<open>Lemmas\<close>

lemma boolean_Value_bool [simp]: "boolean (Value_bool ty b) = b"
  by (simp add: boolean_def Value_bool_def)

lemma type_Value_bool [simp]: "type_id (Value_bool ty b) = ty" "is_null (Value_bool ty b) = False"
  by (simp_all add: Value_bool_def)

lemma Value_bool_eq [simp]: "Value_bool ty a = Value_bool ty b \<longleftrightarrow> a = b"
  by (auto simp: Value_bool_def)

lemma integer_Value_int [simp]: "int32_ok i \<Longrightarrow> integer (Value_int ty i) = i"
  by (simp add: integer_def Value_int_def int32_ok_def sint_sbintrunc' signed_take_bit_int_eq_self)

lemma type_Value_int [simp]: "type_id (Value_int ty i) = ty" "is_null (Value_int ty i) = False"
  by (simp_all add: Value_int_def)

lemma int32_integer: "int32_ok (integer v)"
  using sint_range_size [of "bits v"] by (simp add: int32_ok_def integer_def word_size)

lemma string_less_irrefl [simp]: "\<not> string_less s s"
  by (induction s) auto

lemma string_less_antisym: "string_less s t \<Longrightarrow> \<not> string_less t s"
proof (induction s t rule: string_less.induct)
  case (1 t)
  then show ?case by (cases t) auto
qed (auto split: if_splits)

lemma string_less_total: "s \<noteq> t \<Longrightarrow> string_less s t \<or> string_less t s"
  by (induction s t rule: string_less.induct) (auto dest: of_char_eq_iff [THEN iffD1] simp: linorder_neq_iff)

lemma string_less_trans: "string_less s t \<Longrightarrow> string_less t u \<Longrightarrow> string_less s u"
proof (induction s t arbitrary: u rule: string_less.induct)
  case (1 t)
  then show ?case by (cases u; cases t) auto
next
  case (2 c s)
  then show ?case by simp
next
  case (3 c s d t)
  then show ?case by (cases u) (auto split: if_splits)
qed

lemma char_byte_inverse [simp]: "byte_char (char_byte c) = c"
proof -
  have "of_char c < (256 :: nat)" using of_char_mod_256 [of c, where ?'a = nat] mod_less_divisor [of 256 "of_char c"] by simp
  then show ?thesis by (simp add: char_byte_def byte_char_def unat_of_nat)
qed

lemma le_nat_bits: "word_of_nat (le_nat (le_bytes 4 (unat w))) = (w :: bits32)"
proof -
  have "unat w < 256 ^ 4" using unsigned_less [of w] by simp
  then show ?thesis by (simp add: le_nat_le_bytes)
qed

section \<open>Properties\<close>

text \<open>
  The comparisons of integers and of strings form one strict total order. For two values
  of the same type, each comparison returns a boolean, exactly one of less, equal and greater
  holds, the other three are their negations, and less-than is transitive. Nulls take part as
  the payload they carry; booleans and values of different types raise.
\<close>

theorem comparisons_total_order:
  assumes "ty = INTEGER \<or> ty = VARCHAR" and "type_id u = ty" and "type_id v = ty" and "type_id w = ty"
  shows "\<exists>lt eq. CompareLessThan F v w = Inr (Value_bool BOOLEAN lt) \<and>
      CompareEquals F v w = Inr (Value_bool BOOLEAN eq) \<and>
      CompareGreaterThan F v w = Inr (Value_bool BOOLEAN (\<not> lt \<and> \<not> eq)) \<and>
      CompareLessThanOrEqual F v w = Inr (Value_bool BOOLEAN (lt \<or> eq)) \<and>
      CompareGreaterThanOrEqual F v w = Inr (Value_bool BOOLEAN (\<not> lt)) \<and>
      CompareNotEquals F v w = Inr (Value_bool BOOLEAN (\<not> eq)) \<and> \<not> (lt \<and> eq) \<and>
      (CompareLessThan F u v = Inr (Value_bool BOOLEAN True) \<and> lt \<longrightarrow>
         CompareLessThan F u w = Inr (Value_bool BOOLEAN True))"
proof -
  let ?lt = "if ty = INTEGER then integer v < integer w else string_less (varchar v) (varchar w)"
  let ?eq = "if ty = INTEGER then integer v = integer w else varchar v = varchar w"
  have tri: "string_less (varchar w) (varchar v) \<longleftrightarrow> \<not> string_less (varchar v) (varchar w) \<and> varchar v \<noteq> varchar w"
    using string_less_antisym string_less_total string_less_irrefl by metis
  show ?thesis
    by (rule exI [of _ ?lt], rule exI [of _ ?eq])
      (use assms tri string_less_trans [of "varchar u" "varchar v" "varchar w"] in
        \<open>auto simp: compare_def CompareLessThan_def CompareEquals_def CompareGreaterThan_def
          CompareLessThanOrEqual_def CompareGreaterThanOrEqual_def CompareNotEquals_def\<close>)
qed

text \<open>A concrete instance of the float parameter, for the witnesses: fixed point numbers in two's complement.\<close>

definition fixed_point :: float_ops where
  "fixed_point = \<lparr>fl_less = (\<lambda>a b. sint a < sint b), fl_le = (\<lambda>a b. sint a \<le> sint b), fl_eq = (=),
     fl_add = (+), fl_sub = (-), fl_mul = (*), fl_div = (div), fl_format = (\<lambda>_. []), fl_of_int = word_of_int\<rparr>"

theorem comparisons_total_order_witness:
  "CompareLessThan fixed_point (Value_string VARCHAR ''ab'') (Value_string VARCHAR ''b'') = Inr (Value_bool BOOLEAN True)"
proof -
  have "type_id (Value_string VARCHAR s) = VARCHAR" for s by (simp add: Value_string_def)
  with comparisons_total_order [of VARCHAR "Value_string VARCHAR ''a''" "Value_string VARCHAR ''ab''"
      "Value_string VARCHAR ''b''" fixed_point]
  show ?thesis by (auto simp: CompareLessThan_def compare_def Value_string_def)
qed

lemma smod_bound: "(b :: int) \<noteq> 0 \<Longrightarrow> \<bar>a smod b\<bar> < \<bar>b\<bar>"
  using smod_int_range [of b a] by auto

lemma smod_sign: "(a :: int) smod b = 0 \<or> sgn (a smod b) = sgn a"
proof -
  have "0 \<le> \<bar>a\<bar> mod \<bar>b\<bar>" by (cases "b = 0") simp_all
  then have "\<bar>a\<bar> mod \<bar>b\<bar> = 0 \<or> sgn (\<bar>a\<bar> mod \<bar>b\<bar>) = 1" by (auto simp: sgn_if)
  then show ?thesis by (auto simp: signed_modulo_int_def sgn_mult)
qed

text \<open>
  Integer division and remainder. Unless the divisor is zero (which raises) or the quotient
  leaves the 32-bit range (which happens exactly for the least integer divided by -1 and is
  undefined), \<open>Divide\<close> and \<open>Modulo\<close> return the truncated quotient and a remainder that is
  smaller than the divisor, takes the sign of the dividend and restores it.
\<close>

theorem division_correct:
  assumes "type_id v = INTEGER" and "type_id w = INTEGER"
  shows "if integer w = 0 then Divide F v w = Inl (LogicError ''Division by zero'') \<and>
           Modulo v w = Inl (LogicError ''Modulo by zero'')
         else if integer v = - (2 ^ 31) \<and> integer w = -1 then
           Divide F v w = Inl UndefinedBehaviour \<and> Modulo v w = Inl UndefinedBehaviour
         else \<exists>q r. Divide F v w = Inr (Value_int INTEGER q) \<and> Modulo v w = Inr (Value_int INTEGER r) \<and>
           int32_ok q \<and> int32_ok r \<and> integer v = q * integer w + r \<and> \<bar>r\<bar> < \<bar>integer w\<bar> \<and> (r = 0 \<or> sgn r = sgn (integer v))"
proof -
  let ?a = "integer v" and ?b = "integer w"
  have a: "- (2 ^ 31) \<le> ?a" "?a < 2 ^ 31" and b: "- (2 ^ 31) \<le> ?b" "?b < 2 ^ 31"
    using int32_integer [of v] int32_integer [of w] by (auto simp: int32_ok_def)
  have q: "?a = (?a sdiv ?b) * ?b + ?a smod ?b" by (simp add: sdiv_mult_smod_eq)
  have absq: "\<bar>?a sdiv ?b\<bar> = \<bar>?a\<bar> div \<bar>?b\<bar>"
    by (cases "?b = 0"; cases "?a = 0") (simp_all add: signed_divide_int_def abs_mult abs_sgn_eq pos_imp_zdiv_nonneg_iff)
  show ?thesis
  proof (cases "?b = 0")
    case True
    then show ?thesis using assms by (simp add: Divide_def Modulo_def)
  next
    case nz: False
    note r = smod_bound [OF nz, of ?a]
    note rs = smod_sign [of ?a ?b]
    have ok_r: "int32_ok (?a smod ?b)" using r b by (auto simp: int32_ok_def)
    show ?thesis
    proof (cases "?a = - (2 ^ 31) \<and> ?b = -1")
      case True
      then have "\<not> int32_ok (?a sdiv ?b)" by (simp add: int32_ok_def signed_divide_int_def)
      then show ?thesis using nz True assms by (simp add: Divide_def Modulo_def int_result_def)
    next
      case False
      have "int32_ok (?a sdiv ?b)"
      proof (cases "\<bar>?a\<bar> < 2 ^ 31")
        case True
        then show ?thesis using sdiv_int_range [of ?a ?b] by (auto simp: int32_ok_def)
      next
        case big: False
        then have a31: "?a = - (2 ^ 31)" using a by auto
        with False have "?b \<noteq> -1" by simp
        then consider "?b = 1" | "2 \<le> \<bar>?b\<bar>" using nz by force
        then show ?thesis
        proof cases
          case 1
          then show ?thesis using a31 by (simp add: int32_ok_def signed_divide_int_def)
        next
          case 2
          then have "\<bar>?a\<bar> div \<bar>?b\<bar> \<le> \<bar>?a\<bar> div 2" by (simp add: zdiv_mono2)
          with absq a31 show ?thesis by (auto simp: int32_ok_def)
        qed
      qed
      moreover from this have "Divide F v w = Inr (Value_int INTEGER (?a sdiv ?b))"
        "Modulo v w = Inr (Value_int INTEGER (?a smod ?b))"
        using nz assms ok_r by (simp_all add: Divide_def Modulo_def int_result_def)
      ultimately show ?thesis
        unfolding if_not_P [OF nz] if_not_P [OF False] using ok_r q r rs by blast
    qed
  qed
qed

theorem division_correct_witness:
  "\<exists>q r. Divide fixed_point (Value_int INTEGER (-7)) (Value_int INTEGER 2) = Inr (Value_int INTEGER q) \<and>
     Modulo (Value_int INTEGER (-7)) (Value_int INTEGER 2) = Inr (Value_int INTEGER r) \<and> -7 = q * 2 + r"
proof -
  have "integer (Value_int INTEGER (-7)) = -7" "integer (Value_int INTEGER 2) = 2" by (simp_all add: int32_ok_def)
  with division_correct [of "Value_int INTEGER (-7)" "Value_int INTEGER 2" fixed_point] show ?thesis by auto
qed

text \<open>What serialization keeps of a value: everything but the null flag and unused members.\<close>

definition stored :: "Value \<Rightarrow> Value" where
  "stored v =
     (case type_id v of
        BOOLEAN \<Rightarrow> Value_bool BOOLEAN (boolean v)
      | INTEGER \<Rightarrow> Value_int INTEGER (integer v)
      | FLOAT \<Rightarrow> Value_float FLOAT (bits v)
      | VARCHAR \<Rightarrow> Value_string VARCHAR (varchar v)
      | INVALID \<Rightarrow> v)"

lemma type_stored [simp]: "type_id (stored v) = type_id v"
  by (cases "type_id v") (simp_all add: stored_def Value_bool_def Value_int_def Value_float_def Value_string_def)

lemma stored_stored: "stored (stored v) = stored v"
  by (cases "type_id v")
    (simp_all add: stored_def Value_bool_def boolean_def Value_int_def integer_def Value_float_def Value_string_def)

lemma Serialize_Deserialize:
  assumes "type_id v \<noteq> INVALID" and "length (varchar v) < 2 ^ 32"
  obtains bs where "SerializeTo v = Inr bs" and "DeserializeFrom (bs @ rest) (type_id v) = Inr (stored v)"
proof (cases "type_id v")
  case INVALID
  with assms(1) show ?thesis by simp
next
  case BOOLEAN
  then show ?thesis by (intro that) (auto simp: SerializeTo_def DeserializeFrom_def stored_def)
next
  case INTEGER
  then show ?thesis
    by (intro that) (auto simp: SerializeTo_def DeserializeFrom_def stored_def integer_def le_nat_bits)
next
  case FLOAT
  then show ?thesis
    by (intro that) (auto simp: SerializeTo_def DeserializeFrom_def stored_def le_nat_bits)
next
  case VARCHAR
  have "le_nat (le_bytes 4 (length (varchar v))) = length (varchar v)"
    using assms(2) by (simp add: le_nat_le_bytes)
  then show ?thesis using VARCHAR assms(2)
    by (intro that) (auto simp: SerializeTo_def DeserializeFrom_def stored_def Let_def comp_def)
qed

text \<open>
  Serialization round trip. A value of a proper type whose string is shorter than 4 GiB
  serializes to exactly \<open>GetSerializedSize\<close> bytes, and reading those bytes back, whatever
  follows them, gives the value again, except that the null flag is gone: a null comes back as
  the non-null zero, false or empty string.
\<close>

theorem value_serialization_roundtrip:
  assumes "type_id v \<noteq> INVALID" and "length (varchar v) < 2 ^ 32 - 4"
  shows "\<exists>bs. SerializeTo v = Inr bs \<and> GetSerializedSize v = Inr (length bs) \<and>
    DeserializeFrom (bs @ rest) (type_id v) = Inr (stored v) \<and> \<not> is_null (stored v)"
proof -
  from assms(2) have len: "length (varchar v) < 2 ^ 32" by simp
  from Serialize_Deserialize [OF assms(1) len, of rest] obtain bs where
    bs: "SerializeTo v = Inr bs" "DeserializeFrom (bs @ rest) (type_id v) = Inr (stored v)" .
  moreover have "GetSerializedSize v = Inr (length bs)"
    using bs(1) assms by (cases "type_id v") (auto simp: SerializeTo_def GetSerializedSize_def Let_def)
  moreover have "\<not> is_null (stored v)"
    using assms(1) by (cases "type_id v")
      (simp_all add: stored_def Value_bool_def Value_int_def Value_float_def Value_string_def)
  ultimately show ?thesis by blast
qed

theorem value_serialization_roundtrip_witness:
  "\<exists>bs. SerializeTo (Value_null INTEGER) = Inr bs \<and>
     DeserializeFrom (bs @ [9]) INTEGER = Inr (Value_int INTEGER 0)"
  using value_serialization_roundtrip [of "Value_null INTEGER" "[9]"]
  by (auto simp: Value_null_def stored_def integer_def)

end
