(* ===== verification/Tuples.thy ===== *)
theory Tuples
  imports Values
begin

text \<open>
  Columns, schemas and tuples (\<open>src/include/onebase/catalog/column.h\<close>, \<open>schema.h\<close>,
  \<open>src/storage/table/tuple.cpp\<close>): the layout a schema computes, the bytes a tuple built from
  values occupies, and what is read back from those bytes; the text and the hash key of a record identifier (\<open>common/rid.h\<close>).
\<close>

section \<open>Columns and schemas\<close>

record Column =
  col_name :: string
  col_type :: TypeId
  col_length :: nat
  fixed_length :: nat
  variable_length :: nat
  col_offset :: nat

definition GetFixedLengthFor :: "TypeId \<Rightarrow> nat" where
  "GetFixedLengthFor type = (case type of BOOLEAN \<Rightarrow> 1 | INTEGER \<Rightarrow> 4 | FLOAT \<Rightarrow> 8 | _ \<Rightarrow> 0)"

definition Column_init :: "string \<Rightarrow> TypeId \<Rightarrow> nat \<Rightarrow> Column" where
  "Column_init name type len =
     (if type = VARCHAR then
        let len' = (if len = 0 then 256 else len) in
        \<lparr>col_name = name, col_type = type, col_length = len', fixed_length = 4, variable_length = len', col_offset = 0\<rparr>
      else
        \<lparr>col_name = name, col_type = type, col_length = len, fixed_length = GetFixedLengthFor type,
         variable_length = 0, col_offset = 0\<rparr>)"

definition IsInlined :: "Column \<Rightarrow> bool" where
  "IsInlined c \<longleftrightarrow> col_type c \<noteq> VARCHAR"

record Schema =
  columns :: "Column list"
  tuple_length :: nat

text \<open>The constructor's loop, with \<open>offset\<close> a \<open>uint32_t\<close>.\<close>

fun layout :: "nat \<Rightarrow> Column list \<Rightarrow> Column list \<times> nat" where
  "layout offset [] = ([], offset)"
| "layout offset (c # cs) =
     (let (cs', n) = layout ((offset + (if IsInlined c then fixed_length c else 4)) mod 2 ^ 32) cs
      in (c\<lparr>col_offset := offset\<rparr> # cs', n))"

definition Schema_init :: "Column list \<Rightarrow> Schema" where
  "Schema_init cs = (case layout 0 cs of (cs', n) \<Rightarrow> \<lparr>columns = cs', tuple_length = n\<rparr>)"

definition GetColumn :: "Schema \<Rightarrow> nat \<Rightarrow> error + Column" where
  "GetColumn sch i = (if i < length (columns sch) then Inr (columns sch ! i) else Inl UndefinedBehaviour)"

fun column_index :: "string \<Rightarrow> Column list \<Rightarrow> nat \<Rightarrow> nat" where
  "column_index name [] i = 2 ^ 32 - 1"
| "column_index name (c # cs) i = (if col_name c = name then i else column_index name cs (Suc i))"

definition GetColumnIdx :: "Schema \<Rightarrow> string \<Rightarrow> nat" where
  "GetColumnIdx sch name = column_index name (columns sch) 0"

section \<open>Tuples\<close>

record Tuple =
  tuple_rid :: RID
  tuple_data :: "byte list"
  tuple_values :: "Value list"

text \<open>The constructor: each value is serialized at the end of the bytes so far.\<close>

fun pack_values :: "Value list \<Rightarrow> byte list \<Rightarrow> error + byte list" where
  "pack_values [] data = Inr data"
| "pack_values (v # vs) data =
     bind_err (GetSerializedSize v) (\<lambda>n. bind_err (SerializeTo v) (\<lambda>bs.
       if length bs = n then pack_values vs (data @ bs) else Inl UndefinedBehaviour))"

definition Tuple_empty :: Tuple where
  "Tuple_empty = \<lparr>tuple_rid = RID INVALID_PAGE_ID 0, tuple_data = [], tuple_values = []\<rparr>"

definition Tuple_init :: "Value list \<Rightarrow> error + Tuple" where
  "Tuple_init vs = bind_err (pack_values vs [])
     (\<lambda>data. Inr \<lparr>tuple_rid = RID INVALID_PAGE_ID 0, tuple_data = data, tuple_values = vs\<rparr>)"

definition Tuple_GetValue :: "Tuple \<Rightarrow> nat \<Rightarrow> Value" where
  "Tuple_GetValue t i = (if i < length (tuple_values t) then tuple_values t ! i else Value_none)"

definition Tuple_GetValue_schema :: "Schema \<Rightarrow> Tuple \<Rightarrow> nat \<Rightarrow> error + Value" where
  "Tuple_GetValue_schema sch t i =
     (if tuple_values t \<noteq> [] \<and> i < length (tuple_values t) then Inr (tuple_values t ! i)
      else bind_err (GetColumn sch i) (\<lambda>c.
        if col_offset c > length (tuple_data t) then Inl UndefinedBehaviour
        else DeserializeFrom (drop (col_offset c) (tuple_data t)) (col_type c)))"

fun join_values :: "float_ops \<Rightarrow> Value list \<Rightarrow> string" where
  "join_values F [] = ''''"
| "join_values F [v] = Value_ToString F v"
| "join_values F (v # vs) = Value_ToString F v @ '', '' @ join_values F vs"

definition Tuple_ToString :: "float_ops \<Rightarrow> Tuple \<Rightarrow> string" where
  "Tuple_ToString F t = ''('' @ join_values F (tuple_values t) @ '')''"

definition Tuple_SerializeTo :: "Tuple \<Rightarrow> byte list" where
  "Tuple_SerializeTo t = tuple_data t"

text \<open>Fills the bytes of an existing tuple; its \<open>values_\<close> stay as they are.\<close>

definition Tuple_DeserializeFrom :: "byte list \<Rightarrow> nat \<Rightarrow> Tuple \<Rightarrow> error + Tuple" where
  "Tuple_DeserializeFrom src n t =
     (if length src < n then Inl UndefinedBehaviour else Inr (t\<lparr>tuple_data := take n src\<rparr>))"

section \<open>Record identifiers\<close>

text \<open>
  \<open>RID::ToString\<close>, and the number that \<open>std::hash<RID>\<close> hashes: a page and a slot in one integer, different for
  different identifiers.
\<close>

definition rid_hash_key :: "RID \<Rightarrow> int" where
  "rid_hash_key rid = Bit_Operations.or (push_bit 16 (GetPageId rid)) (int (GetSlotNum rid))"

definition RID_ToString :: "RID \<Rightarrow> string" where
  "RID_ToString rid = ''('' @ int_to_string (GetPageId rid) @ '', '' @ digits_of (GetSlotNum rid) @ '')''"

lemma rid_hash_key_eq:
  assumes "GetSlotNum rid < 2 ^ 16"
  shows "rid_hash_key rid = GetPageId rid * 2 ^ 16 + int (GetSlotNum rid)"
proof -
  have "take_bit 16 (int (GetSlotNum rid)) = int (GetSlotNum rid)" using assms by (simp add: take_bit_int_eq_self)
  then have "bit (int (GetSlotNum rid)) n \<Longrightarrow> n < 16" for n by (metis bit_take_bit_iff)
  then have "Bit_Operations.and (push_bit 16 (GetPageId rid)) (int (GetSlotNum rid)) = 0"
    by (intro bit_eqI) (fastforce simp: bit_and_iff bit_push_bit_iff dest: leD)
  then show ?thesis by (simp add: rid_hash_key_def disjunctive_add_eq_or [symmetric] push_bit_eq_mult)
qed

lemma rid_hash_key_inj:
  assumes "GetSlotNum r < 2 ^ 16" and "GetSlotNum s < 2 ^ 16" and "rid_hash_key r = rid_hash_key s"
  shows "r = s"
proof -
  have parts: "rid_hash_key rid div 2 ^ 16 = GetPageId rid" "rid_hash_key rid mod 2 ^ 16 = int (GetSlotNum rid)"
    if "GetSlotNum rid < 2 ^ 16" for rid
    using that by (simp_all add: rid_hash_key_eq)
  have "GetPageId r = GetPageId s" "GetSlotNum r = GetSlotNum s"
    using parts [OF assms(1)] parts [OF assms(2)] assms(3) by simp_all
  then show ?thesis by (cases r; cases s) simp
qed

section \<open>Reading back by schema\<close>

definition ser :: "Value \<Rightarrow> byte list" where
  "ser v = projr (SerializeTo v)"

definition storable :: "Value \<Rightarrow> bool" where
  "storable v \<longleftrightarrow> type_id v \<noteq> INVALID \<and> length (varchar v) < 2 ^ 32 - 4"

lemma storable_ser:
  assumes "storable v"
  shows "SerializeTo v = Inr (ser v)" and "GetSerializedSize v = Inr (length (ser v))"
    and "DeserializeFrom (ser v @ rest) (type_id v) = Inr (stored v)"
proof -
  from assms have v: "type_id v \<noteq> INVALID" "length (varchar v) < 2 ^ 32" "length (varchar v) < 2 ^ 32 - 4"
    by (auto simp: storable_def)
  from Serialize_Deserialize [OF v(1,2), of rest] obtain bs where
    bs: "SerializeTo v = Inr bs" "DeserializeFrom (bs @ rest) (type_id v) = Inr (stored v)" .
  then show "SerializeTo v = Inr (ser v)" "DeserializeFrom (ser v @ rest) (type_id v) = Inr (stored v)"
    by (simp_all add: ser_def)
  show "GetSerializedSize v = Inr (length (ser v))"
    using bs(1) v by (cases "type_id v") (auto simp: SerializeTo_def GetSerializedSize_def ser_def Let_def)
qed

lemma pack_storable:
  "\<forall>v \<in> set vs. storable v \<Longrightarrow> pack_values vs data = Inr (data @ concat (map ser vs))"
  by (induction vs arbitrary: data) (simp_all add: storable_ser)

text \<open>A column whose slot in the layout is as long as the bytes its values occupy.\<close>

definition exact :: "TypeId \<Rightarrow> bool" where
  "exact ty \<longleftrightarrow> ty = BOOLEAN \<or> ty = INTEGER"

lemma exact_ser: "exact (type_id v) \<Longrightarrow> length (ser v) = GetFixedLengthFor (type_id v) \<and> length (ser v) \<le> 4"
  by (auto simp: exact_def ser_def SerializeTo_def GetFixedLengthFor_def)

lemma layout_columns:
  assumes "\<forall>c \<in> set (butlast cs). exact (col_type c) \<and> fixed_length c = GetFixedLengthFor (col_type c)"
    and "off + 4 * length cs < 2 ^ 32" and "i < length cs"
  shows "length (fst (layout off cs)) = length cs \<and> col_type (fst (layout off cs) ! i) = col_type (cs ! i) \<and>
    col_offset (fst (layout off cs) ! i) = off + sum_list (map (GetFixedLengthFor \<circ> col_type) (take i cs))"
  using assms
proof (induction cs arbitrary: off i)
  case Nil
  then show ?case by simp
next
  case (Cons c cs)
  show ?case
  proof (cases cs)
    case Nil
    then show ?thesis using Cons.prems by simp
  next
    case (Cons c' cs')
    define n where "n = GetFixedLengthFor (col_type c)"
    have c: "exact (col_type c)" "fixed_length c = n"
      using Cons Cons.prems(1) by (auto simp: n_def)
    then have n: "n \<le> 4" "IsInlined c" by (auto simp: exact_def GetFixedLengthFor_def IsInlined_def n_def)
    have sm: "off + n < 2 ^ 32" "(off + n) + 4 * length cs < 2 ^ 32" using Cons.prems(2) n(1) by auto
    obtain cs1 n1 where lay: "layout (off + n) cs = (cs1, n1)" by fastforce
    then have eq: "fst (layout off (c # cs)) = c\<lparr>col_offset := off\<rparr> # cs1" using sm(1) n(2) c(2) by simp
    have tail: "\<forall>c \<in> set (butlast cs). exact (col_type c) \<and> fixed_length c = GetFixedLengthFor (col_type c)"
      using Cons Cons.prems(1) by simp
    have len: "length cs1 = length cs"
      using Cons.IH [OF tail sm(2), of 0] lay Cons by simp
    show ?thesis
      using Cons.IH [OF tail sm(2), of "i - 1"] Cons.prems(3) lay eq len
      by (cases i) (simp_all add: n_def)
  qed
qed

lemma concat_ser_length:
  "\<forall>v \<in> set vs. exact (type_id v) \<Longrightarrow>
   length (concat (map ser vs)) = sum_list (map (GetFixedLengthFor \<circ> type_id) vs)"
  by (induction vs) (simp_all add: exact_ser)




end
