(* ===== verification/Table_Heap.thy ===== *)
theory Table_Heap
  imports Table_Page Tuples Page_Store
begin

text \<open>
  The table heap (\<open>src/storage/table/table_heap.cpp\<close>): a singly linked list of table pages
  behind the buffer pool, its four operations and its iterator. The buffer pool is the page store
  it implements (\<open>Buffer_Pool_Refinement\<close>), with the bytes of a page as its value; the code's
  writes through \<open>page->GetData()\<close> are \<open>ps_write\<close>. The walks along the page links are
  \<open>partial_function\<close>s, with the result \<open>None\<close> for a walk that never ends.
\<close>

section \<open>Operations\<close>

type_synonym store = "byte list page_store"

abbreviation zero_bytes :: "byte list" where
  "zero_bytes \<equiv> replicate PAGE_SIZE 0"

definition release :: "page_id \<Rightarrow> store \<Rightarrow> store" where
  "release p s = snd (ps_unpin p False s)"

text \<open>Changing the bytes of a pinned page and unpinning it as dirty.\<close>

definition store_page :: "page_id \<Rightarrow> byte list \<Rightarrow> store \<Rightarrow> store" where
  "store_page p d s = snd (ps_unpin p True (snd (ps_write p d s)))"

definition TableHeap_init :: "store \<Rightarrow> (page_id, store) outcome" where
  "TableHeap_init s =
     bind_out (ps_new zero_bytes s) (\<lambda>r s. case r of
       None \<Rightarrow> (Inl (RuntimeError ''Cannot allocate page for table heap''), s)
     | Some p \<Rightarrow> (Inr p, store_page p (TablePage_Init INVALID_PAGE_ID) s))"

definition grow_heap :: "page_id \<Rightarrow> byte list \<Rightarrow> byte list \<Rightarrow> store \<Rightarrow> (RID option, store) outcome" where
  "grow_heap p bs d s =
     bind_out (ps_new zero_bytes s) (\<lambda>r s. case r of
       None \<Rightarrow> (Inr None, release p s)
     | Some q \<Rightarrow>
         let s1 = store_page p (SetNextPageId q d) s in
         (case TP_InsertTuple bs (TablePage_Init INVALID_PAGE_ID) of
            Inl e \<Rightarrow> (Inl e, s1)
          | Inr (slot, nd) \<Rightarrow> (Inr (map_option (RID q) slot), store_page q nd s1)))"

partial_function (option) insert_loop :: "byte list \<Rightarrow> page_id \<Rightarrow> store \<Rightarrow> (RID option, store) outcome option" where
  [code]: "insert_loop bs p s =
     (if p = INVALID_PAGE_ID then Some (Inr None, s)
      else case ps_fetch p s of
        (Inl e, s) \<Rightarrow> Some (Inl e, s)
      | (Inr None, s) \<Rightarrow> Some (Inr None, s)
      | (Inr (Some d), s) \<Rightarrow>
          (case TP_InsertTuple bs d of
             Inl e \<Rightarrow> Some (Inl e, s)
           | Inr (Some slot, d') \<Rightarrow> Some (Inr (Some (RID p slot)), store_page p d' s)
           | Inr (None, _) \<Rightarrow>
               if GetNextPageId d = INVALID_PAGE_ID then Some (grow_heap p bs d s)
               else insert_loop bs (GetNextPageId d) (release p s)))"

definition TH_InsertTuple :: "page_id \<Rightarrow> Tuple \<Rightarrow> store \<Rightarrow> (RID option, store) outcome option" where
  "TH_InsertTuple first t s = insert_loop (tuple_data t) first s"

definition TH_GetTuple :: "RID \<Rightarrow> store \<Rightarrow> (Tuple, store) outcome" where
  "TH_GetTuple rid s =
     bind_out (ps_fetch (GetPageId rid) s) (\<lambda>r s. case r of
       None \<Rightarrow> (Inl (RuntimeError ''Cannot fetch page for GetTuple''), s)
     | Some d \<Rightarrow>
         (case TP_GetTuple (GetSlotNum rid) d of
            Inl e \<Rightarrow> (Inl e, s)
          | Inr bs \<Rightarrow>
              let s1 = release (GetPageId rid) s in
              (case Tuple_DeserializeFrom bs (length bs) Tuple_empty of
                 Inl e \<Rightarrow> (Inl e, s1)
               | Inr t \<Rightarrow> (Inr (t\<lparr>tuple_rid := rid\<rparr>), s1))))"

definition TH_UpdateTuple :: "RID \<Rightarrow> Tuple \<Rightarrow> store \<Rightarrow> (bool, store) outcome" where
  "TH_UpdateTuple rid t s =
     bind_out (ps_fetch (GetPageId rid) s) (\<lambda>r s. case r of
       None \<Rightarrow> (Inr False, s)
     | Some d \<Rightarrow>
         (case TP_UpdateTuple (GetSlotNum rid) (tuple_data t) d of
            Inl e \<Rightarrow> (Inl e, s)
          | Inr (True, d') \<Rightarrow> (Inr True, store_page (GetPageId rid) d' s)
          | Inr (False, _) \<Rightarrow> (Inr False, release (GetPageId rid) s)))"

definition TH_DeleteTuple :: "RID \<Rightarrow> store \<Rightarrow> (unit, store) outcome" where
  "TH_DeleteTuple rid s =
     bind_out (ps_fetch (GetPageId rid) s) (\<lambda>r s. case r of
       None \<Rightarrow> (Inr (), s)
     | Some d \<Rightarrow>
         (case TP_DeleteTuple (GetSlotNum rid) d of
            Inl e \<Rightarrow> (Inl e, s)
          | Inr d' \<Rightarrow> (Inr (), store_page (GetPageId rid) d' s)))"

text \<open>The inner loop of the iterator: the first slot from \<open>slot\<close> on that is not deleted.\<close>

function next_slot :: "byte list \<Rightarrow> nat \<Rightarrow> nat option" where
  "next_slot d slot =
     (if slot < GetNumTuples d then if TP_GetTupleSize slot d > 0 then Some slot else next_slot d (slot + 1)
      else None)"
  by auto

termination next_slot
  by (relation "measure (\<lambda>(d, slot). GetNumTuples d - slot)") auto

definition end_rid :: RID where
  "end_rid = RID INVALID_PAGE_ID 0"

text \<open>The loop that \<open>Begin\<close> and \<open>operator++\<close> share.\<close>

partial_function (option) seek :: "page_id \<Rightarrow> nat \<Rightarrow> store \<Rightarrow> (RID, store) outcome option" where
  [code]: "seek p slot s =
     (if p = INVALID_PAGE_ID then Some (Inr end_rid, s)
      else case ps_fetch p s of
        (Inl e, s) \<Rightarrow> Some (Inl e, s)
      | (Inr None, s) \<Rightarrow> Some (Inr end_rid, s)
      | (Inr (Some d), s) \<Rightarrow>
          (case next_slot d slot of
             Some i \<Rightarrow> Some (Inr (RID p i), release p s)
           | None \<Rightarrow> seek (GetNextPageId d) 0 (release p s)))"

definition TH_Begin :: "page_id \<Rightarrow> store \<Rightarrow> (RID, store) outcome option" where
  "TH_Begin first s = seek first 0 s"

definition TH_next :: "RID \<Rightarrow> store \<Rightarrow> (RID, store) outcome option" where
  "TH_next rid s = seek (GetPageId rid) ((GetSlotNum rid + 1) mod 2 ^ 16) s"

text \<open>A full scan: the loop \<open>for (auto it = Begin(); it != End(); ++it)\<close>.\<close>

partial_function (option) scan_from :: "RID \<Rightarrow> store \<Rightarrow> (RID list, store) outcome option" where
  [code]: "scan_from rid s =
     (if rid = end_rid then Some (Inr [], s)
      else case TH_next rid s of
        None \<Rightarrow> None
      | Some (Inl e, s) \<Rightarrow> Some (Inl e, s)
      | Some (Inr rid', s) \<Rightarrow>
          Option.bind (scan_from rid' s) (\<lambda>out. case out of
              (Inl e, s) \<Rightarrow> Some (Inl e, s)
            | (Inr rids, s) \<Rightarrow> Some (Inr (rid # rids), s)))"

definition TH_scan :: "page_id \<Rightarrow> store \<Rightarrow> (RID list, store) outcome option" where
  "TH_scan first s =
     (case TH_Begin first s of
        None \<Rightarrow> None
      | Some (Inl e, s) \<Rightarrow> Some (Inl e, s)
      | Some (Inr rid, s) \<Rightarrow> scan_from rid s)"

declare next_slot.simps [simp del]

section \<open>The heap in the store\<close>

fun chain :: "store \<Rightarrow> page_id \<Rightarrow> page_id list \<Rightarrow> bool" where
  "chain s p [] \<longleftrightarrow> p = INVALID_PAGE_ID"
| "chain s p (q # qs) \<longleftrightarrow> p = q \<and> p \<noteq> INVALID_PAGE_ID \<and>
     (\<exists>d. content s p = Some d \<and> page_ok d \<and> chain s (GetNextPageId d) qs)"

definition heap_ok :: "store \<Rightarrow> page_id \<Rightarrow> page_id list \<Rightarrow> bool" where
  "heap_ok s first ps \<longleftrightarrow> ps_ok s \<and> chain s first ps \<and> ps \<noteq> [] \<and> distinct ps"

definition page_live :: "page_id \<Rightarrow> nat \<Rightarrow> byte list \<Rightarrow> (RID \<times> byte list) list" where
  "page_live p k d = [(RID p i, page_rows d ! i). i \<leftarrow> [k..<GetNumTuples d], page_rows d ! i \<noteq> []]"

definition heap_rows :: "store \<Rightarrow> page_id list \<Rightarrow> (RID \<times> byte list) list" where
  "heap_rows s ps = concat (map (\<lambda>p. page_live p 0 (the (content s p))) ps)"

section \<open>Fetching and giving back\<close>

lemma fetch_ok:
  assumes "ps_ok s" and "content s p = Some d" and "p \<in> set (pinned s) \<or> \<not> ps_full s"
  shows "ps_fetch p s = (Inr (Some d), s\<lparr>pinned := p # pinned s\<rparr>)"
    and "release p (s\<lparr>pinned := p # pinned s\<rparr>) = s"
    and "store_page p d' (s\<lparr>pinned := p # pinned s\<rparr>) =
      s\<lparr>content := (content s)(p \<mapsto> d'), saved := insert p (saved s)\<rparr>"
proof -
  show "ps_fetch p s = (Inr (Some d), s\<lparr>pinned := p # pinned s\<rparr>)"
    using assms by (simp add: ps_fetch_def)
  have "p \<in> saved s" if "p \<notin> set (pinned s)" using assms(1,2) that by (auto simp: ps_ok_def)
  then show "release p (s\<lparr>pinned := p # pinned s\<rparr>) = s"
    by (auto simp: release_def ps_unpin_def Let_def)
  show "store_page p d' (s\<lparr>pinned := p # pinned s\<rparr>) =
      s\<lparr>content := (content s)(p \<mapsto> d'), saved := insert p (saved s)\<rparr>"
    by (simp add: store_page_def ps_write_def ps_unpin_def Let_def)
qed

lemma store_ps_ok:
  assumes "ps_ok s" and "content s p \<noteq> None"
  shows "ps_ok (s\<lparr>content := (content s)(p \<mapsto> d'), saved := insert p (saved s)\<rparr>)"
  using assms by (auto simp: ps_ok_def)

lemma chain_content: "chain s p ps \<Longrightarrow> q \<in> set ps \<Longrightarrow> \<exists>d. content s q = Some d \<and> page_ok d"
  by (induction s p ps rule: chain.induct) auto

lemma chain_cong: "(\<And>q. q \<in> set ps \<Longrightarrow> content s' q = content s q) \<Longrightarrow> chain s' p ps = chain s p ps"
  by (induction s p ps rule: chain.induct) auto

text \<open>Replacing the bytes of one page of the chain, keeping its link.\<close>

lemma chain_update:
  assumes "chain s p ps" and "content s q = Some d" and "page_ok d'" and "GetNextPageId d' = GetNextPageId d"
  shows "chain (s\<lparr>content := (content s)(q \<mapsto> d'), saved := sv\<rparr>) p ps"
  using assms by (induction s p ps rule: chain.induct) auto

lemma heap_ok_update:
  assumes "heap_ok s first ps" and "content s q = Some d" and "page_ok d'" and "GetNextPageId d' = GetNextPageId d"
  shows "heap_ok (s\<lparr>content := (content s)(q \<mapsto> d'), saved := insert q (saved s)\<rparr>) first ps"
  using assms chain_update [OF _ assms(2-4)] store_ps_ok [of s q d'] by (simp add: heap_ok_def)

lemma heap_rows_cong: "(\<And>p. p \<in> set ps \<Longrightarrow> content s' p = content s p) \<Longrightarrow> heap_rows s' ps = heap_rows s ps"
  unfolding heap_rows_def by (metis (mono_tags, lifting) map_eq_conv)

lemma heap_rows_append: "heap_rows s (xs @ ys) = heap_rows s xs @ heap_rows s ys"
  by (simp add: heap_rows_def)

lemma heap_rows_Cons: "heap_rows s (p # ps) = page_live p 0 (the (content s p)) @ heap_rows s ps"
  by (simp add: heap_rows_def)

lemma heap_rows_update:
  assumes "distinct ps" and "ps = xs @ q # ys"
  shows "heap_rows (s\<lparr>content := (content s)(q \<mapsto> d'), saved := sv\<rparr>) ps =
    heap_rows s xs @ page_live q 0 d' @ heap_rows s ys"
proof -
  let ?s = "s\<lparr>content := (content s)(q \<mapsto> d'), saved := sv\<rparr>"
  have "heap_rows ?s xs = heap_rows s xs" "heap_rows ?s ys = heap_rows s ys"
    using assms by (auto intro!: heap_rows_cong)
  then show ?thesis unfolding assms(2) by (simp add: heap_rows_append heap_rows_Cons)
qed

lemma heap_rows_split: "content s q = Some d \<Longrightarrow> heap_rows s (xs @ q # ys) = heap_rows s xs @ page_live q 0 d @ heap_rows s ys"
  by (simp add: heap_rows_def)

lemma page_live_insert:
  assumes "page_rows d' = page_rows d @ [bs]" and "bs \<noteq> []"
  shows "page_live p 0 d' = page_live p 0 d @ [(RID p (GetNumTuples d), bs)]"
proof -
  have n: "GetNumTuples d' = Suc (GetNumTuples d)"
    using arg_cong [OF assms(1), of length] by simp
  show ?thesis using assms by (auto simp: page_live_def n nth_append intro!: arg_cong [where f = concat])
qed

section \<open>Inserting\<close>

lemma fresh_page_room:
  "page_ok (TablePage_Init INVALID_PAGE_ID)" "GetNumTuples (TablePage_Init INVALID_PAGE_ID) = 0"
  "GetFreeSpaceRemaining (TablePage_Init INVALID_PAGE_ID) = 4080" "GetNextPageId (TablePage_Init INVALID_PAGE_ID) = INVALID_PAGE_ID"
  "page_rows (TablePage_Init INVALID_PAGE_ID) = []"
proof -
  let ?d = "TablePage_Init INVALID_PAGE_ID"
  show ok: "page_ok ?d" "GetNextPageId ?d = INVALID_PAGE_ID" "page_rows ?d = []"
    using TablePage_Init_ok [of INVALID_PAGE_ID] by (simp_all add: INVALID_PAGE_ID_def)
  show n: "GetNumTuples ?d = 0" using ok(3) length_page_rows [of ?d] by simp
  have "GetFreeSpacePointer ?d = 4096"
    by (simp add: TablePage_Init_def fsp_after(3) PAGE_SIZE_def put_u32_def SetNextPageId_def)
  then show "GetFreeSpaceRemaining ?d = 4080" using free_space [OF ok(1)] n by simp
qed

lemma grow_heap_ok:
  assumes "ps_ok s" and d: "content s p = Some d" "page_ok d" and "length bs \<le> 4076"
    and free: "card (set (p # pinned s)) < capacity s" and "next_new s < 2 ^ 31 - 1"
  defines "q \<equiv> next_new s"
  shows "\<exists>nd s'. grow_heap p bs d (s\<lparr>pinned := p # pinned s\<rparr>) = (Inr (Some (RID q 0)), s') \<and> ps_ok s' \<and>
    page_ok nd \<and> page_rows nd = [bs] \<and> GetNextPageId nd = INVALID_PAGE_ID \<and> pinned s' = pinned s \<and>
    capacity s' = capacity s \<and> content s q = None \<and> content s' = (content s)(p \<mapsto> SetNextPageId q d, q \<mapsto> nd) \<and>
    next_new s' = next_new s + 1"
proof -
  from tp.ins_ok [OF fresh_page_room(1), of bs] assms(4) obtain nd where
    nd: "TP_InsertTuple bs (TablePage_Init INVALID_PAGE_ID) = Inr (Some 0, nd)" "page_ok nd" "page_rows nd = [bs]"
    "GetNextPageId nd = INVALID_PAGE_ID" using fresh_page_room by auto
  have fresh: "content s q = None" "q \<notin> set (pinned s)" using ps_ok_fresh [OF assms(1)] by (auto simp: q_def)
  with d(1) have qp: "q \<noteq> p" by auto
  let ?s = "s\<lparr>pinned := p # pinned s\<rparr>"
  have new: "ps_new zero_bytes ?s = (Inr (Some q), ?s\<lparr>content := (content s)(q \<mapsto> zero_bytes),
      pinned := q # p # pinned s, saved := saved s - {q}, next_new := q + 1\<rparr>)"
    using free assms(6) by (auto simp: ps_new_def ps_full_def q_def)
  define s' where "s' = s\<lparr>content := (content s)(p \<mapsto> SetNextPageId q d, q \<mapsto> nd),
    saved := insert q (insert p (saved s - {q})), next_new := q + 1\<rparr>"
  have "grow_heap p bs d ?s = (Inr (Some (RID q 0)), s')"
    unfolding grow_heap_def new using nd(1) qp fresh
    by (simp add: s'_def store_page_def ps_write_def ps_unpin_def Let_def fun_upd_twist insert_Diff_if)
  moreover have "ps_ok s'"
    using assms(1) d(1) fresh qp unfolding ps_ok_def s'_def q_def by (auto simp: subset_iff)
  ultimately show ?thesis using nd fresh by (intro exI [of _ nd] exI [of _ s']) (simp add: s'_def q_def)
qed

lemma chain_extend:
  assumes "chain s p (xs @ [r])" and "distinct (xs @ [r])" and "content s r = Some d"
    and "q \<notin> set (xs @ [r])" and q: "0 \<le> q" "q < 2 ^ 31 - 1" and "page_ok nd" and "GetNextPageId nd = INVALID_PAGE_ID"
    and c: "content s' = (content s)(r \<mapsto> SetNextPageId q d, q \<mapsto> nd)"
  shows "chain s' p (xs @ [r, q])"
  using assms(1,2,4)
proof (induction xs arbitrary: p)
  case Nil
  then have d: "page_ok d" "p = r" "r \<noteq> q" "r \<noteq> INVALID_PAGE_ID" using assms(3) by auto
  have "page_ok (SetNextPageId q d)" "GetNextPageId (SetNextPageId q d) = q"
    using SetNextPageId_ok [OF d(1), of q] q by simp_all
  with d assms(7,8) q show ?case by (simp add: c INVALID_PAGE_ID_def)
next
  case (Cons x xs)
  then show ?case by (auto simp: c)
qed

lemma insert_loop_unfold:
  assumes "ps_ok s" and "chain s p (p # qs)" and "content s p = Some d" and "p \<in> set (pinned s) \<or> \<not> ps_full s"
  shows "insert_loop bs p s =
    (case TP_InsertTuple bs d of
       Inl e \<Rightarrow> Some (Inl e, s\<lparr>pinned := p # pinned s\<rparr>)
     | Inr (Some slot, d') \<Rightarrow> Some (Inr (Some (RID p slot)), s\<lparr>content := (content s)(p \<mapsto> d'), saved := insert p (saved s)\<rparr>)
     | Inr (None, _) \<Rightarrow>
         if GetNextPageId d = INVALID_PAGE_ID then Some (grow_heap p bs d (s\<lparr>pinned := p # pinned s\<rparr>))
         else insert_loop bs (GetNextPageId d) s)"
proof -
  have "p \<noteq> INVALID_PAGE_ID" using assms(2) by simp
  then show ?thesis
    using fetch_ok [OF assms(1,3,4)] by (subst insert_loop.simps) (simp split: sum.splits prod.splits option.splits)
qed

definition inserted :: "store \<Rightarrow> page_id \<Rightarrow> page_id list \<Rightarrow> byte list \<Rightarrow> RID \<Rightarrow> store \<Rightarrow> page_id list \<Rightarrow> bool" where
  "inserted s p qs bs rid s' qs' \<longleftrightarrow>
     ps_ok s' \<and> pinned s' = pinned s \<and> capacity s' = capacity s \<and>
     next_new s \<le> next_new s' \<and> next_new s' \<le> next_new s + 1 \<and> chain s' p qs' \<and> distinct qs' \<and>
     qs' \<noteq> [] \<and> set qs' \<subseteq> insert (next_new s) (set qs) \<and> (\<forall>q. q \<notin> set qs' \<longrightarrow> content s' q = content s q) \<and>
     (\<exists>xs ys. heap_rows s qs = xs @ ys \<and> heap_rows s' qs' = xs @ (rid, bs) # ys)"

lemma insert_walk:
  assumes "ps_ok s" and "chain s p qs" and "qs \<noteq> []" and "distinct qs" and bs: "bs \<noteq> []" "length bs \<le> 4076"
    and free: "card (set (pinned s)) + 2 \<le> capacity s" and new: "next_new s < 2 ^ 31 - 1"
  shows "\<exists>rid s' qs'. insert_loop bs p s = Some (Inr (Some rid), s') \<and> inserted s p qs bs rid s' qs'"
  using assms(2,3,4)
proof (induction qs arbitrary: p)
  case Nil
  then show ?case by simp
next
  case (Cons p' qs)
  then have [simp]: "p' = p" by simp
  from Cons.prems(1) obtain d where d: "content s p = Some d" "page_ok d" "chain s (GetNextPageId d) qs" by auto
  have nf: "p \<in> set (pinned s) \<or> \<not> ps_full s" using free by (simp add: ps_full_def)
  have ch: "chain s p (p # qs)" using Cons.prems(1) by simp
  note unf = insert_loop_unfold [OF assms(1) ch d(1) nf, of bs]
  show ?case
  proof (cases "GetFreeSpaceRemaining d < length bs + 4")
    case False
    from tp.ins_ok [OF d(2), of bs] False obtain d' where ins: "TP_InsertTuple bs d = Inr (Some (GetNumTuples d), d')"
      "page_ok d'" "page_rows d' = page_rows d @ [bs]" "GetNextPageId d' = GetNextPageId d" by auto
    let ?s = "s\<lparr>content := (content s)(p \<mapsto> d'), saved := insert p (saved s)\<rparr>"
    have "heap_rows ?s (p # qs) = page_live p 0 d @ (RID p (GetNumTuples d), bs) # heap_rows s qs"
      using heap_rows_update [where ps = "p # qs" and xs = "[]" and q = p and ys = qs and s = s and d' = d'] Cons.prems(3) page_live_insert [OF ins(3) bs(1)]
      by (simp add: heap_rows_def)
    moreover have "heap_rows s (p # qs) = page_live p 0 d @ heap_rows s qs" using d(1) by (simp add: heap_rows_Cons)
    ultimately have "inserted s p (p # qs) bs (RID p (GetNumTuples d)) ?s (p # qs)"
      using store_ps_ok [OF assms(1), of p] d(1) chain_update [OF ch d(1) ins(2,4)] Cons.prems(3)
      unfolding inserted_def by fastforce
    then show ?thesis using unf ins(1) by auto
  next
    case True
    with tp.ins_full [OF d(2)] have full: "TP_InsertTuple bs d = Inr (None, d)" by simp
    show ?thesis
    proof (cases qs)
      case Nil
      then have last: "GetNextPageId d = INVALID_PAGE_ID" using d(3) by simp
      have "card (set (p # pinned s)) < capacity s"
        using free card_insert_le_m1 [of "Suc (card (set (pinned s)))" "set (pinned s)" p] by (simp add: card_insert_if)
      from grow_heap_ok [OF assms(1) d(1,2) bs(2) this new] obtain nd s' where
        g: "grow_heap p bs d (s\<lparr>pinned := p # pinned s\<rparr>) = (Inr (Some (RID (next_new s) 0)), s')" "ps_ok s'"
        "page_ok nd" "page_rows nd = [bs]" "GetNextPageId nd = INVALID_PAGE_ID" "pinned s' = pinned s"
        "capacity s' = capacity s" "content s (next_new s) = None"
        "content s' = (content s)(p \<mapsto> SetNextPageId (next_new s) d, next_new s \<mapsto> nd)" "next_new s' = next_new s + 1" by blast
      let ?q = "next_new s"
      have qp: "?q \<noteq> p" using g(8) d(1) by auto
      have q: "0 \<le> ?q" using assms(1) by (simp add: ps_ok_def)
      have chp: "chain s p ([] @ [p])" using Cons.prems(1) Nil by simp
      have "chain s' p ([] @ [p, ?q])"
        by (rule chain_extend [OF chp _ d(1) _ q new g(3,5,9)]) (use qp in auto)
      then have ch': "chain s' p [p, ?q]" by simp
      have rp: "page_rows (SetNextPageId ?q d) = page_rows d"
        using SetNextPageId_ok [OF d(2), of ?q] q new by simp
      then have np: "GetNumTuples (SetNextPageId ?q d) = GetNumTuples d" by (metis length_page_rows)
      have n1: "GetNumTuples nd = 1" using g(4) length_page_rows [of nd] by simp
      have "heap_rows s' [p, ?q] = page_live p 0 d @ [(RID ?q 0, bs)]"
      proof -
        have "content s' p = Some (SetNextPageId ?q d)" "content s' ?q = Some nd" using g(9) qp by simp_all
        moreover have "page_live p 0 (SetNextPageId ?q d) = page_live p 0 d" by (simp only: page_live_def rp np)
        moreover have "page_live ?q 0 nd = [(RID ?q 0, bs)]" using g(4) n1 bs(1) by (simp add: page_live_def)
        ultimately show ?thesis by (simp add: heap_rows_def)
      qed
      moreover have "heap_rows s (p' # qs) = page_live p 0 d" using Nil d(1) by (simp add: heap_rows_def)
      ultimately have "\<exists>xs ys. heap_rows s (p' # qs) = xs @ ys \<and> heap_rows s' [p, ?q] = xs @ (RID ?q 0, bs) # ys"
        by (intro exI [of _ "page_live p 0 d"] exI [of _ "[]"]) simp
      then have "inserted s p (p' # qs) bs (RID ?q 0) s' [p, ?q]"
        using g(2,6,7,10) ch' qp unfolding inserted_def g(9) by simp
      then show ?thesis using unf full last g(1) by auto
    next
      case (Cons r rs)
      then have nxt: "GetNextPageId d \<noteq> INVALID_PAGE_ID" "qs \<noteq> []" using d(3) by auto
      from Cons.IH [OF d(3) nxt(2)] Cons.prems(3) obtain rid s' qs' where
        ih: "insert_loop bs (GetNextPageId d) s = Some (Inr (Some rid), s')" "inserted s (GetNextPageId d) qs bs rid s' qs'"
        by auto
      have fresh: "p \<noteq> next_new s" using ps_ok_fresh [OF assms(1)] d(1) by auto
      then have p: "p \<notin> set qs'" using ih(2) Cons.prems(3) unfolding inserted_def by auto
      then have cp: "content s' p = Some d" using ih(2) d(1) unfolding inserted_def by simp
      from ih(2) obtain xs ys where rows: "heap_rows s qs = xs @ ys" "heap_rows s' qs' = xs @ (rid, bs) # ys"
        unfolding inserted_def by blast
      have "heap_rows s (p' # qs) = (page_live p 0 d @ xs) @ ys" "heap_rows s' (p # qs') = (page_live p 0 d @ xs) @ (rid, bs) # ys"
        using rows d(1) cp by (simp_all add: heap_rows_Cons)
      moreover have "chain s' p (p # qs')" using ih(2) cp d(2) ch unfolding inserted_def by auto
      moreover from calculation(1,2) have
        "\<exists>xs ys. heap_rows s (p' # qs) = xs @ ys \<and> heap_rows s' (p # qs') = xs @ (rid, bs) # ys" by blast
      moreover have "set (p # qs') \<subseteq> insert (next_new s) (set (p' # qs))" using ih(2) unfolding inserted_def by auto
      ultimately have "inserted s p (p' # qs) bs rid s' (p # qs')"
        using ih(2) p unfolding inserted_def by simp
      then show ?thesis using unf full nxt(1) ih(1) by auto
    qed
  qed
qed

section \<open>Reading, updating, deleting one row\<close>

definition row_at :: "store \<Rightarrow> page_id list \<Rightarrow> RID \<Rightarrow> byte list \<Rightarrow> bool" where
  "row_at s ps rid bs \<longleftrightarrow> (rid, bs) \<in> set (heap_rows s ps)"

lemma row_atD:
  assumes "heap_ok s first ps" and "row_at s ps rid bs"
  obtains d where "GetPageId rid \<in> set ps" and "content s (GetPageId rid) = Some d" and "page_ok d"
    and "GetSlotNum rid < GetNumTuples d" and "page_rows d ! GetSlotNum rid = bs" and "bs \<noteq> []"
proof -
  from assms(2) obtain p i where p: "p \<in> set ps" "rid = RID p i" "i < GetNumTuples (the (content s p))"
    "page_rows (the (content s p)) ! i = bs" "bs \<noteq> []"
    by (auto simp: row_at_def heap_rows_def page_live_def split: if_splits)
  from chain_content [OF _ p(1)] assms(1) obtain d where "content s p = Some d" "page_ok d"
    by (auto simp: heap_ok_def)
  with p that show thesis by simp
qed

lemma page_live_replace:
  assumes "page_rows d' = (page_rows d)[i := bs]" and "i < GetNumTuples d"
  shows "set (page_live p 0 d') = {(r, b) \<in> set (page_live p 0 d). r \<noteq> RID p i} \<union> (if bs = [] then {} else {(RID p i, bs)})"
proof -
  have n: "GetNumTuples d' = GetNumTuples d" using assms(1) length_page_rows by (metis length_list_update)
  show ?thesis
    using assms by (auto simp: page_live_def n nth_list_update split: if_splits)
qed

text \<open>Rewriting one slot of a page of the heap changes the row of that slot and no other.\<close>

lemma heap_rows_replace:
  assumes "heap_ok s first ps" and "p \<in> set ps" and d: "content s p = Some d"
    and d': "page_rows d' = (page_rows d)[i := bs]" "i < GetNumTuples d"
  shows "set (heap_rows (s\<lparr>content := (content s)(p \<mapsto> d'), saved := sv\<rparr>) ps) =
    {(r, b) \<in> set (heap_rows s ps). r \<noteq> RID p i} \<union> (if bs = [] then {} else {(RID p i, bs)})"
proof -
  from assms(1) have dist: "distinct ps" by (simp add: heap_ok_def)
  from assms(2) obtain xs ys where ps: "ps = xs @ p # ys" by (meson split_list)
  have other: "r \<noteq> RID p i" if "(r, b) \<in> set (heap_rows s xs) \<union> set (heap_rows s ys)" for r b
    using that dist unfolding ps by (auto simp: heap_rows_def page_live_def split: if_splits)
  show ?thesis
    using heap_rows_update [OF dist ps, where s = s and d' = d' and sv = sv] heap_rows_split [OF d, of xs ys]
      page_live_replace [OF d', of p] other ps by auto
qed

lemma slot_access:
  assumes "heap_ok s first ps" and "row_at s ps rid bs" and "card (set (pinned s)) < capacity s"
  obtains d where "ps_fetch (GetPageId rid) s = (Inr (Some d), s\<lparr>pinned := GetPageId rid # pinned s\<rparr>)"
    and "content s (GetPageId rid) = Some d" and "page_ok d" and "GetSlotNum rid < GetNumTuples d"
    and "page_rows d ! GetSlotNum rid = bs" and "GetPageId rid \<in> set ps"
    and "release (GetPageId rid) (s\<lparr>pinned := GetPageId rid # pinned s\<rparr>) = s"
    and "\<And>d'. store_page (GetPageId rid) d' (s\<lparr>pinned := GetPageId rid # pinned s\<rparr>) =
      s\<lparr>content := (content s)(GetPageId rid \<mapsto> d'), saved := insert (GetPageId rid) (saved s)\<rparr>"
proof -
  from row_atD [OF assms(1,2)] obtain d where d: "GetPageId rid \<in> set ps" "content s (GetPageId rid) = Some d" "page_ok d"
    "GetSlotNum rid < GetNumTuples d" "page_rows d ! GetSlotNum rid = bs" by blast
  have ok: "ps_ok s" "\<not> ps_full s" using assms(1,3) by (auto simp: heap_ok_def ps_full_def)
  then have "GetPageId rid \<in> set (pinned s) \<or> \<not> ps_full s" by simp
  note f = fetch_ok [OF ok(1) d(2) this]
  show thesis by (rule that [OF f(1) d(2-5) d(1) f(2,3)])
qed

section \<open>The iterator\<close>

abbreviation live :: "byte list \<Rightarrow> nat \<Rightarrow> bool" where
  "live d i \<equiv> page_rows d ! i \<noteq> []"

lemma next_slot_ok:
  assumes "page_ok d"
  shows "case next_slot d k of
      None \<Rightarrow> page_live p k d = []
    | Some i \<Rightarrow> k \<le> i \<and> i < GetNumTuples d \<and> page_live p k d = (RID p i, page_rows d ! i) # page_live p (Suc i) d"
proof (induction "GetNumTuples d - k" arbitrary: k)
  case 0
  then show ?case by (subst next_slot.simps) (simp add: page_live_def)
next
  case (Suc n)
  then have k: "k < GetNumTuples d" and up: "[k..<GetNumTuples d] = k # [Suc k..<GetNumTuples d]"
    by (auto simp: upt_conv_Cons)
  show ?case
  proof (cases "live d k")
    case True
    then have "next_slot d k = Some k" using k GetTupleSize_ok [OF assms k] by (subst next_slot.simps) simp
    then show ?thesis using k True by (simp add: page_live_def up)
  next
    case False
    then have "next_slot d k = next_slot d (Suc k)" using k GetTupleSize_ok [OF assms k] by (subst next_slot.simps) simp
    moreover have "page_live p k d = page_live p (Suc k) d" using False by (simp add: page_live_def up)
    moreover have "n = GetNumTuples d - Suc k" using Suc(2) by simp
    ultimately show ?thesis using Suc(1) [of "Suc k"] by (auto split: option.splits)
  qed
qed

definition rows_from :: "store \<Rightarrow> page_id list \<Rightarrow> nat \<Rightarrow> (RID \<times> byte list) list" where
  "rows_from s qs k = (case qs of [] \<Rightarrow> [] | p # ps \<Rightarrow> page_live p k (the (content s p)) @ heap_rows s ps)"

definition first_rid :: "(RID \<times> byte list) list \<Rightarrow> RID" where
  "first_rid rs = (case rs of [] \<Rightarrow> end_rid | (r, _) # _ \<Rightarrow> r)"

lemma rows_from_0: "rows_from s qs 0 = heap_rows s qs"
  by (simp add: rows_from_def heap_rows_def split: list.splits)

text \<open>A seek finds the first live row from its position on and leaves the store as it was.\<close>

lemma seek_ok:
  assumes "ps_ok s" and "\<not> ps_full s" and "chain s p qs"
  shows "seek p k s = Some (Inr (first_rid (rows_from s qs k)), s) \<and>
    (\<forall>r bs rest. rows_from s qs k = (r, bs) # rest \<longrightarrow>
       (\<exists>qs'. chain s (GetPageId r) qs' \<and> rows_from s qs' (Suc (GetSlotNum r)) = rest \<and>
          r \<noteq> end_rid \<and> GetSlotNum r < 1020))"
  using assms(3)
proof (induction qs arbitrary: p k)
  case Nil
  then show ?case by (subst seek.simps) (simp add: rows_from_def first_rid_def)
next
  case (Cons p' qs)
  have p: "p' = p" "p \<noteq> INVALID_PAGE_ID" using Cons.prems by simp_all
  from Cons.prems obtain d where d: "content s p = Some d" "page_ok d" "chain s (GetNextPageId d) qs" by auto
  have "p \<in> set (pinned s) \<or> \<not> ps_full s" using assms(2) by simp
  note f = fetch_ok [OF assms(1) d(1) this]
  note ns = next_slot_ok [OF d(2), where k = k and p = p]
  show ?case
  proof (cases "next_slot d k")
    case None
    then have "page_live p k d = []" using ns by simp
    then have rf: "rows_from s (p' # qs) k = rows_from s qs 0" 
      using d(1) p unfolding rows_from_0 by (simp add: rows_from_def)
    have "seek p k s = seek (GetNextPageId d) 0 s"
      using p f None by (subst seek.simps) simp
    with Cons.IH [OF d(3), of 0] show ?thesis unfolding rf by simp
  next
    case (Some i)
    then have i: "i < GetNumTuples d" "page_live p k d = (RID p i, page_rows d ! i) # page_live p (Suc i) d" using ns by auto
    then have rf: "rows_from s (p' # qs) k = (RID p i, page_rows d ! i) # rows_from s (p' # qs) (Suc i)"
      using d(1) p by (simp add: rows_from_def)
    have run: "seek p k s = Some (Inr (RID p i), s)"
      using p f Some by (subst seek.simps) simp
    have "i < 1020" using i(1) page_okD(7) [OF d(2)] by simp
    moreover have "RID p i \<noteq> end_rid" using p by (simp add: end_rid_def)
    ultimately show ?thesis using run rf Cons.prems p by (auto simp: first_rid_def intro!: exI [of _ "p # qs"])
  qed
qed

lemma scan_from_ok:
  assumes "ps_ok s" and "\<not> ps_full s" and "chain s p qs"
  shows "scan_from (first_rid (rows_from s qs k)) s = Some (Inr (map fst (rows_from s qs k)), s)"
  using assms(3)
proof (induction "rows_from s qs k" arbitrary: p qs k)
  case Nil
  then show ?case by (subst scan_from.simps) (simp add: first_rid_def)
next
  case (Cons rb rest)
  obtain r bs where rb: "rb = (r, bs)" by fastforce
  from seek_ok [OF assms(1,2) Cons.prems, of k] Cons.hyps(2) rb obtain qs' where
    qs': "chain s (GetPageId r) qs'" "rows_from s qs' (Suc (GetSlotNum r)) = rest" "r \<noteq> end_rid" "GetSlotNum r < 1020"
    by (metis (no_types, lifting))
  have "TH_next r s = Some (Inr (first_rid rest), s)"
    using seek_ok [OF assms(1,2) qs'(1), of "Suc (GetSlotNum r)"] qs'(2,4) by (simp add: TH_next_def)
  moreover have "scan_from (first_rid rest) s = Some (Inr (map fst rest), s)"
    using Cons.hyps(1) [OF _ qs'(1), of "Suc (GetSlotNum r)"] qs'(2) by simp
  ultimately show ?case
    using qs'(3) unfolding Cons.hyps(2) [symmetric] rb by (subst scan_from.simps) (simp add: first_rid_def)
qed

text \<open>
  A scan in progress: the iterator stands on the first of \<open>rows\<close>, the live rows that are left. The
  clients of the heap that iterate use the three facts below.
\<close>

definition cursor :: "store \<Rightarrow> page_id list \<Rightarrow> (RID \<times> byte list) list \<Rightarrow> bool" where
  "cursor s ps rows \<longleftrightarrow> (\<exists>p qs k. chain s p qs \<and> rows = rows_from s qs k) \<and> set rows \<subseteq> set (heap_rows s ps)"

lemma cursor_begin:
  assumes "heap_ok s first ps" and "card (set (pinned s)) < capacity s"
  shows "TH_Begin first s = Some (Inr (first_rid (heap_rows s ps)), s)" and "cursor s ps (heap_rows s ps)"
proof -
  from assms have h: "ps_ok s" "\<not> ps_full s" "chain s first ps" by (auto simp: heap_ok_def ps_full_def)
  show "TH_Begin first s = Some (Inr (first_rid (heap_rows s ps)), s)"
    using seek_ok [OF h, of 0] by (simp add: TH_Begin_def rows_from_0)
  show "cursor s ps (heap_rows s ps)" unfolding cursor_def using h(3) rows_from_0 by (metis order_refl)
qed

lemma cursor_step:
  assumes "heap_ok s first ps" and "card (set (pinned s)) < capacity s" and "cursor s ps ((r, bs) # rest)"
  shows "r \<noteq> end_rid" and "TH_next r s = Some (Inr (first_rid rest), s)" and "cursor s ps rest" and "row_at s ps r bs"
proof -
  from assms have h: "ps_ok s" "\<not> ps_full s" by (auto simp: heap_ok_def ps_full_def)
  from assms(3) obtain p qs k where c: "chain s p qs" "rows_from s qs k = (r, bs) # rest" "set ((r, bs) # rest) \<subseteq> set (heap_rows s ps)"
    unfolding cursor_def by metis
  from seek_ok [OF h c(1), of k] c(2) obtain qs' where
    q: "chain s (GetPageId r) qs'" "rows_from s qs' (Suc (GetSlotNum r)) = rest" "r \<noteq> end_rid" "GetSlotNum r < 1020" by blast
  show "TH_next r s = Some (Inr (first_rid rest), s)"
    using seek_ok [OF h q(1), of "Suc (GetSlotNum r)"] q(2,4) by (simp add: TH_next_def)
  show "r \<noteq> end_rid" by fact
  show "cursor s ps rest" unfolding cursor_def using q(1,2) c(3) by auto
  show "row_at s ps r bs" using c(3) by (simp add: row_at_def)
qed

lemma get_row:
  assumes "heap_ok s first ps" and "card (set (pinned s)) < capacity s" and "row_at s ps rid bs"
  shows "TH_GetTuple rid s = (Inr \<lparr>tuple_rid = rid, tuple_data = bs, tuple_values = []\<rparr>, s)"
proof -
  from slot_access [OF assms(1,3,2)] obtain d where
    f: "ps_fetch (GetPageId rid) s = (Inr (Some d), s\<lparr>pinned := GetPageId rid # pinned s\<rparr>)"
    and d: "page_ok d" "GetSlotNum rid < GetNumTuples d" "page_rows d ! GetSlotNum rid = bs"
    and rel: "release (GetPageId rid) (s\<lparr>pinned := GetPageId rid # pinned s\<rparr>) = s" by blast
  have "GetSlotNum rid < length (page_rows d)" using d(2) by simp
  then show ?thesis using f rel tp.get_ok [OF d(1)] d(3)
    by (simp add: TH_GetTuple_def Tuple_DeserializeFrom_def Tuple_empty_def Let_def)
qed

lemma heap_rows_distinct:
  assumes "distinct ps"
  shows "distinct (map fst (heap_rows s ps))"
proof -
  have collect: "concat (map (\<lambda>i. if P i then [g i] else []) xs) = map g (filter P xs)" for P :: "nat \<Rightarrow> bool"
    and g :: "nat \<Rightarrow> RID \<times> byte list" and xs by (induction xs) auto
  have live: "distinct (map fst (page_live p 0 d))" for p d
    unfolding page_live_def collect by (simp add: distinct_map inj_on_def)
  show "distinct (map fst (heap_rows s ps))"
    using assms
  proof (induction ps)
    case (Cons p ps)
    have "set (map fst (page_live p 0 (the (content s p)))) \<inter> set (map fst (heap_rows s ps)) = {}"
      using Cons.prems by (auto simp: heap_rows_def page_live_def split: if_splits)
    with Cons live show ?case by (simp add: heap_rows_Cons)
  qed (simp add: heap_rows_def)
qed

section \<open>Properties\<close>


text \<open>
  C17. Scanning. Iterating from \<open>Begin\<close> to \<open>End\<close> over a well-formed heap terminates and visits
  the record identifiers of exactly the live rows, each once and in page and slot order,
  skipping deleted slots, and leaves the store (pins included) unchanged.
\<close>

theorem heap_scan_correct:
  assumes "heap_ok s first ps" and "card (set (pinned s)) < capacity s"
  shows "TH_scan first s = Some (Inr (map fst (heap_rows s ps)), s) \<and> distinct (map fst (heap_rows s ps))"
proof
  from assms have h: "ps_ok s" "\<not> ps_full s" "chain s first ps" "distinct ps"
    by (auto simp: heap_ok_def ps_full_def)
  show "TH_scan first s = Some (Inr (map fst (heap_rows s ps)), s)"
    using seek_ok [OF h(1-3), of 0] scan_from_ok [OF h(1-3), of 0]
    by (simp add: TH_scan_def TH_Begin_def rows_from_0)
  show "distinct (map fst (heap_rows s ps))" by (rule heap_rows_distinct [OF h(4)])
qed


section \<open>Witnesses\<close>

text \<open>A pool of four frames, a heap just created in it, and the same heap with one row.\<close>

definition demo_heap :: store where
  "demo_heap = snd (TableHeap_init (ps_init 4 0))"

definition demo_tuple :: Tuple where
  "demo_tuple = \<lparr>tuple_rid = end_rid, tuple_data = [1, 2, 3], tuple_values = []\<rparr>"

lemma demo_heap_ok: "heap_ok demo_heap 0 [0]" "card (set (pinned demo_heap)) + 2 \<le> capacity demo_heap"
  "next_new demo_heap = 1" "heap_rows demo_heap [0] = []"
proof -
  have h: "demo_heap = \<lparr>capacity = 4, content = [0 \<mapsto> TablePage_Init INVALID_PAGE_ID], pinned = [], saved = {0}, next_new = 1\<rparr>"
    by (simp add: demo_heap_def TableHeap_init_def ps_new_def ps_full_def ps_init_def store_page_def ps_write_def
        ps_unpin_def Let_def)
  show "heap_ok demo_heap 0 [0]" using fresh_page_room by (simp add: h heap_ok_def ps_ok_def INVALID_PAGE_ID_def)
  show "card (set (pinned demo_heap)) + 2 \<le> capacity demo_heap" "next_new demo_heap = 1" by (simp_all add: h)
  show "heap_rows demo_heap [0] = []" using fresh_page_room by (simp add: h heap_rows_def page_live_def)
qed


theorem heap_scan_correct_witness: "TH_scan 0 demo_heap = Some (Inr [], demo_heap)"
  using heap_scan_correct [OF demo_heap_ok(1)] demo_heap_ok(2,4) by simp

text \<open>A heap of one page with the row \<open>[9]\<close> in its first slot.\<close>

definition demo_page :: "byte list" where
  "demo_page = snd (projr (TP_InsertTuple [9] (TablePage_Init INVALID_PAGE_ID)))"

definition row_heap :: store where
  "row_heap = \<lparr>capacity = 4, content = [0 \<mapsto> demo_page], pinned = [], saved = {0}, next_new = 1\<rparr>"

lemma row_heap_ok: "heap_ok row_heap 0 [0]" "row_at row_heap [0] (RID 0 0) [9]"
proof -
  from tp.ins_ok [OF fresh_page_room(1), of "[9]"] fresh_page_room have d: "page_ok demo_page" "page_rows demo_page = [[9]]"
    "GetNextPageId demo_page = INVALID_PAGE_ID" by (auto simp: demo_page_def)
  then have "GetNumTuples demo_page = 1" using length_page_rows [of demo_page] by simp
  with d show "heap_ok row_heap 0 [0]" "row_at row_heap [0] (RID 0 0) [9]"
    by (simp_all add: row_heap_def heap_ok_def ps_ok_def INVALID_PAGE_ID_def row_at_def heap_rows_def page_live_def)
qed


end
