(* ===== verification/Catalog.thy ===== *)
theory Catalog
  imports Table_Heap
begin

text \<open>
  The catalog (\<open>src/catalog/catalog.cpp\<close>, \<open>catalog.h\<close>): tables with their heaps, and
  indexes, which are hash maps from integer keys to record identifiers that \<open>CreateIndex\<close> fills.
  The hash tables that the code iterates over are association lists in the order of the iteration, in
  which a new entry comes last: the C++ standard leaves that order open. A pointer to a \<open>TableInfo\<close> or
  an \<open>IndexInfo\<close> is its value, since neither changes after it is made; a null pointer is
  \<open>None\<close>. The heap of a table is its first page in the store below the catalog.
\<close>

section \<open>State\<close>

record TableInfo =
  ti_schema :: Schema
  ti_name :: string
  ti_first :: page_id
  ti_oid :: nat

record IndexInfo =
  key_schema :: Schema
  ix_name :: string
  ix_table :: string
  ix_oid :: nat
  key_attrs :: "nat list"
  supports_point_lookup :: bool
  int_rid_map :: "int \<rightharpoonup> RID list"

record Catalog =
  cat_store :: store
  next_table_oid :: nat
  next_index_oid :: nat
  tables :: "(nat \<times> TableInfo) list"
  table_names :: "string \<rightharpoonup> nat"
  indexes :: "(nat \<times> IndexInfo) list"
  index_names :: "string \<rightharpoonup> (string \<times> nat) list"

definition Catalog_init :: "store \<Rightarrow> Catalog" where
  "Catalog_init s =
     \<lparr>cat_store = s, next_table_oid = 1, next_index_oid = 1, tables = [], table_names = Map.empty,
      indexes = [], index_names = Map.empty\<rparr>"

text \<open>Running an operation on the store below the catalog.\<close>

definition on_store :: "(store \<Rightarrow> ('a, store) outcome) \<Rightarrow> Catalog \<Rightarrow> ('a, Catalog) outcome" where
  "on_store f c = (case f (cat_store c) of (r, s) \<Rightarrow> (r, c\<lparr>cat_store := s\<rparr>))"

definition on_store_loop :: "(store \<Rightarrow> ('a, store) outcome option) \<Rightarrow> Catalog \<Rightarrow> ('a, Catalog) outcome option" where
  "on_store_loop f c = map_option (\<lambda>(r, s). (r, c\<lparr>cat_store := s\<rparr>)) (f (cat_store c))"

section \<open>Indexes\<close>

definition IndexInfo_init :: "Schema \<Rightarrow> string \<Rightarrow> string \<Rightarrow> nat \<Rightarrow> nat list \<Rightarrow> IndexInfo" where
  "IndexInfo_init ks name table oid attrs =
     \<lparr>key_schema = ks, ix_name = name, ix_table = table, ix_oid = oid, key_attrs = attrs,
      supports_point_lookup = False, int_rid_map = Map.empty\<rparr>"

definition SupportsPointLookup :: "IndexInfo \<Rightarrow> bool" where
  "SupportsPointLookup ix = supports_point_lookup ix"

definition GetLookupAttr :: "IndexInfo \<Rightarrow> error + nat" where
  "GetLookupAttr ix = (case key_attrs ix of [] \<Rightarrow> Inl UndefinedBehaviour | a # _ \<Rightarrow> Inr a)"

definition LookupInteger :: "IndexInfo \<Rightarrow> int \<Rightarrow> RID list option" where
  "LookupInteger ix key = int_rid_map ix key"

definition InsertEntry :: "int \<Rightarrow> RID \<Rightarrow> IndexInfo \<Rightarrow> IndexInfo" where
  "InsertEntry key rid ix =
     ix\<lparr>int_rid_map := (int_rid_map ix)(key \<mapsto> (case int_rid_map ix key of None \<Rightarrow> [] | Some rids \<Rightarrow> rids) @ [rid])\<rparr>"

definition RemoveEntry :: "int \<Rightarrow> RID \<Rightarrow> IndexInfo \<Rightarrow> IndexInfo" where
  "RemoveEntry key rid ix =
     (case int_rid_map ix key of
        None \<Rightarrow> ix
      | Some rids \<Rightarrow>
          let rids' = filter (\<lambda>r. r \<noteq> rid) rids in
          ix\<lparr>int_rid_map := (if rids' = [] then (int_rid_map ix)(key := None) else (int_rid_map ix)(key \<mapsto> rids'))\<rparr>)"

section \<open>Operations\<close>

text \<open>\<open>unordered_map::at\<close>.\<close>

definition map_at :: "'v option \<Rightarrow> error + 'v" where
  "map_at x = (case x of None \<Rightarrow> Inl (OutOfRange ''unordered_map::at'') | Some v \<Rightarrow> Inr v)"

definition CreateTable :: "string \<Rightarrow> Schema \<Rightarrow> Catalog \<Rightarrow> (TableInfo option, Catalog) outcome" where
  "CreateTable name sch c =
     (if table_names c name \<noteq> None then (Inr None, c)
      else
        let oid = next_table_oid c; c = c\<lparr>next_table_oid := (oid + 1) mod 2 ^ 32\<rparr> in
        bind_out (on_store TableHeap_init c) (\<lambda>first c.
        let info = \<lparr>ti_schema = sch, ti_name = name, ti_first = first, ti_oid = oid\<rparr> in
        (Inr (Some info), c\<lparr>tables := AList.update oid info (tables c), table_names := (table_names c)(name \<mapsto> oid)\<rparr>)))"

definition GetTable :: "string \<Rightarrow> Catalog \<Rightarrow> error + TableInfo option" where
  "GetTable name c =
     (case table_names c name of
        None \<Rightarrow> Inr None
      | Some oid \<Rightarrow> bind_err (map_at (map_of (tables c) oid)) (\<lambda>info. Inr (Some info)))"

definition GetTable_oid :: "nat \<Rightarrow> Catalog \<Rightarrow> TableInfo option" where
  "GetTable_oid oid c = map_of (tables c) oid"

definition GetAllTables :: "Catalog \<Rightarrow> TableInfo list" where
  "GetAllTables c = map snd (tables c)"

definition GetIndex :: "string \<Rightarrow> string \<Rightarrow> Catalog \<Rightarrow> error + IndexInfo option" where
  "GetIndex name table c =
     (case index_names c table of
        None \<Rightarrow> Inr None
      | Some names \<Rightarrow>
          (case map_of names name of
             None \<Rightarrow> Inr None
           | Some oid \<Rightarrow> bind_err (map_at (map_of (indexes c) oid)) (\<lambda>ix. Inr (Some ix))))"

definition GetIndex_oid :: "nat \<Rightarrow> Catalog \<Rightarrow> IndexInfo option" where
  "GetIndex_oid oid c = map_of (indexes c) oid"

definition GetTableIndexes :: "string \<Rightarrow> Catalog \<Rightarrow> error + IndexInfo list" where
  "GetTableIndexes table c =
     (case index_names c table of
        None \<Rightarrow> Inr []
      | Some names \<Rightarrow> map_err (\<lambda>(name, oid). map_at (map_of (indexes c) oid)) names)"

definition GetAllIndexes :: "Catalog \<Rightarrow> IndexInfo list" where
  "GetAllIndexes c = map snd (indexes c)"

text \<open>The loop over the heap that fills a new index; \<open>None\<close> when the pages of the heap form a cycle.\<close>

partial_function (option) fill_index :: "Schema \<Rightarrow> nat \<Rightarrow> RID \<Rightarrow> IndexInfo \<Rightarrow> store \<Rightarrow> (IndexInfo, store) outcome option" where
  [code]: "fill_index sch attr it ix s =
     (if it = end_rid then Some (Inr ix, s)
      else and_then (Some (TH_GetTuple it s)) (\<lambda>tuple s.
        case bind_err (Tuple_GetValue_schema sch tuple attr) GetAsInteger of
          Inl e \<Rightarrow> Some (Inl e, s)
        | Inr key \<Rightarrow> and_then (TH_next it s) (\<lambda>it' s. fill_index sch attr it' (InsertEntry key it ix) s)))"

definition CreateIndex :: "string \<Rightarrow> string \<Rightarrow> nat list \<Rightarrow> Catalog \<Rightarrow> (IndexInfo option, Catalog) outcome option" where
  "CreateIndex name table attrs c =
     (case GetTable table c of
        Inl e \<Rightarrow> Some (Inl e, c)
      | Inr None \<Rightarrow> Some (Inr None, c)
      | Inr (Some info) \<Rightarrow>
          if name = [] \<or> attrs = [] then Some (Inr None, c)
          else (case GetIndex name table c of
            Inl e \<Rightarrow> Some (Inl e, c)
          | Inr (Some _) \<Rightarrow> Some (Inr None, c)
          | Inr None \<Rightarrow>
              let cols = columns (ti_schema info) in
              if \<exists>a \<in> set attrs. length cols \<le> a then Some (Inr None, c)
              else
                let oid = next_index_oid c;
                    c = c\<lparr>next_index_oid := (oid + 1) mod 2 ^ 32\<rparr>;
                    ix = IndexInfo_init (Schema_init (map (\<lambda>a. cols ! a) attrs)) name table oid attrs;
                    attr = hd attrs
                in and_then
                  (if length attrs = 1 \<and> col_type (cols ! attr) = INTEGER then
                     and_then (on_store_loop (TH_Begin (ti_first info)) c) (\<lambda>it c.
                       on_store_loop (fill_index (ti_schema info) attr it (ix\<lparr>supports_point_lookup := True\<rparr>)) c)
                   else Some (Inr ix, c))
                  (\<lambda>ix c. Some (Inr (Some ix),
                     c\<lparr>indexes := AList.update oid ix (indexes c),
                       index_names := (index_names c)(table \<mapsto>
                         AList.update name oid (case index_names c table of None \<Rightarrow> [] | Some names \<Rightarrow> names))\<rparr>))))"

definition DropIndex :: "string \<Rightarrow> string \<Rightarrow> Catalog \<Rightarrow> bool \<times> Catalog" where
  "DropIndex name table c =
     (case index_names c table of
        None \<Rightarrow> (False, c)
      | Some names \<Rightarrow>
          (case map_of names name of
             None \<Rightarrow> (False, c)
           | Some oid \<Rightarrow>
               let names' = AList.delete name names in
               (True, c\<lparr>indexes := AList.delete oid (indexes c),
                        index_names := (if names' = [] then (index_names c)(table := None) else (index_names c)(table \<mapsto> names'))\<rparr>)))"

section \<open>The invariant\<close>

text \<open>
  Names and numbers agree: every name of a table or an index leads to the object with that name, and
  every object is reached from its name.
\<close>

definition tables_ok :: "Catalog \<Rightarrow> bool" where
  "tables_ok c \<longleftrightarrow>
     distinct (map fst (tables c)) \<and>
     (\<forall>name oid. table_names c name = Some oid \<longleftrightarrow> (\<exists>info. map_of (tables c) oid = Some info \<and> ti_name info = name)) \<and>
     (\<forall>oid info. map_of (tables c) oid = Some info \<longrightarrow> ti_oid info = oid \<and> oid < next_table_oid c)"

definition indexes_ok :: "Catalog \<Rightarrow> bool" where
  "indexes_ok c \<longleftrightarrow>
     distinct (map fst (indexes c)) \<and>
     (\<forall>table names. index_names c table = Some names \<longrightarrow> names \<noteq> [] \<and> distinct (map fst names)) \<and>
     (\<forall>table name oid. (\<exists>names. index_names c table = Some names \<and> map_of names name = Some oid) \<longleftrightarrow>
        (\<exists>ix. map_of (indexes c) oid = Some ix \<and> ix_name ix = name \<and> ix_table ix = table)) \<and>
     (\<forall>oid ix. map_of (indexes c) oid = Some ix \<longrightarrow> ix_oid ix = oid \<and> oid < next_index_oid c \<and> key_attrs ix \<noteq> [])"

definition cat_ok :: "Catalog \<Rightarrow> bool" where
  "cat_ok c \<longleftrightarrow> tables_ok c \<and> indexes_ok c"

lemma cat_okD:
  assumes "cat_ok c"
  shows "distinct (map fst (tables c))" and "distinct (map fst (indexes c))"
    and "table_names c name = Some oid \<longleftrightarrow> (\<exists>info. map_of (tables c) oid = Some info \<and> ti_name info = name)"
    and "map_of (tables c) oid = Some info \<Longrightarrow> ti_oid info = oid \<and> oid < next_table_oid c"
    and "index_names c table = Some names \<Longrightarrow> names \<noteq> [] \<and> distinct (map fst names)"
    and "(\<exists>names. index_names c table = Some names \<and> map_of names name = Some ioid) \<longleftrightarrow>
      (\<exists>ix. map_of (indexes c) ioid = Some ix \<and> ix_name ix = name \<and> ix_table ix = table)"
    and "map_of (indexes c) ioid = Some ix \<Longrightarrow> ix_oid ix = ioid \<and> ioid < next_index_oid c \<and> key_attrs ix \<noteq> []"
  using assms unfolding cat_ok_def tables_ok_def indexes_ok_def by blast+

lemma cat_ok_init [simp]: "cat_ok (Catalog_init s)"
  by (simp add: cat_ok_def tables_ok_def indexes_ok_def Catalog_init_def)

text \<open>Under the invariant \<open>at\<close> never throws.\<close>

lemma GetTable_ok:
  assumes "cat_ok c"
  shows "GetTable name c = Inr (case table_names c name of None \<Rightarrow> None | Some oid \<Rightarrow> map_of (tables c) oid)"
    and "GetTable name c = Inr (Some info) \<longleftrightarrow> info \<in> set (GetAllTables c) \<and> ti_name info = name"
proof -
  show get: "GetTable name c = Inr (case table_names c name of None \<Rightarrow> None | Some oid \<Rightarrow> map_of (tables c) oid)"
  proof (cases "table_names c name")
    case (Some oid)
    then obtain info where "map_of (tables c) oid = Some info" using cat_okD(3) [OF assms, of name oid] by blast
    with Some show ?thesis by (simp add: GetTable_def map_at_def)
  qed (simp add: GetTable_def)
  have "info \<in> set (GetAllTables c) \<longleftrightarrow> (\<exists>oid. map_of (tables c) oid = Some info)"
    using cat_okD(1) [OF assms] by (force simp: GetAllTables_def map_of_eq_Some_iff)
  moreover have "GetTable name c = Inr (Some info) \<longleftrightarrow> (\<exists>oid. table_names c name = Some oid \<and> map_of (tables c) oid = Some info)"
    unfolding get by (auto split: option.splits)
  moreover have "(\<exists>oid. table_names c name = Some oid \<and> map_of (tables c) oid = Some info) \<longleftrightarrow>
      (\<exists>oid. map_of (tables c) oid = Some info) \<and> ti_name info = name"
  proof -
    have k: "table_names c name = Some oid \<longleftrightarrow> (\<exists>info. map_of (tables c) oid = Some info \<and> ti_name info = name)" for oid
      using cat_okD(3) [OF assms] .
    show ?thesis unfolding k by auto
  qed
  ultimately show "GetTable name c = Inr (Some info) \<longleftrightarrow> info \<in> set (GetAllTables c) \<and> ti_name info = name" by simp
qed

lemma GetIndex_ok:
  assumes "cat_ok c"
  shows "GetIndex name table c = Inr (Some ix) \<longleftrightarrow> ix \<in> set (GetAllIndexes c) \<and> ix_name ix = name \<and> ix_table ix = table"
    and "\<exists>r. GetIndex name table c = Inr r"
proof -
  have k: "(\<exists>names. index_names c table = Some names \<and> map_of names name = Some oid) \<longleftrightarrow>
      (\<exists>ix. map_of (indexes c) oid = Some ix \<and> ix_name ix = name \<and> ix_table ix = table)" for oid
    using cat_okD(6) [OF assms] .
  have all: "ix \<in> set (GetAllIndexes c) \<longleftrightarrow> (\<exists>oid. map_of (indexes c) oid = Some ix)" for ix
    using cat_okD(2) [OF assms] by (force simp: GetAllIndexes_def map_of_eq_Some_iff)
  show "\<exists>r. GetIndex name table c = Inr r"
  proof (cases "\<exists>names oid. index_names c table = Some names \<and> map_of names name = Some oid")
    case True
    then obtain names oid ix where "index_names c table = Some names" "map_of names name = Some oid" "map_of (indexes c) oid = Some ix"
      using k by blast
    then show ?thesis by (simp add: GetIndex_def map_at_def)
  qed (auto simp: GetIndex_def split: option.splits)
  have "GetIndex name table c = Inr (Some ix) \<longleftrightarrow>
      (\<exists>oid. (\<exists>names. index_names c table = Some names \<and> map_of names name = Some oid) \<and> map_of (indexes c) oid = Some ix)"
    by (auto simp: GetIndex_def map_at_def split: option.splits)
  also have "\<dots> \<longleftrightarrow> (\<exists>oid. map_of (indexes c) oid = Some ix) \<and> ix_name ix = name \<and> ix_table ix = table"
    unfolding k by auto
  finally show "GetIndex name table c = Inr (Some ix) \<longleftrightarrow> ix \<in> set (GetAllIndexes c) \<and> ix_name ix = name \<and> ix_table ix = table"
    unfolding all .
qed

section \<open>Tables\<close>

lemma map_of_fresh: "distinct (map fst xs) \<Longrightarrow> k \<notin> fst ` set xs \<Longrightarrow> AList.update k v xs = xs @ [(k, v)]"
  by (induction xs) auto

lemma CreateTable_ok:
  assumes "cat_ok c" and "next_table_oid c < 2 ^ 32 - 1" and "CreateTable name sch c = (Inr (Some info), c')"
  shows "cat_ok c'" and "tables c' = tables c @ [(ti_oid info, info)]" and "ti_oid info = next_table_oid c"
    and "table_names c name = None" and "ti_name info = name" and "ti_schema info = sch"
    and "indexes c' = indexes c" and "index_names c' = index_names c"
    and "TableHeap_init (cat_store c) = (Inr (ti_first info), cat_store c')"
proof -
  let ?oid = "next_table_oid c"
  from assms(3) have free: "table_names c name = None"
    by (auto simp: CreateTable_def split: if_splits)
  obtain r s where h: "TableHeap_init (cat_store c) = (r, s)" by fastforce
  from assms(3) free h obtain p where p: "r = Inr p" and info: "info = \<lparr>ti_schema = sch, ti_name = name, ti_first = p, ti_oid = ?oid\<rparr>"
    and c': "c' = c\<lparr>next_table_oid := (?oid + 1) mod 2 ^ 32, cat_store := s, tables := AList.update ?oid info (tables c),
      table_names := (table_names c)(name \<mapsto> ?oid)\<rparr>"
    by (cases r) (auto simp: CreateTable_def on_store_def Let_def)
  have new: "?oid \<notin> fst ` set (tables c)"
  proof
    assume "?oid \<in> fst ` set (tables c)"
    then obtain i where "map_of (tables c) ?oid = Some i" by (metis map_of_eq_None_iff not_Some_eq)
    then show False using cat_okD(4) [OF assms(1)] by blast
  qed
  note tabs = map_of_fresh [OF cat_okD(1) [OF assms(1)] new]
  have lookup: "map_of (tables c') = (map_of (tables c))(?oid \<mapsto> info)"
    by (simp add: c' AList.update_conv')
  have old: "map_of (tables c) ?oid = None" using new by (simp add: map_of_eq_None_iff)
  have "table_names c' n = Some oid \<longleftrightarrow> (\<exists>i. map_of (tables c') oid = Some i \<and> ti_name i = n)" for n oid
  proof -
    have "table_names c n = Some oid \<longleftrightarrow> (\<exists>i. map_of (tables c) oid = Some i \<and> ti_name i = n)" using cat_okD(3) [OF assms(1)] .
    then show ?thesis using free old unfolding lookup by (auto simp: c' info)
  qed
  moreover have "map_of (tables c') oid = Some i \<longrightarrow> ti_oid i = oid \<and> oid < next_table_oid c'" for oid i
    using cat_okD(4) [OF assms(1), of oid i] assms(2) unfolding lookup by (auto simp: c' info)
  moreover have "distinct (map fst (tables c'))" using cat_okD(1) [OF assms(1)] new by (simp add: c' tabs)
  ultimately have "tables_ok c'" unfolding tables_ok_def by blast
  moreover have "indexes_ok c'" using assms(1) by (simp add: cat_ok_def indexes_ok_def c')
  ultimately show "cat_ok c'" by (simp add: cat_ok_def)
  show "tables c' = tables c @ [(ti_oid info, info)]" by (simp add: c' tabs info)
  show "ti_oid info = ?oid" "table_names c name = None" "ti_name info = name" "ti_schema info = sch"
    "indexes c' = indexes c" "index_names c' = index_names c" "TableHeap_init (cat_store c) = (Inr (ti_first info), cat_store c')"
    using free h p by (simp_all add: info c')
qed

section \<open>Indexes against the heap\<close>

text \<open>The integer a row has in a column, and the index that a list of rows should have.\<close>

definition stored_tuple :: "RID \<times> byte list \<Rightarrow> Tuple" where
  "stored_tuple row = \<lparr>tuple_rid = fst row, tuple_data = snd row, tuple_values = []\<rparr>"

definition row_key :: "Schema \<Rightarrow> nat \<Rightarrow> RID \<times> byte list \<Rightarrow> error + int" where
  "row_key sch attr row = bind_err (Tuple_GetValue_schema sch (stored_tuple row) attr) GetAsInteger"

definition rids_with :: "Schema \<Rightarrow> nat \<Rightarrow> (RID \<times> byte list) list \<Rightarrow> int \<Rightarrow> RID list" where
  "rids_with sch attr rows k = map fst (filter (\<lambda>row. row_key sch attr row = Inr k) rows)"

definition index_of :: "Schema \<Rightarrow> nat \<Rightarrow> (RID \<times> byte list) list \<Rightarrow> int \<rightharpoonup> RID list" where
  "index_of sch attr rows = (\<lambda>k. if rids_with sch attr rows k = [] then None else Some (rids_with sch attr rows k))"

lemma index_of_insert:
  assumes "int_rid_map ix = index_of sch attr rows" and "row_key sch attr (r, bs) = Inr k"
  shows "int_rid_map (InsertEntry k r ix) = index_of sch attr (rows @ [(r, bs)])"
  using assms by (auto simp: InsertEntry_def index_of_def rids_with_def fun_eq_iff)

lemma InsertEntry_keeps:
  "supports_point_lookup (InsertEntry k r ix) = supports_point_lookup ix" "ix_name (InsertEntry k r ix) = ix_name ix"
  "ix_table (InsertEntry k r ix) = ix_table ix" "ix_oid (InsertEntry k r ix) = ix_oid ix" "key_attrs (InsertEntry k r ix) = key_attrs ix"
  "key_schema (InsertEntry k r ix) = key_schema ix"
  by (simp_all add: InsertEntry_def)

lemma fill_index_ok:
  assumes "heap_ok s first ps" and "card (set (pinned s)) < capacity s"
    and "cursor s ps rows" and "\<forall>row \<in> set rows. \<exists>k. row_key sch attr row = Inr k" and "int_rid_map ix = index_of sch attr before_rows"
  shows "\<exists>ix'. fill_index sch attr (first_rid rows) ix s = Some (Inr ix', s) \<and> ix' = ix\<lparr>int_rid_map := index_of sch attr (before_rows @ rows)\<rparr>"
  using assms(3-5)
proof (induction rows arbitrary: ix before_rows)
  case Nil
  then show ?case by (subst fill_index.simps) (simp add: first_rid_def)
next
  case (Cons row rows)
  obtain r bs where row: "row = (r, bs)" by (cases row)
  from Cons.prems(2) row obtain k where k: "row_key sch attr (r, bs) = Inr k" by auto
  note c = cursor_step [OF assms(1,2) Cons.prems(1) [unfolded row]]
  have get: "TH_GetTuple r s = (Inr (stored_tuple (r, bs)), s)" using get_row [OF assms(1,2) c(4)] by (simp add: stored_tuple_def)
  have step: "fill_index sch attr (first_rid (row # rows)) ix s = fill_index sch attr (first_rid rows) (InsertEntry k r ix) s"
    using c(1,2) get k by (subst fill_index.simps) (simp add: row first_rid_def row_key_def)
  have tail: "\<forall>row \<in> set rows. \<exists>k. row_key sch attr row = Inr k" using Cons.prems(2) by simp
  show ?case unfolding step
    using Cons.IH [OF c(3) tail index_of_insert [OF Cons.prems(3) k]] row by (simp add: InsertEntry_def)
qed

lemma key_attrs_init [simp]:
  "key_attrs (IndexInfo_init ks n t i as) = as" "ix_name (IndexInfo_init ks n t i as) = n" "ix_table (IndexInfo_init ks n t i as) = t"
  "ix_oid (IndexInfo_init ks n t i as) = i" "int_rid_map (IndexInfo_init ks n t i as) = Map.empty"
  "supports_point_lookup (IndexInfo_init ks n t i as) = False"
  by (simp_all add: IndexInfo_init_def)

text \<open>Adding an index to the two hash tables.\<close>

lemma indexes_ok_add:
  assumes "indexes_ok c" and "ix_oid ix = next_index_oid c" and "next_index_oid c < 2 ^ 32 - 1" and "key_attrs ix \<noteq> []"
    and "GetIndex (ix_name ix) (ix_table ix) c = Inr None"
    and c': "indexes c' = AList.update (ix_oid ix) ix (indexes c)" "next_index_oid c' = (next_index_oid c + 1) mod 2 ^ 32"
      "index_names c' = (index_names c)(ix_table ix \<mapsto>
        AList.update (ix_name ix) (ix_oid ix) (case index_names c (ix_table ix) of None \<Rightarrow> [] | Some names \<Rightarrow> names))"
  shows "indexes_ok c'"
proof -
  let ?names = "\<lambda>t. case index_names c t of None \<Rightarrow> [] | Some names \<Rightarrow> names"
  have lookup: "map_of (indexes c') = (map_of (indexes c))(ix_oid ix \<mapsto> ix)" by (simp add: c' AList.update_conv')
  have ix: "map_of (indexes c) oid = Some i \<Longrightarrow> ix_oid i = oid \<and> oid < next_index_oid c \<and> key_attrs i \<noteq> []" for oid i
    using assms(1) unfolding indexes_ok_def by blast
  have key: "map_of (?names t) n = Some oid \<longleftrightarrow> (\<exists>i. map_of (indexes c) oid = Some i \<and> ix_name i = n \<and> ix_table i = t)" for t n oid
  proof -
    have "(\<exists>names. index_names c t = Some names \<and> map_of names n = Some oid) \<longleftrightarrow>
        (\<exists>i. map_of (indexes c) oid = Some i \<and> ix_name i = n \<and> ix_table i = t)"
      using assms(1) unfolding indexes_ok_def by blast
    then show ?thesis by (auto split: option.splits)
  qed
  have new: "map_of (indexes c) (ix_oid ix) = None" using ix [of "ix_oid ix"] assms(2) by (cases "map_of (indexes c) (ix_oid ix)") auto
  have free: "map_of (?names (ix_table ix)) (ix_name ix) = None"
    using assms(5) key [of "ix_table ix" "ix_name ix"]
    by (auto simp: GetIndex_def map_at_def split: option.splits)
  have names': "(\<exists>names. index_names c' t = Some names \<and> map_of names n = Some oid) \<longleftrightarrow>
      (if t = ix_table ix \<and> n = ix_name ix then oid = ix_oid ix else map_of (?names t) n = Some oid)" for t n oid
    by (auto simp: c' AList.update_conv' split: option.splits)
  have "(\<exists>names. index_names c' t = Some names \<and> map_of names n = Some oid) \<longleftrightarrow>
      (\<exists>i. map_of (indexes c') oid = Some i \<and> ix_name i = n \<and> ix_table i = t)" for t n oid
    unfolding names' lookup key using new free key [of "ix_table ix" "ix_name ix"] by auto
  moreover have "distinct (map fst (indexes c'))" using assms(1) by (simp add: c' indexes_ok_def distinct_update)
  moreover have "names \<noteq> [] \<and> distinct (map fst names)" if "index_names c' t = Some names" for t names
    using that assms(1) unfolding indexes_ok_def
    by (auto simp: c' distinct_update split: if_splits option.splits)
  moreover have "map_of (indexes c') oid = Some i \<longrightarrow> ix_oid i = oid \<and> oid < next_index_oid c' \<and> key_attrs i \<noteq> []" for oid i
    using ix [of oid i] assms(2-4) by (auto simp: lookup c'(2))
  ultimately show ?thesis unfolding indexes_ok_def by blast
qed

definition point_lookup :: "TableInfo \<Rightarrow> nat list \<Rightarrow> bool" where
  "point_lookup info attrs \<longleftrightarrow> length attrs = 1 \<and> col_type (columns (ti_schema info) ! hd attrs) = INTEGER"

text \<open>The index that \<open>CreateIndex\<close> makes for a table with these rows.\<close>

definition new_index :: "string \<Rightarrow> TableInfo \<Rightarrow> nat list \<Rightarrow> nat \<Rightarrow> (RID \<times> byte list) list \<Rightarrow> IndexInfo" where
  "new_index name info attrs oid rows =
     (IndexInfo_init (Schema_init (map (\<lambda>a. columns (ti_schema info) ! a) attrs)) name (ti_name info) oid attrs)
     \<lparr>supports_point_lookup := point_lookup info attrs,
      int_rid_map := (if point_lookup info attrs then index_of (ti_schema info) (hd attrs) rows else Map.empty)\<rparr>"

lemma new_index_sel [simp]:
  "key_attrs (new_index n info as i rows) = as" "ix_name (new_index n info as i rows) = n" "ix_table (new_index n info as i rows) = ti_name info"
  "ix_oid (new_index n info as i rows) = i" "supports_point_lookup (new_index n info as i rows) = point_lookup info as"
  "int_rid_map (new_index n info as i rows) = (if point_lookup info as then index_of (ti_schema info) (hd as) rows else Map.empty)"
  by (simp_all add: new_index_def)

lemma CreateIndex_ok:
  assumes "cat_ok c" and "GetTable table c = Inr (Some info)" and "heap_ok (cat_store c) (ti_first info) ps"
    and "card (set (pinned (cat_store c))) < capacity (cat_store c)" and "next_index_oid c < 2 ^ 32 - 1"
    and "name \<noteq> []" and "attrs \<noteq> []" and "\<forall>a \<in> set attrs. a < length (columns (ti_schema info))"
    and "GetIndex name table c = Inr None"
    and "point_lookup info attrs \<Longrightarrow> \<forall>row \<in> set (heap_rows (cat_store c) ps). \<exists>k. row_key (ti_schema info) (hd attrs) row = Inr k"
  defines "ix \<equiv> new_index name info attrs (next_index_oid c) (heap_rows (cat_store c) ps)"
  shows "\<exists>c'. CreateIndex name table attrs c = Some (Inr (Some ix), c') \<and> cat_ok c' \<and> cat_store c' = cat_store c \<and>
    tables c' = tables c \<and> table_names c' = table_names c \<and> map_of (indexes c') = (map_of (indexes c))(next_index_oid c \<mapsto> ix)"
proof -
  have table: "ti_name info = table" using GetTable_ok(2) [OF assms(1)] assms(2) by blast
  let ?oid = "next_index_oid c" and ?s = "cat_store c" and ?rows = "heap_rows (cat_store c) ps"
  let ?names = "case index_names c table of None \<Rightarrow> [] | Some names \<Rightarrow> names"
  let ?c = "c\<lparr>next_index_oid := (?oid + 1) mod 2 ^ 32\<rparr>"
  let ?ix = "IndexInfo_init (Schema_init (map (\<lambda>a. columns (ti_schema info) ! a) attrs)) name table ?oid attrs"
  note cur = cursor_begin [OF assms(3,4)]
  have "fill_index (ti_schema info) (hd attrs) (first_rid ?rows) (?ix\<lparr>supports_point_lookup := True\<rparr>) ?s = Some (Inr ix, ?s)"
    if pl: "point_lookup info attrs"
  proof -
    have "int_rid_map (?ix\<lparr>supports_point_lookup := True\<rparr>) = index_of (ti_schema info) (hd attrs) []"
      by (simp add: index_of_def rids_with_def)
    from fill_index_ok [OF assms(3,4) cur(2) assms(10) [OF pl] this] show ?thesis using pl table by (simp add: ix_def new_index_def)
  qed
  then have body: "(if length attrs = 1 \<and> col_type (columns (ti_schema info) ! hd attrs) = INTEGER then
       and_then (on_store_loop (TH_Begin (ti_first info)) ?c) (\<lambda>it c.
         on_store_loop (fill_index (ti_schema info) (hd attrs) it (?ix\<lparr>supports_point_lookup := True\<rparr>)) c)
     else Some (Inr ?ix, ?c)) = Some (Inr ix, ?c)"
    using cur(1) table by (auto simp: on_store_loop_def point_lookup_def ix_def new_index_def IndexInfo_init_def)
  define c' where "c' = ?c\<lparr>indexes := AList.update ?oid ix (indexes c), index_names := (index_names c)(table \<mapsto> AList.update name ?oid ?names)\<rparr>"
  have "\<not> (\<exists>a \<in> set attrs. length (columns (ti_schema info)) \<le> a)" using assms(8) by force
  then have run: "CreateIndex name table attrs c = Some (Inr (Some ix), c')"
    by (simp only: CreateIndex_def assms(2,6,7,9) Let_def sum.case option.case body and_then_simps simp_thms if_False)
      (simp add: c'_def)
  have "indexes_ok c'"
  proof (rule indexes_ok_add [where ix = ix])
    show "indexes_ok c" using assms(1) by (simp add: cat_ok_def)
  qed (use assms(5,7,9) table in \<open>simp_all add: c'_def ix_def\<close>)
  moreover have "tables_ok c'" using assms(1) by (simp add: cat_ok_def tables_ok_def c'_def)
  ultimately have "cat_ok c'" by (simp add: cat_ok_def)
  with run show ?thesis by (intro exI [of _ c']) (simp add: c'_def AList.update_conv')
qed

lemma map_of_delete: "distinct (map fst xs) \<Longrightarrow> map_of (AList.delete k xs) = (map_of xs)(k := None)"
  by (rule AList.delete_conv')

text \<open>The number that the two hash tables of names give, and what it means under the invariant.\<close>

definition index_oid :: "string \<Rightarrow> string \<Rightarrow> Catalog \<Rightarrow> nat option" where
  "index_oid name table c = Option.bind (index_names c table) (\<lambda>names. map_of names name)"

lemma index_oid_iff: "index_oid n t c = Some oid \<longleftrightarrow> (\<exists>names. index_names c t = Some names \<and> map_of names n = Some oid)"
  by (auto simp: index_oid_def bind_eq_Some_conv)

lemma GetIndex_index_oid:
  "GetIndex n t c = (case index_oid n t c of None \<Rightarrow> Inr None
     | Some oid \<Rightarrow> bind_err (map_at (map_of (indexes c) oid)) (\<lambda>ix. Inr (Some ix)))"
  by (simp add: GetIndex_def index_oid_def split: option.splits)

lemma index_oid_ok:
  "cat_ok c \<Longrightarrow> index_oid n t c = Some oid \<longleftrightarrow> (\<exists>ix. map_of (indexes c) oid = Some ix \<and> ix_name ix = n \<and> ix_table ix = t)"
  unfolding index_oid_iff by (rule cat_okD(6))

lemma DropIndex_found:
  assumes "cat_ok c" and "index_oid name table c = Some oid"
  defines "c' \<equiv> snd (DropIndex name table c)"
  shows "fst (DropIndex name table c)" and "map_of (indexes c') = (map_of (indexes c))(oid := None)"
    and "index_oid n t c' = (if n = name \<and> t = table then None else index_oid n t c)"
    and "cat_ok c'"
proof -
  from assms(2) obtain names where names: "index_names c table = Some names" "map_of names name = Some oid"
    by (auto simp: index_oid_iff)
  note id = cat_okD(2,5,7) [OF assms(1)]
  let ?names = "AList.delete name names"
  have run: "DropIndex name table c = (True, c\<lparr>indexes := AList.delete oid (indexes c),
      index_names := (if ?names = [] then (index_names c)(table := None) else (index_names c)(table \<mapsto> ?names))\<rparr>)"
    by (simp add: DropIndex_def names)
  show "fst (DropIndex name table c)" by (simp add: run)
  show lookup: "map_of (indexes c') = (map_of (indexes c))(oid := None)" by (simp add: c'_def run AList.delete_conv')
  have empty: "?names = [] \<Longrightarrow> map_of names n = (if n = name then Some oid else None)" for n
    using AList.delete_conv' [of name names] names(2) by (cases "n = name") (auto simp: fun_eq_iff split: if_splits)
  show goid: "index_oid n t c' = (if n = name \<and> t = table then None else index_oid n t c)" for n t
    using names empty [of n] by (auto simp: c'_def run index_oid_def AList.delete_conv')
  have key: "index_oid n t c' = Some i \<longleftrightarrow> (\<exists>ix. map_of (indexes c') i = Some ix \<and> ix_name ix = n \<and> ix_table ix = t)" for n t i
  proof -
    have "index_oid name table c = Some oid" by fact
    then show ?thesis using index_oid_ok [OF assms(1), of n t i] index_oid_ok [OF assms(1), of name table oid]
      unfolding goid lookup by auto
  qed
  moreover have "distinct (map fst (indexes c'))" using id(1) by (simp add: c'_def run distinct_delete)
  moreover have "ns \<noteq> [] \<and> distinct (map fst ns)" if "index_names c' t = Some ns" for t ns
    using that id(2) names(1) by (auto simp: c'_def run distinct_delete split: if_splits)
  moreover have "map_of (indexes c') i = Some ix \<longrightarrow> ix_oid ix = i \<and> i < next_index_oid c' \<and> key_attrs ix \<noteq> []" for i ix
    using id(3) unfolding lookup by (auto simp: c'_def run)
  ultimately have "indexes_ok c'" unfolding indexes_ok_def index_oid_iff by blast
  moreover have "tables_ok c'" using assms(1) by (simp add: cat_ok_def tables_ok_def c'_def run)
  ultimately show "cat_ok c'" by (simp add: cat_ok_def)
qed

lemma DropIndex_missing: "index_oid name table c = None \<Longrightarrow> DropIndex name table c = (False, c)"
  by (auto simp: DropIndex_def index_oid_def split: option.splits)

section \<open>Properties\<close>

text \<open>
  CreateTable makes a table exactly when the name is free; it is then found by its name and by its number,
  every other name keeps its table, and names and numbers still agree.
\<close>

theorem create_table_correct:
  assumes "cat_ok c" and "next_table_oid c < 2 ^ 32 - 1" and "CreateTable name sch c = (Inr r, c')"
  shows "(r = None \<longleftrightarrow> GetTable name c \<noteq> Inr None) \<and> cat_ok c' \<and>
    (case r of None \<Rightarrow> c' = c
     | Some info \<Rightarrow> GetTable name c' = Inr (Some info) \<and> GetTable_oid (ti_oid info) c' = Some info \<and> ti_schema info = sch) \<and>
    (\<forall>n. n \<noteq> name \<longrightarrow> GetTable n c' = GetTable n c)"
proof (cases r)
  case None
  have "table_names c name \<noteq> None" and "c' = c"
    using assms(3) None by (auto simp: CreateTable_def on_store_def Let_def bind_out_def split: if_splits sum.splits prod.splits)
  moreover from this(1) obtain oid where "table_names c name = Some oid" by blast
  then have "\<exists>info. GetTable name c = Inr (Some info)"
    using GetTable_ok(1) [OF assms(1), of name] cat_okD(3) [OF assms(1), of name oid] by auto
  ultimately show ?thesis using None assms(1) by auto
next
  case (Some info)
  note ok = CreateTable_ok [OF assms(1,2) assms(3) [unfolded Some]]
  have free: "GetTable name c = Inr None" using GetTable_ok(1) [OF assms(1), of name] ok(4) by simp
  have all: "GetAllTables c' = GetAllTables c @ [info]" by (simp add: GetAllTables_def ok(2))
  have "GetTable name c' = Inr (Some info)" using GetTable_ok(2) [OF ok(1)] all ok(5) by simp
  moreover have "GetTable n c' = GetTable n c" if n: "n \<noteq> name" for n
  proof -
    have "GetTable n c' = Inr (Some i) \<longleftrightarrow> GetTable n c = Inr (Some i)" for i
      using GetTable_ok(2) [OF ok(1)] GetTable_ok(2) [OF assms(1)] all ok(5) n by auto
    moreover obtain x y where "GetTable n c' = Inr x" "GetTable n c = Inr y"
      using GetTable_ok(1) [OF ok(1)] GetTable_ok(1) [OF assms(1)] by blast
    ultimately show ?thesis by (cases x; cases y) auto
  qed
  moreover have "GetTable_oid (ti_oid info) c' = Some info"
  proof -
    have "map_of (tables c) (ti_oid info) = None" using cat_okD(1) [OF ok(1)] by (simp add: ok(2) map_of_eq_None_iff)
    then show ?thesis by (simp add: GetTable_oid_def ok(2) map_add_def)
  qed
  ultimately show ?thesis using Some free ok(1,6) by simp
qed

definition demo_schema :: Schema where
  "demo_schema = Schema_init [Column_init ''a'' INTEGER 0]"

theorem create_table_correct_witness:
  "\<exists>info c'. CreateTable ''t'' demo_schema (Catalog_init (ps_init 4 0)) = (Inr (Some info), c') \<and>
    cat_ok c' \<and> GetTable ''t'' c' = Inr (Some info)"
proof -
  obtain info c' where run: "CreateTable ''t'' demo_schema (Catalog_init (ps_init 4 0)) = (Inr (Some info), c')"
    by (simp add: CreateTable_def Catalog_init_def on_store_def Let_def TableHeap_init_def ps_new_def ps_full_def ps_init_def)
  have "next_table_oid (Catalog_init (ps_init 4 0)) < 2 ^ 32 - 1" by (simp add: Catalog_init_def)
  from create_table_correct [OF cat_ok_init this run] run show ?thesis by auto
qed

text \<open>
  C35. CreateIndex on an existing table with a new name and valid columns returns, finds the new index by name,
  changes no table and no page, and, for one INTEGER column, has filled it with exactly the record identifiers
  of the live rows under their keys, in the order of the heap.
\<close>

theorem create_index_correct:
  assumes "cat_ok c" and "GetTable table c = Inr (Some info)" and "heap_ok (cat_store c) (ti_first info) ps"
    and "card (set (pinned (cat_store c))) < capacity (cat_store c)" and "next_index_oid c < 2 ^ 32 - 1"
    and "name \<noteq> []" and "attrs \<noteq> []" and "\<forall>a \<in> set attrs. a < length (columns (ti_schema info))"
    and "GetIndex name table c = Inr None"
    and "point_lookup info attrs \<Longrightarrow> \<forall>row \<in> set (heap_rows (cat_store c) ps). \<exists>k. row_key (ti_schema info) (hd attrs) row = Inr k"
  shows "\<exists>ix c'. CreateIndex name table attrs c = Some (Inr (Some ix), c') \<and> cat_ok c' \<and> cat_store c' = cat_store c \<and>
    tables c' = tables c \<and> GetIndex name table c' = Inr (Some ix) \<and> GetIndex_oid (ix_oid ix) c' = Some ix \<and>
    (SupportsPointLookup ix \<longleftrightarrow> point_lookup info attrs) \<and>
    (SupportsPointLookup ix \<longrightarrow> (\<forall>k. LookupInteger ix k = index_of (ti_schema info) (hd attrs) (heap_rows (cat_store c) ps) k))"
proof -
  have table: "ti_name info = table" using GetTable_ok(2) [OF assms(1)] assms(2) by blast
  let ?ix = "new_index name info attrs (next_index_oid c) (heap_rows (cat_store c) ps)"
  from CreateIndex_ok [OF assms] obtain c' where
    c': "CreateIndex name table attrs c = Some (Inr (Some ?ix), c')" "cat_ok c'" "cat_store c' = cat_store c" "tables c' = tables c"
    "map_of (indexes c') = (map_of (indexes c))(next_index_oid c \<mapsto> ?ix)" by blast
  have "index_oid name table c' = Some (next_index_oid c)" using index_oid_ok [OF c'(2)] c'(5) table by simp
  then have "GetIndex name table c' = Inr (Some ?ix)" using c'(5) by (simp add: GetIndex_index_oid map_at_def)
  then show ?thesis using c' by (intro exI [of _ ?ix] exI [of _ c']) (simp add: GetIndex_oid_def SupportsPointLookup_def LookupInteger_def)
qed

text \<open>A catalog with one table of one INTEGER column and one row, 9.\<close>

definition int_page :: "byte list" where
  "int_page = snd (projr (TP_InsertTuple [9, 0, 0, 0] (TablePage_Init INVALID_PAGE_ID)))"

definition int_catalog :: Catalog where
  "int_catalog = (Catalog_init \<lparr>capacity = 4, content = [0 \<mapsto> int_page], pinned = [], saved = {0}, next_new = 1\<rparr>)
     \<lparr>next_table_oid := 2, tables := [(1, \<lparr>ti_schema = demo_schema, ti_name = ''t'', ti_first = 0, ti_oid = 1\<rparr>)],
      table_names := [''t'' \<mapsto> 1]\<rparr>"

lemma int_catalog_ok:
  "cat_ok int_catalog" "heap_ok (cat_store int_catalog) 0 [0]" "heap_rows (cat_store int_catalog) [0] = [(RID 0 0, [9, 0, 0, 0])]"
proof -
  from tp.ins_ok [OF fresh_page_room(1), of "[9, 0, 0, 0]"] fresh_page_room have d: "page_ok int_page" "page_rows int_page = [[9, 0, 0, 0]]"
    "GetNextPageId int_page = INVALID_PAGE_ID" by (auto simp: int_page_def)
  then have "GetNumTuples int_page = 1" using length_page_rows [of int_page] by simp
  with d show "heap_ok (cat_store int_catalog) 0 [0]" "heap_rows (cat_store int_catalog) [0] = [(RID 0 0, [9, 0, 0, 0])]"
    by (simp_all add: int_catalog_def Catalog_init_def heap_ok_def ps_ok_def INVALID_PAGE_ID_def heap_rows_def page_live_def)
  show "cat_ok int_catalog" by (simp add: cat_ok_def tables_ok_def indexes_ok_def int_catalog_def Catalog_init_def)
qed

lemma int_catalog_key: "row_key demo_schema 0 (RID 0 0, [9, 0, 0, 0]) = Inr 9"
  by (simp add: row_key_def stored_tuple_def Tuple_GetValue_schema_def demo_schema_def Schema_init_def Column_init_def
      IsInlined_def GetColumn_def DeserializeFrom_def GetAsInteger_def Value_int_def integer_def)

theorem create_index_correct_witness:
  "\<exists>ix c'. CreateIndex ''i'' ''t'' [0] int_catalog = Some (Inr (Some ix), c') \<and> LookupInteger ix 9 = Some [RID 0 0] \<and>
    LookupInteger ix 8 = None"
proof -
  let ?info = "\<lparr>ti_schema = demo_schema, ti_name = ''t'', ti_first = 0, ti_oid = 1\<rparr>"
  have cols: "columns demo_schema = [(Column_init ''a'' INTEGER 0)\<lparr>col_offset := 0\<rparr>]"
    by (simp add: demo_schema_def Schema_init_def Let_def split: prod.splits)
  obtain ix c' where ix: "CreateIndex ''i'' ''t'' [0] int_catalog = Some (Inr (Some ix), c')" "SupportsPointLookup ix \<longleftrightarrow> point_lookup ?info [0]"
    "SupportsPointLookup ix \<longrightarrow> (\<forall>k. LookupInteger ix k = index_of demo_schema 0 (heap_rows (cat_store int_catalog) [0]) k)"
    using create_index_correct [OF int_catalog_ok(1), of "''t''" ?info "[0]" "''i''" "[0]"] int_catalog_ok(2,3) int_catalog_key cols
    by (auto simp: int_catalog_def Catalog_init_def GetTable_def GetIndex_def map_at_def)
  have "point_lookup ?info [0]" by (simp add: point_lookup_def cols Column_init_def)
  then show ?thesis using ix int_catalog_key int_catalog_ok(3)
    by (intro exI [of _ ix] exI [of _ c']) (simp add: index_of_def rids_with_def)
qed

text \<open>
  DropIndex reports whether the index existed; afterwards that name is free, every other index is still
  found, and names and numbers still agree.
\<close>

theorem drop_index_correct:
  assumes "cat_ok c"
  shows "(fst (DropIndex name table c) \<longleftrightarrow> GetIndex name table c \<noteq> Inr None) \<and> cat_ok (snd (DropIndex name table c)) \<and>
    (\<forall>n t. GetIndex n t (snd (DropIndex name table c)) = (if n = name \<and> t = table then Inr None else GetIndex n t c))"
proof (cases "index_oid name table c")
  case None
  then show ?thesis using assms by (auto simp: DropIndex_missing GetIndex_index_oid)
next
  case (Some oid)
  note d = DropIndex_found [OF assms Some]
  from Some obtain ix where ix: "map_of (indexes c) oid = Some ix" "ix_name ix = name" "ix_table ix = table"
    using index_oid_ok [OF assms] by blast
  have other: "i \<noteq> oid" if "index_oid n t c = Some i" "\<not> (n = name \<and> t = table)" for n t i
    using index_oid_ok [OF assms, of n t i] that ix by auto
  have "GetIndex n t (snd (DropIndex name table c)) = (if n = name \<and> t = table then Inr None else GetIndex n t c)" for n t
    using d(2) d(3) [of n t] other [of n t] by (auto simp: GetIndex_index_oid split: option.splits)
  moreover have "GetIndex name table c \<noteq> Inr None" using Some ix by (simp add: GetIndex_index_oid map_at_def)
  ultimately show ?thesis using d(1,4) by simp
qed

theorem drop_index_correct_witness:
  "fst (DropIndex ''i'' ''t'' int_catalog) = False \<and> cat_ok (snd (DropIndex ''i'' ''t'' int_catalog))"
  using drop_index_correct [OF int_catalog_ok(1), of "''i''" "''t''"]
  by (simp add: GetIndex_def int_catalog_def Catalog_init_def)

end
