(* ===== verification/Expressions.thy ===== *)
theory Expressions
  imports Tuples
begin

text \<open>
  Expressions (\<open>src/include/onebase/execution/expressions\<close>): the five classes as one datatype and
  their two evaluation methods. A child may also be a null pointer, which must not be evaluated. A null pointer for the tuple and the schema is \<open>None\<close>; an
  exception of a \<open>Value\<close> operation is the error of the evaluation. The operands are evaluated from
  left to right.
\<close>

section \<open>Evaluation\<close>

datatype ComparisonType = Cmp_Equal | Cmp_NotEqual | Cmp_LessThan | Cmp_LessThanOrEqual | Cmp_GreaterThan | Cmp_GreaterThanOrEqual

datatype ArithmeticType = Arith_Plus | Arith_Minus | Arith_Multiply | Arith_Divide | Arith_Modulo

datatype LogicType = Logic_And | Logic_Or

datatype expr =
    ColumnValue nat nat TypeId
  | Constant Value
  | Comparison ComparisonType expr expr
  | Arithmetic ArithmeticType expr expr
  | Logic LogicType expr expr
  | NullExpression

definition PerformComparison :: "float_ops \<Rightarrow> ComparisonType \<Rightarrow> Value \<Rightarrow> Value \<Rightarrow> error + Value" where
  "PerformComparison F c v w =
     (case c of
        Cmp_Equal \<Rightarrow> CompareEquals F v w
      | Cmp_NotEqual \<Rightarrow> CompareNotEquals F v w
      | Cmp_LessThan \<Rightarrow> CompareLessThan F v w
      | Cmp_LessThanOrEqual \<Rightarrow> CompareLessThanOrEqual F v w
      | Cmp_GreaterThan \<Rightarrow> CompareGreaterThan F v w
      | Cmp_GreaterThanOrEqual \<Rightarrow> CompareGreaterThanOrEqual F v w)"

definition PerformComputation :: "float_ops \<Rightarrow> ArithmeticType \<Rightarrow> Value \<Rightarrow> Value \<Rightarrow> error + Value" where
  "PerformComputation F a v w =
     (case a of
        Arith_Plus \<Rightarrow> Add F v w
      | Arith_Minus \<Rightarrow> Subtract F v w
      | Arith_Multiply \<Rightarrow> Multiply F v w
      | Arith_Divide \<Rightarrow> Divide F v w
      | Arith_Modulo \<Rightarrow> Modulo v w)"

definition PerformLogic :: "LogicType \<Rightarrow> Value \<Rightarrow> Value \<Rightarrow> error + Value" where
  "PerformLogic l v w = (case l of Logic_And \<Rightarrow> Value_And v w | Logic_Or \<Rightarrow> Value_Or v w)"

fun Evaluate :: "float_ops \<Rightarrow> expr \<Rightarrow> (Tuple \<times> Schema) option \<Rightarrow> error + Value" where
  "Evaluate F (ColumnValue tuple_idx col_idx ty) None = Inl UndefinedBehaviour"
| "Evaluate F (ColumnValue tuple_idx col_idx ty) (Some (t, sch)) = Tuple_GetValue_schema sch t col_idx"
| "Evaluate F (Constant v) src = Inr v"
| "Evaluate F (Comparison c l r) src =
     bind_err (Evaluate F l src) (\<lambda>v. bind_err (Evaluate F r src) (\<lambda>w. PerformComparison F c v w))"
| "Evaluate F (Arithmetic a l r) src =
     bind_err (Evaluate F l src) (\<lambda>v. bind_err (Evaluate F r src) (\<lambda>w. PerformComputation F a v w))"
| "Evaluate F (Logic g l r) src =
     bind_err (Evaluate F l src) (\<lambda>v. bind_err (Evaluate F r src) (\<lambda>w. PerformLogic g v w))"
| "Evaluate F NullExpression src = Inl UndefinedBehaviour"

fun EvaluateJoin :: "float_ops \<Rightarrow> expr \<Rightarrow> Tuple \<times> Schema \<Rightarrow> Tuple \<times> Schema \<Rightarrow> error + Value" where
  "EvaluateJoin F (ColumnValue tuple_idx col_idx ty) (lt, ls) (rt, rs) =
     (if tuple_idx = 0 then Tuple_GetValue_schema ls lt col_idx else Tuple_GetValue_schema rs rt col_idx)"
| "EvaluateJoin F (Constant v) lsrc rsrc = Inr v"
| "EvaluateJoin F (Comparison c l r) lsrc rsrc =
     bind_err (EvaluateJoin F l lsrc rsrc) (\<lambda>v. bind_err (EvaluateJoin F r lsrc rsrc) (\<lambda>w. PerformComparison F c v w))"
| "EvaluateJoin F (Arithmetic a l r) lsrc rsrc =
     bind_err (EvaluateJoin F l lsrc rsrc) (\<lambda>v. bind_err (EvaluateJoin F r lsrc rsrc) (\<lambda>w. PerformComputation F a v w))"
| "EvaluateJoin F (Logic g l r) lsrc rsrc =
     bind_err (EvaluateJoin F l lsrc rsrc) (\<lambda>v. bind_err (EvaluateJoin F r lsrc rsrc) (\<lambda>w. PerformLogic g v w))"
| "EvaluateJoin F NullExpression lsrc rsrc = Inl UndefinedBehaviour"

section \<open>Types\<close>

text \<open>
  The typing discipline that the operations of \<open>Value\<close> assume: both operands of a comparison or a
  computation have the same type, which has that operation.
\<close>

fun type_of :: "Schema \<Rightarrow> expr \<Rightarrow> TypeId option" where
  "type_of sch (ColumnValue ti i ty) =
     (if i < length (columns sch) \<and> col_type (columns sch ! i) = ty \<and> ty \<noteq> INVALID then Some ty else None)"
| "type_of sch (Constant v) = (if type_id v \<noteq> INVALID then Some (type_id v) else None)"
| "type_of sch (Comparison c l r) =
     (case type_of sch l of
        None \<Rightarrow> None
      | Some ty \<Rightarrow>
          if type_of sch r = Some ty \<and> (ty = BOOLEAN \<longrightarrow> c = Cmp_Equal \<or> c = Cmp_NotEqual) then Some BOOLEAN else None)"
| "type_of sch (Arithmetic a l r) =
     (case type_of sch l of
        None \<Rightarrow> None
      | Some ty \<Rightarrow>
          if type_of sch r = Some ty \<and> (ty = INTEGER \<or> ty = FLOAT \<and> a \<noteq> Arith_Modulo) then Some ty else None)"
| "type_of sch (Logic g l r) =
     (if type_of sch l = Some BOOLEAN \<and> type_of sch r = Some BOOLEAN then Some BOOLEAN else None)"
| "type_of sch NullExpression = None"

fun has_arithmetic :: "expr \<Rightarrow> bool" where
  "has_arithmetic (Comparison c l r) \<longleftrightarrow> has_arithmetic l \<or> has_arithmetic r"
| "has_arithmetic (Logic g l r) \<longleftrightarrow> has_arithmetic l \<or> has_arithmetic r"
| "has_arithmetic (Arithmetic a l r) \<longleftrightarrow> True"
| "has_arithmetic e \<longleftrightarrow> False"

text \<open>A tuple that gives a value of the right type in every column of the schema.\<close>

definition conforms :: "Schema \<Rightarrow> Tuple \<Rightarrow> bool" where
  "conforms sch t \<longleftrightarrow>
     (\<forall>i < length (columns sch). \<exists>v. Tuple_GetValue_schema sch t i = Inr v \<and> type_id v = col_type (columns sch ! i))"

definition arithmetic_error :: "error \<Rightarrow> bool" where
  "arithmetic_error e \<longleftrightarrow>
     e = LogicError ''Division by zero'' \<or> e = LogicError ''Modulo by zero'' \<or> e = UndefinedBehaviour"

definition safe :: "bool \<Rightarrow> TypeId \<Rightarrow> error + Value \<Rightarrow> bool" where
  "safe arith ty r \<longleftrightarrow> (case r of Inr v \<Rightarrow> type_id v = ty | Inl e \<Rightarrow> arith \<and> arithmetic_error e)"

lemma type_bools [simp]: "type_id (Value_bool ty b) = ty" "type_id (Value_int ty i) = ty" "type_id (Value_float ty f) = ty"
  by (simp_all add: Value_bool_def Value_int_def Value_float_def)

lemma comparison_safe:
  assumes "type_id v = ty" and "type_id w = ty" and "ty \<noteq> INVALID" and "ty = BOOLEAN \<longrightarrow> c = Cmp_Equal \<or> c = Cmp_NotEqual"
  shows "safe False BOOLEAN (PerformComparison F c v w)"
  using assms
  by (cases ty; cases c) (simp_all add: safe_def PerformComparison_def CompareEquals_def CompareNotEquals_def
      CompareLessThan_def CompareLessThanOrEqual_def CompareGreaterThan_def CompareGreaterThanOrEqual_def compare_def)

lemma int_result_safe: "safe True INTEGER (int_result i)"
  by (simp add: safe_def int_result_def arithmetic_error_def)

lemma computation_safe:
  assumes "type_id v = ty" and "type_id w = ty" and "ty = INTEGER \<or> ty = FLOAT \<and> a \<noteq> Arith_Modulo"
  shows "safe True ty (PerformComputation F a v w)"
  using assms(3)
proof
  assume "ty = INTEGER"
  then show ?thesis using assms(1,2) int_result_safe
    by (cases a) (auto simp: PerformComputation_def Add_def Subtract_def Multiply_def Divide_def Modulo_def safe_def arithmetic_error_def)
next
  assume "ty = FLOAT \<and> a \<noteq> Arith_Modulo"
  then show ?thesis using assms(1,2)
    by (cases a) (simp_all add: PerformComputation_def Add_def Subtract_def Multiply_def Divide_def safe_def arithmetic_error_def)
qed

lemma logic_safe: "type_id v = BOOLEAN \<Longrightarrow> type_id w = BOOLEAN \<Longrightarrow> safe False BOOLEAN (PerformLogic g v w)"
  by (cases g) (simp_all add: safe_def PerformLogic_def Value_And_def Value_Or_def)

lemma safe_bind2:
  assumes "safe a ty x" and "safe b ty' y" and "\<And>v w. type_id v = ty \<Longrightarrow> type_id w = ty' \<Longrightarrow> safe c ty'' (f v w)"
  shows "safe (a \<or> b \<or> c) ty'' (bind_err x (\<lambda>v. bind_err y (\<lambda>w. f v w)))"
proof (cases x)
  case (Inr v)
  show ?thesis
  proof (cases y)
    case (Inr w)
    have "safe c ty'' (f v w)" using assms \<open>x = Inr v\<close> Inr by (simp add: safe_def)
    then show ?thesis using \<open>x = Inr v\<close> Inr by (auto simp: safe_def split: sum.splits)
  qed (use assms Inr in \<open>simp add: safe_def\<close>)
qed (use assms in \<open>simp add: safe_def\<close>)

lemma safe_mono: "safe a ty r \<Longrightarrow> (a \<longrightarrow> b) \<Longrightarrow> safe b ty r"
  by (auto simp: safe_def split: sum.splits)

lemma type_of_valid: "type_of sch e = Some ty \<Longrightarrow> ty \<noteq> INVALID"
  by (induction e arbitrary: ty) (auto split: if_splits option.splits)

lemma Evaluate_safe:
  assumes "type_of sch e = Some ty" and "conforms sch t"
  shows "safe (has_arithmetic e) ty (Evaluate F e (Some (t, sch)))"
  using assms(1)
proof (induction e arbitrary: ty)
  case (ColumnValue ti i ty')
  then show ?case using assms(2) by (fastforce simp: conforms_def safe_def split: if_splits)
next
  case (Constant v)
  then show ?case by (simp add: safe_def split: if_splits)
next
  case (Comparison c l r)
  then obtain ty' where t: "type_of sch l = Some ty'" "type_of sch r = Some ty'" "ty' = BOOLEAN \<longrightarrow> c = Cmp_Equal \<or> c = Cmp_NotEqual" "ty = BOOLEAN"
    by (auto split: option.splits if_splits)
  from safe_bind2 [OF Comparison.IH(1) [OF t(1)] Comparison.IH(2) [OF t(2)] comparison_safe [OF _ _ type_of_valid [OF t(1)] t(3), where F = F]]
  show ?case using t(4) by (auto elim: safe_mono)
next
  case (Arithmetic a l r)
  then have t: "type_of sch l = Some ty" "type_of sch r = Some ty" "ty = INTEGER \<or> ty = FLOAT \<and> a \<noteq> Arith_Modulo"
    by (auto split: option.splits if_splits)
  from safe_bind2 [OF Arithmetic.IH(1) [OF t(1)] Arithmetic.IH(2) [OF t(2)] computation_safe [OF _ _ t(3), where F = F]]
  show ?case by (auto elim: safe_mono)
next
  case (Logic g l r)
  then have t: "type_of sch l = Some BOOLEAN" "type_of sch r = Some BOOLEAN" "ty = BOOLEAN" by (auto split: if_splits)
  from safe_bind2 [OF Logic.IH(1) [OF t(1)] Logic.IH(2) [OF t(2)] logic_safe [where g = g]]
  show ?case using t(3) by (auto elim: safe_mono)
qed simp

text \<open>
  C34. Well-typed expressions evaluate to a value of their type: on a tuple that conforms to the schema the only
  errors are division or modulo by zero and integer overflow, and an expression without arithmetic never fails.
\<close>

theorem expression_type_safety:
  assumes "type_of sch e = Some ty" and "conforms sch t"
  shows "case Evaluate F e (Some (t, sch)) of
      Inr v \<Rightarrow> type_id v = ty
    | Inl er \<Rightarrow> has_arithmetic e \<and> (er = LogicError ''Division by zero'' \<or> er = LogicError ''Modulo by zero'' \<or> er = UndefinedBehaviour)"
  using Evaluate_safe [OF assms, of F] by (simp add: safe_def arithmetic_error_def split: sum.splits)

theorem expression_type_safety_witness:
  "case Evaluate fixed_point (Comparison Cmp_LessThan (ColumnValue 0 0 INTEGER) (Constant (Value_int INTEGER 5)))
     (Some (\<lparr>tuple_rid = RID 0 0, tuple_data = [], tuple_values = [Value_int INTEGER 3]\<rparr>, Schema_init [Column_init ''a'' INTEGER 0])) of
     Inr v \<Rightarrow> type_id v = BOOLEAN | Inl e \<Rightarrow> False"
  using expression_type_safety [of "Schema_init [Column_init ''a'' INTEGER 0]"
      "Comparison Cmp_LessThan (ColumnValue 0 0 INTEGER) (Constant (Value_int INTEGER 5))" BOOLEAN
      "\<lparr>tuple_rid = RID 0 0, tuple_data = [], tuple_values = [Value_int INTEGER 3]\<rparr>" fixed_point]
  by (simp add: Schema_init_def Column_init_def IsInlined_def conforms_def Tuple_GetValue_schema_def split: sum.splits)

end
