(* ===== verification/Executors.thy ===== *)
theory Executors
  imports Catalog Expressions
begin

text \<open>
  Plans (\<open>src/include/onebase/execution/plans/plan_nodes.h\<close>) and the executors that run them
  (\<open>src/execution/executors\<close>). An executor is the record of its methods, made by
  \<open>CreateExecutor\<close> from the methods of its children as the factory makes the objects; its fields are an
  explicit state (\<open>rstate\<close>). \<open>Init\<close> sets every field, so it returns a state and reads none.
  \<open>Next\<close> returns the row it stores through its two pointers, which no caller passes as null; where the
  code leaves the identifier untouched (\<open>SortExecutor\<close>) the caller's variable still has the
  identifier of \<open>RID{}\<close>. \<open>None\<close> as the result of a method is a call that does not return.
  A \<open>std::unordered_map\<close> that is iterated over is in order of insertion and \<open>std::sort\<close> keeps
  the order of equivalent rows: the C++ standard leaves both open.
\<close>

section \<open>Plans\<close>

datatype AggregationType = CountStarAggregate | CountAggregate | SumAggregate | MinAggregate | MaxAggregate

datatype UtilityType = CREATE_INDEX | DROP_INDEX | SHOW_TABLES | SHOW_INDEXES | SHOW_SCHEMA

datatype plan =
    SeqScanPlan Schema nat "expr option"
  | IndexScanPlan Schema nat nat expr "expr option"
  | InsertPlan Schema plan nat
  | DeletePlan Schema plan nat
  | UpdatePlan Schema plan nat "expr list"
  | NestedLoopJoinPlan Schema plan plan "expr option"
  | HashJoinPlan Schema plan plan expr expr
  | AggregationPlan Schema plan "expr list" "expr list" "AggregationType list"
  | SortPlan Schema plan "(bool \<times> expr) list"
  | LimitPlan Schema plan nat
  | ProjectionPlan Schema plan "expr list"
  | UtilityPlan Schema UtilityType string string "nat list" "string list" bool

fun GetOutputSchema :: "plan \<Rightarrow> Schema" where
  "GetOutputSchema (SeqScanPlan sch _ _) = sch"
| "GetOutputSchema (IndexScanPlan sch _ _ _ _) = sch"
| "GetOutputSchema (InsertPlan sch _ _) = sch"
| "GetOutputSchema (DeletePlan sch _ _) = sch"
| "GetOutputSchema (UpdatePlan sch _ _ _) = sch"
| "GetOutputSchema (NestedLoopJoinPlan sch _ _ _) = sch"
| "GetOutputSchema (HashJoinPlan sch _ _ _ _) = sch"
| "GetOutputSchema (AggregationPlan sch _ _ _ _) = sch"
| "GetOutputSchema (SortPlan sch _ _) = sch"
| "GetOutputSchema (LimitPlan sch _ _) = sch"
| "GetOutputSchema (ProjectionPlan sch _ _) = sch"
| "GetOutputSchema (UtilityPlan sch _ _ _ _ _ _) = sch"

section \<open>Executors\<close>

type_synonym row = "Tuple \<times> RID"

text \<open>
  The fields of the executors: the scan's table and iterator; the index scan's table, identifiers and cursor;
  the child and the one-shot flag of a modification; both children and the current left tuple of the nested
  loop join; the rows that hash join, aggregation, sort and the utility executor have materialized.
\<close>

datatype rstate =
    ScanState TableInfo RID
  | IndexScanState "TableInfo option" "RID list" nat
  | OnceState rstate bool
  | JoinState rstate rstate "Tuple option"
  | RowsState "Tuple list" nat
  | LimitState rstate nat
  | ChildState rstate

type_synonym next_method = "rstate \<Rightarrow> Catalog \<Rightarrow> (row option \<times> rstate, Catalog) outcome option"

record executor =
  output_schema :: Schema
  exec_Init :: "Catalog \<Rightarrow> (rstate, Catalog) outcome option"
  exec_Next :: next_method

definition no_rid :: RID where
  "no_rid = RID INVALID_PAGE_ID 0"

text \<open>A step that may throw but touches nothing.\<close>

definition try_err :: "error + 'a \<Rightarrow> ('a \<Rightarrow> Catalog \<Rightarrow> ('b, Catalog) outcome option) \<Rightarrow> Catalog \<Rightarrow> ('b, Catalog) outcome option" where
  "try_err r f c = (case r of Inl e \<Rightarrow> Some (Inl e, c) | Inr x \<Rightarrow> f x c)"

lemma try_err_simps [simp]: "try_err (Inl e) f c = Some (Inl e, c)" "try_err (Inr x) f c = f x c"
  by (simp_all add: try_err_def)

lemma try_err_mono [partial_function_mono]:
  assumes "\<And>x. mono_option (\<lambda>g. f g x c)"
  shows "mono_option (\<lambda>g. try_err r (f g) c)"
  using assms by (cases r) (auto intro: option.const_mono)

text \<open>All columns of a tuple, read through a schema.\<close>

definition all_values :: "Schema \<Rightarrow> Tuple \<Rightarrow> error + Value list" where
  "all_values sch t = map_err (Tuple_GetValue_schema sch t) [0..<length (columns sch)]"

definition test_predicate :: "float_ops \<Rightarrow> expr option \<Rightarrow> Tuple \<Rightarrow> Schema \<Rightarrow> error + bool" where
  "test_predicate F pred t sch =
     (case pred of None \<Rightarrow> Inr True | Some e \<Rightarrow> bind_err (Evaluate F e (Some (t, sch))) GetAsBoolean)"

text \<open>\<open>while (child->Next(&tuple, &rid)) body\<close>.\<close>

partial_function (option) for_each ::
  "next_method \<Rightarrow> ('a \<Rightarrow> row \<Rightarrow> Catalog \<Rightarrow> ('a, Catalog) outcome option) \<Rightarrow> 'a \<Rightarrow> rstate \<Rightarrow> Catalog \<Rightarrow> ('a, Catalog) outcome option" where
  [code]: "for_each nxt body acc st c =
     and_then (nxt st c) (\<lambda>p c. case fst p of
       None \<Rightarrow> Some (Inr acc, c)
     | Some row \<Rightarrow> and_then (body acc row c) (\<lambda>acc c. for_each nxt body acc (snd p) c))"

subsection \<open>Scans\<close>

partial_function (option) seq_scan_loop ::
  "float_ops \<Rightarrow> expr option \<Rightarrow> TableInfo \<Rightarrow> RID \<Rightarrow> Catalog \<Rightarrow> (row option \<times> rstate, Catalog) outcome option" where
  [code]: "seq_scan_loop F pred info it c =
     (if it = end_rid then Some (Inr (None, ScanState info it), c)
      else and_then (Some (on_store (TH_GetTuple it) c)) (\<lambda>cur c.
        and_then (on_store_loop (TH_next it) c) (\<lambda>it c.
        try_err (test_predicate F pred cur (ti_schema info)) (\<lambda>keep c.
          if \<not> keep then seq_scan_loop F pred info it c
          else try_err (bind_err (all_values (ti_schema info) cur) Tuple_init) (\<lambda>t c.
            Some (Inr (Some (t, tuple_rid cur), ScanState info it), c)) c) c)))"

definition SeqScanExecutor :: "float_ops \<Rightarrow> Schema \<Rightarrow> nat \<Rightarrow> expr option \<Rightarrow> executor" where
  "SeqScanExecutor F sch table pred =
     \<lparr>output_schema = sch,
      exec_Init = (\<lambda>c. case GetTable_oid table c of
          None \<Rightarrow> Some (Inl UndefinedBehaviour, c)
        | Some info \<Rightarrow> and_then (on_store_loop (TH_Begin (ti_first info)) c) (\<lambda>it c. Some (Inr (ScanState info it), c))),
      exec_Next = (\<lambda>st c. case st of
          ScanState info it \<Rightarrow> seq_scan_loop F pred info it c
        | _ \<Rightarrow> Some (Inl UndefinedBehaviour, c))\<rparr>"

partial_function (option) index_scan_loop ::
  "float_ops \<Rightarrow> expr option \<Rightarrow> TableInfo \<Rightarrow> RID list \<Rightarrow> nat \<Rightarrow> Catalog \<Rightarrow> (row option \<times> rstate, Catalog) outcome option" where
  [code]: "index_scan_loop F pred info rids i c =
     (if length rids \<le> i then Some (Inr (None, IndexScanState (Some info) rids i), c)
      else and_then (Some (on_store (TH_GetTuple (rids ! i)) c)) (\<lambda>cur c.
        try_err (test_predicate F pred cur (ti_schema info)) (\<lambda>keep c.
          if \<not> keep then index_scan_loop F pred info rids (i + 1) c
          else try_err (bind_err (all_values (ti_schema info) cur) Tuple_init) (\<lambda>t c.
            Some (Inr (Some (t, rids ! i), IndexScanState (Some info) rids (i + 1)), c)) c) c))"

definition IndexScan_Init :: "float_ops \<Rightarrow> nat \<Rightarrow> nat \<Rightarrow> expr \<Rightarrow> Catalog \<Rightarrow> (rstate, Catalog) outcome option" where
  "IndexScan_Init F table index lookup_key c =
     (let info = GetTable_oid table c; nothing = Some (Inr (IndexScanState info [] 0), c) in
      case (info, GetIndex_oid index c) of
        (Some _, Some ix) \<Rightarrow>
          if \<not> SupportsPointLookup ix then nothing
          else try_err (Evaluate F lookup_key None) (\<lambda>key c.
            if is_null key \<or> type_id key \<noteq> INTEGER then nothing
            else (case LookupInteger ix (integer key) of
              None \<Rightarrow> nothing
            | Some rids \<Rightarrow> Some (Inr (IndexScanState info rids 0), c))) c
      | _ \<Rightarrow> nothing)"

definition IndexScanExecutor :: "float_ops \<Rightarrow> Schema \<Rightarrow> nat \<Rightarrow> nat \<Rightarrow> expr \<Rightarrow> expr option \<Rightarrow> executor" where
  "IndexScanExecutor F sch table index lookup_key pred =
     \<lparr>output_schema = sch,
      exec_Init = IndexScan_Init F table index lookup_key,
      exec_Next = (\<lambda>st c. case st of
          IndexScanState (Some info) rids i \<Rightarrow> index_scan_loop F pred info rids i c
        | IndexScanState None rids i \<Rightarrow>
            if length rids \<le> i then Some (Inr (None, st), c) else Some (Inl UndefinedBehaviour, c)
        | _ \<Rightarrow> Some (Inl UndefinedBehaviour, c))\<rparr>"

subsection \<open>Modifications\<close>

text \<open>\<open>count++\<close> on an \<open>int\<close>, and the row that reports it.\<close>

definition count_up :: "int \<Rightarrow> error + int" where
  "count_up n = (if int32_ok (n + 1) then Inr (n + 1) else Inl UndefinedBehaviour)"

definition count_row :: "int \<Rightarrow> error + Tuple" where
  "count_row n = Tuple_init [Value_int INTEGER n]"

text \<open>The shape of the three modifications: run once, over all rows of the child, then report the count.\<close>

definition ModifyExecutor ::
  "Schema \<Rightarrow> executor \<Rightarrow> nat \<Rightarrow> (TableInfo \<Rightarrow> int \<Rightarrow> row \<Rightarrow> Catalog \<Rightarrow> (int, Catalog) outcome option) \<Rightarrow> executor" where
  "ModifyExecutor sch child table body =
     \<lparr>output_schema = sch,
      exec_Init = (\<lambda>c. and_then (exec_Init child c) (\<lambda>cs c. Some (Inr (OnceState cs False), c))),
      exec_Next = (\<lambda>st c. case st of
          OnceState cs done_once \<Rightarrow>
            if done_once then Some (Inr (None, st), c)
            else (case GetTable_oid table c of
              None \<Rightarrow> Some (Inl UndefinedBehaviour, c)
            | Some info \<Rightarrow>
                and_then (for_each (exec_Next child) (body info) 0 cs c) (\<lambda>n c.
                try_err (count_row n) (\<lambda>t c. Some (Inr (Some (t, no_rid), OnceState cs True), c)) c))
        | _ \<Rightarrow> Some (Inl UndefinedBehaviour, c))\<rparr>"

definition insert_row :: "TableInfo \<Rightarrow> int \<Rightarrow> row \<Rightarrow> Catalog \<Rightarrow> (int, Catalog) outcome option" where
  "insert_row info n row c =
     and_then (on_store_loop (TH_InsertTuple (ti_first info) (fst row)) c) (\<lambda>r c.
       if r = None then Some (Inr n, c) else Some (count_up n, c))"

definition delete_row :: "TableInfo \<Rightarrow> int \<Rightarrow> row \<Rightarrow> Catalog \<Rightarrow> (int, Catalog) outcome option" where
  "delete_row info n row c =
     and_then (Some (on_store (TH_DeleteTuple (snd row)) c)) (\<lambda>_ c. Some (count_up n, c))"

definition update_row :: "float_ops \<Rightarrow> expr list \<Rightarrow> TableInfo \<Rightarrow> int \<Rightarrow> row \<Rightarrow> Catalog \<Rightarrow> (int, Catalog) outcome option" where
  "update_row F exprs info n row c =
     try_err (bind_err (map_err (\<lambda>e. Evaluate F e (Some (fst row, ti_schema info))) exprs) Tuple_init) (\<lambda>t c.
       and_then (Some (on_store (TH_UpdateTuple (snd row) t) c)) (\<lambda>_ c. Some (count_up n, c))) c"

definition InsertExecutor :: "Schema \<Rightarrow> executor \<Rightarrow> nat \<Rightarrow> executor" where
  "InsertExecutor sch child table = ModifyExecutor sch child table insert_row"

definition DeleteExecutor :: "Schema \<Rightarrow> executor \<Rightarrow> nat \<Rightarrow> executor" where
  "DeleteExecutor sch child table = ModifyExecutor sch child table delete_row"

definition UpdateExecutor :: "float_ops \<Rightarrow> Schema \<Rightarrow> executor \<Rightarrow> nat \<Rightarrow> expr list \<Rightarrow> executor" where
  "UpdateExecutor F sch child table exprs = ModifyExecutor sch child table (update_row F exprs)"

subsection \<open>Joins\<close>

definition join_row :: "Schema \<Rightarrow> Schema \<Rightarrow> Tuple \<Rightarrow> Tuple \<Rightarrow> error + Tuple" where
  "join_row ls rs lt rt =
     bind_err (all_values ls lt) (\<lambda>vs. bind_err (all_values rs rt) (\<lambda>ws. Tuple_init (vs @ ws)))"

definition join_match :: "float_ops \<Rightarrow> expr option \<Rightarrow> Schema \<Rightarrow> Schema \<Rightarrow> Tuple \<Rightarrow> Tuple \<Rightarrow> error + bool" where
  "join_match F pred ls rs lt rt =
     (case pred of None \<Rightarrow> Inr True | Some e \<Rightarrow> bind_err (EvaluateJoin F e (lt, ls) (rt, rs)) GetAsBoolean)"

partial_function (option) nested_loop ::
  "float_ops \<Rightarrow> expr option \<Rightarrow> executor \<Rightarrow> executor \<Rightarrow> rstate \<Rightarrow> rstate \<Rightarrow> Tuple option \<Rightarrow> Catalog
    \<Rightarrow> (row option \<times> rstate, Catalog) outcome option" where
  [code]: "nested_loop F pred left right ls rs lt c =
     (case lt of
        None \<Rightarrow> Some (Inr (None, JoinState ls rs None), c)
      | Some l \<Rightarrow>
          and_then (exec_Next right rs c) (\<lambda>p c. case fst p of
            Some (r, _) \<Rightarrow>
              try_err (join_match F pred (output_schema left) (output_schema right) l r) (\<lambda>keep c.
                if \<not> keep then nested_loop F pred left right ls (snd p) lt c
                else try_err (join_row (output_schema left) (output_schema right) l r) (\<lambda>t c.
                  Some (Inr (Some (t, no_rid), JoinState ls (snd p) lt), c)) c) c
          | None \<Rightarrow>
              and_then (exec_Next left ls c) (\<lambda>q c.
              and_then (exec_Init right c) (\<lambda>rs c.
                nested_loop F pred left right (snd q) rs (map_option fst (fst q)) c))))"

definition NestedLoopJoinExecutor :: "float_ops \<Rightarrow> Schema \<Rightarrow> executor \<Rightarrow> executor \<Rightarrow> expr option \<Rightarrow> executor" where
  "NestedLoopJoinExecutor F sch left right pred =
     \<lparr>output_schema = sch,
      exec_Init = (\<lambda>c.
        and_then (exec_Init left c) (\<lambda>ls c.
        and_then (exec_Init right c) (\<lambda>rs c.
        and_then (exec_Next left ls c) (\<lambda>q c.
          Some (Inr (JoinState (snd q) rs (map_option fst (fst q))), c))))),
      exec_Next = (\<lambda>st c. case st of
          JoinState ls rs lt \<Rightarrow> nested_loop F pred left right ls rs lt c
        | _ \<Rightarrow> Some (Inl UndefinedBehaviour, c))\<rparr>"

text \<open>Executors that compute all their rows in \<open>Init\<close>.\<close>

definition rows_Next :: next_method where
  "rows_Next st c =
     (case st of
        RowsState rows i \<Rightarrow>
          if length rows \<le> i then Some (Inr (None, st), c)
          else Some (Inr (Some (rows ! i, no_rid), RowsState rows (i + 1)), c)
      | _ \<Rightarrow> Some (Inl UndefinedBehaviour, c))"

type_synonym hash_table = "string \<rightharpoonup> Tuple list"

definition hash_build :: "float_ops \<Rightarrow> expr \<Rightarrow> Schema \<Rightarrow> hash_table \<Rightarrow> row \<Rightarrow> Catalog \<Rightarrow> (hash_table, Catalog) outcome option" where
  "hash_build F key sch h row c =
     try_err (Evaluate F key (Some (fst row, sch))) (\<lambda>v c.
       let k = Value_ToString F v in
       Some (Inr (h(k \<mapsto> (case h k of None \<Rightarrow> [] | Some ts \<Rightarrow> ts) @ [fst row])), c)) c"

definition hash_probe ::
  "float_ops \<Rightarrow> expr \<Rightarrow> Schema \<Rightarrow> Schema \<Rightarrow> hash_table \<Rightarrow> Tuple list \<Rightarrow> row \<Rightarrow> Catalog \<Rightarrow> (Tuple list, Catalog) outcome option" where
  "hash_probe F key ls rs h out row c =
     try_err (Evaluate F key (Some (fst row, rs))) (\<lambda>v c.
       case h (Value_ToString F v) of
         None \<Rightarrow> Some (Inr out, c)
       | Some ts \<Rightarrow> try_err (map_err (\<lambda>lt. join_row ls rs lt (fst row)) ts) (\<lambda>new c. Some (Inr (out @ new), c)) c) c"

definition HashJoinExecutor :: "float_ops \<Rightarrow> Schema \<Rightarrow> executor \<Rightarrow> executor \<Rightarrow> expr \<Rightarrow> expr \<Rightarrow> executor" where
  "HashJoinExecutor F sch left right lkey rkey =
     \<lparr>output_schema = sch,
      exec_Init = (\<lambda>c.
        and_then (exec_Init left c) (\<lambda>ls c.
        and_then (exec_Init right c) (\<lambda>rs c.
        and_then (for_each (exec_Next left) (hash_build F lkey (output_schema left)) Map.empty ls c) (\<lambda>h c.
        and_then (for_each (exec_Next right) (hash_probe F rkey (output_schema left) (output_schema right) h) [] rs c) (\<lambda>out c.
          Some (Inr (RowsState out 0), c)))))),
      exec_Next = rows_Next\<rparr>"

end
