(* ===== verification/Execution_Engine.thy ===== *)
theory Execution_Engine
  imports Executors
begin

text \<open>
  The other executors (aggregation, sort, limit, projection, utility commands), the factory
  (\<open>executor_factory.cpp\<close>) and the engine (\<open>execution_engine.cpp\<close>).
\<close>

section \<open>Aggregation\<close>

record AggState =
  group_vals :: "Value list"
  agg_vals :: "Value list"

definition initial_aggregate :: "Schema \<Rightarrow> nat \<Rightarrow> AggregationType list \<Rightarrow> nat \<Rightarrow> error + Value" where
  "initial_aggregate out_schema groups types i =
     bind_err (GetColumn out_schema ((groups + i) mod 2 ^ 32)) (\<lambda>col.
       Inr (case types ! i of
          CountStarAggregate \<Rightarrow> Value_int (col_type col) 0
        | CountAggregate \<Rightarrow> Value_int (col_type col) 0
        | _ \<Rightarrow> Value_null (col_type col)))"

definition initial_aggregates :: "Schema \<Rightarrow> nat \<Rightarrow> AggregationType list \<Rightarrow> error + Value list" where
  "initial_aggregates out_schema groups types = map_err (initial_aggregate out_schema groups types) [0..<length types]"

definition aggregate_arg :: "float_ops \<Rightarrow> expr list \<Rightarrow> nat \<Rightarrow> Tuple \<times> Schema \<Rightarrow> error + Value" where
  "aggregate_arg F exprs i src = (if i < length exprs then Evaluate F (exprs ! i) (Some src) else Inl UndefinedBehaviour)"

definition update_aggregate ::
  "float_ops \<Rightarrow> AggregationType list \<Rightarrow> expr list \<Rightarrow> Tuple \<times> Schema \<Rightarrow> nat \<Rightarrow> Value \<Rightarrow> error + Value" where
  "update_aggregate F types exprs src i acc =
     (case types ! i of
        CountStarAggregate \<Rightarrow> Add F acc (Value_int (type_id acc) 1)
      | CountAggregate \<Rightarrow> bind_err (aggregate_arg F exprs i src) (\<lambda>v.
          if is_null v then Inr acc else Add F acc (Value_int (type_id acc) 1))
      | SumAggregate \<Rightarrow> bind_err (aggregate_arg F exprs i src) (\<lambda>v.
          if is_null v then Inr acc else if is_null acc then Inr v else Add F acc v)
      | MinAggregate \<Rightarrow> bind_err (aggregate_arg F exprs i src) (\<lambda>v.
          if is_null v then Inr acc else if is_null acc then Inr v
          else bind_err (CompareLessThan F v acc) (\<lambda>b. bind_err (GetAsBoolean b) (\<lambda>b. Inr (if b then v else acc))))
      | MaxAggregate \<Rightarrow> bind_err (aggregate_arg F exprs i src) (\<lambda>v.
          if is_null v then Inr acc else if is_null acc then Inr v
          else bind_err (CompareLessThan F acc v) (\<lambda>b. bind_err (GetAsBoolean b) (\<lambda>b. Inr (if b then v else acc)))))"

definition update_aggregates ::
  "float_ops \<Rightarrow> AggregationType list \<Rightarrow> expr list \<Rightarrow> Tuple \<times> Schema \<Rightarrow> Value list \<Rightarrow> error + Value list" where
  "update_aggregates F types exprs src accs =
     map_err (\<lambda>i. update_aggregate F types exprs src i (accs ! i)) [0..<length types]"

fun group_key :: "float_ops \<Rightarrow> Value list \<Rightarrow> string" where
  "group_key F [] = []"
| "group_key F [v] = Value_ToString F v"
| "group_key F (v # vs) = Value_ToString F v @ CHR ''|'' # group_key F vs"

text \<open>The hash table of the groups, in the order in which they were first seen.\<close>

type_synonym groups = "(string \<times> AggState) list"

definition add_to_group ::
  "float_ops \<Rightarrow> Schema \<Rightarrow> Schema \<Rightarrow> expr list \<Rightarrow> expr list \<Rightarrow> AggregationType list \<Rightarrow> groups \<Rightarrow> Tuple \<Rightarrow> error + groups" where
  "add_to_group F child_schema out_schema group_bys exprs types gs t =
     bind_err (map_err (\<lambda>e. Evaluate F e (Some (t, child_schema))) group_bys) (\<lambda>gvs.
     let k = group_key F gvs in
     bind_err (case map_of gs k of
         Some g \<Rightarrow> Inr g
       | None \<Rightarrow> bind_err (initial_aggregates out_schema (length group_bys) types)
           (\<lambda>accs. Inr \<lparr>group_vals = gvs, agg_vals = accs\<rparr>)) (\<lambda>g.
     bind_err (update_aggregates F types exprs (t, child_schema) (agg_vals g)) (\<lambda>accs.
       Inr (AList.update k (g\<lparr>agg_vals := accs\<rparr>) gs))))"

definition aggregation_rows :: "Schema \<Rightarrow> expr list \<Rightarrow> AggregationType list \<Rightarrow> groups \<Rightarrow> error + Tuple list" where
  "aggregation_rows out_schema group_bys types gs =
     (if gs = [] then
        if group_bys = [] then bind_err (initial_aggregates out_schema 0 types) (\<lambda>vs. map_err Tuple_init [vs])
        else Inr []
      else map_err (\<lambda>(k, g). Tuple_init (group_vals g @ agg_vals g)) gs)"

definition AggregationExecutor ::
  "float_ops \<Rightarrow> Schema \<Rightarrow> executor \<Rightarrow> expr list \<Rightarrow> expr list \<Rightarrow> AggregationType list \<Rightarrow> executor" where
  "AggregationExecutor F sch child group_bys exprs types =
     \<lparr>output_schema = sch,
      exec_Init = (\<lambda>c.
        and_then (exec_Init child c) (\<lambda>cs c.
        and_then (for_each (exec_Next child) (\<lambda>gs row c.
            Some (add_to_group F (output_schema child) sch group_bys exprs types gs (fst row), c)) [] cs c) (\<lambda>gs c.
        try_err (aggregation_rows sch group_bys types gs) (\<lambda>rows c. Some (Inr (RowsState rows 0), c)) c))),
      exec_Next = rows_Next\<rparr>"

section \<open>Sort\<close>

text \<open>The comparator, which may throw; \<open>std::sort\<close> as insertion into a sorted list.\<close>

fun sort_less :: "float_ops \<Rightarrow> Schema \<Rightarrow> (bool \<times> expr) list \<Rightarrow> Tuple \<Rightarrow> Tuple \<Rightarrow> error + bool" where
  "sort_less F sch [] a b = Inr False"
| "sort_less F sch ((asc, e) # obs) a b =
     bind_err (Evaluate F e (Some (a, sch))) (\<lambda>va.
     bind_err (Evaluate F e (Some (b, sch))) (\<lambda>vb.
     bind_err (bind_err (CompareEquals F va vb) GetAsBoolean) (\<lambda>eq.
       if eq then sort_less F sch obs a b
       else if asc then bind_err (CompareLessThan F va vb) GetAsBoolean
       else bind_err (CompareGreaterThan F va vb) GetAsBoolean)))"

fun sorted_insert :: "('a \<Rightarrow> 'a \<Rightarrow> error + bool) \<Rightarrow> 'a \<Rightarrow> 'a list \<Rightarrow> error + 'a list" where
  "sorted_insert lt x [] = Inr [x]"
| "sorted_insert lt x (y # ys) =
     bind_err (lt y x) (\<lambda>b. if b then bind_err (sorted_insert lt x ys) (\<lambda>zs. Inr (y # zs)) else Inr (x # y # ys))"

fun std_sort :: "('a \<Rightarrow> 'a \<Rightarrow> error + bool) \<Rightarrow> 'a list \<Rightarrow> error + 'a list" where
  "std_sort lt [] = Inr []"
| "std_sort lt (x # xs) = bind_err (std_sort lt xs) (sorted_insert lt x)"

definition SortExecutor :: "float_ops \<Rightarrow> Schema \<Rightarrow> executor \<Rightarrow> (bool \<times> expr) list \<Rightarrow> executor" where
  "SortExecutor F sch child order_bys =
     \<lparr>output_schema = sch,
      exec_Init = (\<lambda>c.
        and_then (exec_Init child c) (\<lambda>cs c.
        and_then (for_each (exec_Next child) (\<lambda>ts row c. Some (Inr (ts @ [fst row]), c)) [] cs c) (\<lambda>ts c.
        try_err (std_sort (sort_less F (output_schema child) order_bys) ts) (\<lambda>rows c. Some (Inr (RowsState rows 0), c)) c))),
      exec_Next = rows_Next\<rparr>"

section \<open>Limit and projection\<close>

definition LimitExecutor :: "Schema \<Rightarrow> executor \<Rightarrow> nat \<Rightarrow> executor" where
  "LimitExecutor sch child limit =
     \<lparr>output_schema = sch,
      exec_Init = (\<lambda>c. and_then (exec_Init child c) (\<lambda>cs c. Some (Inr (LimitState cs 0), c))),
      exec_Next = (\<lambda>st c. case st of
          LimitState cs n \<Rightarrow>
            if limit \<le> n then Some (Inr (None, st), c)
            else and_then (exec_Next child cs c) (\<lambda>p c.
              Some (Inr (fst p, LimitState (snd p) (if fst p = None then n else n + 1)), c))
        | _ \<Rightarrow> Some (Inl UndefinedBehaviour, c))\<rparr>"

definition project_row :: "float_ops \<Rightarrow> Schema \<Rightarrow> expr list \<Rightarrow> Tuple \<Rightarrow> error + Tuple" where
  "project_row F child_schema exprs t = bind_err (map_err (\<lambda>e. Evaluate F e (Some (t, child_schema))) exprs) Tuple_init"

definition ProjectionExecutor :: "float_ops \<Rightarrow> Schema \<Rightarrow> executor \<Rightarrow> expr list \<Rightarrow> executor" where
  "ProjectionExecutor F sch child exprs =
     \<lparr>output_schema = sch,
      exec_Init = (\<lambda>c. and_then (exec_Init child c) (\<lambda>cs c. Some (Inr (ChildState cs), c))),
      exec_Next = (\<lambda>st c. case st of
          ChildState cs \<Rightarrow>
            and_then (exec_Next child cs c) (\<lambda>p c. case fst p of
              None \<Rightarrow> Some (Inr (None, ChildState (snd p)), c)
            | Some (t, rid) \<Rightarrow>
                try_err (project_row F (output_schema child) exprs t) (\<lambda>t' c. Some (Inr (Some (t', rid), ChildState (snd p)), c)) c)
        | _ \<Rightarrow> Some (Inl UndefinedBehaviour, c))\<rparr>"

section \<open>Utility commands\<close>

fun JoinStrings :: "string list \<Rightarrow> string \<Rightarrow> string" where
  "JoinStrings [] sep = []"
| "JoinStrings [s] sep = s"
| "JoinStrings (s # ss) sep = s @ sep @ JoinStrings ss sep"

definition MakeTableRow :: "string list \<Rightarrow> error + Tuple" where
  "MakeTableRow ss = Tuple_init (map (Value_string VARCHAR) ss)"

definition MakeCommandRow :: "string \<Rightarrow> error + Tuple" where
  "MakeCommandRow tag = Tuple_init [Value_string VARCHAR tag]"

text \<open>The table that has an index of this name; an empty name stands for none found so far.\<close>

fun find_index_table :: "string \<Rightarrow> TableInfo list \<Rightarrow> string \<Rightarrow> Catalog \<Rightarrow> error + string" where
  "find_index_table name [] matched c = Inr matched"
| "find_index_table name (info # infos) matched c =
     bind_err (GetIndex name (ti_name info) c) (\<lambda>r.
       if r \<noteq> None then
         if matched \<noteq> [] then Inl (RuntimeError (''Ambiguous index name: '' @ name))
         else find_index_table name infos (ti_name info) c
       else find_index_table name infos matched c)"

fun drop_indexes :: "bool \<Rightarrow> string list \<Rightarrow> bool \<Rightarrow> Catalog \<Rightarrow> (bool, Catalog) outcome" where
  "drop_indexes missing_ok [] removed c = (Inr removed, c)"
| "drop_indexes missing_ok (name # names) removed c =
     (case find_index_table name (GetAllTables c) [] c of
        Inl e \<Rightarrow> (Inl e, c)
      | Inr [] \<Rightarrow>
          if missing_ok then drop_indexes missing_ok names removed c
          else (Inl (RuntimeError (''Index not found: '' @ name)), c)
      | Inr table \<Rightarrow> (case DropIndex name table c of (b, c) \<Rightarrow> drop_indexes missing_ok names (b \<or> removed) c))"

definition table_less :: "TableInfo \<Rightarrow> TableInfo \<Rightarrow> error + bool" where
  "table_less a b = Inr (string_less (ti_name a) (ti_name b))"

definition index_less :: "IndexInfo \<Rightarrow> IndexInfo \<Rightarrow> error + bool" where
  "index_less a b =
     Inr (if ix_name a \<noteq> ix_name b then string_less (ix_name a) (ix_name b)
          else if ix_table a \<noteq> ix_table b then string_less (ix_table a) (ix_table b)
          else ix_oid a < ix_oid b)"

definition Column_ToString :: "Column \<Rightarrow> string" where
  "Column_ToString col = col_name col @ '':'' @ TypeIdToString (col_type col)"

definition utility_rows ::
  "UtilityType \<Rightarrow> string \<Rightarrow> string \<Rightarrow> nat list \<Rightarrow> string list \<Rightarrow> bool \<Rightarrow> Catalog \<Rightarrow> (Tuple list, Catalog) outcome option" where
  "utility_rows u table index attrs names missing_ok c =
     (case u of
        CREATE_INDEX \<Rightarrow>
          and_then (CreateIndex index table attrs c) (\<lambda>r c.
            if r = None then Some (Inl (RuntimeError (''Failed to create index: '' @ index)), c)
            else Some (map_err MakeCommandRow [''CREATE INDEX '' @ index], c))
      | DROP_INDEX \<Rightarrow>
          and_then (Some (drop_indexes missing_ok names False c)) (\<lambda>removed c.
            Some (map_err MakeCommandRow [if removed then ''DROP INDEX'' else ''DROP INDEX (0 rows)''], c))
      | SHOW_TABLES \<Rightarrow>
          try_err (std_sort table_less (GetAllTables c)) (\<lambda>infos c.
            Some (map_err MakeTableRow (map (\<lambda>info. [ti_name info]) infos), c)) c
      | SHOW_INDEXES \<Rightarrow>
          try_err (std_sort index_less (GetAllIndexes c)) (\<lambda>ixs c.
            Some (map_err MakeTableRow (map (\<lambda>ix.
              [ix_name ix, ix_table ix, JoinStrings (map col_name (columns (key_schema ix))) '','']) ixs), c)) c
      | SHOW_SCHEMA \<Rightarrow>
          try_err (GetTable table c) (\<lambda>r c. case r of
            None \<Rightarrow> Some (Inl (RuntimeError (''Table not found: '' @ table)), c)
          | Some info \<Rightarrow>
              Some (map_err MakeTableRow (map (\<lambda>col. [col_name col, Column_ToString col]) (columns (ti_schema info))), c)) c)"

definition UtilityExecutor ::
  "Schema \<Rightarrow> UtilityType \<Rightarrow> string \<Rightarrow> string \<Rightarrow> nat list \<Rightarrow> string list \<Rightarrow> bool \<Rightarrow> executor" where
  "UtilityExecutor sch u table index attrs names missing_ok =
     \<lparr>output_schema = sch,
      exec_Init = (\<lambda>c. and_then (utility_rows u table index attrs names missing_ok c) (\<lambda>rows c. Some (Inr (RowsState rows 0), c))),
      exec_Next = rows_Next\<rparr>"

section \<open>The factory and the engine\<close>

primrec CreateExecutor :: "float_ops \<Rightarrow> plan \<Rightarrow> executor" where
  "CreateExecutor F (SeqScanPlan sch table pred) = SeqScanExecutor F sch table pred"
| "CreateExecutor F (IndexScanPlan sch table index key pred) = IndexScanExecutor F sch table index key pred"
| "CreateExecutor F (InsertPlan sch child table) = InsertExecutor sch (CreateExecutor F child) table"
| "CreateExecutor F (DeletePlan sch child table) = DeleteExecutor sch (CreateExecutor F child) table"
| "CreateExecutor F (UpdatePlan sch child table exprs) = UpdateExecutor F sch (CreateExecutor F child) table exprs"
| "CreateExecutor F (NestedLoopJoinPlan sch left right pred) =
     NestedLoopJoinExecutor F sch (CreateExecutor F left) (CreateExecutor F right) pred"
| "CreateExecutor F (HashJoinPlan sch left right lkey rkey) =
     HashJoinExecutor F sch (CreateExecutor F left) (CreateExecutor F right) lkey rkey"
| "CreateExecutor F (AggregationPlan sch child group_bys exprs types) =
     AggregationExecutor F sch (CreateExecutor F child) group_bys exprs types"
| "CreateExecutor F (SortPlan sch child order_bys) = SortExecutor F sch (CreateExecutor F child) order_bys"
| "CreateExecutor F (LimitPlan sch child limit) = LimitExecutor sch (CreateExecutor F child) limit"
| "CreateExecutor F (ProjectionPlan sch child exprs) = ProjectionExecutor F sch (CreateExecutor F child) exprs"
| "CreateExecutor F (UtilityPlan sch u table index attrs names missing_ok) =
     UtilityExecutor sch u table index attrs names missing_ok"

text \<open>The rows of a plan, each read back through the output schema of the executor.\<close>

definition Execute :: "float_ops \<Rightarrow> plan \<Rightarrow> Catalog \<Rightarrow> (Tuple list, Catalog) outcome option" where
  "Execute F p c =
     (let ex = CreateExecutor F p in
      and_then (exec_Init ex c) (\<lambda>st c.
        for_each (exec_Next ex) (\<lambda>out row c.
          try_err (bind_err (all_values (output_schema ex) (fst row)) Tuple_init) (\<lambda>t c. Some (Inr (out @ [t]), c)) c) [] st c))"

end
