(* ===== verification/Query_Frame.thy ===== *)
theory Query_Frame
  imports Execution_Engine
begin

text \<open>
  What a statement cannot change: whatever plan is executed, and however it ends, the tables of the catalog
  are the same objects under the same names afterwards. \<open>keeps\<close> says this of one step on the catalog, and its rules
  follow the shape of the executors.
\<close>

section \<open>Steps that keep the tables\<close>

definition same_tables :: "Catalog \<Rightarrow> Catalog \<Rightarrow> bool" where
  "same_tables c c' \<longleftrightarrow> tables c' = tables c \<and> table_names c' = table_names c"

lemma same_tables_refl [simp]: "same_tables c c"
  by (simp add: same_tables_def)

lemma same_tables_trans: "same_tables c c' \<Longrightarrow> same_tables c' c'' \<Longrightarrow> same_tables c c''"
  by (simp add: same_tables_def)

definition keeps :: "(Catalog \<Rightarrow> ('a, Catalog) outcome option) \<Rightarrow> bool" where
  "keeps m \<longleftrightarrow> (\<forall>c r c'. m c = Some (r, c') \<longrightarrow> same_tables c c')"

named_theorems keeps_intros \<open>steps that keep the tables\<close>

lemma keepsD: "keeps m \<Longrightarrow> m c = Some (r, c') \<Longrightarrow> same_tables c c'"
  by (auto simp: keeps_def)

lemma keeps_result [keeps_intros]: "keeps (\<lambda>c. Some (r c, c))"
  by (simp add: keeps_def)

lemma keeps_and_then [keeps_intros]:
  assumes "keeps m" and "\<And>c x. keeps (f c x)"
  shows "keeps (\<lambda>c. and_then (m c) (f c))"
  using assms by (fastforce simp: keeps_def and_then_def intro: same_tables_trans split: option.splits sum.splits)

lemma keeps_try_err [keeps_intros]: "(\<And>x. keeps (f x)) \<Longrightarrow> keeps (\<lambda>c. try_err (r c) f c)"
  by (auto simp: keeps_def try_err_def split: sum.splits)

lemma keeps_if [keeps_intros]: "keeps m \<Longrightarrow> keeps m' \<Longrightarrow> keeps (\<lambda>c. if b c then m c else m' c)"
  by (auto simp: keeps_def)

lemma keeps_option [keeps_intros]: "keeps m \<Longrightarrow> (\<And>x. keeps (f x)) \<Longrightarrow> keeps (\<lambda>c. case r c of None \<Rightarrow> m c | Some x \<Rightarrow> f x c)"
  by (auto simp: keeps_def split: option.splits)

lemma keeps_sum [keeps_intros]: "(\<And>e. keeps (g e)) \<Longrightarrow> (\<And>x. keeps (f x)) \<Longrightarrow> keeps (\<lambda>c. case r c of Inl e \<Rightarrow> g e c | Inr x \<Rightarrow> f x c)"
  by (auto simp: keeps_def split: sum.splits)

lemma keeps_pair [keeps_intros]: "(\<And>x y. keeps (f x y)) \<Longrightarrow> keeps (\<lambda>c. case r of (x, y) \<Rightarrow> f x y c)"
  by (auto simp: keeps_def split: prod.splits)

lemma keeps_rstate [keeps_intros]:
  assumes "\<And>a b. keeps (f1 a b)" and "\<And>a b d. keeps (f2 a b d)" and "\<And>a b. keeps (f3 a b)" and "\<And>a b d. keeps (f4 a b d)"
    and "\<And>a b. keeps (f5 a b)" and "\<And>a b. keeps (f6 a b)" and "\<And>a. keeps (f7 a)"
  shows "keeps (\<lambda>c. case st of ScanState a b \<Rightarrow> f1 a b c | IndexScanState a b d \<Rightarrow> f2 a b d c | OnceState a b \<Rightarrow> f3 a b c
    | JoinState a b d \<Rightarrow> f4 a b d c | RowsState a b \<Rightarrow> f5 a b c | LimitState a b \<Rightarrow> f6 a b c | ChildState a \<Rightarrow> f7 a c)"
  using assms by (cases st) simp_all

lemma keeps_on_store [keeps_intros]: "keeps (\<lambda>c. Some (on_store f c))"
  by (auto simp: keeps_def on_store_def same_tables_def split: prod.splits)

lemma keeps_on_store_loop [keeps_intros]: "keeps (on_store_loop f)"
  by (auto simp: keeps_def on_store_loop_def same_tables_def)

section \<open>The loops\<close>

text \<open>A loop keeps the tables when its body does, given that the calls of the loop do (fixed point induction).\<close>

lemma keeps_admissible: "option.admissible (\<lambda>loop :: 'x \<times> Catalog \<Rightarrow> ('a, Catalog) outcome option. keeps (\<lambda>c. loop (x, c)))"
proof -
  have "(\<lambda>loop :: 'x \<times> Catalog \<Rightarrow> ('a, Catalog) outcome option. keeps (\<lambda>c. loop (x, c))) = (\<lambda>loop. \<forall>z y. loop z = Some y \<longrightarrow> fst z = x \<longrightarrow> same_tables (snd z) (snd y))"
    by (auto simp: keeps_def fun_eq_iff)
  then show ?thesis by (simp only: option_admissible)
qed

lemma keeps_nothing: "keeps (\<lambda>c. None)"
  by (simp add: keeps_def)

lemma keeps_seq_scan_loop [keeps_intros]: "keeps (seq_scan_loop F pred info it)"
proof -
  have "\<forall>F pred info it. keeps (seq_scan_loop F pred info it)"
  proof (rule seq_scan_loop.fixp_induct)
    show "option.admissible (\<lambda>f. \<forall>F pred info it. keeps (curry (curry (curry (curry f))) F pred info it))"
      unfolding curry_def by (intro admissible_all keeps_admissible)
  qed (auto intro!: keeps_intros keeps_nothing)
  then show ?thesis by blast
qed

lemma keeps_index_scan_loop [keeps_intros]: "keeps (index_scan_loop F pred info rids i)"
proof -
  have "\<forall>F pred info rids i. keeps (index_scan_loop F pred info rids i)"
  proof (rule index_scan_loop.fixp_induct)
    show "option.admissible (\<lambda>f. \<forall>F pred info rids i. keeps (curry (curry (curry (curry (curry f)))) F pred info rids i))"
      unfolding curry_def by (intro admissible_all keeps_admissible)
  qed (auto intro!: keeps_intros keeps_nothing)
  then show ?thesis by blast
qed

definition keeps_exec :: "executor \<Rightarrow> bool" where
  "keeps_exec ex \<longleftrightarrow> keeps (exec_Init ex) \<and> (\<forall>st. keeps (exec_Next ex st))"

lemma keeps_nested_loop [keeps_intros]:
  assumes "keeps_exec left" and "keeps_exec right"
  shows "keeps (nested_loop F pred left right ls rs lt)"
proof -
  have "\<forall>F pred. \<forall>left \<in> Collect keeps_exec. \<forall>right \<in> Collect keeps_exec. \<forall>ls rs lt. keeps (nested_loop F pred left right ls rs lt)"
  proof (rule nested_loop.fixp_induct)
    show "option.admissible (\<lambda>f. \<forall>F pred. \<forall>left \<in> Collect keeps_exec. \<forall>right \<in> Collect keeps_exec. \<forall>ls rs lt.
        keeps (curry (curry (curry (curry (curry (curry (curry f)))))) F pred left right ls rs lt))"
      unfolding curry_def by (intro admissible_all admissible_ball keeps_admissible)
  qed (auto intro!: keeps_intros keeps_nothing simp: keeps_exec_def)
  then show ?thesis using assms by blast
qed

lemma keeps_for_each [keeps_intros]:
  assumes "\<And>st. keeps (nxt st)" and "\<And>acc row. keeps (body acc row)"
  shows "keeps (for_each nxt body (acc :: 'acc) st)"
proof -
  have loops: "\<forall>nxt \<in> {nxt. \<forall>st. keeps (nxt st)}. \<forall>body \<in> {body. \<forall>acc row. keeps (body acc row)}. \<forall>acc :: 'acc. \<forall>st. keeps (for_each nxt body acc st)"
  proof (rule for_each.fixp_induct)
    show "option.admissible (\<lambda>f. \<forall>nxt \<in> {nxt. \<forall>st. keeps (nxt st)}. \<forall>body \<in> {body. \<forall>acc row. keeps (body acc row)}. \<forall>acc :: 'acc. \<forall>st.
        keeps (curry (curry (curry (curry f))) nxt body acc st))"
      unfolding curry_def by (intro admissible_all admissible_ball keeps_admissible)
  qed (auto intro!: keeps_intros keeps_nothing)
  have "nxt \<in> {nxt. \<forall>st. keeps (nxt st)}" "body \<in> {body. \<forall>acc row. keeps (body acc row)}" using assms by simp_all
  with loops show ?thesis by blast
qed

section \<open>The executors\<close>

lemma keeps_rows_Next [keeps_intros]: "keeps (rows_Next st)"
  by (auto simp: keeps_def rows_Next_def split: rstate.splits)

lemma keeps_seq_scan: "keeps_exec (SeqScanExecutor F sch table pred)"
  by (auto simp: keeps_exec_def SeqScanExecutor_def intro!: keeps_intros split: rstate.split)

lemma keeps_index_scan: "keeps_exec (IndexScanExecutor F sch table index key pred)"
  by (auto simp: keeps_exec_def IndexScanExecutor_def IndexScan_Init_def keeps_def try_err_def Let_def
      intro: keepsD [OF keeps_index_scan_loop] split: rstate.splits option.splits sum.splits if_splits)

lemma keeps_modify:
  assumes "keeps_exec child" and "\<And>info n row. keeps (body info n row)"
  shows "keeps_exec (ModifyExecutor sch child table body)"
  using assms by (auto simp: keeps_exec_def ModifyExecutor_def intro!: keeps_intros split: rstate.split)

lemma keeps_modifications [keeps_intros]:
  "keeps (insert_row info n row)" "keeps (delete_row info n row)" "keeps (update_row F exprs info n row)"
  by (auto simp: insert_row_def [abs_def] delete_row_def [abs_def] update_row_def [abs_def] intro!: keeps_intros)

lemma keeps_nested_loop_join: "keeps_exec left \<Longrightarrow> keeps_exec right \<Longrightarrow> keeps_exec (NestedLoopJoinExecutor F sch left right pred)"
  by (auto simp: keeps_exec_def NestedLoopJoinExecutor_def intro!: keeps_intros split: rstate.split)

lemma keeps_hash_join: "keeps_exec left \<Longrightarrow> keeps_exec right \<Longrightarrow> keeps_exec (HashJoinExecutor F sch left right lkey rkey)"
  by (auto simp: keeps_exec_def HashJoinExecutor_def hash_build_def [abs_def] hash_probe_def [abs_def] Let_def intro!: keeps_intros)

lemma keeps_aggregation: "keeps_exec child \<Longrightarrow> keeps_exec (AggregationExecutor F sch child group_bys exprs types)"
  by (auto simp: keeps_exec_def AggregationExecutor_def intro!: keeps_intros)

lemma keeps_sort: "keeps_exec child \<Longrightarrow> keeps_exec (SortExecutor F sch child order_bys)"
  by (auto simp: keeps_exec_def SortExecutor_def intro!: keeps_intros)

lemma keeps_limit: "keeps_exec child \<Longrightarrow> keeps_exec (LimitExecutor sch child limit)"
  by (auto simp: keeps_exec_def LimitExecutor_def intro!: keeps_intros split: rstate.split)

lemma keeps_projection: "keeps_exec child \<Longrightarrow> keeps_exec (ProjectionExecutor F sch child exprs)"
  by (auto simp: keeps_exec_def ProjectionExecutor_def intro!: keeps_intros split: rstate.split)

text \<open>Updates of the parts of a catalog that hold the indexes.\<close>

lemma keeps_after: "(\<And>c. same_tables c (g c)) \<Longrightarrow> keeps (\<lambda>c. on_store_loop (f c) (g c))"
  unfolding keeps_def using same_tables_trans keepsD [OF keeps_on_store_loop] by blast

lemma keeps_update: "(\<And>c. same_tables c (g c)) \<Longrightarrow> keeps (\<lambda>c. Some (r c, g c))"
  by (simp add: keeps_def)

lemma keeps_CreateIndex [keeps_intros]: "keeps (CreateIndex name table attrs)"
  unfolding CreateIndex_def [abs_def] Let_def
  by (intro keeps_intros keeps_after keeps_update) (simp_all add: same_tables_def)

lemma DropIndex_tables: "DropIndex name table c = (b, c') \<Longrightarrow> same_tables c c'"
  by (auto simp: DropIndex_def same_tables_def Let_def split: option.splits if_splits)

lemma drop_indexes_tables: "drop_indexes missing_ok names removed c = (r, c') \<Longrightarrow> same_tables c c'"
proof (induction missing_ok names removed c rule: drop_indexes.induct)
  case (2 missing_ok name names removed c)
  then show ?case
    by (simp split: sum.splits list.splits if_splits prod.splits) (metis DropIndex_tables same_tables_refl same_tables_trans)+
qed simp

lemma keeps_utility: "keeps_exec (UtilityExecutor sch u table index attrs names missing_ok)"
proof -
  have "keeps (\<lambda>c. Some (drop_indexes missing_ok names False c))" using drop_indexes_tables by (auto simp: keeps_def)
  then have "keeps (utility_rows u table index attrs names missing_ok)"
    by (cases u) (auto simp: utility_rows_def [abs_def] intro!: keeps_intros)
  then show ?thesis by (auto simp: keeps_exec_def UtilityExecutor_def intro!: keeps_intros)
qed

lemma keeps_CreateExecutor: "keeps_exec (CreateExecutor F p)"
  by (induction p)
    (auto simp: InsertExecutor_def DeleteExecutor_def UpdateExecutor_def intro!: keeps_seq_scan keeps_index_scan keeps_modify
      keeps_nested_loop_join keeps_hash_join keeps_aggregation keeps_sort keeps_limit keeps_projection keeps_utility keeps_modifications)

lemma keeps_Execute: "keeps (Execute F p)"
  using keeps_CreateExecutor [of F p] by (auto simp: Execute_def [abs_def] Let_def keeps_exec_def intro!: keeps_intros)

end
