(* ===== verification/Query_Semantics.thy ===== *)
theory Query_Semantics
  imports Execution_Engine
begin

text \<open>
  What queries mean: a plan without modifications denotes a list of rows (\<open>sem\<close>), computed from the
  live rows of the tables with the same row functions as the executors but without iterators, cursors or the
  buffer pool. The executors produce exactly these rows, by pulling them one at a time.
\<close>

section \<open>Producing rows\<close>

text \<open>The rows that repeated calls of \<open>Next\<close> return before it reports the end, leaving the database as it is.\<close>

fun produces :: "next_method \<Rightarrow> rstate \<Rightarrow> Catalog \<Rightarrow> row list \<Rightarrow> bool" where
  "produces nxt st c [] \<longleftrightarrow> (\<exists>st'. nxt st c = Some (Inr (None, st'), c))"
| "produces nxt st c (r # rs) \<longleftrightarrow> (\<exists>st'. nxt st c = Some (Inr (Some r, st'), c) \<and> produces nxt st' c rs)"

definition yields :: "executor \<Rightarrow> Catalog \<Rightarrow> row list \<Rightarrow> bool" where
  "yields ex c rows \<longleftrightarrow> (\<exists>st. exec_Init ex c = Some (Inr st, c) \<and> produces (exec_Next ex) st c rows)"

fun fold_err :: "('a \<Rightarrow> 'b \<Rightarrow> error + 'a) \<Rightarrow> 'a \<Rightarrow> 'b list \<Rightarrow> error + 'a" where
  "fold_err f a [] = Inr a"
| "fold_err f a (x # xs) = bind_err (f a x) (\<lambda>a. fold_err f a xs)"

lemma produces_skip: "produces nxt st' c rows \<Longrightarrow> nxt st c = nxt st' c \<Longrightarrow> produces nxt st c rows"
  by (cases rows) simp_all

lemma for_each_produces:
  assumes "produces nxt st c rows" and "\<And>a r. body a r c = Some (f a r, c)"
  shows "for_each nxt body a st c = Some (fold_err f a rows, c)"
  using assms(1)
proof (induction rows arbitrary: st a)
  case Nil
  then show ?case by (subst for_each.simps) auto
next
  case (Cons r rows)
  then obtain st' where st': "nxt st c = Some (Inr (Some r, st'), c)" "produces nxt st' c rows" by auto
  show ?case
    using Cons.IH [OF st'(2)] by (subst for_each.simps) (cases "f a r"; simp add: st'(1) assms(2))
qed

lemma fold_err_append: "fold_err (\<lambda>ts r. Inr (ts @ [g r])) a rows = Inr (a @ map g rows)"
  by (induction rows arbitrary: a) simp_all

lemma fold_err_collect:
  "fold_err (\<lambda>ts r. bind_err (g r) (\<lambda>t. Inr (ts @ [t]))) a rows = bind_err (map_err g rows) (\<lambda>ts. Inr (a @ ts))"
proof (induction rows arbitrary: a)
  case (Cons r rows)
  show ?case by (cases "g r"; cases "map_err g rows") (simp_all add: Cons)
qed simp

lemma rows_Next_produces: "produces rows_Next (RowsState ts i) c (map (\<lambda>t. (t, no_rid)) (drop i ts))"
proof (induction "length ts - i" arbitrary: i)
  case 0
  then show ?case by (simp add: rows_Next_def)
next
  case (Suc n)
  then have "i < length ts" by simp
  then have "drop i ts = ts ! i # drop (Suc i) ts" by (simp add: Cons_nth_drop_Suc)
  then show ?case using Suc \<open>i < length ts\<close> by (simp add: rows_Next_def)
qed

section \<open>The meaning of a plan\<close>

definition unstored :: "Tuple list \<Rightarrow> row list" where
  "unstored ts = map (\<lambda>t. (t, no_rid)) ts"

definition scan_row :: "float_ops \<Rightarrow> expr option \<Rightarrow> Schema \<Rightarrow> RID \<times> byte list \<Rightarrow> error + row list" where
  "scan_row F pred sch row =
     bind_err (test_predicate F pred (stored_tuple row) sch) (\<lambda>keep.
       if keep then bind_err (bind_err (all_values sch (stored_tuple row)) Tuple_init) (\<lambda>t. Inr [(t, fst row)]) else Inr [])"

definition concat_err :: "(error + 'a list list) \<Rightarrow> error + 'a list" where
  "concat_err r = bind_err r (\<lambda>xss. Inr (concat xss))"

definition index_rids :: "float_ops \<Rightarrow> IndexInfo option \<Rightarrow> expr \<Rightarrow> error + RID list" where
  "index_rids F ix key =
     (case ix of
        None \<Rightarrow> Inr []
      | Some ix \<Rightarrow>
          if \<not> SupportsPointLookup ix then Inr []
          else bind_err (Evaluate F key None) (\<lambda>v.
            Inr (if is_null v \<or> type_id v \<noteq> INTEGER then [] else case LookupInteger ix (integer v) of None \<Rightarrow> [] | Some rids \<Rightarrow> rids)))"

definition join_pair :: "float_ops \<Rightarrow> expr option \<Rightarrow> Schema \<Rightarrow> Schema \<Rightarrow> row \<Rightarrow> row \<Rightarrow> error + row list" where
  "join_pair F pred ls rs l r =
     bind_err (join_match F pred ls rs (fst l) (fst r)) (\<lambda>keep.
       if keep then bind_err (join_row ls rs (fst l) (fst r)) (\<lambda>t. Inr [(t, no_rid)]) else Inr [])"

definition hash_insert :: "float_ops \<Rightarrow> expr \<Rightarrow> Schema \<Rightarrow> hash_table \<Rightarrow> row \<Rightarrow> error + hash_table" where
  "hash_insert F key sch h row =
     bind_err (Evaluate F key (Some (fst row, sch))) (\<lambda>v.
       let k = Value_ToString F v in Inr (h(k \<mapsto> (case h k of None \<Rightarrow> [] | Some ts \<Rightarrow> ts) @ [fst row])))"

definition hash_matches :: "float_ops \<Rightarrow> expr \<Rightarrow> Schema \<Rightarrow> Schema \<Rightarrow> hash_table \<Rightarrow> row \<Rightarrow> error + Tuple list" where
  "hash_matches F key ls rs h row =
     bind_err (Evaluate F key (Some (fst row, rs))) (\<lambda>v.
       case h (Value_ToString F v) of None \<Rightarrow> Inr [] | Some ts \<Rightarrow> map_err (\<lambda>lt. join_row ls rs lt (fst row)) ts)"

type_synonym tables_rows = "nat \<Rightarrow> (RID \<times> byte list) list"

primrec sem :: "float_ops \<Rightarrow> Catalog \<Rightarrow> tables_rows \<Rightarrow> plan \<Rightarrow> error + row list" where
  "sem F c R (SeqScanPlan sch table pred) =
     (case GetTable_oid table c of
        None \<Rightarrow> Inl UndefinedBehaviour
      | Some info \<Rightarrow> concat_err (map_err (scan_row F pred (ti_schema info)) (R table)))"
| "sem F c R (IndexScanPlan sch table index key pred) =
     (case GetTable_oid table c of
        None \<Rightarrow> Inr []
      | Some info \<Rightarrow>
          bind_err (index_rids F (GetIndex_oid index c) key) (\<lambda>rids.
          concat_err (map_err (\<lambda>rid. case map_of (R table) rid of
              None \<Rightarrow> Inl UndefinedBehaviour
            | Some bs \<Rightarrow> scan_row F pred (ti_schema info) (rid, bs)) rids)))"
| "sem F c R (NestedLoopJoinPlan sch left right pred) =
     bind_err (sem F c R left) (\<lambda>ls. bind_err (sem F c R right) (\<lambda>rs.
       concat_err (map_err (\<lambda>l. concat_err (map_err
         (join_pair F pred (GetOutputSchema left) (GetOutputSchema right) l) rs)) ls)))"
| "sem F c R (HashJoinPlan sch left right lkey rkey) =
     bind_err (sem F c R left) (\<lambda>ls. bind_err (sem F c R right) (\<lambda>rs.
     bind_err (fold_err (hash_insert F lkey (GetOutputSchema left)) Map.empty ls) (\<lambda>h.
     bind_err (concat_err (map_err (hash_matches F rkey (GetOutputSchema left) (GetOutputSchema right) h) rs)) (\<lambda>ts.
       Inr (unstored ts)))))"
| "sem F c R (AggregationPlan sch child group_bys exprs types) =
     bind_err (sem F c R child) (\<lambda>rows.
     bind_err (fold_err (\<lambda>gs row. add_to_group F (GetOutputSchema child) sch group_bys exprs types gs (fst row)) [] rows) (\<lambda>gs.
     bind_err (aggregation_rows sch group_bys types gs) (\<lambda>ts. Inr (unstored ts))))"
| "sem F c R (SortPlan sch child order_bys) =
     bind_err (sem F c R child) (\<lambda>rows.
     bind_err (std_sort (sort_less F (GetOutputSchema child) order_bys) (map fst rows)) (\<lambda>ts. Inr (unstored ts)))"
| "sem F c R (LimitPlan sch child n) = bind_err (sem F c R child) (\<lambda>rows. Inr (take n rows))"
| "sem F c R (ProjectionPlan sch child exprs) =
     bind_err (sem F c R child) (\<lambda>rows. map_err (\<lambda>(t, rid).
       bind_err (project_row F (GetOutputSchema child) exprs t) (\<lambda>t'. Inr (t', rid))) rows)"
| "sem F c R (InsertPlan sch child table) = Inl (LogicError ''not a query'')"
| "sem F c R (DeletePlan sch child table) = Inl (LogicError ''not a query'')"
| "sem F c R (UpdatePlan sch child table exprs) = Inl (LogicError ''not a query'')"
| "sem F c R (UtilityPlan sch u table index attrs names missing_ok) = Inl (LogicError ''not a query'')"

text \<open>The rows that the tables of a catalog hold, in the order of their heaps; one frame is free.\<close>

definition db_rows :: "Catalog \<Rightarrow> tables_rows \<Rightarrow> bool" where
  "db_rows c R \<longleftrightarrow>
     card (set (pinned (cat_store c))) < capacity (cat_store c) \<and>
     (\<forall>oid info. GetTable_oid oid c = Some info \<longrightarrow>
        (\<exists>ps. heap_ok (cat_store c) (ti_first info) ps \<and> R oid = heap_rows (cat_store c) ps))"

lemma output_schema_create: "output_schema (CreateExecutor F p) = GetOutputSchema p"
  by (induction p) (simp_all add: SeqScanExecutor_def IndexScanExecutor_def InsertExecutor_def DeleteExecutor_def UpdateExecutor_def
      ModifyExecutor_def NestedLoopJoinExecutor_def HashJoinExecutor_def AggregationExecutor_def SortExecutor_def LimitExecutor_def
      ProjectionExecutor_def UtilityExecutor_def)

section \<open>Scans\<close>

lemma on_store_id: "f (cat_store c) = (r, cat_store c) \<Longrightarrow> on_store f c = (r, c)"
  by (simp add: on_store_def)

lemma on_store_loop_id: "f (cat_store c) = Some (r, cat_store c) \<Longrightarrow> on_store_loop f c = Some (r, c)"
  by (simp add: on_store_loop_def)

lemma concat_err_Cons:
  "concat_err (map_err f (x # xs)) = Inr ys \<longleftrightarrow> (\<exists>as bs. f x = Inr as \<and> concat_err (map_err f xs) = Inr bs \<and> ys = as @ bs)"
  by (auto simp: concat_err_def bind_err_Inr)

lemma concat_err_simps [simp]: "concat_err (Inr xss) = Inr (concat xss)" "concat_err (Inl e) = Inl e"
  by (simp_all add: concat_err_def)

lemma scan_row_cases:
  assumes "scan_row F pred sch row = Inr as"
  obtains (skip) "test_predicate F pred (stored_tuple row) sch = Inr False" and "as = []"
  | (keep) t where "test_predicate F pred (stored_tuple row) sch = Inr True"
      and "bind_err (all_values sch (stored_tuple row)) Tuple_init = Inr t" and "as = [(t, fst row)]"
  using assms by (auto simp: scan_row_def bind_err_Inr split: if_splits)

text \<open>One step of a scan: the iterator moves on before the row is tested.\<close>

lemma seq_scan_step:
  assumes "heap_ok (cat_store c) first ps" and "card (set (pinned (cat_store c))) < capacity (cat_store c)"
    and "cursor (cat_store c) ps (row # rows)"
  shows "seq_scan_loop F pred info (first_rid (row # rows)) c =
    try_err (test_predicate F pred (stored_tuple row) (ti_schema info)) (\<lambda>keep c.
      if \<not> keep then seq_scan_loop F pred info (first_rid rows) c
      else try_err (bind_err (all_values (ti_schema info) (stored_tuple row)) Tuple_init) (\<lambda>t c.
        Some (Inr (Some (t, tuple_rid (stored_tuple row)), ScanState info (first_rid rows)), c)) c) c"
proof -
  obtain r bs where row: "row = (r, bs)" by (cases row)
  note cur = cursor_step [OF assms(1,2) assms(3) [unfolded row]]
  have get: "TH_GetTuple r (cat_store c) = (Inr (stored_tuple row), cat_store c)"
    using get_row [OF assms(1,2) cur(4)] by (simp add: stored_tuple_def row)
  have "first_rid (row # rows) = r" by (simp add: first_rid_def row)
  then show ?thesis using cur(1) on_store_id [of "TH_GetTuple r", OF get] on_store_loop_id [of "TH_next r", OF cur(2)]
    by (subst seq_scan_loop.simps) simp
qed

lemma seq_scan_end: "seq_scan_loop F pred info end_rid c = Some (Inr (None, ScanState info end_rid), c)"
  by (subst seq_scan_loop.simps) simp

lemma seq_scan_produces:
  assumes "heap_ok (cat_store c) first ps" and "card (set (pinned (cat_store c))) < capacity (cat_store c)"
    and "cursor (cat_store c) ps rows" and "concat_err (map_err (scan_row F pred (ti_schema info)) rows) = Inr out"
  shows "produces (exec_Next (SeqScanExecutor F sch table pred)) (ScanState info (first_rid rows)) c out"
  using assms(3,4)
proof (induction rows arbitrary: out)
  case Nil
  then show ?case by (simp add: SeqScanExecutor_def first_rid_def seq_scan_end)
next
  case (Cons row rows)
  obtain r bs where row: "row = (r, bs)" by (cases row)
  note cur = cursor_step [OF assms(1,2) Cons.prems(1) [unfolded row]]
  from Cons.prems(2) obtain as out' where o: "scan_row F pred (ti_schema info) row = Inr as"
    "concat_err (map_err (scan_row F pred (ti_schema info)) rows) = Inr out'" "out = as @ out'" unfolding concat_err_Cons by blast
  note rest = Cons.IH [OF cur(3) o(2)]
  note step = seq_scan_step [OF assms(1,2) Cons.prems(1), of F pred info]
  show ?case
    using o(1)
  proof (cases rule: scan_row_cases)
    case skip
    then show ?thesis using produces_skip [OF rest] o(3) step by (simp add: SeqScanExecutor_def)
  next
    case (keep t)
    then show ?thesis using rest o(3) step by (simp add: SeqScanExecutor_def stored_tuple_def)
  qed
qed

lemma index_scan_produces:
  assumes "heap_ok (cat_store c) first ps" and "card (set (pinned (cat_store c))) < capacity (cat_store c)"
    and "R = heap_rows (cat_store c) ps" and "i \<le> length rids"
    and "concat_err (map_err (\<lambda>rid. case map_of R rid of None \<Rightarrow> Inl UndefinedBehaviour
        | Some bs \<Rightarrow> scan_row F pred (ti_schema info) (rid, bs)) (drop i rids)) = Inr out"
  shows "produces (exec_Next (IndexScanExecutor F sch table index key pred)) (IndexScanState (Some info) rids i) c out"
  using assms(4,5)
proof (induction "length rids - i" arbitrary: i out)
  case 0
  then have "index_scan_loop F pred info rids i c = Some (Inr (None, IndexScanState (Some info) rids i), c)"
    by (subst index_scan_loop.simps) simp
  then show ?case using 0 by (simp add: IndexScanExecutor_def)
next
  case (Suc n)
  let ?f = "\<lambda>rid. case map_of R rid of None \<Rightarrow> Inl UndefinedBehaviour | Some bs \<Rightarrow> scan_row F pred (ti_schema info) (rid, bs)"
  have i: "i < length rids" "n = length rids - Suc i" "Suc i \<le> length rids" using Suc(2) by auto
  have d: "drop i rids = rids ! i # drop (Suc i) rids" using i(1) by (simp add: Cons_nth_drop_Suc)
  from Suc.prems(2) obtain as out' where o: "?f (rids ! i) = Inr as" "concat_err (map_err ?f (drop (Suc i) rids)) = Inr out'" "out = as @ out'"
    unfolding d concat_err_Cons by blast
  from o(1) obtain bs where bs: "map_of R (rids ! i) = Some bs" "scan_row F pred (ti_schema info) (rids ! i, bs) = Inr as"
    by (auto split: option.splits)
  have "row_at (cat_store c) ps (rids ! i) bs" using map_of_SomeD [OF bs(1)] assms(3) by (simp add: row_at_def)
  then have get: "TH_GetTuple (rids ! i) (cat_store c) = (Inr (stored_tuple (rids ! i, bs)), cat_store c)"
    using get_row [OF assms(1,2)] by (simp add: stored_tuple_def)
  note rest = Suc(1) [OF i(2,3) o(2)]
  have step: "index_scan_loop F pred info rids i c =
    try_err (test_predicate F pred (stored_tuple (rids ! i, bs)) (ti_schema info)) (\<lambda>keep c.
      if \<not> keep then index_scan_loop F pred info rids (i + 1) c
      else try_err (bind_err (all_values (ti_schema info) (stored_tuple (rids ! i, bs))) Tuple_init) (\<lambda>t c.
        Some (Inr (Some (t, rids ! i), IndexScanState (Some info) rids (i + 1)), c)) c) c"
    using i(1) on_store_id [of "TH_GetTuple (rids ! i)", OF get] by (subst index_scan_loop.simps) simp
  show ?case
    using bs(2)
  proof (cases rule: scan_row_cases)
    case skip
    then show ?thesis using produces_skip [OF rest] o(3) step by (simp add: IndexScanExecutor_def)
  next
    case (keep t)
    then show ?thesis using rest o(3) step by (simp add: IndexScanExecutor_def)
  qed
qed

lemma seq_scan_yields:
  assumes "db_rows c R" and "sem F c R (SeqScanPlan sch table pred) = Inr rows"
  shows "yields (CreateExecutor F (SeqScanPlan sch table pred)) c rows"
proof -
  from assms(2) obtain info where info: "GetTable_oid table c = Some info"
    "concat_err (map_err (scan_row F pred (ti_schema info)) (R table)) = Inr rows" by (auto split: option.splits)
  with assms(1) obtain ps where ps: "heap_ok (cat_store c) (ti_first info) ps" "R table = heap_rows (cat_store c) ps"
    "card (set (pinned (cat_store c))) < capacity (cat_store c)" unfolding db_rows_def by blast
  note cur = cursor_begin [OF ps(1,3)]
  have "exec_Init (SeqScanExecutor F sch table pred) c = Some (Inr (ScanState info (first_rid (R table))), c)"
    using info(1) on_store_loop_id [of "TH_Begin (ti_first info)", OF cur(1)] ps(2) by (simp add: SeqScanExecutor_def)
  moreover have "produces (exec_Next (SeqScanExecutor F sch table pred)) (ScanState info (first_rid (R table))) c rows"
    by (rule seq_scan_produces [OF ps(1,3)]) (use cur(2) info(2) ps(2) in simp_all)
  ultimately show ?thesis by (auto simp: yields_def)
qed

lemma index_scan_yields:
  assumes "db_rows c R" and "sem F c R (IndexScanPlan sch table index key pred) = Inr rows"
  shows "yields (CreateExecutor F (IndexScanPlan sch table index key pred)) c rows"
proof (cases "GetTable_oid table c")
  case None
  then show ?thesis using assms(2) by (simp add: yields_def IndexScanExecutor_def IndexScan_Init_def Let_def)
next
  case (Some info)
  with assms(1) obtain ps where ps: "heap_ok (cat_store c) (ti_first info) ps" "R table = heap_rows (cat_store c) ps"
    "card (set (pinned (cat_store c))) < capacity (cat_store c)" unfolding db_rows_def by blast
  from assms(2) Some obtain rids where r: "index_rids F (GetIndex_oid index c) key = Inr rids"
    "concat_err (map_err (\<lambda>rid. case map_of (R table) rid of None \<Rightarrow> Inl UndefinedBehaviour
        | Some bs \<Rightarrow> scan_row F pred (ti_schema info) (rid, bs)) rids) = Inr rows" by (auto simp: bind_err_Inr)
  have "exec_Init (IndexScanExecutor F sch table index key pred) c = Some (Inr (IndexScanState (Some info) rids 0), c)"
    using r(1) Some
    by (auto simp: IndexScanExecutor_def IndexScan_Init_def index_rids_def Let_def bind_err_Inr split: option.splits if_splits)
  moreover have "produces (exec_Next (IndexScanExecutor F sch table index key pred)) (IndexScanState (Some info) rids 0) c rows"
    by (rule index_scan_produces [OF ps(1,3,2)]) (use r(2) in simp_all)
  ultimately show ?thesis by (auto simp: yields_def)
qed

section \<open>Operators over a child that yields rows\<close>

lemma yieldsE:
  assumes "yields ex c rows"
  obtains st where "exec_Init ex c = Some (Inr st, c)" and "produces (exec_Next ex) st c rows"
  using assms unfolding yields_def by blast

lemma limit_yields:
  assumes "yields ex c rows"
  shows "yields (LimitExecutor sch ex n) c (take n rows)"
proof -
  from assms obtain st where st: "exec_Init ex c = Some (Inr st, c)" "produces (exec_Next ex) st c rows" by (rule yieldsE)
  have "produces (exec_Next (LimitExecutor sch ex n)) (LimitState st k) c (take (n - k) rows)" if "produces (exec_Next ex) st c rows" for k st rows
    using that
  proof (induction rows arbitrary: st k)
    case (Cons r rows)
    from Cons.prems obtain st' where st': "exec_Next ex st c = Some (Inr (Some r, st'), c)" "produces (exec_Next ex) st' c rows" by auto
    have "n - k = Suc (n - Suc k)" if "\<not> n \<le> k" using that by simp
    then show ?case using st'(1) Cons.IH [OF st'(2), of "Suc k"] by (cases "n \<le> k") (auto simp: LimitExecutor_def)
  qed (auto simp: LimitExecutor_def)
  from this [OF st(2), of 0] st(1) show ?thesis by (simp add: yields_def LimitExecutor_def)
qed

lemma projection_yields:
  assumes "yields ex c rows" and "map_err (\<lambda>(t, rid). bind_err (project_row F (output_schema ex) exprs t) (\<lambda>t'. Inr (t', rid))) rows = Inr out"
  shows "yields (ProjectionExecutor F sch ex exprs) c out"
proof -
  from assms(1) obtain st where st: "exec_Init ex c = Some (Inr st, c)" "produces (exec_Next ex) st c rows" by (rule yieldsE)
  have "produces (exec_Next (ProjectionExecutor F sch ex exprs)) (ChildState st) c out"
    using st(2) assms(2)
  proof (induction rows arbitrary: st out)
    case (Cons r rows)
    from Cons.prems(1) obtain st' where st': "exec_Next ex st c = Some (Inr (Some r, st'), c)" "produces (exec_Next ex) st' c rows" by auto
    obtain t rid where r: "r = (t, rid)" by (cases r)
    from Cons.prems(2) obtain t' out' where o: "project_row F (output_schema ex) exprs t = Inr t'" "out = (t', rid) # out'"
      "map_err (\<lambda>(t, rid). bind_err (project_row F (output_schema ex) exprs t) (\<lambda>t'. Inr (t', rid))) rows = Inr out'"
      by (auto simp: r bind_err_Inr)
    show ?case using st'(1) o Cons.IH [OF st'(2) o(3)] by (simp add: ProjectionExecutor_def r)
  qed (auto simp: ProjectionExecutor_def)
  with st(1) show ?thesis by (simp add: yields_def ProjectionExecutor_def)
qed

lemma rows_yields:
  assumes "exec_Next ex = rows_Next" and "exec_Init ex c = Some (Inr (RowsState ts 0), c)"
  shows "yields ex c (unstored ts)"
  using rows_Next_produces [of ts 0 c] assms by (simp add: yields_def unstored_def)

lemma sort_yields:
  assumes "yields ex c rows" and "std_sort (sort_less F (output_schema ex) order_bys) (map fst rows) = Inr ts"
  shows "yields (SortExecutor F sch ex order_bys) c (unstored ts)"
proof -
  from assms(1) obtain st where st: "exec_Init ex c = Some (Inr st, c)" "produces (exec_Next ex) st c rows" by (rule yieldsE)
  have "for_each (exec_Next ex) (\<lambda>ts row c. Some (Inr (ts @ [fst row]), c)) [] st c = Some (Inr (map fst rows), c)"
    by (subst for_each_produces [OF st(2), where f = "\<lambda>ts row. Inr (ts @ [fst row])"]) (simp_all add: fold_err_append)
  then show ?thesis using st(1) assms(2) by (intro rows_yields) (simp_all add: SortExecutor_def)
qed

lemma aggregation_yields:
  assumes "yields ex c rows" and "aggregation_rows sch group_bys types gs = Inr ts"
    and "fold_err (\<lambda>gs row. add_to_group F (output_schema ex) sch group_bys exprs types gs (fst row)) [] rows = Inr gs"
  shows "yields (AggregationExecutor F sch ex group_bys exprs types) c (unstored ts)"
proof -
  from assms(1) obtain st where st: "exec_Init ex c = Some (Inr st, c)" "produces (exec_Next ex) st c rows" by (rule yieldsE)
  show ?thesis
    using st(1) assms(2,3) for_each_produces [OF st(2), where f = "\<lambda>gs row. add_to_group F (output_schema ex) sch group_bys exprs types gs (fst row)"]
    by (intro rows_yields) (simp_all add: AggregationExecutor_def)
qed

lemma hash_build_eq: "hash_build F key sch h row c = Some (hash_insert F key sch h row, c)"
  by (cases "Evaluate F key (Some (fst row, sch))") (simp_all add: hash_build_def hash_insert_def Let_def)

lemma hash_probe_eq:
  "hash_probe F key ls rs h out row c = Some (bind_err (hash_matches F key ls rs h row) (\<lambda>new. Inr (out @ new)), c)"
proof (cases "Evaluate F key (Some (fst row, rs))")
  case (Inr v)
  show ?thesis
  proof (cases "h (Value_ToString F v)")
    case (Some ts)
    then show ?thesis using Inr by (cases "map_err (\<lambda>lt. join_row ls rs lt (fst row)) ts") (simp_all add: hash_probe_def hash_matches_def)
  qed (simp add: hash_probe_def hash_matches_def Inr)
qed (simp add: hash_probe_def hash_matches_def)

lemma fold_err_concat:
  "fold_err (\<lambda>out row. bind_err (g row) (\<lambda>new. Inr (out @ new))) a rows = bind_err (concat_err (map_err g rows)) (\<lambda>ts. Inr (a @ ts))"
proof (induction rows arbitrary: a)
  case (Cons r rows)
  show ?case by (cases "g r"; cases "map_err g rows") (simp_all add: Cons)
qed simp

lemma hash_join_yields:
  assumes "yields left c ls" and "yields right c rs"
    and "fold_err (hash_insert F lkey (output_schema left)) Map.empty ls = Inr h"
    and "concat_err (map_err (hash_matches F rkey (output_schema left) (output_schema right) h) rs) = Inr ts"
  shows "yields (HashJoinExecutor F sch left right lkey rkey) c (unstored ts)"
proof -
  from assms(1) obtain l where l: "exec_Init left c = Some (Inr l, c)" "produces (exec_Next left) l c ls" by (rule yieldsE)
  from assms(2) obtain r where r: "exec_Init right c = Some (Inr r, c)" "produces (exec_Next right) r c rs" by (rule yieldsE)
  show ?thesis
    using l(1) r(1) assms(3,4)
      for_each_produces [OF l(2), where body = "hash_build F lkey (output_schema left)" and f = "hash_insert F lkey (output_schema left)"]
      for_each_produces [OF r(2), where body = "hash_probe F rkey (output_schema left) (output_schema right) h"
        and f = "\<lambda>out row. bind_err (hash_matches F rkey (output_schema left) (output_schema right) h row) (\<lambda>new. Inr (out @ new))"]
      hash_build_eq hash_probe_eq
    by (intro rows_yields) (simp_all add: HashJoinExecutor_def fold_err_concat)
qed

lemma nested_loop_inner:
  assumes "produces (exec_Next right) rst c rs"
    and "concat_err (map_err (join_pair F pred (output_schema left) (output_schema right) (l, lrid)) rs) = Inr out"
    and "\<And>rst rst'. exec_Next right rst c = Some (Inr (None, rst'), c) \<Longrightarrow>
      produces (exec_Next (NestedLoopJoinExecutor F sch left right pred)) (JoinState lst rst (Some l)) c rest"
  shows "produces (exec_Next (NestedLoopJoinExecutor F sch left right pred)) (JoinState lst rst (Some l)) c (out @ rest)"
  using assms(1,2)
proof (induction rs arbitrary: rst out)
  case Nil
  then obtain rst' where "exec_Next right rst c = Some (Inr (None, rst'), c)" by auto
  then show ?case using Nil(2) assms(3) by simp
next
  case (Cons r rs)
  from Cons.prems(1) obtain rst' where r: "exec_Next right rst c = Some (Inr (Some r, rst'), c)" "produces (exec_Next right) rst' c rs" by auto
  from Cons.prems(2) obtain as out' where o: "join_pair F pred (output_schema left) (output_schema right) (l, lrid) r = Inr as"
    "concat_err (map_err (join_pair F pred (output_schema left) (output_schema right) (l, lrid)) rs) = Inr out'" "out = as @ out'"
    unfolding concat_err_Cons by blast
  obtain rt rrid where rt: "r = (rt, rrid)" by (cases r)
  note rest = Cons.IH [OF r(2) o(2)]
  have step: "nested_loop F pred left right lst rst (Some l) c =
    try_err (join_match F pred (output_schema left) (output_schema right) l rt) (\<lambda>keep c.
      if \<not> keep then nested_loop F pred left right lst rst' (Some l) c
      else try_err (join_row (output_schema left) (output_schema right) l rt) (\<lambda>t c.
        Some (Inr (Some (t, no_rid), JoinState lst rst' (Some l)), c)) c) c"
    by (subst nested_loop.simps) (simp add: r(1) rt cong: if_cong)
  from o(1) consider "join_match F pred (output_schema left) (output_schema right) l rt = Inr False" "as = []"
    | t where "join_match F pred (output_schema left) (output_schema right) l rt = Inr True"
      "join_row (output_schema left) (output_schema right) l rt = Inr t" "as = [(t, no_rid)]"
    by (auto simp: join_pair_def bind_err_Inr rt split: if_splits)
  then show ?case
  proof cases
    case 1
    then show ?thesis using produces_skip [OF rest] o(3) step by (simp add: NestedLoopJoinExecutor_def)
  next
    case 2
    then show ?thesis using rest o(3) step by (simp add: NestedLoopJoinExecutor_def)
  qed
qed

lemma nested_loop_yields:
  assumes "yields left c ls" and "yields right c rs"
    and "concat_err (map_err (\<lambda>l. concat_err (map_err (join_pair F pred (output_schema left) (output_schema right) l) rs)) ls) = Inr out"
  shows "yields (NestedLoopJoinExecutor F sch left right pred) c out"
proof -
  let ?J = "NestedLoopJoinExecutor F sch left right pred"
  from assms(1) obtain l where l: "exec_Init left c = Some (Inr l, c)" "produces (exec_Next left) l c ls" by (rule yieldsE)
  from assms(2) obtain r where r: "exec_Init right c = Some (Inr r, c)" "produces (exec_Next right) r c rs" by (rule yieldsE)
  have loop: "\<exists>q lst'. exec_Next left lst c = Some (Inr (q, lst'), c) \<and> produces (exec_Next ?J) (JoinState lst' r (map_option fst q)) c out"
    if "produces (exec_Next left) lst c ls"
      "concat_err (map_err (\<lambda>l. concat_err (map_err (join_pair F pred (output_schema left) (output_schema right) l) rs)) ls) = Inr out" for lst ls out
    using that
  proof (induction ls arbitrary: lst out)
    case Nil
    then obtain lst' where "exec_Next left lst c = Some (Inr (None, lst'), c)" by auto
    moreover have "nested_loop F pred left right lst' r None c = Some (Inr (None, JoinState lst' r None), c)" by (subst nested_loop.simps) simp
    ultimately show ?case using Nil(2) by (simp add: NestedLoopJoinExecutor_def)
  next
    case (Cons lr ls)
    obtain lt lrid where lr: "lr = (lt, lrid)" by (cases lr)
    from Cons.prems(1) lr obtain lst' where nx: "exec_Next left lst c = Some (Inr (Some (lt, lrid), lst'), c)" "produces (exec_Next left) lst' c ls" by auto
    from Cons.prems(2) obtain as out' where o: "concat_err (map_err (join_pair F pred (output_schema left) (output_schema right) lr) rs) = Inr as"
      "concat_err (map_err (\<lambda>l. concat_err (map_err (join_pair F pred (output_schema left) (output_schema right) l) rs)) ls) = Inr out'" "out = as @ out'"
      unfolding concat_err_Cons by blast
    from Cons.IH [OF nx(2) o(2)] obtain q lst2 where q: "exec_Next left lst' c = Some (Inr (q, lst2), c)"
      "produces (exec_Next ?J) (JoinState lst2 r (map_option fst q)) c out'" by blast
    have "produces (exec_Next ?J) (JoinState lst' r (Some lt)) c (as @ out')"
    proof (rule nested_loop_inner [OF r(2) o(1) [unfolded lr]])
      fix rst rst' assume "exec_Next right rst c = Some (Inr (None, rst'), c)"
      then have "nested_loop F pred left right lst' rst (Some lt) c = nested_loop F pred left right lst2 r (map_option fst q) c"
        by (subst nested_loop.simps) (simp add: q(1) r(1))
      then show "produces (exec_Next ?J) (JoinState lst' rst (Some lt)) c out'"
        using produces_skip [OF q(2)] by (simp add: NestedLoopJoinExecutor_def)
    qed
    then show ?case using nx(1) o(3) by simp
  qed
  from loop [OF l(2) assms(3)] l(1) r(1) show ?thesis by (auto simp: yields_def NestedLoopJoinExecutor_def)
qed

text \<open>Every plan without modifications.\<close>

lemma sem_yields: "db_rows c R \<Longrightarrow> sem F c R p = Inr rows \<Longrightarrow> yields (CreateExecutor F p) c rows"
proof (induction p arbitrary: rows)
  case (SeqScanPlan sch table pred)
  then show ?case by (rule seq_scan_yields)
next
  case (IndexScanPlan sch table index key pred)
  then show ?case by (rule index_scan_yields)
next
  case (NestedLoopJoinPlan sch left right pred)
  then obtain ls rs where "sem F c R left = Inr ls" "sem F c R right = Inr rs"
    "concat_err (map_err (\<lambda>l. concat_err (map_err (join_pair F pred (GetOutputSchema left) (GetOutputSchema right) l) rs)) ls) = Inr rows"
    by (auto simp: bind_err_Inr)
  then show ?case using nested_loop_yields NestedLoopJoinPlan by (simp add: output_schema_create)
next
  case (HashJoinPlan sch left right lkey rkey)
  then obtain ls rs h ts where "sem F c R left = Inr ls" "sem F c R right = Inr rs"
    "fold_err (hash_insert F lkey (GetOutputSchema left)) Map.empty ls = Inr h"
    "concat_err (map_err (hash_matches F rkey (GetOutputSchema left) (GetOutputSchema right) h) rs) = Inr ts" "rows = unstored ts"
    by (auto simp: bind_err_Inr)
  then show ?case using hash_join_yields HashJoinPlan by (simp add: output_schema_create)
next
  case (AggregationPlan sch child group_bys exprs types)
  then obtain rs gs ts where "sem F c R child = Inr rs" "aggregation_rows sch group_bys types gs = Inr ts" "rows = unstored ts"
    "fold_err (\<lambda>gs row. add_to_group F (GetOutputSchema child) sch group_bys exprs types gs (fst row)) [] rs = Inr gs"
    by (auto simp: bind_err_Inr)
  then show ?case using aggregation_yields AggregationPlan by (simp add: output_schema_create)
next
  case (SortPlan sch child order_bys)
  then obtain rs ts where "sem F c R child = Inr rs" "rows = unstored ts"
    "std_sort (sort_less F (GetOutputSchema child) order_bys) (map fst rs) = Inr ts" by (auto simp: bind_err_Inr)
  then show ?case using sort_yields SortPlan by (simp add: output_schema_create)
next
  case (LimitPlan sch child n)
  then show ?case using limit_yields by (auto simp: bind_err_Inr)
next
  case (ProjectionPlan sch child exprs)
  then obtain rs where "sem F c R child = Inr rs"
    "map_err (\<lambda>(t, rid). bind_err (project_row F (GetOutputSchema child) exprs t) (\<lambda>t'. Inr (t', rid))) rs = Inr rows"
    by (auto simp: bind_err_Inr)
  then show ?case using projection_yields ProjectionPlan by (simp add: output_schema_create)
qed simp_all

section \<open>The engine\<close>

text \<open>
  The interface between the engine and the executors: what a client that drains an executor may rely on is
  that the rows of a plan's meaning are produced, one at a time.
\<close>

locale query_engine =
  fixes create :: "plan \<Rightarrow> executor" and meaning :: "Catalog \<Rightarrow> plan \<Rightarrow> error + row list" and ready :: "Catalog \<Rightarrow> bool"
  assumes run: "ready c \<Longrightarrow> meaning c p = Inr rows \<Longrightarrow> yields (create p) c rows"
begin

lemma drained:
  assumes "ready c" and "meaning c p = Inr rows" and "\<And>a r. body a r c = Some (f a r, c)"
  shows "and_then (exec_Init (create p) c) (for_each (exec_Next (create p)) body a) = Some (fold_err f a rows, c)"
proof -
  from run [OF assms(1,2)] obtain st where "exec_Init (create p) c = Some (Inr st, c)" "produces (exec_Next (create p)) st c rows"
    by (rule yieldsE)
  then show ?thesis using for_each_produces [where body = body and f = f] assms(3) by simp
qed

end

definition meaning_of :: "float_ops \<Rightarrow> (Catalog \<Rightarrow> tables_rows) \<Rightarrow> Catalog \<Rightarrow> plan \<Rightarrow> error + row list" where
  "meaning_of F tab c p = sem F c (tab c) p"

interpretation engine: query_engine "CreateExecutor F" "meaning_of F tab" "\<lambda>c. db_rows c (tab c)" for F tab
  by unfold_locales (simp add: meaning_of_def sem_yields)

definition result_row :: "Schema \<Rightarrow> row \<Rightarrow> error + Tuple" where
  "result_row sch row = bind_err (all_values sch (fst row)) Tuple_init"

lemma Execute_ok:
  assumes "db_rows c R" and "sem F c R p = Inr rows"
  shows "Execute F p c = Some (map_err (result_row (GetOutputSchema p)) rows, c)"
proof -
  have body: "try_err (bind_err (all_values (GetOutputSchema p) (fst row)) Tuple_init) (\<lambda>t c. Some (Inr (out @ [t]), c)) c =
      Some (bind_err (result_row (GetOutputSchema p) row) (\<lambda>t. Inr (out @ [t])), c)" for out :: "Tuple list" and row
    by (cases "bind_err (all_values (GetOutputSchema p) (fst row)) Tuple_init") (simp_all add: result_row_def)
  have "Execute F p c = Some (fold_err (\<lambda>out row. bind_err (result_row (GetOutputSchema p) row) (\<lambda>t. Inr (out @ [t]))) [] rows, c)"
    unfolding Execute_def Let_def
    by (rule engine.drained [where tab = "\<lambda>_. R", OF assms(1)]) (simp_all add: meaning_of_def assms(2) output_schema_create body)
  then show ?thesis by (cases "map_err (result_row (GetOutputSchema p)) rows") (simp_all add: fold_err_collect)
qed

end
