(* ===== verification/Binder.thy ===== *)
theory Binder
  imports Query_Semantics
begin

text \<open>
  The binder (\<open>src/binder/binder.cpp\<close>): from the parse tree of the SQL parser to plans.

  The parser is not part of the program: it is a parameter, from the text of a query to an error message or a list of
  statements. Its nodes (\<open>third_party/libpg_query/include/nodes\<close>) are the datatypes below, with the
  fields that the binder reads; where the binder casts the elements of a list to one node type, as the grammar
  of the parser guarantees, the list is a list of that type. A pointer that may be null is an option, except
  for lists: the empty list is the null pointer. An exception is the error of the result.
\<close>

section \<open>Parse trees\<close>

datatype pg_value = PGInteger int | PGFloat string | PGString string | PGOtherValue

datatype pg_booltype = PG_AND_EXPR | PG_OR_EXPR | PG_NOT_EXPR

datatype pg_node =
    PG_String string
  | PG_List "pg_node list"
  | PG_RangeVar "string option"
  | PG_ColumnRef "pg_node list"
  | PG_AStar
  | PG_AConst pg_value
  | PG_AExpr "pg_node list" "pg_node option" "pg_node option"
  | PG_BoolExpr pg_booltype "pg_node list"
  | PG_FuncCall "pg_node list" "pg_node list" bool
  | PG_OtherNode nat

datatype pg_from =
    FromTable string "string option"
  | FromJoin pg_from pg_from "pg_node option"
  | FromOther

record pg_select =
  targetList :: "(string option \<times> pg_node option) list"
  fromClause :: "pg_from list"
  whereClause :: "pg_node option"
  groupClause :: "pg_node list"
  sortClause :: "(pg_node \<times> bool) list"
  limitCount :: "pg_node option"
  valuesLists :: bool

datatype pg_statement =
    PG_IndexStmt "string option" "string option" "(string option \<times> bool) list"
  | PG_DropStmt bool "pg_node list" bool
  | PG_VariableShowStmt "string option" "string option"
  | PG_SelectStmt pg_select
  | PG_InsertStmt string "pg_select option"
  | PG_DeleteStmt string "pg_node option"
  | PG_UpdateStmt string "(string \<times> pg_node option) list" "pg_node option"
  | PG_OtherStmt nat

text \<open>
  What the binder uses of its environment: the parser; \<open>std::stof\<close>; the number of a node tag as text; and
  whether the compiler evaluates \<open>std::move(left)\<close> before \<open>left ? ... : INTEGER\<close> in the constructor
  of \<open>ArithmeticExpression\<close>, whose order the standard leaves open.
\<close>

record platform =
  parse :: "string \<Rightarrow> string + pg_statement list"
  stof :: "string \<Rightarrow> error + bits32"
  tag_text :: "pg_node + pg_statement \<Rightarrow> string"
  moved_first :: bool

section \<open>Helpers\<close>

record TableScope =
  scope_alias :: string
  scope_info :: TableInfo
  tuple_idx :: nat

definition to_lower :: "char \<Rightarrow> char" where
  "to_lower c = (if 65 \<le> (of_char c :: nat) \<and> (of_char c :: nat) \<le> 90 then char_of (of_char c + 32 :: nat) else c)"

definition LowerCopy :: "string \<Rightarrow> string" where
  "LowerCopy text = map to_lower text"

text \<open>\<open>strVal\<close> of a node that is a string, and the head of a list that is not empty.\<close>

definition str_val :: "pg_node \<Rightarrow> error + string" where
  "str_val n = (case n of PG_String s \<Rightarrow> Inr s | _ \<Rightarrow> Inl UndefinedBehaviour)"

definition list_head :: "'a list \<Rightarrow> error + 'a" where
  "list_head xs = (case xs of [] \<Rightarrow> Inl UndefinedBehaviour | x # _ \<Rightarrow> Inr x)"

fun NodeToQualifiedName :: "pg_node \<Rightarrow> string" where
  "NodeToQualifiedName (PG_String s) = s"
| "NodeToQualifiedName (PG_List ns) = JoinStrings (map NodeToQualifiedName ns) ''.''"
| "NodeToQualifiedName (PG_RangeVar r) = (case r of None \<Rightarrow> [] | Some s \<Rightarrow> s)"
| "NodeToQualifiedName _ = []"

fun find_column :: "string \<Rightarrow> Column list \<Rightarrow> nat \<Rightarrow> (nat \<times> TypeId) option" where
  "find_column name [] i = None"
| "find_column name (c # cs) i = (if col_name c = name then Some (i, col_type c) else find_column name cs (Suc i))"

fun ResolveColumn :: "string \<Rightarrow> string \<Rightarrow> TableScope list \<Rightarrow> error + nat \<times> nat \<times> TypeId" where
  "ResolveColumn name qualifier [] =
     Inl (RuntimeError (''Column not found: '' @ (if qualifier = [] then name else qualifier @ ''.'' @ name)))"
| "ResolveColumn name qualifier (s # ss) =
     (if qualifier \<noteq> [] \<and> qualifier \<noteq> scope_alias s then ResolveColumn name qualifier ss
      else (case find_column name (columns (ti_schema (scope_info s))) 0 of
        Some (i, ty) \<Rightarrow> Inr (tuple_idx s, i, ty)
      | None \<Rightarrow> ResolveColumn name qualifier ss))"

section \<open>Expressions\<close>

text \<open>A column reference: the empty name where the code leaves \<open>col_name\<close> empty, \<open>None\<close> for a star.\<close>

definition BindColumnRef :: "pg_node list \<Rightarrow> TableScope list \<Rightarrow> error + expr option" where
  "BindColumnRef refs scopes =
     (let resolve = (\<lambda>name qualifier. bind_err (ResolveColumn name qualifier scopes) (\<lambda>(ti, i, ty). Inr (Some (ColumnValue ti i ty)))) in
      case refs of
        [n] \<Rightarrow> (case n of PG_String s \<Rightarrow> resolve s [] | PG_AStar \<Rightarrow> Inr None | _ \<Rightarrow> resolve [] [])
      | [q, n] \<Rightarrow>
          bind_err (str_val q) (\<lambda>qualifier.
            if n = PG_AStar then Inr None else bind_err (str_val n) (\<lambda>name. resolve name qualifier))
      | _ \<Rightarrow> resolve [] [])"

definition BindConstant :: "platform \<Rightarrow> pg_value \<Rightarrow> error + expr option" where
  "BindConstant P v =
     (case v of
        PGInteger i \<Rightarrow> Inr (Some (Constant (Value_int INTEGER i)))
      | PGFloat s \<Rightarrow> bind_err (stof P s) (\<lambda>f. Inr (Some (Constant (Value_float FLOAT f))))
      | PGString s \<Rightarrow> Inr (Some (Constant (Value_string VARCHAR s)))
      | PGOtherValue \<Rightarrow> Inl (RuntimeError ''Unsupported constant type''))"

text \<open>A child that may be a null pointer.\<close>

definition child :: "expr option \<Rightarrow> expr" where
  "child e = (case e of None \<Rightarrow> NullExpression | Some e \<Rightarrow> e)"

definition binary_operator :: "string \<Rightarrow> (expr \<Rightarrow> expr \<Rightarrow> expr) option" where
  "binary_operator op =
     (if op = ''='' then Some (Comparison Cmp_Equal)
      else if op = ''<>'' \<or> op = ''!='' then Some (Comparison Cmp_NotEqual)
      else if op = ''<'' then Some (Comparison Cmp_LessThan)
      else if op = ''<='' then Some (Comparison Cmp_LessThanOrEqual)
      else if op = ''>'' then Some (Comparison Cmp_GreaterThan)
      else if op = ''>='' then Some (Comparison Cmp_GreaterThanOrEqual)
      else if op = ''+'' then Some (Arithmetic Arith_Plus)
      else if op = ''-'' then Some (Arithmetic Arith_Minus)
      else if op = ''*'' then Some (Arithmetic Arith_Multiply)
      else if op = ''/'' then Some (Arithmetic Arith_Divide)
      else if op = ''%'' then Some (Arithmetic Arith_Modulo)
      else None)"

definition apply_operator :: "pg_node list \<Rightarrow> expr option \<Rightarrow> expr option \<Rightarrow> error + expr option" where
  "apply_operator names l r =
     bind_err (bind_err (list_head names) str_val) (\<lambda>op.
       case binary_operator op of
         None \<Rightarrow> Inl (RuntimeError (''Unsupported operator: '' @ op))
       | Some f \<Rightarrow> Inr (Some (f (child l) (child r))))"

definition logic_type :: "pg_booltype \<Rightarrow> LogicType option" where
  "logic_type op = (case op of PG_AND_EXPR \<Rightarrow> Some Logic_And | PG_OR_EXPR \<Rightarrow> Some Logic_Or | PG_NOT_EXPR \<Rightarrow> None)"

text \<open>\<open>BindExpression\<close> on a node, on a pointer that may be null, and on the rest of a chain of \<open>AND\<close> or \<open>OR\<close>.\<close>

fun BindExpression :: "platform \<Rightarrow> TableScope list \<Rightarrow> pg_node \<Rightarrow> error + expr option"
  and BindOptional :: "platform \<Rightarrow> TableScope list \<Rightarrow> pg_node option \<Rightarrow> error + expr option"
  and BindChain :: "platform \<Rightarrow> TableScope list \<Rightarrow> LogicType \<Rightarrow> expr option \<Rightarrow> pg_node list \<Rightarrow> error + expr option" where
  "BindExpression P scopes (PG_ColumnRef refs) = BindColumnRef refs scopes"
| "BindExpression P scopes (PG_AConst v) = BindConstant P v"
| "BindExpression P scopes (PG_AExpr names l r) =
     bind_err (BindOptional P scopes l) (\<lambda>l. bind_err (BindOptional P scopes r) (\<lambda>r. apply_operator names l r))"
| "BindExpression P scopes (PG_BoolExpr op args) =
     (case logic_type op of
        None \<Rightarrow> Inl (RuntimeError ''Unsupported BoolExpr type'')
      | Some g \<Rightarrow> (case args of
          [] \<Rightarrow> Inl UndefinedBehaviour
        | n # ns \<Rightarrow> bind_err (BindExpression P scopes n) (\<lambda>e. BindChain P scopes g e ns)))"
| "BindExpression P scopes n = Inl (RuntimeError (''Unsupported expression node type: '' @ tag_text P (Inl n)))"
| "BindOptional P scopes None = Inr None"
| "BindOptional P scopes (Some n) = BindExpression P scopes n"
| "BindChain P scopes g e [] = Inr e"
| "BindChain P scopes g e (n # ns) =
     bind_err (BindExpression P scopes n) (\<lambda>r. BindChain P scopes g (Some (Logic g (child e) (child r))) ns)"

text \<open>\<open>GetReturnType\<close> of an expression that the binder has made.\<close>

fun return_type :: "platform \<Rightarrow> expr \<Rightarrow> error + TypeId" where
  "return_type P (ColumnValue ti i ty) = Inr ty"
| "return_type P (Constant v) = Inr (type_id v)"
| "return_type P (Comparison c l r) = Inr BOOLEAN"
| "return_type P (Arithmetic a l r) =
     (if moved_first P \<or> l = NullExpression then Inr INTEGER else return_type P l)"
| "return_type P (Logic g l r) = Inr BOOLEAN"
| "return_type P NullExpression = Inl UndefinedBehaviour"

definition GetFuncName :: "pg_node list \<Rightarrow> error + string" where
  "GetFuncName names = bind_err (bind_err (list_head (rev names)) str_val) (\<lambda>s. Inr (LowerCopy s))"

section \<open>Schemas\<close>

definition CountSchema :: Schema where
  "CountSchema = Schema_init [Column_init ''count'' INTEGER 0]"

definition CommandSchema :: Schema where
  "CommandSchema = Schema_init [Column_init ''command_tag'' VARCHAR 0]"

definition ShowTablesSchema :: Schema where
  "ShowTablesSchema = Schema_init [Column_init ''table_name'' VARCHAR 0]"

definition ShowIndexesSchema :: Schema where
  "ShowIndexesSchema =
     Schema_init [Column_init ''index_name'' VARCHAR 0, Column_init ''table_name'' VARCHAR 0, Column_init ''columns'' VARCHAR 0]"

definition ShowSchemaSchema :: Schema where
  "ShowSchemaSchema = Schema_init [Column_init ''column_name'' VARCHAR 0, Column_init ''column_type'' VARCHAR 0]"

definition CollectAllColumns :: "TableScope list \<Rightarrow> Schema" where
  "CollectAllColumns scopes = Schema_init (concat (map (\<lambda>s. columns (ti_schema (scope_info s))) scopes))"

section \<open>FROM\<close>

definition find_table :: "string \<Rightarrow> Catalog \<Rightarrow> error + TableInfo" where
  "find_table name c =
     bind_err (GetTable name c) (\<lambda>r. case r of None \<Rightarrow> Inl (RuntimeError (''Table not found: '' @ name)) | Some info \<Rightarrow> Inr info)"

definition table_scan :: "TableInfo \<Rightarrow> expr option \<Rightarrow> plan" where
  "table_scan info pred = SeqScanPlan (ti_schema info) (ti_oid info) pred"

text \<open>The sides of a join are cast to tables without a check.\<close>

definition join_side :: "pg_from \<Rightarrow> nat \<Rightarrow> Catalog \<Rightarrow> error + TableScope" where
  "join_side side i c =
     (case side of
        FromTable name al \<Rightarrow> bind_err (find_table name c) (\<lambda>info.
          Inr \<lparr>scope_alias = (case al of None \<Rightarrow> name | Some a \<Rightarrow> a), scope_info = info, tuple_idx = i\<rparr>)
      | _ \<Rightarrow> Inl UndefinedBehaviour)"

record from_state =
  from_scopes :: "TableScope list"
  from_plans :: "plan list"
  base_plan :: "plan option"

definition bind_from_item :: "platform \<Rightarrow> Catalog \<Rightarrow> from_state \<Rightarrow> pg_from \<Rightarrow> error + from_state" where
  "bind_from_item P c st item =
     (case item of
        FromTable name al \<Rightarrow>
          bind_err (join_side item (length (from_scopes st)) c) (\<lambda>s.
            Inr (st\<lparr>from_scopes := from_scopes st @ [s], from_plans := from_plans st @ [table_scan (scope_info s) None]\<rparr>))
      | FromJoin larg rarg quals \<Rightarrow>
          bind_err (join_side larg 0 c) (\<lambda>ls.
          bind_err (join_side rarg 1 c) (\<lambda>rs.
          let ss = from_scopes st @ [ls, rs] in
          bind_err (BindOptional P ss quals) (\<lambda>pred.
            Inr (st\<lparr>from_scopes := ss, from_plans := [],
              base_plan := Some (NestedLoopJoinPlan (CollectAllColumns ss)
                (table_scan (scope_info ls) None) (table_scan (scope_info rs) None) pred)\<rparr>))))
      | FromOther \<Rightarrow> Inr st)"

fun fold_bind :: "('a \<Rightarrow> 'b \<Rightarrow> error + 'a) \<Rightarrow> 'a \<Rightarrow> 'b list \<Rightarrow> error + 'a" where
  "fold_bind f a [] = Inr a"
| "fold_bind f a (x # xs) = bind_err (f a x) (\<lambda>a. fold_bind f a xs)"

definition bind_from :: "platform \<Rightarrow> Catalog \<Rightarrow> pg_from list \<Rightarrow> error + from_state" where
  "bind_from P c items =
     (if items = [] then Inl (RuntimeError ''SELECT without FROM not supported'')
      else bind_err (fold_bind (bind_from_item P c) \<lparr>from_scopes = [], from_plans = [], base_plan = None\<rparr> items) (\<lambda>st.
        Inr (if from_plans st \<noteq> [] then st\<lparr>base_plan := Some (hd (from_plans st))\<rparr> else st)))"

text \<open>The condition goes into a scan or a join; a condition over anything else is dropped.\<close>

definition bind_where :: "platform \<Rightarrow> from_state \<Rightarrow> pg_node option \<Rightarrow> error + from_state" where
  "bind_where P st cond =
     (case cond of
        None \<Rightarrow> Inr st
      | Some n \<Rightarrow>
          bind_err (BindExpression P (from_scopes st) n) (\<lambda>pred.
            case base_plan st of
              None \<Rightarrow> Inl UndefinedBehaviour
            | Some (SeqScanPlan _ _ _) \<Rightarrow>
                bind_err (list_head (from_scopes st)) (\<lambda>s. Inr (st\<lparr>base_plan := Some (table_scan (scope_info s) pred)\<rparr>))
            | Some (NestedLoopJoinPlan sch left right on) \<Rightarrow>
                Inr (st\<lparr>base_plan := Some (NestedLoopJoinPlan sch left right
                  (case on of None \<Rightarrow> pred | Some e \<Rightarrow> Some (Logic Logic_And e (child pred))))\<rparr>)
            | Some p \<Rightarrow> Inr st))"

section \<open>The target list\<close>

record target_state =
  agg_calls :: "(AggregationType \<times> expr) list"
  output_exprs :: "expr option list"
  output_names :: "string list"
  is_star :: bool

definition aggregate_of :: "string \<Rightarrow> AggregationType option" where
  "aggregate_of fname =
     (if fname = ''count'' then Some CountAggregate
      else if fname = ''sum'' then Some SumAggregate
      else if fname = ''min'' then Some MinAggregate
      else if fname = ''max'' then Some MaxAggregate
      else None)"

definition bind_aggregate ::
  "platform \<Rightarrow> TableScope list \<Rightarrow> AggregationType \<Rightarrow> pg_node list \<Rightarrow> bool \<Rightarrow> error + AggregationType \<times> expr" where
  "bind_aggregate P ss type args agg_star =
     (if type = CountAggregate \<and> (agg_star \<or> (args \<noteq> [] \<and> hd args = PG_AStar)) then
        Inr (CountStarAggregate, ColumnValue 0 0 INTEGER)
      else bind_err (list_head args) (\<lambda>arg. bind_err (BindExpression P ss arg) (\<lambda>e. Inr (type, child e))))"

definition output_name :: "string option \<Rightarrow> pg_node \<Rightarrow> nat \<Rightarrow> error + string" where
  "output_name name val_node n =
     (case (name, val_node) of
        (Some s, _) \<Rightarrow> Inr s
      | (None, PG_ColumnRef refs) \<Rightarrow> bind_err (list_head (rev refs)) (\<lambda>tail. Inr (NodeToQualifiedName tail))
      | _ \<Rightarrow> Inr (''col_'' @ digits_of n))"

definition bind_output :: "platform \<Rightarrow> TableScope list \<Rightarrow> target_state \<Rightarrow> string option \<Rightarrow> pg_node \<Rightarrow> error + target_state" where
  "bind_output P ss st name val_node =
     bind_err (BindExpression P ss val_node) (\<lambda>e.
     bind_err (output_name name val_node (length (output_names st))) (\<lambda>s.
       Inr (st\<lparr>output_exprs := output_exprs st @ [e], output_names := output_names st @ [s]\<rparr>)))"

definition bind_target :: "platform \<Rightarrow> TableScope list \<Rightarrow> target_state \<Rightarrow> string option \<times> pg_node option \<Rightarrow> error + target_state" where
  "bind_target P ss st target =
     (case target of
        (_, None) \<Rightarrow> Inr st
      | (name, Some val_node) \<Rightarrow>
          (case val_node of
             PG_AStar \<Rightarrow> Inr (st\<lparr>is_star := True\<rparr>)
           | PG_ColumnRef refs \<Rightarrow>
               bind_err (list_head refs) (\<lambda>first.
                 if first = PG_AStar then Inr (st\<lparr>is_star := True\<rparr>) else bind_output P ss st name val_node)
           | PG_FuncCall names args agg_star \<Rightarrow>
               bind_err (GetFuncName names) (\<lambda>fname.
                 case aggregate_of fname of
                   Some type \<Rightarrow> bind_err (bind_aggregate P ss type args agg_star) (\<lambda>agg. Inr (st\<lparr>agg_calls := agg_calls st @ [agg]\<rparr>))
                 | None \<Rightarrow> bind_output P ss st name val_node)
           | _ \<Rightarrow> bind_output P ss st name val_node))"

definition bind_targets :: "platform \<Rightarrow> TableScope list \<Rightarrow> (string option \<times> pg_node option) list \<Rightarrow> error + target_state" where
  "bind_targets P ss targets =
     fold_bind (bind_target P ss) \<lparr>agg_calls = [], output_exprs = [], output_names = [], is_star = False\<rparr> targets"

section \<open>SELECT\<close>

text \<open>A list of expressions of which each may be a null pointer.\<close>

definition bind_list :: "platform \<Rightarrow> TableScope list \<Rightarrow> pg_node list \<Rightarrow> error + expr list" where
  "bind_list P ss ns = map_err (\<lambda>n. bind_err (BindExpression P ss n) (\<lambda>e. Inr (child e))) ns"

definition bind_aggregation :: "platform \<Rightarrow> TableScope list \<Rightarrow> pg_node list \<Rightarrow> target_state \<Rightarrow> plan \<Rightarrow> error + plan" where
  "bind_aggregation P ss groups ts base =
     (if agg_calls ts = [] then Inr base
      else bind_err (bind_list P ss groups) (\<lambda>group_bys.
        let cols = map (\<lambda>i. Column_init (''group_'' @ digits_of i) INTEGER 0) [0..<length group_bys] @
                   map (\<lambda>i. Column_init (''agg_'' @ digits_of i) INTEGER 0) [0..<length (agg_calls ts)] in
        Inr (AggregationPlan (Schema_init cols) base group_bys (map snd (agg_calls ts)) (map fst (agg_calls ts)))))"

text \<open>The flag of a sort key says that it is descending.\<close>

definition bind_sort :: "platform \<Rightarrow> TableScope list \<Rightarrow> (pg_node \<times> bool) list \<Rightarrow> plan \<Rightarrow> error + plan" where
  "bind_sort P ss keys base =
     (if keys = [] then Inr base
      else bind_err (map_err (\<lambda>(n, desc). bind_err (BindExpression P ss n) (\<lambda>e. Inr (\<not> desc, child e))) keys) (\<lambda>order_bys.
        Inr (SortPlan (GetOutputSchema base) base order_bys)))"

text \<open>The limit is read as an integer constant without a check; a negative one wraps to \<open>size_t\<close>.\<close>

definition bind_limit :: "pg_node option \<Rightarrow> plan \<Rightarrow> error + plan" where
  "bind_limit limit base =
     (case limit of
        None \<Rightarrow> Inr base
      | Some (PG_AConst (PGInteger i)) \<Rightarrow> Inr (LimitPlan (GetOutputSchema base) base (nat (i mod 2 ^ 64)))
      | Some _ \<Rightarrow> Inl UndefinedBehaviour)"

definition bind_projection :: "platform \<Rightarrow> target_state \<Rightarrow> plan \<Rightarrow> error + plan" where
  "bind_projection P ts base =
     (if is_star ts \<or> agg_calls ts \<noteq> [] \<or> output_exprs ts = [] then Inr base
      else bind_err (map_err (\<lambda>(name, e). bind_err (return_type P (child e)) (\<lambda>ty. Inr (Column_init name ty 0)))
          (zip (output_names ts) (output_exprs ts))) (\<lambda>cols.
        Inr (ProjectionPlan (Schema_init cols) base (map child (output_exprs ts)))))"

text \<open>
  A FROM clause with neither a table nor a join leaves a null plan, which the code goes on to use: the model
  stops once the target list is bound.
\<close>

definition bind_select :: "platform \<Rightarrow> pg_select \<Rightarrow> Catalog \<Rightarrow> error + plan" where
  "bind_select P sel c =
     bind_err (bind_from P c (fromClause sel)) (\<lambda>st.
     bind_err (bind_where P st (whereClause sel)) (\<lambda>st.
     let ss = from_scopes st in
     bind_err (bind_targets P ss (targetList sel)) (\<lambda>ts.
     case base_plan st of
       None \<Rightarrow> Inl UndefinedBehaviour
     | Some base \<Rightarrow>
         bind_err (bind_aggregation P ss (groupClause sel) ts base) (\<lambda>base.
         bind_err (bind_sort P ss (sortClause sel) base) (\<lambda>base.
         bind_err (bind_limit (limitCount sel) base) (\<lambda>base.
         bind_projection P ts base))))))"

section \<open>The other statements\<close>

definition bind_insert_item ::
  "platform \<Rightarrow> pg_node option \<Rightarrow> Catalog \<Rightarrow> TableScope list \<times> plan option \<Rightarrow> pg_from \<Rightarrow> error + TableScope list \<times> plan option" where
  "bind_insert_item P cond c st item =
     (case item of
        FromTable name al \<Rightarrow>
          bind_err (find_table name c) (\<lambda>info.
          let ss = fst st @ [\<lparr>scope_alias = name, scope_info = info, tuple_idx = 0\<rparr>] in
          bind_err (BindOptional P ss cond) (\<lambda>pred. Inr (ss, Some (table_scan info pred))))
      | _ \<Rightarrow> Inr st)"

definition bind_insert :: "platform \<Rightarrow> string \<Rightarrow> pg_select option \<Rightarrow> Catalog \<Rightarrow> error + plan" where
  "bind_insert P table source c =
     bind_err (find_table table c) (\<lambda>info.
     case source of
       None \<Rightarrow> Inl UndefinedBehaviour
     | Some sel \<Rightarrow>
         if fromClause sel = [] \<and> valuesLists sel then Inl (RuntimeError ''INSERT ... VALUES not supported yet'')
         else bind_err (fold_bind (bind_insert_item P (whereClause sel) c) ([], None) (fromClause sel)) (\<lambda>st.
           case snd st of
             None \<Rightarrow> Inl UndefinedBehaviour
           | Some scan \<Rightarrow> Inr (InsertPlan CountSchema scan (ti_oid info))))"

definition bind_delete :: "platform \<Rightarrow> string \<Rightarrow> pg_node option \<Rightarrow> Catalog \<Rightarrow> error + plan" where
  "bind_delete P table cond c =
     bind_err (find_table table c) (\<lambda>info.
     bind_err (BindOptional P [\<lparr>scope_alias = table, scope_info = info, tuple_idx = 0\<rparr>] cond) (\<lambda>pred.
       Inr (DeletePlan CountSchema (table_scan info pred) (ti_oid info))))"

definition update_expr :: "(string \<rightharpoonup> expr) \<Rightarrow> Column list \<Rightarrow> nat \<Rightarrow> expr" where
  "update_expr set_exprs cols i =
     (case set_exprs (col_name (cols ! i)) of None \<Rightarrow> ColumnValue 0 i (col_type (cols ! i)) | Some e \<Rightarrow> e)"

definition bind_update :: "platform \<Rightarrow> string \<Rightarrow> (string \<times> pg_node option) list \<Rightarrow> pg_node option \<Rightarrow> Catalog \<Rightarrow> error + plan" where
  "bind_update P table sets cond c =
     bind_err (find_table table c) (\<lambda>info.
     let ss = [\<lparr>scope_alias = table, scope_info = info, tuple_idx = 0\<rparr>]; cols = columns (ti_schema info) in
     bind_err (fold_bind (\<lambda>m (name, n). bind_err (BindOptional P ss n) (\<lambda>e. Inr (m(name \<mapsto> child e)))) Map.empty sets) (\<lambda>set_exprs.
     bind_err (BindOptional P ss cond) (\<lambda>pred.
       Inr (UpdatePlan CountSchema (table_scan info pred) (ti_oid info) (map (update_expr set_exprs cols) [0..<length cols])))))"

definition index_attr :: "Schema \<Rightarrow> string option \<times> bool \<Rightarrow> error + nat" where
  "index_attr sch param =
     (case param of
        (Some name, False) \<Rightarrow>
          let i = GetColumnIdx sch name in
          if i = 2 ^ 32 - 1 then Inl (RuntimeError (''Column not found: '' @ name)) else Inr i
      | _ \<Rightarrow> Inl (RuntimeError ''Only column-based CREATE INDEX is supported''))"

definition bind_index :: "string option \<Rightarrow> string option \<Rightarrow> (string option \<times> bool) list \<Rightarrow> Catalog \<Rightarrow> error + plan" where
  "bind_index relation idxname params c =
     (case (relation, idxname) of
        (Some table, Some index) \<Rightarrow>
          bind_err (find_table table c) (\<lambda>info.
          bind_err (map_err (index_attr (ti_schema info)) params) (\<lambda>key_attrs.
            Inr (UtilityPlan CommandSchema CREATE_INDEX table index key_attrs [] False)))
      | _ \<Rightarrow> Inl (RuntimeError ''Invalid CREATE INDEX statement''))"

text \<open>A \<open>SHOW\<close> that the first switch does not handle leaves it: \<open>None\<close>.\<close>

definition bind_show :: "string option \<Rightarrow> string option \<Rightarrow> Catalog \<Rightarrow> error + plan option" where
  "bind_show show_set relation c =
     (if (case show_set of None \<Rightarrow> False
          | Some s \<Rightarrow> LowerCopy s = ''__show_tables_expanded'' \<or> LowerCopy s = ''__show_tables_from_database'') then
        Inr (Some (UtilityPlan ShowTablesSchema SHOW_TABLES [] [] [] [] False))
      else (case relation of
        None \<Rightarrow> Inr None
      | Some name \<Rightarrow>
          let n = LowerCopy name in
          if n = ''tables'' then Inr (Some (UtilityPlan ShowTablesSchema SHOW_TABLES [] [] [] [] False))
          else if n = ''index'' \<or> n = ''indexes'' then Inr (Some (UtilityPlan ShowIndexesSchema SHOW_INDEXES [] [] [] [] False))
          else bind_err (GetTable name c) (\<lambda>r.
            Inr (if r \<noteq> None then Some (UtilityPlan ShowSchemaSchema SHOW_SCHEMA name [] [] [] False) else None))))"

definition drop_names :: "pg_node list \<Rightarrow> string list" where
  "drop_names objects = filter (\<lambda>name. name \<noteq> []) (map NodeToQualifiedName objects)"

definition BindStatement :: "platform \<Rightarrow> pg_statement \<Rightarrow> Catalog \<Rightarrow> error + plan" where
  "BindStatement P stmt c =
     (let unsupported = Inl (RuntimeError (''Unsupported statement type: '' @ tag_text P (Inr stmt))) in
      case stmt of
        PG_IndexStmt relation idxname params \<Rightarrow> bind_index relation idxname params c
      | PG_DropStmt is_index objects missing_ok \<Rightarrow>
          if \<not> is_index then unsupported
          else Inr (UtilityPlan CommandSchema DROP_INDEX [] [] [] (drop_names objects) missing_ok)
      | PG_VariableShowStmt show_set relation \<Rightarrow>
          bind_err (bind_show show_set relation c) (\<lambda>r. case r of None \<Rightarrow> unsupported | Some p \<Rightarrow> Inr p)
      | PG_SelectStmt sel \<Rightarrow> bind_select P sel c
      | PG_InsertStmt table source \<Rightarrow> bind_insert P table source c
      | PG_DeleteStmt table cond \<Rightarrow> bind_delete P table cond c
      | PG_UpdateStmt table sets cond \<Rightarrow> bind_update P table sets cond c
      | PG_OtherStmt _ \<Rightarrow> unsupported)"

definition BindQuery :: "platform \<Rightarrow> string \<Rightarrow> Catalog \<Rightarrow> error + plan" where
  "BindQuery P sql c =
     (case parse P sql of
        Inl msg \<Rightarrow> Inl (RuntimeError (''Parse error: '' @ msg))
      | Inr [] \<Rightarrow> Inl (RuntimeError ''Empty parse tree'')
      | Inr (stmt # _) \<Rightarrow> BindStatement P stmt c)"

end
