(* ===== verification/Optimizer.thy ===== *)
theory Optimizer
  imports Query_Semantics
begin

text \<open>
  The optimizer (\<open>src/optimizer/optimizer.cpp\<close>): a scan with an equality on an indexed column becomes
  an index scan, a nested loop join on an equality of columns a hash join. The code rewrites the children
  of a node in place; the model returns the new plan.
\<close>

section \<open>The rules\<close>

text \<open>An equality of a column with a constant: the column and the expression to look up.\<close>

fun point_predicate :: "expr option \<Rightarrow> (nat \<times> expr) option" where
  "point_predicate (Some (Comparison Cmp_Equal (ColumnValue ti i ty) (Constant v))) = Some (i, Constant v)"
| "point_predicate (Some (Comparison Cmp_Equal (Constant v) (ColumnValue ti i ty))) = Some (i, Constant v)"
| "point_predicate _ = None"

fun find_point_index :: "nat \<Rightarrow> IndexInfo list \<Rightarrow> error + IndexInfo option" where
  "find_point_index col [] = Inr None"
| "find_point_index col (ix # ixs) =
     (if \<not> SupportsPointLookup ix then find_point_index col ixs
      else bind_err (GetLookupAttr ix) (\<lambda>a. if a \<noteq> col then find_point_index col ixs else Inr (Some ix)))"

definition OptimizeSeqScanToIndexScan :: "Catalog option \<Rightarrow> plan \<Rightarrow> error + plan" where
  "OptimizeSeqScanToIndexScan cat p =
     (case (cat, p) of
        (Some c, SeqScanPlan sch table pred) \<Rightarrow>
          (case point_predicate pred of
             None \<Rightarrow> Inr p
           | Some (col, key) \<Rightarrow>
               (case GetTable_oid table c of
                  None \<Rightarrow> Inr p
                | Some info \<Rightarrow>
                    bind_err (GetTableIndexes (ti_name info) c) (\<lambda>ixs.
                    bind_err (find_point_index col ixs) (\<lambda>r.
                      Inr (case r of None \<Rightarrow> p | Some ix \<Rightarrow> IndexScanPlan sch table (ix_oid ix) key pred)))))
      | _ \<Rightarrow> Inr p)"

fun join_columns :: "expr option \<Rightarrow> (expr \<times> expr) option" where
  "join_columns (Some (Comparison Cmp_Equal (ColumnValue lt lc lty) (ColumnValue rt rc rty))) =
     (if lt = 0 \<and> rt = 1 then Some (ColumnValue 0 lc lty, ColumnValue 0 rc rty)
      else if lt = 1 \<and> rt = 0 then Some (ColumnValue 0 rc rty, ColumnValue 0 lc lty)
      else None)"
| "join_columns _ = None"

fun OptimizeNLJToHashJoin :: "plan \<Rightarrow> plan" where
  "OptimizeNLJToHashJoin (NestedLoopJoinPlan sch left right pred) =
     (case join_columns pred of
        None \<Rightarrow> NestedLoopJoinPlan sch left right pred
      | Some (lkey, rkey) \<Rightarrow> HashJoinPlan sch left right lkey rkey)"
| "OptimizeNLJToHashJoin p = p"

definition apply_rules :: "Catalog option \<Rightarrow> plan \<Rightarrow> error + plan" where
  "apply_rules cat p = bind_err (OptimizeSeqScanToIndexScan cat p) (\<lambda>p. Inr (OptimizeNLJToHashJoin p))"

primrec Optimize :: "Catalog option \<Rightarrow> plan \<Rightarrow> error + plan" where
  "Optimize cat (SeqScanPlan sch table pred) = apply_rules cat (SeqScanPlan sch table pred)"
| "Optimize cat (IndexScanPlan sch table index key pred) = apply_rules cat (IndexScanPlan sch table index key pred)"
| "Optimize cat (InsertPlan sch child table) =
     bind_err (Optimize cat child) (\<lambda>child. apply_rules cat (InsertPlan sch child table))"
| "Optimize cat (DeletePlan sch child table) =
     bind_err (Optimize cat child) (\<lambda>child. apply_rules cat (DeletePlan sch child table))"
| "Optimize cat (UpdatePlan sch child table exprs) =
     bind_err (Optimize cat child) (\<lambda>child. apply_rules cat (UpdatePlan sch child table exprs))"
| "Optimize cat (NestedLoopJoinPlan sch left right pred) =
     bind_err (Optimize cat left) (\<lambda>left. bind_err (Optimize cat right) (\<lambda>right.
       apply_rules cat (NestedLoopJoinPlan sch left right pred)))"
| "Optimize cat (HashJoinPlan sch left right lkey rkey) =
     bind_err (Optimize cat left) (\<lambda>left. bind_err (Optimize cat right) (\<lambda>right.
       apply_rules cat (HashJoinPlan sch left right lkey rkey)))"
| "Optimize cat (AggregationPlan sch child group_bys exprs types) =
     bind_err (Optimize cat child) (\<lambda>child. apply_rules cat (AggregationPlan sch child group_bys exprs types))"
| "Optimize cat (SortPlan sch child order_bys) =
     bind_err (Optimize cat child) (\<lambda>child. apply_rules cat (SortPlan sch child order_bys))"
| "Optimize cat (LimitPlan sch child n) = bind_err (Optimize cat child) (\<lambda>child. apply_rules cat (LimitPlan sch child n))"
| "Optimize cat (ProjectionPlan sch child exprs) =
     bind_err (Optimize cat child) (\<lambda>child. apply_rules cat (ProjectionPlan sch child exprs))"
| "Optimize cat (UtilityPlan sch u table index attrs names missing_ok) =
     apply_rules cat (UtilityPlan sch u table index attrs names missing_ok)"

section \<open>The loop over the children\<close>

text \<open>
  The members of \<open>AbstractPlanNode\<close> that the optimizer uses, and its loop, which replaces each child in place by
  the optimized one: \<open>Optimize\<close> is what it computes.
\<close>

datatype PlanType =
    INVALID_PLAN | SEQ_SCAN | INDEX_SCAN | INSERT | DELETE | UPDATE | NESTED_LOOP_JOIN | HASH_JOIN | AGGREGATION | SORT | LIMIT
  | PROJECTION | UTILITY

fun GetType :: "plan \<Rightarrow> PlanType" where
  "GetType (SeqScanPlan _ _ _) = SEQ_SCAN"
| "GetType (IndexScanPlan _ _ _ _ _) = INDEX_SCAN"
| "GetType (InsertPlan _ _ _) = INSERT"
| "GetType (DeletePlan _ _ _) = DELETE"
| "GetType (UpdatePlan _ _ _ _) = UPDATE"
| "GetType (NestedLoopJoinPlan _ _ _ _) = NESTED_LOOP_JOIN"
| "GetType (HashJoinPlan _ _ _ _ _) = HASH_JOIN"
| "GetType (AggregationPlan _ _ _ _ _) = AGGREGATION"
| "GetType (SortPlan _ _ _) = SORT"
| "GetType (LimitPlan _ _ _) = LIMIT"
| "GetType (ProjectionPlan _ _ _) = PROJECTION"
| "GetType (UtilityPlan _ _ _ _ _ _ _) = UTILITY"

fun GetChildren :: "plan \<Rightarrow> plan list" where
  "GetChildren (InsertPlan _ child _) = [child]"
| "GetChildren (DeletePlan _ child _) = [child]"
| "GetChildren (UpdatePlan _ child _ _) = [child]"
| "GetChildren (NestedLoopJoinPlan _ left right _) = [left, right]"
| "GetChildren (HashJoinPlan _ left right _ _) = [left, right]"
| "GetChildren (AggregationPlan _ child _ _ _) = [child]"
| "GetChildren (SortPlan _ child _) = [child]"
| "GetChildren (LimitPlan _ child _) = [child]"
| "GetChildren (ProjectionPlan _ child _) = [child]"
| "GetChildren _ = []"

definition GetChildAt :: "nat \<Rightarrow> plan \<Rightarrow> error + plan" where
  "GetChildAt i p = (if i < length (GetChildren p) then Inr (GetChildren p ! i) else Inl UndefinedBehaviour)"

fun SetChildAt :: "nat \<Rightarrow> plan \<Rightarrow> plan \<Rightarrow> error + plan" where
  "SetChildAt 0 ch (InsertPlan sch child table) = Inr (InsertPlan sch ch table)"
| "SetChildAt 0 ch (DeletePlan sch child table) = Inr (DeletePlan sch ch table)"
| "SetChildAt 0 ch (UpdatePlan sch child table exprs) = Inr (UpdatePlan sch ch table exprs)"
| "SetChildAt 0 ch (NestedLoopJoinPlan sch left right pred) = Inr (NestedLoopJoinPlan sch ch right pred)"
| "SetChildAt (Suc 0) ch (NestedLoopJoinPlan sch left right pred) = Inr (NestedLoopJoinPlan sch left ch pred)"
| "SetChildAt 0 ch (HashJoinPlan sch left right lkey rkey) = Inr (HashJoinPlan sch ch right lkey rkey)"
| "SetChildAt (Suc 0) ch (HashJoinPlan sch left right lkey rkey) = Inr (HashJoinPlan sch left ch lkey rkey)"
| "SetChildAt 0 ch (AggregationPlan sch child group_bys exprs types) = Inr (AggregationPlan sch ch group_bys exprs types)"
| "SetChildAt 0 ch (SortPlan sch child order_bys) = Inr (SortPlan sch ch order_bys)"
| "SetChildAt 0 ch (LimitPlan sch child n) = Inr (LimitPlan sch ch n)"
| "SetChildAt 0 ch (ProjectionPlan sch child exprs) = Inr (ProjectionPlan sch ch exprs)"
| "SetChildAt _ ch p = Inl UndefinedBehaviour"

definition optimize_children :: "(plan \<Rightarrow> error + plan) \<Rightarrow> plan \<Rightarrow> error + plan" where
  "optimize_children optimize p =
     fold_err (\<lambda>p i. bind_err (GetChildAt i p) (\<lambda>ch. bind_err (optimize ch) (\<lambda>ch. SetChildAt i ch p))) p [0..<length (GetChildren p)]"

lemma bind_err_assoc: "bind_err (bind_err m f) g = bind_err m (\<lambda>x. bind_err (f x) g)"
  by (cases m) simp_all

theorem Optimize_loop: "Optimize cat p = bind_err (optimize_children (Optimize cat) p) (apply_rules cat)"
  by (cases p) (simp_all add: optimize_children_def GetChildAt_def bind_err_assoc upt_rec)

text \<open>The output schema survives the optimizer, and a node changes its type only as the two rules say.\<close>

lemma apply_rules_type:
  "apply_rules cat p = Inr p' \<Longrightarrow> GetType p' = GetType p \<or> GetType p = SEQ_SCAN \<and> GetType p' = INDEX_SCAN \<or>
     GetType p = NESTED_LOOP_JOIN \<and> GetType p' = HASH_JOIN"
  by (cases p)
    (auto simp: apply_rules_def OptimizeSeqScanToIndexScan_def bind_err_Inr split: option.splits prod.splits)

theorem Optimize_type:
  assumes "Optimize cat p = Inr p'"
  shows "GetType p' = GetType p \<or> GetType p = SEQ_SCAN \<and> GetType p' = INDEX_SCAN \<or> GetType p = NESTED_LOOP_JOIN \<and> GetType p' = HASH_JOIN"
proof -
  obtain q where q: "optimize_children (Optimize cat) p = Inr q" "apply_rules cat q = Inr p'"
    using assms by (subst (asm) Optimize_loop) (auto simp: bind_err_Inr)
  have "GetType q = GetType p" using q(1)
    by (cases p) (auto simp: optimize_children_def GetChildAt_def bind_err_Inr upt_rec)
  with apply_rules_type [OF q(2)] show ?thesis by simp
qed

section \<open>Index scans\<close>

text \<open>An index holds exactly the live rows of its table.\<close>

definition index_fresh :: "Catalog \<Rightarrow> tables_rows \<Rightarrow> IndexInfo \<Rightarrow> bool" where
  "index_fresh c R ix \<longleftrightarrow>
     (SupportsPointLookup ix \<longrightarrow>
        (\<forall>oid info. GetTable_oid oid c = Some info \<longrightarrow> ti_name info = ix_table ix \<longrightarrow>
           int_rid_map ix = index_of (ti_schema info) (hd (key_attrs ix)) (R oid)))"

definition indexes_fresh :: "Catalog \<Rightarrow> tables_rows \<Rightarrow> bool" where
  "indexes_fresh c R \<longleftrightarrow> (\<forall>ix \<in> set (GetAllIndexes c). index_fresh c R ix)"

lemma find_point_index_ok:
  "\<forall>ix \<in> set ixs. key_attrs ix \<noteq> [] \<Longrightarrow>
   \<exists>r. find_point_index col ixs = Inr r \<and> (\<forall>ix. r = Some ix \<longrightarrow> ix \<in> set ixs \<and> SupportsPointLookup ix \<and> hd (key_attrs ix) = col)"
  by (induction ixs) (auto simp: GetLookupAttr_def split: list.splits)

text \<open>What a point predicate says of a row, once it evaluates without an error.\<close>

lemma point_predicate_test:
  assumes "point_predicate pred = Some (col, key)" and "test_predicate F pred t sch = Inr b"
  obtains v w where "key = Constant v" and "Tuple_GetValue_schema sch t col = Inr w" and "type_id w = type_id v"
    and "type_id v = INTEGER \<Longrightarrow> b = (integer w = integer v)"
proof -
  from assms(1) obtain v ti ty where k: "key = Constant v"
    "pred = Some (Comparison Cmp_Equal (ColumnValue ti col ty) (Constant v)) \<or> pred = Some (Comparison Cmp_Equal (Constant v) (ColumnValue ti col ty))"
    by (cases pred rule: point_predicate.cases) auto
  from k(2) assms(2) obtain w where "Tuple_GetValue_schema sch t col = Inr w"
    "(\<exists>x. CompareEquals F w v = Inr x \<and> GetAsBoolean x = Inr b) \<or> (\<exists>x. CompareEquals F v w = Inr x \<and> GetAsBoolean x = Inr b)"
    by (auto simp: test_predicate_def PerformComparison_def bind_err_Inr)
  moreover from this(2) have "type_id w = type_id v" by (auto simp: CompareEquals_def compare_def split: if_splits)
  moreover have "b = (integer w = integer v)" if "type_id v = INTEGER"
    using calculation that by (auto simp: CompareEquals_def compare_def GetAsBoolean_def)
  ultimately show thesis using that k(1) by blast
qed

lemma concat_err_filter:
  assumes "concat_err (map_err f rows) = Inr out" and "\<And>row. row \<in> set rows \<Longrightarrow> \<not> P row \<Longrightarrow> f row = Inr []"
  shows "concat_err (map_err f (filter P rows)) = Inr out"
  using assms
proof (induction rows arbitrary: out)
  case (Cons row rows)
  from Cons.prems(1) obtain as out' where o: "f row = Inr as" "concat_err (map_err f rows) = Inr out'" "out = as @ out'"
    unfolding concat_err_Cons by blast
  have "concat_err (map_err f (filter P rows)) = Inr out'" using Cons.IH [OF o(2)] Cons.prems(2) by simp
  then show ?case using o Cons.prems(2) [of row]
    by (cases "P row") (auto simp: concat_err_Cons simp del: map_err.simps)
qed simp

lemma map_err_map: "map_err f (map g xs) = map_err (f \<circ> g) xs"
  by (induction xs) simp_all

lemma map_err_cong: "(\<And>x. x \<in> set xs \<Longrightarrow> f x = g x) \<Longrightarrow> map_err f xs = map_err g xs"
  by (induction xs) simp_all

lemma concat_err_all: "concat_err (map_err f rows) = Inr out \<Longrightarrow> row \<in> set rows \<Longrightarrow> \<exists>as. f row = Inr as"
  by (induction rows arbitrary: out) (auto simp: concat_err_def bind_err_Inr)

lemma index_scan_same:
  assumes "db_rows c R" and "GetTable_oid table c = Some info" and "point_predicate pred = Some (col, key)"
    and "GetIndex_oid index c = Some ix" and "SupportsPointLookup ix"
    and fresh: "int_rid_map ix = index_of (ti_schema info) col (R table)"
    and key: "key = Constant v" "type_id v = INTEGER" "\<not> is_null v"
    and sem: "sem F c R (SeqScanPlan sch table pred) = Inr rows"
  shows "sem F c R (IndexScanPlan sch table index key pred) = Inr rows"
proof -
  let ?sch = "ti_schema info" and ?R = "R table"
  let ?f = "scan_row F pred ?sch" and ?k = "integer v"
  let ?g = "\<lambda>rid. case map_of ?R rid of None \<Rightarrow> Inl UndefinedBehaviour | Some bs \<Rightarrow> ?f (rid, bs)"
  let ?P = "\<lambda>row. row_key ?sch col row = Inr ?k"
  from assms(1,2) obtain ps where "heap_ok (cat_store c) (ti_first info) ps" "?R = heap_rows (cat_store c) ps"
    unfolding db_rows_def by blast
  then have dist: "distinct (map fst ?R)" using heap_rows_distinct by (auto simp: heap_ok_def)
  have scan: "concat_err (map_err ?f ?R) = Inr rows" using sem assms(2) by simp
  have skip: "?f row = Inr []" if row: "row \<in> set ?R" "\<not> ?P row" for row
  proof -
    obtain as where as: "?f row = Inr as" using concat_err_all [OF scan row(1)] by blast
    then show ?thesis
    proof (cases rule: scan_row_cases)
      case (keep t)
      from point_predicate_test [OF assms(3) keep(1)] obtain v' w where
        "key = Constant v'" "Tuple_GetValue_schema ?sch (stored_tuple row) col = Inr w" "type_id w = type_id v'"
        "type_id v' = INTEGER \<Longrightarrow> True = (integer w = integer v')" by metis
      then have "?P row" using key by (simp add: row_key_def GetAsInteger_def)
      then show ?thesis using row(2) by simp
    qed (use as in simp)
  qed
  have rids: "index_rids F (GetIndex_oid index c) key = Inr (map fst (filter ?P ?R))"
    using assms(4,5) key fresh by (auto simp: index_rids_def LookupInteger_def index_of_def rids_with_def split: option.splits)
  have "map_err ?g (map fst (filter ?P ?R)) = map_err ?f (filter ?P ?R)"
    unfolding map_err_map
  proof (rule map_err_cong)
    fix row assume "row \<in> set (filter ?P ?R)"
    then have "map_of ?R (fst row) = Some (snd row)" using dist by (simp add: map_of_eq_Some_iff)
    then show "(?g \<circ> fst) row = ?f row" by simp
  qed
  then have "concat_err (map_err ?g (map fst (filter ?P ?R))) = Inr rows"
    using concat_err_filter [OF scan, of ?P] skip by simp
  then show ?thesis using assms(2) rids by simp
qed

lemma GetTableIndexes_ok:
  assumes "cat_ok c"
  shows "\<exists>ixs. GetTableIndexes table c = Inr ixs \<and> (\<forall>ix \<in> set ixs. map_of (indexes c) (ix_oid ix) = Some ix \<and> ix_table ix = table)"
proof (cases "index_names c table")
  case None
  then show ?thesis by (simp add: GetTableIndexes_def)
next
  case (Some names)
  have dist: "distinct (map fst names)" using cat_okD(5) [OF assms Some] by blast
  have entry: "\<exists>ix. map_of (indexes c) oid = Some ix \<and> ix_table ix = table \<and> ix_oid ix = oid" if "(name, oid) \<in> set names" for name oid
  proof -
    have "map_of names name = Some oid" using dist that by simp
    then have "\<exists>ix. map_of (indexes c) oid = Some ix \<and> ix_name ix = name \<and> ix_table ix = table"
      using cat_okD(6) [OF assms, of table name oid] Some by blast
    then show ?thesis using cat_okD(7) [OF assms] by blast
  qed
  have "\<exists>ixs. map_err (\<lambda>(name, oid). map_at (map_of (indexes c) oid)) ns = Inr ixs \<and>
      (\<forall>ix \<in> set ixs. map_of (indexes c) (ix_oid ix) = Some ix \<and> ix_table ix = table)" if "set ns \<subseteq> set names" for ns
    using that
  proof (induction ns)
    case (Cons no ns)
    obtain name oid where no: "no = (name, oid)" by (cases no)
    from entry [of name oid] Cons.prems no obtain ix where ix: "map_of (indexes c) oid = Some ix" "ix_table ix = table" "ix_oid ix = oid" by auto
    moreover obtain ixs where "map_err (\<lambda>(name, oid). map_at (map_of (indexes c) oid)) ns = Inr ixs"
      "\<forall>ix \<in> set ixs. map_of (indexes c) (ix_oid ix) = Some ix \<and> ix_table ix = table" using Cons by auto
    ultimately show ?case by (simp add: no map_at_def)
  qed simp
  then show ?thesis using Some by (simp add: GetTableIndexes_def)
qed

text \<open>
  Plans whose point predicates compare with a non-null integer, as an index lookup assumes, and whose nested
  loop joins stay as they are.
\<close>

definition point_ok :: "expr option \<Rightarrow> bool" where
  "point_ok pred \<longleftrightarrow> (\<forall>col v. point_predicate pred = Some (col, Constant v) \<longrightarrow> type_id v = INTEGER \<and> \<not> is_null v)"

primrec points_ok :: "plan \<Rightarrow> bool" where
  "points_ok (SeqScanPlan sch table pred) \<longleftrightarrow> point_ok pred"
| "points_ok (IndexScanPlan sch table index key pred) \<longleftrightarrow> True"
| "points_ok (InsertPlan sch child table) \<longleftrightarrow> points_ok child"
| "points_ok (DeletePlan sch child table) \<longleftrightarrow> points_ok child"
| "points_ok (UpdatePlan sch child table exprs) \<longleftrightarrow> points_ok child"
| "points_ok (NestedLoopJoinPlan sch left right pred) \<longleftrightarrow> points_ok left \<and> points_ok right \<and> join_columns pred = None"
| "points_ok (HashJoinPlan sch left right lkey rkey) \<longleftrightarrow> points_ok left \<and> points_ok right"
| "points_ok (AggregationPlan sch child group_bys exprs types) \<longleftrightarrow> points_ok child"
| "points_ok (SortPlan sch child order_bys) \<longleftrightarrow> points_ok child"
| "points_ok (LimitPlan sch child n) \<longleftrightarrow> points_ok child"
| "points_ok (ProjectionPlan sch child exprs) \<longleftrightarrow> points_ok child"
| "points_ok (UtilityPlan sch u table index attrs names missing_ok) \<longleftrightarrow> True"

lemma scan_rule_ok:
  assumes "cat_ok c" and "db_rows c R" and "indexes_fresh c R" and "point_ok pred"
  shows "\<exists>p'. OptimizeSeqScanToIndexScan (Some c) (SeqScanPlan sch table pred) = Inr p' \<and> GetOutputSchema p' = sch \<and>
    OptimizeNLJToHashJoin p' = p' \<and>
    (\<forall>rows. sem F c R (SeqScanPlan sch table pred) = Inr rows \<longrightarrow> sem F c R p' = Inr rows)"
proof (cases "point_predicate pred")
  case None
  then show ?thesis by (simp add: OptimizeSeqScanToIndexScan_def)
next
  case (Some ck)
  obtain col key where ck: "ck = (col, key)" by (cases ck)
  obtain v where key: "key = Constant v" using Some ck by (cases pred rule: point_predicate.cases) auto
  have v: "type_id v = INTEGER" "\<not> is_null v" using assms(4) Some ck key by (auto simp: point_ok_def)
  show ?thesis
  proof (cases "GetTable_oid table c")
    case None
    then show ?thesis using Some ck by (simp add: OptimizeSeqScanToIndexScan_def)
  next
    case info: (Some info)
    from GetTableIndexes_ok [OF assms(1)] obtain ixs where ixs: "GetTableIndexes (ti_name info) c = Inr ixs"
      "\<forall>ix \<in> set ixs. map_of (indexes c) (ix_oid ix) = Some ix \<and> ix_table ix = ti_name info" by blast
    have "\<forall>ix \<in> set ixs. key_attrs ix \<noteq> []" using ixs(2) cat_okD(7) [OF assms(1)] by blast
    from find_point_index_ok [OF this, of col] obtain r where r: "find_point_index col ixs = Inr r"
      "\<forall>ix. r = Some ix \<longrightarrow> ix \<in> set ixs \<and> SupportsPointLookup ix \<and> hd (key_attrs ix) = col" by blast
    show ?thesis
    proof (cases r)
      case None
      then show ?thesis using Some ck info ixs(1) r(1) by (simp add: OptimizeSeqScanToIndexScan_def)
    next
      case (Some ix)
      with r(2) ixs(2) have ix: "SupportsPointLookup ix" "hd (key_attrs ix) = col" "GetIndex_oid (ix_oid ix) c = Some ix" "ix_table ix = ti_name info"
        by (auto simp: GetIndex_oid_def)
      have "ix \<in> set (GetAllIndexes c)" using ix(3) map_of_SomeD by (force simp: GetIndex_oid_def GetAllIndexes_def)
      then have "int_rid_map ix = index_of (ti_schema info) col (R table)"
        using assms(3) ix info unfolding indexes_fresh_def index_fresh_def by metis
      from index_scan_same [OF assms(2) info _ ix(3,1) this key v] \<open>point_predicate pred = Some ck\<close> ck
      have "sem F c R (SeqScanPlan sch table pred) = Inr rows \<Longrightarrow> sem F c R (IndexScanPlan sch table (ix_oid ix) key pred) = Inr rows" for rows
        by blast
      then show ?thesis using \<open>point_predicate pred = Some ck\<close> ck info ixs(1) r(1) Some
        by (simp add: OptimizeSeqScanToIndexScan_def del: sem.simps)
    qed
  qed
qed

lemma Optimize_ok:
  assumes "cat_ok c" and "db_rows c R" and "indexes_fresh c R"
  shows "points_ok p \<Longrightarrow> \<exists>p'. Optimize (Some c) p = Inr p' \<and> GetOutputSchema p' = GetOutputSchema p \<and>
    (\<forall>rows. sem F c R p = Inr rows \<longrightarrow> sem F c R p' = Inr rows)"
proof (induction p)
  case (SeqScanPlan sch table pred)
  then show ?case using scan_rule_ok [OF assms, of pred sch table F] by (auto simp: apply_rules_def simp del: sem.simps)
next
  case (NestedLoopJoinPlan sch left right pred)
  then show ?case by (auto simp: apply_rules_def OptimizeSeqScanToIndexScan_def bind_err_Inr)
next
  case (HashJoinPlan sch left right lkey rkey)
  then show ?case by (auto simp: apply_rules_def OptimizeSeqScanToIndexScan_def bind_err_Inr)
qed (auto simp: apply_rules_def OptimizeSeqScanToIndexScan_def bind_err_Inr simp del: sem.simps(1,2))

end
