(* ===== verification/Query_Equivalence.thy ===== *)
theory Query_Equivalence
  imports Optimizer "HOL-Library.Multiset"
begin

text \<open>
  Two ways to compute the same join: the hash join compares the keys as strings, the nested loop join as values.
  For keys of one type other than FLOAT that are not null the strings are equal exactly when the values are, so
  both joins produce the same rows, in different orders. And sorting: a permutation, in order.
\<close>

section \<open>Keys as strings\<close>

primrec number_of :: "nat \<Rightarrow> string \<Rightarrow> nat" where
  "number_of n [] = n"
| "number_of n (c # cs) = number_of (10 * n + (of_char c - 48)) cs"

lemma number_of_append: "number_of n (s @ t) = number_of (number_of n s) t"
  by (induction s arbitrary: n) simp_all

lemma of_char_digit: "d < 10 \<Longrightarrow> (of_char (char_of (48 + d) :: char) :: nat) = 48 + d"
  by simp

lemma number_of_digits: "number_of 0 (digits_of n) = n"
proof (induction n rule: digits_of.induct)
  case (1 n)
  then show ?case by (subst digits_of.simps) (simp add: of_char_digit number_of_append)
qed

lemma digits_of_eq: "digits_of m = digits_of n \<longleftrightarrow> m = n"
  by (metis number_of_digits)

lemma digits_not_minus: "\<exists>c s. digits_of n = c # s \<and> c \<noteq> CHR ''-''"
proof (induction n rule: digits_of.induct)
  case (1 n)
  have "(char_of (48 + n) :: char) \<noteq> CHR ''-''" if "n < 10"
  proof
    assume "(char_of (48 + n) :: char) = CHR ''-''"
    then have "(of_char (char_of (48 + n) :: char) :: nat) = of_char CHR ''-''" by simp
    then show False using of_char_digit [OF that] by simp
  qed
  then show ?case using 1 by (subst digits_of.simps) auto
qed

lemma int_to_string_eq: "int_to_string i = int_to_string j \<longleftrightarrow> i = j"
proof
  assume eq: "int_to_string i = int_to_string j"
  have "nat (- i) = nat (- j)" if "i < 0" "j < 0" using eq that by (simp add: int_to_string_def digits_of_eq)
  moreover have "nat i = nat j" if "\<not> i < 0" "\<not> j < 0" using eq that by (simp add: int_to_string_def digits_of_eq)
  moreover have "(i < 0) = (j < 0)" using eq digits_not_minus [of "nat i"] digits_not_minus [of "nat j"]
    by (auto simp: int_to_string_def split: if_splits)
  ultimately show "i = j" by (cases "i < 0") auto
qed simp

text \<open>Values that may be used as keys of a hash join.\<close>

definition join_key :: "TypeId \<Rightarrow> Value \<Rightarrow> bool" where
  "join_key ty v \<longleftrightarrow> type_id v = ty \<and> \<not> is_null v \<and> (ty = INTEGER \<or> ty = VARCHAR \<or> ty = BOOLEAN)"

lemma key_strings:
  assumes "join_key ty v" and "join_key ty w"
  shows "CompareEquals F v w = Inr (Value_bool BOOLEAN (Value_ToString F v = Value_ToString F w))"
  using assms by (auto simp: join_key_def CompareEquals_def compare_def Value_ToString_def int_to_string_eq)

section \<open>Sums over two lists\<close>

lemma mset_concat_swap:
  "mset (concat (map (\<lambda>x. concat (map (f x) ys)) xs)) = mset (concat (map (\<lambda>y. concat (map (\<lambda>x. f x y) xs)) ys))"
proof (induction xs)
  case Nil
  then show ?case by (induction ys) simp_all
next
  case (Cons x xs)
  have "mset (concat (map (\<lambda>y. f x y @ concat (map (\<lambda>x. f x y) xs)) ys)) =
      mset (concat (map (f x) ys)) + mset (concat (map (\<lambda>y. concat (map (\<lambda>x. f x y) xs)) ys))"
    by (induction ys) simp_all
  then show ?case using Cons by simp
qed

lemma map_err_all:
  "map_err f xs = Inr ys \<longleftrightarrow> (\<forall>x \<in> set xs. \<exists>y. f x = Inr y) \<and> ys = map (\<lambda>x. projr (f x)) xs"
  by (induction xs arbitrary: ys) (auto simp: bind_err_Inr)

lemma concat_err_eq:
  "concat_err (map_err f xs) = Inr ys \<longleftrightarrow> (\<forall>x \<in> set xs. \<exists>y. f x = Inr y) \<and> ys = concat (map (\<lambda>x. projr (f x)) xs)"
  by (auto simp: concat_err_def bind_err_Inr map_err_all)

section \<open>The joins\<close>

text \<open>The left rows under a key, in the order in which they were inserted.\<close>

definition bucket :: "(row \<Rightarrow> string) \<Rightarrow> row list \<Rightarrow> string \<Rightarrow> Tuple list" where
  "bucket s ls k = map fst (filter (\<lambda>l. s l = k) ls)"

lemma hash_built:
  assumes "\<forall>l \<in> set ls. Evaluate F key (Some (fst l, sch)) = Inr (kv l)"
  shows "\<exists>h. fold_err (hash_insert F key sch) Map.empty ls = Inr h \<and>
    (\<forall>k. (case h k of None \<Rightarrow> [] | Some ts \<Rightarrow> ts) = bucket (\<lambda>l. Value_ToString F (kv l)) ls k)"
proof -
  have "\<exists>h'. fold_err (hash_insert F key sch) h ls = Inr h' \<and>
    (\<forall>k. (case h' k of None \<Rightarrow> [] | Some ts \<Rightarrow> ts) =
      (case h k of None \<Rightarrow> [] | Some ts \<Rightarrow> ts) @ bucket (\<lambda>l. Value_ToString F (kv l)) ls k)" for h
    using assms
  proof (induction ls arbitrary: h)
    case Nil
    then show ?case by (simp add: bucket_def)
  next
    case (Cons l ls)
    let ?k = "Value_ToString F (kv l)"
    let ?h = "h(?k \<mapsto> (case h ?k of None \<Rightarrow> [] | Some ts \<Rightarrow> ts) @ [fst l])"
    have "hash_insert F key sch h l = Inr ?h" using Cons.prems by (simp add: hash_insert_def Let_def)
    moreover have "\<forall>l \<in> set ls. Evaluate F key (Some (fst l, sch)) = Inr (kv l)" using Cons.prems by simp
    from Cons.IH [OF this, of ?h] obtain h' where "fold_err (hash_insert F key sch) ?h ls = Inr h'"
      "\<forall>k. (case h' k of None \<Rightarrow> [] | Some ts \<Rightarrow> ts) = (case ?h k of None \<Rightarrow> [] | Some ts \<Rightarrow> ts) @ bucket (\<lambda>l. Value_ToString F (kv l)) ls k"
      by blast
    ultimately show ?case by (auto simp: bucket_def)
  qed
  from this [of Map.empty] show ?thesis by simp
qed

lemma hash_matches_bucket:
  assumes "Evaluate F key (Some (fst r, rs)) = Inr v" and "(case h (Value_ToString F v) of None \<Rightarrow> [] | Some ts \<Rightarrow> ts) = ts"
  shows "hash_matches F key ls rs h r = map_err (\<lambda>lt. join_row ls rs lt (fst r)) ts"
  using assms by (auto simp: hash_matches_def split: option.splits)

text \<open>The equality that the optimizer turns into a hash join.\<close>

lemma join_columns_match:
  assumes "join_columns pred = Some (lkey, rkey)"
    and "Evaluate F lkey (Some (lt, ls)) = Inr v" and "Evaluate F rkey (Some (rt, rs)) = Inr w"
    and "join_key ty v" and "join_key ty w"
  shows "join_match F pred ls rs lt rt = Inr (Value_ToString F v = Value_ToString F w)"
proof -
  note keys = key_strings [OF assms(4,5), of F] key_strings [OF assms(5,4), of F]
  obtain a i aty b j bty where p: "pred = Some (Comparison Cmp_Equal (ColumnValue a i aty) (ColumnValue b j bty))"
    using assms(1) by (cases pred rule: join_columns.cases) auto
  from assms(1-3) show ?thesis unfolding p
    by (auto simp: join_match_def PerformComparison_def keys GetAsBoolean_def split: if_splits)
qed

lemma hash_join_same_rows:
  assumes "join_columns pred = Some (lkey, rkey)"
    and "sem F c R left = Inr ls" and "sem F c R right = Inr rs"
    and lkeys: "\<forall>l \<in> set ls. \<exists>v. Evaluate F lkey (Some (fst l, GetOutputSchema left)) = Inr v \<and> join_key ty v"
    and rkeys: "\<forall>r \<in> set rs. \<exists>v. Evaluate F rkey (Some (fst r, GetOutputSchema right)) = Inr v \<and> join_key ty v"
    and nlj: "sem F c R (NestedLoopJoinPlan sch left right pred) = Inr rows"
  shows "\<exists>rows'. sem F c R (HashJoinPlan sch left right lkey rkey) = Inr rows' \<and> mset (map fst rows') = mset (map fst rows)"
proof -
  let ?L = "GetOutputSchema left" and ?R = "GetOutputSchema right"
  obtain kl where kl: "\<forall>l \<in> set ls. Evaluate F lkey (Some (fst l, ?L)) = Inr (kl l) \<and> join_key ty (kl l)" using lkeys by metis
  obtain kr where kr: "\<forall>r \<in> set rs. Evaluate F rkey (Some (fst r, ?R)) = Inr (kr r) \<and> join_key ty (kr r)" using rkeys by metis
  let ?same = "\<lambda>l r. Value_ToString F (kl l) = Value_ToString F (kr r)"
  define J where "J l r = (if ?same l r then [projr (join_row ?L ?R (fst l) (fst r))] else [])" for l r
  have match: "join_match F pred ?L ?R (fst l) (fst r) = Inr (?same l r)" if "l \<in> set ls" "r \<in> set rs" for l r
    using join_columns_match [OF assms(1)] kl kr that by blast
  let ?inner = "\<lambda>l. concat_err (map_err (join_pair F pred ?L ?R l) rs)"
  from nlj assms(2,3) have out: "concat_err (map_err ?inner ls) = Inr rows" by simp
  then have pairs: "\<exists>y. join_pair F pred ?L ?R l r = Inr y" if "l \<in> set ls" "r \<in> set rs" for l r
    using that unfolding concat_err_eq by blast
  have ok: "\<exists>t. join_row ?L ?R (fst l) (fst r) = Inr t" if "l \<in> set ls" "r \<in> set rs" "?same l r" for l r
    using pairs [OF that(1,2)] match [OF that(1,2)] that(3) by (auto simp: join_pair_def bind_err_Inr)
  have pair: "map fst (projr (join_pair F pred ?L ?R l r)) = J l r" if "l \<in> set ls" "r \<in> set rs" for l r
    using ok [OF that] match [OF that] by (auto simp: join_pair_def J_def)
  have "map fst (projr (?inner l)) = concat (map (J l) rs)" if "l \<in> set ls" for l
  proof -
    have "?inner l = Inr (concat (map (\<lambda>r. projr (join_pair F pred ?L ?R l r)) rs))" using pairs that by (simp add: concat_err_eq)
    then show ?thesis using pair [OF that] by (simp add: map_concat comp_def cong: map_cong)
  qed
  moreover have "rows = concat (map (\<lambda>l. projr (?inner l)) ls)" using out by (simp add: concat_err_eq)
  ultimately have rows: "map fst rows = concat (map (\<lambda>l. concat (map (J l) rs)) ls)"
    by (simp add: map_concat comp_def cong: map_cong)
  obtain h where h: "fold_err (hash_insert F lkey ?L) Map.empty ls = Inr h"
    "\<forall>k. (case h k of None \<Rightarrow> [] | Some ts \<Rightarrow> ts) = bucket (\<lambda>l. Value_ToString F (kl l)) ls k"
    using hash_built [of ls F lkey ?L kl] kl by blast
  have probe: "hash_matches F rkey ?L ?R h r = Inr (concat (map (\<lambda>l. J l r) ls))" if r: "r \<in> set rs" for r
  proof -
    have "hash_matches F rkey ?L ?R h r =
        map_err (\<lambda>lt. join_row ?L ?R lt (fst r)) (map fst (filter (\<lambda>l. ?same l r) ls))"
      using hash_matches_bucket [of F rkey r ?R "kr r" h _ ?L] kr r h(2) by (simp add: bucket_def)
    moreover have "map (\<lambda>l. projr (join_row ?L ?R (fst l) (fst r))) (filter (\<lambda>l. ?same l r) ls) = concat (map (\<lambda>l. J l r) ls)"
      by (induction ls) (simp_all add: J_def)
    ultimately show ?thesis using ok r by (auto simp: map_err_all comp_def)
  qed
  have "concat_err (map_err (hash_matches F rkey ?L ?R h) rs) = Inr (concat (map (\<lambda>r. concat (map (\<lambda>l. J l r) ls)) rs))"
    using probe by (simp add: concat_err_eq cong: map_cong)
  then have sem: "sem F c R (HashJoinPlan sch left right lkey rkey) = Inr (unstored (concat (map (\<lambda>r. concat (map (\<lambda>l. J l r) ls)) rs)))"
    using assms(2,3) h(1) by simp
  have ts: "map fst (unstored ts) = ts" for ts by (simp add: unstored_def comp_def)
  show ?thesis by (intro exI conjI, rule sem) (simp only: ts rows mset_concat_swap [of J rs ls])
qed

section \<open>Sorting\<close>

text \<open>The order of keys that the comparator of \<open>SortExecutor\<close> is meant for: integers or strings.\<close>

definition val_same :: "Value \<Rightarrow> Value \<Rightarrow> bool" where
  "val_same v w \<longleftrightarrow> (if type_id v = INTEGER then integer v = integer w else varchar v = varchar w)"

definition val_less :: "Value \<Rightarrow> Value \<Rightarrow> bool" where
  "val_less v w \<longleftrightarrow> (if type_id v = INTEGER then integer v < integer w else string_less (varchar v) (varchar w))"

definition ordered_type :: "TypeId \<Rightarrow> bool" where
  "ordered_type ty \<longleftrightarrow> ty = INTEGER \<or> ty = VARCHAR"

lemma val_order:
  assumes "ordered_type ty" and "type_id u = ty" and "type_id v = ty" and "type_id w = ty"
  shows "val_same v v" and "val_same v w \<longleftrightarrow> val_same w v" and "val_same u v \<Longrightarrow> val_same v w \<Longrightarrow> val_same u w"
    and "val_less v w \<Longrightarrow> \<not> val_same v w \<and> \<not> val_less w v" and "val_same v w \<or> val_less v w \<or> val_less w v"
    and "val_less u v \<Longrightarrow> val_less v w \<Longrightarrow> val_less u w"
    and "val_same u v \<Longrightarrow> val_less v w \<longleftrightarrow> val_less u w" and "val_same u v \<Longrightarrow> val_less w v \<longleftrightarrow> val_less w u"
  using assms string_less_total [of "varchar v" "varchar w"]
  by (auto simp: val_same_def val_less_def ordered_type_def dest: string_less_antisym intro: string_less_trans)

definition sort_key :: "float_ops \<Rightarrow> Schema \<Rightarrow> Tuple set \<Rightarrow> bool \<times> expr \<Rightarrow> bool" where
  "sort_key F sch T ob \<longleftrightarrow>
     (\<exists>ty. ordered_type ty \<and> (\<forall>t \<in> T. \<exists>v. Evaluate F (snd ob) (Some (t, sch)) = Inr v \<and> type_id v = ty))"

lemma sort_less_step:
  assumes "ordered_type ty" and "type_id v = ty" and "type_id w = ty"
    and "Evaluate F e (Some (a, sch)) = Inr v" and "Evaluate F e (Some (b, sch)) = Inr w"
  shows "sort_less F sch ((asc, e) # obs) a b =
    (if val_same v w then sort_less F sch obs a b else Inr (if asc then val_less v w else val_less w v))"
  using assms
  by (auto simp: ordered_type_def CompareEquals_def CompareLessThan_def CompareGreaterThan_def compare_def GetAsBoolean_def
      val_same_def val_less_def)

text \<open>The comparator is a strict weak order, as \<open>std::sort\<close> requires, and never throws.\<close>

definition weak_order :: "'a set \<Rightarrow> ('a \<Rightarrow> 'a \<Rightarrow> bool) \<Rightarrow> bool" where
  "weak_order T L \<longleftrightarrow>
     (\<forall>a \<in> T. \<forall>b \<in> T. L a b \<longrightarrow> \<not> L b a) \<and> (\<forall>a \<in> T. \<forall>b \<in> T. \<forall>c \<in> T. L a c \<longrightarrow> L a b \<or> L b c)"

lemma weak_order_lex:
  assumes "weak_order T L"
    and same: "\<And>a b. a \<in> T \<Longrightarrow> b \<in> T \<Longrightarrow> same a b \<longleftrightarrow> same b a"
      "\<And>a b c. a \<in> T \<Longrightarrow> b \<in> T \<Longrightarrow> c \<in> T \<Longrightarrow> same a b \<Longrightarrow> same b c \<Longrightarrow> same a c"
    and lt: "\<And>a b. a \<in> T \<Longrightarrow> b \<in> T \<Longrightarrow> lt a b \<Longrightarrow> \<not> same a b \<and> \<not> lt b a"
      "\<And>a b. a \<in> T \<Longrightarrow> b \<in> T \<Longrightarrow> same a b \<or> lt a b \<or> lt b a"
      "\<And>a b c. a \<in> T \<Longrightarrow> b \<in> T \<Longrightarrow> c \<in> T \<Longrightarrow> lt a b \<Longrightarrow> lt b c \<Longrightarrow> lt a c"
      "\<And>a b c. a \<in> T \<Longrightarrow> b \<in> T \<Longrightarrow> c \<in> T \<Longrightarrow> same a b \<Longrightarrow> lt b c \<longleftrightarrow> lt a c"
      "\<And>a b c. a \<in> T \<Longrightarrow> b \<in> T \<Longrightarrow> c \<in> T \<Longrightarrow> same a b \<Longrightarrow> lt c b \<longleftrightarrow> lt c a"
  shows "weak_order T (\<lambda>a b. if same a b then L a b else lt a b)"
proof -
  let ?L = "\<lambda>a b. if same a b then L a b else lt a b"
  have "\<not> ?L b a" if T: "a \<in> T" "b \<in> T" and "?L a b" for a b
    using that assms(1) same(1) [OF T] lt(1) [OF T] unfolding weak_order_def by (cases "same a b") auto
  moreover have "?L a b \<or> ?L b c" if T: "a \<in> T" "b \<in> T" "c \<in> T" and l: "?L a c" for a b c
  proof (cases "same a c")
    case True
    then have "L a c" using l by simp
    then have "L a b \<or> L b c" using assms(1) T unfolding weak_order_def by blast
    moreover have "same a b \<longleftrightarrow> same b c" using True same T by metis
    moreover have "lt a b \<or> lt b c" if "\<not> same a b" using that True lt(2) [OF T(1,2)] lt(5) [OF T(1,3,2)] same(1) [OF T(1,3)] lt(5) [OF T(3,1,2)] by blast
    ultimately show ?thesis by auto
  next
    case False
    then have "lt a c" using l by simp
    consider "same a b" | "lt a b" | "lt b a" using lt(2) T by blast
    then show ?thesis
    proof cases
      case 1
      then have "lt b c" using \<open>lt a c\<close> lt(4) T by blast
      then show ?thesis using lt(1) T by auto
    next
      case 2
      then show ?thesis using lt(1) T by auto
    next
      case 3
      then have "lt b c" using \<open>lt a c\<close> lt(3) T by blast
      then show ?thesis using lt(1) T by auto
    qed
  qed
  ultimately show ?thesis unfolding weak_order_def by blast
qed

lemma sort_less_order:
  assumes "\<forall>ob \<in> set obs. sort_key F sch T ob"
  shows "\<exists>L. weak_order T L \<and> (\<forall>a \<in> T. \<forall>b \<in> T. sort_less F sch obs a b = Inr (L a b))"
  using assms
proof (induction obs)
  case Nil
  then show ?case by (intro exI [of _ "\<lambda>_ _. False"]) (simp add: weak_order_def)
next
  case (Cons ob obs)
  obtain asc e where ob: "ob = (asc, e)" by (cases ob)
  from Cons obtain L where L: "weak_order T L" "\<forall>a \<in> T. \<forall>b \<in> T. sort_less F sch obs a b = Inr (L a b)" by auto
  from Cons.prems ob obtain ty k where ty: "ordered_type ty" and k: "\<forall>t \<in> T. Evaluate F e (Some (t, sch)) = Inr (k t) \<and> type_id (k t) = ty"
    unfolding sort_key_def by simp metis
  let ?same = "\<lambda>a b. val_same (k a) (k b)" and ?lt = "\<lambda>a b. if asc then val_less (k a) (k b) else val_less (k b) (k a)"
  have t: "type_id (k a) = ty" if "a \<in> T" for a using k that by blast
  have lex: "weak_order T (\<lambda>a b. if ?same a b then L a b else ?lt a b)"
  proof (rule weak_order_lex [OF L(1)])
    fix a b assume "a \<in> T" "b \<in> T"
    note o2 = val_order [OF ty t t t, OF \<open>a \<in> T\<close> \<open>a \<in> T\<close> \<open>b \<in> T\<close>] val_order [OF ty t t t, OF \<open>b \<in> T\<close> \<open>b \<in> T\<close> \<open>a \<in> T\<close>]
    show "?same a b \<longleftrightarrow> ?same b a" using o2(2) by blast
    show "\<not> ?same a b \<and> \<not> ?lt b a" if "?lt a b" using o2(2,4,12) that by (auto split: if_splits)
    show "?same a b \<or> ?lt a b \<or> ?lt b a" using o2(5) by auto
    fix c assume "c \<in> T"
    note o3 = val_order [OF ty t t t, OF \<open>a \<in> T\<close> \<open>b \<in> T\<close> \<open>c \<in> T\<close>] val_order [OF ty t t t, OF \<open>c \<in> T\<close> \<open>b \<in> T\<close> \<open>a \<in> T\<close>]
    show "?same a c" if "?same a b" "?same b c" using o3(3) that .
    show "?lt a c" if "?lt a b" "?lt b c" using o3(6,14) that by (auto split: if_splits)
    show "?lt b c \<longleftrightarrow> ?lt a c" if "?same a b" using o3(7,8) [OF that] by auto
    show "?lt c b \<longleftrightarrow> ?lt c a" if "?same a b" using o3(7,8) [OF that] by auto
  qed
  show ?case
  proof (intro exI conjI ballI, rule lex)
    fix a b assume T: "a \<in> T" "b \<in> T"
    with k have e: "Evaluate F e (Some (a, sch)) = Inr (k a)" "Evaluate F e (Some (b, sch)) = Inr (k b)" by blast+
    show "sort_less F sch (ob # obs) a b = Inr (if ?same a b then L a b else ?lt a b)"
      using L(2) T by (simp add: ob sort_less_step [OF ty t [OF T(1)] t [OF T(2)] e] del: sort_less.simps)
  qed
qed

lemma sorted_insert_ok:
  assumes "weak_order T L" and lt: "\<forall>a \<in> T. \<forall>b \<in> T. lt a b = Inr (L a b)"
    and "x \<in> T" and "set ys \<subseteq> T" and "sorted_wrt (\<lambda>a b. \<not> L b a) ys"
  shows "\<exists>zs. sorted_insert lt x ys = Inr zs \<and> mset zs = add_mset x (mset ys) \<and> sorted_wrt (\<lambda>a b. \<not> L b a) zs"
  using assms(4,5)
proof (induction ys)
  case (Cons y ys)
  then have T: "y \<in> T" "set ys \<subseteq> T" by auto
  have r: "lt y x = Inr (L y x)" using lt T(1) assms(3) by blast
  show ?case
  proof (cases "L y x")
    case True
    from Cons.IH T(2) Cons.prems(2) obtain zs where zs: "sorted_insert lt x ys = Inr zs" "mset zs = add_mset x (mset ys)"
      "sorted_wrt (\<lambda>a b. \<not> L b a) zs" by auto
    from zs(2) have "set zs = insert x (set ys)" by (metis set_mset_add_mset_insert set_mset_mset)
    moreover have "\<not> L x y" using True assms(1,3) T(1) unfolding weak_order_def by blast
    ultimately have "\<forall>z \<in> set zs. \<not> L z y" using Cons.prems(2) by auto
    then show ?thesis using zs r True by simp
  next
    case False
    have "\<not> L z x" if "z \<in> set ys" for z
      using that T Cons.prems(2) False assms(1,3) unfolding weak_order_def by auto blast
    then show ?thesis using r False Cons.prems(2) by simp
  qed
qed simp

lemma std_sort_ok:
  assumes "weak_order T L" and "\<forall>a \<in> T. \<forall>b \<in> T. lt a b = Inr (L a b)" and "set xs \<subseteq> T"
  shows "\<exists>us. std_sort lt xs = Inr us \<and> mset us = mset xs \<and> sorted_wrt (\<lambda>a b. \<not> L b a) us"
  using assms(3)
proof (induction xs)
  case (Cons x xs)
  then obtain us where us: "std_sort lt xs = Inr us" "mset us = mset xs" "sorted_wrt (\<lambda>a b. \<not> L b a) us" by auto
  have "set us \<subseteq> T" "x \<in> T" using us(2) Cons.prems mset_eq_setD by force+
  from sorted_insert_ok [OF assms(1,2) this(2,1) us(3)] us(1,2) show ?case by auto
qed simp

end
