(* ===== verification/Query_Correct.thy ===== *)
theory Query_Correct
  imports Query_Equivalence
begin

text \<open>
  The properties of the query layer: execution against the meaning of the plan, the rewrites of the optimizer
  and the order of sorted rows, with a small catalog for the witnesses.
\<close>

section \<open>A catalog with one row\<close>

definition int_rows :: tables_rows where
  "int_rows oid = (if oid = 1 then [(RID 0 0, [9, 0, 0, 0])] else [])"

definition int_info :: TableInfo where
  "int_info = \<lparr>ti_schema = demo_schema, ti_name = ''t'', ti_first = 0, ti_oid = 1\<rparr>"

definition int_scan :: "expr option \<Rightarrow> plan" where
  "int_scan pred = SeqScanPlan demo_schema 1 pred"

definition nine :: expr where
  "nine = Comparison Cmp_Equal (ColumnValue 0 0 INTEGER) (Constant (Value_int INTEGER 9))"

definition nine_tuple :: Tuple where
  "nine_tuple = \<lparr>tuple_rid = no_rid, tuple_data = [9, 0, 0, 0], tuple_values = [Value_int INTEGER 9]\<rparr>"

lemma int_catalog_table [simp]: "GetTable_oid oid int_catalog = (if oid = 1 then Some int_info else None)"
  by (simp add: GetTable_oid_def int_catalog_def Catalog_init_def int_info_def)

lemma int_catalog_rows: "db_rows int_catalog int_rows"
proof -
  have "card (set (pinned (cat_store int_catalog))) < capacity (cat_store int_catalog)"
    by (simp add: int_catalog_def Catalog_init_def)
  moreover have "heap_ok (cat_store int_catalog) (ti_first int_info) [0] \<and> int_rows 1 = heap_rows (cat_store int_catalog) [0]"
    using int_catalog_ok by (simp add: int_info_def int_rows_def)
  ultimately show ?thesis by (auto simp: db_rows_def split: if_splits)
qed

lemma demo_columns [simp]: "columns demo_schema = [(Column_init ''a'' INTEGER 0)\<lparr>col_offset := 0\<rparr>]"
  by (simp add: demo_schema_def Schema_init_def Let_def split: prod.splits)

lemma demo_value [simp]:
  "Tuple_GetValue_schema demo_schema (stored_tuple (r, [9, 0, 0, 0])) 0 = Inr (Value_int INTEGER 9)"
  "Tuple_GetValue_schema sch nine_tuple 0 = Inr (Value_int INTEGER 9)"
  by (simp_all add: stored_tuple_def Tuple_GetValue_schema_def demo_schema_def Schema_init_def Column_init_def
      IsInlined_def GetColumn_def DeserializeFrom_def nine_tuple_def)

lemma nine_init [simp]: "Tuple_init [Value_int INTEGER 9] = Inr nine_tuple"
  unfolding nine_tuple_def no_rid_def by code_simp

lemma int_scan_sem [simp]:
  "sem F int_catalog int_rows (int_scan None) = Inr [(nine_tuple, RID 0 0)]"
  "sem F int_catalog int_rows (int_scan (Some nine)) = Inr [(nine_tuple, RID 0 0)]"
  by (simp_all add: int_scan_def int_info_def int_rows_def scan_row_def all_values_def test_predicate_def nine_def
      PerformComparison_def CompareEquals_def compare_def GetAsBoolean_def)

lemma int_scan_result [simp]: "result_row demo_schema (nine_tuple, rid) = Inr nine_tuple"
  by (simp add: result_row_def all_values_def)

section \<open>Execution\<close>

text \<open>
  C26. Executing a plan without modifications returns, gives the rows that the plan means on the rows stored in
  the tables, read through the output schema, and leaves the database as it was.
\<close>

theorem query_execution_correct:
  assumes "db_rows c R" and "sem F c R p = Inr rows"
  shows "Execute F p c = Some (map_err (result_row (GetOutputSchema p)) rows, c)"
  using assms by (rule Execute_ok)

theorem query_execution_correct_witness:
  "Execute fixed_point (int_scan (Some nine)) int_catalog = Some (Inr [nine_tuple], int_catalog)"
  using query_execution_correct [OF int_catalog_rows int_scan_sem(2), of fixed_point] by (simp add: int_scan_def)

section \<open>The optimizer\<close>


text \<open>The catalog with an index on the column.\<close>

definition int_indexed :: Catalog where
  "int_indexed = int_catalog\<lparr>next_index_oid := 2, indexes := [(1, new_index ''i'' int_info [0] 1 (int_rows 1))],
     index_names := [''t'' \<mapsto> [(''i'', 1)]]\<rparr>"

lemma int_indexed_ok: "cat_ok int_indexed" "db_rows int_indexed int_rows" "indexes_fresh int_indexed int_rows"
proof -
  have tables: "GetTable_oid oid int_indexed = GetTable_oid oid int_catalog" for oid
    by (simp add: GetTable_oid_def int_indexed_def)
  have "indexes_ok int_indexed" by (simp add: indexes_ok_def int_indexed_def int_info_def)
  moreover have "tables_ok int_indexed" using int_catalog_ok(1) by (simp add: cat_ok_def tables_ok_def int_indexed_def)
  ultimately show "cat_ok int_indexed" by (simp add: cat_ok_def)
  show "db_rows int_indexed int_rows" using int_catalog_rows by (simp add: db_rows_def tables) (simp add: int_indexed_def)
  have "GetAllIndexes int_indexed = [new_index ''i'' int_info [0] 1 (int_rows 1)]" by (simp add: GetAllIndexes_def int_indexed_def)
  then show "indexes_fresh int_indexed int_rows"
    by (auto simp: indexes_fresh_def index_fresh_def tables SupportsPointLookup_def split: if_splits)
qed

lemma int_indexed_sem: "sem F int_indexed int_rows (int_scan pred) = sem F int_catalog int_rows (int_scan pred)"
  by (simp add: int_scan_def GetTable_oid_def int_indexed_def)


text \<open>
  C28. The hash join that replaces a nested loop join on equal columns gives the same rows, in some order, when
  the keys on both sides are not null and of one type among INTEGER, VARCHAR and BOOLEAN.
\<close>

theorem hash_join_correct:
  assumes "db_rows c R" and "join_columns pred = Some (lkey, rkey)"
    and "sem F c R left = Inr ls" and "sem F c R right = Inr rs"
    and "\<forall>l \<in> set ls. \<exists>v. Evaluate F lkey (Some (fst l, GetOutputSchema left)) = Inr v \<and> join_key ty v"
    and "\<forall>r \<in> set rs. \<exists>v. Evaluate F rkey (Some (fst r, GetOutputSchema right)) = Inr v \<and> join_key ty v"
    and "sem F c R (NestedLoopJoinPlan sch left right pred) = Inr rows"
    and "Execute F (NestedLoopJoinPlan sch left right pred) c = Some (Inr out, c)"
  shows "\<exists>out'. Execute F (OptimizeNLJToHashJoin (NestedLoopJoinPlan sch left right pred)) c = Some (Inr out', c) \<and>
    mset out' = mset out"
proof -
  from hash_join_same_rows [OF assms(2-7)] obtain rows' where rows': "sem F c R (HashJoinPlan sch left right lkey rkey) = Inr rows'"
    "mset (map fst rows') = mset (map fst rows)" by blast
  have "set rows' \<subseteq> {r'. \<exists>r \<in> set rows. fst r' = fst r}"
    using mset_eq_setD [OF rows'(2)] by (auto simp: image_iff)
  moreover from Execute_ok [OF assms(1,7)] assms(8) have out: "map_err (result_row sch) rows = Inr out" by simp
  ultimately have all: "\<forall>r \<in> set rows'. \<exists>t. result_row sch r = Inr t" by (force simp: map_err_all result_row_def)
  let ?g = "\<lambda>t. projr (bind_err (all_values sch t) Tuple_init)"
  have "mset (map (\<lambda>r. ?g (fst r)) rows') = image_mset ?g (mset (map fst rows'))" by (simp add: multiset.map_comp comp_def)
  also have "\<dots> = image_mset ?g (mset (map fst rows))" by (simp only: rows'(2))
  also have "\<dots> = mset (map (\<lambda>r. ?g (fst r)) rows)" by (simp add: multiset.map_comp comp_def)
  also have "\<dots> = mset out" using out by (simp add: map_err_all result_row_def)
  finally have "mset (map (\<lambda>r. ?g (fst r)) rows') = mset out" .
  moreover have "map_err (result_row sch) rows' = Inr (map (\<lambda>r. ?g (fst r)) rows')" using all by (simp add: map_err_all result_row_def)
  ultimately show ?thesis using Execute_ok [OF assms(1) rows'(1)] assms(2) by simp
qed

text \<open>The table joined with itself.\<close>

definition pair_schema :: Schema where
  "pair_schema = Schema_init [Column_init ''a'' INTEGER 0, Column_init ''a'' INTEGER 0]"

definition same_a :: expr where
  "same_a = Comparison Cmp_Equal (ColumnValue 0 0 INTEGER) (ColumnValue 1 0 INTEGER)"

definition nine_nine :: Tuple where
  "nine_nine = \<lparr>tuple_rid = no_rid, tuple_data = [9, 0, 0, 0, 9, 0, 0, 0], tuple_values = [Value_int INTEGER 9, Value_int INTEGER 9]\<rparr>"

lemma nine_nine_init [simp]: "Tuple_init [Value_int INTEGER 9, Value_int INTEGER 9] = Inr nine_nine"
  unfolding nine_nine_def no_rid_def by code_simp

lemma pair_result [simp]: "result_row pair_schema (nine_nine, rid) = Inr nine_nine"
proof -
  have "length (columns pair_schema) = 2" by (simp add: pair_schema_def Schema_init_def Let_def split: prod.splits)
  moreover have "Tuple_GetValue_schema pair_schema nine_nine i = Inr (Value_int INTEGER 9)" if "i < 2" for i
    using that by (cases i) (auto simp: Tuple_GetValue_schema_def nine_nine_def)
  ultimately show ?thesis by (simp add: result_row_def all_values_def numeral_2_eq_2)
qed

lemma self_join_sem:
  "sem F int_catalog int_rows (NestedLoopJoinPlan pair_schema (int_scan None) (int_scan None) (Some same_a)) = Inr [(nine_nine, no_rid)]"
proof -
  have "join_pair F (Some same_a) demo_schema demo_schema (nine_tuple, RID 0 0) (nine_tuple, RID 0 0) = Inr [(nine_nine, no_rid)]"
    by (simp add: join_pair_def join_match_def same_a_def PerformComparison_def CompareEquals_def compare_def GetAsBoolean_def
        join_row_def all_values_def)
  then show ?thesis using int_scan_sem(1) by (simp add: int_scan_def)
qed

theorem hash_join_correct_witness:
  "OptimizeNLJToHashJoin (NestedLoopJoinPlan pair_schema (int_scan None) (int_scan None) (Some same_a)) =
     HashJoinPlan pair_schema (int_scan None) (int_scan None) (ColumnValue 0 0 INTEGER) (ColumnValue 0 0 INTEGER) \<and>
   Execute fixed_point (HashJoinPlan pair_schema (int_scan None) (int_scan None) (ColumnValue 0 0 INTEGER) (ColumnValue 0 0 INTEGER))
     int_catalog = Some (Inr [nine_nine], int_catalog)"
proof -
  let ?p = "NestedLoopJoinPlan pair_schema (int_scan None) (int_scan None) (Some same_a)"
  have opt: "join_columns (Some same_a) = Some (ColumnValue 0 0 INTEGER, ColumnValue 0 0 INTEGER)" by (simp add: same_a_def)
  have keys: "\<forall>l \<in> set [(nine_tuple, RID 0 0)]. \<exists>v. Evaluate fixed_point (ColumnValue 0 0 INTEGER) (Some (fst l, GetOutputSchema (int_scan None))) = Inr v \<and>
    join_key INTEGER v" by (simp add: join_key_def)
  have "Execute fixed_point ?p int_catalog = Some (Inr [nine_nine], int_catalog)"
    using Execute_ok [OF int_catalog_rows self_join_sem, of fixed_point] by simp
  from hash_join_correct [OF int_catalog_rows opt int_scan_sem(1) int_scan_sem(1) keys keys self_join_sem this] opt
  show ?thesis by (simp add: same_a_def)
qed

text \<open>
  C29. Sorting on integer or string keys gives a permutation of the child's rows in which no row precedes one
  that the comparator puts before it.
\<close>

theorem sort_correct:
  assumes "db_rows c R" and "sem F c R child = Inr rows"
    and "\<forall>ob \<in> set order_bys. sort_key F (GetOutputSchema child) (set (map fst rows)) ob"
  shows "\<exists>ts. Execute F (SortPlan sch child order_bys) c = Some (map_err (result_row sch) (unstored ts), c) \<and>
    mset ts = mset (map fst rows) \<and> sorted_wrt (\<lambda>a b. sort_less F (GetOutputSchema child) order_bys b a = Inr False) ts"
proof -
  let ?T = "set (map fst rows)"
  from sort_less_order [OF assms(3)] obtain L where L: "weak_order ?T L"
    "\<forall>a \<in> ?T. \<forall>b \<in> ?T. sort_less F (GetOutputSchema child) order_bys a b = Inr (L a b)" by blast
  from std_sort_ok [OF L subset_refl] obtain ts where ts: "std_sort (sort_less F (GetOutputSchema child) order_bys) (map fst rows) = Inr ts"
    "mset ts = mset (map fst rows)" "sorted_wrt (\<lambda>a b. \<not> L b a) ts" by blast
  have "sem F c R (SortPlan sch child order_bys) = Inr (unstored ts)" using assms(2) ts(1) by simp
  from Execute_ok [OF assms(1) this] have "Execute F (SortPlan sch child order_bys) c = Some (map_err (result_row sch) (unstored ts), c)" by simp
  moreover have "sorted_wrt (\<lambda>a b. sort_less F (GetOutputSchema child) order_bys b a = Inr False) ts"
  proof (rule sorted_wrt_mono_rel [OF _ ts(3)])
    fix a b assume "a \<in> set ts" "b \<in> set ts" "\<not> L b a"
    then have "a \<in> ?T" "b \<in> ?T" using mset_eq_setD [OF ts(2)] by simp_all
    from L(2) [rule_format, OF this(2,1)] \<open>\<not> L b a\<close> show "sort_less F (GetOutputSchema child) order_bys b a = Inr False" by simp
  qed
  ultimately show ?thesis using ts(2) by blast
qed

theorem sort_correct_witness:
  "\<exists>ts. Execute fixed_point (SortPlan demo_schema (int_scan None) [(False, ColumnValue 0 0 INTEGER)]) int_catalog =
     Some (map_err (result_row demo_schema) (unstored ts), int_catalog) \<and> ts = [nine_tuple]"
proof -
  have "sort_key fixed_point (GetOutputSchema (int_scan None)) (set (map fst [(nine_tuple, RID 0 0)])) (False, ColumnValue 0 0 INTEGER)"
    by (simp add: sort_key_def ordered_type_def)
  with sort_correct [OF int_catalog_rows int_scan_sem(1), where F = fixed_point and sch = demo_schema and order_bys = "[(False, ColumnValue 0 0 INTEGER)]"]
  show ?thesis by auto
qed

end
