(* ===== verification/Binder_Correct.thy ===== *)
theory Binder_Correct
  imports Binder Query_Correct
begin

text \<open>
  The meaning of SQL conditions on named columns, and that the binder keeps it: a bound expression evaluates to
  what the parse tree means for the row of the table, or for the two rows of a join.
\<close>

section \<open>The meaning of a condition\<close>

text \<open>The value of a column by its name: in the first table in scope that has the name, or in the one with the qualifier.\<close>

fun named_value :: "(string \<times> Schema \<times> Tuple) list \<Rightarrow> string \<Rightarrow> string \<Rightarrow> error + Value" where
  "named_value [] q name = Inl (RuntimeError ''no such column'')"
| "named_value ((a, sch, t) # rows) q name =
     (if q \<noteq> [] \<and> q \<noteq> a then named_value rows q name
      else (case find_column name (columns sch) 0 of
        Some (i, _) \<Rightarrow> Tuple_GetValue_schema sch t i
      | None \<Rightarrow> named_value rows q name))"

definition sql_constant :: "platform \<Rightarrow> pg_value \<Rightarrow> error + Value" where
  "sql_constant P v =
     (case v of
        PGInteger i \<Rightarrow> Inr (Value_int INTEGER i)
      | PGFloat s \<Rightarrow> bind_err (stof P s) (\<lambda>f. Inr (Value_float FLOAT f))
      | PGString s \<Rightarrow> Inr (Value_string VARCHAR s)
      | PGOtherValue \<Rightarrow> Inl (RuntimeError ''no such constant''))"

definition sql_operator :: "float_ops \<Rightarrow> string \<Rightarrow> Value \<Rightarrow> Value \<Rightarrow> error + Value" where
  "sql_operator F op v w =
     (if op = ''='' then CompareEquals F v w
      else if op = ''<>'' \<or> op = ''!='' then CompareNotEquals F v w
      else if op = ''<'' then CompareLessThan F v w
      else if op = ''<='' then CompareLessThanOrEqual F v w
      else if op = ''>'' then CompareGreaterThan F v w
      else if op = ''>='' then CompareGreaterThanOrEqual F v w
      else if op = ''+'' then Add F v w
      else if op = ''-'' then Subtract F v w
      else if op = ''*'' then Multiply F v w
      else if op = ''/'' then Divide F v w
      else if op = ''%'' then Modulo v w
      else Inl (RuntimeError ''no such operator''))"

fun sql_eval :: "float_ops \<Rightarrow> platform \<Rightarrow> (string \<Rightarrow> string \<Rightarrow> error + Value) \<Rightarrow> pg_node \<Rightarrow> error + Value"
  and sql_optional :: "float_ops \<Rightarrow> platform \<Rightarrow> (string \<Rightarrow> string \<Rightarrow> error + Value) \<Rightarrow> pg_node option \<Rightarrow> error + Value"
  and sql_chain :: "float_ops \<Rightarrow> platform \<Rightarrow> (string \<Rightarrow> string \<Rightarrow> error + Value) \<Rightarrow> LogicType \<Rightarrow> error + Value \<Rightarrow> pg_node list \<Rightarrow> error + Value" where
  "sql_eval F P env (PG_ColumnRef refs) =
     (case refs of [PG_String name] \<Rightarrow> env [] name | [PG_String q, PG_String name] \<Rightarrow> env q name | _ \<Rightarrow> Inl UndefinedBehaviour)"
| "sql_eval F P env (PG_AConst v) = sql_constant P v"
| "sql_eval F P env (PG_AExpr names l r) =
     bind_err (sql_optional F P env l) (\<lambda>v. bind_err (sql_optional F P env r) (\<lambda>w.
       case names of PG_String op # _ \<Rightarrow> sql_operator F op v w | _ \<Rightarrow> Inl UndefinedBehaviour))"
| "sql_eval F P env (PG_BoolExpr op args) =
     (case args of
        [] \<Rightarrow> Inl UndefinedBehaviour
      | n # ns \<Rightarrow> sql_chain F P env (if op = PG_AND_EXPR then Logic_And else Logic_Or) (sql_eval F P env n) ns)"
| "sql_eval F P env n = Inl UndefinedBehaviour"
| "sql_optional F P env None = Inl UndefinedBehaviour"
| "sql_optional F P env (Some n) = sql_eval F P env n"
| "sql_chain F P env g v [] = v"
| "sql_chain F P env g v (n # ns) =
     sql_chain F P env g (bind_err v (\<lambda>v. bind_err (sql_eval F P env n) (\<lambda>w. PerformLogic g v w))) ns"

text \<open>The expression has a value at all: no stars and no missing operands.\<close>

fun proper :: "pg_node \<Rightarrow> bool" where
  "proper (PG_ColumnRef refs) \<longleftrightarrow> (\<exists>s. refs = [PG_String s]) \<or> (\<exists>q s. refs = [PG_String q, PG_String s])"
| "proper (PG_AConst v) \<longleftrightarrow> True"
| "proper (PG_AExpr names l r) \<longleftrightarrow> (case (l, r) of (Some l, Some r) \<Rightarrow> proper l \<and> proper r | _ \<Rightarrow> False)"
| "proper (PG_BoolExpr op args) \<longleftrightarrow> (\<forall>n \<in> set args. proper n)"
| "proper _ \<longleftrightarrow> False"

section \<open>Bound expressions\<close>

lemma str_val_Inr: "str_val n = Inr s \<longleftrightarrow> n = PG_String s"
  by (cases n) (auto simp: str_val_def)

lemma binary_operator_eval:
  assumes "binary_operator op = Some f"
    and "\<And>c l r. eval (Comparison c l r) = bind_err (eval l) (\<lambda>v. bind_err (eval r) (\<lambda>w. PerformComparison F c v w))"
    and "\<And>a l r. eval (Arithmetic a l r) = bind_err (eval l) (\<lambda>v. bind_err (eval r) (\<lambda>w. PerformComputation F a v w))"
  shows "eval (f l r) = bind_err (eval l) (\<lambda>v. bind_err (eval r) (\<lambda>w. sql_operator F op v w))"
  using assms(1)
  by (auto simp: binary_operator_def sql_operator_def assms(2,3) PerformComparison_def PerformComputation_def split: if_splits)

text \<open>
  Both methods of an expression, \<open>Evaluate\<close> and \<open>EvaluateJoin\<close>, are an evaluation that treats the inner nodes
  alike; what they need of the scopes is that a resolved column evaluates to the named value.
\<close>

locale evaluation =
  fixes F :: float_ops and P :: platform and ss :: "TableScope list"
    and eval :: "expr \<Rightarrow> error + Value" and env :: "string \<Rightarrow> string \<Rightarrow> error + Value"
  assumes const: "eval (Constant v) = Inr v"
    and cmp: "eval (Comparison c l r) = bind_err (eval l) (\<lambda>v. bind_err (eval r) (\<lambda>w. PerformComparison F c v w))"
    and arith: "eval (Arithmetic a l r) = bind_err (eval l) (\<lambda>v. bind_err (eval r) (\<lambda>w. PerformComputation F a v w))"
    and logic: "eval (Logic g l r) = bind_err (eval l) (\<lambda>v. bind_err (eval r) (\<lambda>w. PerformLogic g v w))"
    and column: "ResolveColumn name q ss = Inr (ti, i, ty) \<Longrightarrow> eval (ColumnValue ti i ty) = env q name"
begin

lemma column_ref:
  assumes "BindColumnRef refs ss = Inr r" and "proper (PG_ColumnRef refs)"
  shows "\<exists>e. r = Some e \<and> eval e = sql_eval F P env (PG_ColumnRef refs)"
  using assms column by (auto simp: BindColumnRef_def str_val_def bind_err_Inr)

lemma constant_ref: "BindConstant P v = Inr r \<Longrightarrow> \<exists>e. r = Some e \<and> eval e = sql_constant P v"
  by (auto simp: BindConstant_def sql_constant_def bind_err_Inr const split: pg_value.splits)

lemma bound_all:
  "P' = P \<Longrightarrow> ss' = ss \<Longrightarrow> BindExpression P' ss' n = Inr r \<Longrightarrow> proper n \<Longrightarrow> \<exists>e. r = Some e \<and> eval e = sql_eval F P env n"
  "P' = P \<Longrightarrow> ss' = ss \<Longrightarrow> BindOptional P' ss' m = Inr r \<Longrightarrow> (case m of None \<Rightarrow> False | Some n \<Rightarrow> proper n) \<Longrightarrow>
     \<exists>e. r = Some e \<and> eval e = sql_optional F P env m"
  "P' = P \<Longrightarrow> ss' = ss \<Longrightarrow> BindChain P' ss' g e ns = Inr r \<Longrightarrow> (\<forall>n \<in> set ns. proper n) \<Longrightarrow> e = Some e0 \<Longrightarrow>
     \<exists>e. r = Some e \<and> eval e = sql_chain F P env g (eval e0) ns"
proof (induction P' ss' n and P' ss' m and P' ss' g e ns arbitrary: r and r and r e0
    rule: BindExpression_BindOptional_BindChain.induct)
  case (1 P' ss' refs)
  then show ?case using column_ref by auto
next
  case (2 P' ss' v)
  then show ?case using constant_ref by simp
next
  case (3 P' ss' names l r0)
  from "3.prems" obtain el er op f where b: "BindOptional P ss l = Inr el" "BindOptional P ss r0 = Inr er"
    "list_head names = Inr (PG_String op)" "binary_operator op = Some f" "r = Some (f (child el) (child er))"
    by (auto simp: apply_operator_def bind_err_Inr str_val_Inr split: option.splits)
  moreover from "3.prems" have "case l of None \<Rightarrow> False | Some n \<Rightarrow> proper n" "case r0 of None \<Rightarrow> False | Some n \<Rightarrow> proper n"
    by (auto split: option.splits)
  ultimately obtain l' r' where "el = Some l'" "eval l' = sql_optional F P env l" "er = Some r'" "eval r' = sql_optional F P env r0"
    using "3.IH" "3.prems"(1,2) by blast
  moreover obtain rest where "names = PG_String op # rest" using b(3) by (auto simp: list_head_def split: list.splits)
  ultimately show ?case using b(5) binary_operator_eval [OF b(4) cmp arith] by (simp add: child_def)
next
  case (4 P' ss' op args)
  then obtain g n ns e0 where g: "logic_type op = Some g" "args = n # ns" "BindExpression P ss n = Inr e0" "BindChain P ss g e0 ns = Inr r"
    by (auto simp: bind_err_Inr split: option.splits list.splits)
  obtain e where e: "e0 = Some e" "eval e = sql_eval F P env n" using "4.IH"(1) [OF g(1,2)] g "4.prems" by auto
  from "4.IH"(2) [OF g(1,2), of e0 r e] g e "4.prems" have "\<exists>e'. r = Some e' \<and> eval e' = sql_chain F P env g (eval e) ns" by auto
  moreover have "g = (if op = PG_AND_EXPR then Logic_And else Logic_Or)" using g(1) by (cases op) (auto simp: logic_type_def)
  ultimately show ?case using g(2) e(2) by simp
next
  case (9 P' ss' g e n ns)
  from "9.prems" obtain r1 where r1: "BindExpression P ss n = Inr r1" "BindChain P ss g (Some (Logic g e0 (child r1))) ns = Inr r"
    by (auto simp: bind_err_Inr child_def)
  obtain e1 where e1: "r1 = Some e1" "eval e1 = sql_eval F P env n" using "9.IH"(1) "9.prems" r1(1) by auto
  from "9.IH"(2) [of r1 r "Logic g e0 e1"] "9.prems" r1(2) e1 show ?case by (auto simp: child_def logic)
qed auto

lemmas bound = bound_all(1) [OF refl refl]

end

text \<open>The two evaluations: on the row of one table, and on the rows of the two sides of a join.\<close>

definition scope :: "string \<Rightarrow> TableInfo \<Rightarrow> nat \<Rightarrow> TableScope" where
  "scope a info i = \<lparr>scope_alias = a, scope_info = info, tuple_idx = i\<rparr>"

lemma scope_sel [simp]: "scope_alias (scope a info i) = a" "scope_info (scope a info i) = info" "tuple_idx (scope a info i) = i"
  by (simp_all add: scope_def)

interpretation row: evaluation F P "[scope a info i]" "\<lambda>e. Evaluate F e (Some (t, ti_schema info))"
    "named_value [(a, ti_schema info, t)]" for F P a info i t
  by unfold_locales (auto split: if_splits option.splits)

interpretation pair: evaluation F P "[scope a linfo 0, scope b rinfo 1]"
    "\<lambda>e. EvaluateJoin F e (lt, ti_schema linfo) (rt, ti_schema rinfo)"
    "named_value [(a, ti_schema linfo, lt), (b, ti_schema rinfo, rt)]" for F P a linfo b rinfo lt rt
  by unfold_locales (auto split: if_splits option.splits)

section \<open>Selecting rows of a table\<close>

text \<open>The values of a stored row, and whether a condition holds for it.\<close>

definition row_values :: "Schema \<Rightarrow> RID \<times> byte list \<Rightarrow> error + Value list" where
  "row_values sch row = all_values sch (stored_tuple row)"

definition condition :: "float_ops \<Rightarrow> platform \<Rightarrow> string \<Rightarrow> Schema \<Rightarrow> pg_node \<Rightarrow> RID \<times> byte list \<Rightarrow> error + bool" where
  "condition F P a sch n row = bind_err (sql_eval F P (named_value [(a, sch, stored_tuple row)]) n) GetAsBoolean"

definition select_star :: "string \<Rightarrow> string option \<Rightarrow> pg_node \<Rightarrow> pg_select" where
  "select_star table al n =
     \<lparr>targetList = [(None, Some PG_AStar)], fromClause = [FromTable table al], whereClause = Some n, groupClause = [],
      sortClause = [], limitCount = None, valuesLists = False\<rparr>"

lemma bind_select_star:
  assumes "GetTable table c = Inr (Some info)"
  shows "bind_select P (select_star table al n) c =
    bind_err (BindExpression P [scope (case al of None \<Rightarrow> table | Some a \<Rightarrow> a) info 0] n) (\<lambda>pred. Inr (table_scan info pred))"
proof -
  have "bind_from P c [FromTable table al] = Inr \<lparr>from_scopes = [scope (case al of None \<Rightarrow> table | Some a \<Rightarrow> a) info 0],
      from_plans = [table_scan info None], base_plan = Some (table_scan info None)\<rparr>"
    using assms by (simp add: bind_from_def bind_from_item_def join_side_def find_table_def scope_def)
  then show ?thesis
    by (cases "BindExpression P [scope (case al of None \<Rightarrow> table | Some a \<Rightarrow> a) info 0] n")
      (simp_all add: bind_select_def select_star_def bind_where_def table_scan_def list_head_def bind_targets_def bind_target_def
        bind_aggregation_def bind_sort_def bind_limit_def bind_projection_def)
qed

lemma length_all_values: "all_values sch t = Inr vs \<Longrightarrow> length vs = length (columns sch)"
  by (auto simp: all_values_def map_err_all)

text \<open>A materialized row is read back as it is.\<close>

lemma result_row_init:
  assumes "Tuple_init vs = Inr t" and "length vs = length (columns sch)"
  shows "tuple_values t = vs" and "result_row sch (t, rid) = Inr t"
proof -
  show v: "tuple_values t = vs" using assms(1) by (auto simp: Tuple_init_def bind_err_Inr)
  have "all_values sch t = Inr vs"
    unfolding all_values_def assms(2) [symmetric] map_err_all
    using v by (auto simp: Tuple_GetValue_schema_def intro!: nth_equalityI)
  then show "result_row sch (t, rid) = Inr t" using assms(1) by (simp add: result_row_def)
qed

lemma scan_rows:
  assumes "\<forall>row \<in> set rows. \<exists>vs t b. row_values sch row = Inr vs \<and> Tuple_init vs = Inr t \<and>
      test_predicate F pred (stored_tuple row) sch = Inr b"
  shows "\<exists>out. concat_err (map_err (scan_row F pred sch) rows) = Inr out \<and> map_err (result_row sch) out = Inr (map fst out) \<and>
    map (\<lambda>r. tuple_values (fst r)) out =
      map (\<lambda>row. projr (row_values sch row)) (filter (\<lambda>row. test_predicate F pred (stored_tuple row) sch = Inr True) rows)"
  using assms
proof (induction rows)
  case (Cons row rows)
  have "\<forall>row \<in> set rows. \<exists>vs t b. row_values sch row = Inr vs \<and> Tuple_init vs = Inr t \<and>
      test_predicate F pred (stored_tuple row) sch = Inr b" using Cons.prems by simp
  from Cons.IH [OF this] obtain out where out: "concat_err (map_err (scan_row F pred sch) rows) = Inr out" "map_err (result_row sch) out = Inr (map fst out)"
    "map (\<lambda>r. tuple_values (fst r)) out =
      map (\<lambda>row. projr (row_values sch row)) (filter (\<lambda>row. test_predicate F pred (stored_tuple row) sch = Inr True) rows)" by blast
  from Cons.prems obtain vs t b where row: "row_values sch row = Inr vs" "Tuple_init vs = Inr t"
    "test_predicate F pred (stored_tuple row) sch = Inr b" by force
  note t = result_row_init [OF row(2) length_all_values [OF row(1) [unfolded row_values_def]]]
  have "scan_row F pred sch row = Inr (if b then [(t, fst row)] else [])" using row by (simp add: scan_row_def row_values_def)
  then show ?case using out row t
    by (intro exI [of _ "(if b then [(t, fst row)] else []) @ out"]) (simp del: map_err.simps add: concat_err_Cons map_err.simps(2) [of "result_row sch"])
qed simp

lemma table_by_oid:
  assumes "cat_ok c" and "GetTable table c = Inr (Some info)"
  shows "GetTable_oid (ti_oid info) c = Some info"
proof -
  from assms(2) obtain oid where "map_of (tables c) oid = Some info"
    unfolding GetTable_ok(1) [OF assms(1)] by (auto split: option.splits)
  then show ?thesis using cat_okD(4) [OF assms(1)] by (simp add: GetTable_oid_def)
qed

text \<open>From the parse tree to the rows, for a query that selects all columns of one table.\<close>

lemma select_where_ok:
  assumes "cat_ok c" and "db_rows c R" and "indexes_fresh c R"
    and "GetTable table c = Inr (Some info)" and "proper n" and "bind_select P (select_star table al n) c = Inr p" and "points_ok p"
    and "\<forall>row \<in> set (R (ti_oid info)). \<exists>vs t b. row_values (ti_schema info) row = Inr vs \<and> Tuple_init vs = Inr t \<and>
      condition F P (case al of None \<Rightarrow> table | Some a \<Rightarrow> a) (ti_schema info) n row = Inr b"
  shows "\<exists>p' out. Optimize (Some c) p = Inr p' \<and> GetOutputSchema p' = ti_schema info \<and> Execute F p' c = Some (Inr out, c) \<and>
    map tuple_values out = map (\<lambda>row. projr (row_values (ti_schema info) row))
      (filter (\<lambda>row. condition F P (case al of None \<Rightarrow> table | Some a \<Rightarrow> a) (ti_schema info) n row = Inr True) (R (ti_oid info)))"
proof -
  let ?a = "case al of None \<Rightarrow> table | Some a \<Rightarrow> a" and ?sch = "ti_schema info" and ?rows = "R (ti_oid info)"
  from assms(6) obtain pred where b: "BindExpression P [scope ?a info 0] n = Inr pred" "p = table_scan info pred"
    unfolding bind_select_star [OF assms(4)] bind_err_Inr by blast
  from row.bound [OF b(1) assms(5)] obtain e where "pred = Some e" by blast
  then have test: "test_predicate F pred (stored_tuple row) ?sch = condition F P ?a ?sch n row" for row
    using row.bound [OF b(1) assms(5), where F = F and t = "stored_tuple row"] by (auto simp: test_predicate_def condition_def)
  from scan_rows [of ?rows ?sch F pred] assms(8) obtain out where out: "concat_err (map_err (scan_row F pred ?sch) ?rows) = Inr out"
    "map_err (result_row ?sch) out = Inr (map fst out)"
    "map (\<lambda>r. tuple_values (fst r)) out =
      map (\<lambda>row. projr (row_values ?sch row)) (filter (\<lambda>row. condition F P ?a ?sch n row = Inr True) ?rows)"
    unfolding test by blast
  have sem: "sem F c R p = Inr out" using out(1) table_by_oid [OF assms(1,4)] by (simp add: b(2) table_scan_def)
  from Optimize_ok [OF assms(1-3,7), of F] sem obtain p' where p': "Optimize (Some c) p = Inr p'" "GetOutputSchema p' = GetOutputSchema p"
    "sem F c R p' = Inr out" by blast
  have "Execute F p' c = Some (Inr (map fst out), c)" using Execute_ok [OF assms(2) p'(3)] out(2) p'(2) by (simp add: b(2) table_scan_def)
  then show ?thesis using p'(1,2) out(3) by (intro exI [of _ p'] exI [of _ "map fst out"]) (simp add: b(2) table_scan_def comp_def)
qed

section \<open>Properties\<close>

text \<open>
  C36. A bound condition means what the parse tree means: evaluated on the row of the table in scope, or on the
  two rows of a join, it gives the value, or the error, of the condition with each column read by its name.
\<close>

theorem bind_expression_correct:
  assumes "proper n"
  shows "(BindExpression P [scope a info i] n = Inr r \<longrightarrow>
      (\<exists>e. r = Some e \<and> Evaluate F e (Some (t, ti_schema info)) = sql_eval F P (named_value [(a, ti_schema info, t)]) n)) \<and>
    (BindExpression P [scope a linfo 0, scope b rinfo 1] n = Inr r' \<longrightarrow>
      (\<exists>e. r' = Some e \<and> EvaluateJoin F e (lt, ti_schema linfo) (rt, ti_schema rinfo) =
        sql_eval F P (named_value [(a, ti_schema linfo, lt), (b, ti_schema rinfo, rt)]) n))"
  using row.bound [of P a info i n r F t] pair.bound [of P a linfo b rinfo n r' F lt rt] assms by blast

text \<open>An environment for examples, and the condition \<open>a = 9\<close>.\<close>

definition demo_platform :: "string \<Rightarrow> pg_statement \<Rightarrow> platform" where
  "demo_platform sql stmt =
     \<lparr>parse = (\<lambda>s. if s = sql then Inr [stmt] else Inl ''syntax error''), stof = (\<lambda>_. Inl (InvalidArgument ''stof'')),
      tag_text = (\<lambda>_. ''0''), moved_first = True\<rparr>"

definition a_is_nine :: pg_node where
  "a_is_nine = PG_AExpr [PG_String ''=''] (Some (PG_ColumnRef [PG_String ''a''])) (Some (PG_AConst (PGInteger 9)))"

lemma a_is_nine_bound: "BindExpression P [scope a int_info i] a_is_nine = Inr (Some (Comparison Cmp_Equal (ColumnValue i 0 INTEGER) (Constant (Value_int INTEGER 9))))"
  by (simp add: a_is_nine_def BindColumnRef_def BindConstant_def apply_operator_def list_head_def str_val_def binary_operator_def
      int_info_def Column_init_def child_def)

lemma a_is_nine_value: "condition F P a demo_schema a_is_nine (r, [9, 0, 0, 0]) = Inr True"
  by (simp add: condition_def a_is_nine_def sql_constant_def sql_operator_def Column_init_def CompareEquals_def compare_def GetAsBoolean_def)

theorem bind_expression_correct_witness:
  "\<exists>e. BindExpression (demo_platform [] (PG_OtherStmt 0)) [scope ''t'' int_info 0] a_is_nine = Inr (Some e) \<and>
    bind_err (Evaluate fixed_point e (Some (stored_tuple (RID 0 0, [9, 0, 0, 0]), demo_schema))) GetAsBoolean = Inr True"
proof -
  let ?P = "demo_platform [] (PG_OtherStmt 0)"
  have "proper a_is_nine" by (simp add: a_is_nine_def)
  from bind_expression_correct [OF this, of ?P "''t''" int_info 0] a_is_nine_bound [of ?P "''t''" 0]
  obtain e where "BindExpression ?P [scope ''t'' int_info 0] a_is_nine = Inr (Some e)"
    "Evaluate fixed_point e (Some (stored_tuple (RID 0 0, [9, 0, 0, 0]), ti_schema int_info)) =
      sql_eval fixed_point ?P (named_value [(''t'', ti_schema int_info, stored_tuple (RID 0 0, [9, 0, 0, 0]))]) a_is_nine" by blast
  then show ?thesis using a_is_nine_value [of fixed_point ?P "''t''" "RID 0 0"] by (auto simp: condition_def int_info_def)
qed

text \<open>
  A query \<open>SELECT * FROM t WHERE n\<close> that binds is optimized and executed without an error, changes nothing, and returns
  the values of exactly the rows for which the condition holds, in the order of the table.
\<close>

theorem select_where_correct:
  assumes "cat_ok c" and "db_rows c R" and "indexes_fresh c R"
    and "GetTable table c = Inr (Some info)" and "proper n" and "parse P sql = Inr (PG_SelectStmt (select_star table al n) # stmts)"
    and "BindQuery P sql c = Inr p" and "points_ok p"
    and "\<forall>row \<in> set (R (ti_oid info)). \<exists>vs t b. row_values (ti_schema info) row = Inr vs \<and> Tuple_init vs = Inr t \<and>
      condition F P (case al of None \<Rightarrow> table | Some a \<Rightarrow> a) (ti_schema info) n row = Inr b"
  shows "\<exists>p' out. Optimize (Some c) p = Inr p' \<and> Execute F p' c = Some (Inr out, c) \<and>
    map tuple_values out = map (\<lambda>row. projr (row_values (ti_schema info) row))
      (filter (\<lambda>row. condition F P (case al of None \<Rightarrow> table | Some a \<Rightarrow> a) (ti_schema info) n row = Inr True) (R (ti_oid info)))"
proof -
  have "bind_select P (select_star table al n) c = Inr p" using assms(6,7) by (simp add: BindQuery_def BindStatement_def Let_def)
  from select_where_ok [OF assms(1-5) this assms(8,9)] show ?thesis by blast
qed

lemma demo_database:
  "GetTable ''t'' int_indexed = Inr (Some int_info)" "int_rows (ti_oid int_info) = [(RID 0 0, [9, 0, 0, 0])]"
  "row_values (ti_schema int_info) (RID 0 0, [9, 0, 0, 0]) = Inr [Value_int INTEGER 9]"
  by (simp_all add: GetTable_def int_indexed_def int_catalog_def Catalog_init_def map_at_def int_info_def int_rows_def row_values_def
      all_values_def)

lemma demo_bound:
  "bind_select P (select_star ''t'' None a_is_nine) int_indexed = Inr (int_scan (Some nine))" "points_ok (int_scan (Some nine))"
proof -
  show "bind_select P (select_star ''t'' None a_is_nine) int_indexed = Inr (int_scan (Some nine))"
    unfolding bind_select_star [OF demo_database(1)] option.case a_is_nine_bound
    by (simp add: table_scan_def int_scan_def nine_def int_info_def)
  show "points_ok (int_scan (Some nine))" by (simp add: int_scan_def nine_def point_ok_def Value_int_def)
qed

theorem select_where_correct_witness:
  "\<exists>p' out. Optimize (Some int_indexed) (int_scan (Some nine)) = Inr p' \<and>
    Execute fixed_point p' int_indexed = Some (Inr out, int_indexed) \<and> map tuple_values out = [[Value_int INTEGER 9]]"
proof -
  let ?P = "demo_platform ''SELECT * FROM t WHERE a = 9'' (PG_SelectStmt (select_star ''t'' None a_is_nine))"
  have "parse ?P ''SELECT * FROM t WHERE a = 9'' = Inr [PG_SelectStmt (select_star ''t'' None a_is_nine)]" by (simp add: demo_platform_def)
  moreover from this have "BindQuery ?P ''SELECT * FROM t WHERE a = 9'' int_indexed = Inr (int_scan (Some nine))"
    using demo_bound(1) by (simp add: BindQuery_def BindStatement_def Let_def)
  moreover have "proper a_is_nine" by (simp add: a_is_nine_def)
  moreover have "condition fixed_point ?P ''t'' (ti_schema int_info) a_is_nine (RID 0 0, [9, 0, 0, 0]) = Inr True"
    using a_is_nine_value by (simp add: int_info_def)
  ultimately show ?thesis
    using select_where_correct [OF int_indexed_ok demo_database(1), of a_is_nine ?P "''SELECT * FROM t WHERE a = 9''" None "[]" _ fixed_point]
      demo_bound(2) demo_database(2,3) nine_init by auto
qed



text \<open>Two crashes: a qualified star, and a join of more than two tables.\<close>

lemma qualified_star_undefined:
  assumes "GetTable table c = Inr (Some info)"
  shows "bind_select P \<lparr>targetList = [(None, Some (PG_ColumnRef [PG_String q, PG_AStar]))], fromClause = [FromTable table None],
      whereClause = None, groupClause = [], sortClause = [], limitCount = None, valuesLists = False\<rparr> c = Inl UndefinedBehaviour"
  using assms by (simp add: bind_select_def bind_from_def bind_from_item_def join_side_def find_table_def bind_where_def bind_targets_def
      bind_target_def list_head_def bind_output_def BindColumnRef_def str_val_def output_name_def bind_aggregation_def bind_sort_def
      bind_limit_def bind_projection_def child_def)

lemma three_way_join_undefined:
  "bind_select P (sel\<lparr>fromClause := [FromJoin (FromJoin l m q) r q']\<rparr>) c = Inl UndefinedBehaviour"
  by (simp add: bind_select_def bind_from_def bind_from_item_def join_side_def)

end
