(* ===== verification/Protocol.thy ===== *)
theory Protocol
  imports Values
begin

text \<open>
  The wire protocol between server and client (\<open>src/include/onebase/server/protocol.h\<close>): messages
  framed by a length, and rows as lines of fields separated by \<open>|\<close>.

  A socket is the bytes that will arrive before the peer closes the connection, the bytes written so far, and
  what the operating system makes of the calls: how many bytes each call of \<open>read\<close> and \<open>write\<close>
  transfers at most, where \<open>0\<close> is an error, and no bound when the list is exhausted.
\<close>

section \<open>Sockets\<close>

record socket =
  inbox :: "byte list"
  reads :: "nat list"
  outbox :: "byte list"
  writes :: "nat list"

fun chunk :: "nat list \<Rightarrow> nat \<Rightarrow> nat \<times> nat list" where
  "chunk [] n = (n, [])"
| "chunk (k # ks) n = (min k n, ks)"

text \<open>Read exactly so many bytes; \<open>None\<close> is the result \<open>false\<close>.\<close>

function ReadExact :: "nat \<Rightarrow> socket \<Rightarrow> byte list option \<times> socket" where
  "ReadExact remaining fd =
     (if remaining = 0 then (Some [], fd)
      else (case chunk (reads fd) remaining of (k, ks) \<Rightarrow>
        let bs = take k (inbox fd); fd = fd\<lparr>inbox := drop k (inbox fd), reads := ks\<rparr> in
        if bs = [] then (None, fd)
        else (case ReadExact (remaining - length bs) fd of (r, fd) \<Rightarrow> (map_option ((@) bs) r, fd))))"
  by pat_completeness auto
termination by (relation "measure fst") auto

function WriteExact :: "byte list \<Rightarrow> socket \<Rightarrow> bool \<times> socket" where
  "WriteExact buf fd =
     (if buf = [] then (True, fd)
      else (case chunk (writes fd) (length buf) of (k, ks) \<Rightarrow>
        let fd = fd\<lparr>outbox := outbox fd @ take k buf, writes := ks\<rparr> in
        if k = 0 then (False, fd) else WriteExact (drop k buf) fd))"
  by pat_completeness auto
termination by (relation "measure (length \<circ> fst)") auto

declare ReadExact.simps [simp del] WriteExact.simps [simp del]

section \<open>Messages\<close>

text \<open>\<open>MessageType\<close> has an underlying type of one byte and is read without a check, so any byte may occur.\<close>

type_synonym MessageType = byte

definition QUERY :: MessageType where "QUERY = char_byte CHR ''Q''"
definition RESULT :: MessageType where "RESULT = char_byte CHR ''R''"
definition ERROR :: MessageType where "ERROR = char_byte CHR ''E''"
definition COMMAND_COMPLETE :: MessageType where "COMMAND_COMPLETE = char_byte CHR ''C''"
definition TERMINATE :: MessageType where "TERMINATE = char_byte CHR ''X''"

text \<open>The bytes of \<open>htonl(n)\<close> in memory, and \<open>ntohl\<close> of four bytes.\<close>

definition net_bytes :: "nat \<Rightarrow> byte list" where
  "net_bytes n = rev (le_bytes 4 n)"

definition net_number :: "byte list \<Rightarrow> nat" where
  "net_number bs = le_nat (rev bs)"

definition SendMessage :: "MessageType \<Rightarrow> string \<Rightarrow> socket \<Rightarrow> bool \<times> socket" where
  "SendMessage type data fd =
     (let payload_len = (length data + 1) mod 2 ^ 32 in
      case WriteExact (net_bytes payload_len) fd of (ok, fd) \<Rightarrow>
        if \<not> ok then (False, fd)
        else (case WriteExact [type] fd of (ok, fd) \<Rightarrow>
          if \<not> ok then (False, fd)
          else if data = [] then (True, fd)
          else WriteExact (map char_byte data) fd))"

definition RecvMessage :: "socket \<Rightarrow> (MessageType \<times> string) option \<times> socket" where
  "RecvMessage fd =
     (case ReadExact 4 fd of
        (None, fd) \<Rightarrow> (None, fd)
      | (Some len, fd) \<Rightarrow>
          let payload_len = net_number len in
          if payload_len = 0 then (None, fd)
          else (case ReadExact 1 fd of
            (None, fd) \<Rightarrow> (None, fd)
          | (Some type, fd) \<Rightarrow>
              let data_len = payload_len - 1 in
              if data_len = 0 then (Some (hd type, []), fd)
              else (case ReadExact data_len fd of
                (None, fd) \<Rightarrow> (None, fd)
              | (Some data, fd) \<Rightarrow> (Some (hd type, map byte_char data), fd))))"

section \<open>Rows\<close>

fun FormatResultRow :: "string list \<Rightarrow> string" where
  "FormatResultRow [] = []"
| "FormatResultRow [v] = v"
| "FormatResultRow (v # vs) = v @ CHR ''|'' # FormatResultRow vs"

definition FormatResultHeader :: "string list \<Rightarrow> string" where
  "FormatResultHeader col_names = FormatResultRow col_names"

fun pipe_loop :: "string \<Rightarrow> string list \<Rightarrow> string \<Rightarrow> string list" where
  "pipe_loop [] parts current = parts @ [current]"
| "pipe_loop (c # cs) parts current =
     (if c = CHR ''|'' then pipe_loop cs (parts @ [current]) [] else pipe_loop cs parts (current @ [c]))"

definition ParsePipeSeparated :: "string \<Rightarrow> string list" where
  "ParsePipeSeparated line = pipe_loop line [] []"

section \<open>Reading and writing\<close>

lemma ReadExact_ok:
  assumes "0 \<notin> set (reads fd)" and "n \<le> length (inbox fd)"
  shows "\<exists>ks. ReadExact n fd = (Some (take n (inbox fd)), fd\<lparr>inbox := drop n (inbox fd), reads := ks\<rparr>) \<and> 0 \<notin> set ks"
  using assms
proof (induction n fd rule: ReadExact.induct)
  case (1 n fd)
  show ?case
  proof (cases "n = 0")
    case True
    then show ?thesis using 1(2) by (intro exI [of _ "reads fd"]) (simp add: ReadExact.simps)
  next
    case False
    obtain k ks where k: "chunk (reads fd) n = (k, ks)" by (cases "chunk (reads fd) n")
    then have ks: "0 < k" "k \<le> n" "0 \<notin> set ks" using False 1(2) by (cases "reads fd"; auto simp: min_def split: if_splits)+
    let ?fd = "fd\<lparr>inbox := drop k (inbox fd), reads := ks\<rparr>"
    have len: "length (take k (inbox fd)) = k" "take k (inbox fd) \<noteq> []" using ks 1(3) False by auto
    obtain ks' where IH: "ReadExact (n - k) ?fd = (Some (take (n - k) (inbox ?fd)), ?fd\<lparr>inbox := drop (n - k) (inbox ?fd), reads := ks'\<rparr>)"
      "0 \<notin> set ks'"
    proof -
      have "n - k \<le> length (inbox ?fd)" "0 \<notin> set (reads ?fd)" using 1(3) ks by auto
      then show thesis using 1(1) [OF False k [symmetric] refl refl len(2)] len(1) that by auto
    qed
    have "take n (inbox fd) = take k (inbox fd) @ take (n - k) (drop k (inbox fd))" using ks(2) take_add [of k "n - k" "inbox fd"] by simp
    then show ?thesis using IH False k len ks(2)
      by (intro exI [of _ ks']) (simp add: ReadExact.simps [of n fd] Let_def)
  qed
qed

lemma ReadExact_short:
  assumes "length (inbox fd) < n"
  shows "fst (ReadExact n fd) = None"
  using assms
proof (induction n fd rule: ReadExact.induct)
  case (1 n fd)
  obtain k ks where k: "chunk (reads fd) n = (k, ks)" by (cases "chunk (reads fd) n")
  show ?case
  proof (cases "take k (inbox fd) = []")
    case True
    then show ?thesis using 1(2) k by (subst ReadExact.simps) (simp add: Let_def)
  next
    case False
    have "k \<le> n" using k by (cases "reads fd") auto
    from 1(1) [OF _ k [symmetric] refl refl False] 1(2) False
    have "fst (ReadExact (n - length (take k (inbox fd))) (fd\<lparr>inbox := drop k (inbox fd), reads := ks\<rparr>)) = None" by auto
    moreover have "n \<noteq> 0" using 1(2) by simp
    ultimately show ?thesis using False k by (subst ReadExact.simps) (auto simp: Let_def split: prod.splits)
  qed
qed

lemma WriteExact_ok:
  assumes "0 \<notin> set (writes fd)"
  shows "\<exists>ks. WriteExact buf fd = (True, fd\<lparr>outbox := outbox fd @ buf, writes := ks\<rparr>) \<and> 0 \<notin> set ks"
  using assms
proof (induction buf fd rule: WriteExact.induct)
  case (1 buf fd)
  show ?case
  proof (cases "buf = []")
    case True
    then show ?thesis using 1(2) by (intro exI [of _ "writes fd"]) (simp add: WriteExact.simps)
  next
    case False
    obtain k ks where k: "chunk (writes fd) (length buf) = (k, ks)" by (cases "chunk (writes fd) (length buf)")
    then have ks: "0 < k" "0 \<notin> set ks" using False 1(2) by (cases "writes fd"; auto simp: min_def split: if_splits)+
    let ?fd = "fd\<lparr>outbox := outbox fd @ take k buf, writes := ks\<rparr>"
    obtain ks' where "WriteExact (drop k buf) ?fd = (True, ?fd\<lparr>outbox := outbox ?fd @ drop k buf, writes := ks'\<rparr>)" "0 \<notin> set ks'"
      using 1(1) [OF False k [symmetric] refl] ks by auto
    then show ?thesis using False k ks(1) by (intro exI [of _ ks']) (simp add: WriteExact.simps [of buf fd] Let_def)
  qed
qed

section \<open>Whole messages\<close>

definition wire :: "MessageType \<times> string \<Rightarrow> byte list" where
  "wire m = net_bytes (length (snd m) + 1) @ fst m # map char_byte (snd m)"

definition sendable :: "MessageType \<times> string \<Rightarrow> bool" where
  "sendable m \<longleftrightarrow> length (snd m) + 1 < 2 ^ 32"

lemma net_number_bytes: "n < 2 ^ 32 \<Longrightarrow> net_number (net_bytes n) = n"
  by (simp add: net_number_def net_bytes_def le_nat_le_bytes)

lemma length_net_bytes [simp]: "length (net_bytes n) = 4"
  by (simp add: net_bytes_def)

lemma SendMessage_ok:
  assumes "0 \<notin> set (writes fd)" and "sendable (type, data)"
  shows "\<exists>ks. SendMessage type data fd = (True, fd\<lparr>outbox := outbox fd @ wire (type, data), writes := ks\<rparr>) \<and> 0 \<notin> set ks"
proof -
  let ?n = "net_bytes (length data + 1)"
  obtain ks1 where 1: "WriteExact ?n fd = (True, fd\<lparr>outbox := outbox fd @ ?n, writes := ks1\<rparr>)" "0 \<notin> set ks1"
    using WriteExact_ok [OF assms(1)] by blast
  let ?fd1 = "fd\<lparr>outbox := outbox fd @ ?n, writes := ks1\<rparr>"
  obtain ks2 where 2: "WriteExact [type] ?fd1 = (True, ?fd1\<lparr>outbox := outbox ?fd1 @ [type], writes := ks2\<rparr>)" "0 \<notin> set ks2"
    using WriteExact_ok [of ?fd1 "[type]"] 1(2) by auto
  let ?fd2 = "?fd1\<lparr>outbox := outbox ?fd1 @ [type], writes := ks2\<rparr>"
  obtain ks3 where 3: "WriteExact (map char_byte data) ?fd2 = (True, ?fd2\<lparr>outbox := outbox ?fd2 @ map char_byte data, writes := ks3\<rparr>)" "0 \<notin> set ks3"
    using WriteExact_ok [of ?fd2 "map char_byte data"] 2(2) by auto
  show ?thesis
  proof (cases "data = []")
    case True
    then show ?thesis using 1 2 assms(2) by (intro exI [of _ ks2]) (simp add: SendMessage_def wire_def sendable_def Let_def)
  next
    case False
    then show ?thesis using 1 2 3 assms(2) by (intro exI [of _ ks3]) (simp add: SendMessage_def wire_def sendable_def Let_def)
  qed
qed

lemma RecvMessage_ok:
  assumes "0 \<notin> set (reads fd)" and "sendable m" and "inbox fd = wire m @ rest"
  shows "\<exists>ks. RecvMessage fd = (Some m, fd\<lparr>inbox := rest, reads := ks\<rparr>) \<and> 0 \<notin> set ks"
proof -
  obtain type data where m: "m = (type, data)" by (cases m)
  let ?n = "net_bytes (length data + 1)" and ?data = "map char_byte data"
  have box: "inbox fd = ?n @ type # ?data @ rest" using assms(3) by (simp add: m wire_def)
  obtain ks1 where 1: "ReadExact 4 fd = (Some ?n, fd\<lparr>inbox := type # ?data @ rest, reads := ks1\<rparr>)" "0 \<notin> set ks1"
    using ReadExact_ok [OF assms(1), of 4] box by auto
  let ?fd1 = "fd\<lparr>inbox := type # ?data @ rest, reads := ks1\<rparr>"
  obtain ks2 where 2: "ReadExact 1 ?fd1 = (Some [type], ?fd1\<lparr>inbox := ?data @ rest, reads := ks2\<rparr>)" "0 \<notin> set ks2"
    using ReadExact_ok [of ?fd1 1] 1(2) by auto
  let ?fd2 = "?fd1\<lparr>inbox := ?data @ rest, reads := ks2\<rparr>"
  obtain ks3 where 3: "ReadExact (length data) ?fd2 = (Some ?data, ?fd2\<lparr>inbox := rest, reads := ks3\<rparr>)" "0 \<notin> set ks3"
    using ReadExact_ok [of ?fd2 "length data"] 2(2) by auto
  have len: "net_number ?n = length data + 1" using assms(2) by (simp add: net_number_bytes sendable_def m)
  show ?thesis
  proof (cases "data = []")
    case True
    then show ?thesis using 1 2 len by (intro exI [of _ ks2]) (simp add: RecvMessage_def m Let_def)
  next
    case False
    then show ?thesis using 1 2 3 len by (intro exI [of _ ks3]) (simp add: RecvMessage_def m Let_def comp_def)
  qed
qed

lemma RecvMessage_closed: "inbox fd = [] \<Longrightarrow> fst (RecvMessage fd) = None"
  using ReadExact_short [of fd 4] by (cases "ReadExact 4 fd") (simp add: RecvMessage_def)

text \<open>Sending and receiving a sequence of messages.\<close>

fun send_all :: "(MessageType \<times> string) list \<Rightarrow> socket \<Rightarrow> bool \<times> socket" where
  "send_all [] fd = (True, fd)"
| "send_all (m # ms) fd =
     (case SendMessage (fst m) (snd m) fd of (ok, fd) \<Rightarrow> if ok then send_all ms fd else (False, fd))"

fun receive :: "nat \<Rightarrow> socket \<Rightarrow> (MessageType \<times> string) option list" where
  "receive 0 fd = []"
| "receive (Suc n) fd = (case RecvMessage fd of (r, fd) \<Rightarrow> r # receive n fd)"

lemma send_all_ok:
  assumes "0 \<notin> set (writes fd)" and "\<forall>m \<in> set ms. sendable m"
  shows "\<exists>ks. send_all ms fd = (True, fd\<lparr>outbox := outbox fd @ concat (map wire ms), writes := ks\<rparr>)"
  using assms
proof (induction ms arbitrary: fd)
  case Nil
  show ?case by (intro exI [of _ "writes fd"]) simp
next
  case (Cons m ms)
  obtain type data where m: "m = (type, data)" by (cases m)
  obtain ks where ks: "SendMessage type data fd = (True, fd\<lparr>outbox := outbox fd @ wire m, writes := ks\<rparr>)" "0 \<notin> set ks"
    using SendMessage_ok [of fd type data] Cons.prems m by auto
  from Cons.IH [of "fd\<lparr>outbox := outbox fd @ wire m, writes := ks\<rparr>"] ks(2) Cons.prems(2) show ?case using ks(1) by (auto simp: m)
qed

lemma receive_ok:
  assumes "0 \<notin> set (reads fd)" and "\<forall>m \<in> set ms. sendable m" and "inbox fd = concat (map wire ms)"
  shows "receive (Suc (length ms)) fd = map Some ms @ [None]"
  using assms
proof (induction ms arbitrary: fd)
  case Nil
  then show ?case using RecvMessage_closed [of fd] by (cases "RecvMessage fd") simp
next
  case (Cons m ms)
  obtain ks where "RecvMessage fd = (Some m, fd\<lparr>inbox := concat (map wire ms), reads := ks\<rparr>)" "0 \<notin> set ks"
    using RecvMessage_ok [of fd m "concat (map wire ms)"] Cons.prems by auto
  then show ?case using Cons.IH [of "fd\<lparr>inbox := concat (map wire ms), reads := ks\<rparr>"] Cons.prems(2) by simp
qed

section \<open>Fields\<close>

lemma pipe_loop_field: "CHR ''|'' \<notin> set v \<Longrightarrow> pipe_loop (v @ s) parts current = pipe_loop s parts (current @ v)"
  by (induction v arbitrary: current) auto

lemma ParsePipeSeparated_row:
  assumes "vs \<noteq> []" and "\<forall>v \<in> set vs. CHR ''|'' \<notin> set v"
  shows "ParsePipeSeparated (FormatResultRow vs) = vs"
proof -
  have "pipe_loop (FormatResultRow vs) parts [] = parts @ vs" for parts
    using assms
  proof (induction vs arbitrary: parts rule: FormatResultRow.induct)
    case (2 v)
    then show ?case using pipe_loop_field [of v "[]"] by simp
  next
    case (3 v w vs)
    then show ?case by (simp add: pipe_loop_field)
  qed simp
  then show ?thesis by (simp add: ParsePipeSeparated_def)
qed

section \<open>Properties\<close>

text \<open>
  Whatever the sizes of the chunks in which the operating system transfers the bytes, the messages that one
  side sends are the messages that the other side receives, in order, and then the end of the connection.
\<close>

theorem messages_roundtrip:
  assumes "0 \<notin> set (writes sender)" and "outbox sender = []" and "\<forall>m \<in> set ms. sendable m"
    and "0 \<notin> set (reads receiver)" and "inbox receiver = outbox (snd (send_all ms sender))"
  shows "fst (send_all ms sender) \<and> receive (Suc (length ms)) receiver = map Some ms @ [None]"
proof -
  from send_all_ok [OF assms(1,3)] assms(2) obtain ks where s: "send_all ms sender = (True, sender\<lparr>outbox := concat (map wire ms), writes := ks\<rparr>)"
    by auto
  then show ?thesis using receive_ok [OF assms(4,3)] assms(5) by simp
qed

theorem messages_roundtrip_witness:
  "let sender = \<lparr>inbox = [], reads = [], outbox = [], writes = [3, 1]\<rparr>;
       ms = [(QUERY, ''ab''), (TERMINATE, [])];
       receiver = \<lparr>inbox = outbox (snd (send_all ms sender)), reads = [1, 2, 1, 1, 1], outbox = [], writes = []\<rparr>
   in receive 3 receiver = [Some (QUERY, ''ab''), Some (TERMINATE, []), None]"
  using messages_roundtrip [of "\<lparr>inbox = [], reads = [], outbox = [], writes = [3, 1]\<rparr>" "[(QUERY, ''ab''), (TERMINATE, [])]"
      "\<lparr>inbox = outbox (snd (send_all [(QUERY, ''ab''), (TERMINATE, [])] \<lparr>inbox = [], reads = [], outbox = [], writes = [3, 1]\<rparr>)),
        reads = [1, 2, 1, 1, 1], outbox = [], writes = []\<rparr>"]
  by (simp add: sendable_def numeral_3_eq_3 Let_def del: receive.simps send_all.simps)

end
