(* ===== verification/Terminal.thy ===== *)
theory Terminal
  imports Protocol Execution_Engine
begin

text \<open>
  Result tables on a terminal: the text of a result message (\<open>HandleQuery\<close> in
  \<open>src/onebase_server/server_main.cpp\<close>), what the client prints for it (\<open>PrintResult\<close> in
  \<open>src/onebase_client/client_main.cpp\<close>) and what the shell prints for the same rows
  (\<open>PrintResultTable\<close> in \<open>tools/onebase_shell.cpp\<close>). Output to \<open>std::cout\<close> is a string.
\<close>

section \<open>Tables\<close>

abbreviation newline :: char where
  "newline \<equiv> CHR 0x0A"

text \<open>\<open>std::setw(static_cast<int>(n))\<close> with \<open>std::left\<close>.\<close>

definition int_width :: "nat \<Rightarrow> nat" where
  "int_width n = (let m = n mod 2 ^ 32 in if m < 2 ^ 31 then m else 0)"

definition padded :: "nat \<Rightarrow> string \<Rightarrow> string" where
  "padded w s = s @ replicate (int_width w - length s) CHR '' ''"

definition column_width :: "string list \<Rightarrow> string list list \<Rightarrow> nat \<Rightarrow> nat" where
  "column_width headers rows c =
     fold (\<lambda>row w. if c < length row then max w (length (row ! c)) else w) rows (length (headers ! c))"

definition separator_line :: "nat list \<Rightarrow> string" where
  "separator_line widths = ''+'' @ concat (map (\<lambda>w. replicate (w + 2) CHR ''-'' @ ''+'') widths)"

definition table_line :: "nat list \<Rightarrow> string list \<Rightarrow> string" where
  "table_line widths row =
     ''|'' @ concat (map (\<lambda>c. '' '' @ padded (widths ! c) (if c < length row then row ! c else []) @ '' |'') [0..<length widths]) @ [newline]"

definition table_text :: "string list \<Rightarrow> string list list \<Rightarrow> string" where
  "table_text headers rows =
     (let widths = map (column_width headers rows) [0..<length headers]; separator = separator_line widths @ [newline] in
      separator @ table_line widths headers @ separator @ concat (map (table_line widths) rows) @ separator)"

section \<open>The shell\<close>

text \<open>The values a row is shown with: the schema gives the number of columns, the tuple its stored values.\<close>

definition row_texts :: "float_ops \<Rightarrow> Schema \<Rightarrow> Tuple \<Rightarrow> string list" where
  "row_texts F sch t = map (\<lambda>i. Value_ToString F (Tuple_GetValue t i)) [0..<length (columns sch)]"

definition row_count :: "nat \<Rightarrow> string" where
  "row_count n = ''('' @ digits_of n @ '' row'' @ (if n \<noteq> 1 then ''s'' else []) @ '')''"

definition PrintResultTable :: "float_ops \<Rightarrow> Schema \<Rightarrow> Tuple list \<Rightarrow> string" where
  "PrintResultTable F sch rows =
     table_text (map col_name (columns sch)) (map (row_texts F sch) rows) @ row_count (length rows) @ [newline]"

section \<open>The server's message and the client\<close>

definition result_body :: "float_ops \<Rightarrow> Schema \<Rightarrow> Tuple list \<Rightarrow> string" where
  "result_body F sch rows =
     FormatResultHeader (map col_name (columns sch)) @ newline #
     concat (map (\<lambda>t. FormatResultRow (row_texts F sch t) @ [newline]) rows) @ row_count (length rows)"

text \<open>\<open>while (std::getline(iss, line))\<close>.\<close>

fun getlines :: "string \<Rightarrow> string \<Rightarrow> string list" where
  "getlines [] current = (if current = [] then [] else [current])"
| "getlines (c # cs) current = (if c = newline then current # getlines cs [] else getlines cs (current @ [c]))"

definition data_line :: "string \<Rightarrow> bool" where
  "data_line l \<longleftrightarrow> \<not> (l = [] \<or> hd l = CHR ''('')"

fun find_summary :: "string list \<Rightarrow> string" where
  "find_summary [] = []"
| "find_summary (l # ls) = (if l \<noteq> [] \<and> hd l = CHR ''('' then l @ [newline] else find_summary ls)"

definition PrintResult :: "string \<Rightarrow> string" where
  "PrintResult body =
     (case getlines body [] of
        [] \<Rightarrow> []
      | header # ls \<Rightarrow>
          table_text (ParsePipeSeparated header) (map ParsePipeSeparated (takeWhile data_line ls)) @
          find_summary (rev (header # ls)))"

section \<open>What the client shows\<close>

lemma getlines_line: "newline \<notin> set l \<Longrightarrow> getlines (l @ newline # s) current = (current @ l) # getlines s []"
  by (induction l arbitrary: current) auto

lemma getlines_last: "newline \<notin> set l \<Longrightarrow> getlines l current = (if current @ l = [] then [] else [current @ l])"
  by (induction l arbitrary: current) auto

lemma getlines_lines:
  "\<forall>l \<in> set ls. newline \<notin> set l \<Longrightarrow> getlines (concat (map (\<lambda>l. l @ [newline]) ls) @ s) [] = ls @ getlines s []"
  by (induction ls) (simp_all add: getlines_line)

definition clean :: "string \<Rightarrow> bool" where
  "clean s \<longleftrightarrow> CHR ''|'' \<notin> set s \<and> newline \<notin> set s"

lemma FormatResultRow_clean: "\<forall>v \<in> set vs. clean v \<Longrightarrow> newline \<notin> set (FormatResultRow vs)"
  by (induction vs rule: FormatResultRow.induct) (auto simp: clean_def)

lemma digits_chars: "c \<in> set (digits_of n) \<Longrightarrow> of_char c \<in> {48..<58 :: nat}"
proof (induction n rule: digits_of.induct)
  case (1 n)
  then show ?case by (subst (asm) (2) digits_of.simps) (auto split: if_splits)
qed

lemma clean_row_count: "clean (row_count n)"
proof -
  have "CHR ''|'' \<notin> set (digits_of n)" "newline \<notin> set (digits_of n)" using digits_chars [of _ n] by force+
  then show ?thesis by (simp add: row_count_def clean_def)
qed

text \<open>The lines of a message whose header and values are clean.\<close>

definition shown :: "string list \<Rightarrow> bool" where
  "shown vs \<longleftrightarrow> data_line (FormatResultRow vs)"

lemma getlines_body:
  assumes "\<forall>v \<in> set (map col_name (columns sch)). clean v" and "\<forall>t \<in> set rows. \<forall>v \<in> set (row_texts F sch t). clean v"
  shows "getlines (result_body F sch rows) [] =
    FormatResultRow (map col_name (columns sch)) # map (\<lambda>t. FormatResultRow (row_texts F sch t)) rows @ [row_count (length rows)]"
proof -
  let ?ls = "map (\<lambda>t. FormatResultRow (row_texts F sch t)) rows"
  have "getlines (concat (map (\<lambda>l. l @ [newline]) ?ls) @ row_count (length rows)) [] = ?ls @ [row_count (length rows)]"
    using assms(2) clean_row_count by (subst getlines_lines) (auto simp: FormatResultRow_clean getlines_last clean_def row_count_def)
  then have "getlines (concat (map (\<lambda>t. FormatResultRow (row_texts F sch t) @ [newline]) rows) @ row_count (length rows)) [] =
      ?ls @ [row_count (length rows)]" by (simp add: comp_def)
  then show ?thesis using assms(1)
    by (simp add: result_body_def FormatResultHeader_def FormatResultRow_clean getlines_line comp_def)
qed

lemma PrintResult_body:
  assumes "columns sch \<noteq> []" and "\<forall>v \<in> set (map col_name (columns sch)). clean v"
    and "\<forall>t \<in> set rows. \<forall>v \<in> set (row_texts F sch t). clean v"
  shows "PrintResult (result_body F sch rows) =
    table_text (map col_name (columns sch)) (takeWhile shown (map (row_texts F sch) rows)) @ row_count (length rows) @ [newline]"
proof -
  let ?fields = "row_texts F sch"
  have ne: "?fields t \<noteq> []" for t using assms(1) by (simp add: row_texts_def)
  have "takeWhile data_line (map (\<lambda>t. FormatResultRow (?fields t)) rows @ [row_count n]) =
      map FormatResultRow (takeWhile shown (map ?fields rows))" for n
    by (induction rows) (simp_all add: shown_def data_line_def row_count_def)
  moreover have "map ParsePipeSeparated (map FormatResultRow (takeWhile shown (map ?fields rows))) = takeWhile shown (map ?fields rows)"
  proof -
    have "ParsePipeSeparated (FormatResultRow vs) = vs" if "vs \<in> set (takeWhile shown (map ?fields rows))" for vs
      using set_takeWhileD [OF that] ne assms(3) by (intro ParsePipeSeparated_row) (auto simp: clean_def)
    then show ?thesis by (simp add: map_idI)
  qed
  moreover have "ParsePipeSeparated (FormatResultRow (map col_name (columns sch))) = map col_name (columns sch)"
    using assms(1,2) by (intro ParsePipeSeparated_row) (auto simp: clean_def)
  moreover have "find_summary (row_count n # ls) = row_count n @ [newline]" for n ls by (simp add: row_count_def)
  ultimately show ?thesis
    unfolding PrintResult_def getlines_body [OF assms(2,3)] by simp
qed

lemma client_shown:
  assumes "columns sch \<noteq> []" and "\<forall>v \<in> set (map col_name (columns sch)). clean v"
    and "\<forall>t \<in> set rows. (\<forall>v \<in> set (row_texts F sch t). clean v) \<and> shown (row_texts F sch t)"
  shows "PrintResult (result_body F sch rows) = PrintResultTable F sch rows"
proof -
  have "takeWhile shown (map (row_texts F sch) rows) = map (row_texts F sch) rows" using assms(3) by (induction rows) simp_all
  moreover have "\<forall>t \<in> set rows. \<forall>v \<in> set (row_texts F sch t). clean v" using assms(3) by blast
  ultimately show ?thesis using PrintResult_body [OF assms(1,2)] by (simp only: PrintResultTable_def length_map)
qed

section \<open>Properties\<close>

text \<open>
  The client shows for a result exactly the table that the shell prints for the same rows, when no name or
  value contains a field separator or a newline and no row starts with a parenthesis or is one empty field.
\<close>

theorem client_shows_shell_table:
  assumes "columns sch \<noteq> []" and "\<forall>v \<in> set (map col_name (columns sch)). clean v"
    and "\<forall>t \<in> set rows. \<forall>v \<in> set (row_texts F sch t). clean v"
    and "\<forall>t \<in> set rows. shown (row_texts F sch t)"
  shows "PrintResult (result_body F sch rows) = PrintResultTable F sch rows"
  using client_shown [OF assms(1,2)] assms(3,4) by blast

definition name_schema :: Schema where
  "name_schema = Schema_init [Column_init ''name'' VARCHAR 0]"

definition name_row :: "string \<Rightarrow> Tuple" where
  "name_row s = \<lparr>tuple_rid = RID INVALID_PAGE_ID 0, tuple_data = [], tuple_values = [Value_string VARCHAR s]\<rparr>"

lemma name_columns [simp]: "map col_name (columns name_schema) = [''name'']" "length (columns name_schema) = 1" "columns name_schema \<noteq> []"
  by (simp_all add: name_schema_def Schema_init_def Column_init_def IsInlined_def)

lemma name_texts [simp]: "row_texts F name_schema (name_row s) = [s]"
  by (simp add: row_texts_def Tuple_GetValue_def name_row_def Value_ToString_def Value_string_def)

theorem client_shows_shell_table_witness:
  "PrintResult (result_body fixed_point name_schema [name_row ''a'']) = PrintResultTable fixed_point name_schema [name_row ''a'']"
  by (rule client_shows_shell_table) (simp_all add: clean_def shown_def data_line_def)

text \<open>
  The client stops at the first row whose text starts with a parenthesis (or is empty): that row and all
  later rows are left out of the table, while the count below it is the full one.
\<close>

theorem client_drops_rows:
  assumes "columns sch \<noteq> []" and "\<forall>v \<in> set (map col_name (columns sch)). clean v"
    and "\<forall>t \<in> set (rows @ t # later). \<forall>v \<in> set (row_texts F sch t). clean v"
    and "\<forall>t \<in> set rows. shown (row_texts F sch t)" and "hd (FormatResultRow (row_texts F sch t)) = CHR ''(''"
  shows "PrintResult (result_body F sch (rows @ t # later)) =
    table_text (map col_name (columns sch)) (map (row_texts F sch) rows) @ row_count (length rows + length later + 1) @ [newline]"
proof -
  have "takeWhile shown (map (row_texts F sch) rows @ row_texts F sch t # map (row_texts F sch) later) = map (row_texts F sch) rows"
    using assms(4,5) by (induction rows) (simp_all add: shown_def data_line_def)
  then show ?thesis using PrintResult_body [OF assms(1-3)] by simp
qed

theorem client_drops_rows_witness:
  "PrintResult (result_body fixed_point name_schema ([name_row ''a''] @ name_row ''(b)'' # [name_row ''c''])) =
     table_text [''name''] [[''a'']] @ row_count 3 @ [newline]"
  using client_drops_rows [of name_schema "[name_row ''a'']" "name_row ''(b)''" "[name_row ''c'']" fixed_point]
  by (simp add: clean_def shown_def data_line_def numeral_3_eq_3)

end
