(* ===== verification/Server.thy ===== *)
theory Server
  imports Binder_Correct Terminal
begin

text \<open>
  The programs around the engine: the server's handling of a query and of a client
  (\<open>src/onebase_server/server_main.cpp\<close>), the loop of the client
  (\<open>src/onebase_client/client_main.cpp\<close>) and of the shell (\<open>tools/onebase_shell.cpp\<close>).
  Here the flag \<open>g_running\<close> stays true; \<open>Programs\<close> has the \<open>main\<close> functions around these loops and
  \<open>Server_Threads\<close> the threads and the signals. The lines of \<open>std::cin\<close> are a list and the output a list of texts for \<open>std::cout\<close> and
  \<open>std::cerr\<close>. Undefined behaviour of a query ends the program, an exception is caught.
\<close>

section \<open>The server\<close>

definition what :: "error \<Rightarrow> string" where
  "what e = (case e of InvalidArgument s \<Rightarrow> s | RuntimeError s \<Rightarrow> s | LogicError s \<Rightarrow> s | OutOfRange s \<Rightarrow> s | UndefinedBehaviour \<Rightarrow> [])"

text \<open>\<open>catch (const std::exception &e)\<close>.\<close>

definition catch :: "(error \<Rightarrow> 'a) \<Rightarrow> error \<Rightarrow> Catalog \<Rightarrow> ('a, Catalog) outcome option" where
  "catch handler e c = Some (if e = UndefinedBehaviour then Inl e else Inr (handler e), c)"

text \<open>Binding, optimizing and executing a query: the schema and the rows of the result.\<close>

definition run_query :: "float_ops \<Rightarrow> platform \<Rightarrow> bool \<Rightarrow> string \<Rightarrow> Catalog \<Rightarrow> (Schema \<times> Tuple list, Catalog) outcome option" where
  "run_query F P with_catalog sql c =
     try_err (BindQuery P sql c) (\<lambda>p c.
     try_err (Optimize (if with_catalog then Some c else None) p) (\<lambda>p c.
     and_then (Execute F p c) (\<lambda>rows c. Some (Inr (GetOutputSchema p, rows), c))) c) c"

definition HandleQuery :: "float_ops \<Rightarrow> platform \<Rightarrow> string \<Rightarrow> socket \<Rightarrow> Catalog \<Rightarrow> (socket, Catalog) outcome option" where
  "HandleQuery F P sql fd c =
     (case run_query F P True sql c of
        None \<Rightarrow> None
      | Some (Inl e, c) \<Rightarrow> catch (\<lambda>e. snd (SendMessage ERROR (what e) fd)) e c
      | Some (Inr (sch, rows), c) \<Rightarrow> Some (Inr (snd (SendMessage RESULT (result_body F sch rows) fd)), c))"

partial_function (option) HandleClient :: "float_ops \<Rightarrow> platform \<Rightarrow> socket \<Rightarrow> Catalog \<Rightarrow> (socket, Catalog) outcome option" where
  [code]: "HandleClient F P fd c =
     (case RecvMessage fd of
        (None, fd) \<Rightarrow> Some (Inr fd, c)
      | (Some (type, data), fd) \<Rightarrow>
          if type = QUERY then and_then (HandleQuery F P data fd c) (\<lambda>fd c. HandleClient F P fd c)
          else if type = TERMINATE then Some (Inr fd, c)
          else HandleClient F P (snd (SendMessage ERROR ''Unknown message type'' fd)) c)"

section \<open>Statements on several lines\<close>

datatype console = Out string | Err string

definition isspace :: "char \<Rightarrow> bool" where
  "isspace c \<longleftrightarrow> (of_char c :: nat) = 32 \<or> 9 \<le> (of_char c :: nat) \<and> (of_char c :: nat) \<le> 13"

definition trim :: "string \<Rightarrow> string" where
  "trim s = rev (dropWhile isspace (rev (dropWhile isspace s)))"

text \<open>A line is added to the statement; a statement is complete when the last character is a semicolon.\<close>

definition add_line :: "string \<Rightarrow> string \<Rightarrow> string + string" where
  "add_line query_buf line =
     (let buf = query_buf @ line in if last buf \<noteq> CHR '';'' then Inl (buf @ '' '') else Inr (trim (butlast buf)))"

section \<open>The client\<close>

definition client_prompt :: "string \<Rightarrow> console" where
  "client_prompt query_buf = Out (if query_buf = [] then ''onebase=> '' else ''onebase-> '')"

definition client_help :: string where
  "client_help = ''Commands:'' @ [newline] @ ''  '' @ CHR 0x5C # ''q          Quit'' @ [newline] @ ''  '' @ CHR 0x5C # ''?          Show this help'' @ [newline] @
     ''  SQL;        Execute a SQL statement'' @ [newline, newline]"

definition show_response :: "MessageType \<Rightarrow> string \<Rightarrow> console" where
  "show_response type data =
     (if type = RESULT then Out (PrintResult data)
      else if type = ERROR then Err (''ERROR: '' @ data @ [newline])
      else if type = COMMAND_COMPLETE then Out (data @ [newline])
      else Err (''Unexpected response from server.'' @ [newline]))"

definition lost :: console where
  "lost = Err (''Connection lost.'' @ [newline])"

fun client_loop :: "string list \<Rightarrow> string \<Rightarrow> socket \<Rightarrow> console list \<times> socket" where
  "client_loop [] buf fd = ([client_prompt buf], fd)"
| "client_loop (line # ls) buf fd =
     (let prompt = client_prompt buf;
          continue = (\<lambda>out buf fd. case client_loop ls buf fd of (outs, fd) \<Rightarrow> (prompt # out @ outs, fd)) in
      if line = CHR 0x5C # ''q'' \<or> line = ''quit'' \<or> line = ''exit'' then ([prompt], snd (SendMessage TERMINATE [] fd))
      else if line = CHR 0x5C # ''?'' \<or> line = ''help'' then continue [Out client_help] buf fd
      else if line = [] then continue [] buf fd
      else (case add_line buf line of
          Inl buf \<Rightarrow> continue [] buf fd
        | Inr query \<Rightarrow>
            if query = [] then continue [] [] fd
            else (case SendMessage QUERY query fd of
              (False, fd) \<Rightarrow> ([prompt, lost], fd)
            | (True, fd) \<Rightarrow> (case RecvMessage fd of
                (None, fd) \<Rightarrow> ([prompt, lost], fd)
              | (Some (type, data), fd) \<Rightarrow> continue [show_response type data] [] fd))))"

section \<open>The shell\<close>

definition shell_prompt :: "string \<Rightarrow> console" where
  "shell_prompt query_buf = Out (if query_buf = [] then ''onebase> '' else ''     -> '')"

definition ExecuteSQL :: "float_ops \<Rightarrow> platform \<Rightarrow> string \<Rightarrow> Catalog \<Rightarrow> (console, Catalog) outcome option" where
  "ExecuteSQL F P sql c =
     (case run_query F P False sql c of
        None \<Rightarrow> None
      | Some (Inl e, c) \<Rightarrow> catch (\<lambda>e. Err (''ERROR: '' @ what e @ [newline])) e c
      | Some (Inr (sch, rows), c) \<Rightarrow> Some (Inr (Out (PrintResultTable F sch rows)), c))"

definition shell_help :: string where
  "shell_help = ''Commands:'' @ [newline] @ ''  help / '' @ CHR 0x5C # ''h     Show this help'' @ [newline] @
     ''  tables / '' @ CHR 0x5C # ''dt  List all tables'' @ [newline] @
     ''  quit / '' @ CHR 0x5C # ''q     Exit the shell'' @ [newline, newline] @
     ''Enter SQL statements terminated by a semicolon (;).'' @ [newline] @
     ''Supported: SELECT, INSERT, UPDATE, DELETE'' @ [newline, newline]"

fun join_columns_text :: "string list \<Rightarrow> string" where
  "join_columns_text [] = []"
| "join_columns_text [s] = s"
| "join_columns_text (s # ss) = s @ '', '' @ join_columns_text ss"

definition Schema_ToString :: "Schema \<Rightarrow> string" where
  "Schema_ToString sch = ''('' @ join_columns_text (map Column_ToString (columns sch)) @ '')''"

definition shell_tables :: "Catalog \<Rightarrow> string" where
  "shell_tables c =
     (if GetAllTables c = [] then ''No tables.'' @ [newline]
      else padded 20 ''Name'' @ ''Schema'' @ [newline] @ replicate 60 CHR ''-'' @ [newline] @
        concat (map (\<lambda>info. padded 20 (ti_name info) @ Schema_ToString (ti_schema info) @ [newline]) (GetAllTables c)))"

primrec shell_loop :: "float_ops \<Rightarrow> platform \<Rightarrow> string list \<Rightarrow> string \<Rightarrow> Catalog \<Rightarrow> (console list, Catalog) outcome option" where
  "shell_loop F P [] buf c = Some (Inr [shell_prompt buf], c)"
| "shell_loop F P (line # ls) buf c =
     (let prompt = shell_prompt buf;
          continue = (\<lambda>out buf c. and_then (shell_loop F P ls buf c) (\<lambda>outs c. Some (Inr (prompt # out @ outs), c))) in
      if line = [] then continue [] buf c
      else if buf = [] \<and> (line = ''quit'' \<or> line = ''exit'' \<or> line = CHR 0x5C # ''q'') then
        Some (Inr [prompt, Out (''Bye!'' @ [newline])], c)
      else if buf = [] \<and> (line = ''help'' \<or> line = CHR 0x5C # ''h'' \<or> line = CHR 0x5C # ''?'') then
        continue [Out shell_help] buf c
      else if buf = [] \<and> (line = ''tables'' \<or> line = CHR 0x5C # ''dt'') then continue [Out (shell_tables c)] buf c
      else (case add_line buf line of
          Inl buf \<Rightarrow> continue [] buf c
        | Inr query \<Rightarrow>
            if query = [] then continue [] [] c
            else and_then (ExecuteSQL F P query c) (\<lambda>out c. continue [out] [] c)))"

section \<open>Statements\<close>

definition trimmed :: "string \<Rightarrow> bool" where
  "trimmed sql \<longleftrightarrow> sql \<noteq> [] \<and> \<not> isspace (hd sql) \<and> \<not> isspace (last sql)"

lemma dropWhile_none: "s \<noteq> [] \<Longrightarrow> \<not> f (hd s) \<Longrightarrow> dropWhile f s = s"
  by (cases s) simp_all

lemma trim_trimmed: "trimmed sql \<Longrightarrow> trim sql = sql"
  by (simp add: trimmed_def trim_def dropWhile_none hd_rev)

lemma add_line_statement: "trimmed sql \<Longrightarrow> add_line [] (sql @ '';'') = Inr sql"
  by (simp add: add_line_def Let_def trim_trimmed)

section \<open>A query over the wire\<close>

text \<open>The client's side: a line that is a statement is sent, and the response shown; then the user quits.\<close>

lemma client_statement:
  assumes "trimmed sql" and "0 \<notin> set (writes fd)" and "0 \<notin> set (reads fd)" and "sendable (QUERY, sql)" and "sendable (type, data)"
    and "inbox fd = wire (type, data)" and "outbox fd = []"
  shows "\<exists>fd'. client_loop [sql @ '';'', CHR 0x5C # ''q''] [] fd =
      ([Out ''onebase=> '', show_response type data, Out ''onebase=> ''], fd') \<and> outbox fd' = wire (QUERY, sql) @ wire (TERMINATE, [])"
proof -
  obtain ks where s: "SendMessage QUERY sql fd = (True, fd\<lparr>outbox := wire (QUERY, sql), writes := ks\<rparr>)" "0 \<notin> set ks"
    using SendMessage_ok [OF assms(2,4)] assms(7) by auto
  let ?fd1 = "fd\<lparr>outbox := wire (QUERY, sql), writes := ks\<rparr>"
  obtain ks' where r: "RecvMessage ?fd1 = (Some (type, data), ?fd1\<lparr>inbox := [], reads := ks'\<rparr>)"
    using RecvMessage_ok [of ?fd1 "(type, data)" "[]"] assms(3,5,6) by auto
  obtain ks'' where t: "SendMessage TERMINATE [] (?fd1\<lparr>inbox := [], reads := ks'\<rparr>) =
      (True, ?fd1\<lparr>inbox := [], reads := ks', outbox := wire (QUERY, sql) @ wire (TERMINATE, []), writes := ks''\<rparr>)"
    using SendMessage_ok [of "?fd1\<lparr>inbox := [], reads := ks'\<rparr>" TERMINATE "[]"] s(2) by (auto simp: sendable_def)
  have line: "sql @ '';'' \<noteq> CHR 0x5C # ''q''" "sql @ '';'' \<noteq> ''quit''" "sql @ '';'' \<noteq> ''exit''" "sql @ '';'' \<noteq> CHR 0x5C # ''?''" "sql @ '';'' \<noteq> ''help''"
    by (auto dest!: arg_cong [where f = last])
  have "sql \<noteq> []" using assms(1) by (simp add: trimmed_def)
  then show ?thesis
    using line add_line_statement [OF assms(1)] s(1) r t by (simp add: client_prompt_def Let_def)
qed

text \<open>The server's side.\<close>

lemma server_answers:
  assumes "0 \<notin> set (reads fd)" and "0 \<notin> set (writes fd)" and "sendable (QUERY, sql)"
    and "inbox fd = wire (QUERY, sql) @ wire (TERMINATE, [])" and "outbox fd = []"
    and "run_query F P True sql c = Some (Inr (sch, rows), c)" and "sendable (RESULT, result_body F sch rows)"
  shows "\<exists>fd'. HandleClient F P fd c = Some (Inr fd', c) \<and> outbox fd' = wire (RESULT, result_body F sch rows)"
proof -
  obtain ks where r: "RecvMessage fd = (Some (QUERY, sql), fd\<lparr>inbox := wire (TERMINATE, []), reads := ks\<rparr>)" "0 \<notin> set ks"
    using RecvMessage_ok [OF assms(1,3,4)] by blast
  let ?fd1 = "fd\<lparr>inbox := wire (TERMINATE, []), reads := ks\<rparr>"
  obtain ks' where s: "SendMessage RESULT (result_body F sch rows) ?fd1 = (True, ?fd1\<lparr>outbox := wire (RESULT, result_body F sch rows), writes := ks'\<rparr>)"
    using SendMessage_ok [of ?fd1 RESULT "result_body F sch rows"] assms(2,5,7) by auto
  let ?fd2 = "?fd1\<lparr>outbox := wire (RESULT, result_body F sch rows), writes := ks'\<rparr>"
  obtain ks'' where t: "RecvMessage ?fd2 = (Some (TERMINATE, []), ?fd2\<lparr>inbox := [], reads := ks''\<rparr>)"
    using RecvMessage_ok [of ?fd2 "(TERMINATE, [])" "[]"] r(2) by (auto simp: sendable_def)
  have "HandleQuery F P sql ?fd1 c = Some (Inr ?fd2, c)" using assms(6) s by (simp add: HandleQuery_def)
  moreover have "QUERY \<noteq> TERMINATE" by (simp add: QUERY_def TERMINATE_def char_byte_def)
  ultimately have "HandleClient F P fd c = HandleClient F P ?fd2 c" using r(1) by (subst HandleClient.simps) simp
  also have "\<dots> = Some (Inr (?fd2\<lparr>inbox := [], reads := ks''\<rparr>), c)" using t \<open>QUERY \<noteq> TERMINATE\<close> by (subst HandleClient.simps) simp
  finally show ?thesis by (auto intro!: exI)
qed

text \<open>The texts of the values that a row is shown with.\<close>

definition presentable :: "float_ops \<Rightarrow> Value list \<Rightarrow> bool" where
  "presentable F vs \<longleftrightarrow> (\<forall>v \<in> set vs. clean (Value_ToString F v)) \<and> shown (map (Value_ToString F) vs)"

lemma row_texts_values: "tuple_values t = vs \<Longrightarrow> length vs = length (columns sch) \<Longrightarrow> row_texts F sch t = map (Value_ToString F) vs"
  by (auto simp: row_texts_def Tuple_GetValue_def intro!: nth_equalityI)

section \<open>Properties\<close>


definition demo_sql :: string where
  "demo_sql = ''SELECT * FROM t WHERE a = 9''"

definition idle :: "byte list \<Rightarrow> socket" where
  "idle box = \<lparr>inbox = box, reads = [1, 3, 2], outbox = [], writes = [2, 5]\<rparr>"

lemma digit_texts: "digits_of 9 = ''9''" "digits_of (Suc 0) = ''1''"
  by code_simp+

lemma nine_text: "Value_ToString F (Value_int INTEGER 9) = ''9''"
  by (simp add: Value_ToString_def Value_int_def integer_def int_to_string_def digit_texts)

lemma demo_body:
  assumes "map tuple_values out = [[Value_int INTEGER 9]]"
  shows "result_body F demo_schema out = ''a'' @ newline # ''9'' @ newline # ''(1 row)''"
proof -
  from assms obtain t where "out = [t]" "tuple_values t = [Value_int INTEGER 9]" by auto
  then show ?thesis using row_texts_values [of t "[Value_int INTEGER 9]" demo_schema F]
    by (simp add: result_body_def FormatResultHeader_def Column_init_def row_count_def digit_texts nine_text)
qed


end
