(* ===== verification/Instance.thy ===== *)
theory Instance
  imports Query_Frame Server Buffer_Pool_Refinement Txn_Manager
begin

text \<open>
  The database instance (\<open>src/onebase_server/onebase_instance.cpp\<close>, \<open>server/onebase_instance.h\<close>): the objects
  that its constructor makes, over the file the operating system finds under the name. The catalog and the buffer pool
  are given side by side: the catalog runs on the page store that the pool implements. A new instance satisfies
  every invariant of the components, and its catalog has no table, whatever the file holds; no statement makes one.
\<close>

section \<open>The constructor\<close>

text \<open>What \<open>open\<close> finds: a file, no file where one can be made, or neither.\<close>

datatype db_file = Existing "byte list" | Absent | Unopenable

definition DiskManager_init :: "string \<Rightarrow> db_file \<Rightarrow> error + DiskManager" where
  "DiskManager_init name file =
     (case file of
        Existing contents \<Rightarrow> Inr (DiskManager_open contents)
      | Absent \<Rightarrow> Inr (DiskManager_open [])
      | Unopenable \<Rightarrow> Inl (RuntimeError (''Cannot open DB file: '' @ name)))"

definition TransactionManager_init :: "LockManager \<Rightarrow> TransactionManager" where
  "TransactionManager_init lm = \<lparr>next_txn_id = 0, lock_manager = lm\<rparr>"

definition DEFAULT_BUFFER_POOL_SIZE :: nat where
  "DEFAULT_BUFFER_POOL_SIZE = 64"

definition LRUK_REPLACER_K :: nat where
  "LRUK_REPLACER_K = 10"

record OneBaseInstance =
  bpm :: BufferPoolManager
  txn_mgr :: TransactionManager
  catalog :: Catalog

definition OneBaseInstance_init :: "string \<Rightarrow> db_file \<Rightarrow> nat \<Rightarrow> error + OneBaseInstance" where
  "OneBaseInstance_init name file n =
     bind_err (DiskManager_init name file) (\<lambda>disk.
       Inr \<lparr>bpm = BufferPoolManager_init n disk LRUK_REPLACER_K,
            txn_mgr = TransactionManager_init LockManager_init,
            catalog = Catalog_init (ps_init n (next_page_id disk))\<rparr>)"

definition GetBufferPoolManager :: "OneBaseInstance \<Rightarrow> BufferPoolManager" where
  "GetBufferPoolManager inst = bpm inst"

definition GetCatalog :: "OneBaseInstance \<Rightarrow> Catalog" where
  "GetCatalog inst = catalog inst"

lemma OneBaseInstance_init_ok:
  assumes "OneBaseInstance_init name file n = Inr inst"
  obtains contents where "bpm inst = BufferPoolManager_init n (DiskManager_open contents) 10"
    "txn_mgr inst = TransactionManager_init LockManager_init"
    "catalog inst = Catalog_init (ps_init n (next_page_id (DiskManager_open contents)))"
  using assms by (auto simp: OneBaseInstance_init_def DiskManager_init_def LRUK_REPLACER_K_def split: db_file.splits)

section \<open>Statements\<close>

text \<open>The catalogs that some statements, run by server or shell, can lead to.\<close>

inductive after_statements :: "float_ops \<Rightarrow> platform \<Rightarrow> Catalog \<Rightarrow> Catalog \<Rightarrow> bool" for F P c where
  none: "after_statements F P c c"
| statement: "after_statements F P c c1 \<Longrightarrow> run_query F P with_catalog sql c1 = Some (r, c2) \<Longrightarrow> after_statements F P c c2"

lemma keeps_run_query: "keeps (run_query F P with_catalog sql)"
  unfolding run_query_def [abs_def] by (intro keeps_intros keeps_Execute)

lemma after_statements_tables: "after_statements F P c c' \<Longrightarrow> same_tables c c'"
  by (induction rule: after_statements.induct) (auto intro: same_tables_trans keepsD [OF keeps_run_query])

definition no_tables :: "Catalog \<Rightarrow> bool" where
  "no_tables c \<longleftrightarrow> tables c = [] \<and> table_names c = Map.empty"

lemma no_tables_found: "no_tables c \<Longrightarrow> find_table t c = Inl (RuntimeError (''Table not found: '' @ t))"
  by (simp add: no_tables_def find_table_def GetTable_def)

text \<open>The table that a statement names first.\<close>

fun first_table :: "pg_statement \<Rightarrow> string option" where
  "first_table (PG_SelectStmt sel) = (case fromClause sel of FromTable t _ # _ \<Rightarrow> Some t | _ \<Rightarrow> None)"
| "first_table (PG_InsertStmt t _) = Some t"
| "first_table (PG_DeleteStmt t _) = Some t"
| "first_table (PG_UpdateStmt t _ _) = Some t"
| "first_table _ = None"

lemma BindStatement_no_tables:
  assumes "no_tables c" and "first_table stmt = Some t"
  shows "BindStatement P stmt c = Inl (RuntimeError (''Table not found: '' @ t))"
  using assms(2) no_tables_found [OF assms(1), of t]
  by (cases stmt rule: first_table.cases)
    (auto simp: BindStatement_def Let_def bind_select_def bind_from_def bind_from_item_def join_side_def
      bind_insert_def bind_delete_def bind_update_def split: list.splits pg_from.splits)

section \<open>Properties\<close>

text \<open>
  A new instance is well formed: the pool satisfies its invariant and implements the store that the catalog runs on,
  the lock manager's invariant holds, the names and numbers of the catalog agree, every table has its rows and every index
  is up to date. These are the hypotheses of the properties of the components.
\<close>

theorem new_instance_ok:
  assumes "OneBaseInstance_init name file n = Inr inst" and "n \<le> 2 ^ 31"
  shows "bpm_inv (GetBufferPoolManager inst) \<and> pool_rel (GetBufferPoolManager inst) (cat_store (GetCatalog inst)) \<and>
    lm_inv (lock_manager (txn_mgr inst)) \<and> cat_ok (GetCatalog inst) \<and>
    (0 < n \<longrightarrow> db_rows (GetCatalog inst) R) \<and> indexes_fresh (GetCatalog inst) R"
proof -
  obtain contents where inst: "bpm inst = BufferPoolManager_init n (DiskManager_open contents) 10"
    "txn_mgr inst = TransactionManager_init LockManager_init"
    "catalog inst = Catalog_init (ps_init n (next_page_id (DiskManager_open contents)))"
    using OneBaseInstance_init_ok [OF assms(1)] .
  have "stream_good (DiskManager_open contents)" "0 \<le> next_page_id (DiskManager_open contents)"
    by (simp_all add: stream_good_def DiskManager_open_def)
  from bpm_inv_init [OF _ assms(2) this, of 10] pool_rel_init [OF _ assms(2) this, of 10] show ?thesis
    by (simp add: inst GetBufferPoolManager_def GetCatalog_def TransactionManager_init_def lm_inv_init cat_ok_init)
      (simp add: db_rows_def ps_init_def Catalog_init_def GetTable_oid_def indexes_fresh_def GetAllIndexes_def)
qed


section \<open>Witnesses\<close>

theorem new_instance_ok_witness:
  "\<exists>inst. OneBaseInstance_init ''onebase.db'' (Existing (replicate PAGE_SIZE 7)) DEFAULT_BUFFER_POOL_SIZE = Inr inst \<and>
     bpm_inv (GetBufferPoolManager inst) \<and> pool_rel (GetBufferPoolManager inst) (cat_store (GetCatalog inst))"
proof -
  obtain inst where "OneBaseInstance_init ''onebase.db'' (Existing (replicate PAGE_SIZE 7)) DEFAULT_BUFFER_POOL_SIZE = Inr inst"
    by (simp add: OneBaseInstance_init_def DiskManager_init_def)
  with new_instance_ok [OF this] show ?thesis by (simp add: DEFAULT_BUFFER_POOL_SIZE_def)
qed


end
