(* ===== verification/Programs.thy ===== *)
theory Programs
  imports Instance
begin

text \<open>
  The \<open>main\<close> functions of server, client and shell, up to the loops of \<open>Server\<close> and \<open>Server_Threads\<close>. What the
  operating system answers is an argument: the options that \<open>getopt\<close> returns one by one with their arguments, the
  file under the name of the database, and the errors of the socket calls as texts. A result is the exit
  code, or the exception that leaves \<open>main\<close> and ends the program, with the console output.
\<close>

section \<open>Numbers in arguments\<close>

text \<open>\<open>std::stoi\<close>: white space, a sign, digits; what follows is ignored.\<close>

definition isdigit :: "char \<Rightarrow> bool" where
  "isdigit c \<longleftrightarrow> 48 \<le> (of_char c :: nat) \<and> (of_char c :: nat) \<le> 57"

definition stoi :: "string \<Rightarrow> error + int" where
  "stoi text =
     (let s = dropWhile isspace text;
          negative = (s \<noteq> [] \<and> hd s = CHR ''-'');
          ds = takeWhile isdigit (if s \<noteq> [] \<and> (hd s = CHR ''-'' \<or> hd s = CHR ''+'') then tl s else s);
          n = (if negative then - int (number_of 0 ds) else int (number_of 0 ds))
      in if ds = [] then Inl (InvalidArgument ''stoi'')
         else if int32_ok n then Inr n else Inl (OutOfRange ''stoi''))"

text \<open>\<open>static_cast<uint16_t>\<close>.\<close>

definition to_port :: "int \<Rightarrow> nat" where
  "to_port n = nat (n mod 2 ^ 16)"

definition DEFAULT_SERVER_PORT :: nat where
  "DEFAULT_SERVER_PORT = 23101"

section \<open>The server\<close>

definition server_usage :: "string \<Rightarrow> console" where
  "server_usage prog = Err (''Usage: '' @ prog @ '' [options]'' @ [newline] @ ''Options:'' @ [newline] @
     ''  -d <db_file>   Database file (default: onebase.db)'' @ [newline] @
     ''  -p <port>      Listen port (default: '' @ digits_of DEFAULT_SERVER_PORT @ '')'' @ [newline] @
     ''  -h             Show this help'' @ [newline])"

text \<open>The loop over the options: an exit code, or the database file and the port.\<close>

fun server_options :: "(char \<times> string) list \<Rightarrow> string \<Rightarrow> nat \<Rightarrow> error + (int + string \<times> nat)" where
  "server_options [] db port = Inr (Inr (db, port))"
| "server_options ((opt, optarg) # opts) db port =
     (if opt = CHR ''d'' then server_options opts optarg port
      else if opt = CHR ''p'' then bind_err (stoi optarg) (\<lambda>n. server_options opts db (to_port n))
      else Inr (Inl (if opt = CHR ''h'' then 0 else 1)))"

record os_errors =
  socket_error :: "string option"
  bind_error :: "string option"
  listen_error :: "string option"

definition perror :: "string \<Rightarrow> string \<Rightarrow> console" where
  "perror name text = Err (name @ '': '' @ text @ [newline])"

datatype server_start = Exited int | Listening OneBaseInstance nat

definition server_setup ::
  "string \<Rightarrow> (char \<times> string) list \<Rightarrow> (string \<Rightarrow> db_file) \<Rightarrow> os_errors \<Rightarrow> (server_start, console list) outcome" where
  "server_setup prog opts files os =
     (case server_options opts ''onebase.db'' DEFAULT_SERVER_PORT of
        Inl e \<Rightarrow> (Inl e, [])
      | Inr (Inl code) \<Rightarrow> (Inr (Exited code), [server_usage prog])
      | Inr (Inr (db, port)) \<Rightarrow>
          let out = [Out (''OneBase Server starting...'' @ [newline]), Out (''Database file: '' @ db @ [newline])] in
          (case OneBaseInstance_init db (files db) DEFAULT_BUFFER_POOL_SIZE of
             Inl e \<Rightarrow> (Inl e, out)
           | Inr inst \<Rightarrow>
               let out = out @ [Out (''Buffer pool size: '' @ digits_of (pool_size (GetBufferPoolManager inst)) @ '' pages'' @ [newline])] in
               (case (socket_error os, bind_error os, listen_error os) of
                  (Some text, _, _) \<Rightarrow> (Inr (Exited 1), out @ [perror ''socket'' text])
                | (None, Some text, _) \<Rightarrow> (Inr (Exited 1), out @ [perror ''bind'' text])
                | (None, None, Some text) \<Rightarrow> (Inr (Exited 1), out @ [perror ''listen'' text])
                | (None, None, None) \<Rightarrow>
                    (Inr (Listening inst port), out @ [Out (''Listening on port '' @ digits_of port @ [newline]),
                       Out (''Press Ctrl+C to stop.'' @ [newline])]))))"

section \<open>The client\<close>

definition client_usage :: "string \<Rightarrow> console" where
  "client_usage prog = Err (''Usage: '' @ prog @ '' [options]'' @ [newline] @ ''Options:'' @ [newline] @
     ''  -H <host>   Server host (default: 127.0.0.1)'' @ [newline] @
     ''  -p <port>   Server port (default: '' @ digits_of DEFAULT_SERVER_PORT @ '')'' @ [newline] @
     ''  -h          Show this help'' @ [newline])"

fun client_options :: "(char \<times> string) list \<Rightarrow> string \<Rightarrow> nat \<Rightarrow> error + (int + string \<times> nat)" where
  "client_options [] host port = Inr (Inr (host, port))"
| "client_options ((opt, optarg) # opts) host port =
     (if opt = CHR ''H'' then client_options opts optarg port
      else if opt = CHR ''p'' then bind_err (stoi optarg) (\<lambda>n. client_options opts host (to_port n))
      else Inr (Inl (if opt = CHR ''h'' then 0 else 1)))"

text \<open>The network: no socket, an address that \<open>inet_pton\<close> does not read, no server there, or a connection.\<close>

datatype connection = NoSocket string | BadAddress | NotConnected string | Connected socket

definition client_main ::
  "string \<Rightarrow> (char \<times> string) list \<Rightarrow> (string \<Rightarrow> nat \<Rightarrow> connection) \<Rightarrow> string list \<Rightarrow> (int, console list) outcome" where
  "client_main prog opts network lines =
     (case client_options opts ''127.0.0.1'' DEFAULT_SERVER_PORT of
        Inl e \<Rightarrow> (Inl e, [])
      | Inr (Inl code) \<Rightarrow> (Inr code, [client_usage prog])
      | Inr (Inr (host, port)) \<Rightarrow>
          let addr = host @ '':'' @ digits_of port in
          (case network host port of
             NoSocket text \<Rightarrow> (Inr 1, [perror ''socket'' text])
           | BadAddress \<Rightarrow> (Inr 1, [Err (''Invalid address: '' @ host @ [newline])])
           | NotConnected text \<Rightarrow> (Inr 1, [Err (''Failed to connect to '' @ addr @ [newline]), perror ''connect'' text])
           | Connected fd \<Rightarrow>
               (Inr 0, [Out (''OneBase Client'' @ [newline]), Out (''Connected to '' @ addr @ [newline]),
                   Out (''Type SQL queries, or '' @ CHR 0x5C # ''q to quit.'' @ [newline])] @
                 fst (client_loop lines [] fd) @ [Out (''Disconnected.'' @ [newline])])))"

section \<open>The shell\<close>

definition shell_main ::
  "float_ops \<Rightarrow> platform \<Rightarrow> string list \<Rightarrow> (string \<Rightarrow> db_file) \<Rightarrow> string list \<Rightarrow> (int, console list) outcome option" where
  "shell_main F P args files lines =
     (let db_file = (case args of [] \<Rightarrow> ''onebase_shell.db'' | arg # _ \<Rightarrow> arg);
          out = [Out (''OneBase Interactive Shell'' @ [newline]), Out (''Database: '' @ db_file @ [newline]),
                 Out (''Type '' @ CHR 0x27 # ''help'' @ CHR 0x27 # '' for available commands, '' @ CHR 0x27 # ''quit'' @ CHR 0x27 # '' to exit.'' @ [newline])] in
      case OneBaseInstance_init db_file (files db_file) DEFAULT_BUFFER_POOL_SIZE of
        Inl e \<Rightarrow> Some (Inl e, out)
      | Inr inst \<Rightarrow>
          (case shell_loop F P lines [] (GetCatalog inst) of
             None \<Rightarrow> None
           | Some (Inl e, _) \<Rightarrow> Some (Inl e, out)
           | Some (Inr outs, _) \<Rightarrow> Some (Inr 0, out @ outs)))"

section \<open>Ports\<close>

lemma takeWhile_digits: "takeWhile isdigit (digits_of n) = digits_of n"
  using digits_chars [of _ n] by (fastforce simp: takeWhile_eq_all_conv isdigit_def)

lemma digits_head: "\<exists>c s. digits_of n = c # s \<and> isdigit c"
  using digits_not_minus [of n] digits_chars [of _ n] by (force simp: isdigit_def)

lemma digit_plain: "isdigit c \<Longrightarrow> \<not> isspace c \<and> c \<noteq> CHR ''-'' \<and> c \<noteq> CHR ''+''"
  by (auto simp: isdigit_def isspace_def)

lemma stoi_int_to_string: "stoi (int_to_string i) = (if int32_ok i then Inr i else Inl (OutOfRange ''stoi''))"
proof (cases "i < 0")
  case True
  then show ?thesis using digits_head [of "nat (- i)"]
    by (auto simp: stoi_def int_to_string_def Let_def takeWhile_digits number_of_digits isspace_def)
next
  case False
  obtain c s where d: "digits_of (nat i) = c # s" "isdigit c" using digits_head by blast
  then have "dropWhile isspace (digits_of (nat i)) = digits_of (nat i)" using digit_plain by simp
  moreover have "takeWhile isdigit s = s" using takeWhile_digits [of "nat i"] d by simp
  ultimately show ?thesis using False d digit_plain [OF d(2)] number_of_digits [of "nat i"]
    by (simp add: stoi_def int_to_string_def Let_def del: takeWhile_eq_all_conv)
qed

text \<open>
  The port that an option gives is the number modulo \<open>2 ^ 16\<close>, for server and client alike; a number that no
  \<open>int\<close> holds ends the program.
\<close>

theorem port_option_wraps:
  "server_options [(CHR ''p'', int_to_string i)] db port =
     (if int32_ok i then Inr (Inr (db, nat (i mod 2 ^ 16))) else Inl (OutOfRange ''stoi'')) \<and>
   client_options [(CHR ''p'', int_to_string i)] host port =
     (if int32_ok i then Inr (Inr (host, nat (i mod 2 ^ 16))) else Inl (OutOfRange ''stoi''))"
  by (simp add: stoi_int_to_string to_port_def)

end
