(* ===== verification/Server_Threads.thy ===== *)
theory Server_Threads
  imports Programs
begin

text \<open>
  The server at work (\<open>src/onebase_server/server_main.cpp\<close>): the accept loop, one thread per client and the handler of
  SIGINT and SIGTERM, as a step relation. The threads share the instance and one flag, without a lock. A step of a thread
  is a test of the flag, the receipt of a message, or the handling of one: the model covers the interleavings in
  which a query is not interrupted by another one, and says nothing about the others, which are data races. A thread
  that waits for its client is one that takes no step. A step that is undefined behaviour, or never ends, is no step.
\<close>

section \<open>State\<close>

datatype thread_pc = Loop | Receive | Serve MessageType string | Finished

text \<open>\<open>w_conn\<close> is the connection as it was accepted; no step reads it.\<close>

record worker =
  w_fd :: socket
  w_pc :: thread_pc
  w_conn :: socket

datatype main_pc = Check | Accept | Join | Stopped

record server =
  g_running :: bool
  g_listening :: bool
  main_at :: main_pc
  workers :: "worker list"
  db :: Catalog

definition server_init :: "Catalog \<Rightarrow> server" where
  "server_init c = \<lparr>g_running = True, g_listening = True, main_at = Check, workers = [], db = c\<rparr>"

section \<open>Steps\<close>

definition SignalHandler :: "server \<Rightarrow> server" where
  "SignalHandler s = s\<lparr>g_running := False, g_listening := False\<rparr>"

text \<open>A step of the thread that runs \<open>HandleClient\<close>.\<close>

definition client_step :: "float_ops \<Rightarrow> platform \<Rightarrow> bool \<Rightarrow> worker \<Rightarrow> Catalog \<Rightarrow> (worker, Catalog) outcome option" where
  "client_step F P running w c =
     (case w_pc w of
        Loop \<Rightarrow> Some (Inr (w\<lparr>w_pc := if running then Receive else Finished\<rparr>), c)
      | Receive \<Rightarrow>
          (case RecvMessage (w_fd w) of
             (None, fd) \<Rightarrow> Some (Inr (w\<lparr>w_fd := fd, w_pc := Finished\<rparr>), c)
           | (Some (type, data), fd) \<Rightarrow> Some (Inr (w\<lparr>w_fd := fd, w_pc := Serve type data\<rparr>), c))
      | Serve type data \<Rightarrow>
          if type = QUERY then and_then (HandleQuery F P data (w_fd w) c) (\<lambda>fd c. Some (Inr (w\<lparr>w_fd := fd, w_pc := Loop\<rparr>), c))
          else if type = TERMINATE then Some (Inr (w\<lparr>w_pc := Finished\<rparr>), c)
          else Some (Inr (w\<lparr>w_fd := snd (SendMessage ERROR ''Unknown message type'' (w_fd w)), w_pc := Loop\<rparr>), c)
      | Finished \<Rightarrow> None)"

datatype actor = Signal | Main | Worker nat

text \<open>
  \<open>accept\<close> may fail at any time, and fails once the listening socket is closed; then \<open>main\<close> looks at the flag again.
  It joins the threads when all have finished.
\<close>

inductive srv_step :: "float_ops \<Rightarrow> platform \<Rightarrow> actor \<Rightarrow> server \<Rightarrow> server \<Rightarrow> bool" for F P where
  signal: "srv_step F P Signal s (SignalHandler s)"
| check: "main_at s = Check \<Longrightarrow> srv_step F P Main s (s\<lparr>main_at := if g_running s then Accept else Join\<rparr>)"
| accept: "main_at s = Accept \<Longrightarrow> g_listening s \<Longrightarrow> outbox fd = [] \<Longrightarrow>
    srv_step F P Main s (s\<lparr>main_at := Check, workers := workers s @ [\<lparr>w_fd = fd, w_pc = Loop, w_conn = fd\<rparr>]\<rparr>)"
| accept_fails: "main_at s = Accept \<Longrightarrow> srv_step F P Main s (s\<lparr>main_at := if g_running s then Check else Join\<rparr>)"
| joined: "main_at s = Join \<Longrightarrow> \<forall>w \<in> set (workers s). w_pc w = Finished \<Longrightarrow> srv_step F P Main s (s\<lparr>main_at := Stopped\<rparr>)"
| client: "i < length (workers s) \<Longrightarrow> client_step F P (g_running s) (workers s ! i) (db s) = Some (Inr w, c) \<Longrightarrow>
    srv_step F P (Worker i) s (s\<lparr>workers := (workers s)[i := w], db := c\<rparr>)"

inductive_cases srv_stepE: "srv_step F P a s s'"

inductive srv_run :: "float_ops \<Rightarrow> platform \<Rightarrow> actor list \<Rightarrow> server \<Rightarrow> server \<Rightarrow> bool" for F P where
  start: "srv_run F P [] s s"
| move: "srv_run F P as s s' \<Longrightarrow> srv_step F P a s' s'' \<Longrightarrow> srv_run F P (as @ [a]) s s''"

section \<open>The messages of a client\<close>

lemma ReadExact_shorter: "ReadExact n fd = (Some bs, fd') \<Longrightarrow> length bs = n \<and> length (inbox fd) = n + length (inbox fd')"
proof (induction n fd arbitrary: bs rule: ReadExact.induct)
  case (1 n fd)
  show ?case
  proof (cases "n = 0")
    case True
    then show ?thesis using 1(2) by (simp add: ReadExact.simps)
  next
    case False
    obtain k ks where k: "chunk (reads fd) n = (k, ks)" by (cases "chunk (reads fd) n")
    then have "k \<le> n" by (cases "reads fd") auto
    from 1(2) False k obtain bs' where r: "take k (inbox fd) \<noteq> []" "bs = take k (inbox fd) @ bs'"
      "ReadExact (n - length (take k (inbox fd))) (fd\<lparr>inbox := drop k (inbox fd), reads := ks\<rparr>) = (Some bs', fd')"
      by (subst (asm) ReadExact.simps) (auto simp: Let_def split: if_splits prod.splits)
    from 1(1) [OF False k [symmetric] refl refl r(1) r(3)] \<open>k \<le> n\<close> r(1,2) show ?thesis by (auto simp: min_def split: if_splits)
  qed
qed

lemma RecvMessage_shorter: "RecvMessage fd = (Some m, fd') \<Longrightarrow> length (inbox fd') < length (inbox fd)"
  by (auto simp: RecvMessage_def Let_def dest!: ReadExact_shorter split: prod.splits option.splits if_splits)

text \<open>What \<open>RecvMessage\<close> delivers until the connection is closed; sending does not matter to it.\<close>

function received :: "socket \<Rightarrow> (MessageType \<times> string) list" where
  "received fd = (case RecvMessage fd of (None, _) \<Rightarrow> [] | (Some m, fd) \<Rightarrow> m # received fd)"
  by pat_completeness auto
termination by (relation "measure (length \<circ> inbox)") (auto dest: RecvMessage_shorter [OF sym])

declare received.simps [simp del]

lemma sent_commutes:
  "fd\<lparr>outbox := out, writes := ks, inbox := box, reads := ls\<rparr> = fd\<lparr>inbox := box, reads := ls, outbox := out, writes := ks\<rparr>"
  by simp

lemma ReadExact_sent: "ReadExact n (fd\<lparr>outbox := out, writes := ks\<rparr>) = map_prod id (\<lambda>fd. fd\<lparr>outbox := out, writes := ks\<rparr>) (ReadExact n fd)"
proof (induction n fd rule: ReadExact.induct)
  case (1 n fd)
  show ?case
    by (subst (1 2) ReadExact.simps) (use 1 in \<open>auto simp: Let_def sent_commutes split: prod.splits\<close>)
qed

lemma RecvMessage_sent: "RecvMessage (fd\<lparr>outbox := out, writes := ks\<rparr>) = map_prod id (\<lambda>fd. fd\<lparr>outbox := out, writes := ks\<rparr>) (RecvMessage fd)"
  by (simp add: RecvMessage_def ReadExact_sent Let_def split: prod.splits option.splits)

lemma received_sent: "received (fd\<lparr>outbox := out, writes := ks\<rparr>) = received fd"
proof (induction fd rule: received.induct)
  case (1 fd)
  show ?case
    by (subst (1 2) received.simps) (use 1 in \<open>auto simp: RecvMessage_sent split: prod.splits option.splits\<close>)
qed

lemma received_cong: "inbox fd' = inbox fd \<Longrightarrow> reads fd' = reads fd \<Longrightarrow> received fd' = received fd"
  by (cases fd; cases fd') (use received_sent [where fd = fd and out = "outbox fd'" and ks = "writes fd'"] in simp)

lemma WriteExact_reads: "inbox (snd (WriteExact buf fd)) = inbox fd \<and> reads (snd (WriteExact buf fd)) = reads fd"
proof (induction buf fd rule: WriteExact.induct)
  case (1 buf fd)
  show ?case
    by (subst (1 2) WriteExact.simps) (use 1 in \<open>auto simp: Let_def split: prod.splits\<close>)
qed

lemma SendMessage_reads: "inbox (snd (SendMessage type data fd)) = inbox fd \<and> reads (snd (SendMessage type data fd)) = reads fd"
  unfolding SendMessage_def Let_def using WriteExact_reads by (auto split: prod.splits) (metis snd_conv)+

lemma received_SendMessage: "received (snd (SendMessage type data fd)) = received fd"
  using SendMessage_reads by (intro received_cong) simp_all

section \<open>Clients that only read\<close>

definition read_only :: "float_ops \<Rightarrow> platform \<Rightarrow> Catalog \<Rightarrow> string \<Rightarrow> bool" where
  "read_only F P c sql \<longleftrightarrow> (\<exists>r. run_query F P True sql c = Some (r, c) \<and> r \<noteq> Inl UndefinedBehaviour)"

definition reads_only :: "float_ops \<Rightarrow> platform \<Rightarrow> Catalog \<Rightarrow> socket \<Rightarrow> bool" where
  "reads_only F P c fd \<longleftrightarrow> (\<forall>sql. (QUERY, sql) \<in> set (received fd) \<longrightarrow> read_only F P c sql)"

text \<open>What remains of a thread when it has the database for itself.\<close>

definition rest_of :: "float_ops \<Rightarrow> platform \<Rightarrow> worker \<Rightarrow> Catalog \<Rightarrow> (socket, Catalog) outcome option" where
  "rest_of F P w c =
     (case w_pc w of
        Serve type data \<Rightarrow>
          if type = QUERY then and_then (HandleQuery F P data (w_fd w) c) (\<lambda>fd c. HandleClient F P fd c)
          else if type = TERMINATE then Some (Inr (w_fd w), c)
          else HandleClient F P (snd (SendMessage ERROR ''Unknown message type'' (w_fd w))) c
      | Finished \<Rightarrow> Some (Inr (w_fd w), c)
      | _ \<Rightarrow> HandleClient F P (w_fd w) c)"

definition pending :: "worker \<Rightarrow> (MessageType \<times> string) list" where
  "pending w = (case w_pc w of Serve type data \<Rightarrow> (type, data) # received (w_fd w) | Finished \<Rightarrow> [] | _ \<Rightarrow> received (w_fd w))"

definition on_course :: "float_ops \<Rightarrow> platform \<Rightarrow> Catalog \<Rightarrow> worker \<Rightarrow> bool" where
  "on_course F P c w \<longleftrightarrow> rest_of F P w c = HandleClient F P (w_conn w) c \<and> set (pending w) \<subseteq> set (received (w_conn w))"

lemma HandleQuery_read_only:
  assumes "read_only F P c sql"
  obtains fd' where "HandleQuery F P sql fd c = Some (Inr fd', c)" "received fd' = received fd"
proof -
  obtain r where r: "run_query F P True sql c = Some (r, c)" "r \<noteq> Inl UndefinedBehaviour" using assms by (auto simp: read_only_def)
  show thesis using that received_SendMessage r by (cases r) (auto simp: HandleQuery_def catch_def split: prod.splits)
qed

lemma receive_course:
  assumes "RecvMessage fd = (Some (type, data), fd')"
  shows "HandleClient F P fd c = rest_of F P \<lparr>w_fd = fd', w_pc = Serve type data, w_conn = conn\<rparr> c"
    and "received fd = (type, data) # received fd'"
  using assms by (simp_all add: rest_of_def HandleClient.simps [of F P fd] received.simps [of fd])

lemma client_step_course:
  assumes "on_course F P c w" and "reads_only F P c (w_conn w)" and "client_step F P True w c = Some (Inr w', c')"
  shows "c' = c \<and> w_conn w' = w_conn w \<and> on_course F P c w'"
proof (cases "w_pc w")
  case Loop
  then show ?thesis using assms(1,3) by (auto simp: client_step_def on_course_def rest_of_def pending_def)
next
  case Receive
  show ?thesis
  proof (cases "fst (RecvMessage (w_fd w))")
    case None
    then obtain fd where "RecvMessage (w_fd w) = (None, fd)" by (metis prod.collapse)
    then show ?thesis using assms(1,3) Receive
      by (auto simp: client_step_def on_course_def rest_of_def pending_def HandleClient.simps [of F P "w_fd w"])
  next
    case (Some m)
    then obtain type data fd where r: "RecvMessage (w_fd w) = (Some (type, data), fd)" by (metis prod.collapse)
    then show ?thesis using assms(1,3) Receive receive_course(1) [OF r, of F P c "w_conn w"] receive_course(2) [OF r]
      by (cases w) (auto simp: client_step_def on_course_def rest_of_def pending_def)
  qed
next
  case (Serve type data)
  show ?thesis
  proof (cases "type = QUERY")
    case True
    then have "read_only F P c data" using assms(1,2) Serve by (simp add: on_course_def pending_def reads_only_def)
    from HandleQuery_read_only [OF this, of "w_fd w"] obtain fd' where
      "HandleQuery F P data (w_fd w) c = Some (Inr fd', c)" "received fd' = received (w_fd w)" .
    then show ?thesis using assms(1,3) Serve True by (auto simp: client_step_def on_course_def rest_of_def pending_def)
  next
    case False
    then show ?thesis using assms(1,3) Serve received_SendMessage
      by (auto simp: client_step_def on_course_def rest_of_def pending_def split: if_splits)
  qed
next
  case Finished
  then show ?thesis using assms(3) by (simp add: client_step_def)
qed

text \<open>The connections of a state are still there after a step.\<close>

lemma client_step_conn: "client_step F P b w c = Some (Inr w', c') \<Longrightarrow> w_conn w' = w_conn w"
  by (auto simp: client_step_def and_then_def split: thread_pc.splits prod.splits option.splits sum.splits if_splits)

lemma srv_step_conns: "srv_step F P a s s' \<Longrightarrow> set (map w_conn (workers s)) \<subseteq> set (map w_conn (workers s'))"
proof (cases rule: srv_stepE, assumption)
  fix i w c
  assume s': "s' = s\<lparr>workers := (workers s)[i := w], db := c\<rparr>" and i: "i < length (workers s)"
    and step: "client_step F P (g_running s) (workers s ! i) (db s) = Some (Inr w, c)"
  from client_step_conn [OF step] have "map w_conn ((workers s)[i := w]) = map w_conn (workers s)"
    using i by (simp add: map_update list_update_same_conv)
  then show ?thesis by (simp add: s')
qed (auto simp: SignalHandler_def)

definition undisturbed :: "float_ops \<Rightarrow> platform \<Rightarrow> Catalog \<Rightarrow> server \<Rightarrow> bool" where
  "undisturbed F P c s \<longleftrightarrow> g_running s \<and> db s = c \<and> (\<forall>w \<in> set (workers s). on_course F P c w)"

lemma srv_step_undisturbed:
  assumes "srv_step F P a s s'" and "a \<noteq> Signal" and "undisturbed F P c s" and "\<forall>w \<in> set (workers s). reads_only F P c (w_conn w)"
  shows "undisturbed F P c s'"
  using assms(1)
proof cases
  case (accept fd)
  then show ?thesis using assms(3) by (auto simp: undisturbed_def on_course_def rest_of_def pending_def)
next
  case (client i w c')
  then have "workers s ! i \<in> set (workers s)" by simp
  with client_step_course [of F P c "workers s ! i" w c'] client assms(3,4) have "c' = c" "on_course F P c w"
    by (auto simp: undisturbed_def)
  then show ?thesis using client(2) assms(3) set_update_subset_insert [of "workers s" i w] by (auto simp: undisturbed_def)
qed (use assms in \<open>auto simp: undisturbed_def\<close>)

lemma srv_run_undisturbed:
  assumes "srv_run F P as s s'" and "Signal \<notin> set as" and "undisturbed F P c s"
    and "\<forall>w \<in> set (workers s'). reads_only F P c (w_conn w)"
  shows "undisturbed F P c s'"
  using assms
proof (induction rule: srv_run.induct)
  case (move as s s' a s'')
  have "\<forall>w \<in> set (workers s'). reads_only F P c (w_conn w)"
    using move.prems(3) srv_step_conns [OF move.hyps(2)] by fastforce
  moreover from this have "undisturbed F P c s'" using move.IH move.prems(1,2) by simp
  moreover have "a \<noteq> Signal" using move.prems(1) by auto
  ultimately show ?case using srv_step_undisturbed [OF move.hyps(2)] by blast
qed

section \<open>Shutting down\<close>

fun thread_work :: "thread_pc \<Rightarrow> nat" where
  "thread_work Receive = 3"
| "thread_work (Serve _ _) = 2"
| "thread_work Loop = 1"
| "thread_work Finished = 0"

fun main_work :: "main_pc \<Rightarrow> nat" where
  "main_work Check = 2"
| "main_work Accept = 2"
| "main_work Join = 1"
| "main_work Stopped = 0"

definition work_left :: "server \<Rightarrow> nat" where
  "work_left s = main_work (main_at s) + sum_list (map (thread_work \<circ> w_pc) (workers s))"

lemma client_step_work: "client_step F P False w c = Some (Inr w', c') \<Longrightarrow> thread_work (w_pc w') < thread_work (w_pc w)"
  by (auto simp: client_step_def and_then_def split: thread_pc.splits prod.splits option.splits sum.splits if_splits)

lemma work_left_client:
  assumes "i < length (workers s)" and "thread_work (w_pc w) < thread_work (w_pc (workers s ! i))"
  shows "work_left (s\<lparr>workers := (workers s)[i := w], db := c\<rparr>) < work_left s"
proof -
  let ?f = "map (thread_work \<circ> w_pc)"
  have "workers s = take i (workers s) @ workers s ! i # drop (Suc i) (workers s)" using id_take_nth_drop [OF assms(1)] .
  then have "sum_list (?f (workers s)) = sum_list (?f (take i (workers s))) + thread_work (w_pc (workers s ! i)) + sum_list (?f (drop (Suc i) (workers s)))"
    by (metis (no_types, lifting) add.assoc comp_apply list.simps(9) map_append sum_list.Cons sum_list_append)
  then show ?thesis using assms by (simp add: work_left_def upd_conv_take_nth_drop)
qed

definition shut_down :: "server \<Rightarrow> bool" where
  "shut_down s \<longleftrightarrow> \<not> g_running s \<and> \<not> g_listening s"

lemma srv_step_shut_down:
  assumes "srv_step F P a s s'" and "a \<noteq> Signal" and "shut_down s"
  shows "shut_down s' \<and> length (workers s') = length (workers s) \<and> work_left s' < work_left s"
  using assms(1)
proof cases
  case (client i w c)
  then show ?thesis using client_step_work work_left_client assms(3) by (auto simp: shut_down_def)
qed (use assms in \<open>auto simp: shut_down_def work_left_def\<close>)

lemma srv_run_shut_down:
  assumes "srv_run F P as s s'" and "Signal \<notin> set as" and "shut_down s"
  shows "shut_down s' \<and> length (workers s') = length (workers s) \<and> length as + work_left s' \<le> work_left s"
  using assms
proof (induction rule: srv_run.induct)
  case (move as s s' a s'')
  then have "a \<noteq> Signal" by auto
  with move srv_step_shut_down [OF move.hyps(2)] show ?case by fastforce
qed simp

text \<open>A thread can go on unless it has finished or its query does not return.\<close>

definition answers :: "float_ops \<Rightarrow> platform \<Rightarrow> server \<Rightarrow> bool" where
  "answers F P s \<longleftrightarrow> (\<forall>w \<in> set (workers s). \<forall>sql. w_pc w = Serve QUERY sql \<longrightarrow>
     (\<exists>fd c. HandleQuery F P sql (w_fd w) (db s) = Some (Inr fd, c)))"

lemma client_step_possible:
  assumes "w_pc w \<noteq> Finished" and "\<forall>sql. w_pc w = Serve QUERY sql \<longrightarrow> (\<exists>fd c'. HandleQuery F P sql (w_fd w) c = Some (Inr fd, c'))"
  shows "\<exists>w' c'. client_step F P b w c = Some (Inr w', c')"
  using assms by (cases "w_pc w") (auto simp: client_step_def split: prod.splits option.splits)

lemma srv_step_possible:
  assumes "answers F P s" and "main_at s \<noteq> Stopped"
  shows "\<exists>a s'. a \<noteq> Signal \<and> srv_step F P a s s'"
proof (cases "main_at s = Join \<and> (\<exists>w \<in> set (workers s). w_pc w \<noteq> Finished)")
  case True
  then obtain i where i: "i < length (workers s)" "w_pc (workers s ! i) \<noteq> Finished" by (auto simp: in_set_conv_nth)
  then have "workers s ! i \<in> set (workers s)" by simp
  with client_step_possible [OF i(2), of F P "db s" "g_running s"] assms(1) obtain w c where
    "client_step F P (g_running s) (workers s ! i) (db s) = Some (Inr w, c)" unfolding answers_def by blast
  from srv_step.client [OF i(1) this] show ?thesis by blast
next
  case False
  then show ?thesis using assms(2) srv_step.check srv_step.accept_fails srv_step.joined by (cases "main_at s") blast+
qed

text \<open>Steps of others do not move a thread, and \<open>main\<close> waits for it.\<close>

lemma srv_step_waiting:
  assumes "srv_step F P a s s'" and "a \<noteq> Worker i" and "i < length (workers s)" and "w_pc (workers s ! i) \<noteq> Finished" and "main_at s \<noteq> Stopped"
  shows "i < length (workers s') \<and> workers s' ! i = workers s ! i \<and> main_at s' \<noteq> Stopped"
  using assms(1)
proof cases
  case joined
  then show ?thesis using assms(3,4) by auto
qed (use assms in \<open>auto simp: SignalHandler_def nth_append\<close>)

lemma srv_run_waiting:
  assumes "srv_run F P as s s'" and "Worker i \<notin> set as" and "i < length (workers s)" and "w_pc (workers s ! i) \<noteq> Finished" and "main_at s \<noteq> Stopped"
  shows "i < length (workers s') \<and> workers s' ! i = workers s ! i \<and> main_at s' \<noteq> Stopped"
  using assms
proof (induction rule: srv_run.induct)
  case (move as s s' a s'')
  then have "a \<noteq> Worker i" by auto
  with move srv_step_waiting [OF move.hyps(2), of i] show ?case by auto
qed simp

section \<open>Properties\<close>




section \<open>Witnesses\<close>

text \<open>Two clients of a database without tables, which send the same query and leave.\<close>

definition empty_db :: Catalog where
  "empty_db = Catalog_init (ps_init 1 0)"

definition demo_statement :: platform where
  "demo_statement = demo_platform demo_sql (PG_SelectStmt (select_star ''t'' None a_is_nine))"

definition demo_client :: worker where
  "demo_client = (let fd = idle (wire (QUERY, demo_sql) @ wire (TERMINATE, [])) in \<lparr>w_fd = fd, w_pc = Loop, w_conn = fd\<rparr>)"

fun client_steps :: "nat \<Rightarrow> worker \<Rightarrow> Catalog \<Rightarrow> (worker, Catalog) outcome option" where
  "client_steps 0 w c = Some (Inr w, c)"
| "client_steps (Suc n) w c = and_then (client_step fixed_point demo_statement True w c) (client_steps n)"

lemma srv_run_client:
  assumes "srv_run fixed_point demo_statement as s0 s" and "g_running s" and "i < length (workers s)"
    and "client_steps n (workers s ! i) (db s) = Some (Inr w, c)"
  shows "srv_run fixed_point demo_statement (as @ replicate n (Worker i)) s0 (s\<lparr>workers := (workers s)[i := w], db := c\<rparr>)"
  using assms
proof (induction n arbitrary: as s)
  case (Suc n)
  from Suc.prems(4) obtain w1 c1 where w1: "client_step fixed_point demo_statement True (workers s ! i) (db s) = Some (Inr w1, c1)"
    "client_steps n w1 c1 = Some (Inr w, c)" by (auto simp: and_then_def split: option.splits sum.splits)
  let ?s1 = "s\<lparr>workers := (workers s)[i := w1], db := c1\<rparr>"
  have "srv_run fixed_point demo_statement (as @ [Worker i]) s0 ?s1"
    using srv_run.move [OF Suc.prems(1) srv_step.client [OF Suc.prems(3)]] Suc.prems(2) w1(1) by simp
  from Suc.IH [OF this] Suc.prems(2,3) w1(2) show ?case by simp
next
  case 0
  then have "s\<lparr>workers := (workers s)[i := w], db := c\<rparr> = s" by (cases s) auto
  with 0 show ?case by simp
qed

lemma demo_statement_fails:
  "run_query fixed_point demo_statement True demo_sql empty_db = Some (Inl (RuntimeError ''Table not found: t''), empty_db)"
proof -
  have "no_tables empty_db" by (simp add: empty_db_def no_tables_def Catalog_init_def)
  moreover have "first_table (PG_SelectStmt (select_star ''t'' None a_is_nine)) = Some ''t''" by (simp add: select_star_def)
  ultimately show ?thesis using BindStatement_no_tables
    by (simp add: run_query_def BindQuery_def demo_statement_def demo_platform_def)
qed

lemma demo_client_steps:
  "\<exists>fd. client_steps 6 demo_client empty_db = Some (Inr (demo_client\<lparr>w_fd := fd, w_pc := Finished\<rparr>), empty_db) \<and>
     outbox fd = wire (ERROR, ''Table not found: t'')"
proof -
  have sendable: "sendable (QUERY, demo_sql)" "sendable (TERMINATE, [])" "sendable (ERROR, ''Table not found: t'')"
    by (simp_all add: sendable_def demo_sql_def)
  let ?fd = "w_fd demo_client"
  have fd: "0 \<notin> set (reads ?fd)" "inbox ?fd = wire (QUERY, demo_sql) @ wire (TERMINATE, [])" "outbox ?fd = []" "0 \<notin> set (writes ?fd)" "w_pc demo_client = Loop"
    by (simp_all add: demo_client_def idle_def Let_def)
  obtain ks where r: "RecvMessage ?fd = (Some (QUERY, demo_sql), ?fd\<lparr>inbox := wire (TERMINATE, []), reads := ks\<rparr>)" "0 \<notin> set ks"
    using RecvMessage_ok [OF fd(1) sendable(1) fd(2)] by blast
  let ?fd1 = "?fd\<lparr>inbox := wire (TERMINATE, []), reads := ks\<rparr>"
  obtain ls where s: "SendMessage ERROR ''Table not found: t'' ?fd1 = (True, ?fd1\<lparr>outbox := wire (ERROR, ''Table not found: t''), writes := ls\<rparr>)"
    using SendMessage_ok [of ?fd1, OF _ sendable(3)] fd(3,4) by auto
  let ?fd2 = "?fd1\<lparr>outbox := wire (ERROR, ''Table not found: t''), writes := ls\<rparr>"
  obtain ks' where t: "RecvMessage ?fd2 = (Some (TERMINATE, []), ?fd2\<lparr>inbox := [], reads := ks'\<rparr>)"
    using RecvMessage_ok [of ?fd2, OF _ sendable(2), of "[]"] r(2) by auto
  have "HandleQuery fixed_point demo_statement demo_sql ?fd1 empty_db = Some (Inr ?fd2, empty_db)"
    using s by (simp add: HandleQuery_def demo_statement_fails catch_def what_def)
  moreover have "QUERY \<noteq> TERMINATE" by (simp add: QUERY_def TERMINATE_def char_byte_def)
  ultimately have "client_steps 6 demo_client empty_db = Some (Inr (demo_client\<lparr>w_fd := ?fd2\<lparr>inbox := [], reads := ks'\<rparr>, w_pc := Finished\<rparr>), empty_db)"
    using r(1) t fd(5) by (simp add: eval_nat_numeral client_step_def)
  moreover have "outbox (?fd2\<lparr>inbox := [], reads := ks'\<rparr>) = wire (ERROR, ''Table not found: t'')" by simp
  ultimately show ?thesis by blast
qed

lemma demo_received: "received (w_conn demo_client) = [(QUERY, demo_sql), (TERMINATE, [])]"
  by code_simp

definition demo_server :: server where
  "demo_server = (server_init empty_db)\<lparr>workers := [demo_client, demo_client]\<rparr>"

lemma demo_server_reached: "srv_run fixed_point demo_statement [Main, Main, Main, Main] (server_init empty_db) demo_server"
proof -
  let ?add = "\<lambda>s. s\<lparr>workers := workers s @ [demo_client]\<rparr>"
  have accepted: "srv_run fixed_point demo_statement (as @ [Main, Main]) (server_init empty_db) (?add s)"
    if "srv_run fixed_point demo_statement as (server_init empty_db) s" "g_running s" "g_listening s" "main_at s = Check" for as s
  proof -
    let ?s = "s\<lparr>main_at := Accept\<rparr>"
    have "srv_run fixed_point demo_statement (as @ [Main]) (server_init empty_db) ?s"
      using srv_run.move [OF that(1) srv_step.check [OF that(4)]] that(2) by simp
    moreover have "srv_step fixed_point demo_statement Main ?s (?s\<lparr>main_at := Check, workers := workers ?s @ [demo_client]\<rparr>)"
      unfolding demo_client_def Let_def by (rule srv_step.accept) (use that(3) in \<open>simp_all add: idle_def\<close>)
    moreover have "?s\<lparr>main_at := Check, workers := workers ?s @ [demo_client]\<rparr> = ?add s" using that(4) by (cases s) simp
    ultimately show ?thesis using srv_run.move by fastforce
  qed
  from accepted [OF accepted [OF srv_run.start]] show ?thesis by (simp add: demo_server_def server_init_def)
qed




end
