(* ===== verification/Heap_Changes.thy ===== *)
theory Heap_Changes
  imports Table_Heap
begin

text \<open>
  Changing rows of a heap while a scan over it is in progress: deleting or updating the row under the
  iterator rewrites one slot of one page, after which the heap is well-formed, its rows are the old ones with
  that row dropped or replaced in place, and the iterator still stands on the rows that were left.
\<close>

section \<open>Chains of pages\<close>

lemma chain_unique: "chain s p qs \<Longrightarrow> chain s p qs' \<Longrightarrow> qs = qs'"
proof (induction qs arbitrary: p qs')
  case Nil
  then show ?case by (cases qs') auto
next
  case (Cons q qs)
  then show ?case by (cases qs') auto
qed

lemma chain_suffix: "chain s p (xs @ q # ys) \<Longrightarrow> chain s q (q # ys)"
  by (induction xs arbitrary: p) auto

lemma chain_distinct: "chain s p qs \<Longrightarrow> distinct qs"
proof (induction qs arbitrary: p)
  case (Cons q qs)
  from Cons.prems obtain d where d: "chain s (GetNextPageId d) qs" by auto
  have "q \<notin> set qs"
  proof
    assume "q \<in> set qs"
    then obtain xs ys where qs: "qs = xs @ q # ys" by (meson split_list)
    have "chain s q (q # ys)" using chain_suffix d unfolding qs by blast
    moreover have "chain s q (q # qs)" using Cons.prems by auto
    ultimately have "q # ys = q # qs" by (rule chain_unique)
    then have "length ys = length qs" by simp
    then show False by (simp add: qs)
  qed
  with Cons.IH [OF d] show ?case by simp
qed simp

section \<open>Replacing rows\<close>

text \<open>The chosen rows get new bytes, in place; no bytes for a row that is deleted.\<close>

definition change_rows :: "(RID \<times> byte list \<Rightarrow> bool) \<Rightarrow> (RID \<times> byte list \<Rightarrow> byte list) \<Rightarrow> (RID \<times> byte list) list \<Rightarrow> (RID \<times> byte list) list" where
  "change_rows P new rows =
     concat (map (\<lambda>row. if P row then if new row = [] then [] else [(fst row, new row)] else [row]) rows)"

abbreviation replace_row :: "RID \<Rightarrow> byte list \<Rightarrow> (RID \<times> byte list) list \<Rightarrow> (RID \<times> byte list) list" where
  "replace_row rid bs \<equiv> change_rows (\<lambda>row. fst row = rid) (\<lambda>_. bs)"

lemma change_rows_simps [simp]:
  "change_rows P new [] = []"
  "change_rows P new (row # rows) = (if P row then if new row = [] then [] else [(fst row, new row)] else [row]) @ change_rows P new rows"
  "change_rows P new (xs @ ys) = change_rows P new xs @ change_rows P new ys"
  by (simp_all add: change_rows_def)

lemma change_rows_none: "\<forall>row \<in> set rows. \<not> P row \<Longrightarrow> change_rows P new rows = rows"
  by (induction rows) simp_all

lemma change_rows_cong: "(\<And>row. row \<in> set rows \<Longrightarrow> P row = Q row) \<Longrightarrow> change_rows P new rows = change_rows Q new rows"
  by (induction rows) simp_all

lemma change_rows_delete: "change_rows P (\<lambda>_. []) rows = filter (\<lambda>row. \<not> P row) rows"
  by (induction rows) simp_all

lemma change_rows_keeps: "row \<in> set rows \<Longrightarrow> \<not> P row \<Longrightarrow> row \<in> set (change_rows P new rows)"
  by (induction rows) auto

text \<open>First one row, then others: together.\<close>

lemma change_rows_step:
  assumes "distinct (map fst rows)" and "(r, bs) \<in> set rows" and "\<forall>row. Q row \<longrightarrow> fst row \<noteq> r"
  shows "change_rows Q new (replace_row r (new (r, bs)) rows) = change_rows (\<lambda>row. row = (r, bs) \<or> Q row) new rows"
  using assms(1,2)
proof (induction rows)
  case (Cons row rows)
  show ?case
  proof (cases "fst row = r")
    case True
    then have "(r, snd row) \<in> set (row # rows)" by (cases row) simp
    from eq_key_imp_eq_value [OF Cons.prems(1) this Cons.prems(2)] True have row: "row = (r, bs)" by (cases row) simp
    have "r \<notin> fst ` set rows" using Cons.prems(1) row by simp
    then have "replace_row r (new (r, bs)) rows = rows" and
      "change_rows Q new rows = change_rows (\<lambda>row. row = (r, bs) \<or> Q row) new rows"
      by (force intro!: change_rows_none change_rows_cong)+
    then show ?thesis using row assms(3) by auto
  next
    case False
    then have "(r, bs) \<in> set rows" "row \<noteq> (r, bs)" using Cons.prems(2) by auto
    then show ?thesis using Cons False by simp
  qed
qed simp

section \<open>Rewriting one slot\<close>

definition slot_set :: "store \<Rightarrow> RID \<Rightarrow> byte list \<Rightarrow> store \<Rightarrow> bool" where
  "slot_set s rid bs s' \<longleftrightarrow>
     (\<exists>d d'. content s (GetPageId rid) = Some d \<and> GetSlotNum rid < GetNumTuples d \<and> page_ok d' \<and>
        page_rows d' = (page_rows d)[GetSlotNum rid := bs] \<and> GetNextPageId d' = GetNextPageId d \<and>
        s' = s\<lparr>content := (content s)(GetPageId rid \<mapsto> d'), saved := insert (GetPageId rid) (saved s)\<rparr>)"

lemma slot_setE:
  assumes "slot_set s rid bs s'"
  obtains d d' where "content s (GetPageId rid) = Some d" and "GetSlotNum rid < GetNumTuples d" and "page_ok d'"
    and "page_rows d' = (page_rows d)[GetSlotNum rid := bs]" and "GetNextPageId d' = GetNextPageId d"
    and "s' = s\<lparr>content := (content s)(GetPageId rid \<mapsto> d'), saved := insert (GetPageId rid) (saved s)\<rparr>"
  using assms unfolding slot_set_def by blast

lemma slot_set_frame:
  assumes "slot_set s rid bs s'"
  shows "pinned s' = pinned s" and "capacity s' = capacity s" and "next_new s' = next_new s"
  using assms by (auto elim!: slot_setE)

lemma slots_replace:
  assumes "rs ! i \<noteq> []"
  shows "concat (map (\<lambda>j. if rs[i := bs] ! j \<noteq> [] then [(RID p j, rs[i := bs] ! j)] else []) (filter (\<lambda>j. j < length rs) js)) =
    replace_row (RID p i) bs (concat (map (\<lambda>j. if rs ! j \<noteq> [] then [(RID p j, rs ! j)] else []) (filter (\<lambda>j. j < length rs) js)))"
  using assms by (induction js) (auto simp: nth_list_update)

lemma page_live_set:
  assumes "page_rows d' = (page_rows d)[i := bs]" and "i < GetNumTuples d" and "page_rows d ! i \<noteq> []"
  shows "page_live p k d' = replace_row (RID p i) bs (page_live p k d)"
    and "i < k \<Longrightarrow> page_live p k d' = page_live p k d"
proof -
  have n: "GetNumTuples d' = GetNumTuples d" using assms(1) length_page_rows by (metis length_list_update)
  have js: "filter (\<lambda>j. j < length (page_rows d)) [k..<GetNumTuples d] = [k..<GetNumTuples d]" by (auto intro!: filter_True)
  show rep: "page_live p k d' = replace_row (RID p i) bs (page_live p k d)"
    using slots_replace [OF assms(3), of bs p "[k..<GetNumTuples d]"] unfolding js by (simp only: page_live_def n assms(1))
  assume "i < k"
  then have "\<forall>row \<in> set (page_live p k d). fst row \<noteq> RID p i" by (auto simp: page_live_def split: if_splits)
  with rep show "page_live p k d' = page_live p k d" by (simp add: change_rows_none)
qed

text \<open>The heap after a slot of a live row is rewritten, and a heap that does not contain the page.\<close>

lemma slot_set_heap:
  assumes "heap_ok s first ps" and "row_at s ps rid b" and "slot_set s rid bs s'"
  shows "heap_ok s' first ps" and "heap_rows s' ps = replace_row rid bs (heap_rows s ps)"
proof -
  from row_atD [OF assms(1,2)] obtain d where d: "GetPageId rid \<in> set ps" "content s (GetPageId rid) = Some d"
    "GetSlotNum rid < GetNumTuples d" "page_rows d ! GetSlotNum rid \<noteq> []" by metis
  from assms(3) d(2) obtain d' where d': "page_ok d'" "page_rows d' = (page_rows d)[GetSlotNum rid := bs]" "GetNextPageId d' = GetNextPageId d"
    "s' = s\<lparr>content := (content s)(GetPageId rid \<mapsto> d'), saved := insert (GetPageId rid) (saved s)\<rparr>"
    by (auto elim!: slot_setE)
  show "heap_ok s' first ps" unfolding d'(4) by (rule heap_ok_update [OF assms(1) d(2) d'(1,3)])
  from d(1) obtain xs ys where ps: "ps = xs @ GetPageId rid # ys" by (meson split_list)
  have dist: "distinct ps" using assms(1) by (simp add: heap_ok_def)
  have same: "replace_row rid bs (heap_rows s qs) = heap_rows s qs" if "GetPageId rid \<notin> set qs" for qs
    using that by (intro change_rows_none) (auto simp: heap_rows_def page_live_def split: if_splits)
  have rid: "RID (GetPageId rid) (GetSlotNum rid) = rid" by (cases rid) simp
  have "heap_rows s' ps = heap_rows s xs @ page_live (GetPageId rid) 0 d' @ heap_rows s ys"
    unfolding d'(4) by (rule heap_rows_update [OF dist ps])
  also have "\<dots> = replace_row rid bs (heap_rows s xs @ page_live (GetPageId rid) 0 d @ heap_rows s ys)"
    using dist same page_live_set(1) [OF d'(2) d(3,4), of "GetPageId rid" 0] by (simp add: ps rid)
  finally show "heap_rows s' ps = replace_row rid bs (heap_rows s ps)"
    using heap_rows_split [OF d(2), of xs ys] by (simp add: ps)
qed

lemma slot_set_apart:
  assumes "heap_ok s first ps" and "GetPageId rid \<notin> set ps" and "slot_set s rid bs s'"
  shows "heap_ok s' first ps" and "heap_rows s' ps = heap_rows s ps"
proof -
  from assms(3) obtain d d' where d: "content s (GetPageId rid) = Some d" "page_ok d'" "GetNextPageId d' = GetNextPageId d"
    "s' = s\<lparr>content := (content s)(GetPageId rid \<mapsto> d'), saved := insert (GetPageId rid) (saved s)\<rparr>" by (auto elim!: slot_setE)
  show "heap_ok s' first ps" unfolding d(4) by (rule heap_ok_update [OF assms(1) d(1-3)])
  show "heap_rows s' ps = heap_rows s ps" unfolding d(4) using assms(2) by (intro heap_rows_cong) auto
qed

text \<open>The scan goes on undisturbed.\<close>

lemma slot_set_cursor:
  assumes "heap_ok s first ps" and "card (set (pinned s)) < capacity s" and "cursor s ps ((r, b) # rest)" and "slot_set s r bs s'"
  shows "cursor s' ps rest" and "r \<notin> fst ` set rest"
proof -
  from assms(1,2) have h: "ps_ok s" "\<not> ps_full s" by (auto simp: heap_ok_def ps_full_def)
  from assms(3) obtain p qs k where c: "chain s p qs" "rows_from s qs k = (r, b) # rest" "set ((r, b) # rest) \<subseteq> set (heap_rows s ps)"
    unfolding cursor_def by metis
  from seek_ok [OF h c(1), of k] c(2) obtain qs' where q: "chain s (GetPageId r) qs'" "rows_from s qs' (Suc (GetSlotNum r)) = rest" by blast
  have at: "row_at s ps r b" using c(3) by (simp add: row_at_def)
  from row_atD [OF assms(1) at] obtain d where d: "GetPageId r \<in> set ps" "content s (GetPageId r) = Some d"
    "GetSlotNum r < GetNumTuples d" "page_rows d ! GetSlotNum r \<noteq> []" by metis
  from assms(4) d(2) obtain d' where d': "page_ok d'" "page_rows d' = (page_rows d)[GetSlotNum r := bs]" "GetNextPageId d' = GetNextPageId d"
    "s' = s\<lparr>content := (content s)(GetPageId r \<mapsto> d'), saved := insert (GetPageId r) (saved s)\<rparr>"
    by (auto elim!: slot_setE)
  have "GetPageId r \<noteq> INVALID_PAGE_ID"
  proof -
    from d(1) obtain xs ys where ps: "ps = xs @ GetPageId r # ys" by (meson split_list)
    have "chain s first ps" using assms(1) by (simp add: heap_ok_def)
    from chain_suffix [OF this [unfolded ps]] show ?thesis by simp
  qed
  with q(1) obtain tl where tl: "qs' = GetPageId r # tl" by (cases qs') auto
  have dist: "GetPageId r \<notin> set tl" using chain_distinct [OF q(1)] tl by simp
  have rest: "rest = page_live (GetPageId r) (Suc (GetSlotNum r)) d @ heap_rows s tl"
    using q(2) d(2) by (simp add: tl rows_from_def)
  show out: "r \<notin> fst ` set rest"
    using dist unfolding rest by (cases r) (auto simp: page_live_def heap_rows_def split: if_splits)
  have "rows_from s' qs' (Suc (GetSlotNum r)) = rest"
  proof -
    have "heap_rows s' tl = heap_rows s tl" unfolding d'(4) using dist by (intro heap_rows_cong) auto
    then show ?thesis using page_live_set(2) [OF d'(2) d(3,4)] by (simp add: tl rows_from_def rest) (simp add: d'(4))
  qed
  moreover have "chain s' (GetPageId r) qs'" unfolding d'(4) by (rule chain_update [OF q(1) d(2) d'(1,3)])
  moreover have "set rest \<subseteq> set (heap_rows s' ps)"
    using c(3) out unfolding slot_set_heap(2) [OF assms(1) at assms(4)] by (force intro: change_rows_keeps)
  ultimately show "cursor s' ps rest" unfolding cursor_def by blast
qed

section \<open>Deleting and updating the row under the iterator\<close>

definition page_room :: "store \<Rightarrow> page_id \<Rightarrow> nat" where
  "page_room s p = GetFreeSpaceRemaining (the (content s p))"

lemma delete_slot:
  assumes "heap_ok s first ps" and "row_at s ps rid b" and "card (set (pinned s)) < capacity s"
  shows "\<exists>s'. TH_DeleteTuple rid s = (Inr (), s') \<and> slot_set s rid [] s'"
proof -
  from slot_access [OF assms] obtain d where d: "ps_fetch (GetPageId rid) s = (Inr (Some d), s\<lparr>pinned := GetPageId rid # pinned s\<rparr>)"
    "content s (GetPageId rid) = Some d" "page_ok d" "GetSlotNum rid < GetNumTuples d"
    and sto: "\<And>d'. store_page (GetPageId rid) d' (s\<lparr>pinned := GetPageId rid # pinned s\<rparr>) =
      s\<lparr>content := (content s)(GetPageId rid \<mapsto> d'), saved := insert (GetPageId rid) (saved s)\<rparr>" by blast
  from tp.del_ok [OF d(3)] d(4) obtain d1 where d1: "TP_DeleteTuple (GetSlotNum rid) d = Inr d1" "page_ok d1"
    "page_rows d1 = (page_rows d)[GetSlotNum rid := []]" "GetNextPageId d1 = GetNextPageId d" by (metis length_page_rows)
  then show ?thesis using d(1,2,4) sto by (auto simp: TH_DeleteTuple_def slot_set_def)
qed

lemma update_slot:
  assumes "heap_ok s first ps" and "row_at s ps rid b" and "card (set (pinned s)) < capacity s"
    and "length (tuple_data t) \<le> page_room s (GetPageId rid)"
  shows "\<exists>s'. TH_UpdateTuple rid t s = (Inr True, s') \<and> slot_set s rid (tuple_data t) s' \<and>
    (\<forall>p. page_room s' p = (if p = GetPageId rid then page_room s p - length (tuple_data t) else page_room s p))"
proof -
  from slot_access [OF assms(1-3)] obtain d where d: "ps_fetch (GetPageId rid) s = (Inr (Some d), s\<lparr>pinned := GetPageId rid # pinned s\<rparr>)"
    "content s (GetPageId rid) = Some d" "page_ok d" "GetSlotNum rid < GetNumTuples d"
    and sto: "\<And>d'. store_page (GetPageId rid) d' (s\<lparr>pinned := GetPageId rid # pinned s\<rparr>) =
      s\<lparr>content := (content s)(GetPageId rid \<mapsto> d'), saved := insert (GetPageId rid) (saved s)\<rparr>" by blast
  have "length (tuple_data t) \<le> GetFreeSpaceRemaining d" using assms(4) d(2) by (simp add: page_room_def)
  with tp.upd_ok [OF d(3)] d(4) obtain d1 where d1: "TP_UpdateTuple (GetSlotNum rid) (tuple_data t) d = Inr (True, d1)" "page_ok d1"
    "page_rows d1 = (page_rows d)[GetSlotNum rid := tuple_data t]" "GetNextPageId d1 = GetNextPageId d"
    "GetFreeSpaceRemaining d1 = GetFreeSpaceRemaining d - length (tuple_data t)" by (metis length_page_rows)
  then show ?thesis using d(1,2,4) sto by (auto simp: TH_UpdateTuple_def slot_set_def page_room_def)
qed

end
