(* ===== verification/Modifications.thy ===== *)
theory Modifications
  imports Heap_Changes Binder_Correct
begin

text \<open>
  What the statements that change rows do: \<open>DELETE\<close>, \<open>UPDATE\<close> and \<open>INSERT ... SELECT\<close> from the parse tree to the
  rows of the tables, while the scan that feeds them is in progress, and what they leave behind in the indexes.
\<close>

section \<open>The heaps of the tables\<close>

text \<open>The pages of each table; no page belongs to two tables, and one frame is free.\<close>

definition db_heaps :: "Catalog \<Rightarrow> (nat \<Rightarrow> page_id list) \<Rightarrow> bool" where
  "db_heaps c H \<longleftrightarrow>
     card (set (pinned (cat_store c))) < capacity (cat_store c) \<and>
     (\<forall>oid info. GetTable_oid oid c = Some info \<longrightarrow> heap_ok (cat_store c) (ti_first info) (H oid)) \<and>
     (\<forall>oid oid'. GetTable_oid oid c \<noteq> None \<longrightarrow> GetTable_oid oid' c \<noteq> None \<longrightarrow> oid \<noteq> oid' \<longrightarrow> set (H oid) \<inter> set (H oid') = {})"

definition heap_tables :: "Catalog \<Rightarrow> (nat \<Rightarrow> page_id list) \<Rightarrow> tables_rows" where
  "heap_tables c H oid = heap_rows (cat_store c) (H oid)"

lemma db_heaps_rows: "db_heaps c H \<Longrightarrow> db_rows c (heap_tables c H)"
  by (auto simp: db_heaps_def db_rows_def heap_tables_def)

text \<open>The number of slots of a page.\<close>

definition slots_of :: "store \<Rightarrow> page_id \<Rightarrow> nat option" where
  "slots_of s p = map_option GetNumTuples (content s p)"

lemma slots_of_set:
  assumes "slot_set s rid bs s'"
  shows "slots_of s' p = slots_of s p"
proof -
  from assms obtain d d' where d: "content s (GetPageId rid) = Some d" "page_rows d' = (page_rows d)[GetSlotNum rid := bs]"
    "s' = s\<lparr>content := (content s)(GetPageId rid \<mapsto> d'), saved := insert (GetPageId rid) (saved s)\<rparr>" by (rule slot_setE)
  have "GetNumTuples d' = GetNumTuples d" using arg_cong [OF d(2), of length] by simp
  with d(1) show ?thesis by (simp add: slots_of_def d(3))
qed

text \<open>A change of the rows of one heap: chosen rows are rewritten in place, nothing else happens.\<close>

definition heap_changed ::
  "store \<Rightarrow> page_id list \<Rightarrow> (RID \<times> byte list \<Rightarrow> bool) \<Rightarrow> (RID \<times> byte list \<Rightarrow> byte list) \<Rightarrow> store \<Rightarrow> bool" where
  "heap_changed s ps chosen new s' \<longleftrightarrow>
     pinned s' = pinned s \<and> capacity s' = capacity s \<and>
     (\<forall>p. slots_of s' p = slots_of s p) \<and>
     (\<forall>first. heap_ok s first ps \<longrightarrow> heap_ok s' first ps) \<and> heap_rows s' ps = change_rows chosen new (heap_rows s ps) \<and>
     (\<forall>first' ps'. set ps \<inter> set ps' = {} \<longrightarrow> heap_ok s first' ps' \<longrightarrow> heap_ok s' first' ps' \<and> heap_rows s' ps' = heap_rows s ps')"

lemma heap_changed_none: "(\<forall>row \<in> set (heap_rows s ps). \<not> chosen row) \<Longrightarrow> heap_changed s ps chosen new s"
  by (simp add: heap_changed_def change_rows_none)

lemma heap_changed_slot:
  assumes "heap_ok s first ps" and "row_at s ps r bs" and "slot_set s r (new (r, bs)) s1"
    and "heap_changed s1 ps Q new s'" and "\<forall>row. Q row \<longrightarrow> fst row \<noteq> r"
  shows "heap_changed s ps (\<lambda>row. row = (r, bs) \<or> Q row) new s'"
proof -
  have page: "GetPageId r \<in> set ps" using row_atD [OF assms(1,2)] by metis
  have dist: "distinct (map fst (heap_rows s ps))" using assms(1) by (intro heap_rows_distinct) (simp add: heap_ok_def)
  have "(r, bs) \<in> set (heap_rows s ps)" using assms(2) by (simp add: row_at_def)
  note step = change_rows_step [OF dist this assms(5)]
  have here: "heap_ok s first' ps \<Longrightarrow> heap_ok s1 first' ps" for first' using slot_set_heap(1) [OF _ assms(2,3)] .
  have other: "heap_ok s1 first' ps' \<and> heap_rows s1 ps' = heap_rows s ps'" if "set ps \<inter> set ps' = {}" "heap_ok s first' ps'" for first' ps'
    using slot_set_apart [OF that(2) _ assms(3)] page that(1) by blast
  have apart: "heap_ok s' first' ps' \<and> heap_rows s' ps' = heap_rows s ps'" if "set ps \<inter> set ps' = {}" "heap_ok s first' ps'" for first' ps'
    using assms(4) other [OF that] that(1) unfolding heap_changed_def by metis
  show ?thesis
    using assms(4) here apart slot_set_frame [OF assms(3)] slot_set_heap(2) [OF assms(1-3)] step slots_of_set [OF assms(3)]
    by (simp add: heap_changed_def)
qed

lemma heap_changed_db:
  assumes "db_heaps c H" and "GetTable_oid oid c = Some info" and "heap_changed (cat_store c) (H oid) chosen new s'"
  shows "db_heaps (c\<lparr>cat_store := s'\<rparr>) H"
    and "GetTable_oid oid' c \<noteq> None \<Longrightarrow> heap_tables (c\<lparr>cat_store := s'\<rparr>) H oid' =
      (if oid' = oid then change_rows chosen new (heap_tables c H oid) else heap_tables c H oid')"
proof -
  have get: "GetTable_oid o' (c\<lparr>cat_store := s'\<rparr>) = GetTable_oid o' c" for o' by (simp add: GetTable_oid_def)
  have apart: "set (H oid) \<inter> set (H o') = {}" if "GetTable_oid o' c \<noteq> None" "o' \<noteq> oid" for o'
    using assms(1,2) that unfolding db_heaps_def by (metis option.distinct(1))
  have ok: "heap_ok (cat_store c) (ti_first i) (H o')" if "GetTable_oid o' c = Some i" for o' i
    using assms(1) that unfolding db_heaps_def by blast
  have "heap_ok s' (ti_first i) (H o')" if "GetTable_oid o' c = Some i" for o' i
    using assms(3) ok [OF that] apart [of o'] that unfolding heap_changed_def by (cases "o' = oid") (metis option.distinct(1))+
  then show "db_heaps (c\<lparr>cat_store := s'\<rparr>) H"
    using assms(1,3) by (auto simp: db_heaps_def get heap_changed_def)
  assume "GetTable_oid oid' c \<noteq> None"
  then obtain i where i: "GetTable_oid oid' c = Some i" by blast
  show "heap_tables (c\<lparr>cat_store := s'\<rparr>) H oid' = (if oid' = oid then change_rows chosen new (heap_tables c H oid) else heap_tables c H oid')"
    using assms(3) ok [OF i] apart [of oid'] i unfolding heap_changed_def heap_tables_def by (cases "oid' = oid") auto
qed

section \<open>Modifying the table that is scanned\<close>

lemma for_each_skip: "nxt st c = nxt st' c \<Longrightarrow> for_each nxt body a st c = for_each nxt body a st' c"
  by (subst (1 2) for_each.simps) simp

text \<open>
  The body gets each row that the scan keeps, and rewrites its slot; \<open>Q\<close> is what it needs of the store for the
  rows that are left.
\<close>

lemma modify_scan:
  assumes step: "\<And>n t r bs rest s. heap_ok s (ti_first info) ps \<Longrightarrow> card (set (pinned s)) < capacity s \<Longrightarrow> row_at s ps r bs \<Longrightarrow>
      Q s ((r, bs) # rest) \<Longrightarrow> scan_row F pred (ti_schema info) (r, bs) = Inr [(t, r)] \<Longrightarrow>
      \<exists>s'. body n (t, r) (c\<lparr>cat_store := s\<rparr>) = Some (count_up n, c\<lparr>cat_store := s'\<rparr>) \<and> slot_set s r (new (r, bs)) s' \<and> Q s' rest"
    and skip: "\<And>row rest s. Q s (row # rest) \<Longrightarrow> scan_row F pred (ti_schema info) row = Inr [] \<Longrightarrow> Q s rest"
    and "heap_ok s (ti_first info) ps" and "card (set (pinned s)) < capacity s" and "cursor s ps rows" and "Q s rows"
    and "concat_err (map_err (scan_row F pred (ti_schema info)) rows) = Inr out" and "0 \<le> n" and "n + int (length out) < 2 ^ 31"
  shows "\<exists>s'. for_each (exec_Next (SeqScanExecutor F sch table pred)) body n (ScanState info (first_rid rows)) (c\<lparr>cat_store := s\<rparr>) =
      Some (Inr (n + int (length out)), c\<lparr>cat_store := s'\<rparr>) \<and>
    heap_changed s ps (\<lambda>row. row \<in> set rows \<and> scan_row F pred (ti_schema info) row \<noteq> Inr []) new s'"
  using assms(3-)
proof (induction rows arbitrary: s out n)
  case Nil
  have "for_each (exec_Next (SeqScanExecutor F sch table pred)) body n (ScanState info (first_rid [])) (c\<lparr>cat_store := s\<rparr>) =
      Some (Inr n, c\<lparr>cat_store := s\<rparr>)"
    by (subst for_each.simps) (simp add: SeqScanExecutor_def first_rid_def seq_scan_end)
  then show ?case using Nil.prems(5) by (auto intro!: exI [of _ s] heap_changed_none)
next
  case (Cons row rows)
  obtain r bs where row: "row = (r, bs)" by (cases row)
  note h = Cons.prems(1,2)
  note cur = cursor_step [OF h Cons.prems(3) [unfolded row]]
  from Cons.prems(5) obtain as out' where o: "scan_row F pred (ti_schema info) row = Inr as"
    "concat_err (map_err (scan_row F pred (ti_schema info)) rows) = Inr out'" "out = as @ out'" unfolding concat_err_Cons by blast
  let ?c = "c\<lparr>cat_store := s\<rparr>" and ?nxt = "exec_Next (SeqScanExecutor F sch table pred)"
  have nxt: "?nxt (ScanState info it) c' = seq_scan_loop F pred info it c'" for it c' by (simp add: SeqScanExecutor_def)
  have sstep: "?nxt (ScanState info (first_rid (row # rows))) ?c =
    try_err (test_predicate F pred (stored_tuple row) (ti_schema info)) (\<lambda>keep c.
      if \<not> keep then ?nxt (ScanState info (first_rid rows)) c
      else try_err (bind_err (all_values (ti_schema info) (stored_tuple row)) Tuple_init) (\<lambda>t c.
        Some (Inr (Some (t, r), ScanState info (first_rid rows)), c)) c) ?c"
  proof -
    have rid: "tuple_rid (stored_tuple row) = r" by (simp add: row stored_tuple_def)
    have "heap_ok (cat_store ?c) (ti_first info) ps" "card (set (pinned (cat_store ?c))) < capacity (cat_store ?c)"
      "cursor (cat_store ?c) ps (row # rows)" using h Cons.prems(3) by simp_all
    from seq_scan_step [OF this, of F pred info] show ?thesis unfolding nxt rid .
  qed
  show ?case
    using o(1)
  proof (cases rule: scan_row_cases)
    case skip
    have "?nxt (ScanState info (first_rid (row # rows))) ?c = ?nxt (ScanState info (first_rid rows)) ?c" using sstep skip by simp
    note go = for_each_skip [where nxt = ?nxt, OF this]
    have q: "Q s rows" using assms(2) [OF Cons.prems(4)] o(1) skip(2) by simp
    from Cons.IH [OF h cur(3) q o(2) Cons.prems(6)] Cons.prems(7) o(3) skip(2) obtain s' where
      s': "for_each ?nxt body n (ScanState info (first_rid rows)) ?c = Some (Inr (n + int (length out)), c\<lparr>cat_store := s'\<rparr>)"
      "heap_changed s ps (\<lambda>row. row \<in> set rows \<and> scan_row F pred (ti_schema info) row \<noteq> Inr []) new s'" by auto
    have same: "(\<lambda>x. x \<in> set (row # rows) \<and> scan_row F pred (ti_schema info) x \<noteq> Inr []) =
        (\<lambda>x. x \<in> set rows \<and> scan_row F pred (ti_schema info) x \<noteq> Inr [])" using o(1) skip(2) by auto
    show ?thesis unfolding go same using s' by blast
  next
    case (keep t)
    have sr: "scan_row F pred (ti_schema info) (r, bs) = Inr [(t, r)]" using o(1) keep(3) row by simp
    have at: "row_at s ps r bs" by (rule cur(4))
    from step [OF h at Cons.prems(4) [unfolded row] sr, of n] obtain s1 where
      s1: "body n (t, r) ?c = Some (count_up n, c\<lparr>cat_store := s1\<rparr>)" "slot_set s r (new (r, bs)) s1" "Q s1 rows" by blast
    have count: "count_up n = Inr (n + 1)" using Cons.prems(6,7) o(3) keep(3) by (simp add: count_up_def int32_ok_def)
    note frame = slot_set_frame [OF s1(2)] and heap = slot_set_heap [OF h(1) at s1(2)]
    note cur1 = slot_set_cursor [OF h Cons.prems(3) [unfolded row] s1(2)]
    have len: "0 \<le> n + 1" "n + 1 + int (length out') < 2 ^ 31" using Cons.prems(6,7) o(3) keep(3) by simp_all
    have free: "card (set (pinned s1)) < capacity s1" using h(2) frame by simp
    from Cons.IH [OF heap(1) free cur1(1) s1(3) o(2) len] obtain s' where
      s': "for_each ?nxt body (n + 1) (ScanState info (first_rid rows)) (c\<lparr>cat_store := s1\<rparr>) =
        Some (Inr (n + 1 + int (length out')), c\<lparr>cat_store := s'\<rparr>)"
      "heap_changed s1 ps (\<lambda>row. row \<in> set rows \<and> scan_row F pred (ti_schema info) row \<noteq> Inr []) new s'" by blast
    have "for_each ?nxt body n (ScanState info (first_rid (row # rows))) ?c = Some (Inr (n + int (length out)), c\<lparr>cat_store := s'\<rparr>)"
      using sstep keep s1(1) count s'(1) o(3) by (subst for_each.simps) (simp add: algebra_simps)
    moreover have "heap_changed s ps (\<lambda>x. x = (r, bs) \<or> x \<in> set rows \<and> scan_row F pred (ti_schema info) x \<noteq> Inr []) new s'"
      by (rule heap_changed_slot [OF h(1) at s1(2) s'(2)]) (use cur1(2) in force)
    moreover have same: "(\<lambda>x. x \<in> set (row # rows) \<and> scan_row F pred (ti_schema info) x \<noteq> Inr []) =
        (\<lambda>x. x = (r, bs) \<or> x \<in> set rows \<and> scan_row F pred (ti_schema info) x \<noteq> Inr [])" using sr row by auto
    ultimately show ?thesis unfolding same by blast
  qed
qed

section \<open>Running a modification\<close>

lemma count_row_ok: "\<exists>t. count_row n = Inr t"
  by (simp add: count_row_def Tuple_init_def SerializeTo_def GetSerializedSize_def)

lemma Execute_modify:
  assumes "CreateExecutor F p = ModifyExecutor CountSchema ch table body"
    and "exec_Init ch c = Some (Inr st, c)" and "GetTable_oid table c = Some info"
    and "for_each (exec_Next ch) (body info) 0 st c = Some (Inr n, c')"
  shows "\<exists>t. Execute F p c = Some (Inr [t], c') \<and> tuple_values t = [Value_int INTEGER n]"
proof -
  obtain t where t: "Tuple_init [Value_int INTEGER n] = Inr t" using count_row_ok by (auto simp: count_row_def)
  have "length (columns CountSchema) = 1" by (simp add: CountSchema_def Schema_init_def Let_def split: prod.splits)
  then have "length [Value_int INTEGER n] = length (columns CountSchema)" by simp
  note r = result_row_init(1) [OF t this] result_row_init(2) [OF t this, of no_rid, unfolded result_row_def fst_conv]
  let ?ex = "ModifyExecutor CountSchema ch table body"
  have "Execute F p c = for_each (exec_Next ?ex) (\<lambda>out row c.
      try_err (bind_err (all_values CountSchema (fst row)) Tuple_init) (\<lambda>t c. Some (Inr (out @ [t]), c)) c) [] (OnceState st False) c"
    using assms(1,2) by (simp add: Execute_def ModifyExecutor_def)
  also have "\<dots> = for_each (exec_Next ?ex) (\<lambda>out row c.
      try_err (bind_err (all_values CountSchema (fst row)) Tuple_init) (\<lambda>t c. Some (Inr (out @ [t]), c)) c) [t] (OnceState st True) c'"
    using assms(3,4) t r(2) by (subst for_each.simps) (simp add: ModifyExecutor_def count_row_def)
  also have "\<dots> = Some (Inr [t], c')" by (subst for_each.simps) (simp add: ModifyExecutor_def)
  finally show ?thesis using r(1) by auto
qed

text \<open>The scan of a whole table, each kept row modified.\<close>

lemma modify_table:
  assumes db: "db_heaps c H" and info: "GetTable_oid oid c = Some info"
    and rows: "\<forall>row \<in> set (heap_tables c H oid). \<exists>vs t b. row_values (ti_schema info) row = Inr vs \<and> Tuple_init vs = Inr t \<and>
      test_predicate F pred (stored_tuple row) (ti_schema info) = Inr b"
    and few: "length (heap_tables c H oid) < 2 ^ 31" and q: "Q (cat_store c) (heap_tables c H oid)"
    and step: "\<And>n t r bs rest s. heap_ok s (ti_first info) (H oid) \<Longrightarrow> card (set (pinned s)) < capacity s \<Longrightarrow> row_at s (H oid) r bs \<Longrightarrow>
      Q s ((r, bs) # rest) \<Longrightarrow> scan_row F pred (ti_schema info) (r, bs) = Inr [(t, r)] \<Longrightarrow>
      \<exists>s'. body n (t, r) (c\<lparr>cat_store := s\<rparr>) = Some (count_up n, c\<lparr>cat_store := s'\<rparr>) \<and> slot_set s r (new (r, bs)) s' \<and> Q s' rest"
    and skip: "\<And>row rest s. Q s (row # rest) \<Longrightarrow> scan_row F pred (ti_schema info) row = Inr [] \<Longrightarrow> Q s rest"
  defines "chosen \<equiv> \<lambda>row. test_predicate F pred (stored_tuple row) (ti_schema info) = Inr True"
  shows "\<exists>st s'. exec_Init (SeqScanExecutor F sch oid pred) c = Some (Inr st, c) \<and>
    for_each (exec_Next (SeqScanExecutor F sch oid pred)) body 0 st c =
      Some (Inr (int (length (filter chosen (heap_tables c H oid)))), c\<lparr>cat_store := s'\<rparr>) \<and>
    heap_changed (cat_store c) (H oid) chosen new s'"
proof -
  let ?rows = "heap_tables c H oid" and ?sch = "ti_schema info" and ?s = "cat_store c"
  from db info have h: "heap_ok ?s (ti_first info) (H oid)" "card (set (pinned ?s)) < capacity ?s" by (auto simp: db_heaps_def)
  note cur = cursor_begin [OF h, folded heap_tables_def]
  from scan_rows [OF rows] obtain out where out: "concat_err (map_err (scan_row F pred ?sch) ?rows) = Inr out"
    "map (\<lambda>r. tuple_values (fst r)) out = map (\<lambda>row. projr (row_values ?sch row)) (filter chosen ?rows)"
    unfolding chosen_def by blast
  have len: "length out = length (filter chosen ?rows)" using arg_cong [OF out(2), of length] by simp
  then have "length out < 2 ^ 31" using few length_filter_le [of chosen ?rows] by linarith
  then have "0 + int (length out) < 2 ^ 31" by simp
  have "\<exists>s'. for_each (exec_Next (SeqScanExecutor F sch oid pred)) body 0 (ScanState info (first_rid ?rows)) (c\<lparr>cat_store := ?s\<rparr>) =
      Some (Inr (0 + int (length out)), c\<lparr>cat_store := s'\<rparr>) \<and>
    heap_changed ?s (H oid) (\<lambda>row. row \<in> set ?rows \<and> scan_row F pred ?sch row \<noteq> Inr []) new s'"
  proof (rule modify_scan [where Q = Q])
    show "\<exists>s'. body n (t, r) (c\<lparr>cat_store := s\<rparr>) = Some (count_up n, c\<lparr>cat_store := s'\<rparr>) \<and> slot_set s r (new (r, bs)) s' \<and> Q s' rest"
      if "heap_ok s (ti_first info) (H oid)" "card (set (pinned s)) < capacity s" "row_at s (H oid) r bs"
        "Q s ((r, bs) # rest)" "scan_row F pred ?sch (r, bs) = Inr [(t, r)]" for n t r bs rest s using that by (rule step)
    show "Q s rest" if "Q s (row # rest)" "scan_row F pred ?sch row = Inr []" for row rest s using that by (rule skip)
  qed (fact | simp)+
  then obtain s' where s': "for_each (exec_Next (SeqScanExecutor F sch oid pred)) body 0 (ScanState info (first_rid ?rows)) c =
      Some (Inr (int (length out)), c\<lparr>cat_store := s'\<rparr>)"
    "heap_changed ?s (H oid) (\<lambda>row. row \<in> set ?rows \<and> scan_row F pred ?sch row \<noteq> Inr []) new s'" by auto
  have "scan_row F pred ?sch row \<noteq> Inr [] \<longleftrightarrow> chosen row" if "row \<in> set ?rows" for row
  proof -
    from rows that obtain vs t b where "row_values ?sch row = Inr vs" "Tuple_init vs = Inr t" "test_predicate F pred (stored_tuple row) ?sch = Inr b"
      by blast
    then show ?thesis by (simp add: scan_row_def chosen_def row_values_def)
  qed
  then have "change_rows (\<lambda>row. row \<in> set ?rows \<and> scan_row F pred ?sch row \<noteq> Inr []) new (heap_rows ?s (H oid)) =
      change_rows chosen new (heap_rows ?s (H oid))" by (intro change_rows_cong) (simp add: heap_tables_def)
  then have "heap_changed ?s (H oid) chosen new s'" using s'(2) by (simp add: heap_changed_def)
  moreover have "exec_Init (SeqScanExecutor F sch oid pred) c = Some (Inr (ScanState info (first_rid ?rows)), c)"
    using info on_store_loop_id [of "TH_Begin (ti_first info)", OF cur(1)] by (simp add: SeqScanExecutor_def)
  ultimately show ?thesis using s'(1) unfolding len by blast
qed

section \<open>DELETE\<close>

lemma delete_table:
  assumes db: "db_heaps c H" and info: "GetTable_oid oid c = Some info" and oid: "ti_oid info = oid"
    and rows: "\<forall>row \<in> set (heap_tables c H oid). \<exists>vs t b. row_values (ti_schema info) row = Inr vs \<and> Tuple_init vs = Inr t \<and>
      test_predicate F pred (stored_tuple row) (ti_schema info) = Inr b"
    and few: "length (heap_tables c H oid) < 2 ^ 31"
  defines "chosen \<equiv> \<lambda>row. test_predicate F pred (stored_tuple row) (ti_schema info) = Inr True"
  shows "\<exists>t s'. Execute F (DeletePlan CountSchema (table_scan info pred) oid) c = Some (Inr [t], c\<lparr>cat_store := s'\<rparr>) \<and>
    tuple_values t = [Value_int INTEGER (int (length (filter chosen (heap_tables c H oid))))] \<and>
    heap_changed (cat_store c) (H oid) chosen (\<lambda>_. []) s'"
proof -
  have step: "\<exists>s'. delete_row info n (t, r) (c\<lparr>cat_store := s\<rparr>) = Some (count_up n, c\<lparr>cat_store := s'\<rparr>) \<and> slot_set s r [] s' \<and> True"
    if h: "heap_ok s (ti_first info) (H oid)" "card (set (pinned s)) < capacity s" "row_at s (H oid) r bs" for n t r bs s
    using delete_slot [OF h(1,3,2)] by (auto simp: delete_row_def on_store_def)
  have "\<exists>st s'. exec_Init (SeqScanExecutor F (ti_schema info) oid pred) c = Some (Inr st, c) \<and>
    for_each (exec_Next (SeqScanExecutor F (ti_schema info) oid pred)) (delete_row info) 0 st c =
      Some (Inr (int (length (filter chosen (heap_tables c H oid)))), c\<lparr>cat_store := s'\<rparr>) \<and>
    heap_changed (cat_store c) (H oid) chosen (\<lambda>_. []) s'"
    unfolding chosen_def by (rule modify_table [where Q = "\<lambda>_ _. True", OF db info rows few]) (use step in auto)
  then obtain st s' where s': "exec_Init (SeqScanExecutor F (ti_schema info) oid pred) c = Some (Inr st, c)"
    "for_each (exec_Next (SeqScanExecutor F (ti_schema info) oid pred)) (delete_row info) 0 st c =
      Some (Inr (int (length (filter chosen (heap_tables c H oid)))), c\<lparr>cat_store := s'\<rparr>)"
    "heap_changed (cat_store c) (H oid) chosen (\<lambda>_. []) s'" by blast
  have "CreateExecutor F (DeletePlan CountSchema (table_scan info pred) oid) =
      ModifyExecutor CountSchema (SeqScanExecutor F (ti_schema info) oid pred) oid delete_row"
    by (simp add: table_scan_def DeleteExecutor_def oid)
  from Execute_modify [OF this s'(1) info s'(2)] s'(3) show ?thesis by blast
qed

text \<open>The bound condition on a stored row, for the scans that the binder makes.\<close>

lemma bound_test:
  assumes "BindExpression P [scope a info 0] n = Inr pred" and "proper n"
  shows "test_predicate F pred (stored_tuple row) (ti_schema info) = condition F P a (ti_schema info) n row"
  using row.bound [OF assms, where F = F and t = "stored_tuple row"] by (auto simp: test_predicate_def condition_def)

lemma single_scope: "\<lparr>scope_alias = a, scope_info = info, tuple_idx = i\<rparr> = scope a info i"
  by (simp add: scope_def)

text \<open>
  C38. \<open>DELETE FROM t WHERE n\<close>, bound and executed on a well-formed database, removes exactly the rows of the table
  for which the condition holds, keeps the others with their identifiers and in their order, touches no other table, and
  returns the number of removed rows, for a condition that can be evaluated on every row.
\<close>

theorem delete_where_correct:
  assumes db: "cat_ok c" "db_heaps c H" and table: "GetTable table c = Inr (Some info)"
    and sql: "parse P sql = Inr (PG_DeleteStmt table (Some n) # stmts)" "proper n" "BindQuery P sql c = Inr p"
    and rows: "\<forall>row \<in> set (heap_tables c H (ti_oid info)). \<exists>vs t b. row_values (ti_schema info) row = Inr vs \<and> Tuple_init vs = Inr t \<and>
      condition F P table (ti_schema info) n row = Inr b"
    and few: "length (heap_tables c H (ti_oid info)) < 2 ^ 31"
  shows "\<exists>t s'. Execute F p c = Some (Inr [t], c\<lparr>cat_store := s'\<rparr>) \<and> db_heaps (c\<lparr>cat_store := s'\<rparr>) H \<and>
    tuple_values t = [Value_int INTEGER (int (length (filter (\<lambda>row. condition F P table (ti_schema info) n row = Inr True)
      (heap_tables c H (ti_oid info)))))] \<and>
    (\<forall>oid. GetTable_oid oid c \<noteq> None \<longrightarrow> heap_tables (c\<lparr>cat_store := s'\<rparr>) H oid =
      (if oid = ti_oid info then filter (\<lambda>row. condition F P table (ti_schema info) n row \<noteq> Inr True) (heap_tables c H oid)
       else heap_tables c H oid))"
proof -
  from sql(1,3) have "bind_delete P table (Some n) c = Inr p" by (simp add: BindQuery_def BindStatement_def Let_def)
  with table obtain pred where b: "BindExpression P [scope table info 0] n = Inr pred" "p = DeletePlan CountSchema (table_scan info pred) (ti_oid info)"
    by (auto simp: bind_delete_def find_table_def single_scope bind_err_Inr)
  note test = bound_test [OF b(1) sql(2), of F] and info = table_by_oid [OF db(1) table]
  from delete_table [OF db(2) info refl, of F pred, unfolded test, OF rows few] obtain t s' where
    s': "Execute F p c = Some (Inr [t], c\<lparr>cat_store := s'\<rparr>)"
    "tuple_values t = [Value_int INTEGER (int (length (filter (\<lambda>row. condition F P table (ti_schema info) n row = Inr True)
      (heap_tables c H (ti_oid info)))))]"
    "heap_changed (cat_store c) (H (ti_oid info)) (\<lambda>row. condition F P table (ti_schema info) n row = Inr True) (\<lambda>_. []) s'"
    unfolding b(2) by blast
  show ?thesis
    using s'(1,2) heap_changed_db [OF db(2) info s'(3)] by (intro exI [of _ t] exI [of _ s']) (simp add: change_rows_delete)
qed

section \<open>The indexes after a deletion\<close>

lemma get_dead_row:
  assumes "heap_ok s first ps" and "card (set (pinned s)) < capacity s" and "GetPageId rid \<in> set ps"
    and "slots_of s (GetPageId rid) = Some m" and "GetSlotNum rid < m" and "rid \<notin> fst ` set (heap_rows s ps)"
  shows "TH_GetTuple rid s = (Inr \<lparr>tuple_rid = rid, tuple_data = [], tuple_values = []\<rparr>, s)"
proof -
  from assms(1,3) obtain d where d: "content s (GetPageId rid) = Some d" "page_ok d" using chain_content by (metis heap_ok_def)
  have slot: "GetSlotNum rid < length (page_rows d)" using assms(4,5) d(1) by (simp add: slots_of_def)
  have "page_rows d ! GetSlotNum rid = []"
  proof (rule ccontr)
    assume "page_rows d ! GetSlotNum rid \<noteq> []"
    then have "(rid, page_rows d ! GetSlotNum rid) \<in> set (page_live (GetPageId rid) 0 d)" using slot by (cases rid) (auto simp: page_live_def)
    then have "(rid, page_rows d ! GetSlotNum rid) \<in> set (heap_rows s ps)" using assms(3) d(1)
      by (force simp: heap_rows_def intro!: bexI [of _ "GetPageId rid"])
    then show False using assms(6) by force
  qed
  then have get: "TP_GetTuple (GetSlotNum rid) d = Inr []" using tp.get_ok [OF d(2) slot] by simp
  have "ps_ok s" "GetPageId rid \<in> set (pinned s) \<or> \<not> ps_full s" using assms(1,2) by (auto simp: heap_ok_def ps_full_def)
  from fetch_ok [OF this(1) d(1) this(2)] get show ?thesis
    by (simp add: TH_GetTuple_def Tuple_DeserializeFrom_def Tuple_empty_def Let_def)
qed

text \<open>
  C40. DELETE does not maintain the indexes: once all rows with some key of an indexed column have been deleted, a query
  for that key, which the optimizer turns into a scan of the index, reads a deleted row, and its behaviour is undefined.
\<close>

theorem index_lookup_after_delete:
  assumes db: "cat_ok c" "db_heaps c H" "indexes_fresh c (heap_tables c H)" and table: "GetTable table c = Inr (Some info)"
    and rows: "\<forall>row \<in> set (heap_tables c H (ti_oid info)). \<exists>vs t b. row_values (ti_schema info) row = Inr vs \<and> Tuple_init vs = Inr t \<and>
      test_predicate F pred (stored_tuple row) (ti_schema info) = Inr b"
    and few: "length (heap_tables c H (ti_oid info)) < 2 ^ 31"
    and index: "GetTableIndexes table c = Inr ixs" "find_point_index attr ixs = Inr (Some ix)"
    and key: "type_id v = INTEGER" "\<not> is_null v" "\<exists>row \<in> set (heap_tables c H (ti_oid info)). row_key (ti_schema info) attr row = Inr (integer v)"
    and gone: "\<forall>row \<in> set (heap_tables c H (ti_oid info)). row_key (ti_schema info) attr row = Inr (integer v) \<longrightarrow>
      test_predicate F pred (stored_tuple row) (ti_schema info) = Inr True"
    and delete: "Execute F (DeletePlan CountSchema (table_scan info pred) (ti_oid info)) c = Some (Inr out, c')"
  shows "\<exists>p. Optimize (Some c') (table_scan info (Some (Comparison Cmp_Equal (ColumnValue 0 attr INTEGER) (Constant v)))) = Inr p \<and>
    Execute F p c' = Some (Inl UndefinedBehaviour, c')"
proof -
  let ?oid = "ti_oid info" and ?sch = "ti_schema info" and ?pred = "Some (Comparison Cmp_Equal (ColumnValue 0 attr INTEGER) (Constant v))"
  let ?rows = "heap_tables c H ?oid"
  have info: "GetTable_oid ?oid c = Some info" and name: "ti_name info = table"
    using table_by_oid [OF db(1) table] GetTable_ok(2) [OF db(1)] table by blast+
  from delete_table [OF db(2) info refl rows few] delete obtain s' where c': "c' = c\<lparr>cat_store := s'\<rparr>"
    and changed: "heap_changed (cat_store c) (H ?oid) (\<lambda>row. test_predicate F pred (stored_tuple row) ?sch = Inr True) (\<lambda>_. []) s'" by auto
  have get: "GetTable_oid ?oid c' = Some info" "GetIndex_oid oid c' = GetIndex_oid oid c" "GetTableIndexes table c' = GetTableIndexes table c" for oid
    using info by (simp_all add: c' GetTable_oid_def GetIndex_oid_def GetTableIndexes_def cong: option.case_cong)
  have ix: "ix \<in> set ixs" "SupportsPointLookup ix" "hd (key_attrs ix) = attr" "map_of (indexes c) (ix_oid ix) = Some ix" "ix_table ix = table"
  proof -
    from GetTableIndexes_ok [OF db(1), of table] index(1) have all: "\<forall>ix \<in> set ixs. map_of (indexes c) (ix_oid ix) = Some ix \<and> ix_table ix = table" by auto
    then have "\<forall>ix \<in> set ixs. key_attrs ix \<noteq> []" using cat_okD(7) [OF db(1)] by blast
    from find_point_index_ok [OF this, of attr] index(2) show "ix \<in> set ixs" "SupportsPointLookup ix" "hd (key_attrs ix) = attr" by auto
    with all show "map_of (indexes c) (ix_oid ix) = Some ix" "ix_table ix = table" by blast+
  qed
  have "ix \<in> set (GetAllIndexes c)" using map_of_SomeD [OF ix(4)] by (force simp: GetAllIndexes_def)
  then have "int_rid_map ix = index_of ?sch attr ?rows"
    using db(3) ix info name unfolding indexes_fresh_def index_fresh_def by metis
  then obtain r rs where lookup: "LookupInteger ix (integer v) = Some (r # rs)" "r # rs = rids_with ?sch attr ?rows (integer v)"
    using key(3) by (cases "rids_with ?sch attr ?rows (integer v)") (auto simp: LookupInteger_def index_of_def rids_with_def filter_empty_conv)
  have "r \<in> set (rids_with ?sch attr ?rows (integer v))" using lookup(2) by (metis list.set_intros(1))
  then obtain bs where r: "(r, bs) \<in> set ?rows" "row_key ?sch attr (r, bs) = Inr (integer v)" by (auto simp: rids_with_def)
  from db(2) info have h: "heap_ok (cat_store c) (ti_first info) (H ?oid)" "card (set (pinned (cat_store c))) < capacity (cat_store c)"
    by (auto simp: db_heaps_def)
  from row_atD [OF h(1), of r bs] r(1) obtain d where d: "GetPageId r \<in> set (H ?oid)" "content (cat_store c) (GetPageId r) = Some d"
    "GetSlotNum r < GetNumTuples d" unfolding row_at_def heap_tables_def by blast
  have "distinct (map fst ?rows)" unfolding heap_tables_def using h(1) by (intro heap_rows_distinct) (simp add: heap_ok_def)
  then have dead: "r \<notin> fst ` set (heap_rows s' (H ?oid))"
    using changed r gone eq_key_imp_eq_value [of ?rows r] by (fastforce simp: heap_changed_def change_rows_delete heap_tables_def)
  have h': "heap_ok s' (ti_first info) (H ?oid)" "card (set (pinned s')) < capacity s'" "slots_of s' (GetPageId r) = Some (GetNumTuples d)"
    using changed h d(2) by (auto simp: heap_changed_def slots_of_def)
  from get_dead_row [OF h'(1,2) d(1) h'(3) d(3) dead]
  have empty: "on_store (TH_GetTuple r) c' = (Inr \<lparr>tuple_rid = r, tuple_data = [], tuple_values = []\<rparr>, c')"
    by (intro on_store_id) (simp add: c')
  have col: "Tuple_GetValue_schema ?sch \<lparr>tuple_rid = r, tuple_data = [], tuple_values = []\<rparr> attr = Inl UndefinedBehaviour"
  proof -
    from r(2) obtain col w where "GetColumn ?sch attr = Inr col" and w: "DeserializeFrom (drop (col_offset col) bs) (col_type col) = Inr w" "type_id w = INTEGER"
      by (auto simp: row_key_def Tuple_GetValue_schema_def stored_tuple_def bind_err_Inr GetAsInteger_def split: if_splits)
    moreover from w have "col_type col = INTEGER"
      by (cases "col_type col") (auto simp: DeserializeFrom_def Value_float_def Value_bool_def Value_string_def Let_def split: list.splits if_splits)
    ultimately show ?thesis by (simp add: Tuple_GetValue_schema_def DeserializeFrom_def)
  qed
  have plan: "Optimize (Some c') (table_scan info ?pred) = Inr (IndexScanPlan ?sch ?oid (ix_oid ix) (Constant v) ?pred)"
    using get name index by (simp add: table_scan_def apply_rules_def OptimizeSeqScanToIndexScan_def)
  have "Execute F (IndexScanPlan ?sch ?oid (ix_oid ix) (Constant v) ?pred) c' = Some (Inl UndefinedBehaviour, c')"
  proof -
    have "GetIndex_oid (ix_oid ix) c' = Some ix" using ix(4) get(2) by (simp add: GetIndex_oid_def)
    then have init: "IndexScan_Init F ?oid (ix_oid ix) (Constant v) c' = Some (Inr (IndexScanState (Some info) (r # rs) 0), c')"
      using get(1) ix(2) key(1,2) lookup(1) by (simp add: IndexScan_Init_def Let_def)
    have "index_scan_loop F ?pred info (r # rs) 0 c' = Some (Inl UndefinedBehaviour, c')"
      by (subst index_scan_loop.simps) (simp add: empty test_predicate_def col)
    then show ?thesis using init by (simp add: Execute_def IndexScanExecutor_def Let_def) (subst for_each.simps, simp)
  qed
  with plan show ?thesis by blast
qed

section \<open>Witnesses\<close>

text \<open>The indexed table with its row, and the statement that deletes the row.\<close>

lemma int_heaps: "db_heaps int_indexed (\<lambda>_. [0])" "heap_tables int_indexed (\<lambda>_. [0]) (Suc 0) = [(RID 0 0, [9, 0, 0, 0])]"
proof -
  have s: "cat_store int_indexed = cat_store int_catalog" "GetTable_oid oid int_indexed = GetTable_oid oid int_catalog" for oid
    by (simp_all add: int_indexed_def GetTable_oid_def)
  have "card (set (pinned (cat_store int_catalog))) < capacity (cat_store int_catalog)" by (simp add: int_catalog_def Catalog_init_def)
  then show "db_heaps int_indexed (\<lambda>_. [0])" using int_catalog_ok by (auto simp: db_heaps_def s int_info_def split: if_splits)
  show "heap_tables int_indexed (\<lambda>_. [0]) (Suc 0) = [(RID 0 0, [9, 0, 0, 0])]" using int_catalog_ok by (simp add: heap_tables_def s)
qed

lemma int_test: "test_predicate F (Some nine) (stored_tuple (RID 0 0, [9, 0, 0, 0])) demo_schema = Inr True"
  by (simp add: test_predicate_def nine_def PerformComparison_def CompareEquals_def compare_def GetAsBoolean_def)

lemma int_info_oid: "GetTable_oid 1 int_indexed = Some int_info"
  using table_by_oid [OF int_indexed_ok(1) demo_database(1)] by (simp add: int_info_def)

theorem delete_where_correct_witness:
  "\<exists>P p t s'. parse P ''DELETE FROM t WHERE a = 9'' = Inr [PG_DeleteStmt ''t'' (Some a_is_nine)] \<and>
    BindQuery P ''DELETE FROM t WHERE a = 9'' int_indexed = Inr p \<and>
    Execute fixed_point p int_indexed = Some (Inr [t], int_indexed\<lparr>cat_store := s'\<rparr>) \<and> tuple_values t = [Value_int INTEGER 1] \<and>
    heap_tables (int_indexed\<lparr>cat_store := s'\<rparr>) (\<lambda>_. [0]) 1 = []"
proof -
  let ?P = "demo_platform ''DELETE FROM t WHERE a = 9'' (PG_DeleteStmt ''t'' (Some a_is_nine))"
  have sql: "parse ?P ''DELETE FROM t WHERE a = 9'' = Inr [PG_DeleteStmt ''t'' (Some a_is_nine)]" by (simp add: demo_platform_def)
  have bound: "BindQuery ?P ''DELETE FROM t WHERE a = 9'' int_indexed = Inr (DeletePlan CountSchema (table_scan int_info (Some nine)) 1)"
    using a_is_nine_bound [of ?P "''t''" 0] sql demo_database(1)
    by (simp add: BindQuery_def BindStatement_def Let_def bind_delete_def find_table_def single_scope nine_def int_info_def)
  have fine: "proper a_is_nine" "condition fixed_point ?P ''t'' (ti_schema int_info) a_is_nine (RID 0 0, [9, 0, 0, 0]) = Inr True" "ti_oid int_info = 1"
    using a_is_nine_value by (simp_all add: a_is_nine_def int_info_def)
  have rows: "\<forall>row \<in> set (heap_tables int_indexed (\<lambda>_. [0]) (ti_oid int_info)). \<exists>vs t b. row_values (ti_schema int_info) row = Inr vs \<and>
      Tuple_init vs = Inr t \<and> condition fixed_point ?P ''t'' (ti_schema int_info) a_is_nine row = Inr b"
    and few: "length (heap_tables int_indexed (\<lambda>_. [0]) (ti_oid int_info)) < 2 ^ 31"
    using demo_database(3) nine_init fine(2) by (auto simp: fine(3) int_heaps(2))
  from delete_where_correct [OF int_indexed_ok(1) int_heaps(1) demo_database(1) sql fine(1) bound rows few] obtain t s' where
    "Execute fixed_point (DeletePlan CountSchema (table_scan int_info (Some nine)) 1) int_indexed = Some (Inr [t], int_indexed\<lparr>cat_store := s'\<rparr>)"
    "tuple_values t = [Value_int INTEGER 1]" "heap_tables (int_indexed\<lparr>cat_store := s'\<rparr>) (\<lambda>_. [0]) 1 = []"
    using fine(2) int_info_oid by (auto simp: fine(3) int_heaps(2))
  then show ?thesis using sql bound by blast
qed

theorem index_lookup_after_delete_witness:
  "\<exists>out c' p. Execute fixed_point (DeletePlan CountSchema (table_scan int_info (Some nine)) 1) int_indexed = Some (Inr out, c') \<and>
    Optimize (Some c') (int_scan (Some nine)) = Inr p \<and> Execute fixed_point p c' = Some (Inl UndefinedBehaviour, c')"
proof -
  have oid: "ti_oid int_info = 1" "ti_schema int_info = demo_schema" by (simp_all add: int_info_def)
  have fresh: "indexes_fresh int_indexed (heap_tables int_indexed (\<lambda>_. [0]))"
    using int_indexed_ok(3) int_heaps(2) unfolding indexes_fresh_def index_fresh_def
    by (auto simp: int_rows_def GetTable_oid_def int_indexed_def int_catalog_def Catalog_init_def GetAllIndexes_def split: if_splits)
  have rows: "\<forall>row \<in> set (heap_tables int_indexed (\<lambda>_. [0]) (ti_oid int_info)). \<exists>vs t b. row_values (ti_schema int_info) row = Inr vs \<and>
      Tuple_init vs = Inr t \<and> test_predicate fixed_point (Some nine) (stored_tuple row) (ti_schema int_info) = Inr b"
    using demo_database(3) nine_init int_test by (auto simp: oid int_heaps(2))
  from delete_table [OF int_heaps(1) int_info_oid oid(1), of fixed_point "Some nine"] rows
  obtain t s' where del: "Execute fixed_point (DeletePlan CountSchema (table_scan int_info (Some nine)) 1) int_indexed =
      Some (Inr [t], int_indexed\<lparr>cat_store := s'\<rparr>)" by (auto simp: oid int_heaps(2))
  have index: "GetTableIndexes ''t'' int_indexed = Inr [new_index ''i'' int_info [0] 1 (int_rows 1)]"
    "find_point_index 0 [new_index ''i'' int_info [0] 1 (int_rows 1)] = Inr (Some (new_index ''i'' int_info [0] 1 (int_rows 1)))"
    by (simp_all add: GetTableIndexes_def int_indexed_def map_at_def SupportsPointLookup_def GetLookupAttr_def point_lookup_def int_info_def Column_init_def)
  have key: "row_key demo_schema 0 (RID 0 0, [9, 0, 0, 0]) = Inr 9" using int_catalog_key by simp
  from index_lookup_after_delete [OF int_indexed_ok(1) int_heaps(1) fresh demo_database(1) rows _ index, of "Value_int INTEGER 9"] del key int_test
  obtain p where "Optimize (Some (int_indexed\<lparr>cat_store := s'\<rparr>)) (table_scan int_info (Some nine)) = Inr p"
    "Execute fixed_point p (int_indexed\<lparr>cat_store := s'\<rparr>) = Some (Inl UndefinedBehaviour, int_indexed\<lparr>cat_store := s'\<rparr>)"
    by (auto simp: oid int_heaps(2) nine_def Value_int_def [of INTEGER 9] integer_def)
  then show ?thesis using del by (auto simp: table_scan_def int_scan_def oid)
qed

end
