(* ===== verification/Update_Correct.thy ===== *)
theory Update_Correct
  imports Modifications
begin

text \<open>
  \<open>UPDATE t SET ... WHERE n\<close>: every row for which the condition holds gets its new values, in place, as long as
  the pages have room. An update never reuses the space of the old version, so the room counts every new version.
\<close>

section \<open>New values\<close>

text \<open>The value a column gets: that of the last assignment to its name, or the old one.\<close>

definition set_value ::
  "float_ops \<Rightarrow> platform \<Rightarrow> string \<Rightarrow> Schema \<Rightarrow> (string \<times> pg_node option) list \<Rightarrow> RID \<times> byte list \<Rightarrow> nat \<Rightarrow> error + Value" where
  "set_value F P table sch sets row i =
     (case map_of (rev sets) (col_name (columns sch ! i)) of
        Some (Some n) \<Rightarrow> sql_eval F P (named_value [(table, sch, stored_tuple row)]) n
      | _ \<Rightarrow> Tuple_GetValue_schema sch (stored_tuple row) i)"

definition updated ::
  "float_ops \<Rightarrow> platform \<Rightarrow> string \<Rightarrow> Schema \<Rightarrow> (string \<times> pg_node option) list \<Rightarrow> RID \<times> byte list \<Rightarrow> error + Tuple" where
  "updated F P table sch sets row = bind_err (map_err (set_value F P table sch sets row) [0..<length (columns sch)]) Tuple_init"

definition assignments_ok :: "(string \<times> pg_node option) list \<Rightarrow> bool" where
  "assignments_ok sets \<longleftrightarrow> (\<forall>(name, n) \<in> set sets. case n of None \<Rightarrow> False | Some n \<Rightarrow> proper n)"

lemma find_column_bound: "find_column name cols k = Some (i, ty) \<Longrightarrow> k \<le> i \<and> i < k + length cols"
  by (induction name cols k rule: find_column.induct) (fastforce split: if_splits)+

text \<open>The tuple that a scan makes of a row has the values of the row.\<close>

lemma materialized:
  assumes "all_values sch t0 = Inr vs" and "Tuple_init vs = Inr t"
  shows "i < length (columns sch) \<Longrightarrow> Tuple_GetValue_schema sch t i = Tuple_GetValue_schema sch t0 i"
    and "named_value [(a, sch, t)] = named_value [(a, sch, t0)]"
proof -
  have t: "tuple_values t = vs" "length vs = length (columns sch)"
    using result_row_init(1) [OF assms(2), of sch] length_all_values [OF assms(1)] by simp_all
  show same: "Tuple_GetValue_schema sch t i = Tuple_GetValue_schema sch t0 i" if "i < length (columns sch)" for i
  proof -
    from assms(1) that obtain y where "Tuple_GetValue_schema sch t0 i = Inr y"
      by (fastforce simp: all_values_def map_err_all)
    then show ?thesis using assms(1) t that by (auto simp: Tuple_GetValue_schema_def [of sch t] all_values_def map_err_all)
  qed
  show "named_value [(a, sch, t)] = named_value [(a, sch, t0)]"
  proof (intro ext)
    fix q name
    show "named_value [(a, sch, t)] q name = named_value [(a, sch, t0)] q name"
      using find_column_bound [of name "columns sch" 0] same by (auto split: option.splits)
  qed
qed

lemma bound_assignments:
  assumes "assignments_ok sets"
    and "fold_bind (\<lambda>m (name, n). bind_err (BindOptional P ss n) (\<lambda>e. Inr (m(name \<mapsto> child e)))) m0 sets = Inr m"
  shows "case map_of (rev sets) name of None \<Rightarrow> m name = m0 name
    | Some n \<Rightarrow> \<exists>x e. n = Some x \<and> proper x \<and> BindExpression P ss x = Inr e \<and> m name = Some (child e)"
  using assms
proof (induction sets arbitrary: m0)
  case (Cons s sets)
  obtain name1 n1 where s: "s = (name1, n1)" by (cases s)
  from Cons.prems(1) s obtain x where x: "n1 = Some x" "proper x" by (auto simp: assignments_ok_def split: option.splits)
  from Cons.prems(2) s x obtain e where e: "BindExpression P ss x = Inr e"
    "fold_bind (\<lambda>m (name, n). bind_err (BindOptional P ss n) (\<lambda>e. Inr (m(name \<mapsto> child e)))) (m0(name1 \<mapsto> child e)) sets = Inr m"
    by (auto simp: bind_err_Inr simp del: fun_upd_apply)
  have "assignments_ok sets" using Cons.prems(1) by (simp add: assignments_ok_def)
  from Cons.IH [OF this e(2)] show ?case using s x e(1) by (auto simp: map_of_append map_add_def split: option.splits if_splits)
qed simp

lemma update_expr_value:
  assumes "assignments_ok sets"
    and "fold_bind (\<lambda>m (name, n). bind_err (BindOptional P [scope table info 0] n) (\<lambda>e. Inr (m(name \<mapsto> child e)))) Map.empty sets = Inr m"
    and "row_values (ti_schema info) row = Inr vs" and "Tuple_init vs = Inr t" and "i < length (columns (ti_schema info))"
  shows "Evaluate F (update_expr m (columns (ti_schema info)) i) (Some (t, ti_schema info)) = set_value F P table (ti_schema info) sets row i"
proof -
  let ?name = "col_name (columns (ti_schema info) ! i)"
  note mat = materialized [OF assms(3) [unfolded row_values_def] assms(4)]
  note b = bound_assignments [OF assms(1,2), of ?name]
  show ?thesis
  proof (cases "map_of (rev sets) ?name")
    case None
    then show ?thesis using b mat(1) [OF assms(5)] by (simp add: update_expr_def set_value_def)
  next
    case (Some n)
    with b obtain x e where x: "n = Some x" "proper x" "BindExpression P [scope table info 0] x = Inr e" "m ?name = Some (child e)" by auto
    from row.bound [OF x(3,2), where F = F and t = t] obtain e' where
      "e = Some e'" "Evaluate F e' (Some (t, ti_schema info)) = sql_eval F P (named_value [(table, ti_schema info, t)]) x" by blast
    then show ?thesis using Some x mat(2) [of table] by (simp add: update_expr_def set_value_def child_def)
  qed
qed

section \<open>The update\<close>

lemma change_rows_map:
  "\<forall>row \<in> set rows. P row \<longrightarrow> new row \<noteq> [] \<Longrightarrow> change_rows P new rows = map (\<lambda>row. if P row then (fst row, new row) else row) rows"
  by (induction rows) auto

text \<open>The bytes that the new versions of the remaining rows of a page need.\<close>

definition room_for :: "page_id list \<Rightarrow> (RID \<times> byte list \<Rightarrow> bool) \<Rightarrow> (RID \<times> byte list \<Rightarrow> byte list) \<Rightarrow> store \<Rightarrow> (RID \<times> byte list) list \<Rightarrow> bool" where
  "room_for ps chosen new s rows \<longleftrightarrow>
     (\<forall>p \<in> set ps. sum_list (map (length \<circ> new) (filter (\<lambda>row. chosen row \<and> GetPageId (fst row) = p) rows)) \<le> page_room s p)"

lemma update_table:
  assumes db: "db_heaps c H" and info: "GetTable_oid oid c = Some info" and oid: "ti_oid info = oid"
    and rows: "\<forall>row \<in> set (heap_tables c H oid). \<exists>vs t b. row_values (ti_schema info) row = Inr vs \<and> Tuple_init vs = Inr t \<and>
      test_predicate F pred (stored_tuple row) (ti_schema info) = Inr b"
    and few: "length (heap_tables c H oid) < 2 ^ 31"
  defines "chosen \<equiv> \<lambda>row. test_predicate F pred (stored_tuple row) (ti_schema info) = Inr True"
  assumes new: "\<forall>row \<in> set (heap_tables c H oid). \<forall>vs t. chosen row \<longrightarrow> row_values (ti_schema info) row = Inr vs \<longrightarrow> Tuple_init vs = Inr t \<longrightarrow>
      (\<exists>t'. bind_err (map_err (\<lambda>e. Evaluate F e (Some (t, ti_schema info))) exprs) Tuple_init = Inr t' \<and> tuple_data t' = new row)"
    and room: "room_for (H oid) chosen new (cat_store c) (heap_tables c H oid)"
  shows "\<exists>t s'. Execute F (UpdatePlan CountSchema (table_scan info pred) oid exprs) c = Some (Inr [t], c\<lparr>cat_store := s'\<rparr>) \<and>
    tuple_values t = [Value_int INTEGER (int (length (filter chosen (heap_tables c H oid))))] \<and>
    heap_changed (cat_store c) (H oid) chosen new s'"
proof -
  let ?sch = "ti_schema info"
  let ?Q = "\<lambda>s rows. set rows \<subseteq> set (heap_tables c H oid) \<and> room_for (H oid) chosen new s rows"
  have step: "\<exists>s'. update_row F exprs info k (t, r) (c\<lparr>cat_store := s\<rparr>) = Some (count_up k, c\<lparr>cat_store := s'\<rparr>) \<and>
      slot_set s r (new (r, bs)) s' \<and> ?Q s' rest"
    if h: "heap_ok s (ti_first info) (H oid)" "card (set (pinned s)) < capacity s" "row_at s (H oid) r bs" "?Q s ((r, bs) # rest)"
      "scan_row F pred ?sch (r, bs) = Inr [(t, r)]" for k t r bs rest s
  proof -
    have kept: "chosen (r, bs)" and "\<exists>vs. row_values ?sch (r, bs) = Inr vs \<and> Tuple_init vs = Inr t"
      using h(5) by (auto simp: scan_row_def chosen_def row_values_def bind_err_Inr split: if_splits)
    then obtain t' where t': "bind_err (map_err (\<lambda>e. Evaluate F e (Some (t, ?sch))) exprs) Tuple_init = Inr t'" "tuple_data t' = new (r, bs)"
      using new h(4) by (metis list.set_intros(1) subset_code(1))
    have page: "GetPageId r \<in> set (H oid)" using row_atD [OF h(1,3)] by metis
    then have "length (tuple_data t') \<le> page_room s (GetPageId r)" using h(4) kept t'(2) by (auto simp: room_for_def)
    from update_slot [OF h(1,3,2) this] obtain s' where s': "TH_UpdateTuple r t' s = (Inr True, s')" "slot_set s r (tuple_data t') s'"
      "\<forall>p. page_room s' p = (if p = GetPageId r then page_room s p - length (tuple_data t') else page_room s p)" by blast
    have "room_for (H oid) chosen new s' rest"
      unfolding room_for_def
    proof
      fix p assume "p \<in> set (H oid)"
      with h(4) have "sum_list (map (length \<circ> new) (filter (\<lambda>row. chosen row \<and> GetPageId (fst row) = p) ((r, bs) # rest))) \<le> page_room s p"
        unfolding room_for_def by blast
      then show "sum_list (map (length \<circ> new) (filter (\<lambda>row. chosen row \<and> GetPageId (fst row) = p) rest)) \<le> page_room s' p"
        using kept s'(3) t'(2) by (auto split: if_splits)
    qed
    then show ?thesis using s'(1,2) t' h(4) by (auto simp: update_row_def on_store_def)
  qed
  have skip: "?Q s rest" if "?Q s (row # rest)" "scan_row F pred ?sch row = Inr []" for row rest s
  proof -
    from that(1) rows obtain vs t b where "row_values ?sch row = Inr vs" "Tuple_init vs = Inr t" "test_predicate F pred (stored_tuple row) ?sch = Inr b"
      by (meson list.set_intros(1) subsetD)
    with that(2) have "\<not> chosen row" by (simp add: scan_row_def row_values_def chosen_def split: if_splits)
    then show ?thesis using that(1) by (simp add: room_for_def)
  qed
  have "\<exists>st s'. exec_Init (SeqScanExecutor F ?sch oid pred) c = Some (Inr st, c) \<and>
    for_each (exec_Next (SeqScanExecutor F ?sch oid pred)) (update_row F exprs info) 0 st c =
      Some (Inr (int (length (filter chosen (heap_tables c H oid)))), c\<lparr>cat_store := s'\<rparr>) \<and>
    heap_changed (cat_store c) (H oid) chosen new s'"
    unfolding chosen_def
  proof (rule modify_table [where Q = ?Q, OF db info rows few])
    show "?Q (cat_store c) (heap_tables c H oid)" using room by simp
    show "\<exists>s'. update_row F exprs info k (t, r) (c\<lparr>cat_store := s\<rparr>) = Some (count_up k, c\<lparr>cat_store := s'\<rparr>) \<and>
        slot_set s r (new (r, bs)) s' \<and> ?Q s' rest"
      if "heap_ok s (ti_first info) (H oid)" "card (set (pinned s)) < capacity s" "row_at s (H oid) r bs" "?Q s ((r, bs) # rest)"
        "scan_row F pred ?sch (r, bs) = Inr [(t, r)]" for k t r bs rest s using that by (rule step)
    show "?Q s rest" if "?Q s (row # rest)" "scan_row F pred ?sch row = Inr []" for row rest s using that by (rule skip)
  qed
  then obtain st s' where s': "exec_Init (SeqScanExecutor F ?sch oid pred) c = Some (Inr st, c)"
    "for_each (exec_Next (SeqScanExecutor F ?sch oid pred)) (update_row F exprs info) 0 st c =
      Some (Inr (int (length (filter chosen (heap_tables c H oid)))), c\<lparr>cat_store := s'\<rparr>)"
    "heap_changed (cat_store c) (H oid) chosen new s'" by blast
  have "CreateExecutor F (UpdatePlan CountSchema (table_scan info pred) oid exprs) =
      ModifyExecutor CountSchema (SeqScanExecutor F ?sch oid pred) oid (update_row F exprs)"
    by (simp add: table_scan_def UpdateExecutor_def oid)
  from Execute_modify [OF this s'(1) info s'(2)] s'(3) show ?thesis by blast
qed

text \<open>
  C39. \<open>UPDATE t SET ... WHERE n\<close>, bound and executed on a well-formed database, gives every row of the table for
  which the condition holds its new values (of the last assignment to each column; the old ones elsewhere), in place
  and under its identifier, keeps the other rows and tables, and returns the number of updated rows: when all expressions
  have values and every page has room for the new versions of its rows.
\<close>

theorem update_where_correct:
  assumes db: "cat_ok c" "db_heaps c H" and table: "GetTable table c = Inr (Some info)"
    and sql: "parse P sql = Inr (PG_UpdateStmt table sets (Some n) # stmts)" "assignments_ok sets" "proper n" "BindQuery P sql c = Inr p"
    and rows: "\<forall>row \<in> set (heap_tables c H (ti_oid info)). \<exists>vs t b. row_values (ti_schema info) row = Inr vs \<and> Tuple_init vs = Inr t \<and>
      condition F P table (ti_schema info) n row = Inr b"
    and new: "\<forall>row \<in> set (heap_tables c H (ti_oid info)). condition F P table (ti_schema info) n row = Inr True \<longrightarrow>
      (\<exists>t. updated F P table (ti_schema info) sets row = Inr t \<and> tuple_data t \<noteq> [])"
    and room: "room_for (H (ti_oid info)) (\<lambda>row. condition F P table (ti_schema info) n row = Inr True)
      (\<lambda>row. tuple_data (projr (updated F P table (ti_schema info) sets row))) (cat_store c) (heap_tables c H (ti_oid info))"
    and few: "length (heap_tables c H (ti_oid info)) < 2 ^ 31"
  shows "\<exists>t s'. Execute F p c = Some (Inr [t], c\<lparr>cat_store := s'\<rparr>) \<and> db_heaps (c\<lparr>cat_store := s'\<rparr>) H \<and>
    tuple_values t = [Value_int INTEGER (int (length (filter (\<lambda>row. condition F P table (ti_schema info) n row = Inr True)
      (heap_tables c H (ti_oid info)))))] \<and>
    (\<forall>oid. GetTable_oid oid c \<noteq> None \<longrightarrow> heap_tables (c\<lparr>cat_store := s'\<rparr>) H oid =
      (if oid = ti_oid info then map (\<lambda>row. if condition F P table (ti_schema info) n row = Inr True
          then (fst row, tuple_data (projr (updated F P table (ti_schema info) sets row))) else row) (heap_tables c H oid)
       else heap_tables c H oid))"
proof -
  let ?oid = "ti_oid info" and ?sch = "ti_schema info"
  let ?chosen = "\<lambda>row. condition F P table ?sch n row = Inr True" and ?new = "\<lambda>row. tuple_data (projr (updated F P table ?sch sets row))"
  from sql(1,4) have "bind_update P table sets (Some n) c = Inr p" by (simp add: BindQuery_def BindStatement_def Let_def)
  with table obtain m pred where b: "fold_bind (\<lambda>m (name, n). bind_err (BindOptional P [scope table info 0] n) (\<lambda>e. Inr (m(name \<mapsto> child e)))) Map.empty sets = Inr m"
    "BindExpression P [scope table info 0] n = Inr pred"
    "p = UpdatePlan CountSchema (table_scan info pred) ?oid (map (update_expr m (columns ?sch)) [0..<length (columns ?sch)])"
    by (auto simp: bind_update_def find_table_def single_scope bind_err_Inr Let_def simp del: fun_upd_apply)
  note test = bound_test [OF b(2) sql(3), of F] and info = table_by_oid [OF db(1) table]
  have changed: "\<forall>row \<in> set (heap_tables c H ?oid). \<forall>vs t. ?chosen row \<longrightarrow> row_values ?sch row = Inr vs \<longrightarrow> Tuple_init vs = Inr t \<longrightarrow>
      (\<exists>t'. bind_err (map_err (\<lambda>e. Evaluate F e (Some (t, ?sch))) (map (update_expr m (columns ?sch)) [0..<length (columns ?sch)])) Tuple_init = Inr t' \<and>
      tuple_data t' = ?new row)"
  proof (intro ballI allI impI)
    fix row vs t assume that: "row \<in> set (heap_tables c H ?oid)" "?chosen row" "row_values ?sch row = Inr vs" "Tuple_init vs = Inr t"
    have "map_err (\<lambda>e. Evaluate F e (Some (t, ?sch))) (map (update_expr m (columns ?sch)) [0..<length (columns ?sch)]) =
        map_err (set_value F P table ?sch sets row) [0..<length (columns ?sch)]"
      unfolding map_err_map using update_expr_value [OF sql(2) b(1) that(3,4)] by (intro map_err_cong) auto
    then show "\<exists>t'. bind_err (map_err (\<lambda>e. Evaluate F e (Some (t, ?sch))) (map (update_expr m (columns ?sch)) [0..<length (columns ?sch)])) Tuple_init = Inr t' \<and>
      tuple_data t' = ?new row" using new that(1,2) by (auto simp: updated_def)
  qed
  from update_table [OF db(2) info refl, of F pred _ ?new, unfolded test, OF rows few changed room] obtain t s' where
    t: "Execute F p c = Some (Inr [t], c\<lparr>cat_store := s'\<rparr>)" "heap_changed (cat_store c) (H ?oid) ?chosen ?new s'"
    "tuple_values t = [Value_int INTEGER (int (length (filter ?chosen (heap_tables c H ?oid))))]" unfolding b(3) by blast
  have "change_rows ?chosen ?new (heap_tables c H ?oid) =
      map (\<lambda>row. if ?chosen row then (fst row, ?new row) else row) (heap_tables c H ?oid)"
    by (rule change_rows_map) (use new in fastforce)
  then show ?thesis using t heap_changed_db [OF db(2) info t(2)] by (intro exI [of _ t] exI [of _ s']) simp
qed

section \<open>Witness\<close>

text \<open>The page of the example has room: a fresh page less the tuple and its slot.\<close>

lemma int_room: "page_room (cat_store int_indexed) 0 = 4072"
proof -
  have "GetFreeSpaceRemaining int_page = 4072"
    using tp.ins_ok [OF fresh_page_room(1), of "[9, 0, 0, 0]"] fresh_page_room by (auto simp: int_page_def)
  then show ?thesis by (simp add: page_room_def int_indexed_def int_catalog_def Catalog_init_def)
qed

definition seven_tuple :: Tuple where
  "seven_tuple = \<lparr>tuple_rid = no_rid, tuple_data = [7, 0, 0, 0], tuple_values = [Value_int INTEGER 7]\<rparr>"

lemma seven_init: "Tuple_init [Value_int INTEGER 7] = Inr seven_tuple"
  unfolding seven_tuple_def no_rid_def by code_simp

theorem update_where_correct_witness:
  "\<exists>P p t s'. parse P ''UPDATE t SET a = 7 WHERE a = 9'' =
      Inr [PG_UpdateStmt ''t'' [(''a'', Some (PG_AConst (PGInteger 7)))] (Some a_is_nine)] \<and>
    BindQuery P ''UPDATE t SET a = 7 WHERE a = 9'' int_indexed = Inr p \<and>
    Execute fixed_point p int_indexed = Some (Inr [t], int_indexed\<lparr>cat_store := s'\<rparr>) \<and> tuple_values t = [Value_int INTEGER 1] \<and>
    heap_tables (int_indexed\<lparr>cat_store := s'\<rparr>) (\<lambda>_. [0]) 1 = [(RID 0 0, [7, 0, 0, 0])]"
proof -
  let ?sets = "[(''a'', Some (PG_AConst (PGInteger 7)))]"
  let ?sql = "''UPDATE t SET a = 7 WHERE a = 9''"
  let ?P = "demo_platform ?sql (PG_UpdateStmt ''t'' ?sets (Some a_is_nine))"
  have sql: "parse ?P ?sql = Inr [PG_UpdateStmt ''t'' ?sets (Some a_is_nine)]" by (simp add: demo_platform_def)
  define p where "p = UpdatePlan CountSchema (table_scan int_info (Some nine)) 1
    (map (update_expr [''a'' \<mapsto> Constant (Value_int INTEGER 7)] (columns demo_schema)) [0..<1])"
  have cols: "columns demo_schema = [(Column_init ''a'' INTEGER 0)\<lparr>col_offset := 0\<rparr>]"
    by (simp add: demo_schema_def Schema_init_def Let_def split: prod.splits)
  have bound: "BindQuery ?P ?sql int_indexed = Inr p"
    using a_is_nine_bound [of ?P "''t''" 0] sql demo_database(1)
    by (simp add: BindQuery_def BindStatement_def Let_def bind_update_def find_table_def single_scope nine_def int_info_def p_def child_def cols BindConstant_def)
  have fine: "proper a_is_nine" "condition fixed_point ?P ''t'' (ti_schema int_info) a_is_nine (RID 0 0, [9, 0, 0, 0]) = Inr True"
    "ti_oid int_info = 1" "assignments_ok ?sets"
    using a_is_nine_value by (simp_all add: a_is_nine_def int_info_def assignments_ok_def)
  have new: "updated fixed_point ?P ''t'' (ti_schema int_info) ?sets (RID 0 0, [9, 0, 0, 0]) = Inr seven_tuple"
    using seven_init by (simp add: updated_def set_value_def int_info_def cols Column_init_def sql_constant_def)
  have rows: "\<forall>row \<in> set (heap_tables int_indexed (\<lambda>_. [0]) (ti_oid int_info)). \<exists>vs t b. row_values (ti_schema int_info) row = Inr vs \<and>
      Tuple_init vs = Inr t \<and> condition fixed_point ?P ''t'' (ti_schema int_info) a_is_nine row = Inr b"
    and few: "length (heap_tables int_indexed (\<lambda>_. [0]) (ti_oid int_info)) < 2 ^ 31"
    and upd: "\<forall>row \<in> set (heap_tables int_indexed (\<lambda>_. [0]) (ti_oid int_info)). condition fixed_point ?P ''t'' (ti_schema int_info) a_is_nine row = Inr True \<longrightarrow>
      (\<exists>t. updated fixed_point ?P ''t'' (ti_schema int_info) ?sets row = Inr t \<and> tuple_data t \<noteq> [])"
    using demo_database(3) nine_init fine(2) new by (auto simp: fine(3) int_heaps(2) seven_tuple_def)
  have room: "room_for [0] (\<lambda>row. condition fixed_point ?P ''t'' (ti_schema int_info) a_is_nine row = Inr True)
      (\<lambda>row. tuple_data (projr (updated fixed_point ?P ''t'' (ti_schema int_info) ?sets row))) (cat_store int_indexed)
      (heap_tables int_indexed (\<lambda>_. [0]) (ti_oid int_info))"
    using fine(2) new int_room by (simp add: room_for_def fine(3) int_heaps(2) seven_tuple_def)
  from update_where_correct [OF int_indexed_ok(1) int_heaps(1) demo_database(1) sql fine(4,1) bound rows upd room few] obtain t s' where
    "Execute fixed_point p int_indexed = Some (Inr [t], int_indexed\<lparr>cat_store := s'\<rparr>)"
    "tuple_values t = [Value_int INTEGER 1]" "heap_tables (int_indexed\<lparr>cat_store := s'\<rparr>) (\<lambda>_. [0]) 1 = [(RID 0 0, [7, 0, 0, 0])]"
    using fine(2) new int_info_oid by (auto simp: fine(3) int_heaps(2) seven_tuple_def)
  then show ?thesis using sql bound by blast
qed

end
