(* ===== verification/Spec2Isabelle.thy ===== *)
theory Spec2Isabelle
  imports Buffer_Pool_Refinement Page_Guard Txn_Manager BPlus_Correct BPlus_Deletion Lock_Progress Server_Threads Update_Correct
begin

text \<open>
  OneBase: a verification development for the relational database in this repository.

  The program is a small disk-based database. From the bottom up: a disk manager that reads and
  writes pages of a file; a buffer pool that caches pages in frames, with an LRU-K replacer that
  chooses the frame to evict; page guards that tie pins and latches to scopes; values, schemas and
  tuples with their byte representation; slotted table pages and a table heap, a linked list of
  such pages; a B+ tree index over the same buffer pool; a lock manager with strict two-phase
  locking and a transaction manager.

  The theories, each with the source it models:

  \<^item> \<open>Prelude\<close>: identifiers, errors as values, \<open>size_t\<close> arithmetic, byte buffers.
  \<^item> \<open>Lru_K\<close> (\<open>buffer/lru_k_replacer.cpp\<close>): the replacer; its victim is the LRU-K victim,
    whatever the iteration order of the hash table.
  \<^item> \<open>Disk\<close> (\<open>storage/disk/disk_manager.cpp\<close>): the file and the state of its stream;
    the write/read round trip and the failed stream after a short read.
  \<^item> \<open>Buffer_Pool\<close>, \<open>Buffer_Pool_Ops\<close> (\<open>buffer/buffer_pool_manager.cpp\<close>): the
    operations, the invariant, the behaviour of each operation on every branch.
  \<^item> \<open>Page_Store\<close>: the contract of the buffer pool, a plain store of pages;
    \<open>Buffer_Pool_Refinement\<close>: the pool implements it for every sequence of calls.
  \<^item> \<open>Page_Guard\<close> (\<open>buffer/page_guard.cpp\<close>): the three guard classes.
  \<^item> \<open>Values\<close> (\<open>type/value.cpp\<close>, \<open>type/type.cpp\<close>), \<open>Tuples\<close>
    (\<open>storage/table/tuple.cpp\<close>, \<open>catalog/schema.h\<close>, \<open>catalog/column.h\<close>): values and
    their order, arithmetic and serialization; tuples against the layout of the schema.
  \<^item> \<open>Table_Page\<close> (\<open>storage/page/table_page.cpp\<close>), \<open>Table_Heap\<close>
    (\<open>storage/table/table_heap.cpp\<close>): rows in a slotted page, behind the interface
    \<open>row_page\<close>, and in a linked list of pages over the page store.
  \<^item> \<open>BPlus_Pages\<close> (\<open>storage/page/b_plus_tree_*_page.cpp\<close>): leaf and internal pages.
  \<^item> \<open>BPlus_Tree\<close> (\<open>storage/index/b_plus_tree.cpp\<close>, \<open>b_plus_tree_iterator.cpp\<close>): the
    index over the page store, every fetch, write, unpin and deletion in the order of the code;
    \<open>BPlus_Store\<close>: its symbolic execution; \<open>BPlus_Tower\<close>: the shape of the tree, level by
    level; \<open>BPlus_Insert\<close>, \<open>BPlus_Climb\<close>: the climb of a split to the root;
    \<open>BPlus_Leaves\<close>: the leaf level, searches and scans; \<open>BPlus_Insertion\<close>: \<open>Insert\<close>;
    \<open>BPlus_Correct\<close>: the contract \<open>ordered_index\<close>, which the tree satisfies. \<open>BPlus_Shrink\<close>: what borrowing and
    merging do to the pages; \<open>BPlus_Removal\<close>: what they mean for two levels of the tower; \<open>BPlus_Repair\<close>: the climb
    of an underflow to the root, by induction on the levels; \<open>BPlus_Deletion\<close>: \<open>Remove\<close> against the contract
    \<open>shrinking_index\<close>. It always leaves the right leaves, and a tree with the right keys unless an internal
    page has to borrow from its right sibling (\<open>careful\<close> says that none has to), when the code sets a wrong key.
  \<^item> \<open>Lock_Manager\<close> (\<open>concurrency/lock_manager.cpp\<close>): the calls of all transactions as
    a step relation, with mutual exclusion and two-phase locking as invariants;
    \<open>Lock_Progress\<close>: a waiting call gets its turn once the holders unlock; \<open>Txn_Manager\<close> (\<open>concurrency/transaction_manager.cpp\<close>).
  \<^item> \<open>Catalog\<close> (\<open>catalog/catalog.cpp\<close>): tables and indexes by name and by number;
    \<open>Expressions\<close> (\<open>execution/expressions/*.h\<close>): evaluation and its type safety.
  \<^item> \<open>Executors\<close>, \<open>Execution_Engine\<close> (\<open>execution/executors/*.cpp\<close>,
    \<open>execution/plans/plan_nodes.h\<close>): plans, one executor per plan node as the record of its
    \<open>Init\<close> and \<open>Next\<close>, the factory and the engine.
  \<^item> \<open>Query_Semantics\<close>: what a plan without modifications means on the rows of the tables, and
    that its executor yields these rows, behind the interface \<open>query_engine\<close>;
    \<open>Optimizer\<close> (\<open>optimizer/optimizer.cpp\<close>): both rules keep the meaning;
    \<open>Query_Equivalence\<close>: hash join against nested loop join, and sorting; \<open>Query_Correct\<close>: the
    properties of the query layer.
  \<^item> \<open>Binder\<close> (\<open>binder/binder.cpp\<close>): from parse trees to plans; \<open>Binder_Correct\<close>: bound
    expressions mean what their parse trees mean, and a \<open>SELECT\<close> with a condition gives the rows it should.
  \<^item> \<open>Heap_Changes\<close>: rewriting a slot of a heap under a scan in progress; \<open>Modifications\<close>: \<open>DELETE\<close>
    from the SQL text to the rows of the tables, and the indexes it leaves behind; \<open>Update_Correct\<close>: \<open>UPDATE\<close>.
  \<^item> \<open>Protocol\<close> (\<open>server/protocol.h\<close>): messages between server and client; \<open>Terminal\<close>: result
    tables as the server sends them and as client and shell print them; \<open>Server\<close>
    (\<open>onebase_server/server_main.cpp\<close>, \<open>onebase_client/client_main.cpp\<close>,
    \<open>tools/onebase_shell.cpp\<close>): the programs around the engine, and a query from the user's line to the screen.
  \<^item> \<open>Query_Frame\<close>: no statement changes which tables there are; \<open>Instance\<close>
    (\<open>onebase_server/onebase_instance.cpp\<close>): the objects of a database, which satisfy the invariants of their
    theories; \<open>Programs\<close>: the three \<open>main\<close> functions; \<open>Server_Threads\<close>: the server as a step relation
    of the accept loop, the client threads and the signal handler.

  Effects are explicit: an operation returns an outcome (an error or a result) and the state it
  leaves. Loops that follow page links are \<open>partial_function\<close>s into \<open>option\<close>; the properties
  show that they return on well-formed states. Each method that holds a latch is one step.
  What the C++ standard leaves undefined is the error \<open>UndefinedBehaviour\<close>.

  Bounds: page ids stay below \<open>2 ^ 31\<close>, which limits a tree to 31 levels and an insertion to 32 new pages; leaf pages
  hold at most 338 entries and internal pages 509 children, one less than the page could store; \<open>Insert\<close> needs three
  frames that are not pinned, \<open>Remove\<close> four. No operation needs fuel.

  Parameters: the SQL parser (\<open>third_party/libpg_query\<close>), floating point arithmetic and its text, the
  iteration order of hash tables where it can be seen, how many bytes a call of \<open>read\<close> or \<open>write\<close>
  transfers, what \<open>getopt\<close> and the socket calls return, and the order of evaluation where the standard leaves it open.

  Not modelled: the logger, exception classes that nothing throws, destructors that only free memory, and interleavings
  of client threads inside the handling of one message, which are data races in the code.
\<close>

end
